(* ===== verification/Lua_Prelude.thy ===== *)
theory Lua_Prelude
  imports Main "HOL-Library.Word"
begin

text \<open>
  What every theory of the development shares: the widths of the C types on the platform the
  code is modelled for (a 64-bit little-endian host, as \<^verbatim>\<open>LUAI_BITSINT\<close> of
  \<^verbatim>\<open>src/src/luaconf.h\<close> has it on such a host: \<open>int\<close> of 32 bits, \<open>size_t\<close> and pointers of
  64), the outcome of an operation that may raise a Lua error, C strings, and lemmas about lists
  and words that several components need.
\<close>

unbundle bit_operations_syntax

named_theorems field_simps_rules "reading and writing the fields of an instruction"
named_theorems lua_step "unfolding one step of a modelled operation"

type_synonym u8 = "8 word"
type_synonym u16 = "16 word"
type_synonym u32 = "32 word"
type_synonym u64 = "64 word"
type_synonym addr = "64 word"
type_synonym bytes = "char list"

abbreviation (input) INT_MAX :: int where
  "INT_MAX \<equiv> 2147483647"

abbreviation (input) MAX_INT :: int where
  "MAX_INT \<equiv> INT_MAX - 2"

section \<open>Errors\<close>

text \<open>
  The library leaves an operation by \<open>longjmp\<close> with a status and, for \<open>luaG_runerror\<close> and
  \<open>luaX_lexerror\<close>, a message. Both are values here: a status of \<^verbatim>\<open>lua.h\<close> and its text.
\<close>

datatype lua_status = ERRRUN | ERRSYNTAX | ERRMEM | ERRERR

datatype lua_error = LuaError lua_status string

type_synonym 'a result = "lua_error + 'a"

definition runerror :: "string \<Rightarrow> 'a result" where
  "runerror msg = Inl (LuaError ERRRUN msg)"

definition LUA_QL :: "string \<Rightarrow> string" where
  "LUA_QL s = CHR 0x27 # s @ [CHR 0x27]"

fun bind :: "'a result \<Rightarrow> ('a \<Rightarrow> 'b result) \<Rightarrow> 'b result" where
  "bind (Inl e) f = Inl e"
| "bind (Inr x) f = f x"

lemma bind_Inr_iff: "bind r f = Inr y \<longleftrightarrow> (\<exists>x. r = Inr x \<and> f x = Inr y)"
  by (cases r) auto

lemma bind_Inl_iff: "bind r f = Inl e \<longleftrightarrow> r = Inl e \<or> (\<exists>x. r = Inr x \<and> f x = Inl e)"
  by (cases r) auto

lemma bind_cong [fundef_cong]:
  "r = r' \<Longrightarrow> (\<And>x. r' = Inr x \<Longrightarrow> f x = f' x) \<Longrightarrow> bind r f = bind r' f'"
  by (cases r') auto

lemma runerror_neq_Inr [simp]: "runerror m \<noteq> Inr x"
  by (simp add: runerror_def)

section \<open>Bit fields\<close>

text \<open>
  A field of a word is \<open>n\<close> bits at position \<open>p\<close>; the macros of \<^verbatim>\<open>lopcodes.h\<close> all have this
  shape, so their laws are proved once here.
\<close>

definition get_field :: "nat \<Rightarrow> nat \<Rightarrow> 'a::len word \<Rightarrow> 'a word" where
  "get_field n p i = drop_bit p i AND mask n"

definition set_field :: "nat \<Rightarrow> nat \<Rightarrow> 'a::len word \<Rightarrow> 'a word \<Rightarrow> 'a word" where
  "set_field n p i v =
     (i AND NOT (push_bit p (mask n))) OR (push_bit p v AND push_bit p (mask n))"

lemma bit_get_field:
  "bit (get_field n p i) k \<longleftrightarrow> k < n \<and> k < LENGTH('a) \<and> bit i (p + k)" for i :: "'a::len word"
  by (auto simp: get_field_def bit_simps dest: bit_imp_le_length)

lemma bit_set_field:
  "bit (set_field n p i v) k \<longleftrightarrow>
     k < LENGTH('a) \<and> (if p \<le> k \<and> k < p + n then bit v (k - p) else bit i k)" for i :: "'a::len word"
  by (auto simp: set_field_def bit_simps dest: bit_imp_le_length)

lemma get_set_field_same:
  "p + n \<le> LENGTH('a) \<Longrightarrow> get_field n p (set_field n p i v) = v AND mask n" for i :: "'a::len word"
  by (rule bit_word_eqI) (auto simp: bit_get_field bit_set_field bit_simps)

lemma get_set_field_other:
  "p + n \<le> q \<or> q + m \<le> p \<Longrightarrow> get_field n p (set_field m q i v) = get_field n p i"
  for i :: "'a::len word"
  by (rule bit_word_eqI) (auto simp: bit_get_field bit_set_field dest: bit_imp_le_length)

lemma set_set_field_same:
  "set_field n p (set_field n p i v) w = set_field n p i w" for i :: "'a::len word"
  by (rule bit_word_eqI) (auto simp: bit_set_field dest: bit_imp_le_length)

lemma set_get_field:
  "set_field n p i (get_field n p i) = i" for i :: "'a::len word"
  by (rule bit_word_eqI) (auto simp: bit_get_field bit_set_field dest: bit_imp_le_length)

lemma uint_and_mask: "uint (v AND mask n) = uint v mod 2 ^ n" for v :: "'a::len word"
  by (simp add: take_bit_eq_mask [symmetric] take_bit_eq_mod [symmetric] unsigned_take_bit_eq)

lemma unat_and_mask: "unat (v AND mask n) = unat v mod 2 ^ n" for v :: "'a::len word"
  by (simp add: take_bit_eq_mask [symmetric] take_bit_eq_mod [symmetric] unsigned_take_bit_eq)

lemma get_field_eqD:
  "get_field n p i = get_field n p j \<Longrightarrow> p \<le> k \<Longrightarrow> k < p + n \<Longrightarrow> bit i k = bit j k"
  for i j :: "'a::len word"
proof (cases "k < LENGTH('a)")
  case True
  assume "get_field n p i = get_field n p j" and k: "p \<le> k" "k < p + n"
  then have "bit (get_field n p i) (k - p) = bit (get_field n p j) (k - p)"
    by simp
  then show ?thesis
    using k True by (auto simp: bit_get_field)
qed (auto dest: bit_imp_le_length)

section \<open>Lists\<close>

lemma nth_upd: "xs[i := x] ! j = (if i = j \<and> i < length xs then x else xs ! j)"
  by (cases "i < length xs") (auto simp: nth_list_update list_update_beyond)

lemma nth_list_update_map: "i < length xs \<Longrightarrow> map f (xs[i := x]) = (map f xs)[i := f x]"
  by (simp add: map_update)

end
