(* ===== verification/Lua_Opcodes.thy ===== *)
theory Lua_Opcodes
  imports Lua_Prelude
begin

text \<open>
  Instructions of the virtual machine: \<^verbatim>\<open>src/src/lopcodes.h\<close> and \<^verbatim>\<open>src/src/lopcodes.c\<close>. An
  instruction is a 32-bit word; the macros that read and write its fields are definitions of the
  same names, on the C \<open>int\<close> arguments as \<open>int\<close>. The opcode is an enumeration in C, so the
  field can hold a number that names no opcode: \<open>GET_OPCODE\<close> gives the number and \<open>opnum\<close> the
  number of each opcode.
\<close>

type_synonym Instruction = u32

datatype OpMode = iABC | iABx | iAsBx

datatype OpCode =
    OP_MOVE | OP_LOADK | OP_LOADBOOL | OP_LOADNIL | OP_GETUPVAL | OP_GETGLOBAL | OP_GETTABLE
  | OP_SETGLOBAL | OP_SETUPVAL | OP_SETTABLE | OP_NEWTABLE | OP_SELF | OP_ADD | OP_SUB | OP_MUL
  | OP_DIV | OP_MOD | OP_POW | OP_UNM | OP_NOT | OP_LEN | OP_CONCAT | OP_JMP | OP_EQ | OP_LT
  | OP_LE | OP_TEST | OP_TESTSET | OP_CALL | OP_TAILCALL | OP_RETURN | OP_FORLOOP | OP_FORPREP
  | OP_TFORLOOP | OP_SETLIST | OP_CLOSE | OP_CLOSURE | OP_VARARG

definition all_opcodes :: "OpCode list" where
  "all_opcodes =
    [OP_MOVE, OP_LOADK, OP_LOADBOOL, OP_LOADNIL, OP_GETUPVAL, OP_GETGLOBAL, OP_GETTABLE,
     OP_SETGLOBAL, OP_SETUPVAL, OP_SETTABLE, OP_NEWTABLE, OP_SELF, OP_ADD, OP_SUB, OP_MUL,
     OP_DIV, OP_MOD, OP_POW, OP_UNM, OP_NOT, OP_LEN, OP_CONCAT, OP_JMP, OP_EQ, OP_LT,
     OP_LE, OP_TEST, OP_TESTSET, OP_CALL, OP_TAILCALL, OP_RETURN, OP_FORLOOP, OP_FORPREP,
     OP_TFORLOOP, OP_SETLIST, OP_CLOSE, OP_CLOSURE, OP_VARARG]"

fun opnum :: "OpCode \<Rightarrow> nat" where
  "opnum OP_MOVE = 0" | "opnum OP_LOADK = 1" | "opnum OP_LOADBOOL = 2" | "opnum OP_LOADNIL = 3"
| "opnum OP_GETUPVAL = 4" | "opnum OP_GETGLOBAL = 5" | "opnum OP_GETTABLE = 6"
| "opnum OP_SETGLOBAL = 7" | "opnum OP_SETUPVAL = 8" | "opnum OP_SETTABLE = 9"
| "opnum OP_NEWTABLE = 10" | "opnum OP_SELF = 11" | "opnum OP_ADD = 12" | "opnum OP_SUB = 13"
| "opnum OP_MUL = 14" | "opnum OP_DIV = 15" | "opnum OP_MOD = 16" | "opnum OP_POW = 17"
| "opnum OP_UNM = 18" | "opnum OP_NOT = 19" | "opnum OP_LEN = 20" | "opnum OP_CONCAT = 21"
| "opnum OP_JMP = 22" | "opnum OP_EQ = 23" | "opnum OP_LT = 24" | "opnum OP_LE = 25"
| "opnum OP_TEST = 26" | "opnum OP_TESTSET = 27" | "opnum OP_CALL = 28"
| "opnum OP_TAILCALL = 29" | "opnum OP_RETURN = 30" | "opnum OP_FORLOOP = 31"
| "opnum OP_FORPREP = 32" | "opnum OP_TFORLOOP = 33" | "opnum OP_SETLIST = 34"
| "opnum OP_CLOSE = 35" | "opnum OP_CLOSURE = 36" | "opnum OP_VARARG = 37"

abbreviation (input) NUM_OPCODES :: nat where
  "NUM_OPCODES \<equiv> 38"

text \<open>The \<open>cast(OpCode, x)\<close> of \<open>GET_OPCODE\<close>, for the numbers that name an opcode.\<close>

definition op_of :: "nat \<Rightarrow> OpCode option" where
  "op_of n = (if n < length all_opcodes then Some (all_opcodes ! n) else None)"

section \<open>The fields\<close>

abbreviation (input) SIZE_C :: nat where "SIZE_C \<equiv> 9"
abbreviation (input) SIZE_B :: nat where "SIZE_B \<equiv> 9"
abbreviation (input) SIZE_Bx :: nat where "SIZE_Bx \<equiv> 18"
abbreviation (input) SIZE_A :: nat where "SIZE_A \<equiv> 8"
abbreviation (input) SIZE_OP :: nat where "SIZE_OP \<equiv> 6"
abbreviation (input) POS_OP :: nat where "POS_OP \<equiv> 0"
abbreviation (input) POS_A :: nat where "POS_A \<equiv> 6"
abbreviation (input) POS_C :: nat where "POS_C \<equiv> 14"
abbreviation (input) POS_B :: nat where "POS_B \<equiv> 23"
abbreviation (input) POS_Bx :: nat where "POS_Bx \<equiv> 14"

abbreviation (input) MAXARG_Bx :: int where "MAXARG_Bx \<equiv> 262143"
abbreviation (input) MAXARG_sBx :: int where "MAXARG_sBx \<equiv> 131071"
abbreviation (input) MAXARG_A :: int where "MAXARG_A \<equiv> 255"
abbreviation (input) MAXARG_B :: int where "MAXARG_B \<equiv> 511"
abbreviation (input) MAXARG_C :: int where "MAXARG_C \<equiv> 511"
abbreviation (input) NO_REG :: int where "NO_REG \<equiv> MAXARG_A"

definition MASK1 :: "nat \<Rightarrow> nat \<Rightarrow> Instruction" where
  "MASK1 n p = push_bit p (NOT (push_bit n (NOT 0)))"

definition MASK0 :: "nat \<Rightarrow> nat \<Rightarrow> Instruction" where
  "MASK0 n p = NOT (MASK1 n p)"

definition GET_OPCODE :: "Instruction \<Rightarrow> nat" where
  "GET_OPCODE i = unat (drop_bit POS_OP i AND MASK1 SIZE_OP 0)"

definition SET_OPCODE :: "Instruction \<Rightarrow> OpCode \<Rightarrow> Instruction" where
  "SET_OPCODE i op = (i AND MASK0 SIZE_OP POS_OP) OR
     (push_bit POS_OP (of_nat (opnum op)) AND MASK1 SIZE_OP POS_OP)"

definition GETARG_A :: "Instruction \<Rightarrow> int" where
  "GETARG_A i = uint (drop_bit POS_A i AND MASK1 SIZE_A 0)"

definition SETARG_A :: "Instruction \<Rightarrow> int \<Rightarrow> Instruction" where
  "SETARG_A i u = (i AND MASK0 SIZE_A POS_A) OR
     (push_bit POS_A (word_of_int u) AND MASK1 SIZE_A POS_A)"

definition GETARG_B :: "Instruction \<Rightarrow> int" where
  "GETARG_B i = uint (drop_bit POS_B i AND MASK1 SIZE_B 0)"

definition SETARG_B :: "Instruction \<Rightarrow> int \<Rightarrow> Instruction" where
  "SETARG_B i b = (i AND MASK0 SIZE_B POS_B) OR
     (push_bit POS_B (word_of_int b) AND MASK1 SIZE_B POS_B)"

definition GETARG_C :: "Instruction \<Rightarrow> int" where
  "GETARG_C i = uint (drop_bit POS_C i AND MASK1 SIZE_C 0)"

definition SETARG_C :: "Instruction \<Rightarrow> int \<Rightarrow> Instruction" where
  "SETARG_C i b = (i AND MASK0 SIZE_C POS_C) OR
     (push_bit POS_C (word_of_int b) AND MASK1 SIZE_C POS_C)"

definition GETARG_Bx :: "Instruction \<Rightarrow> int" where
  "GETARG_Bx i = uint (drop_bit POS_Bx i AND MASK1 SIZE_Bx 0)"

definition SETARG_Bx :: "Instruction \<Rightarrow> int \<Rightarrow> Instruction" where
  "SETARG_Bx i b = (i AND MASK0 SIZE_Bx POS_Bx) OR
     (push_bit POS_Bx (word_of_int b) AND MASK1 SIZE_Bx POS_Bx)"

definition GETARG_sBx :: "Instruction \<Rightarrow> int" where
  "GETARG_sBx i = GETARG_Bx i - MAXARG_sBx"

definition SETARG_sBx :: "Instruction \<Rightarrow> int \<Rightarrow> Instruction" where
  "SETARG_sBx i b = SETARG_Bx i (b + MAXARG_sBx)"

definition CREATE_ABC :: "OpCode \<Rightarrow> int \<Rightarrow> int \<Rightarrow> int \<Rightarrow> Instruction" where
  "CREATE_ABC op a b c =
     push_bit POS_OP (of_nat (opnum op)) OR push_bit POS_A (word_of_int a) OR
     push_bit POS_B (word_of_int b) OR push_bit POS_C (word_of_int c)"

definition CREATE_ABx :: "OpCode \<Rightarrow> int \<Rightarrow> int \<Rightarrow> Instruction" where
  "CREATE_ABx op a bc =
     push_bit POS_OP (of_nat (opnum op)) OR push_bit POS_A (word_of_int a) OR
     push_bit POS_Bx (word_of_int bc)"

text \<open>Register-or-constant operands, on the C \<open>int\<close> they are kept in.\<close>

abbreviation (input) BITRK :: int where "BITRK \<equiv> 256"
abbreviation (input) MAXINDEXRK :: int where "MAXINDEXRK \<equiv> BITRK - 1"

definition ISK :: "int \<Rightarrow> bool" where
  "ISK x = (x AND BITRK \<noteq> 0)"

definition INDEXK :: "int \<Rightarrow> int" where
  "INDEXK r = r AND NOT BITRK"

definition RKASK :: "int \<Rightarrow> int" where
  "RKASK x = x OR BITRK"

section \<open>Instruction properties\<close>

datatype OpArgMask = OpArgN | OpArgU | OpArgR | OpArgK

fun argmask_num :: "OpArgMask \<Rightarrow> u8" where
  "argmask_num OpArgN = 0" | "argmask_num OpArgU = 1" | "argmask_num OpArgR = 2"
| "argmask_num OpArgK = 3"

fun opmode_num :: "OpMode \<Rightarrow> u8" where
  "opmode_num iABC = 0" | "opmode_num iABx = 1" | "opmode_num iAsBx = 2"

definition opmode :: "u8 \<Rightarrow> u8 \<Rightarrow> OpArgMask \<Rightarrow> OpArgMask \<Rightarrow> OpMode \<Rightarrow> u8" where
  "opmode t a b c m = push_bit 7 t OR push_bit 6 a OR push_bit 4 (argmask_num b) OR
     push_bit 2 (argmask_num c) OR opmode_num m"

definition luaP_opmodes :: "u8 list" where
  "luaP_opmodes = [
     opmode 0 1 OpArgR OpArgN iABC, opmode 0 1 OpArgK OpArgN iABx, opmode 0 1 OpArgU OpArgU iABC,
     opmode 0 1 OpArgR OpArgN iABC, opmode 0 1 OpArgU OpArgN iABC, opmode 0 1 OpArgK OpArgN iABx,
     opmode 0 1 OpArgR OpArgK iABC, opmode 0 0 OpArgK OpArgN iABx, opmode 0 0 OpArgU OpArgN iABC,
     opmode 0 0 OpArgK OpArgK iABC, opmode 0 1 OpArgU OpArgU iABC, opmode 0 1 OpArgR OpArgK iABC,
     opmode 0 1 OpArgK OpArgK iABC, opmode 0 1 OpArgK OpArgK iABC, opmode 0 1 OpArgK OpArgK iABC,
     opmode 0 1 OpArgK OpArgK iABC, opmode 0 1 OpArgK OpArgK iABC, opmode 0 1 OpArgK OpArgK iABC,
     opmode 0 1 OpArgR OpArgN iABC, opmode 0 1 OpArgR OpArgN iABC, opmode 0 1 OpArgR OpArgN iABC,
     opmode 0 1 OpArgR OpArgR iABC, opmode 0 0 OpArgR OpArgN iAsBx, opmode 1 0 OpArgK OpArgK iABC,
     opmode 1 0 OpArgK OpArgK iABC, opmode 1 0 OpArgK OpArgK iABC, opmode 1 1 OpArgR OpArgU iABC,
     opmode 1 1 OpArgR OpArgU iABC, opmode 0 1 OpArgU OpArgU iABC, opmode 0 1 OpArgU OpArgU iABC,
     opmode 0 0 OpArgU OpArgN iABC, opmode 0 1 OpArgR OpArgN iAsBx, opmode 0 1 OpArgR OpArgN iAsBx,
     opmode 1 0 OpArgN OpArgU iABC, opmode 0 0 OpArgU OpArgU iABC, opmode 0 0 OpArgN OpArgN iABC,
     opmode 0 1 OpArgU OpArgN iABx, opmode 0 1 OpArgU OpArgN iABC]"

definition luaP_opnames :: "string list" where
  "luaP_opnames = [
     ''MOVE'', ''LOADK'', ''LOADBOOL'', ''LOADNIL'', ''GETUPVAL'', ''GETGLOBAL'', ''GETTABLE'',
     ''SETGLOBAL'', ''SETUPVAL'', ''SETTABLE'', ''NEWTABLE'', ''SELF'', ''ADD'', ''SUB'', ''MUL'',
     ''DIV'', ''MOD'', ''POW'', ''UNM'', ''NOT'', ''LEN'', ''CONCAT'', ''JMP'', ''EQ'', ''LT'',
     ''LE'', ''TEST'', ''TESTSET'', ''CALL'', ''TAILCALL'', ''RETURN'', ''FORLOOP'', ''FORPREP'',
     ''TFORLOOP'', ''SETLIST'', ''CLOSE'', ''CLOSURE'', ''VARARG'']"

text \<open>The casts to \<open>OpMode\<close> and \<open>OpArgMask\<close> of the accessor macros.\<close>

definition argmask_of :: "u8 \<Rightarrow> OpArgMask" where
  "argmask_of x = (if x = 0 then OpArgN else if x = 1 then OpArgU else if x = 2 then OpArgR
     else OpArgK)"

definition getOpMode :: "OpCode \<Rightarrow> OpMode" where
  "getOpMode m = (let x = luaP_opmodes ! opnum m AND 3 in
     if x = 0 then iABC else if x = 1 then iABx else iAsBx)"

definition getBMode :: "OpCode \<Rightarrow> OpArgMask" where
  "getBMode m = argmask_of (drop_bit 4 (luaP_opmodes ! opnum m) AND 3)"

definition getCMode :: "OpCode \<Rightarrow> OpArgMask" where
  "getCMode m = argmask_of (drop_bit 2 (luaP_opmodes ! opnum m) AND 3)"

definition testAMode :: "OpCode \<Rightarrow> bool" where
  "testAMode m = (luaP_opmodes ! opnum m AND push_bit 6 1 \<noteq> 0)"

definition testTMode :: "OpCode \<Rightarrow> bool" where
  "testTMode m = (luaP_opmodes ! opnum m AND push_bit 7 1 \<noteq> 0)"

section \<open>Lemmas\<close>

lemma MASK1_eq: "MASK1 n p = push_bit p (mask n)"
  by (rule bit_word_eqI) (auto simp: MASK1_def bit_simps)

lemmas instr_fields =
  GET_OPCODE_def SET_OPCODE_def GETARG_A_def SETARG_A_def GETARG_B_def SETARG_B_def
  GETARG_C_def SETARG_C_def GETARG_Bx_def SETARG_Bx_def MASK0_def MASK1_eq

lemma GET_OPCODE_field: "GET_OPCODE i = unat (get_field SIZE_OP POS_OP i)"
  by (simp add: instr_fields get_field_def)
lemma GETARG_A_field: "GETARG_A i = uint (get_field SIZE_A POS_A i)"
  by (simp add: instr_fields get_field_def)
lemma GETARG_B_field: "GETARG_B i = uint (get_field SIZE_B POS_B i)"
  by (simp add: instr_fields get_field_def)
lemma GETARG_C_field: "GETARG_C i = uint (get_field SIZE_C POS_C i)"
  by (simp add: instr_fields get_field_def)
lemma GETARG_Bx_field: "GETARG_Bx i = uint (get_field SIZE_Bx POS_Bx i)"
  by (simp add: instr_fields get_field_def)
lemma SET_OPCODE_field: "SET_OPCODE i p = set_field SIZE_OP POS_OP i (of_nat (opnum p))"
  by (simp add: instr_fields set_field_def)
lemma SETARG_A_field: "SETARG_A i u = set_field SIZE_A POS_A i (word_of_int u)"
  by (simp add: instr_fields set_field_def)
lemma SETARG_B_field: "SETARG_B i u = set_field SIZE_B POS_B i (word_of_int u)"
  by (simp add: instr_fields set_field_def)
lemma SETARG_C_field: "SETARG_C i u = set_field SIZE_C POS_C i (word_of_int u)"
  by (simp add: instr_fields set_field_def)
lemma SETARG_Bx_field: "SETARG_Bx i u = set_field SIZE_Bx POS_Bx i (word_of_int u)"
  by (simp add: instr_fields set_field_def)

lemmas to_fields =
  GET_OPCODE_field GETARG_A_field GETARG_B_field GETARG_C_field GETARG_Bx_field
  SET_OPCODE_field SETARG_A_field SETARG_B_field SETARG_C_field SETARG_Bx_field

lemma opnum_less: "opnum p < NUM_OPCODES"
  by (cases p) auto

lemma opnum_inj: "opnum p = opnum q \<longleftrightarrow> p = q"
  by (cases p; cases q) simp_all

lemma op_of_opnum [simp]: "op_of (opnum p) = Some p"
  by (cases p) (simp_all add: op_of_def all_opcodes_def)

lemma op_of_Some_iff: "op_of n = Some p \<longleftrightarrow> n = opnum p"
proof
  assume "op_of n = Some p"
  then have n: "n < length all_opcodes" and p: "p = all_opcodes ! n"
    by (auto simp: op_of_def split: if_splits)
  have "map opnum all_opcodes = [0..<38]"
    by code_simp
  then have "map opnum all_opcodes ! n = [0..<38] ! n"
    by simp
  moreover have "n < 38"
    using n by (simp add: all_opcodes_def)
  ultimately have "opnum (all_opcodes ! n) = n"
    using n by simp
  with p show "n = opnum p"
    by simp
qed simp

lemma op_of_None_iff: "op_of n = None \<longleftrightarrow> NUM_OPCODES \<le> n"
  by (simp add: op_of_def all_opcodes_def not_less)

text \<open>A value in range survives the truncation to its field.\<close>

lemma uint_word_of_int_mask:
  "0 \<le> v \<Longrightarrow> v < 2 ^ n \<Longrightarrow> n \<le> 32 \<Longrightarrow> uint ((word_of_int v :: u32) AND mask n) = v"
proof -
  assume v: "0 \<le> v" "v < 2 ^ n" and n: "n \<le> 32"
  then have "v < 2 ^ 32"
    by (meson less_le_trans one_le_numeral power_increasing)
  with v show ?thesis
    by (simp add: uint_and_mask uint_word_of_int_eq take_bit_eq_mod)
qed

lemma SETARG_same [field_simps_rules]:
  "0 \<le> u \<Longrightarrow> u \<le> MAXARG_A \<Longrightarrow> GETARG_A (SETARG_A i u) = u"
  "0 \<le> u \<Longrightarrow> u \<le> MAXARG_B \<Longrightarrow> GETARG_B (SETARG_B i u) = u"
  "0 \<le> u \<Longrightarrow> u \<le> MAXARG_C \<Longrightarrow> GETARG_C (SETARG_C i u) = u"
  "0 \<le> u \<Longrightarrow> u \<le> MAXARG_Bx \<Longrightarrow> GETARG_Bx (SETARG_Bx i u) = u"
  by (simp_all add: to_fields get_set_field_same uint_word_of_int_mask)

lemma SETARG_sBx_same [field_simps_rules]:
  "- MAXARG_sBx \<le> b \<Longrightarrow> b \<le> MAXARG_sBx + 1 \<Longrightarrow> GETARG_sBx (SETARG_sBx i b) = b"
  by (simp add: GETARG_sBx_def SETARG_sBx_def SETARG_same)

lemma SETARG_other [field_simps_rules]:
  "GET_OPCODE (SETARG_A i u) = GET_OPCODE i"
  "GET_OPCODE (SETARG_B i u) = GET_OPCODE i"
  "GET_OPCODE (SETARG_C i u) = GET_OPCODE i"
  "GET_OPCODE (SETARG_Bx i u) = GET_OPCODE i"
  "GETARG_A (SET_OPCODE i p) = GETARG_A i"
  "GETARG_A (SETARG_B i u) = GETARG_A i"
  "GETARG_A (SETARG_C i u) = GETARG_A i"
  "GETARG_A (SETARG_Bx i u) = GETARG_A i"
  "GETARG_B (SET_OPCODE i p) = GETARG_B i"
  "GETARG_B (SETARG_A i u) = GETARG_B i"
  "GETARG_B (SETARG_C i u) = GETARG_B i"
  "GETARG_C (SET_OPCODE i p) = GETARG_C i"
  "GETARG_C (SETARG_A i u) = GETARG_C i"
  "GETARG_C (SETARG_B i u) = GETARG_C i"
  "GETARG_Bx (SET_OPCODE i p) = GETARG_Bx i"
  "GETARG_Bx (SETARG_A i u) = GETARG_Bx i"
  by (simp_all add: to_fields get_set_field_other)

lemma SETARG_sBx_other [field_simps_rules]:
  "GET_OPCODE (SETARG_sBx i u) = GET_OPCODE i"
  "GETARG_A (SETARG_sBx i u) = GETARG_A i"
  by (simp_all add: SETARG_sBx_def SETARG_other)

lemma GETARG_bounds:
  "0 \<le> GETARG_A i" "GETARG_A i \<le> MAXARG_A" "0 \<le> GETARG_B i" "GETARG_B i \<le> MAXARG_B"
  "0 \<le> GETARG_C i" "GETARG_C i \<le> MAXARG_C" "0 \<le> GETARG_Bx i" "GETARG_Bx i \<le> MAXARG_Bx"
proof -
  have "uint (drop_bit p i AND mask n) \<le> 2 ^ n - 1" for p n
    by (simp add: uint_and_mask)
  from this [of POS_A SIZE_A] this [of POS_B SIZE_B] this [of POS_C SIZE_C]
    this [of POS_Bx SIZE_Bx]
  show "0 \<le> GETARG_A i" "GETARG_A i \<le> MAXARG_A" "0 \<le> GETARG_B i" "GETARG_B i \<le> MAXARG_B"
    "0 \<le> GETARG_C i" "GETARG_C i \<le> MAXARG_C" "0 \<le> GETARG_Bx i" "GETARG_Bx i \<le> MAXARG_Bx"
    by (simp_all add: instr_fields)
qed

section \<open>Creating instructions\<close>

text \<open>An argument that fits its field has no bit outside it.\<close>

definition fits :: "nat \<Rightarrow> u32 \<Rightarrow> bool" where
  "fits n v \<longleftrightarrow> v AND mask n = v"

lemma fits_bit: "fits n v \<Longrightarrow> bit v k \<Longrightarrow> k < n"
  unfolding fits_def by (metis bit_and_iff bit_mask_iff)

lemma fits_word_of_int: "0 \<le> v \<Longrightarrow> v < 2 ^ n \<Longrightarrow> n \<le> 32 \<Longrightarrow> fits n (word_of_int v)"
  unfolding fits_def
  by (metis uint_word_of_int_mask word_of_int_uint)

lemma fits_opnum: "fits SIZE_OP (of_nat (opnum p))"
  by (cases p) (simp_all add: fits_def mask_eq_exp_minus_1)

lemma uint_fits: "0 \<le> v \<Longrightarrow> v < 2 ^ n \<Longrightarrow> n \<le> 32 \<Longrightarrow> uint (word_of_int v :: u32) = v"
  by (metis fits_def fits_word_of_int uint_word_of_int_mask)

lemma get_field_or:
  "get_field n p (i OR j) = get_field n p i OR get_field n p j"
  by (rule bit_word_eqI) (auto simp: bit_get_field bit_simps)

lemma get_field_push_same:
  "fits n v \<Longrightarrow> p + n \<le> 32 \<Longrightarrow> get_field n p (push_bit p v) = v"
  by (rule bit_word_eqI) (auto simp: bit_get_field bit_simps dest: fits_bit)

lemma get_field_0_fits: "fits n v \<Longrightarrow> get_field n 0 v = v"
  by (simp add: get_field_def fits_def)

lemma get_field_low_other: "fits m v \<Longrightarrow> m \<le> p \<Longrightarrow> get_field n p v = 0"
  by (rule bit_word_eqI) (auto simp: bit_get_field dest: fits_bit)

lemma get_field_push_other:
  "fits m v \<Longrightarrow> p + n \<le> q \<or> q + m \<le> p \<Longrightarrow> get_field n p (push_bit q v) = 0"
  by (rule bit_word_eqI) (auto simp: bit_get_field bit_simps dest: fits_bit)

lemma CREATE_ABC_fields [field_simps_rules]:
  assumes a: "0 \<le> a" "a \<le> MAXARG_A" and b: "0 \<le> b" "b \<le> MAXARG_B"
    and c: "0 \<le> c" "c \<le> MAXARG_C"
  shows "GET_OPCODE (CREATE_ABC p a b c) = opnum p" "GETARG_A (CREATE_ABC p a b c) = a"
    "GETARG_B (CREATE_ABC p a b c) = b" "GETARG_C (CREATE_ABC p a b c) = c"
proof -
  note f = fits_opnum [of p] fits_word_of_int [of a SIZE_A] fits_word_of_int [of b SIZE_B]
    fits_word_of_int [of c SIZE_C]
  note g = get_field_low_other [OF f(1)] get_field_push_other [OF f(1)] get_field_push_other [OF f(2)]
    get_field_push_other [OF f(3)] get_field_push_other [OF f(4)]
    get_field_push_same [OF f(1)] get_field_push_same [OF f(2)]
    get_field_push_same [OF f(3)] get_field_push_same [OF f(4)]
  show "GET_OPCODE (CREATE_ABC p a b c) = opnum p"
    using assms opnum_less [of p] g
    by (simp add: GET_OPCODE_field CREATE_ABC_def get_field_or unat_of_nat get_field_0_fits
        fits_opnum)
  show "GETARG_A (CREATE_ABC p a b c) = a"
    using assms g by (simp add: GETARG_A_field CREATE_ABC_def get_field_or uint_fits [of a 8])
  show "GETARG_B (CREATE_ABC p a b c) = b"
    using assms g by (simp add: GETARG_B_field CREATE_ABC_def get_field_or uint_fits [of b 9])
  show "GETARG_C (CREATE_ABC p a b c) = c"
    using assms g by (simp add: GETARG_C_field CREATE_ABC_def get_field_or uint_fits [of c 9])
qed

lemma CREATE_ABx_fields [field_simps_rules]:
  assumes a: "0 \<le> a" "a \<le> MAXARG_A" and b: "0 \<le> bc" "bc \<le> MAXARG_Bx"
  shows "GET_OPCODE (CREATE_ABx p a bc) = opnum p" "GETARG_A (CREATE_ABx p a bc) = a"
    "GETARG_Bx (CREATE_ABx p a bc) = bc"
proof -
  note f = fits_opnum [of p] fits_word_of_int [of a SIZE_A] fits_word_of_int [of bc SIZE_Bx]
  note g = get_field_low_other [OF f(1)] get_field_push_other [OF f(1)] get_field_push_other [OF f(2)]
    get_field_push_other [OF f(3)]
    get_field_push_same [OF f(1)] get_field_push_same [OF f(2)] get_field_push_same [OF f(3)]
  show "GET_OPCODE (CREATE_ABx p a bc) = opnum p"
    using assms opnum_less [of p] g
    by (simp add: GET_OPCODE_field CREATE_ABx_def get_field_or unat_of_nat get_field_0_fits
        fits_opnum)
  show "GETARG_A (CREATE_ABx p a bc) = a"
    using assms g by (simp add: GETARG_A_field CREATE_ABx_def get_field_or uint_fits [of a 8])
  show "GETARG_Bx (CREATE_ABx p a bc) = bc"
    using assms g by (simp add: GETARG_Bx_field CREATE_ABx_def get_field_or uint_fits [of bc 18])
qed

lemma fields_eqI:
  assumes "GET_OPCODE i = GET_OPCODE j" "GETARG_A i = GETARG_A j"
    and "GETARG_B i = GETARG_B j \<and> GETARG_C i = GETARG_C j \<or> GETARG_Bx i = GETARG_Bx j"
  shows "i = j"
proof (rule bit_word_eqI)
  fix k assume k: "k < LENGTH(32)"
  have o: "get_field 6 0 i = get_field 6 0 j" and a: "get_field 8 6 i = get_field 8 6 j"
    using assms(1,2) unfolding to_fields by (metis word_unat_eq_iff, metis word_uint_eq_iff)
  have "get_field 9 23 i = get_field 9 23 j \<and> get_field 9 14 i = get_field 9 14 j \<or>
      get_field 18 14 i = get_field 18 14 j"
    using assms(3) unfolding to_fields by (metis word_uint_eq_iff)
  then show "bit i k = bit j k"
    using k get_field_eqD [OF o, of k] get_field_eqD [OF a, of k]
      get_field_eqD [of 9 23 i j k] get_field_eqD [of 9 14 i j k] get_field_eqD [of 18 14 i j k]
    by (cases "k < 6"; cases "k < 14"; cases "k < 23") auto
qed

text \<open>
  C10: the four fields determine an instruction and every combination within the limits of
  \<^verbatim>\<open>lopcodes.h\<close> is encodable: a word is the instruction \<open>CREATE_ABC\<close> builds exactly when its fields
  read back as the arguments, and likewise for \<open>CREATE_ABx\<close>.
\<close>

theorem instruction_encoding:
  assumes "0 \<le> a" "a \<le> MAXARG_A" "0 \<le> b" "b \<le> MAXARG_B" "0 \<le> c" "c \<le> MAXARG_C"
    and "0 \<le> bx" "bx \<le> MAXARG_Bx"
  shows "(i = CREATE_ABC p a b c \<longleftrightarrow>
      op_of (GET_OPCODE i) = Some p \<and> GETARG_A i = a \<and> GETARG_B i = b \<and> GETARG_C i = c) \<and>
    (i = CREATE_ABx p a bx \<longleftrightarrow>
      op_of (GET_OPCODE i) = Some p \<and> GETARG_A i = a \<and> GETARG_Bx i = bx)"
  using fields_eqI [of i "CREATE_ABC p a b c"] fields_eqI [of i "CREATE_ABx p a bx"]
    CREATE_ABC_fields [OF assms(1-6), of p] CREATE_ABx_fields [OF assms(1,2,7,8), of p]
  by (auto simp: op_of_Some_iff)

text \<open>The witness of the property above at an addition of two registers.\<close>

lemma instruction_encoding_witness:
  "CREATE_ABC OP_ADD 1 2 3 = (16826444 :: u32) \<and> GETARG_B 16826444 = 2"
proof -
  have "CREATE_ABC OP_ADD 1 2 3 = (16826444 :: u32)"
    by (simp add: CREATE_ABC_def)
  then show ?thesis
    using instruction_encoding [of 1 2 3 0 16826444 OP_ADD] by simp
qed

section \<open>Register-or-constant operands\<close>

lemma bit_256: "bit (256 :: int) k \<longleftrightarrow> k = 8"
proof -
  have "(256 :: int) = 2 ^ 8"
    by simp
  then show ?thesis
    by (simp only: bit_exp_iff) auto
qed

lemma int_bit_less:
  fixes x :: int
  assumes "0 \<le> x" "x < 2 ^ n" "n \<le> k"
  shows "\<not> bit x k"
proof -
  have "take_bit n x = x"
    using assms by (simp add: take_bit_int_eq_self)
  then show ?thesis
    using assms(3) by (metis bit_take_bit_iff not_less)
qed

lemma ISK_iff_bit: "ISK x \<longleftrightarrow> bit x 8"
proof -
  have "x AND 256 = (if bit x 8 then 256 else 0)"
    by (rule bit_eqI) (auto simp: bit_simps bit_256)
  then show ?thesis
    by (simp add: ISK_def)
qed

lemma ISK_register: "0 \<le> r \<Longrightarrow> r \<le> MAXINDEXRK \<Longrightarrow> \<not> ISK r"
  using int_bit_less [of r 8 8] by (simp add: ISK_iff_bit)

lemma ISK_RKASK: "ISK (RKASK x)"
  by (simp add: ISK_iff_bit RKASK_def bit_simps bit_256)

lemma INDEXK_RKASK: "0 \<le> x \<Longrightarrow> x \<le> MAXINDEXRK \<Longrightarrow> INDEXK (RKASK x) = x"
  unfolding INDEXK_def RKASK_def
  by (rule bit_eqI) (use int_bit_less [of x 8] in \<open>auto simp: bit_simps bit_256\<close>)

end
