(* ===== verification/Lua_Number.thy ===== *)
theory Lua_Number
  imports Lua_Prelude
begin

text \<open>
  Lua numbers: \<open>LUA_NUMBER\<close> of \<^verbatim>\<open>src/src/luaconf.h\<close> is the C \<open>double\<close>, so a number is its IEEE 754
  bit pattern, a 64-bit word. The comparisons and the conversions from and to \<open>int\<close> that
  \<^verbatim>\<open>luaconf.h\<close> and \<^verbatim>\<open>llimits.h\<close> define are written out on the pattern. The arithmetic operators
  are not modelled.
\<close>

type_synonym lua_Number = u64

definition num_exp :: "lua_Number \<Rightarrow> nat" where
  "num_exp n = unat (get_field 11 52 n)"

definition num_mant :: "lua_Number \<Rightarrow> nat" where
  "num_mant n = unat (get_field 52 0 n)"

definition num_neg :: "lua_Number \<Rightarrow> bool" where
  "num_neg n = bit n 63"

definition is_nan :: "lua_Number \<Rightarrow> bool" where
  "is_nan n = (num_exp n = 2047 \<and> num_mant n \<noteq> 0)"

text \<open>The magnitude as an integer orders the patterns of one sign as the numbers they stand for.\<close>

definition num_mag :: "lua_Number \<Rightarrow> int" where
  "num_mag n = uint (n AND mask 63)"

definition num_key :: "lua_Number \<Rightarrow> int" where
  "num_key n = (if num_neg n then - num_mag n else num_mag n)"

definition luai_numeq :: "lua_Number \<Rightarrow> lua_Number \<Rightarrow> bool" where
  "luai_numeq a b = (\<not> is_nan a \<and> \<not> is_nan b \<and> num_key a = num_key b)"

definition luai_numlt :: "lua_Number \<Rightarrow> lua_Number \<Rightarrow> bool" where
  "luai_numlt a b = (\<not> is_nan a \<and> \<not> is_nan b \<and> num_key a < num_key b)"

definition luai_numle :: "lua_Number \<Rightarrow> lua_Number \<Rightarrow> bool" where
  "luai_numle a b = (\<not> is_nan a \<and> \<not> is_nan b \<and> num_key a \<le> num_key b)"

definition luai_numisnan :: "lua_Number \<Rightarrow> bool" where
  "luai_numisnan a = (\<not> luai_numeq a a)"

text \<open>The position of the highest bit, for the exponent.\<close>

fun ilog2 :: "nat \<Rightarrow> nat" where
  "ilog2 n = (if n < 2 then 0 else Suc (ilog2 (n div 2)))"

declare ilog2.simps [simp del]

text \<open>
  \<open>cast_num\<close> is the exact conversion of a C \<open>int\<close>; \<open>lua_number2int\<close> is the cast \<open>(int)(d)\<close>, which
  truncates. Out of the range of \<open>int\<close> the cast has the value of the x86-64 instruction for it,
  the least \<open>int\<close>.
\<close>

definition pack_num :: "bool \<Rightarrow> nat \<Rightarrow> nat \<Rightarrow> lua_Number" where
  "pack_num s e m = (if s then push_bit 63 1 else 0) OR push_bit 52 (of_nat e) OR of_nat m"

definition cast_num :: "int \<Rightarrow> lua_Number" where
  "cast_num k = (if k = 0 then 0 else
     let a = nat \<bar>k\<bar>; e = ilog2 a
     in pack_num (k < 0) (1023 + e) (a * 2 ^ (52 - e) - 2 ^ 52))"

definition INT_MIN :: int where
  "INT_MIN = - 2147483648"

definition lua_number2int :: "lua_Number \<Rightarrow> int" where
  "lua_number2int d =
     (if num_exp d < 1023 then 0
      else let e = num_exp d - 1023; a = int ((2 ^ 52 + num_mant d) div 2 ^ (52 - e))
        in if e < 31 then (if num_neg d then - a else a) else INT_MIN)"

section \<open>Lemmas\<close>

lemma ilog2_bounds: "0 < n \<Longrightarrow> 2 ^ ilog2 n \<le> n \<and> n < 2 ^ Suc (ilog2 n)"
proof (induction n rule: ilog2.induct)
  case (1 n)
  show ?case
  proof (cases "n < 2")
    case True
    with 1 show ?thesis
      by (simp add: ilog2.simps [of n])
  next
    case False
    with 1 have "2 ^ ilog2 (n div 2) \<le> n div 2 \<and> n div 2 < 2 ^ Suc (ilog2 (n div 2))"
      by simp
    with False show ?thesis
      by (auto simp: ilog2.simps [of n])
  qed
qed

lemma ilog2_less: "0 < n \<Longrightarrow> n < 2 ^ k \<Longrightarrow> ilog2 n < k"
  using ilog2_bounds [of n] by (meson le_less_trans nat_power_less_imp_less zero_less_numeral)

lemma ilog2_le: "0 < n \<Longrightarrow> n \<le> 2 ^ k \<Longrightarrow> ilog2 n \<le> k"
  using ilog2_less [of n "Suc k"] by (cases "n = 2 ^ k") auto

text \<open>The three fields of a packed number.\<close>

lemma nat_bit_less: "m < 2 ^ n \<Longrightarrow> bit m k \<Longrightarrow> k < n" for m :: nat
  by (metis bit_take_bit_iff take_bit_nat_eq_self)

lemma bit_pack_num:
  "bit (pack_num s e m) k \<longleftrightarrow>
     (k = 63 \<and> s) \<or> (52 \<le> k \<and> k < 64 \<and> bit e (k - 52)) \<or> (k < 64 \<and> bit m k)"
proof -
  have "bit (push_bit 63 1 :: u64) k \<longleftrightarrow> k = 63"
    by (simp only: bit_push_bit_iff bit_1_iff) (auto simp: possible_bit_def)
  then show ?thesis
    by (auto simp: pack_num_def bit_or_iff bit_push_bit_iff bit_of_nat_iff possible_bit_def
        simp del: push_bit_of_1)
qed

lemma pack_num_fields:
  assumes e: "e < 2 ^ 11" and m: "m < 2 ^ 52"
  shows "num_exp (pack_num s e m) = e" "num_mant (pack_num s e m) = m"
    "num_neg (pack_num s e m) = s"
proof -
  have em: "bit e k \<Longrightarrow> k < 11" "bit m k \<Longrightarrow> k < 52" for k
    using nat_bit_less [OF e] nat_bit_less [OF m] by auto
  have "get_field 11 52 (pack_num s e m) = of_nat e"
    by (rule bit_word_eqI)
      (use em in \<open>fastforce simp: bit_pack_num bit_get_field bit_of_nat_iff possible_bit_def\<close>)
  with e show "num_exp (pack_num s e m) = e"
    by (simp add: num_exp_def unat_of_nat)
  have "get_field 52 0 (pack_num s e m) = of_nat m"
    by (rule bit_word_eqI)
      (use em in \<open>fastforce simp: bit_pack_num bit_get_field bit_of_nat_iff possible_bit_def\<close>)
  with m show "num_mant (pack_num s e m) = m"
    by (simp add: num_mant_def unat_of_nat)
  show "num_neg (pack_num s e m) = s"
    using em(1) [of 11] em(2) [of 63] by (auto simp: num_neg_def bit_pack_num)
qed

text \<open>A number whose fields are those of a packed number is that number.\<close>

lemma num_key_zero: "num_key 0 = 0"
  by (simp add: num_key_def num_mag_def num_neg_def)

lemma num_mag_fields: "num_mag n = int (num_exp n * 2 ^ 52 + num_mant n)"
proof -
  have "uint (n AND mask 63) = uint n mod 2 ^ 63"
    by (rule uint_and_mask)
  moreover have "uint (get_field 11 52 n) = (uint n div 2 ^ 52) mod 2 ^ 11"
    by (simp add: get_field_def uint_and_mask unsigned_drop_bit_eq drop_bit_eq_div uint_div_distrib)
  moreover have "uint (get_field 52 0 n) = uint n mod 2 ^ 52"
    by (simp add: get_field_def uint_and_mask)
  moreover have "uint n mod 2 ^ 63 = ((uint n div 2 ^ 52) mod 2 ^ 11) * 2 ^ 52 + uint n mod 2 ^ 52"
    using zmod_zmult2_eq [of "2 ^ 11" "uint n" "2 ^ 52"] by simp
  ultimately show ?thesis
    by (simp add: num_mag_def num_exp_def num_mant_def unat_eq_nat_uint)
qed

lemma num_mant_less: "num_mant n < 2 ^ 52"
proof -
  have "uint (get_field 52 0 n) = uint n mod 2 ^ 52"
    by (simp add: get_field_def uint_and_mask)
  then show ?thesis
    by (simp add: num_mant_def unat_eq_nat_uint nat_less_iff)
qed

lemma num_mag_eqD:
  assumes "num_mag a = num_mag b"
  shows "num_exp a = num_exp b" "num_mant a = num_mant b"
proof -
  have *: "num_exp a * 2 ^ 52 + num_mant a = num_exp b * 2 ^ 52 + num_mant b"
    using assms by (simp add: num_mag_fields)
  have "(num_exp x * 2 ^ 52 + num_mant x) div 2 ^ 52 = num_exp x"
    and "(num_exp x * 2 ^ 52 + num_mant x) mod 2 ^ 52 = num_mant x" for x
    using num_mant_less [of x] by simp_all
  with * show "num_exp a = num_exp b" "num_mant a = num_mant b"
    by metis+
qed

lemma num_eq_fields: "num_mag a = num_mag b \<Longrightarrow> num_neg a = num_neg b \<Longrightarrow> a = b"
proof (rule bit_word_eqI)
  fix k assume m: "num_mag a = num_mag b" and s: "num_neg a = num_neg b" and k: "k < LENGTH(64)"
  have "a AND mask 63 = b AND mask 63"
    using m by (simp add: num_mag_def word_uint_eq_iff)
  then have "k < 63 \<Longrightarrow> bit a k = bit b k"
    by (metis bit_and_iff bit_mask_iff possible_bit_word k)
  moreover have "k = 63 \<Longrightarrow> bit a k = bit b k"
    using s by (simp add: num_neg_def)
  moreover have "k < 64"
    using k by simp
  ultimately show "bit a k = bit b k"
    by (cases "k = 63") auto
qed

text \<open>Equality of numbers: the same pattern, or two zeros.\<close>

lemma luai_numeq_iff:
  "luai_numeq a b \<longleftrightarrow> \<not> is_nan a \<and> \<not> is_nan b \<and> (a = b \<or> num_mag a = 0 \<and> num_mag b = 0)"
proof -
  have "0 \<le> num_mag n" for n
    by (simp add: num_mag_def)
  from this [of a] this [of b] have "num_key a = num_key b \<longleftrightarrow> a = b \<or> num_mag a = 0 \<and> num_mag b = 0"
    using num_eq_fields [of a b] by (auto simp: num_key_def split: if_splits)
  then show ?thesis
    by (simp add: luai_numeq_def)
qed

lemma luai_numisnan_iff: "luai_numisnan a \<longleftrightarrow> is_nan a"
  by (simp add: luai_numisnan_def luai_numeq_iff)

lemma luai_numeq_sym: "luai_numeq a b \<longleftrightarrow> luai_numeq b a"
  by (auto simp: luai_numeq_def)

lemma luai_numeq_trans: "luai_numeq a b \<Longrightarrow> luai_numeq b c \<Longrightarrow> luai_numeq a c"
  by (auto simp: luai_numeq_def)

section \<open>Conversions\<close>

lemma cast_num_fields:
  assumes k: "INT_MIN \<le> k" "k \<le> INT_MAX" "k \<noteq> 0"
  defines "a \<equiv> nat \<bar>k\<bar>" and "e \<equiv> ilog2 (nat \<bar>k\<bar>)"
  shows "e \<le> 31" "num_exp (cast_num k) = 1023 + e" "num_neg (cast_num k) = (k < 0)"
    "2 ^ 52 + num_mant (cast_num k) = a * 2 ^ (52 - e)"
    "e = 31 \<Longrightarrow> k = INT_MIN"
proof -
  have a: "0 < a" "a \<le> 2 ^ 31"
    using k by (auto simp: a_def INT_MIN_def)
  note b = ilog2_bounds [OF a(1), folded a_def]
  show e: "e \<le> 31"
    using ilog2_le [OF a] by (simp add: e_def a_def)
  have lo: "2 ^ 52 \<le> a * 2 ^ (52 - e)"
  proof -
    have "2 ^ e * 2 ^ (52 - e) \<le> a * 2 ^ (52 - e)"
      using b by (intro mult_right_mono) (auto simp: e_def a_def)
    then show ?thesis
      using e by (simp flip: power_add)
  qed
  have hi: "a * 2 ^ (52 - e) < 2 ^ 53"
  proof -
    have "a * 2 ^ (52 - e) < 2 ^ Suc e * 2 ^ (52 - e)"
      using b by (intro mult_strict_right_mono) (auto simp: e_def a_def)
    also have "\<dots> = 2 ^ 53"
      using e by (simp only: power_add [symmetric]) simp
    finally show ?thesis .
  qed
  have "cast_num k = pack_num (k < 0) (1023 + e) (a * 2 ^ (52 - e) - 2 ^ 52)"
    using k by (simp add: cast_num_def a_def e_def Let_def)
  moreover have "1023 + e < 2 ^ 11"
    using e by simp
  moreover have "a * 2 ^ (52 - e) - 2 ^ 52 < 2 ^ 52"
    using lo hi by simp
  ultimately show "num_exp (cast_num k) = 1023 + e" "num_neg (cast_num k) = (k < 0)"
    "2 ^ 52 + num_mant (cast_num k) = a * 2 ^ (52 - e)"
    using lo by (simp_all add: pack_num_fields)
  show "k = INT_MIN" if "e = 31"
  proof -
    have "2 ^ 31 \<le> a"
      using b that by (simp add: e_def a_def le_nat_iff)
    then show ?thesis
      using k by (simp add: a_def INT_MIN_def split: if_splits)
  qed
qed

lemma cast_num_0: "cast_num 0 = 0"
  by (simp add: cast_num_def)

lemma num_exp_0: "num_exp 0 = 0" and num_mant_0: "num_mant 0 = 0"
  by (simp_all add: num_exp_def num_mant_def get_field_def)

lemma lua_number2int_cast_num:
  assumes "INT_MIN \<le> k" "k \<le> INT_MAX"
  shows "lua_number2int (cast_num k) = k"
proof (cases "k = 0")
  case True
  then show ?thesis
    by (simp add: cast_num_0 lua_number2int_def num_exp_0)
next
  case False
  note f = cast_num_fields [OF assms False]
  show ?thesis
    using f False by (auto simp: lua_number2int_def Let_def)
qed

lemma cast_num_not_nan: "INT_MIN \<le> k \<Longrightarrow> k \<le> INT_MAX \<Longrightarrow> \<not> is_nan (cast_num k)"
  using cast_num_fields [of k]
  by (cases "k = 0") (auto simp: is_nan_def cast_num_0 num_exp_0)

lemma luai_numeq_cast_num_iff:
  assumes "INT_MIN \<le> k" "k \<le> INT_MAX" "INT_MIN \<le> j" "j \<le> INT_MAX"
  shows "luai_numeq (cast_num k) (cast_num j) \<longleftrightarrow> k = j"
proof
  assume "luai_numeq (cast_num k) (cast_num j)"
  then consider "cast_num k = cast_num j" | "num_mag (cast_num k) = 0" "num_mag (cast_num j) = 0"
    by (auto simp: luai_numeq_iff)
  then show "k = j"
  proof cases
    case 1
    then show ?thesis
      using assms lua_number2int_cast_num by metis
  next
    case 2
    have *: "i = 0" if "INT_MIN \<le> i" "i \<le> INT_MAX" "num_mag (cast_num i) = 0" for i
      using cast_num_fields(2) [OF that(1,2)] that(3) by (cases "i = 0") (auto simp: num_mag_fields)
    show ?thesis
      using * [of k] * [of j] 2 assms by simp
  qed
qed (use assms in \<open>simp add: luai_numeq_def cast_num_not_nan\<close>)

lemma lua_number2int_range: "INT_MIN \<le> lua_number2int d" "lua_number2int d \<le> INT_MAX"
proof -
  have *: "int ((2 ^ 52 + num_mant d) div 2 ^ (52 - e)) \<le> INT_MAX" if "e < 31" for e
  proof -
    have "2 ^ 52 + num_mant d < 2 ^ (Suc e) * 2 ^ (52 - e)"
    proof -
      have "2 ^ (Suc e) * 2 ^ (52 - e) = (2 :: nat) ^ 53"
        using that by (simp only: power_add [symmetric]) simp
      then show ?thesis
        using num_mant_less [of d] by simp
    qed
    then have "(2 ^ 52 + num_mant d) div 2 ^ (52 - e) < 2 ^ Suc e"
      by (simp add: less_mult_imp_div_less)
    also have "(2 :: nat) ^ Suc e \<le> 2 ^ 31"
      using that by (intro power_increasing) auto
    finally have "(2 ^ 52 + num_mant d) div 2 ^ (52 - e) < 2 ^ 31" .
    then have "int ((2 ^ 52 + num_mant d) div 2 ^ (52 - e)) < int (2 ^ 31)"
      by (simp only: of_nat_less_iff)
    then show ?thesis
      by simp
  qed
  show "INT_MIN \<le> lua_number2int d" "lua_number2int d \<le> INT_MAX"
    using * [of "num_exp d - 1023"] by (auto simp: lua_number2int_def Let_def INT_MIN_def)
qed

lemma luai_numeq_same_int:
  "luai_numeq a b \<Longrightarrow> lua_number2int a = lua_number2int b"
proof -
  assume "luai_numeq a b"
  then consider "a = b" | "num_mag a = 0" "num_mag b = 0"
    by (auto simp: luai_numeq_iff)
  then show ?thesis
    by cases (auto simp: num_mag_fields lua_number2int_def)
qed

lemma num_mag_0: "num_mag 0 = 0" "\<not> is_nan 0"
  by (simp_all add: num_mag_fields num_exp_0 num_mant_0 is_nan_def)

section \<open>Evaluation\<close>

text \<open>Code equations that compute on integers, where the definitions use large natural numbers.\<close>

lemma is_nan_code [code]: "is_nan n \<longleftrightarrow> get_field 11 52 n = 2047 \<and> get_field 52 0 n \<noteq> 0"
proof -
  have "num_exp n = 2047 \<longleftrightarrow> get_field 11 52 n = 2047"
    by (simp add: num_exp_def word_unat_eq_iff)
  moreover have "num_mant n \<noteq> 0 \<longleftrightarrow> get_field 52 0 n \<noteq> 0"
    by (simp add: num_mant_def unat_eq_0)
  ultimately show ?thesis
    by (simp add: is_nan_def)
qed

lemma lua_number2int_code [code]:
  "lua_number2int d =
     (let x = uint (get_field 11 52 d) in
      if x < 1023 then 0
      else let e = nat (x - 1023); a = (2 ^ 52 + uint (get_field 52 0 d)) div 2 ^ (52 - e)
        in if e < 31 then (if num_neg d then - a else a) else INT_MIN)"
proof -
  have x: "int (num_exp d) = uint (get_field 11 52 d)" "int (num_mant d) = uint (get_field 52 0 d)"
    by (simp_all add: num_exp_def num_mant_def)
  have "nat (uint (get_field 11 52 d) - 1023) = num_exp d - 1023"
    unfolding x(1) [symmetric] by simp
  moreover have "uint (get_field 11 52 d) < 1023 \<longleftrightarrow> num_exp d < 1023"
    unfolding x(1) [symmetric] by simp
  moreover have "int ((2 ^ 52 + num_mant d) div 2 ^ k) = (2 ^ 52 + uint (get_field 52 0 d)) div 2 ^ k" for k
    unfolding x(2) [symmetric] by (simp add: zdiv_int)
  ultimately show ?thesis
    by (simp add: lua_number2int_def Let_def)
qed

lemma cast_num_code [code]:
  "cast_num k = (if k = 0 then 0 else let e = ilog2 (nat \<bar>k\<bar>) in
     (if k < 0 then push_bit 63 1 else 0) OR push_bit 52 (of_nat (1023 + e)) OR
     word_of_int (max 0 (\<bar>k\<bar> * 2 ^ (52 - e) - 2 ^ 52)))"
proof -
  have "of_nat (nat \<bar>k\<bar> * 2 ^ j - 2 ^ 52) = (word_of_int (max 0 (\<bar>k\<bar> * 2 ^ j - 2 ^ 52)) :: u64)" for j
  proof -
    have "int (nat \<bar>k\<bar> * 2 ^ j - 2 ^ 52) = max 0 (\<bar>k\<bar> * 2 ^ j - 2 ^ 52)"
      by (simp add: of_nat_diff_if max_def) (simp flip: of_nat_le_iff [where 'a = int])
    then show ?thesis
      by (metis of_int_of_nat_eq)
  qed
  then show ?thesis
    by (simp add: cast_num_def pack_num_def Let_def)
qed

end
