(* ===== verification/Lua_Object.thy ===== *)
theory Lua_Object
  imports Lua_Number
begin

text \<open>
  Tagged values and the generic functions over them (\<^verbatim>\<open>src/src/lobject.h\<close>,
  \<^verbatim>\<open>src/src/lobject.c\<close>), and the arithmetic of the memory manager (\<^verbatim>\<open>src/src/lmem.c\<close>). A
  collectable value is its address; what lies behind the address is the business of the component
  that owns it.
\<close>

section \<open>Values\<close>

datatype tvalue =
    Nil
  | Boolean bool
  | LightUserdata addr
  | Number lua_Number
  | Str addr
  | Tab addr
  | Fun addr
  | Userdata addr
  | Thread addr
  | DeadKey addr

fun ttype :: "tvalue \<Rightarrow> nat" where
  "ttype Nil = 0" | "ttype (Boolean b) = 1" | "ttype (LightUserdata p) = 2"
| "ttype (Number n) = 3" | "ttype (Str a) = 4" | "ttype (Tab a) = 5" | "ttype (Fun a) = 6"
| "ttype (Userdata a) = 7" | "ttype (Thread a) = 8" | "ttype (DeadKey a) = 11"

definition ttisnil :: "tvalue \<Rightarrow> bool" where
  "ttisnil v = (ttype v = 0)"

definition iscollectable :: "tvalue \<Rightarrow> bool" where
  "iscollectable v = (4 \<le> ttype v)"

definition l_isfalse :: "tvalue \<Rightarrow> bool" where
  "l_isfalse v = (case v of Nil \<Rightarrow> True | Boolean b \<Rightarrow> \<not> b | _ \<Rightarrow> False)"

text \<open>The address of a collectable value, as \<open>gcvalue\<close> reads it (dead keys included).\<close>

fun gcvalue :: "tvalue \<Rightarrow> addr" where
  "gcvalue (Str a) = a" | "gcvalue (Tab a) = a" | "gcvalue (Fun a) = a"
| "gcvalue (Userdata a) = a" | "gcvalue (Thread a) = a" | "gcvalue (DeadKey a) = a"
| "gcvalue _ = 0"

definition luaO_rawequalObj :: "tvalue \<Rightarrow> tvalue \<Rightarrow> bool" where
  "luaO_rawequalObj t1 t2 =
     (if ttype t1 \<noteq> ttype t2 then False
      else case (t1, t2) of
        (Nil, _) \<Rightarrow> True
      | (Number n1, Number n2) \<Rightarrow> luai_numeq n1 n2
      | (Boolean b1, Boolean b2) \<Rightarrow> b1 = b2
      | (LightUserdata p1, LightUserdata p2) \<Rightarrow> p1 = p2
      | _ \<Rightarrow> gcvalue t1 = gcvalue t2)"

section \<open>Floating point bytes and logarithms\<close>

function int2fb_loop :: "u32 \<Rightarrow> nat \<Rightarrow> u32 \<times> nat" where
  "int2fb_loop x e = (if 16 \<le> x then int2fb_loop (drop_bit 1 (x + 1)) (e + 1) else (x, e))"
  by pat_completeness auto

termination int2fb_loop
proof (relation "measure (\<lambda>(x, e). unat x)")
  fix x :: u32 and e :: nat
  assume x: "16 \<le> x"
  then have "16 \<le> unat x"
    by (simp add: word_le_nat_alt)
  moreover have "unat (drop_bit 1 (x + 1)) \<le> (unat x + 1) div 2"
    by (simp add: unat_drop_bit_eq drop_bit_eq_div unat_word_ariths div_le_mono)
  ultimately show "((drop_bit 1 (x + 1), e + 1), (x, e)) \<in> measure (\<lambda>(x, e). unat x)"
    by simp
qed simp

declare int2fb_loop.simps [simp del]

definition luaO_int2fb :: "u32 \<Rightarrow> nat" where
  "luaO_int2fb x = (let (x, e) = int2fb_loop x 0 in
     if x < 8 then unat x else push_bit 3 (e + 1) OR (unat x - 8))"

definition luaO_fb2int :: "nat \<Rightarrow> u32" where
  "luaO_fb2int x = (let e = drop_bit 3 x AND 31 in
     if e = 0 then of_nat x else push_bit (e - 1) (of_nat ((x AND 7) + 8)))"

definition log_2 :: "nat list" where
  "log_2 = [0, 1] @ replicate 2 2 @ replicate 4 3 @ replicate 8 4 @ replicate 16 5 @
     replicate 32 6 @ replicate 64 7 @ replicate 128 8"

function log2_loop :: "u32 \<Rightarrow> int \<Rightarrow> u32 \<times> int" where
  "log2_loop x l = (if 256 \<le> x then log2_loop (drop_bit 8 x) (l + 8) else (x, l))"
  by pat_completeness auto

termination log2_loop
proof (relation "measure (\<lambda>(x, l). unat x)")
  fix x :: u32 and l :: int
  assume "256 \<le> x"
  then have "256 \<le> unat x"
    by (simp add: word_le_nat_alt)
  then show "((drop_bit 8 x, l + 8), (x, l)) \<in> measure (\<lambda>(x, l). unat x)"
    by (simp add: unat_drop_bit_eq drop_bit_eq_div unat_div)
qed simp

declare log2_loop.simps [simp del]

definition luaO_log2 :: "u32 \<Rightarrow> int" where
  "luaO_log2 x = (let (x, l) = log2_loop x (-1) in l + int (log_2 ! unat x))"

definition ceillog2 :: "u32 \<Rightarrow> int" where
  "ceillog2 x = luaO_log2 (x - 1) + 1"

definition twoto :: "nat \<Rightarrow> nat" where
  "twoto x = push_bit x 1"

section \<open>Messages\<close>

fun nat_dec :: "nat \<Rightarrow> bytes" where
  "nat_dec n = (if n < 10 then [char_of (48 + n)] else nat_dec (n div 10) @ [char_of (48 + n mod 10)])"

declare nat_dec.simps [simp del]

definition int_dec :: "int \<Rightarrow> bytes" where
  "int_dec k = (if k < 0 then ''-'' else '''') @ nat_dec (nat \<bar>k\<bar>)"

text \<open>
  The arguments of \<open>luaO_pushfstring\<close>: a string (\<open>None\<close> for \<open>NULL\<close>), a character, an integer, and
  a number or pointer by the text \<open>sprintf\<close> gives for it. A format whose conversions do not fit
  its arguments, or that ends in a lone \<open>%\<close>, has no behaviour in C: \<open>None\<close>.
\<close>

datatype fmtarg = FStr "bytes option" | FChar char | FInt int | FText bytes

fun luaO_pushvfstring :: "bytes \<Rightarrow> fmtarg list \<Rightarrow> bytes option" where
  "luaO_pushvfstring [] args = Some []"
| "luaO_pushvfstring (c # fmt) args =
     (if c \<noteq> CHR ''%'' then map_option (Cons c) (luaO_pushvfstring fmt args)
      else case fmt of
        [] \<Rightarrow> None
      | d # fmt' \<Rightarrow>
          if d = CHR ''s'' then
            (case args of FStr s # args' \<Rightarrow>
               map_option (append (case s of None \<Rightarrow> ''(null)'' | Some t \<Rightarrow> t))
                 (luaO_pushvfstring fmt' args') | _ \<Rightarrow> None)
          else if d = CHR ''c'' then
            (case args of FChar ch # args' \<Rightarrow>
               map_option (append (takeWhile (\<lambda>x. x \<noteq> CHR 0x00) [ch])) (luaO_pushvfstring fmt' args')
             | _ \<Rightarrow> None)
          else if d = CHR ''d'' then
            (case args of FInt k # args' \<Rightarrow>
               map_option (append (int_dec k)) (luaO_pushvfstring fmt' args') | _ \<Rightarrow> None)
          else if d = CHR ''f'' \<or> d = CHR ''p'' then
            (case args of FText t # args' \<Rightarrow>
               map_option (append t) (luaO_pushvfstring fmt' args') | _ \<Rightarrow> None)
          else if d = CHR ''%'' then map_option (Cons CHR ''%'') (luaO_pushvfstring fmt' args)
          else map_option (append [CHR ''%'', d]) (luaO_pushvfstring fmt' args))"

text \<open>
  \<open>luaO_chunkid\<close> on the C string \<open>source\<close> (no zero byte inside), giving the C string left in
  \<open>out\<close>. \<open>bufflen\<close> is a \<open>size_t\<close>, and the two subtractions from it wrap.
\<close>

definition luaO_chunkid :: "bytes \<Rightarrow> u64 \<Rightarrow> bytes" where
  "luaO_chunkid source bufflen =
     (if take 1 source = ''='' then take (unat (bufflen - 1)) (drop 1 source)
      else if take 1 source = ''@'' then
        let source = drop 1 source; bufflen = unat (bufflen - 8); l = length source
        in if l > bufflen then ''...'' @ drop (l - bufflen) source else source
      else
        let len = length (takeWhile (\<lambda>c. c \<noteq> CHR 0x0A \<and> c \<noteq> CHR 0x0D) source);
            bufflen = unat (bufflen - 17);
            len = (if len > bufflen then bufflen else len)
        in ''[string \"'' @
             (if len < length source then take len source @ ''...'' else source) @ ''\"]'')"

section \<open>Memory manager\<close>

abbreviation (input) MAX_SIZET :: int where
  "MAX_SIZET \<equiv> 2 ^ 64 - 1 - 2"

abbreviation (input) MINSIZEARRAY :: int where
  "MINSIZEARRAY \<equiv> 4"

text \<open>
  The blocks that \<open>luaM_realloc_\<close> hands out are the arrays of the other components, so what is left
  here is the size arithmetic: the size asked of the allocator, its refusal, and the count of
  bytes in use. \<open>frealloc\<close> says whether the allocator returns a block for the given sizes.
\<close>

record mem_state =
  totalbytes :: u64

definition luaM_realloc ::
  "(u64 \<Rightarrow> u64 \<Rightarrow> bool) \<Rightarrow> mem_state \<Rightarrow> u64 \<Rightarrow> u64 \<Rightarrow> mem_state result" where
  "luaM_realloc frealloc g osize nsize =
     (if \<not> frealloc osize nsize \<and> 0 < nsize then Inl (LuaError ERRMEM ''not enough memory'')
      else Inr (g\<lparr>totalbytes := (totalbytes g - osize) + nsize\<rparr>))"

definition luaM_toobig :: "mem_state result" where
  "luaM_toobig = runerror ''memory allocation error: block too big''"

definition luaM_reallocv ::
  "(u64 \<Rightarrow> u64 \<Rightarrow> bool) \<Rightarrow> mem_state \<Rightarrow> int \<Rightarrow> int \<Rightarrow> int \<Rightarrow> mem_state result" where
  "luaM_reallocv frealloc g on n e =
     (if uint (word_of_int (n + 1) :: u64) \<le> MAX_SIZET div e
      then luaM_realloc frealloc g (word_of_int (on * e)) (word_of_int (n * e))
      else luaM_toobig)"

definition luaM_growaux ::
  "(u64 \<Rightarrow> u64 \<Rightarrow> bool) \<Rightarrow> mem_state \<Rightarrow> int \<Rightarrow> int \<Rightarrow> int \<Rightarrow> string \<Rightarrow> (mem_state \<times> int) result" where
  "luaM_growaux frealloc g sz size_elems limit errormsg =
     (if sz \<ge> limit div 2 \<and> sz \<ge> limit then runerror errormsg
      else let newsize = (if sz \<ge> limit div 2 then limit
                          else if sz * 2 < MINSIZEARRAY then MINSIZEARRAY else sz * 2)
        in bind (luaM_reallocv frealloc g sz newsize size_elems) (\<lambda>g. Inr (g, newsize)))"

definition luaM_growvector ::
  "(u64 \<Rightarrow> u64 \<Rightarrow> bool) \<Rightarrow> mem_state \<Rightarrow> int \<Rightarrow> int \<Rightarrow> int \<Rightarrow> int \<Rightarrow> string \<Rightarrow> (mem_state \<times> int) result" where
  "luaM_growvector frealloc g nelems sz size_elems limit errormsg =
     (if nelems + 1 > sz then luaM_growaux frealloc g sz size_elems limit errormsg
      else Inr (g, sz))"

section \<open>Lemmas\<close>

lemma rawequal_refl: "(case v of Number n \<Rightarrow> \<not> is_nan n | _ \<Rightarrow> True) \<Longrightarrow> luaO_rawequalObj v v"
  by (cases v) (auto simp: luaO_rawequalObj_def luai_numeq_iff)

lemma rawequal_sym: "luaO_rawequalObj v w \<longleftrightarrow> luaO_rawequalObj w v"
  by (cases v; cases w) (auto simp: luaO_rawequalObj_def luai_numeq_sym)

lemma rawequal_trans:
  "luaO_rawequalObj u v \<Longrightarrow> luaO_rawequalObj v w \<Longrightarrow> luaO_rawequalObj u w"
  by (cases u; cases v; cases w) (auto simp: luaO_rawequalObj_def elim: luai_numeq_trans)

lemma rawequal_cases:
  "luaO_rawequalObj v w \<longleftrightarrow>
     (v = w \<and> (case v of Number n \<Rightarrow> \<not> is_nan n | _ \<Rightarrow> True)) \<or>
     (\<exists>m n. v = Number m \<and> w = Number n \<and> luai_numeq m n)"
  by (cases v; cases w) (auto simp: luaO_rawequalObj_def luai_numeq_iff)

lemma ttisnil_iff [simp]: "ttisnil v \<longleftrightarrow> v = Nil"
  by (cases v) (simp_all add: ttisnil_def)

text \<open>The loop of \<open>luaO_int2fb\<close> divides rounding up, and only while the value has five bits.\<close>

lemma int2fb_loop_spec:
  assumes "int2fb_loop x e = (y, e')" and "unat x + 1 < 2 ^ 32"
  shows "e \<le> e' \<and> unat y < 16 \<and> unat x \<le> unat y * 2 ^ (e' - e) \<and>
    unat y * 2 ^ (e' - e) + 1 \<le> unat x + 2 ^ (e' - e) \<and> (e < e' \<longrightarrow> 8 \<le> unat y \<and> 15 * 2 ^ (e' - Suc e) < unat x)"
  using assms
proof (induction x e arbitrary: y e' rule: int2fb_loop.induct)
  case (1 x e)
  show ?case
  proof (cases "16 \<le> x")
    case False
    with 1 show ?thesis
      by (simp add: int2fb_loop.simps [of x e] word_less_nat_alt not_le)
  next
    case True
    let ?x' = "drop_bit 1 (x + 1)"
    have x': "unat ?x' = (unat x + 1) div 2"
      using "1.prems"(2) by (simp add: unat_drop_bit_eq drop_bit_eq_div unat_word_ariths unat_div)
    have x16: "16 \<le> unat x"
      using True by (simp add: word_le_nat_alt)
    from True "1.prems" have "int2fb_loop ?x' (e + 1) = (y, e')"
      by (simp add: int2fb_loop.simps [of x e])
    moreover have "unat ?x' + 1 < 2 ^ 32"
      using x' "1.prems"(2) by simp
    ultimately have ih: "e + 1 \<le> e'" "unat y < 16" "unat ?x' \<le> unat y * 2 ^ (e' - (e + 1))"
      "e + 1 < e' \<longrightarrow> 8 \<le> unat y \<and> 15 * 2 ^ (e' - Suc (e + 1)) < unat ?x'"
      "unat y * 2 ^ (e' - (e + 1)) + 1 \<le> unat ?x' + 2 ^ (e' - (e + 1))"
      using "1.IH" [OF True] by auto
    have "unat x \<le> 2 * unat ?x'"
      using x' by simp
    also have "\<dots> \<le> unat y * 2 ^ Suc (e' - (e + 1))"
      using ih(3) by simp
    also have d: "Suc (e' - (e + 1)) = e' - e"
      using ih(1) by simp
    finally have le: "unat x \<le> unat y * 2 ^ (e' - e)" .
    have up: "unat y * 2 ^ (e' - e) + 1 \<le> unat x + 2 ^ (e' - e)"
    proof -
      have "2 * (unat y * 2 ^ (e' - (e + 1)) + 1) \<le> 2 * (unat ?x' + 2 ^ (e' - (e + 1)))"
        using ih(5) by simp
      moreover have "2 * unat ?x' \<le> unat x + 1"
        using x' by simp
      ultimately show ?thesis
        by (simp flip: d)
    qed
    have y8: "8 \<le> unat y \<and> 15 * 2 ^ (e' - Suc e) < unat x"
    proof (cases "e + 1 < e'")
      case False
      with ih(1) have "e' = e + 1"
        by simp
      with ih(3) x' x16 show ?thesis
        by simp
    next
      case True
      then have d: "e' - Suc e = Suc (e' - Suc (e + 1))"
        by simp
      have "15 * 2 ^ (e' - Suc (e + 1)) + 1 \<le> unat ?x'"
        using ih(4) True by simp
      then have "2 * (15 * 2 ^ (e' - Suc (e + 1)) + 1) \<le> 2 * ((unat x + 1) div 2)"
        unfolding x' by (rule mult_le_mono2)
      also have "\<dots> \<le> unat x + 1"
        by simp
      finally have "2 * (15 * 2 ^ (e' - Suc (e + 1)) + 1) \<le> unat x + 1" .
      then show ?thesis
        using ih(4) True unfolding d by simp
    qed
    with ih le up show ?thesis
      by auto
  qed
qed

text \<open>The bytes of the encoding, as sums.\<close>

lemma unat_push_bit_small:
  "unat y * 2 ^ e < 2 ^ 32 \<Longrightarrow> unat (push_bit e y) = unat y * 2 ^ e" for y :: u32
proof -
  assume "unat y * 2 ^ e < 2 ^ 32"
  then have "take_bit 32 (push_bit e (unat y)) = unat y * 2 ^ e"
    by (simp add: push_bit_eq_mult take_bit_nat_eq_self)
  moreover have "unat (push_bit e y) = take_bit 32 (push_bit e (unat y))"
    by (simp add: unsigned_push_bit_eq)
  ultimately show ?thesis
    by simp
qed

lemma push_bit_3_or: "m < 8 \<Longrightarrow> push_bit 3 n OR m = 8 * n + m" for m n :: nat
proof -
  assume m: "m < 8"
  then have "push_bit 3 n AND m = 0"
    by (intro bit_eqI) (use nat_bit_less [of m 3] in \<open>fastforce simp: bit_simps\<close>)
  then have "push_bit 3 n OR m = push_bit 3 n + m"
    by (metis disjunctive_add_eq_or)
  then show ?thesis
    by (simp add: push_bit_eq_mult)
qed

lemma log_2_table:
  "1 \<le> x \<Longrightarrow> x < 256 \<Longrightarrow> 2 ^ (log_2 ! x) \<le> 2 * x \<and> x < 2 ^ (log_2 ! x) \<and> 1 \<le> log_2 ! x"
proof -
  have "list_all (\<lambda>x. 2 ^ (log_2 ! x) \<le> 2 * x \<and> x < 2 ^ (log_2 ! x) \<and> 1 \<le> log_2 ! x) [1..<256]"
    by code_simp
  then show "1 \<le> x \<Longrightarrow> x < 256 \<Longrightarrow> ?thesis"
    by (simp add: list_all_iff)
qed

lemma luaO_fb2int_fb: "e \<le> 30 \<Longrightarrow> m < 8 \<Longrightarrow> luaO_fb2int (8 * (e + 1) + m) = push_bit e (of_nat (m + 8))"
proof -
  assume e: "e \<le> 30" and m: "m < 8"
  have "drop_bit 3 (8 * (e + 1) + m) = e + 1"
    using m by (simp add: drop_bit_eq_div)
  moreover have "(8 * (e + 1) + m) AND 7 = m"
  proof -
    have "(8 * (e + 1) + m) AND 7 = take_bit 3 (8 * (e + 1) + m)"
      by (simp add: take_bit_eq_mask mask_eq_exp_minus_1)
    also have "\<dots> = m"
    proof -
      have "take_bit 3 (8 * (e + 1) + m) = (m + 8 * (e + 1)) mod 8"
        by (simp add: take_bit_eq_mod add.commute)
      then show ?thesis
        using m by (simp only: mod_mult_self2) simp
    qed
    finally show ?thesis .
  qed
  moreover have "(e + 1) AND 31 = e + 1"
  proof -
    have "(e + 1) AND 31 = take_bit 5 (e + 1)"
      by (simp add: take_bit_eq_mask mask_eq_exp_minus_1)
    then show ?thesis
      using e by (simp add: take_bit_eq_mod)
  qed
  ultimately show ?thesis
    by (simp add: luaO_fb2int_def Let_def)
qed

lemma luaO_fb2int_small: "x < 8 \<Longrightarrow> luaO_fb2int x = of_nat x"
  by (simp add: luaO_fb2int_def drop_bit_eq_div)

text \<open>A mantissa of four bits with its exponent: what the byte is and what it stands for.\<close>

lemma fb_of_large:
  assumes "int2fb_loop x 0 = (y, e)" and y: "8 \<le> unat y" "unat y < 16" and e: "e \<le> 27"
  shows "luaO_int2fb x = 8 * (e + 1) + (unat y - 8)"
    and "unat (luaO_fb2int (luaO_int2fb x)) = unat y * 2 ^ e"
proof -
  show enc: "luaO_int2fb x = 8 * (e + 1) + (unat y - 8)"
    using assms by (simp add: luaO_int2fb_def push_bit_3_or word_less_nat_alt)
  have "unat y * 2 ^ e \<le> 15 * 2 ^ e" using y by simp
  also have "\<dots> \<le> 15 * 2 ^ 27" using e by (intro mult_left_mono power_increasing) auto
  finally have "unat (push_bit e y) = unat y * 2 ^ e"
    by (intro unat_push_bit_small) simp
  then show "unat (luaO_fb2int (luaO_int2fb x)) = unat y * 2 ^ e"
    using e y luaO_fb2int_fb [of e "unat y - 8"] unfolding enc by simp
qed

text \<open>
  A table size survives the encoding into an operand of OP_NEWTABLE: it fits a byte, it decodes
  to at least the size asked for, overshoots it by at most a seventh, and is exact below 16. The
  bound on the size keeps the decoded value inside an \<open>int\<close>.
\<close>

theorem int2fb_fb2int:
  assumes "unat x \<le> 15 * 2 ^ 27"
  shows "luaO_int2fb x < 256 \<and> unat x \<le> unat (luaO_fb2int (luaO_int2fb x)) \<and>
    7 * unat (luaO_fb2int (luaO_int2fb x)) \<le> 8 * unat x \<and>
    (unat x < 16 \<longrightarrow> luaO_fb2int (luaO_int2fb x) = x)"
proof -
  obtain y e where l: "int2fb_loop x 0 = (y, e)"
    by force
  have s: "unat y < 16" "unat x \<le> unat y * 2 ^ e" "unat y * 2 ^ e + 1 \<le> unat x + 2 ^ e"
    "0 < e \<longrightarrow> 8 \<le> unat y \<and> 15 * 2 ^ (e - 1) < unat x"
    using int2fb_loop_spec [OF l] assms by auto
  show ?thesis
  proof (cases "y < 8")
    case True
    then have "unat y < 8" "e = 0" "unat x = unat y"
      using s by (auto simp: word_less_nat_alt)
    then show ?thesis
      using True l by (auto simp: luaO_int2fb_def luaO_fb2int_small word_unat_eq_iff)
  next
    case False
    then have y8: "8 \<le> unat y"
      by (simp add: word_less_nat_alt not_less)
    have e: "e \<le> 27"
    proof (rule ccontr)
      assume "\<not> e \<le> 27"
      then have "(2 :: nat) ^ 27 \<le> 2 ^ (e - 1)" by (intro power_increasing) auto
      then show False using s(4) assms \<open>\<not> e \<le> 27\<close> by linarith
    qed
    note fb = fb_of_large [OF l y8 s(1) e]
    have "2 ^ e * 8 \<le> unat y * 2 ^ e"
      using y8 by simp
    then have "7 * (unat y * 2 ^ e) \<le> 8 * unat x"
      using s(3) by linarith
    moreover have "luaO_fb2int (luaO_int2fb x) = x" if "unat x < 16"
    proof -
      have "(1 :: nat) \<le> 2 ^ (e - 1)" by simp
      with s(4) that have "e = 0" by (cases "e = 0") (simp, linarith)
      then show ?thesis
        using s(2,3) fb(2) by (simp add: word_unat_eq_iff)
    qed
    ultimately show ?thesis
      unfolding fb(2) using s(1,2) e y8 by (simp add: fb(1))
  qed
qed

text \<open>The witness of C1 at 1000, which is encoded rounding up.\<close>

lemma int2fb_fb2int_witness:
  "unat (1000 :: u32) \<le> 15 * 2 ^ 27 \<and> unat (1000 :: u32) \<le> unat (luaO_fb2int (luaO_int2fb 1000))"
  using int2fb_fb2int [of 1000] by simp

lemma log2_loop_spec:
  "1 \<le> unat x \<Longrightarrow> log2_loop x l = (y, l') \<Longrightarrow>
     l \<le> l' \<and> 1 \<le> unat y \<and> unat y < 256 \<and> unat y * 2 ^ nat (l' - l) \<le> unat x \<and>
     unat x < (unat y + 1) * 2 ^ nat (l' - l)"
proof (induction x l arbitrary: y l' rule: log2_loop.induct)
  case (1 x l)
  show ?case
  proof (cases "256 \<le> x")
    case False
    with 1 show ?thesis
      by (auto simp: log2_loop.simps [of x l] word_less_nat_alt not_le)
  next
    case True
    let ?x' = "drop_bit 8 x"
    have x': "unat ?x' = unat x div 256"
      by (simp add: unat_drop_bit_eq drop_bit_eq_div unat_div)
    have "256 \<le> unat x"
      using True by (simp add: word_le_nat_alt)
    then have "1 \<le> unat ?x'"
      unfolding x' by simp
    moreover have "log2_loop ?x' (l + 8) = (y, l')"
      using True "1.prems" by (simp add: log2_loop.simps [of x l])
    ultimately have ih: "l + 8 \<le> l'" "1 \<le> unat y" "unat y < 256"
      "unat y * 2 ^ nat (l' - (l + 8)) \<le> unat ?x'"
      "unat ?x' < (unat y + 1) * 2 ^ nat (l' - (l + 8))"
      using "1.IH" [OF True] by auto
    have p: "nat (l' - l) = nat (l' - (l + 8)) + 8"
      using ih(1) by simp
    have "256 * (unat y * 2 ^ nat (l' - (l + 8))) \<le> 256 * (unat x div 256)"
      using ih(4) x' by simp
    then have "unat y * 2 ^ nat (l' - l) \<le> unat x"
      by (simp add: p power_add)
    moreover have "unat x < (unat y + 1) * 2 ^ nat (l' - l)"
    proof -
      have "unat x < 256 * (unat x div 256 + 1)"
        by simp
      also have "\<dots> \<le> 256 * ((unat y + 1) * 2 ^ nat (l' - (l + 8)))"
        using ih(5) x' by (intro mult_le_mono2) simp
      finally show ?thesis
        by (simp add: p power_add)
    qed
    ultimately show ?thesis
      using ih by auto
  qed
qed

lemma luaO_log2_bounds:
  "luaO_log2 0 = -1 \<and>
   (x \<noteq> 0 \<longrightarrow> 0 \<le> luaO_log2 x \<and> 2 ^ nat (luaO_log2 x) \<le> unat x \<and>
      unat x < 2 ^ Suc (nat (luaO_log2 x)))"
proof (intro conjI impI)
  show "luaO_log2 0 = -1"
    by (simp add: luaO_log2_def log2_loop.simps [of 0] log_2_def)
next
  assume "x \<noteq> 0"
  then have x: "1 \<le> unat x"
    by (simp add: unat_gt_0 Suc_le_eq)
  obtain y l where l: "log2_loop x (-1) = (y, l)"
    by force
  note s = log2_loop_spec [OF x l]
  let ?t = "log_2 ! unat y"
  note t = log_2_table [of "unat y"]
  have v: "luaO_log2 x = l + int ?t"
    using l by (simp add: luaO_log2_def)
  have t1: "1 \<le> ?t" "2 ^ ?t \<le> 2 * unat y" "unat y + 1 \<le> 2 ^ ?t"
    using s t by auto
  have n: "nat (luaO_log2 x) = nat (l + 1) + (?t - 1)"
    using s t1(1) unfolding v by arith
  show "0 \<le> luaO_log2 x"
    using s t1(1) by (simp add: v)
  have "2 * 2 ^ (?t - 1) = (2 :: nat) ^ ?t"
    using t1(1) by (simp flip: power_Suc)
  then have "2 ^ (?t - 1) \<le> unat y"
    using t1(2) by linarith
  then have "2 ^ (?t - 1) * 2 ^ nat (l + 1) \<le> unat y * 2 ^ nat (l + 1)"
    by simp
  moreover have "unat y * 2 ^ nat (l + 1) \<le> unat x"
    using s by simp
  ultimately have "2 ^ (?t - 1) * 2 ^ nat (l + 1) \<le> unat x"
    by (rule le_trans)
  then show "2 ^ nat (luaO_log2 x) \<le> unat x"
    by (simp add: n power_add mult.commute)
  have "unat x < (unat y + 1) * 2 ^ nat (l + 1)"
    using s by simp
  also have "\<dots> \<le> 2 ^ ?t * 2 ^ nat (l + 1)"
    using t1(3) by (intro mult_right_mono) auto
  also have "\<dots> = 2 ^ Suc (nat (luaO_log2 x))"
    using t1(1) by (simp add: n flip: power_add power_Suc)
  finally show "unat x < 2 ^ Suc (nat (luaO_log2 x))" .
qed

lemma ceillog2_bounds:
  assumes "1 \<le> unat x"
  shows "0 \<le> ceillog2 x \<and> unat x \<le> 2 ^ nat (ceillog2 x) \<and> (2 \<le> unat x \<longrightarrow> 2 ^ nat (ceillog2 x - 1) < unat x) \<and>
    (unat x = 1 \<longrightarrow> ceillog2 x = 0)"
proof (cases "x = 1")
  case True
  then show ?thesis
    using luaO_log2_bounds [of 0] by (simp add: ceillog2_def)
next
  case False
  have u: "unat (x - 1) = unat x - 1"
    using assms by (simp add: unat_sub word_le_nat_alt)
  have "unat x \<noteq> 1"
    using False by (simp add: word_unat_eq_iff)
  then have "x - 1 \<noteq> 0"
    using u assms by (metis One_nat_def diff_is_0_eq le_antisym unat_0)
  with luaO_log2_bounds [of "x - 1"] u have l: "0 \<le> luaO_log2 (x - 1)"
    "2 ^ nat (luaO_log2 (x - 1)) \<le> unat x - 1" "unat x - 1 < 2 ^ Suc (nat (luaO_log2 (x - 1)))"
    by auto
  have "nat (ceillog2 x) = Suc (nat (luaO_log2 (x - 1)))"
    using l(1) by (simp add: ceillog2_def nat_add_distrib)
  then show ?thesis
    using l assms \<open>unat x \<noteq> 1\<close> by (auto simp: ceillog2_def)
qed

text \<open>
  \<open>luaO_log2\<close>, which reads a table of 256 bytes, is the integer logarithm of every non-zero
  word, and -1 for zero, so that \<open>ceillog2\<close> is exact too.
\<close>

theorem luaO_log2_correct:
  "luaO_log2 0 = -1 \<and>
   (x \<noteq> 0 \<longrightarrow> 0 \<le> luaO_log2 x \<and> 2 ^ nat (luaO_log2 x) \<le> unat x \<and>
      unat x < 2 ^ Suc (nat (luaO_log2 x)))"
  using luaO_log2_bounds [of x] luaO_log2_bounds [of 0] by blast

text \<open>The witness of the property above at 600 = 2 * 256 + 88.\<close>

lemma luaO_log2_correct_witness: "(600 :: u32) \<noteq> 0 \<and> 2 ^ nat (luaO_log2 600) \<le> unat (600 :: u32)"
  using luaO_log2_correct [of 600] by simp

section \<open>Chunk names\<close>

text \<open>
  the name of a chunk shown in messages always fits the buffer of the caller with its final
  zero, for every buffer the code uses (\<open>LUA_IDSIZE\<close> is 60), and the name of a chunk that is
  neither a file nor a literal name stays on one line.
\<close>

theorem chunkid_fits:
  assumes "17 \<le> bufflen"
  shows "length (luaO_chunkid source bufflen) < unat bufflen \<and>
    (\<not> (source \<noteq> [] \<and> hd source \<in> {CHR ''='', CHR ''@''}) \<longrightarrow>
      CHR 0x0A \<notin> set (luaO_chunkid source bufflen))"
proof -
  have b: "17 \<le> unat bufflen"
    using assms by (simp add: word_le_nat_alt)
  have sub: "unat (bufflen - 1) = unat bufflen - 1" "unat (bufflen - 8) = unat bufflen - 8"
    "unat (bufflen - 17) = unat bufflen - 17"
    using b by (simp_all add: unat_sub word_le_nat_alt)
  let ?w = "takeWhile (\<lambda>c. c \<noteq> CHR 0x0A \<and> c \<noteq> CHR 0x0D) source"
  let ?s = "''[string \"'' @ (let len = min (length ?w) (unat bufflen - 17) in
      if len < length source then take len source @ ''...'' else source) @ ''\"]''"
  have line: "CHR 0x0A \<notin> set (take len source)" if "len \<le> length ?w" for len
  proof -
    have "take len (?w @ dropWhile (\<lambda>c. c \<noteq> CHR 0x0A \<and> c \<noteq> CHR 0x0D) source) = take len ?w"
      using that by (simp del: takeWhile_dropWhile_id)
    then have "take len source = take len ?w"
      by (simp only: takeWhile_dropWhile_id)
    then show ?thesis
      by (auto dest!: in_set_takeD set_takeWhileD)
  qed
  define len where "len = min (length ?w) (unat bufflen - 17)"
  have len: "CHR 0x0A \<notin> set (take len source)" "len \<le> unat bufflen - 17"
    by (simp_all add: line len_def)
  have str: "length ?s < unat bufflen \<and> CHR 0x0A \<notin> set ?s"
  proof (cases "len < length source")
    case True
    then show ?thesis
      using b len unfolding Let_def by (simp flip: len_def)
  next
    case False
    then show ?thesis
      using b len unfolding Let_def by (simp flip: len_def)
  qed
  consider "take 1 source = ''=''" | "take 1 source = ''@''" "take 1 source \<noteq> ''=''"
    | "take 1 source \<noteq> ''=''" "take 1 source \<noteq> ''@''"
    by blast
  then show ?thesis
  proof cases
    case 1
    then show ?thesis
      using b sub by (cases source) (auto simp: luaO_chunkid_def)
  next
    case 2
    then show ?thesis
      using b sub by (cases source) (auto simp: luaO_chunkid_def Let_def)
  next
    case 3
    then have "luaO_chunkid source bufflen = ?s"
      using sub by (simp add: luaO_chunkid_def Let_def min_def)
    then show ?thesis
      using str by simp
  qed
qed

text \<open>The witness of the property above at the 60 bytes of \<open>lua_Debug\<close>.\<close>

lemma chunkid_fits_witness:
  "17 \<le> (60 :: u64) \<and> length (luaO_chunkid (''return 1'' @ [CHR 0x0A]) 60) < 60 \<and>
   luaO_chunkid (''return 1'' @ [CHR 0x0A]) 60 = ''[string \"return 1...\"]''"
proof -
  have "luaO_chunkid (''return 1'' @ [CHR 0x0A]) 60 = ''[string \"return 1...\"]''"
    by (simp add: luaO_chunkid_def)
  then show ?thesis
    using chunkid_fits [of 60 "''return 1'' @ [CHR 0x0A]"] by simp
qed

section \<open>Growing a vector\<close>

text \<open>What growing a vector comes to.\<close>

lemma growvector_done:
  assumes "0 \<le> nelems" "nelems \<le> sz" "4 \<le> limit" "limit \<le> MAX_INT" "0 < e" "e \<le> 2 ^ 16"
  shows "case luaM_growvector frealloc g nelems sz e limit msg of
      Inr (g', sz') \<Rightarrow> nelems < sz' \<and> sz \<le> sz' \<and> (sz \<le> limit \<longrightarrow> sz' \<le> limit) \<and>
        totalbytes g' = totalbytes g + word_of_int ((sz' - sz) * e)
    | Inl err \<Rightarrow> nelems = sz \<and>
        (limit \<le> sz \<and> err = LuaError ERRRUN msg \<or>
         sz < limit \<and> err = LuaError ERRMEM ''not enough memory'')"
proof (cases "nelems + 1 > sz")
  case False
  then show ?thesis
    using assms by (simp add: luaM_growvector_def)
next
  case True
  then have n: "nelems = sz"
    using assms(2) by simp
  define new where "new = (if sz \<ge> limit div 2 then limit
                          else if sz * 2 < MINSIZEARRAY then MINSIZEARRAY else sz * 2)"
  show ?thesis
  proof (cases "sz < limit")
    case False
    then show ?thesis
      using True n assms by (auto simp: luaM_growvector_def luaM_growaux_def runerror_def)
  next
    case lim: True
    have new: "sz < new" "new \<le> limit"
      using lim assms(1,3) n by (auto simp: new_def)
    have "uint (word_of_int (new + 1) :: u64) = new + 1"
      using new assms by (simp add: uint_word_of_int_eq take_bit_int_eq_self del: of_int_add)
    also have "new + 1 \<le> MAX_SIZET div e"
    proof -
      have "(new + 1) * e \<le> 2147483648 * 2 ^ 16"
        using new assms by (intro mult_mono) auto
      then have "(new + 1) * e \<le> MAX_SIZET"
        by simp
      then have "(new + 1) * e div e \<le> MAX_SIZET div e"
        using assms(5) by (rule zdiv_mono1)
      then show ?thesis
        using assms(5) by simp
    qed
    finally have "luaM_reallocv frealloc g sz new e =
        luaM_realloc frealloc g (word_of_int (sz * e)) (word_of_int (new * e))"
      by (simp add: luaM_reallocv_def)
    then show ?thesis
      using True n lim new
      by (simp add: luaM_growvector_def luaM_growaux_def Let_def luaM_realloc_def algebra_simps
          flip: new_def)
  qed
qed

text \<open>
  C11: \<open>luaM_growvector\<close> returns only with room for one more element, never shrinks the vector and
  never passes the caller's limit; otherwise the limit is reached and the caller's message is
  raised, or the allocator refused and nothing changed. The bytes in use grow by exactly the new
  elements.
\<close>

theorem growvector_room:
  assumes "0 \<le> nelems" "nelems \<le> sz" "4 \<le> limit" "limit \<le> MAX_INT" "0 < e" "e \<le> 2 ^ 16"
  shows "case luaM_growvector frealloc g nelems sz e limit msg of
      Inr (g', sz') \<Rightarrow> nelems < sz' \<and> sz \<le> sz' \<and> (sz \<le> limit \<longrightarrow> sz' \<le> limit) \<and>
        totalbytes g' = totalbytes g + word_of_int ((sz' - sz) * e)
    | Inl err \<Rightarrow> nelems = sz \<and>
        (limit \<le> sz \<and> err = LuaError ERRRUN msg \<or>
         sz < limit \<and> err = LuaError ERRMEM ''not enough memory'')"
  using assms by (rule growvector_done)

text \<open>The witness of the property above at a full vector of 8 instructions.\<close>

lemma growvector_room_witness:
  "luaM_growvector (\<lambda>_ _. True) \<lparr>totalbytes = 100\<rparr> 8 8 4 1000 ''code size overflow'' =
     Inr (\<lparr>totalbytes = 132\<rparr>, 16) \<and> (8 :: int) < 16"
proof -
  have "luaM_growvector (\<lambda>_ _. True) \<lparr>totalbytes = 100\<rparr> 8 8 4 1000 ''code size overflow'' =
     Inr (\<lparr>totalbytes = 132\<rparr>, 16)"
    by (simp add: luaM_growvector_def luaM_growaux_def luaM_reallocv_def luaM_realloc_def)
  then show ?thesis
    using growvector_room [where nelems = 8 and sz = 8 and limit = 1000 and e = 4
        and frealloc = "\<lambda>_ _. True" and g = "\<lparr>totalbytes = 100\<rparr>" and msg = "''code size overflow''"] by simp
qed

end
