(* ===== verification/Lua_Table.thy ===== *)
theory Lua_Table
  imports Lua_Object
begin

text \<open>
  Tables (\<^verbatim>\<open>src/src/ltable.c\<close>, with \<open>Table\<close>, \<open>Node\<close> and \<open>sizenode\<close> of
  \<^verbatim>\<open>src/src/lobject.h\<close>): an array part and a chained scatter table with Brent's variation. The
  node vector is a list, a \<open>Node *\<close> an index into it, \<open>NULL\<close> is \<open>None\<close> and the shared
  \<open>dummynode\<close> is the flag \<open>dummy\<close> of a table whose vector is that one node. \<open>lastfree\<close> is a
  pointer difference, which the code decrements below the vector.

  Two things the table only uses are parameters: \<open>hs\<close>, the hash stored in a string object, and
  \<open>fr\<close>, whether the allocator grants a block (the old and the new size in bytes). The write barrier
  of \<open>newkey\<close> belongs to the collector and is left out. An operation that may raise an error returns
  the table it leaves behind, whatever the outcome.
\<close>

section \<open>Data\<close>

record Node =
  gval :: tvalue
  gkey :: tvalue
  gnext :: "nat option"

record Table =
  flags :: u8
  array :: "tvalue list"
  lsizenode :: nat
  node :: "Node list"
  dummy :: bool
  lastfree :: int

abbreviation (input) MAXBITS :: nat where "MAXBITS \<equiv> 26"
abbreviation (input) MAXASIZE :: int where "MAXASIZE \<equiv> 2 ^ 26"

text \<open>A pointer to a value inside a table, or to \<open>luaO_nilobject\<close>.\<close>

datatype slot = ArrSlot nat | NodeSlot nat | NilObj

definition dummynode :: Node where
  "dummynode = \<lparr>gval = Nil, gkey = Nil, gnext = None\<rparr>"

definition sizenode :: "Table \<Rightarrow> nat" where
  "sizenode t = twoto (lsizenode t)"

definition sizearray :: "Table \<Rightarrow> int" where
  "sizearray t = int (length (array t))"

fun read_slot :: "Table \<Rightarrow> slot \<Rightarrow> tvalue" where
  "read_slot t (ArrSlot i) = array t ! i"
| "read_slot t (NodeSlot i) = gval (node t ! i)"
| "read_slot t NilObj = Nil"

text \<open>\<open>setobj\<close> through a pointer into the table.\<close>

fun write_slot :: "Table \<Rightarrow> slot \<Rightarrow> tvalue \<Rightarrow> Table" where
  "write_slot t (ArrSlot i) v = t\<lparr>array := (array t)[i := v]\<rparr>"
| "write_slot t (NodeSlot i) v = t\<lparr>node := (node t)[i := (node t ! i)\<lparr>gval := v\<rparr>]\<rparr>"
| "write_slot t NilObj v = t"

text \<open>
  An operation leaves a table and a value or an error. \<open>None\<close> is a run that does not come back: a
  null pointer followed, or the recursion of \<open>newkey\<close> cut by its fuel.
\<close>

type_synonym 'a tres = "(Table \<times> 'a result) option"

fun tbind :: "'a tres \<Rightarrow> (Table \<Rightarrow> 'a \<Rightarrow> 'b tres) \<Rightarrow> 'b tres" where
  "tbind None f = None"
| "tbind (Some (t, Inl e)) f = Some (t, Inl e)"
| "tbind (Some (t, Inr x)) f = f t x"

section \<open>Main positions\<close>

definition hashpow2 :: "Table \<Rightarrow> u32 \<Rightarrow> nat" where
  "hashpow2 t n = unat (n AND of_nat (sizenode t - 1))"

definition hashmod :: "Table \<Rightarrow> u32 \<Rightarrow> nat" where
  "hashmod t n = unat n mod ((sizenode t - 1) OR 1)"

lemma hashmod_code [code]: "hashmod t n = nat (uint n mod int ((sizenode t - 1) OR 1))"
  by (simp add: hashmod_def nat_mod_distrib)

definition IntPoint :: "addr \<Rightarrow> u32" where
  "IntPoint p = ucast p"

definition hashnum :: "Table \<Rightarrow> lua_Number \<Rightarrow> nat" where
  "hashnum t n =
     (if luai_numeq n 0 then 0
      else let a0 = ucast n :: u32; a1 = ucast (drop_bit 32 n) :: u32 in hashmod t (a0 + a1))"

definition mainposition :: "(addr \<Rightarrow> u32) \<Rightarrow> Table \<Rightarrow> tvalue \<Rightarrow> nat" where
  "mainposition hs t key =
     (case key of
        Number n \<Rightarrow> hashnum t n
      | Str s \<Rightarrow> hashpow2 t (hs s)
      | Boolean b \<Rightarrow> hashpow2 t (if b then 1 else 0)
      | LightUserdata p \<Rightarrow> hashmod t (IntPoint p)
      | _ \<Rightarrow> hashmod t (IntPoint (gcvalue key)))"

definition arrayindex :: "tvalue \<Rightarrow> int" where
  "arrayindex key =
     (case key of
        Number n \<Rightarrow> (let k = lua_number2int n in if luai_numeq (cast_num k) n then k else -1)
      | _ \<Rightarrow> -1)"

section \<open>Searching\<close>

text \<open>
  The loops \<open>do { if (...) return ...; else n = gnext(n); } while (n)\<close>. The fuel is the size of the
  node vector: lemma \<open>chain_ends\<close> shows that a chain of a well-formed table ends before.
\<close>

fun search :: "nat \<Rightarrow> Node list \<Rightarrow> (Node \<Rightarrow> bool) \<Rightarrow> nat \<Rightarrow> nat option" where
  "search 0 N P i = None"
| "search (Suc f) N P i =
     (if P (N ! i) then Some i
      else case gnext (N ! i) of None \<Rightarrow> None | Some j \<Rightarrow> search f N P j)"

definition slot_of :: "nat option \<Rightarrow> slot" where
  "slot_of r = (case r of None \<Rightarrow> NilObj | Some i \<Rightarrow> NodeSlot i)"

definition luaH_getnum :: "Table \<Rightarrow> int \<Rightarrow> slot" where
  "luaH_getnum t key =
     (if (word_of_int (key - 1) :: u32) < word_of_int (sizearray t) then ArrSlot (nat (key - 1))
      else let nk = cast_num key in
        slot_of (search (length (node t)) (node t)
          (\<lambda>n. case gkey n of Number m \<Rightarrow> luai_numeq m nk | _ \<Rightarrow> False) (hashnum t nk)))"

definition luaH_getstr :: "(addr \<Rightarrow> u32) \<Rightarrow> Table \<Rightarrow> addr \<Rightarrow> slot" where
  "luaH_getstr hs t key =
     slot_of (search (length (node t)) (node t)
       (\<lambda>n. case gkey n of Str s \<Rightarrow> s = key | _ \<Rightarrow> False) (hashpow2 t (hs key)))"

definition get_generic :: "(addr \<Rightarrow> u32) \<Rightarrow> Table \<Rightarrow> tvalue \<Rightarrow> slot" where
  "get_generic hs t key =
     slot_of (search (length (node t)) (node t) (\<lambda>n. luaO_rawequalObj (gkey n) key)
       (mainposition hs t key))"

definition luaH_get :: "(addr \<Rightarrow> u32) \<Rightarrow> Table \<Rightarrow> tvalue \<Rightarrow> slot" where
  "luaH_get hs t key =
     (case key of
        Nil \<Rightarrow> NilObj
      | Str s \<Rightarrow> luaH_getstr hs t s
      | Number n \<Rightarrow>
          (let k = lua_number2int n in
           if luai_numeq (cast_num k) n then luaH_getnum t k else get_generic hs t key)
      | _ \<Rightarrow> get_generic hs t key)"

section \<open>Counting integer keys\<close>

definition countint :: "tvalue \<Rightarrow> int list \<Rightarrow> int list \<times> int" where
  "countint key nums =
     (let k = arrayindex key in
      if 0 < k \<and> k \<le> MAXASIZE then
        let i = nat (ceillog2 (word_of_int k)) in (nums[i := nums ! i + 1], 1)
      else (nums, 0))"

function computesizes_loop ::
  "int list \<Rightarrow> int \<Rightarrow> nat \<Rightarrow> int \<Rightarrow> int \<Rightarrow> int \<Rightarrow> int \<times> int" where
  "computesizes_loop nums narray i a na n =
     (let twotoi = 2 ^ i in
      if twotoi div 2 < narray then
        let a' = (if nums ! i > 0 then a + nums ! i else a);
            (n', na') = (if nums ! i > 0 \<and> a' > twotoi div 2 then (twotoi, a') else (n, na))
        in if a' = narray then (n', na') else computesizes_loop nums narray (i + 1) a' na' n'
      else (n, na))"
  by pat_completeness auto

lemma computesizes_bound: "(2 :: int) ^ i div 2 < narray \<Longrightarrow> i < nat (2 * narray)"
proof -
  assume "(2 :: int) ^ i div 2 < narray"
  then have "2 ^ i < 2 * narray"
    by linarith
  moreover have "int i < 2 ^ i"
    using less_exp [of i] by (metis of_nat_less_iff of_nat_numeral of_nat_power)
  ultimately show ?thesis
    by linarith
qed

termination computesizes_loop
proof (relation "measure (\<lambda>(nums, narray, i, a, na, n). nat (2 * narray) - i)", goal_cases)
  case (2 nums narray i a na n twotoi)
  then show ?case
    using computesizes_bound [of i narray] by simp
qed simp

declare computesizes_loop.simps [simp del]

text \<open>The new size of the array part (\<open>*narray\<close> on return) and the number of keys that go to it.\<close>

definition computesizes :: "int list \<Rightarrow> int \<Rightarrow> int \<times> int" where
  "computesizes nums narray = computesizes_loop nums narray 0 0 0 0"

primrec numusearray_loop :: "nat list \<Rightarrow> tvalue list \<Rightarrow> nat \<Rightarrow> int list \<Rightarrow> int \<Rightarrow> int list \<times> int" where
  "numusearray_loop [] arr i nums ause = (nums, ause)"
| "numusearray_loop (lg # lgs) arr i nums ause =
     (let ttlg = 2 ^ lg; lim = (if ttlg > length arr then length arr else ttlg) in
      if ttlg > length arr \<and> i > lim then (nums, ause)
      else let lc = int (length (filter (\<lambda>i. arr ! (i - 1) \<noteq> Nil) [i..<lim + 1])) in
        numusearray_loop lgs arr (max i (lim + 1)) (nums[lg := nums ! lg + lc]) (ause + lc))"

definition numusearray :: "Table \<Rightarrow> int list \<Rightarrow> int list \<times> int" where
  "numusearray t nums = numusearray_loop [0..<MAXBITS + 1] (array t) 1 nums 0"

fun numusehash_loop :: "Node list \<Rightarrow> int list \<Rightarrow> int \<Rightarrow> int \<Rightarrow> int list \<times> int \<times> int" where
  "numusehash_loop [] nums ause totaluse = (nums, ause, totaluse)"
| "numusehash_loop (n # ns) nums ause totaluse =
     (if gval n \<noteq> Nil then
        let (nums, c) = countint (gkey n) nums in numusehash_loop ns nums (ause + c) (totaluse + 1)
      else numusehash_loop ns nums ause totaluse)"

text \<open>The counts, the increment of \<open>*pnasize\<close> and the number of elements.\<close>

definition numusehash :: "Table \<Rightarrow> int list \<Rightarrow> int list \<times> int \<times> int" where
  "numusehash t nums = numusehash_loop (rev (node t)) nums 0 0"

section \<open>Allocation\<close>

definition luaM_vector :: "(u64 \<Rightarrow> u64 \<Rightarrow> bool) \<Rightarrow> int \<Rightarrow> int \<Rightarrow> int \<Rightarrow> unit result" where
  "luaM_vector fr oldn n e = bind (luaM_reallocv fr \<lparr>totalbytes = 0\<rparr> oldn n e) (\<lambda>_. Inr ())"

definition setarrayvector :: "(u64 \<Rightarrow> u64 \<Rightarrow> bool) \<Rightarrow> Table \<Rightarrow> int \<Rightarrow> unit tres" where
  "setarrayvector fr t sz =
     (case luaM_vector fr (sizearray t) sz 16 of
        Inl e \<Rightarrow> Some (t, Inl e)
      | Inr _ \<Rightarrow> Some (t\<lparr>array := take (nat sz) (array t) @
            replicate (nat sz - length (array t)) Nil\<rparr>, Inr ()))"

definition setnodevector :: "(u64 \<Rightarrow> u64 \<Rightarrow> bool) \<Rightarrow> Table \<Rightarrow> int \<Rightarrow> unit tres" where
  "setnodevector fr t sz =
     (if sz = 0 then
        Some (t\<lparr>node := [dummynode], dummy := True, lsizenode := 0, lastfree := 0\<rparr>, Inr ())
      else let lsize = ceillog2 (word_of_int sz) in
        if lsize > int MAXBITS then Some (t, runerror ''table overflow'')
        else let sz = twoto (nat lsize) in
          case luaM_vector fr 0 (int sz) 40 of
            Inl e \<Rightarrow> Some (t, Inl e)
          | Inr _ \<Rightarrow> Some (t\<lparr>node := replicate sz \<lparr>gval = Nil, gkey = Nil, gnext = None\<rparr>,
              dummy := False, lsizenode := nat lsize, lastfree := int sz\<rparr>, Inr ()))"

section \<open>Insertion\<close>

function getfreepos :: "Table \<Rightarrow> Table \<times> nat option" where
  "getfreepos t =
     (let lf = lastfree t; t' = t\<lparr>lastfree := lf - 1\<rparr> in
      if lf > 0 then
        if gkey (node t ! nat (lf - 1)) = Nil then (t', Some (nat (lf - 1))) else getfreepos t'
      else (t', None))"
  by pat_completeness auto

termination getfreepos
  by (relation "measure (\<lambda>t. nat (lastfree t))") auto

declare getfreepos.simps [simp del]

text \<open>\<open>while (gnext(othern) != mp) othern = gnext(othern);\<close>\<close>

fun find_previous :: "nat \<Rightarrow> Node list \<Rightarrow> nat \<Rightarrow> nat \<Rightarrow> nat option" where
  "find_previous 0 N othern mp = None"
| "find_previous (Suc f) N othern mp =
     (if gnext (N ! othern) = Some mp then Some othern
      else case gnext (N ! othern) of None \<Rightarrow> None | Some j \<Rightarrow> find_previous f N j mp)"

definition put_key :: "Node list \<Rightarrow> nat \<Rightarrow> tvalue \<Rightarrow> Node list" where
  "put_key N mp key = N[mp := (N ! mp)\<lparr>gkey := key\<rparr>]"

text \<open>The colliding node moves from \<open>mp\<close> to the free node \<open>n\<close>; \<open>p\<close> is its predecessor.\<close>

definition move_colliding :: "Node list \<Rightarrow> nat \<Rightarrow> nat \<Rightarrow> nat \<Rightarrow> Node list" where
  "move_colliding N p mp n =
     (let N = N[p := (N ! p)\<lparr>gnext := Some n\<rparr>];
          N = N[n := N ! mp];
          N = N[mp := (N ! mp)\<lparr>gnext := None\<rparr>]
      in N[mp := (N ! mp)\<lparr>gval := Nil\<rparr>])"

definition chain_free :: "Node list \<Rightarrow> nat \<Rightarrow> nat \<Rightarrow> Node list" where
  "chain_free N mp n =
     (let N = N[n := (N ! n)\<lparr>gnext := gnext (N ! mp)\<rparr>]
      in N[mp := (N ! mp)\<lparr>gnext := Some n\<rparr>])"

text \<open>\<open>newkey\<close> but for the branch without a free place, which is its continuation \<open>grow\<close>.\<close>

definition newkey_body ::
  "(addr \<Rightarrow> u32) \<Rightarrow> (Table \<Rightarrow> slot tres) \<Rightarrow> Table \<Rightarrow> tvalue \<Rightarrow> slot tres" where
  "newkey_body hs grow t key =
     (let mp = mainposition hs t key in
      if gval (node t ! mp) \<noteq> Nil \<or> dummy t then
        case getfreepos t of
          (t, None) \<Rightarrow> grow t
        | (t, Some n) \<Rightarrow>
            (let othern = mainposition hs t (gkey (node t ! mp)) in
             if othern \<noteq> mp then
               case find_previous (length (node t)) (node t) othern mp of
                 None \<Rightarrow> None
               | Some p \<Rightarrow>
                   Some (t\<lparr>node := put_key (move_colliding (node t) p mp n) mp key\<rparr>,
                     Inr (NodeSlot mp))
             else Some (t\<lparr>node := put_key (chain_free (node t) mp n) n key\<rparr>, Inr (NodeSlot n)))
      else Some (t\<lparr>node := put_key (node t) mp key\<rparr>, Inr (NodeSlot mp)))"

text \<open>
  \<open>luaH_set\<close>, \<open>luaH_setnum\<close> and \<open>luaH_setstr\<close> over the \<open>newkey\<close> they call, which is recursive
  through \<open>rehash\<close>.
\<close>

type_synonym newkey_fun = "Table \<Rightarrow> tvalue \<Rightarrow> slot tres"

definition set_with :: "(addr \<Rightarrow> u32) \<Rightarrow> newkey_fun \<Rightarrow> Table \<Rightarrow> tvalue \<Rightarrow> slot tres" where
  "set_with hs nk t key =
     (let p = luaH_get hs t key; t = t\<lparr>flags := 0\<rparr> in
      if p \<noteq> NilObj then Some (t, Inr p)
      else if key = Nil then Some (t, runerror ''table index is nil'')
      else if (case key of Number n \<Rightarrow> luai_numisnan n | _ \<Rightarrow> False) then
        Some (t, runerror ''table index is NaN'')
      else nk t key)"

definition setnum_with :: "newkey_fun \<Rightarrow> Table \<Rightarrow> int \<Rightarrow> slot tres" where
  "setnum_with nk t key =
     (let p = luaH_getnum t key in
      if p \<noteq> NilObj then Some (t, Inr p) else nk t (Number (cast_num key)))"

definition setstr_with :: "(addr \<Rightarrow> u32) \<Rightarrow> newkey_fun \<Rightarrow> Table \<Rightarrow> addr \<Rightarrow> slot tres" where
  "setstr_with hs nk t key =
     (let p = luaH_getstr hs t key in
      if p \<noteq> NilObj then Some (t, Inr p) else nk t (Str key))"

text \<open>The two loops of \<open>resize\<close>; the second takes the old nodes from the last to the first.\<close>

fun reinsert_array :: "newkey_fun \<Rightarrow> Table \<Rightarrow> int \<Rightarrow> tvalue list \<Rightarrow> unit tres" where
  "reinsert_array nk t i [] = Some (t, Inr ())"
| "reinsert_array nk t i (v # vs) =
     (if v \<noteq> Nil then
        tbind (setnum_with nk t (i + 1)) (\<lambda>t s. reinsert_array nk (write_slot t s v) (i + 1) vs)
      else reinsert_array nk t (i + 1) vs)"

fun reinsert_hash :: "(addr \<Rightarrow> u32) \<Rightarrow> newkey_fun \<Rightarrow> Table \<Rightarrow> Node list \<Rightarrow> unit tres" where
  "reinsert_hash hs nk t [] = Some (t, Inr ())"
| "reinsert_hash hs nk t (old # ns) =
     (if gval old \<noteq> Nil then
        tbind (set_with hs nk t (gkey old))
          (\<lambda>t s. reinsert_hash hs nk (write_slot t s (gval old)) ns)
      else reinsert_hash hs nk t ns)"

definition resize ::
  "(addr \<Rightarrow> u32) \<Rightarrow> (u64 \<Rightarrow> u64 \<Rightarrow> bool) \<Rightarrow> newkey_fun \<Rightarrow> Table \<Rightarrow> int \<Rightarrow> int \<Rightarrow> unit tres" where
  "resize hs fr nk t nasize nhsize =
     (let oldasize = sizearray t; nold = node t in
      tbind (if nasize > oldasize then setarrayvector fr t nasize else Some (t, Inr ())) (\<lambda>t _.
      tbind (setnodevector fr t nhsize) (\<lambda>t _.
      tbind (if nasize < oldasize then
               let vanishing = drop (nat nasize) (array t); t = t\<lparr>array := take (nat nasize) (array t)\<rparr>
               in tbind (reinsert_array nk t nasize vanishing) (\<lambda>t _.
                    Some (t, luaM_vector fr oldasize nasize 16))
             else Some (t, Inr ())) (\<lambda>t _.
      reinsert_hash hs nk t (rev nold)))))"

definition rehash ::
  "(addr \<Rightarrow> u32) \<Rightarrow> (u64 \<Rightarrow> u64 \<Rightarrow> bool) \<Rightarrow> newkey_fun \<Rightarrow> Table \<Rightarrow> tvalue \<Rightarrow> unit tres" where
  "rehash hs fr nk t ek =
     (let nums = replicate (MAXBITS + 1) 0;
          (nums, nasize) = numusearray t nums;
          totaluse = nasize;
          (nums, inc, u) = numusehash t nums;
          nasize = nasize + inc;
          totaluse = totaluse + u;
          (nums, c) = countint ek nums;
          nasize = nasize + c;
          totaluse = totaluse + 1;
          (nasize, na) = computesizes nums nasize
      in resize hs fr nk t nasize (totaluse - na))"

fun newkey :: "(addr \<Rightarrow> u32) \<Rightarrow> (u64 \<Rightarrow> u64 \<Rightarrow> bool) \<Rightarrow> nat \<Rightarrow> Table \<Rightarrow> tvalue \<Rightarrow> slot tres" where
  "newkey hs fr 0 t key = newkey_body hs (\<lambda>t. None) t key"
| "newkey hs fr (Suc f) t key =
     newkey_body hs (\<lambda>t. tbind (rehash hs fr (newkey hs fr f) t key)
       (\<lambda>t _. set_with hs (newkey hs fr f) t key)) t key"

definition luaH_set ::
  "(addr \<Rightarrow> u32) \<Rightarrow> (u64 \<Rightarrow> u64 \<Rightarrow> bool) \<Rightarrow> nat \<Rightarrow> Table \<Rightarrow> tvalue \<Rightarrow> slot tres" where
  "luaH_set hs fr f = set_with hs (newkey hs fr f)"

definition luaH_setnum ::
  "(addr \<Rightarrow> u32) \<Rightarrow> (u64 \<Rightarrow> u64 \<Rightarrow> bool) \<Rightarrow> nat \<Rightarrow> Table \<Rightarrow> int \<Rightarrow> slot tres" where
  "luaH_setnum hs fr f = setnum_with (newkey hs fr f)"

definition luaH_setstr ::
  "(addr \<Rightarrow> u32) \<Rightarrow> (u64 \<Rightarrow> u64 \<Rightarrow> bool) \<Rightarrow> nat \<Rightarrow> Table \<Rightarrow> addr \<Rightarrow> slot tres" where
  "luaH_setstr hs fr f = setstr_with hs (newkey hs fr f)"

definition luaH_resizearray ::
  "(addr \<Rightarrow> u32) \<Rightarrow> (u64 \<Rightarrow> u64 \<Rightarrow> bool) \<Rightarrow> nat \<Rightarrow> Table \<Rightarrow> int \<Rightarrow> unit tres" where
  "luaH_resizearray hs fr f t nasize =
     (let nsize = (if dummy t then 0 else int (sizenode t)) in resize hs fr (newkey hs fr f) t nasize nsize)"

definition luaH_new :: "(u64 \<Rightarrow> u64 \<Rightarrow> bool) \<Rightarrow> int \<Rightarrow> int \<Rightarrow> unit tres" where
  "luaH_new fr narray nhash =
     (let t = \<lparr>flags = NOT 0, array = [], lsizenode = 0, node = [dummynode], dummy = True, lastfree = 0\<rparr>
      in tbind (setarrayvector fr t narray) (\<lambda>t _. setnodevector fr t nhash))"

section \<open>Traversal\<close>

definition findindex :: "(addr \<Rightarrow> u32) \<Rightarrow> Table \<Rightarrow> tvalue \<Rightarrow> int result" where
  "findindex hs t key =
     (if key = Nil then Inr (-1)
      else let i = arrayindex key in
        if 0 < i \<and> i \<le> sizearray t then Inr (i - 1)
        else case search (length (node t)) (node t)
            (\<lambda>n. luaO_rawequalObj (gkey n) key \<or>
              ttype (gkey n) = 11 \<and> iscollectable key \<and> gcvalue (gkey n) = gcvalue key)
            (mainposition hs t key) of
          Some i \<Rightarrow> Inr (int i + sizearray t)
        | None \<Rightarrow> runerror (''invalid key to '' @ LUA_QL ''next''))"

fun next_array :: "tvalue list \<Rightarrow> nat \<Rightarrow> (tvalue \<times> tvalue) option" where
  "next_array [] i = None"
| "next_array (v # vs) i =
     (if v \<noteq> Nil then Some (Number (cast_num (int i + 1)), v) else next_array vs (i + 1))"

fun next_hash :: "Node list \<Rightarrow> (tvalue \<times> tvalue) option" where
  "next_hash [] = None"
| "next_hash (n # ns) = (if gval n \<noteq> Nil then Some (gkey n, gval n) else next_hash ns)"

definition luaH_next :: "(addr \<Rightarrow> u32) \<Rightarrow> Table \<Rightarrow> tvalue \<Rightarrow> (tvalue \<times> tvalue) option result" where
  "luaH_next hs t key =
     bind (findindex hs t key) (\<lambda>i. let i = nat (i + 1) in
       case next_array (drop i (array t)) i of
         Some r \<Rightarrow> Inr (Some r)
       | None \<Rightarrow> Inr (next_hash (drop (i - length (array t)) (node t))))"

section \<open>Boundaries\<close>

function array_boundary :: "tvalue list \<Rightarrow> nat \<Rightarrow> nat \<Rightarrow> nat" where
  "array_boundary arr i j =
     (if j - i > 1 then
        let m = (i + j) div 2 in
        if arr ! (m - 1) = Nil then array_boundary arr i m else array_boundary arr m j
      else i)"
  by pat_completeness auto

termination array_boundary
  by (relation "measure (\<lambda>(arr, i, j). j - i)") auto

declare array_boundary.simps [simp del]

text \<open>The loops of \<open>unbound_search\<close>, on unsigned integers; \<open>None\<close> when the fuel runs out.\<close>

definition num_is_nil :: "Table \<Rightarrow> u32 \<Rightarrow> bool" where
  "num_is_nil t j = (read_slot t (luaH_getnum t (sint j)) = Nil)"

fun linear_search :: "nat \<Rightarrow> Table \<Rightarrow> u32 \<Rightarrow> int option" where
  "linear_search 0 t i = None"
| "linear_search (Suc f) t i =
     (if \<not> num_is_nil t i then linear_search f t (i + 1) else Some (sint (i - 1)))"

fun binary_search :: "nat \<Rightarrow> Table \<Rightarrow> u32 \<Rightarrow> u32 \<Rightarrow> int option" where
  "binary_search 0 t i j = None"
| "binary_search (Suc f) t i j =
     (if j - i > 1 then
        let m = (i + j) div 2 in
        if num_is_nil t m then binary_search f t i m else binary_search f t m j
      else Some (sint i))"

fun doubling_search :: "nat \<Rightarrow> Table \<Rightarrow> u32 \<Rightarrow> u32 \<Rightarrow> int option" where
  "doubling_search 0 t i j = None"
| "doubling_search (Suc f) t i j =
     (if \<not> num_is_nil t j then
        let i = j; j = j * 2 in
        if j > word_of_int MAX_INT then linear_search f t 1 else doubling_search f t i j
      else binary_search f t i j)"

definition unbound_search :: "nat \<Rightarrow> Table \<Rightarrow> u32 \<Rightarrow> int option" where
  "unbound_search f t j = doubling_search f t j (j + 1)"

definition luaH_getn :: "nat \<Rightarrow> Table \<Rightarrow> int option" where
  "luaH_getn f t =
     (let j = length (array t) in
      if j > 0 \<and> array t ! (j - 1) = Nil then Some (int (array_boundary (array t) 0 j))
      else if dummy t then Some (int j)
      else unbound_search f t (of_nat j))"

end
