(* ===== verification/Lua_Table_Chains.thy ===== *)
theory Lua_Table_Chains
  imports Lua_Table
begin

text \<open>
  The collision chains of a node vector (\<^verbatim>\<open>src/src/ltable.c\<close>): the next pointers as a relation,
  the invariant that makes a search from a main position find a key, and the three ways \<open>newkey\<close>
  links a node in. \<open>mp\<close> stands for the main position of a key in a vector of that size.
\<close>

section \<open>The next pointers\<close>

definition edges :: "Node list \<Rightarrow> (nat \<times> nat) set" where
  "edges N = {(i, j). i < length N \<and> gnext (N ! i) = Some j}"

definition live :: "tvalue \<Rightarrow> bool" where
  "live k = (case k of Nil \<Rightarrow> False | DeadKey _ \<Rightarrow> False | _ \<Rightarrow> True)"

lemma live_simps [simp]: "\<not> live Nil" "\<not> live (DeadKey a)"
  by (simp_all add: live_def)

lemma live_rawequal: "luaO_rawequalObj k k' \<Longrightarrow> live k \<longleftrightarrow> live k'"
  by (cases k; cases k') (auto simp: luaO_rawequalObj_def live_def)

lemma not_live_cases: "\<not> live k \<longleftrightarrow> k = Nil \<or> (\<exists>a. k = DeadKey a)"
  by (cases k) (auto simp: live_def)

text \<open>A chain is a path: next pointers stay in the vector, do not merge and do not cycle.\<close>

definition linked :: "Node list \<Rightarrow> bool" where
  "linked N \<longleftrightarrow> (\<forall>(i, j) \<in> edges N. j < length N) \<and>
     (\<forall>i i' j. (i, j) \<in> edges N \<longrightarrow> (i', j) \<in> edges N \<longrightarrow> i = i') \<and> acyclic (edges N)"

lemma edges_det: "(i, j) \<in> edges N \<Longrightarrow> (i, j') \<in> edges N \<Longrightarrow> j = j'"
  by (simp add: edges_def)

lemma reach_less: "linked N \<Longrightarrow> (i, j) \<in> (edges N)\<^sup>* \<Longrightarrow> i < length N \<Longrightarrow> j < length N"
  by (erule rtranclE) (auto simp: linked_def)

lemma acyclic_path_length:
  assumes R: "acyclic R" and dom: "\<And>i j. (i, j) \<in> R \<Longrightarrow> j < L" and p: "(i, j) \<in> R ^^ n" and i: "i < L"
  shows "n < L"
proof -
  from p obtain f where f: "f 0 = i" "f n = j" "\<And>k. k < n \<Longrightarrow> (f k, f (Suc k)) \<in> R"
    by (auto simp: relpow_fun_conv)
  have step: "(f a, f b) \<in> R\<^sup>+" if "a < b" "b \<le> n" for a b
    using that
  proof (induction b)
    case (Suc b)
    then show ?case
      using f(3) [of b] by (cases "a = b") (auto intro: trancl_into_trancl)
  qed simp
  have "inj_on f {0..n}"
    unfolding inj_on_def
  proof (intro ballI impI)
    fix a b assume ab: "a \<in> {0..n}" "b \<in> {0..n}" and eq: "f a = f b"
    show "a = b"
    proof (rule ccontr)
      assume "a \<noteq> b"
      then consider "a < b" | "b < a"
        by linarith
      then have "(f a, f a) \<in> R\<^sup>+"
        using step [of a b] step [of b a] ab eq by cases auto
      then show False
        using R by (simp add: acyclic_def)
    qed
  qed
  moreover have "f ` {0..n} \<subseteq> {0..<L}"
  proof
    fix x assume "x \<in> f ` {0..n}"
    then obtain k where k: "k \<le> n" "x = f k"
      by auto
    then show "x \<in> {0..<L}"
      using f(1) i f(3) [of "k - 1"] dom [of "f (k - 1)" "f k"] by (cases k) auto
  qed
  ultimately have "card {0..n} \<le> card {0..<L}"
    by (metis card_image card_mono finite_atLeastLessThan)
  then show ?thesis
    by simp
qed

lemma reach_relpow:
  assumes "linked N" "(i, j) \<in> (edges N)\<^sup>*" "i < length N"
  obtains n where "n < length N" "(i, j) \<in> edges N ^^ n"
proof -
  obtain n where n: "(i, j) \<in> edges N ^^ n"
    using assms(2) rtrancl_imp_relpow by blast
  moreover have "n < length N"
    by (rule acyclic_path_length [OF _ _ n assms(3)]) (use assms(1) in \<open>auto simp: linked_def\<close>)
  ultimately show thesis
    using that by blast
qed

text \<open>Every chain comes to its \<open>NULL\<close> within the size of the vector.\<close>

lemma chain_ends:
  assumes "linked N" "i < length N"
  shows "\<exists>n j. n < length N \<and> (i, j) \<in> edges N ^^ n \<and> j < length N \<and> gnext (N ! j) = None"
proof (rule ccontr)
  assume none: "\<not> ?thesis"
  have "\<exists>j. (i, j) \<in> edges N ^^ n" if "n \<le> length N" for n
    using that
  proof (induction n)
    case (Suc n)
    then obtain j where j: "(i, j) \<in> edges N ^^ n"
      by auto
    then have "(i, j) \<in> (edges N)\<^sup>*"
      by (rule relpow_imp_rtrancl)
    then have "j < length N"
      by (rule reach_less [OF assms(1) _ assms(2)])
    moreover have "gnext (N ! j) \<noteq> None"
      using none j calculation Suc_le_lessD [OF Suc.prems] by meson
    ultimately show ?case
      using j by (auto simp: edges_def)
  qed auto
  then obtain j where j: "(i, j) \<in> edges N ^^ length N"
    by auto
  have "length N < length N"
    by (rule acyclic_path_length [OF _ _ j assms(2)]) (use assms(1) in \<open>auto simp: linked_def\<close>)
  then show False
    by simp
qed

section \<open>Searching a chain\<close>

lemma search_SomeD:
  "search f N P i = Some j \<Longrightarrow> linked N \<Longrightarrow> i < length N \<Longrightarrow>
     (i, j) \<in> (edges N)\<^sup>* \<and> P (N ! j) \<and> j < length N"
proof (induction f arbitrary: i)
  case (Suc f)
  show ?case
  proof (cases "P (N ! i)")
    case False
    with Suc.prems(1) obtain k where k: "gnext (N ! i) = Some k" "search f N P k = Some j"
      by (auto split: option.splits)
    then have e: "(i, k) \<in> edges N"
      using Suc.prems(3) by (simp add: edges_def)
    then have "k < length N"
      using Suc.prems(2) by (auto simp: linked_def)
    then show ?thesis
      using Suc.IH [OF k(2) Suc.prems(2)] e by (auto intro: converse_rtrancl_into_rtrancl)
  qed (use Suc.prems in auto)
qed simp

lemma search_finds:
  "(i, j) \<in> edges N ^^ n \<Longrightarrow> P (N ! j) \<Longrightarrow> n < f \<Longrightarrow> \<exists>j'. search f N P i = Some j'"
proof (induction n arbitrary: i f)
  case 0
  then show ?case
    by (cases f) auto
next
  case (Suc n)
  from Suc.prems(1) obtain k where k: "(i, k) \<in> edges N" "(k, j) \<in> edges N ^^ n"
    by (metis relpow_Suc_D2)
  from Suc.prems(3) obtain g where f: "f = Suc g" "n < g"
    by (cases f) auto
  show ?case
    using Suc.IH [OF k(2) Suc.prems(2) f(2)] k(1) by (auto simp: f edges_def)
qed

lemma search_reach:
  assumes "linked N" "(i, j) \<in> (edges N)\<^sup>*" "i < length N" "P (N ! j)"
  shows "\<exists>j'. search (length N) N P i = Some j'"
  using reach_relpow [OF assms(1-3)] search_finds assms(4) by metis

lemma find_previous_finds:
  "(i, j) \<in> edges N ^^ n \<Longrightarrow> gnext (N ! j) = Some m \<Longrightarrow> n < f \<Longrightarrow>
     \<exists>p. find_previous f N i m = Some p"
proof (induction n arbitrary: i f)
  case 0
  then show ?case
    by (cases f) auto
next
  case (Suc n)
  from Suc.prems(1) obtain k where k: "(i, k) \<in> edges N" "(k, j) \<in> edges N ^^ n"
    by (metis relpow_Suc_D2)
  from Suc.prems(3) obtain g where f: "f = Suc g" "n < g"
    by (cases f) auto
  show ?case
    using Suc.IH [OF k(2) Suc.prems(2) f(2)] k(1) by (auto simp: f edges_def)
qed

lemma find_previous_SomeD:
  "find_previous f N i m = Some p \<Longrightarrow> linked N \<Longrightarrow> i < length N \<Longrightarrow> (p, m) \<in> edges N \<and> (i, p) \<in> (edges N)\<^sup>*"
proof (induction f arbitrary: i)
  case (Suc f)
  show ?case
  proof (cases "gnext (N ! i) = Some m")
    case True
    with Suc.prems show ?thesis
      by (auto simp: edges_def)
  next
    case False
    with Suc.prems(1) obtain k where k: "gnext (N ! i) = Some k" "find_previous f N k m = Some p"
      by (auto split: option.splits)
    then have e: "(i, k) \<in> edges N"
      using Suc.prems(3) by (simp add: edges_def)
    then have "k < length N"
      using Suc.prems(2) by (auto simp: linked_def)
    then show ?thesis
      using Suc.IH [OF k(2) Suc.prems(2)] e by (auto intro: converse_rtrancl_into_rtrancl)
  qed
qed simp

lemma find_previous_reach:
  assumes "linked N" "(i, m) \<in> (edges N)\<^sup>*" "i < length N" "i \<noteq> m"
  obtains p where "find_previous (length N) N i m = Some p" "(p, m) \<in> edges N" "(i, p) \<in> (edges N)\<^sup>*"
proof -
  from assms(2,4) obtain q where q: "(i, q) \<in> (edges N)\<^sup>*" "(q, m) \<in> edges N"
    by (metis rtranclE)
  obtain n where "n < length N" "(i, q) \<in> edges N ^^ n"
    using reach_relpow [OF assms(1) q(1) assms(3)] .
  then obtain p where "find_previous (length N) N i m = Some p"
    using find_previous_finds [of i q n N m "length N"] q(2) by (auto simp: edges_def)
  then show thesis
    using that find_previous_SomeD assms(1,3) by blast
qed

section \<open>The invariant of a node vector\<close>

definition nodes_ok :: "(tvalue \<Rightarrow> nat) \<Rightarrow> Node list \<Rightarrow> bool" where
  "nodes_ok mp N \<longleftrightarrow> linked N \<and>
     (\<forall>i < length N. gkey (N ! i) = Nil \<longrightarrow>
        gval (N ! i) = Nil \<and> gnext (N ! i) = None \<and> (\<forall>j. (j, i) \<notin> edges N)) \<and>
     (\<forall>i < length N. \<not> live (gkey (N ! i)) \<longrightarrow> gval (N ! i) = Nil) \<and>
     (\<forall>i < length N. live (gkey (N ! i)) \<longrightarrow> luaO_rawequalObj (gkey (N ! i)) (gkey (N ! i))) \<and>
     (\<forall>i < length N. live (gkey (N ! i)) \<longrightarrow> mp (gkey (N ! i)) < length N \<and>
        (mp (gkey (N ! i)), i) \<in> (edges N)\<^sup>* \<and> gkey (N ! mp (gkey (N ! i))) \<noteq> Nil \<and>
        (live (gkey (N ! mp (gkey (N ! i)))) \<longrightarrow>
           mp (gkey (N ! mp (gkey (N ! i)))) = mp (gkey (N ! i)))) \<and>
     (\<forall>i < length N. \<forall>j < length N. live (gkey (N ! i)) \<longrightarrow>
        luaO_rawequalObj (gkey (N ! i)) (gkey (N ! j)) \<longrightarrow> i = j)"

lemma nodes_okD:
  assumes "nodes_ok mp N"
  shows "linked N"
    and "i < length N \<Longrightarrow> gkey (N ! i) = Nil \<Longrightarrow> gval (N ! i) = Nil"
    and "i < length N \<Longrightarrow> gkey (N ! i) = Nil \<Longrightarrow> gnext (N ! i) = None"
    and "i < length N \<Longrightarrow> gkey (N ! i) = Nil \<Longrightarrow> (j, i) \<notin> edges N"
    and "i < length N \<Longrightarrow> \<not> live (gkey (N ! i)) \<Longrightarrow> gval (N ! i) = Nil"
    and "i < length N \<Longrightarrow> live (gkey (N ! i)) \<Longrightarrow> luaO_rawequalObj (gkey (N ! i)) (gkey (N ! i))"
    and "i < length N \<Longrightarrow> live (gkey (N ! i)) \<Longrightarrow> mp (gkey (N ! i)) < length N"
    and "i < length N \<Longrightarrow> live (gkey (N ! i)) \<Longrightarrow> (mp (gkey (N ! i)), i) \<in> (edges N)\<^sup>*"
    and "i < length N \<Longrightarrow> live (gkey (N ! i)) \<Longrightarrow> gkey (N ! mp (gkey (N ! i))) \<noteq> Nil"
    and "i < length N \<Longrightarrow> live (gkey (N ! i)) \<Longrightarrow> live (gkey (N ! mp (gkey (N ! i)))) \<Longrightarrow>
      mp (gkey (N ! mp (gkey (N ! i)))) = mp (gkey (N ! i))"
    and "i < length N \<Longrightarrow> k < length N \<Longrightarrow> live (gkey (N ! i)) \<Longrightarrow>
      luaO_rawequalObj (gkey (N ! i)) (gkey (N ! k)) \<Longrightarrow> i = k"
  using assms unfolding nodes_ok_def by blast+

lemma nodes_okI:
  assumes "linked N"
    and "\<And>i j. i < length N \<Longrightarrow> gkey (N ! i) = Nil \<Longrightarrow> gnext (N ! i) = None \<and> (j, i) \<notin> edges N"
    and "\<And>i. i < length N \<Longrightarrow> \<not> live (gkey (N ! i)) \<Longrightarrow> gval (N ! i) = Nil"
    and "\<And>i. i < length N \<Longrightarrow> live (gkey (N ! i)) \<Longrightarrow>
      luaO_rawequalObj (gkey (N ! i)) (gkey (N ! i))"
    and "\<And>i. i < length N \<Longrightarrow> live (gkey (N ! i)) \<Longrightarrow> mp (gkey (N ! i)) < length N \<and>
        (mp (gkey (N ! i)), i) \<in> (edges N)\<^sup>* \<and> gkey (N ! mp (gkey (N ! i))) \<noteq> Nil"
    and "\<And>i. i < length N \<Longrightarrow> live (gkey (N ! i)) \<Longrightarrow> live (gkey (N ! mp (gkey (N ! i)))) \<Longrightarrow>
           mp (gkey (N ! mp (gkey (N ! i)))) = mp (gkey (N ! i))"
    and "\<And>i j. i < length N \<Longrightarrow> j < length N \<Longrightarrow> live (gkey (N ! i)) \<Longrightarrow>
        luaO_rawequalObj (gkey (N ! i)) (gkey (N ! j)) \<Longrightarrow> i = j"
  shows "nodes_ok mp N"
proof -
  have "gval (N ! i) = Nil" if "i < length N" "gkey (N ! i) = Nil" for i
    using assms(3) [of i] that by simp
  then show ?thesis
    unfolding nodes_ok_def
    by (intro conjI allI impI)
      (blast intro: assms(1), blast dest: assms(2), blast dest: assms(2), blast dest: assms(2),
        erule (1) assms(3), erule (1) assms(4), blast dest: assms(5), blast dest: assms(5),
        blast dest: assms(5), erule (2) assms(6), erule (3) assms(7))
qed

text \<open>A search for a key from its main position finds the node that holds it, or there is none.\<close>

lemma search_key:
  assumes ok: "nodes_ok mp N" and k: "live k" and m: "m = mp k" "m < length N"
    and mp: "\<And>k'. luaO_rawequalObj k' k \<Longrightarrow> mp k' = mp k"
  shows "search (length N) N (\<lambda>n. luaO_rawequalObj (gkey n) k) m = Some j \<longleftrightarrow>
    j < length N \<and> luaO_rawequalObj (gkey (N ! j)) k"
proof
  assume "search (length N) N (\<lambda>n. luaO_rawequalObj (gkey n) k) m = Some j"
  from search_SomeD [OF this nodes_okD(1) [OF ok] m(2)]
  show "j < length N \<and> luaO_rawequalObj (gkey (N ! j)) k"
    by simp
next
  assume j: "j < length N \<and> luaO_rawequalObj (gkey (N ! j)) k"
  then have l: "live (gkey (N ! j))"
    using k live_rawequal by blast
  have "(m, j) \<in> (edges N)\<^sup>*"
    using nodes_okD(8) [OF ok _ l] j mp m(1) by simp
  then obtain j' where j': "search (length N) N (\<lambda>n. luaO_rawequalObj (gkey n) k) m = Some j'"
    using search_reach [OF nodes_okD(1) [OF ok] _ m(2), of j "\<lambda>n. luaO_rawequalObj (gkey n) k"] j
    by auto
  have "luaO_rawequalObj (gkey (N ! j')) k" "j' < length N"
    using search_SomeD [OF j' nodes_okD(1) [OF ok] m(2)] by auto
  then have "j = j'"
    using nodes_okD(11) [OF ok _ _ l] j by (metis rawequal_sym rawequal_trans)
  with j' show "search (length N) N (\<lambda>n. luaO_rawequalObj (gkey n) k) m = Some j"
    by simp
qed

section \<open>The contents of a node vector\<close>

definition holds_key :: "Node list \<Rightarrow> nat \<Rightarrow> tvalue \<Rightarrow> bool" where
  "holds_key N j k \<longleftrightarrow> j < length N \<and> luaO_rawequalObj (gkey (N ! j)) k"

definition nlook :: "Node list \<Rightarrow> tvalue \<Rightarrow> tvalue" where
  "nlook N k = (case find (\<lambda>n. luaO_rawequalObj (gkey n) k) N of None \<Rightarrow> Nil | Some n \<Rightarrow> gval n)"

lemma holds_key_unique:
  "nodes_ok mp N \<Longrightarrow> live k \<Longrightarrow> holds_key N i k \<Longrightarrow> holds_key N j k \<Longrightarrow> i = j"
  unfolding holds_key_def
  by (metis live_rawequal nodes_okD(11) rawequal_sym rawequal_trans)

lemma nlook_holds:
  assumes "nodes_ok mp N" "live k" "holds_key N j k"
  shows "nlook N k = gval (N ! j)"
proof -
  obtain n where f: "find (\<lambda>n. luaO_rawequalObj (gkey n) k) N = Some n"
    using assms(3) by (metis find_None_iff holds_key_def not_None_eq nth_mem)
  then obtain i where i: "i < length N" "luaO_rawequalObj (gkey (N ! i)) k" "n = N ! i"
    by (auto simp: find_Some_iff)
  then have "i = j"
    using holds_key_unique [OF assms(1,2) _ assms(3)] by (simp add: holds_key_def)
  then show ?thesis
    using f i by (simp add: nlook_def)
qed

lemma nlook_none: "(\<And>j. \<not> holds_key N j k) \<Longrightarrow> nlook N k = Nil"
  by (auto simp: nlook_def holds_key_def find_Some_iff split: option.split)

text \<open>
  Two vectors have the same contents, but for one key, when the nodes that hold a value
  correspond.
\<close>

lemma nlook_transfer:
  assumes "nodes_ok mp N" "nodes_ok mp N'" "live k"
    and "\<And>j. holds_key N j k \<Longrightarrow> gval (N ! j) \<noteq> Nil \<Longrightarrow>
      \<exists>j'. holds_key N' j' k \<and> gval (N' ! j') = gval (N ! j)"
    and "\<And>j. holds_key N' j k \<Longrightarrow> gval (N' ! j) \<noteq> Nil \<Longrightarrow>
      \<exists>j'. holds_key N j' k \<and> gval (N ! j') = gval (N' ! j)"
  shows "nlook N' k = nlook N k"
proof (cases "nlook N k = Nil")
  case False
  then obtain j where "holds_key N j k"
    using nlook_none by blast
  then show ?thesis
    using assms False nlook_holds by metis
next
  case True
  show ?thesis
  proof (rule ccontr)
    assume n: "nlook N' k \<noteq> nlook N k"
    then obtain j where "holds_key N' j k"
      using nlook_none True by metis
    then show False
      using assms n True nlook_holds by metis
  qed
qed

lemma nlook_write:
  assumes "nodes_ok mp N" "nodes_ok mp (N[i := (N ! i)\<lparr>gval := v\<rparr>])" "live k" "i < length N"
  shows "nlook (N[i := (N ! i)\<lparr>gval := v\<rparr>]) k =
    (if luaO_rawequalObj (gkey (N ! i)) k then v else nlook N k)"
proof -
  let ?N = "N[i := (N ! i)\<lparr>gval := v\<rparr>]"
  have h: "holds_key ?N j k \<longleftrightarrow> holds_key N j k" for j
    using assms(4) by (auto simp: holds_key_def nth_list_update)
  show ?thesis
  proof (cases "luaO_rawequalObj (gkey (N ! i)) k")
    case True
    then have "holds_key ?N i k"
      using h assms(4) by (simp add: holds_key_def)
    then show ?thesis
      using True nlook_holds [OF assms(2,3)] assms(4) by simp
  next
    case False
    then have "\<And>j. holds_key N j k \<Longrightarrow> ?N ! j = N ! j"
      by (auto simp: holds_key_def nth_upd)
    then have "nlook ?N k = nlook N k"
      by (intro nlook_transfer [OF assms(1-3)]) (metis h)+
    then show ?thesis
      using False by simp
  qed
qed

lemma edges_update_val [simp]:
  "edges (N[i := (N ! i)\<lparr>gval := v\<rparr>]) = edges N" "edges (N[i := (N ! i)\<lparr>gkey := k\<rparr>]) = edges N"
  by (auto simp: edges_def nth_upd split: if_splits)

lemma nodes_ok_write:
  assumes "nodes_ok mp N" "i < length N" "live (gkey (N ! i)) \<or> v = Nil"
  shows "nodes_ok mp (N[i := (N ! i)\<lparr>gval := v\<rparr>])"
proof -
  let ?N = "N[i := (N ! i)\<lparr>gval := v\<rparr>]"
  have k: "gkey (?N ! j) = gkey (N ! j)" "gnext (?N ! j) = gnext (N ! j)" for j
    using assms(2) by (cases "j = i"; simp)+
  have v: "gval (?N ! j) = (if j = i then v else gval (N ! j))" for j
    using assms(2) by auto
  show ?thesis
    using assms unfolding nodes_ok_def linked_def edges_update_val k v length_list_update
    by (auto simp: not_live_cases)
qed

section \<open>Linking a node in\<close>

text \<open>The new key takes its main position, whose node holds no value.\<close>

lemma put_key_in_place:
  assumes ok: "nodes_ok mp N" and m: "mp key = m" "m < length N" and v: "gval (N ! m) = Nil"
    and key: "live key" "luaO_rawequalObj key key" and new: "\<And>j. \<not> holds_key N j key"
    and mp: "\<And>k'. luaO_rawequalObj k' key \<Longrightarrow> mp k' = mp key"
  shows "nodes_ok mp (put_key N m key)"
proof -
  define N' where "N' = put_key N m key"
  have k: "gkey (N' ! j) = (if j = m then key else gkey (N ! j))" "gval (N' ! j) = gval (N ! j)"
    "gnext (N' ! j) = gnext (N ! j)" for j
    using m(2) by (simp_all add: put_key_def N'_def nth_upd)
  have e: "edges N' = edges N" "length N' = length N"
    by (simp_all add: put_key_def N'_def)
  have other: "\<not> luaO_rawequalObj key (gkey (N ! j))" "\<not> luaO_rawequalObj (gkey (N ! j)) key"
    if "j < length N" for j
    using that new by (auto simp: holds_key_def rawequal_sym [of key])
  note D = nodes_okD [OF ok]
  have len: "length N' = length N"
    by (simp add: put_key_def N'_def)
  have "nodes_ok mp N'"
  proof (rule nodes_okI)
    show "linked N'"
      using D(1) by (simp add: linked_def e)
  next
    fix i j assume "i < length N'" "gkey (N' ! i) = Nil"
    then show "gnext (N' ! i) = None \<and> (j, i) \<notin> edges N'"
      using D(3,4) [of i] key(1) by (cases "i = m") (auto simp: k e)
  next
    fix i assume "i < length N'" "\<not> live (gkey (N' ! i))"
    then show "gval (N' ! i) = Nil"
      using D(5) [of i] v by (cases "i = m") (auto simp: k e)
  next
    fix i assume "i < length N'" "live (gkey (N' ! i))"
    then show "luaO_rawequalObj (gkey (N' ! i)) (gkey (N' ! i))"
      using D(6) [of i] key by (cases "i = m") (auto simp: k e)
  next
    fix i assume "i < length N'" "live (gkey (N' ! i))"
    then show "mp (gkey (N' ! i)) < length N' \<and> (mp (gkey (N' ! i)), i) \<in> (edges N')\<^sup>* \<and>
        gkey (N' ! mp (gkey (N' ! i))) \<noteq> Nil"
      using D(7,8,9) [of i] key(1) m by (cases "i = m") (auto simp: k e)
  next
    fix i assume "i < length N'" "live (gkey (N' ! i))" "live (gkey (N' ! mp (gkey (N' ! i))))"
    then show "mp (gkey (N' ! mp (gkey (N' ! i)))) = mp (gkey (N' ! i))"
      using D(10) [of i] m by (cases "i = m") (auto simp: k e split: if_splits)
  next
    fix i j assume "i < length N'" "j < length N'" "live (gkey (N' ! i))"
      "luaO_rawequalObj (gkey (N' ! i)) (gkey (N' ! j))"
    then show "i = j"
      using D(11) [of i j] other by (cases "i = m"; cases "j = m") (auto simp: k e)
  qed
  then show ?thesis
    by (simp add: N'_def)
qed

text \<open>
  The other two ways leave every entry where a search finds it. They are described by the nodes they
  produce: \<open>to j\<close> is where the node \<open>j\<close> goes.
\<close>

lemma rtrancl_map: "(i, j) \<in> R\<^sup>* \<Longrightarrow> (\<And>a b. (a, b) \<in> R \<Longrightarrow> (f a, f b) \<in> S\<^sup>*) \<Longrightarrow> (f i, f j) \<in> S\<^sup>*"
  by (induction rule: rtrancl_induct) (auto intro: rtrancl_trans)

lemma trancl_map: "(i, j) \<in> R\<^sup>+ \<Longrightarrow> (\<And>a b. (a, b) \<in> R \<Longrightarrow> (f a, f b) \<in> S) \<Longrightarrow> (f i, f j) \<in> S\<^sup>+"
  by (induction rule: trancl_induct) (auto intro: trancl_into_trancl)

lemma nlook_new_key:
  assumes ok: "nodes_ok mp N" and ok': "nodes_ok mp N'" and k: "live k"
    and new: "\<And>j. \<not> holds_key N j key" and e: "e < length N'" "gkey (N' ! e) = key" "gval (N' ! e) = Nil"
    and fwd: "\<And>j. j < length N \<Longrightarrow> gval (N ! j) \<noteq> Nil \<Longrightarrow>
      \<exists>i < length N'. gkey (N' ! i) = gkey (N ! j) \<and> gval (N' ! i) = gval (N ! j)"
    and bwd: "\<And>i. i < length N' \<Longrightarrow> i \<noteq> e \<Longrightarrow> gval (N' ! i) \<noteq> Nil \<Longrightarrow>
      \<exists>j < length N. gkey (N' ! i) = gkey (N ! j) \<and> gval (N' ! i) = gval (N ! j)"
  shows "nlook N' k = nlook N k"
proof (rule nlook_transfer [OF ok ok' k])
  fix j assume "holds_key N j k" "gval (N ! j) \<noteq> Nil"
  then show "\<exists>j'. holds_key N' j' k \<and> gval (N' ! j') = gval (N ! j)"
    using fwd [of j] by (auto simp: holds_key_def)
next
  fix i assume i: "holds_key N' i k" "gval (N' ! i) \<noteq> Nil"
  then show "\<exists>j'. holds_key N j' k \<and> gval (N ! j') = gval (N' ! i)"
    using bwd [of i] e(3) by (cases "i = e") (auto simp: holds_key_def)
qed

lemma insert_node:
  assumes ok: "nodes_ok mp N" and len: "length N' = length N" and lk: "linked N'"
    and free: "n < length N" "gkey (N ! n) = Nil"
    and to: "\<And>j. j < length N \<Longrightarrow> j \<noteq> n \<Longrightarrow> to j < length N \<and> to j \<noteq> e \<and>
      gkey (N' ! to j) = gkey (N ! j) \<and> gval (N' ! to j) = gval (N ! j)"
    and onto: "\<And>i. i < length N \<Longrightarrow> i \<noteq> e \<Longrightarrow> \<exists>j < length N. j \<noteq> n \<and> to j = i"
    and e: "e < length N" "gkey (N' ! e) = key" "gval (N' ! e) = Nil"
    and iso: "\<And>i j. j < length N \<Longrightarrow> j \<noteq> n \<Longrightarrow> gkey (N ! j) = Nil \<Longrightarrow>
      gnext (N' ! to j) = None \<and> (i, to j) \<notin> edges N'"
    and main: "\<And>j. j < length N \<Longrightarrow> live (gkey (N ! j)) \<Longrightarrow> to (mp (gkey (N ! j))) = mp (gkey (N ! j))"
    and reach: "\<And>i j. (i, j) \<in> (edges N)\<^sup>* \<Longrightarrow> (to i, to j) \<in> (edges N')\<^sup>*"
    and key: "live key" "luaO_rawequalObj key key" "\<And>j. \<not> holds_key N j key"
    and mpk: "mp key < length N" "(mp key, e) \<in> (edges N')\<^sup>*" "gkey (N' ! mp key) \<noteq> Nil"
      "live (gkey (N' ! mp key)) \<Longrightarrow> mp (gkey (N' ! mp key)) = mp key"
  shows "nodes_ok mp N' \<and> (\<forall>k. live k \<longrightarrow> nlook N' k = nlook N k)"
proof -
  note D = nodes_okD [OF ok]
  have other: "\<not> luaO_rawequalObj key (gkey (N ! j))" "\<not> luaO_rawequalObj (gkey (N ! j)) key"
    if "j < length N" for j
    using that key(3) by (auto simp: holds_key_def rawequal_sym [of key])
  have old: "\<exists>j < length N. j \<noteq> n \<and> to j = i \<and> gkey (N' ! i) = gkey (N ! j) \<and> gval (N' ! i) = gval (N ! j)"
    if "i < length N" "i \<noteq> e" for i
    using onto [OF that] to by blast
  have stay: "mp (gkey (N ! j)) < length N \<and> gkey (N' ! mp (gkey (N ! j))) = gkey (N ! mp (gkey (N ! j)))"
    if "j < length N" "live (gkey (N ! j))" for j
    using D(7,9) [OF that] to [of "mp (gkey (N ! j))"] main [OF that] free(2) by metis
  have ok': "nodes_ok mp N'"
  proof (rule nodes_okI [OF lk])
    fix i j assume "i < length N'" "gkey (N' ! i) = Nil"
    then show "gnext (N' ! i) = None \<and> (j, i) \<notin> edges N'"
      using old [of i] iso e(2) key(1) len by (metis live_simps(1))
  next
    fix i assume "i < length N'" "\<not> live (gkey (N' ! i))"
    then show "gval (N' ! i) = Nil"
      using old [of i] e(3) len D(5) by metis
  next
    fix i assume "i < length N'" "live (gkey (N' ! i))"
    then show "luaO_rawequalObj (gkey (N' ! i)) (gkey (N' ! i))"
      using old [of i] e(2) key(2) len D(6) by metis
  next
    fix i assume i: "i < length N'" "live (gkey (N' ! i))"
    show "mp (gkey (N' ! i)) < length N' \<and> (mp (gkey (N' ! i)), i) \<in> (edges N')\<^sup>* \<and>
        gkey (N' ! mp (gkey (N' ! i))) \<noteq> Nil"
    proof (cases "i = e")
      case False
      then obtain j where j: "j < length N" "to j = i" "gkey (N' ! i) = gkey (N ! j)"
        using old i len by metis
      then show ?thesis
        using stay [of j] D(9) [of j] reach [OF D(8) [of j]] main [of j] i len by auto
    qed (use mpk e len in auto)
  next
    fix i assume i: "i < length N'" "live (gkey (N' ! i))" "live (gkey (N' ! mp (gkey (N' ! i))))"
    show "mp (gkey (N' ! mp (gkey (N' ! i)))) = mp (gkey (N' ! i))"
    proof (cases "i = e")
      case False
      then obtain j where j: "j < length N" "to j = i" "gkey (N' ! i) = gkey (N ! j)"
        using old i len by metis
      then show ?thesis
        using stay [of j] D(10) [of j] i by simp
    qed (use mpk e i in simp)
  next
    fix i j assume "i < length N'" "j < length N'" "live (gkey (N' ! i))"
      "luaO_rawequalObj (gkey (N' ! i)) (gkey (N' ! j))"
    then show "i = j"
      using old [of i] old [of j] other e(2) len D(11) by metis
  qed
  have "nlook N' k = nlook N k" if "live k" for k
  proof (rule nlook_new_key [OF ok ok' that key(3)])
    show "e < length N'" "gkey (N' ! e) = key" "gval (N' ! e) = Nil"
      using e len by auto
    fix j assume "j < length N" "gval (N ! j) \<noteq> Nil"
    then show "\<exists>i < length N'. gkey (N' ! i) = gkey (N ! j) \<and> gval (N' ! i) = gval (N ! j)"
      using to [of j] D(2) free len by metis
  next
    fix i assume "i < length N'" "i \<noteq> e"
    then show "\<exists>j < length N. gkey (N' ! i) = gkey (N ! j) \<and> gval (N' ! i) = gval (N ! j)"
      using old [of i] len by auto
  qed
  then show ?thesis
    using ok' by blast
qed

text \<open>A colliding node in its own main position: the new key goes to the free node behind it.\<close>

lemma edges_chain_free:
  assumes "m < length N" "n < length N" "m \<noteq> n" "gnext (N ! n) = None"
  shows "edges (put_key (chain_free N m n) n key) =
    {(i, j) \<in> edges N. i \<noteq> m} \<union> {(m, n)} \<union> {(n, j) |j. (m, j) \<in> edges N}"
  using assms by (auto simp: edges_def chain_free_def put_key_def nth_upd Let_def split: if_splits)

lemma linked_chain_free:
  assumes lk: "linked N" and E: "E = {(i, j) \<in> edges N. i \<noteq> m} \<union> {(m, n)} \<union> {(n, j) |j. (m, j) \<in> edges N}"
    and m: "m < length N" "m \<noteq> n" and n: "n < length N" "\<And>i. (i, n) \<notin> edges N" "\<And>i. (n, i) \<notin> edges N"
    and N': "edges N' = E" "length N' = length N"
  shows "linked N'" and "(i, j) \<in> (edges N)\<^sup>* \<Longrightarrow> (i, j) \<in> (edges N')\<^sup>*"
proof -
  have r: "\<And>i j. (i, j) \<in> edges N \<Longrightarrow> j < length N"
    and inj: "\<And>i i' j. (i, j) \<in> edges N \<Longrightarrow> (i', j) \<in> edges N \<Longrightarrow> i = i'"
    and ac: "acyclic (edges N)"
    using lk by (auto simp: linked_def)
  let ?f = "\<lambda>x. if x = n then m else x"
  have path: "(?f i, ?f j) \<in> (edges N)\<^sup>+ \<or> i = m \<and> j = n" if "(i, j) \<in> E\<^sup>+" for i j
    using that
  proof (induction rule: trancl_induct)
    case (base j)
    then show ?case
      using n m by (auto simp: E)
  next
    case (step j k)
    from step.hyps(2) consider "(j, k) \<in> edges N" "j \<noteq> m" | "j = m" "k = n" | "j = n" "(m, k) \<in> edges N"
      by (auto simp: E)
    then show ?case
    proof cases
      case 1
      then have "j \<noteq> n" "k \<noteq> n"
        using n by auto
      then show ?thesis
        using step.IH 1 by (auto intro: trancl_into_trancl)
    next
      case 2
      then show ?thesis
        using step.IH m by auto
    next
      case 3
      then have "k \<noteq> n"
        using n by auto
      then show ?thesis
        using step.IH 3 m by (auto intro: trancl_into_trancl)
    qed
  qed
  have "acyclic E"
    unfolding acyclic_def
  proof (intro allI notI)
    fix x assume "(x, x) \<in> E\<^sup>+"
    then show False
      using path [of x x] ac m by (auto simp: acyclic_def)
  qed
  moreover have "i = i'" if "(i, j) \<in> E" "(i', j) \<in> E" for i i' j
    using that n inj by (auto simp: E)
  moreover have "j < length N" if "(i, j) \<in> E" for i j
    using that r n(1) by (auto simp: E)
  ultimately show "linked N'"
    unfolding linked_def N' by blast
  show "(i, j) \<in> (edges N)\<^sup>* \<Longrightarrow> (i, j) \<in> (edges N')\<^sup>*"
  proof (erule rtrancl_map [where f = "\<lambda>x. x"])
    fix a b assume ab: "(a, b) \<in> edges N"
    show "(a, b) \<in> (edges N')\<^sup>*"
    proof (cases "a = m")
      case True
      then have "(m, n) \<in> edges N'" "(n, b) \<in> edges N'"
        using ab by (auto simp: N' E)
      then show ?thesis
        using True by (meson converse_rtrancl_into_rtrancl r_into_rtrancl)
    qed (use ab in \<open>auto simp: N' E\<close>)
  qed
qed

lemma insert_behind:
  assumes ok: "nodes_ok mp N" and m: "mp key = m" "m < length N" "live (gkey (N ! m))" "mp (gkey (N ! m)) = m"
    and n: "n < length N" "gkey (N ! n) = Nil"
    and key: "live key" "luaO_rawequalObj key key" "\<And>j. \<not> holds_key N j key"
  defines "N' \<equiv> put_key (chain_free N m n) n key"
  shows "nodes_ok mp N' \<and> (\<forall>k. live k \<longrightarrow> nlook N' k = nlook N k)"
proof -
  note D = nodes_okD [OF ok]
  have mn: "m \<noteq> n"
    using m(3) n(2) by auto
  have iso: "gnext (N ! n) = None" "\<And>i. (i, n) \<notin> edges N" "\<And>i. (n, i) \<notin> edges N"
    using D(3,4) [OF n] by (auto simp: edges_def)
  have len: "length N' = length N"
    by (simp add: N'_def put_key_def chain_free_def Let_def)
  have nth: "N' ! j = (if j = n then (N ! n)\<lparr>gnext := gnext (N ! m), gkey := key\<rparr>
      else if j = m then (N ! m)\<lparr>gnext := Some n\<rparr> else N ! j)" for j
    using m(2) n(1) mn by (simp add: N'_def put_key_def chain_free_def Let_def nth_upd)
  note E = edges_chain_free [OF m(2) n(1) mn iso(1), of key, folded N'_def]
  note L = linked_chain_free [OF D(1) refl m(2) mn n(1) iso(2,3) E len]
  show ?thesis
  proof (rule insert_node [OF ok len L(1) n, where to = "\<lambda>j. j" and e = n and key = key])
    fix i j assume j: "j < length N" "j \<noteq> n" "gkey (N ! j) = Nil"
    then have "j \<noteq> m"
      using m(3) by auto
    then show "gnext (N' ! j) = None \<and> (i, j) \<notin> edges N'"
      using j D(3,4) [of j] mn by (auto simp: nth E)
  next
    show "(mp key, n) \<in> (edges N')\<^sup>*"
      using m(1) by (auto simp: E)
    show "gkey (N' ! mp key) \<noteq> Nil" "live (gkey (N' ! mp key)) \<Longrightarrow> mp (gkey (N' ! mp key)) = mp key"
      using m mn by (auto simp: nth)
  qed (use D(2) [OF n] n m key L(2) in \<open>auto simp: nth\<close>)
qed

text \<open>
  A colliding node away from its main position: it moves to the free node and the new key takes
  its place. Nodes \<open>m\<close> and \<open>n\<close> are exchanged.
\<close>

definition swap :: "nat \<Rightarrow> nat \<Rightarrow> nat \<Rightarrow> nat" where
  "swap m n j = (if j = m then n else if j = n then m else j)"

lemma swap_swap [simp]: "swap m n (swap m n j) = j"
  by (simp add: swap_def)

lemma insert_moving:
  assumes ok: "nodes_ok mp N" and m: "mp key = m" "m < length N" "live (gkey (N ! m))" "mp (gkey (N ! m)) \<noteq> m"
    and n: "n < length N" "gkey (N ! n) = Nil" and p: "(p, m) \<in> edges N"
    and key: "live key" "luaO_rawequalObj key key" "\<And>j. \<not> holds_key N j key"
  defines "N' \<equiv> put_key (move_colliding N p m n) m key"
  shows "nodes_ok mp N' \<and> (\<forall>k. live k \<longrightarrow> nlook N' k = nlook N k)"
proof -
  note D = nodes_okD [OF ok]
  have mn: "m \<noteq> n"
    using m(3) n(2) by auto
  have iso: "gnext (N ! n) = None" "\<And>i. (i, n) \<notin> edges N" "\<And>i. (n, i) \<notin> edges N"
    using D(3,4) [OF n] by (auto simp: edges_def)
  have inj: "\<And>i i' j. (i, j) \<in> edges N \<Longrightarrow> (i', j) \<in> edges N \<Longrightarrow> i = i'"
    and ac: "acyclic (edges N)" and r: "\<And>i j. (i, j) \<in> edges N \<Longrightarrow> j < length N"
    using D(1) by (auto simp: linked_def)
  have noloop: "(i, i) \<notin> edges N" for i
    using ac by (auto simp: acyclic_def)
  have pm: "p \<noteq> m" "p \<noteq> n" "p < length N" "gnext (N ! p) = Some m"
    using p noloop iso by (auto simp: edges_def)
  have len: "length N' = length N"
    by (simp add: N'_def put_key_def move_colliding_def Let_def)
  have nth: "N' ! j = (if j = m then (N ! m)\<lparr>gnext := None, gval := Nil, gkey := key\<rparr>
      else if j = n then N ! m else if j = p then (N ! p)\<lparr>gnext := Some n\<rparr> else N ! j)" for j
    using m(2) n(1) mn pm
    by (auto simp: N'_def put_key_def move_colliding_def Let_def nth_upd)
  have E: "(i, j) \<in> edges N' \<longleftrightarrow> (swap m n i, swap m n j) \<in> edges N" for i j
  proof -
    have no_m: "(i, m) \<in> edges N \<longleftrightarrow> i = p" for i
      using inj [OF _ p, of i] p by blast
    have sw: "(i, swap m n j) \<in> edges N \<longleftrightarrow> (i, j) \<in> edges N" if "i \<noteq> p" for i j
      using no_m [of i] iso(2) [of i] that by (auto simp: swap_def)
    have e: "(i, j) \<in> edges N' \<longleftrightarrow> i < length N \<and> gnext (N' ! i) = Some j" for i j
      by (simp add: edges_def len)
    consider "i = m" | "i = n" | "i = p" | "i \<noteq> m" "i \<noteq> n" "i \<noteq> p"
      by blast
    then show ?thesis
    proof cases
      case 1
      then show ?thesis
        using iso(3) by (simp add: e nth swap_def [of m n m])
    next
      case 2
      then show ?thesis
        using sw [of m j] pm(1) n(1) m(2) mn by (simp add: e nth len swap_def [of m n n] edges_def)
    next
      case 3
      have "(p, swap m n j) \<in> edges N \<longleftrightarrow> swap m n j = m"
        using p by (auto dest: edges_det)
      also have "\<dots> \<longleftrightarrow> j = n"
        using mn by (auto simp: swap_def)
      finally show ?thesis
        using 3 pm by (auto simp: e nth swap_def [of m n p])
    next
      case 4
      then show ?thesis
        using sw [of i j] by (simp add: e nth len swap_def [of m n i] edges_def)
    qed
  qed
  have lk: "linked N'"
    unfolding linked_def len
  proof (intro conjI allI impI ballI)
    fix e assume "e \<in> edges N'"
    then show "case e of (i, j) \<Rightarrow> j < length N"
      using r m(2) n(1) by (cases e) (auto simp: E swap_def split: if_splits)
  next
    fix i i' j assume "(i, j) \<in> edges N'" "(i', j) \<in> edges N'"
    then show "i = i'"
      using inj by (metis E swap_swap)
  next
    show "acyclic (edges N')"
      unfolding acyclic_def
    proof (intro allI notI)
      fix x assume "(x, x) \<in> (edges N')\<^sup>+"
      then have "(swap m n x, swap m n x) \<in> (edges N)\<^sup>+"
        by (rule trancl_map) (simp add: E)
      then show False
        using ac by (simp add: acyclic_def)
    qed
  qed
  have mnot: "mp (gkey (N ! j)) \<noteq> m \<and> mp (gkey (N ! j)) \<noteq> n" if "j < length N" "live (gkey (N ! j))" for j
    using D(9,10) [OF that] m n(2) by metis
  show ?thesis
  proof (rule insert_node [OF ok len lk n, where to = "swap m n" and e = m and key = key])
    fix j assume "j < length N" "j \<noteq> n"
    then show "swap m n j < length N \<and> swap m n j \<noteq> m \<and> gkey (N' ! swap m n j) = gkey (N ! j) \<and>
        gval (N' ! swap m n j) = gval (N ! j)"
      using n(1) mn by (auto simp: swap_def nth)
  next
    fix i assume "i < length N" "i \<noteq> m"
    then show "\<exists>j < length N. j \<noteq> n \<and> swap m n j = i"
      using m(2) mn by (intro exI [of _ "swap m n i"]) (auto simp: swap_def)
  next
    fix i j assume j: "j < length N" "j \<noteq> n" "gkey (N ! j) = Nil"
    then have "j \<noteq> m"
      using m(3) by auto
    moreover have "j \<noteq> p"
      using D(3) [of j] j pm by auto
    ultimately show "gnext (N' ! swap m n j) = None \<and> (i, swap m n j) \<notin> edges N'"
      using j D(3,4) [of j] by (auto simp: nth E swap_def)
  next
    fix i j assume "(i, j) \<in> (edges N)\<^sup>*"
    then show "(swap m n i, swap m n j) \<in> (edges N')\<^sup>*"
      by (rule rtrancl_map) (auto simp: E)
  qed (use m key mnot in \<open>auto simp: nth swap_def\<close>)
qed

lemma insert_in_place:
  assumes ok: "nodes_ok mp N" and m: "mp key = m" "m < length N" and v: "gval (N ! m) = Nil"
    and key: "live key" "luaO_rawequalObj key key" "\<And>j. \<not> holds_key N j key"
    and mp: "\<And>k'. luaO_rawequalObj k' key \<Longrightarrow> mp k' = mp key"
  shows "nodes_ok mp (put_key N m key) \<and> (\<forall>k. live k \<longrightarrow> nlook (put_key N m key) k = nlook N k)"
proof -
  have ok': "nodes_ok mp (put_key N m key)"
    by (rule put_key_in_place [OF ok m v key mp])
  have nth: "put_key N m key ! j = (if j = m then (N ! m)\<lparr>gkey := key\<rparr> else N ! j)" for j
    using m(2) by (simp add: put_key_def nth_upd)
  have len: "length (put_key N m key) = length N"
    by (simp add: put_key_def)
  have "nlook (put_key N m key) k = nlook N k" if "live k" for k
  proof (rule nlook_new_key [OF ok ok' that key(3), where e = m])
    fix j assume "j < length N" "gval (N ! j) \<noteq> Nil"
    then show "\<exists>i < length (put_key N m key). gkey (put_key N m key ! i) = gkey (N ! j) \<and>
        gval (put_key N m key ! i) = gval (N ! j)"
      using v by (intro exI [of _ j]) (auto simp: nth len)
  qed (use m v in \<open>auto simp: nth len\<close>)
  then show ?thesis
    using ok' by blast
qed

end
