(* ===== verification/Lua_Table_Ops.thy ===== *)
theory Lua_Table_Ops
  imports Lua_Table_Chains
begin

text \<open>
  Correctness of the operations of \<^verbatim>\<open>src/src/ltable.c\<close>: the invariant of a table, its contents
  as a function of the key, and what searching and inserting do to them.
\<close>

section \<open>Main positions\<close>

lemma sizenode_pow: "sizenode t = 2 ^ lsizenode t"
  by (simp add: sizenode_def twoto_def push_bit_eq_mult)

lemma sizenode_pos: "0 < sizenode t"
  by (simp add: sizenode_pow)

lemma hashmod_less: "hashmod t n < sizenode t"
proof (cases "lsizenode t")
  case 0
  then show ?thesis
    by (simp add: hashmod_def sizenode_pow)
next
  case (Suc l)
  have "mask (Suc l) OR (1 :: nat) = mask (Suc l)"
    by (rule bit_eqI) (auto simp: bit_simps)
  then have "((2 :: nat) ^ Suc l - 1) OR 1 = mask (Suc l)"
    unfolding mask_eq_exp_minus_1 .
  then have "hashmod t n = unat n mod (2 ^ Suc l - 1)"
    by (simp add: hashmod_def sizenode_pow Suc mask_eq_exp_minus_1)
  also have "\<dots> < 2 ^ Suc l - 1"
    using one_less_power [of "2 :: nat" "Suc l"] by (intro mod_less_divisor) (simp del: power_Suc)
  finally show ?thesis
    by (simp add: sizenode_pow Suc)
qed

lemma hashpow2_less: "lsizenode t \<le> 31 \<Longrightarrow> hashpow2 t n < sizenode t"
proof -
  assume l: "lsizenode t \<le> 31"
  have "(of_nat (2 ^ lsizenode t - 1) :: u32) = mask (lsizenode t)"
    by (simp add: mask_eq_exp_minus_1)
  then have "hashpow2 t n = unat n mod 2 ^ lsizenode t"
    by (simp only: hashpow2_def sizenode_pow unat_and_mask)
  then show ?thesis
    by (simp add: sizenode_pow)
qed

lemma mainposition_less: "lsizenode t \<le> 31 \<Longrightarrow> mainposition hs t key < sizenode t"
  by (cases key) (auto simp: mainposition_def hashnum_def Let_def hashmod_less hashpow2_less sizenode_pos)

lemma mainposition_rawequal:
  "luaO_rawequalObj k k' \<Longrightarrow> mainposition hs t k = mainposition hs t k'"
proof -
  have "hashnum t a = hashnum t b" if "luai_numeq a b" for a b
  proof (cases "a = b")
    case False
    then have "luai_numeq a 0" "luai_numeq b 0"
      using that luai_numeq_iff [of a b] num_mag_0 by (auto simp: luai_numeq_iff)
    then show ?thesis
      by (simp add: hashnum_def)
  qed simp
  then show "luaO_rawequalObj k k' \<Longrightarrow> ?thesis"
    by (auto simp: rawequal_cases mainposition_def)
qed

lemma mainposition_cong: "lsizenode t = lsizenode t' \<Longrightarrow> mainposition hs t = mainposition hs t'"
  by (rule ext)
    (simp add: mainposition_def hashnum_def hashmod_def hashpow2_def sizenode_def Let_def split: tvalue.split)

section \<open>Integer keys\<close>

lemma arrayindex_range: "INT_MIN \<le> arrayindex k \<and> arrayindex k \<le> INT_MAX"
  using lua_number2int_range by (auto simp: arrayindex_def INT_MIN_def Let_def split: tvalue.split)

lemma arrayindex_cast_num: "INT_MIN \<le> k \<Longrightarrow> k \<le> INT_MAX \<Longrightarrow> arrayindex (Number (cast_num k)) = k"
  using cast_num_not_nan [of k] by (simp add: arrayindex_def lua_number2int_cast_num luai_numeq_iff)

lemma arrayindex_rawequal: "luaO_rawequalObj k k' \<Longrightarrow> arrayindex k = arrayindex k'"
proof -
  have "luai_numeq c a = luai_numeq c b" if "luai_numeq a b" for a b c
    using that luai_numeq_trans luai_numeq_sym by blast
  then show "luaO_rawequalObj k k' \<Longrightarrow> ?thesis"
    using luai_numeq_same_int by (auto simp: rawequal_cases arrayindex_def Let_def)
qed

lemma arrayindex_pos_iff:
  assumes "0 < i" "i \<le> INT_MAX"
  shows "arrayindex k = i \<longleftrightarrow> luaO_rawequalObj k (Number (cast_num i))"
proof
  assume "arrayindex k = i"
  then show "luaO_rawequalObj k (Number (cast_num i))"
    using assms(1)
    by (auto simp: arrayindex_def luaO_rawequalObj_def Let_def luai_numeq_sym split: tvalue.splits if_splits)
next
  assume "luaO_rawequalObj k (Number (cast_num i))"
  then show "arrayindex k = i"
    using arrayindex_rawequal arrayindex_cast_num [of i] assms by (force simp: INT_MIN_def)
qed

section \<open>Well-formed tables\<close>

text \<open>The number of free places, and whether a key belongs to the array part.\<close>

definition free_nodes :: "Table \<Rightarrow> nat" where
  "free_nodes t = (if dummy t then 0 else length (filter (\<lambda>n. gkey n = Nil) (node t)))"

definition in_array :: "Table \<Rightarrow> tvalue \<Rightarrow> bool" where
  "in_array t k \<longleftrightarrow> 0 < arrayindex k \<and> arrayindex k \<le> sizearray t"

text \<open>
  The invariant: the vector has the size its logarithm says and well-formed chains; every position
  from \<open>lastfree\<close> on is taken; a key of the array part is not in the vector.
\<close>

definition table_ok :: "(addr \<Rightarrow> u32) \<Rightarrow> Table \<Rightarrow> bool" where
  "table_ok hs t \<longleftrightarrow> lsizenode t \<le> MAXBITS \<and> length (node t) = sizenode t \<and>
     nodes_ok (mainposition hs t) (node t) \<and>
     (dummy t \<longrightarrow> node t = [dummynode] \<and> lastfree t \<le> 0) \<and>
     lastfree t \<le> int (sizenode t) \<and>
     (\<not> dummy t \<longrightarrow> (\<forall>i < sizenode t. lastfree t \<le> int i \<longrightarrow> gkey (node t ! i) \<noteq> Nil)) \<and>
     sizearray t \<le> MAXASIZE \<and>
     (\<forall>i < sizenode t. live (gkey (node t ! i)) \<longrightarrow> \<not> in_array t (gkey (node t ! i)))"

text \<open>The value a table holds for a key that is neither nil nor a dead key.\<close>

definition tlook :: "Table \<Rightarrow> tvalue \<Rightarrow> tvalue" where
  "tlook t k = (if in_array t k then array t ! nat (arrayindex k - 1) else nlook (node t) k)"

lemma table_okD:
  assumes "table_ok hs t"
  shows "lsizenode t \<le> 26" "length (node t) = sizenode t" "nodes_ok (mainposition hs t) (node t)"
    "dummy t \<Longrightarrow> node t = [dummynode]" "dummy t \<Longrightarrow> lastfree t \<le> 0" "lastfree t \<le> int (sizenode t)"
    "\<not> dummy t \<Longrightarrow> i < sizenode t \<Longrightarrow> lastfree t \<le> int i \<Longrightarrow> gkey (node t ! i) \<noteq> Nil"
    "sizearray t \<le> MAXASIZE"
    "i < sizenode t \<Longrightarrow> live (gkey (node t ! i)) \<Longrightarrow> \<not> in_array t (gkey (node t ! i))"
    "mainposition hs t k < sizenode t"
  using assms mainposition_less [of t] by (auto simp: table_ok_def)

lemma in_array_rawequal: "luaO_rawequalObj k k' \<Longrightarrow> in_array t k \<longleftrightarrow> in_array t k'"
  using arrayindex_rawequal by (simp add: in_array_def)

lemma nlook_rawequal: "luaO_rawequalObj k k' \<Longrightarrow> nlook N k = nlook N k'"
proof -
  assume "luaO_rawequalObj k k'"
  then have "(\<lambda>n. luaO_rawequalObj (gkey n) k) = (\<lambda>n. luaO_rawequalObj (gkey n) k')"
    by (metis rawequal_sym rawequal_trans)
  then show ?thesis
    unfolding nlook_def by (rule arg_cong)
qed

lemma holds_key_rawequal: "luaO_rawequalObj k k' \<Longrightarrow> holds_key N j k \<longleftrightarrow> holds_key N j k'"
  unfolding holds_key_def using rawequal_sym rawequal_trans by blast

lemma tlook_rawequal: "luaO_rawequalObj k k' \<Longrightarrow> tlook t k = tlook t k'"
  using in_array_rawequal nlook_rawequal arrayindex_rawequal by (simp add: tlook_def)

lemma not_holds_nan: "\<not> luaO_rawequalObj k k \<Longrightarrow> \<not> holds_key N j k"
  by (metis holds_key_def rawequal_sym rawequal_trans)

text \<open>Where a value lives.\<close>

definition slot_for :: "Table \<Rightarrow> tvalue \<Rightarrow> slot \<Rightarrow> bool" where
  "slot_for t k s = (case s of
      ArrSlot i \<Rightarrow> in_array t k \<and> i = nat (arrayindex k - 1)
    | NodeSlot j \<Rightarrow> \<not> in_array t k \<and> holds_key (node t) j k
    | NilObj \<Rightarrow> \<not> in_array t k \<and> (\<forall>j. \<not> holds_key (node t) j k))"

lemma slot_for_read:
  assumes "table_ok hs t" "live k" "slot_for t k s"
  shows "read_slot t s = tlook t k"
  using assms(3) nlook_holds [OF table_okD(3) [OF assms(1)] assms(2)] nlook_none
  by (cases s) (auto simp: slot_for_def tlook_def)

lemma slot_for_unique:
  assumes "table_ok hs t" "live k" "slot_for t k s" "slot_for t k s'"
  shows "s = s'"
  using assms(3,4) holds_key_unique [OF table_okD(3) [OF assms(1)] assms(2)]
  by (cases s; cases s') (auto simp: slot_for_def)

lemma search_slot:
  assumes ok: "table_ok hs t" and k: "live k" "\<not> in_array t k"
    and P: "\<And>n. P n = luaO_rawequalObj (gkey n) k" and m: "m = mainposition hs t k"
  shows "slot_for t k (slot_of (search (length (node t)) (node t) P m))"
proof -
  have "P = (\<lambda>n. luaO_rawequalObj (gkey n) k)"
    using P by auto
  then have "search (length (node t)) (node t) P m = Some j \<longleftrightarrow> holds_key (node t) j k" for j
    unfolding holds_key_def
    using search_key [OF table_okD(3) [OF ok] k(1) m] table_okD(2,10) [OF ok] m mainposition_rawequal
    by (metis (no_types, lifting))
  then show ?thesis
    using k(2)
    by (cases "search (length (node t)) (node t) P m") (auto simp: slot_for_def slot_of_def)
qed

lemma getnum_slot:
  assumes ok: "table_ok hs t" and k: "INT_MIN \<le> k" "k \<le> INT_MAX"
  shows "slot_for t (Number (cast_num k)) (luaH_getnum t k)"
proof -
  let ?s = "sizearray t"
  have s: "0 \<le> ?s" "?s \<le> 2 ^ 26"
    using table_okD(8) [OF ok] by (auto simp: sizearray_def)
  have ai: "arrayindex (Number (cast_num k)) = k"
    by (rule arrayindex_cast_num [OF k])
  have "uint (word_of_int (k - 1) :: u32) = (k - 1) mod 2 ^ 32" "uint (word_of_int ?s :: u32) = ?s"
    using s by (simp_all add: uint_word_of_int del: of_int_diff)
  moreover have "(k - 1) mod 2 ^ 32 < ?s \<longleftrightarrow> 0 < k \<and> k \<le> ?s"
  proof (cases "0 < k")
    case True
    then show ?thesis
      using k by (auto simp: INT_MIN_def)
  next
    case False
    then have "(k - 1 + 2 ^ 32) mod 2 ^ 32 = k - 1 + 2 ^ 32"
      using k by (intro mod_pos_pos_trivial) (auto simp: INT_MIN_def)
    then have "(k - 1) mod 2 ^ 32 = k - 1 + 2 ^ 32"
      by (simp only: mod_add_self2)
    then show ?thesis
      using False k s by (simp add: INT_MIN_def)
  qed
  ultimately have cond: "(word_of_int (k - 1) :: u32) < word_of_int ?s \<longleftrightarrow> in_array t (Number (cast_num k))"
    by (simp add: in_array_def ai word_less_def)
  show ?thesis
  proof (cases "in_array t (Number (cast_num k))")
    case True
    then show ?thesis
      using cond ai by (simp add: luaH_getnum_def slot_for_def)
  next
    case False
    have "slot_for t (Number (cast_num k)) (slot_of (search (length (node t)) (node t)
        (\<lambda>n. case gkey n of Number m \<Rightarrow> luai_numeq m (cast_num k) | _ \<Rightarrow> False) (hashnum t (cast_num k))))"
      by (rule search_slot [OF ok _ False])
        (auto simp: live_def luaO_rawequalObj_def mainposition_def split: tvalue.split)
    then show ?thesis
      using False cond by (simp add: luaH_getnum_def Let_def)
  qed
qed

lemma get_slot:
  assumes ok: "table_ok hs t" and k: "live k"
  shows "slot_for t k (luaH_get hs t k)"
proof -
  have gen: "slot_for t k (get_generic hs t k)" if "\<not> in_array t k"
    unfolding get_generic_def by (rule search_slot [OF ok k that]) auto
  show ?thesis
  proof (cases "\<exists>n. k = Number n \<and> luai_numeq (cast_num (lua_number2int n)) n")
    case True
    then obtain n where n: "k = Number n" "luai_numeq (cast_num (lua_number2int n)) n"
      by auto
    let ?k = "lua_number2int n"
    have r: "luaO_rawequalObj (Number (cast_num ?k)) k"
      using n by (simp add: luaO_rawequalObj_def)
    have "slot_for t (Number (cast_num ?k)) (luaH_getnum t ?k)"
      by (rule getnum_slot [OF ok lua_number2int_range])
    moreover have "holds_key N j (Number (cast_num ?k)) = holds_key N j k" for N j
      by (rule holds_key_rawequal [OF r])
    ultimately show ?thesis
      using n in_array_rawequal [OF r] arrayindex_rawequal [OF r]
      by (cases "luaH_getnum t ?k") (simp_all add: luaH_get_def slot_for_def)
  next
    case False
    then have na: "\<not> in_array t k"
      by (auto simp: in_array_def arrayindex_def Let_def split: tvalue.splits)
    have str: "slot_for t k (luaH_getstr hs t s)" if "k = Str s" for s
      unfolding luaH_getstr_def using that
      by (intro search_slot [OF ok k na])
        (auto simp: luaO_rawequalObj_def mainposition_def split: tvalue.split)
    show ?thesis
    proof (cases k)
      case (Number n)
      then have "\<not> luai_numeq (cast_num (lua_number2int n)) n"
        using False by simp
      then show ?thesis
        using gen [OF na] Number by (simp add: luaH_get_def Let_def)
    qed (use gen [OF na] str k in \<open>simp_all add: luaH_get_def\<close>)
  qed
qed

section \<open>Insertion\<close>

lemma getfreepos_spec:
  "getfreepos t = (t', r) \<Longrightarrow>
     (\<exists>lf. t' = t\<lparr>lastfree := lf\<rparr> \<and> lf \<le> lastfree t \<and>
        (case r of Some n \<Rightarrow> lf = int n \<and> int n < lastfree t \<and> gkey (node t ! n) = Nil
         | None \<Rightarrow> lf < 0) \<and>
        (\<forall>i. lf < int i \<and> int i < lastfree t \<longrightarrow> gkey (node t ! i) \<noteq> Nil))"
proof (induction t arbitrary: t' r rule: getfreepos.induct)
  case (1 t)
  let ?lf = "lastfree t - 1" and ?t = "t\<lparr>lastfree := lastfree t - 1\<rparr>"
  consider "lastfree t \<le> 0" | "0 < lastfree t" "gkey (node t ! nat ?lf) = Nil"
    | "0 < lastfree t" "gkey (node t ! nat ?lf) \<noteq> Nil"
    by linarith
  then show ?case
  proof cases
    case 1
    with "1.prems" show ?thesis
      by (auto simp: getfreepos.simps [of t] Let_def intro!: exI [of _ ?lf])
  next
    case 2
    with "1.prems" show ?thesis
      by (auto simp: getfreepos.simps [of t] Let_def intro!: exI [of _ ?lf])
  next
    case 3
    then have "getfreepos ?t = (t', r)"
      using "1.prems" by (simp add: getfreepos.simps [of t] Let_def)
    note ih = "1.IH" [OF refl refl 3(1,2) this]
    obtain lf where "t' = ?t\<lparr>lastfree := lf\<rparr> \<and> lf \<le> lastfree ?t \<and>
      (case r of Some n \<Rightarrow> lf = int n \<and> int n < lastfree ?t \<and> gkey (node ?t ! n) = Nil | None \<Rightarrow> lf < 0) \<and>
      (\<forall>i. lf < int i \<and> int i < lastfree ?t \<longrightarrow> gkey (node ?t ! i) \<noteq> Nil)"
      by (rule exE [OF ih])
    note lf = this [THEN conjunct1] this [THEN conjunct2, THEN conjunct1]
      this [THEN conjunct2, THEN conjunct2, THEN conjunct1]
      this [THEN conjunct2, THEN conjunct2, THEN conjunct2]
    have "gkey (node t ! i) \<noteq> Nil" if "lf < int i" "int i < lastfree t" for i
    proof (cases "int i = ?lf")
      case True
      then have "nat ?lf = i"
        by linarith
      then show ?thesis
        using 3(2) by simp
    next
      case False
      then show ?thesis
        using lf(4) that by simp
    qed
    then have "\<forall>i. lf < int i \<and> int i < lastfree t \<longrightarrow> gkey (node t ! i) \<noteq> Nil"
      by blast
    then show ?thesis
      using lf(1,2,3) by (cases r) (auto intro!: exI [of _ lf])
  qed
qed

lemma free_nodes_pos_iff:
  "table_ok hs t \<Longrightarrow> 0 < free_nodes t \<longleftrightarrow> \<not> dummy t \<and> (\<exists>i < sizenode t. gkey (node t ! i) = Nil)"
  using table_okD(2) [of hs t]
  by (auto simp: free_nodes_def filter_empty_conv in_set_conv_nth Bex_def)

lemma filter_length_update:
  "length (filter P xs) \<le> Suc (length (filter P (xs[i := x])))"
  by (induction xs arbitrary: i) (auto split: nat.split intro: le_SucI)

lemma filter_update_same:
  "\<not> P (xs ! i) \<Longrightarrow> \<not> P x \<Longrightarrow> i < length xs \<Longrightarrow> filter P (xs[i := x]) = filter P xs"
  by (induction xs arbitrary: i) (auto simp: nth_Cons split: nat.split nat.splits)

text \<open>The shape of a table after an insertion: only the vector and \<open>lastfree\<close> change.\<close>

definition same_shape :: "Table \<Rightarrow> Table \<Rightarrow> bool" where
  "same_shape t t' \<longleftrightarrow> lsizenode t' = lsizenode t \<and> length (array t') = length (array t) \<and>
     dummy t' = dummy t"

lemma same_shapeD:
  "same_shape t t' \<Longrightarrow> in_array t' = in_array t \<and> sizenode t' = sizenode t \<and> sizearray t' = sizearray t \<and>
     mainposition hs t' = mainposition hs t"
  using mainposition_cong [of t' t] by (auto simp: same_shape_def in_array_def sizearray_def sizenode_def fun_eq_iff)

text \<open>
  \<open>newkey\<close> on a key the table does not hold: it links the key in, disturbing no other entry, or it
  has no free place and grows.
\<close>

definition inserted :: "(addr \<Rightarrow> u32) \<Rightarrow> Table \<Rightarrow> tvalue \<Rightarrow> Table \<Rightarrow> nat \<Rightarrow> bool" where
  "inserted hs t key t' j \<longleftrightarrow> table_ok hs t' \<and> same_shape t t' \<and> j < sizenode t \<and>
     gkey (node t' ! j) = key \<and> flags t' = flags t \<and> array t' = array t \<and> \<not> dummy t \<and>
     free_nodes t \<le> Suc (free_nodes t') \<and> (\<forall>k. live k \<longrightarrow> tlook t' k = tlook t k)"

lemma table_ok_insert:
  assumes ok: "table_ok hs t" and nd: "\<not> dummy t" and key: "live key" "\<not> in_array t key"
    and N: "length N = sizenode t" "nodes_ok (mainposition hs t) N" "\<And>k. live k \<Longrightarrow> nlook N k = nlook (node t) k"
    and e: "j < sizenode t" "gkey (N ! j) = key"
    and keys: "\<And>i. i < sizenode t \<Longrightarrow> i \<noteq> j \<Longrightarrow> \<exists>i' < sizenode t. gkey (N ! i) = gkey (node t ! i')"
    and lf: "lf \<le> int (sizenode t)" "\<And>i. i < sizenode t \<Longrightarrow> lf \<le> int i \<Longrightarrow> gkey (N ! i) \<noteq> Nil"
    and free: "length (filter (\<lambda>n. gkey n = Nil) (node t)) \<le> Suc (length (filter (\<lambda>n. gkey n = Nil) N))"
  shows "inserted hs t key (t\<lparr>lastfree := lf, node := N\<rparr>) j"
proof -
  let ?t = "t\<lparr>lastfree := lf, node := N\<rparr>"
  have sh: "same_shape t ?t"
    by (simp add: same_shape_def)
  note S = same_shapeD [OF sh]
  have "\<not> in_array t (gkey (N ! i))" if "i < sizenode t" "live (gkey (N ! i))" for i
    using keys [OF that(1)] table_okD(9) [OF ok] key e that by (cases "i = j") auto
  then have "table_ok hs ?t"
    using ok nd N lf unfolding table_ok_def by (simp add: S [of hs])
  moreover have "tlook ?t k = tlook t k" if "live k" for k
    using N(3) [OF that] by (simp add: tlook_def S [of hs])
  ultimately show ?thesis
    using e nd free sh by (simp add: inserted_def free_nodes_def)
qed

lemma newkey_body_cases:
  assumes ok: "table_ok hs t" and key: "live key" "luaO_rawequalObj key key" "\<not> in_array t key"
    and new: "\<And>j. \<not> holds_key (node t) j key"
  shows "(\<exists>t' j. newkey_body hs grow t key = Some (t', Inr (NodeSlot j)) \<and> inserted hs t key t' j) \<or>
    (free_nodes t = 0 \<and> (\<exists>lf < 0. newkey_body hs grow t key = grow (t\<lparr>lastfree := lf\<rparr>)))"
proof -
  note T = table_okD [OF ok]
  define m where "m = mainposition hs t key"
  have m: "m < sizenode t" "mainposition hs t key = m"
    using T(10) by (auto simp: m_def)
  have mp: "luaO_rawequalObj k' key \<Longrightarrow> mainposition hs t k' = mainposition hs t key" for k'
    by (rule mainposition_rawequal)
  show ?thesis
  proof (cases "gval (node t ! m) \<noteq> Nil \<or> dummy t")
    case False
    let ?N = "put_key (node t) m key"
    have I: "nodes_ok (mainposition hs t) ?N \<and> (\<forall>k. live k \<longrightarrow> nlook ?N k = nlook (node t) k)"
      by (rule insert_in_place [OF T(3) m(2) _ _ key(1,2) new mp]) (use m False T(2) in auto)
    have nth: "?N ! i = (if i = m then (node t ! m)\<lparr>gkey := key\<rparr> else node t ! i)" for i
      using m(1) T(2) by (simp add: put_key_def nth_upd)
    have kn: "key \<noteq> Nil"
      using key(1) by auto
    have "inserted hs t key (t\<lparr>lastfree := lastfree t, node := ?N\<rparr>) m"
    proof (rule table_ok_insert [OF ok _ key(1,3)])
      show "length (filter (\<lambda>n. gkey n = Nil) (node t)) \<le> Suc (length (filter (\<lambda>n. gkey n = Nil) ?N))"
        unfolding put_key_def by (rule filter_length_update)
    qed (use m T False I kn in \<open>auto simp: nth put_key_def [of "node t" m key, THEN arg_cong [where f = length]]\<close>)
    moreover have "newkey_body hs grow t key = Some (t\<lparr>lastfree := lastfree t, node := ?N\<rparr>, Inr (NodeSlot m))"
      using False by (simp add: newkey_body_def m(2))
    ultimately show ?thesis
      by blast
  next
    case True
    obtain t1 r where g: "getfreepos t = (t1, r)"
      by force
    from getfreepos_spec [OF g] obtain lf where lf: "t1 = t\<lparr>lastfree := lf\<rparr>" "lf \<le> lastfree t"
      "case r of Some n \<Rightarrow> lf = int n \<and> int n < lastfree t \<and> gkey (node t ! n) = Nil | None \<Rightarrow> lf < 0"
      "\<forall>i. lf < int i \<and> int i < lastfree t \<longrightarrow> gkey (node t ! i) \<noteq> Nil"
      by blast
    have taken: "gkey (node t ! i) \<noteq> Nil" if "\<not> dummy t" "i < sizenode t" "lf < int i" for i
      using lf(4) T(7) [OF that(1,2)] that(3) by (cases "int i < lastfree t") auto
    show ?thesis
    proof (cases r)
      case None
      then have "free_nodes t = 0"
        using lf(3) taken T(2) by (auto simp: free_nodes_def filter_empty_conv in_set_conv_nth)
      moreover have "newkey_body hs grow t key = grow (t\<lparr>lastfree := lf\<rparr>)"
        using True g None lf(1) by (simp add: newkey_body_def m(2))
      ultimately show ?thesis
        using lf(3) None by auto
    next
      case (Some n)
      have nd: "\<not> dummy t"
        using T(5) lf(3) Some by auto
      have n: "n < sizenode t" "gkey (node t ! n) = Nil"
        using T(6) lf(3) Some by auto
      have mlive: "live (gkey (node t ! m))"
        using True nd nodes_okD(5) [OF T(3), of m] m(1) T(2) by auto
      then have mnil: "gkey (node t ! m) \<noteq> Nil"
        by auto
      let ?o = "mainposition hs t (gkey (node t ! m))"
      have mc: "mainposition hs (t\<lparr>lastfree := lf\<rparr>) = mainposition hs t"
        by (rule mainposition_cong) simp
      have mn: "m \<noteq> n"
        using mlive n by auto
      have kn: "key \<noteq> Nil"
        using key(1) by auto
      show ?thesis
      proof (cases "?o = m")
        case True
        let ?N = "put_key (chain_free (node t) m n) n key"
        have I: "nodes_ok (mainposition hs t) ?N \<and> (\<forall>k. live k \<longrightarrow> nlook ?N k = nlook (node t) k)"
          by (rule insert_behind [OF T(3) m(2) _ mlive True _ n(2) key(1,2) new]) (use m n T(2) in auto)
        have nth: "?N ! i = (if i = n then (node t ! n)\<lparr>gnext := gnext (node t ! m), gkey := key\<rparr>
            else if i = m then (node t ! m)\<lparr>gnext := Some n\<rparr> else node t ! i)" for i
          using m(1) n(1) mn T(2) by (simp add: put_key_def chain_free_def Let_def nth_upd)
        have len: "length ?N = sizenode t"
          using T(2) by (simp add: put_key_def chain_free_def Let_def)
        have "map gkey ?N = (map gkey (node t))[n := key]"
          by (rule nth_equalityI) (use len T(2) n(1) in \<open>auto simp: nth nth_upd\<close>)
        then have fr: "length (filter (\<lambda>k. k = Nil) (map gkey (node t))) \<le> Suc (length (filter (\<lambda>k. k = Nil) (map gkey ?N)))"
          using filter_length_update [of "\<lambda>k. k = Nil" "map gkey (node t)" n key] by simp
        have "inserted hs t key (t\<lparr>lastfree := lf, node := ?N\<rparr>) n"
        proof (rule table_ok_insert [OF ok nd key(1,3) len])
          show "length (filter (\<lambda>n. gkey n = Nil) (node t)) \<le> Suc (length (filter (\<lambda>n. gkey n = Nil) ?N))"
            using fr by (simp add: filter_map o_def)
          fix i assume "i < sizenode t" "lf \<le> int i"
          then show "gkey (?N ! i) \<noteq> Nil"
            using taken [OF nd, of i] lf(3) Some kn by (cases "i = n") (auto simp: nth)
        qed (use m T I n lf Some mn in \<open>auto simp: nth\<close>)
        moreover have "newkey_body hs grow t key = Some (t\<lparr>lastfree := lf, node := ?N\<rparr>, Inr (NodeSlot n))"
          using \<open>gval (node t ! m) \<noteq> Nil \<or> dummy t\<close> True g Some lf(1)
          by (simp add: newkey_body_def m(2) mc)
        ultimately show ?thesis
          by blast
      next
        case False
        have ol: "?o < length (node t)" "(?o, m) \<in> (edges (node t))\<^sup>*"
          using nodes_okD(7,8) [OF T(3) _ mlive] m(1) T(2) by auto
        obtain p where p: "find_previous (length (node t)) (node t) ?o m = Some p" "(p, m) \<in> edges (node t)"
          using find_previous_reach [OF nodes_okD(1) [OF T(3)] ol(2,1) False] by blast
        let ?N = "put_key (move_colliding (node t) p m n) m key"
        have I: "nodes_ok (mainposition hs t) ?N \<and> (\<forall>k. live k \<longrightarrow> nlook ?N k = nlook (node t) k)"
          by (rule insert_moving [OF T(3) m(2) _ mlive False _ n(2) p(2) key(1,2) new])
            (use m n T(2) in auto)
        have pm: "p \<noteq> n" "p \<noteq> m" "p < sizenode t"
          using p(2) nodes_okD(3) [OF T(3), of n] n T(2) nodes_okD(1) [OF T(3)]
          by (auto simp: edges_def linked_def acyclic_def)
        have len: "length ?N = sizenode t"
          using T(2) by (simp add: put_key_def move_colliding_def Let_def)
        have nth: "gkey (?N ! i) = (if i = m then key else if i = n then gkey (node t ! m) else gkey (node t ! i))" for i
          using m(1) n(1) mn pm T(2) by (auto simp: put_key_def move_colliding_def Let_def nth_upd)
        have mg: "map gkey ?N = (map gkey (node t))[n := gkey (node t ! m), m := key]"
          by (rule nth_equalityI) (use len T(2) n(1) m(1) mn in \<open>auto simp: nth nth_upd\<close>)
        have fr: "length (filter (\<lambda>k. k = Nil) (map gkey (node t))) \<le> Suc (length (filter (\<lambda>k. k = Nil) (map gkey ?N)))"
        proof -
          have "filter (\<lambda>k. k = Nil) (xs[m := key]) = filter (\<lambda>k. k = Nil) xs"
            if "xs ! m \<noteq> Nil" "m < length xs" for xs
            using that kn by (intro filter_update_same)
          from this [of "(map gkey (node t))[n := gkey (node t ! m)]"]
          have "filter (\<lambda>k. k = Nil) (map gkey ?N) =
              filter (\<lambda>k. k = Nil) ((map gkey (node t))[n := gkey (node t ! m)])"
            unfolding mg using mnil m(1) mn T(2) by auto
          then show ?thesis
            using filter_length_update [of "\<lambda>k. k = Nil" "map gkey (node t)" n "gkey (node t ! m)"] by simp
        qed
        have "inserted hs t key (t\<lparr>lastfree := lf, node := ?N\<rparr>) m"
        proof (rule table_ok_insert [OF ok nd key(1,3) len])
          show "length (filter (\<lambda>n. gkey n = Nil) (node t)) \<le> Suc (length (filter (\<lambda>n. gkey n = Nil) ?N))"
            using fr by (simp add: filter_map o_def)
          fix i assume "i < sizenode t" "lf \<le> int i"
          then show "gkey (?N ! i) \<noteq> Nil"
            using taken [OF nd, of i] lf(3) Some kn mlive by (cases "i = n"; cases "i = m") (auto simp: nth)
        next
          show "\<exists>i' < sizenode t. gkey (?N ! i) = gkey (node t ! i')" if "i < sizenode t" "i \<noteq> m" for i
            using that m(1) by (auto simp: nth)
        qed (use m T I n lf Some mn in \<open>auto simp: nth\<close>)
        moreover have "newkey_body hs grow t key = Some (t\<lparr>lastfree := lf, node := ?N\<rparr>, Inr (NodeSlot m))"
          using \<open>gval (node t ! m) \<noteq> Nil \<or> dummy t\<close> False g Some lf(1) p(1)
          by (simp add: newkey_body_def m(2) mc)
        ultimately show ?thesis
          by blast
      qed
    qed
  qed
qed

end
