(* ===== verification/Lua_Table_Rehash.thy ===== *)
theory Lua_Table_Rehash
  imports Lua_Table_Ops
begin

text \<open>
  Growing a table (\<open>resize\<close> and \<open>rehash\<close> of \<^verbatim>\<open>src/src/ltable.c\<close>): the counts of integer keys, the
  size they give, the two loops that reinsert every entry, and that \<open>newkey\<close> never has to grow a
  table a second time. \<open>luaH_set\<close> then has the meaning of an update of the contents.
\<close>

section \<open>One insertion\<close>

definition storable :: "tvalue \<Rightarrow> bool" where
  "storable k \<longleftrightarrow> live k \<and> luaO_rawequalObj k k"

definition newkey_like :: "(addr \<Rightarrow> u32) \<Rightarrow> newkey_fun \<Rightarrow> bool" where
  "newkey_like hs nk \<longleftrightarrow> (\<forall>t key. \<exists>grow. nk t key = newkey_body hs grow t key)"

lemma newkey_like_newkey: "newkey_like hs (newkey hs fr f)"
  unfolding newkey_like_def by (cases f) auto

lemma storable_iff:
  "storable k \<longleftrightarrow> k \<noteq> Nil \<and> (\<forall>a. k \<noteq> DeadKey a) \<and> (\<forall>n. k = Number n \<longrightarrow> \<not> luai_numisnan n)"
  by (cases k) (auto simp: storable_def live_def luaO_rawequalObj_def luai_numisnan_def)

text \<open>What storing \<open>v\<close> under \<open>k\<close> has done to a table.\<close>

definition stored :: "(addr \<Rightarrow> u32) \<Rightarrow> Table \<Rightarrow> tvalue \<Rightarrow> tvalue \<Rightarrow> Table \<Rightarrow> bool" where
  "stored hs t k v t' \<longleftrightarrow> table_ok hs t' \<and> same_shape t t' \<and>
     (\<forall>k'. live k' \<longrightarrow> tlook t' k' = (if luaO_rawequalObj k k' then v else tlook t k')) \<and>
     free_nodes t \<le> (if in_array t k then free_nodes t' else Suc (free_nodes t'))"

lemma free_nodes_write: "free_nodes (write_slot t s v) = free_nodes t"
proof (cases s)
  case (NodeSlot i)
  have "map gkey ((node t)[i := (node t ! i)\<lparr>gval := v\<rparr>]) = map gkey (node t)"
    by (cases "i < length (node t)")
      (simp_all add: map_update list_update_beyond, metis list_update_id nth_map)
  then have "length (filter (\<lambda>k. k = Nil) (map gkey ((node t)[i := (node t ! i)\<lparr>gval := v\<rparr>]))) =
      length (filter (\<lambda>k. k = Nil) (map gkey (node t)))"
    by simp
  then show ?thesis
    using NodeSlot by (simp add: free_nodes_def filter_map o_def)
qed (simp_all add: free_nodes_def)

lemma write_slot_stored:
  assumes ok: "table_ok hs t" and k: "live k" and s: "slot_for t k s" "s \<noteq> NilObj"
  shows "table_ok hs (write_slot t s v) \<and> same_shape t (write_slot t s v) \<and>
    (\<forall>k'. live k' \<longrightarrow> tlook (write_slot t s v) k' = (if luaO_rawequalObj k k' then v else tlook t k'))"
proof (cases s)
  case (ArrSlot i)
  then have i: "in_array t k" "i = nat (arrayindex k - 1)"
    using s by (auto simp: slot_for_def)
  let ?t = "write_slot t s v"
  have sh: "same_shape t ?t"
    using ArrSlot by (simp add: same_shape_def)
  note S = same_shapeD [OF sh]
  have "table_ok hs ?t"
    using ok ArrSlot S unfolding table_ok_def by simp
  moreover have "tlook ?t k' = (if luaO_rawequalObj k k' then v else tlook t k')" for k'
  proof (cases "in_array t k'")
    case False
    then have "\<not> luaO_rawequalObj k k'"
      using i(1) in_array_rawequal by blast
    then show ?thesis
      using False S [of hs] ArrSlot by (simp add: tlook_def)
  next
    case True
    have r: "luaO_rawequalObj k k' \<longleftrightarrow> arrayindex k' = arrayindex k"
      using arrayindex_pos_iff [of "arrayindex k" k] arrayindex_pos_iff [of "arrayindex k" k'] i(1)
        arrayindex_range [of k] unfolding in_array_def by (metis rawequal_sym rawequal_trans)
    have "nat (arrayindex k' - 1) = i \<longleftrightarrow> arrayindex k' = arrayindex k"
      using i True by (auto simp: in_array_def)
    moreover have "i < length (array t)"
      using i by (auto simp: in_array_def sizearray_def)
    moreover have "array ?t = (array t)[i := v]"
      using ArrSlot by simp
    ultimately show ?thesis
      unfolding tlook_def nth_upd using True S r by auto
  qed
  ultimately show ?thesis
    using sh by blast
next
  case (NodeSlot j)
  then have j: "\<not> in_array t k" "j < sizenode t" "luaO_rawequalObj (gkey (node t ! j)) k"
    using s table_okD(2) [OF ok] by (auto simp: slot_for_def holds_key_def)
  let ?N = "(node t)[j := (node t ! j)\<lparr>gval := v\<rparr>]"
  let ?t = "write_slot t s v"
  have sh: "same_shape t ?t"
    using NodeSlot by (simp add: same_shape_def)
  note S = same_shapeD [OF sh]
  note T = table_okD [OF ok]
  have l: "live (gkey (node t ! j))"
    using k j(3) live_rawequal by blast
  have nd: "\<not> dummy t"
  proof
    assume d: "dummy t"
    then have "j = 0"
      using T(2,4) j(2) by simp
    then show False
      using T(4) [OF d] l by (simp add: dummynode_def)
  qed
  have N: "nodes_ok (mainposition hs t) ?N"
    by (rule nodes_ok_write [OF T(3)]) (use l j T(2) in auto)
  have key: "gkey (?N ! i) = gkey (node t ! i)" for i
    by (simp add: nth_upd)
  have "table_ok hs ?t"
    using ok NodeSlot N nd S [of hs] unfolding table_ok_def by (simp add: key)
  moreover have "tlook ?t k' = (if luaO_rawequalObj k k' then v else tlook t k')" if k': "live k'" for k'
  proof -
    have "luaO_rawequalObj (gkey (node t ! j)) k' \<longleftrightarrow> luaO_rawequalObj k k'"
      using j(3) rawequal_sym rawequal_trans by blast
    then show ?thesis
      using nlook_write [OF T(3) N k', of ] j T(2) in_array_rawequal [of k k'] S [of hs] NodeSlot
      by (auto simp: tlook_def)
  qed
  ultimately show ?thesis
    using sh by blast
qed (use s in simp)

lemma same_shape_refl: "same_shape t t"
  by (simp add: same_shape_def)

lemma same_shape_trans: "same_shape t u \<Longrightarrow> same_shape u v \<Longrightarrow> same_shape t v"
  by (simp add: same_shape_def)

lemma store_step:
  assumes ok: "table_ok hs t" and k: "storable k" and nk: "newkey_like hs nk"
    and p: "slot_for t k p" and room: "in_array t k \<or> 1 \<le> free_nodes t"
  shows "\<exists>t' s. (if p \<noteq> NilObj then Some (t, Inr p) else nk t k) = Some (t', Inr s) \<and> s \<noteq> NilObj \<and>
    slot_for t' k s \<and> table_ok hs t' \<and> flags t' = flags t \<and>
    (\<forall>k'. live k' \<longrightarrow> tlook t' k' = tlook t k') \<and> stored hs t k v (write_slot t' s v)"
proof (cases "p = NilObj")
  case False
  have l: "live k"
    using k by (simp add: storable_def)
  show ?thesis
    using False p ok write_slot_stored [OF ok l p False, of v]
    by (auto simp: stored_def free_nodes_write)
next
  case True
  have k': "live k" "luaO_rawequalObj k k"
    using k by (auto simp: storable_def)
  have new: "\<not> in_array t k" "\<And>j. \<not> holds_key (node t) j k"
    using p True by (auto simp: slot_for_def)
  obtain grow where "nk t k = newkey_body hs grow t k"
    using nk by (auto simp: newkey_like_def)
  with newkey_body_cases [OF ok k' new, of grow] room new(1)
  obtain t' j where r: "nk t k = Some (t', Inr (NodeSlot j))" and I: "inserted hs t k t' j"
    by auto
  have ok': "table_ok hs t'" and sh: "same_shape t t'" and j: "j < sizenode t" "gkey (node t' ! j) = k"
    and fr: "free_nodes t \<le> Suc (free_nodes t')"
    and tl: "\<And>k'. live k' \<Longrightarrow> tlook t' k' = tlook t k'"
    using I by (auto simp: inserted_def)
  have s: "slot_for t' k (NodeSlot j)"
    using j new(1) k'(2) same_shapeD [OF sh, of hs] table_okD(2) [OF ok']
    by (simp add: slot_for_def holds_key_def)
  have "stored hs t k v (write_slot t' (NodeSlot j) v)"
    using write_slot_stored [OF ok' k'(1) s, of v] tl fr new(1) sh free_nodes_write [of t' "NodeSlot j" v]
    unfolding stored_def by (auto intro: same_shape_trans)
  then show ?thesis
    using True r s ok' tl I unfolding inserted_def by auto
qed

lemma table_ok_flags: "table_ok hs (t\<lparr>flags := f\<rparr>) \<longleftrightarrow> table_ok hs t"
proof -
  have "same_shape t (t\<lparr>flags := f\<rparr>)"
    by (simp add: same_shape_def)
  from same_shapeD [OF this] show ?thesis
    by (simp add: table_ok_def)
qed

lemma flags_irrelevant [simp]:
  "tlook (t\<lparr>flags := f\<rparr>) = tlook t" "free_nodes (t\<lparr>flags := f\<rparr>) = free_nodes t"
  "in_array (t\<lparr>flags := f\<rparr>) = in_array t" "same_shape (t\<lparr>flags := f\<rparr>) = same_shape t"
  "slot_for (t\<lparr>flags := f\<rparr>) = slot_for t" "stored hs (t\<lparr>flags := f\<rparr>) = stored hs t"
  by (auto simp: fun_eq_iff tlook_def free_nodes_def in_array_def sizearray_def same_shape_def
      slot_for_def stored_def split: slot.split)

lemma set_with_stored:
  assumes ok: "table_ok hs t" and k: "storable k" and nk: "newkey_like hs nk"
    and room: "in_array t k \<or> 1 \<le> free_nodes t"
  shows "\<exists>t' s. set_with hs nk t k = Some (t', Inr s) \<and> s \<noteq> NilObj \<and> slot_for t' k s \<and> table_ok hs t' \<and>
    flags t' = 0 \<and> (\<forall>k'. live k' \<longrightarrow> tlook t' k' = tlook t k') \<and> stored hs t k v (write_slot t' s v)"
proof -
  let ?t = "t\<lparr>flags := 0\<rparr>"
  have l: "live k"
    using k by (simp add: storable_def)
  have "set_with hs nk t k = (if luaH_get hs t k \<noteq> NilObj then Some (?t, Inr (luaH_get hs t k)) else nk ?t k)"
    using k by (auto simp: set_with_def storable_iff split: tvalue.split)
  moreover have "table_ok hs ?t"
    using ok by (simp add: table_ok_flags)
  ultimately show ?thesis
    using store_step [of hs ?t k nk "luaH_get hs t k" v] get_slot [OF ok l] k nk room by simp
qed

lemma setnum_with_stored:
  assumes ok: "table_ok hs t" and i: "0 < i" "i \<le> INT_MAX" and nk: "newkey_like hs nk"
    and room: "in_array t (Number (cast_num i)) \<or> 1 \<le> free_nodes t"
  shows "\<exists>t' s. setnum_with nk t i = Some (t', Inr s) \<and> s \<noteq> NilObj \<and> slot_for t' (Number (cast_num i)) s \<and>
    table_ok hs t' \<and> flags t' = flags t \<and> (\<forall>k'. live k' \<longrightarrow> tlook t' k' = tlook t k') \<and>
    stored hs t (Number (cast_num i)) v (write_slot t' s v)"
proof -
  have "storable (Number (cast_num i))"
    using cast_num_not_nan [of i] i by (simp add: storable_iff luai_numisnan_iff INT_MIN_def)
  then show ?thesis
    using store_step [OF ok _ nk getnum_slot [OF ok, of i] room, of v] i
    by (simp add: setnum_with_def INT_MIN_def Let_def)
qed

section \<open>Reinserting the entries\<close>

text \<open>What the two loops find for a key among the entries they are given.\<close>

definition entry_for :: "Node list \<Rightarrow> tvalue \<Rightarrow> tvalue option" where
  "entry_for ns k = map_option gval (find (\<lambda>n. gval n \<noteq> Nil \<and> luaO_rawequalObj (gkey n) k) ns)"

definition elem_for :: "int \<Rightarrow> tvalue list \<Rightarrow> tvalue \<Rightarrow> tvalue option" where
  "elem_for i vs k =
     (let a = arrayindex k in
      if i < a \<and> a \<le> i + int (length vs) \<and> vs ! nat (a - i - 1) \<noteq> Nil then Some (vs ! nat (a - i - 1))
      else None)"

definition outside :: "Table \<Rightarrow> Node list \<Rightarrow> nat" where
  "outside t ns = length (filter (\<lambda>n. gval n \<noteq> Nil \<and> \<not> in_array t (gkey n)) ns)"

lemma reinsert_hash_ok:
  assumes nk: "newkey_like hs nk"
  shows "table_ok hs t \<Longrightarrow> outside t ns \<le> free_nodes t \<Longrightarrow>
     (\<forall>n \<in> set ns. gval n \<noteq> Nil \<longrightarrow> storable (gkey n)) \<Longrightarrow>
     sorted_wrt (\<lambda>a b. \<not> luaO_rawequalObj (gkey a) (gkey b)) (filter (\<lambda>n. gval n \<noteq> Nil) ns) \<Longrightarrow>
     \<exists>t'. reinsert_hash hs nk t ns = Some (t', Inr ()) \<and> table_ok hs t' \<and> same_shape t t' \<and>
       free_nodes t \<le> outside t ns + free_nodes t' \<and>
       (\<forall>k. live k \<longrightarrow> tlook t' k = (case entry_for ns k of None \<Rightarrow> tlook t k | Some v \<Rightarrow> v))"
proof (induction ns arbitrary: t)
  case Nil
  then show ?case
    by (auto simp: entry_for_def same_shape_refl)
next
  case (Cons n ns)
  show ?case
  proof (cases "gval n = Nil")
    case True
    then show ?thesis
      using Cons by (simp add: outside_def entry_for_def)
  next
    case False
    have st: "storable (gkey n)"
      using Cons.prems(3) False by simp
    have "in_array t (gkey n) \<or> 1 \<le> free_nodes t"
      using Cons.prems(2) False by (cases "in_array t (gkey n)") (auto simp: outside_def)
    from set_with_stored [OF Cons.prems(1) st nk this, of "gval n"]
    obtain t1 s where r: "set_with hs nk t (gkey n) = Some (t1, Inr s)"
      and S: "stored hs t (gkey n) (gval n) (write_slot t1 s (gval n))"
      by blast
    let ?t = "write_slot t1 s (gval n)"
    have t: "table_ok hs ?t" "same_shape t ?t"
      "free_nodes t \<le> (if in_array t (gkey n) then free_nodes ?t else Suc (free_nodes ?t))"
      "\<And>k. live k \<Longrightarrow> tlook ?t k = (if luaO_rawequalObj (gkey n) k then gval n else tlook t k)"
      using S by (auto simp: stored_def)
    have ia: "in_array ?t = in_array t"
      using same_shapeD [OF t(2)] by blast
    have o: "outside t (n # ns) = (if in_array t (gkey n) then outside t ns else Suc (outside t ns))"
      "outside ?t ns = outside t ns"
      using False ia by (auto simp: outside_def)
    have "outside ?t ns \<le> free_nodes ?t"
      using Cons.prems(2) t(3) o by (auto split: if_splits)
    from Cons.IH [OF t(1) this] Cons.prems(3,4) False
    obtain t' where t': "reinsert_hash hs nk ?t ns = Some (t', Inr ())" "table_ok hs t'" "same_shape ?t t'"
      "free_nodes ?t \<le> outside ?t ns + free_nodes t'"
      "\<forall>k. live k \<longrightarrow> tlook t' k = (case entry_for ns k of None \<Rightarrow> tlook ?t k | Some v \<Rightarrow> v)"
      by auto
    have "tlook t' k = (case entry_for (n # ns) k of None \<Rightarrow> tlook t k | Some v \<Rightarrow> v)" if k: "live k" for k
    proof (cases "luaO_rawequalObj (gkey n) k")
      case True
      have "entry_for ns k = None"
      proof -
        have "\<not> luaO_rawequalObj (gkey b) k" if "b \<in> set ns" "gval b \<noteq> Nil" for b
          using Cons.prems(4) that False True by (auto dest: rawequal_trans simp: rawequal_sym [of "gkey b"])
        then show ?thesis
          by (auto simp: entry_for_def find_None_iff)
      qed
      then show ?thesis
        using t'(5) k t(4) [OF k] True False by (simp add: entry_for_def)
    next
      case False
      then have "entry_for (n # ns) k = entry_for ns k"
        by (simp add: entry_for_def)
      then show ?thesis
        using t'(5) k t(4) [OF k] False by (cases "entry_for ns k") simp_all
    qed
    then show ?thesis
      using t' t(2,3) o r False same_shape_trans [OF t(2) t'(3)]
      by (intro exI [of _ t']) (auto split: if_splits)
  qed
qed

lemma reinsert_array_ok:
  assumes nk: "newkey_like hs nk"
  shows "table_ok hs t \<Longrightarrow> sizearray t \<le> i \<Longrightarrow> i + int (length vs) \<le> INT_MAX \<Longrightarrow>
     length (filter (\<lambda>v. v \<noteq> Nil) vs) \<le> free_nodes t \<Longrightarrow>
     \<exists>t'. reinsert_array nk t i vs = Some (t', Inr ()) \<and> table_ok hs t' \<and> same_shape t t' \<and>
       free_nodes t \<le> length (filter (\<lambda>v. v \<noteq> Nil) vs) + free_nodes t' \<and>
       (\<forall>k. live k \<longrightarrow> tlook t' k = (case elem_for i vs k of None \<Rightarrow> tlook t k | Some v \<Rightarrow> v))"
proof (induction vs arbitrary: t i)
  case Nil
  then show ?case
    by (auto simp: elem_for_def same_shape_refl Let_def)
next
  case (Cons v vs)
  have i: "0 \<le> i"
    using Cons.prems(2) by (simp add: sizearray_def)
  have ef: "elem_for i (v # vs) k =
      (if arrayindex k = i + 1 then (if v \<noteq> Nil then Some v else None) else elem_for (i + 1) vs k)" for k
  proof -
    consider "arrayindex k \<le> i" | "arrayindex k = i + 1" | "i + 1 < arrayindex k"
      by linarith
    then show ?thesis
    proof cases
      case 3
      then have "nat (arrayindex k - i - 1) = Suc (nat (arrayindex k - (i + 1) - 1))"
        by linarith
      then show ?thesis
        using 3 by (simp add: elem_for_def Let_def)
    qed (auto simp: elem_for_def)
  qed
  show ?case
  proof (cases "v = Nil")
    case True
    have "elem_for i (v # vs) k = elem_for (i + 1) vs k" for k
      unfolding ef by (simp add: True elem_for_def)
    then show ?thesis
      using Cons.IH [of t "i + 1"] Cons.prems True by simp
  next
    case False
    let ?k = "Number (cast_num (i + 1))"
    have i1: "0 < i + 1" "i + 1 \<le> INT_MAX"
      using i Cons.prems(3) by auto
    have ai: "arrayindex ?k = i + 1"
      using arrayindex_cast_num [of "i + 1"] i1 by (simp add: INT_MIN_def)
    then have na: "\<not> in_array t ?k"
      using Cons.prems(2) by (simp add: in_array_def)
    have "1 \<le> free_nodes t"
      using Cons.prems(4) False by simp
    with setnum_with_stored [OF Cons.prems(1) i1 nk, of v]
    obtain t1 s where r: "setnum_with nk t (i + 1) = Some (t1, Inr s)"
      and S: "stored hs t ?k v (write_slot t1 s v)"
      by blast
    let ?t = "write_slot t1 s v"
    have t: "table_ok hs ?t" "same_shape t ?t" "free_nodes t \<le> Suc (free_nodes ?t)"
      "\<And>k. live k \<Longrightarrow> tlook ?t k = (if luaO_rawequalObj ?k k then v else tlook t k)"
      using S na by (auto simp: stored_def)
    have "sizearray ?t \<le> i + 1"
      using same_shapeD [OF t(2)] Cons.prems(2) by simp
    with Cons.IH [OF t(1), of "i + 1"] Cons.prems(3,4) t(3) False
    obtain t' where t': "reinsert_array nk ?t (i + 1) vs = Some (t', Inr ())" "table_ok hs t'" "same_shape ?t t'"
      "free_nodes ?t \<le> length (filter (\<lambda>v. v \<noteq> Nil) vs) + free_nodes t'"
      "\<forall>k. live k \<longrightarrow> tlook t' k = (case elem_for (i + 1) vs k of None \<Rightarrow> tlook ?t k | Some v \<Rightarrow> v)"
      by auto
    have "luaO_rawequalObj ?k k \<longleftrightarrow> arrayindex k = i + 1" for k
      using arrayindex_pos_iff [OF i1, of k] by (simp add: rawequal_sym [of k])
    moreover have "arrayindex k = i + 1 \<Longrightarrow> elem_for (i + 1) vs k = None" for k
      by (simp add: elem_for_def)
    ultimately have "tlook t' k = (case elem_for i (v # vs) k of None \<Rightarrow> tlook t k | Some v \<Rightarrow> v)" if "live k" for k
      using t'(5) t(4) that False unfolding ef
      by (cases "arrayindex k = i + 1"; cases "elem_for (i + 1) vs k") simp_all
    then show ?thesis
      using t' t(3) r False same_shape_trans [OF t(2) t'(3)]
      by (intro exI [of _ t']) auto
  qed
qed

section \<open>Resizing\<close>

lemma find_SomeD: "find P xs = Some x \<Longrightarrow> x \<in> set xs \<and> P x"
  by (auto simp: find_Some_iff)

lemma luaM_vector_ok:
  assumes "\<forall>a b. fr a b" "0 \<le> n" "n \<le> 2 ^ 31" "0 < e" "e \<le> 40"
  shows "luaM_vector fr oldn n e = Inr ()"
proof -
  have "uint (word_of_int (n + 1) :: u64) = n + 1"
    using assms by (simp add: uint_word_of_int del: of_int_add)
  moreover have "n + 1 \<le> MAX_SIZET div e"
  proof -
    have "(n + 1) * e \<le> (2 ^ 31 + 1) * 40"
      using assms by (intro mult_mono) auto
    then have "(n + 1) * e div e \<le> MAX_SIZET div e"
      using assms by (intro zdiv_mono1) auto
    then show ?thesis
      using assms by simp
  qed
  ultimately show ?thesis
    using assms(1) by (simp add: luaM_vector_def luaM_reallocv_def luaM_realloc_def)
qed

text \<open>A table whose vector is fresh.\<close>

definition fresh_nodes :: "Table \<Rightarrow> bool" where
  "fresh_nodes t \<longleftrightarrow> length (node t) = sizenode t \<and> lsizenode t \<le> MAXBITS \<and>
     (\<forall>n \<in> set (node t). n = dummynode) \<and>
     (if dummy t then lsizenode t = 0 \<and> lastfree t = 0 else lastfree t = int (sizenode t))"

lemma fresh_nodes_ok:
  assumes fr: "fresh_nodes t" and a: "sizearray t \<le> MAXASIZE"
  shows "table_ok hs t" and "live k \<Longrightarrow> nlook (node t) k = Nil"
    and "free_nodes t = (if dummy t then 0 else sizenode t)"
proof -
  have all: "node t ! i = dummynode" if "i < sizenode t" for i
    using fr that by (simp add: fresh_nodes_def)
  have none: "gkey (node t ! i) = Nil \<and> gval (node t ! i) = Nil \<and> gnext (node t ! i) = None"
    if "i < length (node t)" for i
  proof -
    have "i < sizenode t"
      using that fr by (simp add: fresh_nodes_def)
    then show ?thesis
      using all [of i] by (simp add: dummynode_def)
  qed
  then have E: "edges (node t) = {}"
    by (auto simp: edges_def)
  have "nodes_ok (mainposition hs t) (node t)"
    by (rule nodes_okI) (auto dest: none simp: E linked_def acyclic_def)
  moreover have "dummy t \<Longrightarrow> node t = [dummynode]"
    using fr by (cases "node t") (auto simp: fresh_nodes_def sizenode_pow)
  moreover have "\<not> live (gkey (node t ! i))" if "i < sizenode t" for i
    using all [OF that] by (simp add: dummynode_def)
  moreover have "length (node t) = sizenode t" "lsizenode t \<le> MAXBITS"
    "if dummy t then lastfree t = 0 else lastfree t = int (sizenode t)"
    using fr by (simp_all add: fresh_nodes_def)
  ultimately show "table_ok hs t"
    using a unfolding table_ok_def by (auto split: if_splits)
  have "\<not> luaO_rawequalObj Nil k" if "live k" for k
    using that by (cases k) (auto simp: luaO_rawequalObj_def)
  then show "live k \<Longrightarrow> nlook (node t) k = Nil"
    using none by (intro nlook_none) (auto simp: holds_key_def)
  have "filter (\<lambda>n. gkey n = Nil) (node t) = node t"
    using fr by (auto simp: filter_id_conv fresh_nodes_def dummynode_def)
  then show "free_nodes t = (if dummy t then 0 else sizenode t)"
    using fr by (simp add: free_nodes_def fresh_nodes_def)
qed

lemma setnodevector_ok:
  assumes fr: "\<forall>a b. fr a b" and n: "0 \<le> n" "n \<le> MAXASIZE"
  shows "\<exists>t'. setnodevector fr t n = Some (t', Inr ()) \<and> fresh_nodes t' \<and> array t' = array t \<and>
    flags t' = flags t \<and> (dummy t' \<longleftrightarrow> n = 0) \<and> n \<le> int (sizenode t')"
proof (cases "n = 0")
  case True
  then show ?thesis
    by (simp add: setnodevector_def fresh_nodes_def sizenode_pow)
next
  case False
  let ?w = "word_of_int n :: u32" and ?l = "nat (ceillog2 (word_of_int n))"
  have w: "unat ?w = nat n"
    using n by (simp add: unat_eq_nat_uint uint_word_of_int)
  then have c: "0 \<le> ceillog2 ?w" "nat n \<le> 2 ^ ?l" "2 \<le> nat n \<longrightarrow> 2 ^ nat (ceillog2 ?w - 1) < nat n"
      "nat n = 1 \<longrightarrow> ceillog2 ?w = 0"
    using ceillog2_bounds [of ?w] False n(1) by auto
  have l: "ceillog2 ?w \<le> 26"
  proof (rule ccontr)
    assume "\<not> ?thesis"
    then have "26 \<le> nat (ceillog2 ?w - 1)" "nat n \<noteq> 1"
      using c(4) by auto
    then have "(2 :: nat) ^ 26 \<le> 2 ^ nat (ceillog2 ?w - 1)"
      by (intro power_increasing) auto
    moreover have "2 \<le> nat n"
      using False n(1) \<open>nat n \<noteq> 1\<close> by linarith
    ultimately have "2 ^ 26 < nat n"
      using c(3) by linarith
    then show False
      using n by simp
  qed
  have s: "twoto ?l = 2 ^ ?l"
    by (simp add: twoto_def push_bit_eq_mult)
  have "int (2 ^ ?l) \<le> int (2 ^ 26)"
    using l by (simp only: of_nat_le_iff) (intro power_increasing; simp)
  then have v: "luaM_vector fr 0 (int (twoto ?l)) 40 = Inr ()"
    unfolding s by (intro luaM_vector_ok fr) auto
  show ?thesis
    using False l v c(1,2) n(1)
    by (auto simp: setnodevector_def Let_def fresh_nodes_def sizenode_def dummynode_def s)
qed

lemma setarrayvector_ok:
  assumes fr: "\<forall>a b. fr a b" and n: "sizearray t \<le> n" "n \<le> 2 ^ 31"
  shows "setarrayvector fr t n =
    Some (t\<lparr>array := array t @ replicate (nat n - length (array t)) Nil\<rparr>, Inr ())"
proof -
  have "luaM_vector fr (sizearray t) n 16 = Inr ()"
    using n by (intro luaM_vector_ok fr) (auto simp: sizearray_def)
  then show ?thesis
    using n by (simp add: setarrayvector_def sizearray_def)
qed

text \<open>The entries that a resize to \<open>na\<close> array elements has to put into the new vector.\<close>

definition rehoused :: "Table \<Rightarrow> int \<Rightarrow> nat" where
  "rehoused t na = length (filter (\<lambda>v. v \<noteq> Nil) (drop (nat na) (array t))) +
     length (filter (\<lambda>n. gval n \<noteq> Nil \<and> \<not> (0 < arrayindex (gkey n) \<and> arrayindex (gkey n) \<le> na)) (node t))"

lemma entry_for_nlook:
  assumes ok: "nodes_ok mp N" and k: "live k"
  shows "entry_for (rev N) k = (if nlook N k = Nil then None else Some (nlook N k))"
proof (cases "entry_for (rev N) k")
  case None
  then have none: "\<not> luaO_rawequalObj (gkey n) k" if "n \<in> set N" "gval n \<noteq> Nil" for n
    using that by (auto simp: entry_for_def find_None_iff)
  have "nlook N k = Nil"
  proof (rule ccontr)
    assume n: "nlook N k \<noteq> Nil"
    then obtain j where j: "holds_key N j k"
      using nlook_none by blast
    with n none [of "N ! j"] show False
      using nlook_holds [OF ok k j] by (auto simp: holds_key_def)
  qed
  then show ?thesis
    using None by simp
next
  case (Some v)
  then obtain n where f: "find (\<lambda>n. gval n \<noteq> Nil \<and> luaO_rawequalObj (gkey n) k) (rev N) = Some n" "v = gval n"
    by (auto simp: entry_for_def)
  have n: "n \<in> set N" "gval n \<noteq> Nil" "luaO_rawequalObj (gkey n) k" "v = gval n"
    using find_SomeD [OF f(1)] f(2) by auto
  then obtain j where "holds_key N j k" "n = N ! j"
    by (metis holds_key_def in_set_conv_nth)
  then show ?thesis
    using nlook_holds [OF ok k] n Some by auto
qed

lemma sorted_wrt_nodes:
  assumes ok: "nodes_ok mp N"
  shows "sorted_wrt (\<lambda>a b. \<not> luaO_rawequalObj (gkey a) (gkey b)) (filter (\<lambda>n. gval n \<noteq> Nil) (rev N))"
proof -
  have "sorted_wrt (\<lambda>a b. gval a \<noteq> Nil \<longrightarrow> gval b \<noteq> Nil \<longrightarrow> \<not> luaO_rawequalObj (gkey b) (gkey a)) N"
    unfolding sorted_wrt_iff_nth_less
  proof (intro allI impI notI)
    fix i j
    assume ij: "i < j" "j < length N" and v: "gval (N ! i) \<noteq> Nil" "gval (N ! j) \<noteq> Nil"
      and r: "luaO_rawequalObj (gkey (N ! j)) (gkey (N ! i))"
    have "live (gkey (N ! j))"
      using nodes_okD(5) [OF ok] ij v by blast
    then have "j = i"
      using nodes_okD(11) [OF ok ij(2) _ _ r] ij by simp
    then show False
      using ij by simp
  qed
  then have "sorted_wrt (\<lambda>a b. gval b \<noteq> Nil \<longrightarrow> gval a \<noteq> Nil \<longrightarrow> \<not> luaO_rawequalObj (gkey a) (gkey b)) (rev N)"
    by (simp add: sorted_wrt_rev)
  then have "sorted_wrt (\<lambda>a b. gval b \<noteq> Nil \<longrightarrow> gval a \<noteq> Nil \<longrightarrow> \<not> luaO_rawequalObj (gkey a) (gkey b))
      (filter (\<lambda>n. gval n \<noteq> Nil) (rev N))"
    by (rule sorted_wrt_filter)
  then show ?thesis
    by (rule sorted_wrt_mono_rel [rotated]) auto
qed

lemma resize_ok:
  assumes ok: "table_ok hs t" and nk: "newkey_like hs nk" and fr: "\<forall>a b. fr a b"
    and na: "0 \<le> na" "na \<le> MAXASIZE" and nh: "int (rehoused t na) \<le> nh" "nh \<le> MAXASIZE"
  shows "\<exists>t'. resize hs fr nk t na nh = Some (t', Inr ()) \<and> table_ok hs t' \<and> sizearray t' = na \<and>
    nh \<le> int (rehoused t na + free_nodes t') \<and> (\<forall>k. live k \<longrightarrow> tlook t' k = tlook t k)"
proof -
  note T = table_okD [OF ok]
  let ?A = "array t" and ?old = "sizearray t"
  define arr where "arr = (if na > ?old then ?A @ replicate (nat na - length ?A) Nil else ?A)"
  have old: "0 \<le> ?old" "?old \<le> MAXASIZE"
    using T(8) by (auto simp: sizearray_def)
  obtain t1 where t1: "setnodevector fr (t\<lparr>array := arr\<rparr>) nh = Some (t1, Inr ())" "fresh_nodes t1" "array t1 = arr"
    "dummy t1 \<longleftrightarrow> nh = 0" "nh \<le> int (sizenode t1)"
    using setnodevector_ok [OF fr, of nh "t\<lparr>array := arr\<rparr>"] nh by auto
  have grow: "(if na > ?old then setarrayvector fr t na else Some (t, Inr ())) = Some (t\<lparr>array := arr\<rparr>, Inr ())"
    using setarrayvector_ok [OF fr, of t na] na by (simp add: arr_def)
  define vs where "vs = (if na < ?old then drop (nat na) ?A else [])"
  define t2 where "t2 = t1\<lparr>array := take (nat na) arr\<rparr>"
  have a2: "sizearray t2 = na" "array t2 = take (nat na) ?A @ replicate (nat na - length ?A) Nil"
    using na by (auto simp: t2_def arr_def sizearray_def)
  have f2: "fresh_nodes t2"
    using t1(2) by (simp add: t2_def fresh_nodes_def sizenode_def)
  have look2: "tlook t2 k = (if in_array t2 k \<and> arrayindex k \<le> ?old then ?A ! nat (arrayindex k - 1) else Nil)"
    if "live k" for k
    using that fresh_nodes_ok(2) [OF f2] a2 na old
    by (auto simp: tlook_def in_array_def sizearray_def nth_append)
  have ok2: "table_ok hs t2"
    using fresh_nodes_ok(1) [OF f2] a2 na by simp
  have free2: "nh \<le> int (free_nodes t2)"
    using fresh_nodes_ok(3) [OF f2] a2 na t1(4,5) by (simp add: t2_def sizenode_def)
  have vs: "vs = drop (nat na) ?A"
    by (simp add: vs_def sizearray_def)
  have "na + int (length vs) \<le> INT_MAX"
    using na old by (simp add: vs sizearray_def)
  moreover have r: "rehoused t na = length (filter (\<lambda>v. v \<noteq> Nil) vs) + outside t2 (rev (node t))"
    using a2(1) by (simp add: rehoused_def vs outside_def in_array_def rev_filter [symmetric])
  then have "length (filter (\<lambda>v. v \<noteq> Nil) vs) \<le> free_nodes t2"
    using free2 nh by linarith
  ultimately obtain t3 where t3: "reinsert_array nk t2 na vs = Some (t3, Inr ())" "table_ok hs t3" "same_shape t2 t3"
    "free_nodes t2 \<le> length (filter (\<lambda>v. v \<noteq> Nil) vs) + free_nodes t3"
    "\<forall>k. live k \<longrightarrow> tlook t3 k = (case elem_for na vs k of None \<Rightarrow> tlook t2 k | Some v \<Rightarrow> v)"
    using reinsert_array_ok [OF nk ok2, of na vs] a2(1) by auto
  have shrink: "(if na < ?old then
       let vanishing = drop (nat na) (array t1); t = t1\<lparr>array := take (nat na) (array t1)\<rparr>
       in tbind (reinsert_array nk t na vanishing) (\<lambda>t _. Some (t, luaM_vector fr ?old na 16))
     else Some (t1, Inr ())) = Some (t3, Inr ())"
  proof (cases "na < ?old")
    case True
    then have "arr = ?A"
      by (simp add: arr_def)
    then show ?thesis
      using True t3(1) t1(3) luaM_vector_ok [OF fr na(1), of 16] na(2) by (simp add: t2_def vs_def)
  next
    case False
    then have "t2 = t1"
      using t1(3) na by (simp add: t2_def arr_def sizearray_def)
    then show ?thesis
      using False t3(1) by (simp add: vs_def)
  qed
  have S3: "in_array t3 = in_array t2" "sizearray t3 = na"
    using same_shapeD [OF t3(3)] a2(1) by auto
  have "outside t3 (rev (node t)) = outside t2 (rev (node t))"
    by (simp add: outside_def S3)
  moreover have "storable (gkey n)" if "n \<in> set (node t)" "gval n \<noteq> Nil" for n
    using that nodes_okD(5,6) [OF T(3)] by (metis in_set_conv_nth storable_def)
  ultimately obtain t4 where t4: "reinsert_hash hs nk t3 (rev (node t)) = Some (t4, Inr ())" "table_ok hs t4"
    "same_shape t3 t4" "free_nodes t3 \<le> outside t2 (rev (node t)) + free_nodes t4"
    "\<forall>k. live k \<longrightarrow> tlook t4 k = (case entry_for (rev (node t)) k of None \<Rightarrow> tlook t3 k | Some v \<Rightarrow> v)"
    using reinsert_hash_ok [OF nk t3(2), of "rev (node t)"] sorted_wrt_nodes [OF T(3)] t3(4) r free2 nh
    by fastforce
  have "tlook t4 k = tlook t k" if k: "live k" for k
  proof (cases "in_array t k")
    case True
    have "nlook (node t) k = Nil"
    proof (rule nlook_none)
      fix j show "\<not> holds_key (node t) j k"
        using T(2,9) True k in_array_rawequal live_rawequal by (metis holds_key_def)
    qed
    then have "tlook t4 k = (case elem_for na vs k of None \<Rightarrow> tlook t2 k | Some v \<Rightarrow> v)"
      using t4(5) t3(5) k entry_for_nlook [OF T(3) k] by simp
    moreover have "nat na + nat (arrayindex k - na - 1) = nat (arrayindex k - 1)" if "na < arrayindex k"
      using that na by simp
    ultimately show ?thesis
      using True k look2 [OF k] na a2(1)
      by (auto simp: tlook_def elem_for_def Let_def vs in_array_def sizearray_def)
  next
    case False
    then have "elem_for na vs k = None"
      using na by (auto simp: elem_for_def vs in_array_def sizearray_def Let_def)
    moreover have "tlook t2 k = Nil"
      using False look2 [OF k] by (auto simp: in_array_def)
    ultimately show ?thesis
      using False t4(5) t3(5) k entry_for_nlook [OF T(3) k] by (simp add: tlook_def)
  qed
  moreover have "resize hs fr nk t na nh = Some (t4, Inr ())"
    unfolding resize_def Let_def grow tbind.simps t1(1) shrink [unfolded Let_def] t4(1) ..
  ultimately show ?thesis
    using t4(2,3,4) t3(4) r free2 S3 same_shapeD [OF t4(3)] by (intro exI [of _ t4]) auto
qed

section \<open>Counting\<close>

text \<open>\<open>slice k\<close> is the index of \<open>nums\<close> that counts the key \<open>k\<close>.\<close>

definition slice :: "int \<Rightarrow> nat" where
  "slice k = nat (ceillog2 (word_of_int k))"

definition countable_key :: "int \<Rightarrow> bool" where
  "countable_key k \<longleftrightarrow> 0 < k \<and> k \<le> MAXASIZE"

definition tally :: "int list \<Rightarrow> nat \<Rightarrow> nat" where
  "tally ks j = length (filter (\<lambda>k. countable_key k \<and> slice k = j) ks)"

lemma tally_simps [simp]:
  "tally [] j = 0" "tally (k # ks) j = (if countable_key k \<and> slice k = j then Suc (tally ks j) else tally ks j)"
  "tally (ks @ ls) j = tally ks j + tally ls j"
  by (simp_all add: tally_def)

lemma slice_le_iff:
  assumes "countable_key k" shows "slice k \<le> j \<longleftrightarrow> k \<le> 2 ^ j"
proof -
  let ?w = "word_of_int k :: u32"
  have k: "0 < k" "k \<le> 2 ^ 26"
    using assms by (auto simp: countable_key_def)
  then have w: "unat ?w = nat k"
    by (simp add: unat_eq_nat_uint uint_word_of_int)
  have b: "0 \<le> ceillog2 ?w" "nat k \<le> 2 ^ slice k" "2 \<le> nat k \<longrightarrow> 2 ^ nat (ceillog2 ?w - 1) < nat k"
    "nat k = 1 \<longrightarrow> ceillog2 ?w = 0"
    using ceillog2_bounds [of ?w] k w by (auto simp: slice_def)
  show ?thesis
  proof
    assume "slice k \<le> j"
    then have "(2 :: nat) ^ slice k \<le> 2 ^ j"
      by (intro power_increasing) auto
    then have "nat k \<le> 2 ^ j"
      using b(2) by linarith
    then show "k \<le> 2 ^ j"
      by (simp add: nat_le_iff)
  next
    assume "k \<le> 2 ^ j"
    then have kj: "nat k \<le> 2 ^ j"
      by (simp add: nat_le_iff)
    show "slice k \<le> j"
    proof (cases "nat k = 1")
      case False
      then have "2 ^ nat (ceillog2 ?w - 1) < nat k"
        using b(3) k by linarith
      then have "(2 :: nat) ^ nat (ceillog2 ?w - 1) < 2 ^ j"
        using kj by linarith
      then have "nat (ceillog2 ?w - 1) < j"
        by simp
      then show ?thesis
        by (simp add: slice_def)
    qed (use b(4) in \<open>simp add: slice_def\<close>)
  qed
qed

lemma slice_less: "countable_key k \<Longrightarrow> slice k < 27"
  using slice_le_iff [of k 26] by (simp add: countable_key_def)

lemma countint_spec:
  assumes "length nums = 27" "countint key nums = (nums', c)"
  shows "length nums' = 27 \<and> c = (if countable_key (arrayindex key) then 1 else 0) \<and>
    (\<forall>j < 27. nums' ! j = nums ! j + int (tally [arrayindex key] j))"
  using assms slice_less [of "arrayindex key"]
  by (auto simp: countint_def countable_key_def slice_def [symmetric] Let_def nth_list_update split: if_splits)

definition hash_ints :: "Node list \<Rightarrow> int list" where
  "hash_ints ns = map (\<lambda>n. arrayindex (gkey n)) (filter (\<lambda>n. gval n \<noteq> Nil) ns)"

lemma numusehash_loop_spec:
  "length nums = 27 \<Longrightarrow> numusehash_loop ns nums ause totaluse = (nums', ause', totaluse') \<Longrightarrow>
     length nums' = 27 \<and> ause' = ause + int (length (filter countable_key (hash_ints ns))) \<and>
     totaluse' = totaluse + int (length (filter (\<lambda>n. gval n \<noteq> Nil) ns)) \<and>
     (\<forall>j < 27. nums' ! j = nums ! j + int (tally (hash_ints ns) j))"
proof (induction ns arbitrary: nums ause totaluse)
  case (Cons n ns)
  show ?case
  proof (cases "gval n = Nil")
    case True
    then show ?thesis
      using Cons by (simp add: hash_ints_def)
  next
    case False
    obtain nums1 c where c: "countint (gkey n) nums = (nums1, c)"
      by force
    note S = countint_spec [OF Cons.prems(1) c]
    then have "length nums1 = 27"
      by blast
    moreover have "numusehash_loop ns nums1 (ause + c) (totaluse + 1) = (nums', ause', totaluse')"
      using Cons.prems(2) False c by simp
    ultimately show ?thesis
      using Cons.IH [of nums1 "ause + c" "totaluse + 1"] S False by (simp add: hash_ints_def)
  qed
qed (simp add: hash_ints_def)

text \<open>The integer keys of the array part, from index \<open>i\<close> up to \<open>j\<close>.\<close>

definition arr_ints :: "tvalue list \<Rightarrow> nat \<Rightarrow> nat \<Rightarrow> int list" where
  "arr_ints arr i j = map int (filter (\<lambda>i. arr ! (i - 1) \<noteq> Nil) [i..<j + 1])"

lemma arr_ints_split: "i \<le> j + 1 \<Longrightarrow> j \<le> k \<Longrightarrow> arr_ints arr i k = arr_ints arr i j @ arr_ints arr (j + 1) k"
proof -
  assume "i \<le> j + 1" "j \<le> k"
  then have "[i..<k + 1] = [i..<j + 1] @ [j + 1..<k + 1]"
    by (metis Suc_eq_plus1 Suc_le_mono le_add_diff_inverse upt_add_eq_append)
  then show ?thesis
    by (simp add: arr_ints_def)
qed

lemma arr_ints_length: "length (arr_ints arr 1 (length arr)) = length (filter (\<lambda>v. v \<noteq> Nil) arr)"
proof -
  have "arr = map (\<lambda>i. arr ! (i - 1)) [1..<length arr + 1]"
    by (rule nth_equalityI) (auto simp del: upt_Suc)
  then have "filter (\<lambda>v. v \<noteq> Nil) arr =
      map (\<lambda>i. arr ! (i - 1)) (filter (\<lambda>i. arr ! (i - 1) \<noteq> Nil) [1..<length arr + 1])"
    by (metis (no_types, lifting) filter_map comp_apply filter_cong)
  then show ?thesis
    by (simp add: arr_ints_def)
qed

definition slice_low :: "nat \<Rightarrow> nat" where
  "slice_low l = (if l = 0 then 0 else 2 ^ (l - 1))"

lemma tally_slice:
  assumes "\<forall>k \<in> set ks. int (slice_low l) < k \<and> k \<le> 2 ^ l" "l < 27"
  shows "tally ks j = (if j = l then length ks else 0)"
proof -
  have "countable_key k \<and> slice k = l" if "k \<in> set ks" for k
  proof -
    have k: "int (slice_low l) < k" "k \<le> 2 ^ l"
      using assms(1) that by auto
    have "(2 :: int) ^ l \<le> 2 ^ 26"
      using assms(2) by (intro power_increasing) auto
    then have c: "countable_key k"
      using k by (simp add: countable_key_def slice_low_def split: if_splits)
    have "l - 1 < slice k" if "0 < l"
      using slice_le_iff [OF c, of "l - 1"] k that by (auto simp: slice_low_def)
    then show ?thesis
      using c slice_le_iff [OF c, of l] k by (cases "l = 0") auto
  qed
  then have "filter (\<lambda>k. countable_key k \<and> slice k = j) ks = (if j = l then ks else [])"
    by (auto simp: filter_id_conv filter_empty_conv)
  then show ?thesis
    by (simp add: tally_def)
qed

lemma numusearray_loop_spec:
  assumes len: "length arr \<le> 2 ^ 26"
  shows "length nums = 27 \<Longrightarrow> l \<le> 27 \<Longrightarrow> i = min (slice_low l) (length arr) + 1 \<Longrightarrow>
     numusearray_loop [l..<27] arr i nums ause = (nums', ause') \<Longrightarrow>
     length nums' = 27 \<and> ause' = ause + int (length (arr_ints arr i (length arr))) \<and>
     (\<forall>j < 27. nums' ! j = nums ! j + int (tally (arr_ints arr i (length arr)) j))"
proof (induction "27 - l" arbitrary: l i nums ause)
  case 0
  then have "l = 27"
    by simp
  then have "slice_low l = 2 ^ 26"
    by (simp add: slice_low_def)
  then have "arr_ints arr i (length arr) = []"
    using 0 len by (simp add: arr_ints_def)
  then show ?case
    using 0 by simp
next
  case (Suc m)
  have l: "l < 27" "[l..<27] = l # [l + 1..<27]"
    using Suc.hyps(2) by (auto simp: upt_conv_Cons)
  let ?n = "length arr" and ?lim = "min (2 ^ l) (length arr)"
  have low: "slice_low l \<le> 2 ^ l" "slice_low (l + 1) = 2 ^ l"
    by (auto simp: slice_low_def intro: power_increasing)
  have lim: "(if 2 ^ l > ?n then ?n else 2 ^ l) = ?lim"
    by simp
  show ?case
  proof (cases "2 ^ l > ?n \<and> i > ?lim")
    case True
    then have "arr_ints arr i ?n = []"
      by (auto simp: arr_ints_def)
    moreover have "length arr < i"
      using True by (simp add: min_def split: if_splits)
    then have "(nums, ause) = (nums', ause')"
      using Suc.prems(4) True unfolding l(2) numusearray_loop.simps lim Let_def by simp
    ultimately show ?thesis
      using Suc.prems(1) by simp
  next
    case False
    define lc where "lc = int (length (arr_ints arr i ?lim))"
    have i: "max i (?lim + 1) = ?lim + 1" "i \<le> ?lim + 1"
      using Suc.prems(3) low by auto
    have "numusearray_loop [l + 1..<27] arr (?lim + 1) (nums[l := nums ! l + lc]) (ause + lc) = (nums', ause')"
      using Suc.prems(4) False unfolding l(2) numusearray_loop.simps lim Let_def i(1)
      by (simp add: lc_def arr_ints_def)
    from Suc.hyps(1) [OF _ _ _ _ this] Suc.hyps(2) Suc.prems(1) l(1) low
    have IH: "length nums' = 27" "ause' = ause + lc + int (length (arr_ints arr (?lim + 1) ?n))"
      "\<forall>j < 27. nums' ! j = nums[l := nums ! l + lc] ! j + int (tally (arr_ints arr (?lim + 1) ?n) j)"
      by auto
    have split: "arr_ints arr i ?n = arr_ints arr i ?lim @ arr_ints arr (?lim + 1) ?n"
      by (rule arr_ints_split) (use i in auto)
    have "\<forall>k \<in> set (arr_ints arr i ?lim). int (slice_low l) < k \<and> k \<le> 2 ^ l"
    proof
      fix k assume "k \<in> set (arr_ints arr i ?lim)"
      then obtain k' where "k = int k'" "i \<le> k'" "k' \<le> ?lim"
        by (auto simp: arr_ints_def)
      then show "int (slice_low l) < k \<and> k \<le> 2 ^ l"
        using Suc.prems(3) by (auto simp: min_def split: if_splits)
    qed
    then have "int (tally (arr_ints arr i ?lim) j) = (if j = l then lc else 0)" for j
      using tally_slice [of "arr_ints arr i ?lim" l j] l(1) by (simp add: lc_def)
    then show ?thesis
      using IH Suc.prems(1) l(1) by (auto simp: split lc_def nth_list_update)
  qed
qed

lemma numusearray_spec:
  assumes "length (array t) \<le> 2 ^ 26" "numusearray t (replicate 27 0) = (nums, n)"
  shows "length nums = 27 \<and> n = int (length (filter (\<lambda>v. v \<noteq> Nil) (array t))) \<and>
    (\<forall>j < 27. nums ! j = int (tally (arr_ints (array t) 1 (length (array t))) j))"
  using numusearray_loop_spec [OF assms(1), of "replicate 27 0" 0 1 0 nums n] assms(2)
  unfolding arr_ints_length by (simp add: numusearray_def slice_low_def)

section \<open>The size of the array part\<close>

text \<open>The number of integer keys up to \<open>2 ^ i\<close>, read off \<open>nums\<close>.\<close>

definition key_count :: "int list \<Rightarrow> nat \<Rightarrow> int" where
  "key_count nums i = sum_list (take i nums)"

lemma key_count_Suc: "i < length nums \<Longrightarrow> key_count nums (Suc i) = key_count nums i + nums ! i"
  by (simp add: key_count_def take_Suc_conv_app_nth)

lemma key_count_mono: "\<forall>x \<in> set nums. 0 \<le> x \<Longrightarrow> i \<le> j \<Longrightarrow> key_count nums i \<le> key_count nums j"
proof -
  assume n: "\<forall>x \<in> set nums. 0 \<le> x" and ij: "i \<le> j"
  have "take j nums = take i nums @ take (j - i) (drop i nums)"
    using ij by (metis le_add_diff_inverse take_add)
  moreover have "0 \<le> sum_list (take (j - i) (drop i nums))"
    by (rule sum_list_nonneg) (use n in \<open>auto dest: in_set_takeD in_set_dropD\<close>)
  ultimately show ?thesis
    by (simp add: key_count_def)
qed

definition array_choice :: "int list \<Rightarrow> nat \<Rightarrow> int \<Rightarrow> int \<Rightarrow> bool" where
  "array_choice nums i n na \<longleftrightarrow> n = 0 \<and> na = 0 \<or>
     (\<exists>j < i. n = 2 ^ j \<and> na = key_count nums (Suc j) \<and> 2 ^ j div 2 < na)"

lemma array_choice_mono: "array_choice nums i n na \<Longrightarrow> i \<le> j \<Longrightarrow> array_choice nums j n na"
  by (force simp: array_choice_def)

lemma computesizes_loop_spec:
  "\<forall>x \<in> set nums. 0 \<le> x \<Longrightarrow> narray = sum_list nums \<Longrightarrow> i \<le> length nums \<Longrightarrow> a = key_count nums i \<Longrightarrow>
     a < narray \<or> narray = 0 \<Longrightarrow> array_choice nums i n na \<Longrightarrow>
     computesizes_loop nums narray i a na n = (n', na') \<Longrightarrow> array_choice nums (length nums) n' na'"
proof (induction nums narray i a na n rule: computesizes_loop.induct)
  case (1 nums narray i a na n)
  note prems = "1.prems"
  show ?case
  proof (cases "(2 :: int) ^ i div 2 < narray")
    case False
    then have "computesizes_loop nums narray i a na n = (n, na)"
      by (simp add: computesizes_loop.simps [of nums narray i])
    then show ?thesis
      using prems(7) array_choice_mono [OF prems(6,3)] by simp
  next
    case True
    have all: "key_count nums (length nums) = narray"
      using prems(2) by (simp add: key_count_def)
    have "0 \<le> (2 :: int) ^ i div 2"
      by simp
    then have "a < narray"
      using prems(5) True by linarith
    then have i: "i < length nums"
      using prems(3,4) all by (cases "i = length nums") auto
    define a1 where "a1 = (if nums ! i > 0 then a + nums ! i else a)"
    have a1: "a1 = key_count nums (Suc i)"
    proof -
      have "0 \<le> nums ! i"
        using prems(1) nth_mem [OF i] by blast
      then show ?thesis
        using prems(4) key_count_Suc [OF i] by (simp add: a1_def)
    qed
    define r where "r = (if nums ! i > 0 \<and> a1 > 2 ^ i div 2 then (2 ^ i, a1) else (n, na))"
    have c: "array_choice nums (Suc i) (fst r) (snd r)"
      using prems(6) array_choice_mono [OF prems(6), of "Suc i"]
      by (auto simp: r_def a1 array_choice_def)
    have step: "computesizes_loop nums narray i a na n =
        (if a1 = narray then r else computesizes_loop nums narray (i + 1) a1 (snd r) (fst r))"
      using True by (simp add: computesizes_loop.simps [of nums narray i] Let_def r_def a1_def)
    show ?thesis
    proof (cases "a1 = narray")
      case True
      then show ?thesis
        using prems(7) step c array_choice_mono [OF c, of "length nums"] i by (cases r) auto
    next
      case False
      have "a1 \<le> narray"
        using key_count_mono [OF prems(1), of "Suc i" "length nums"] i all a1 by simp
      then have lt: "a1 < narray"
        using False by simp
      show ?thesis
      proof (rule "1.IH" [OF refl True a1_def r_def])
        show "(fst r, snd r) = r" "a1 \<noteq> narray"
          using False by simp_all
        show "computesizes_loop nums narray (i + 1) a1 (snd r) (fst r) = (n', na')"
          using prems(7) step False by simp
      qed (use lt a1 i c prems(1,2) in auto)
    qed
  qed
qed

lemma tally_sum: "j \<le> 27 \<Longrightarrow> (\<Sum>i<j. tally ks i) = length (filter (\<lambda>k. countable_key k \<and> slice k < j) ks)"
proof (induction j)
  case (Suc j)
  have "length (filter (\<lambda>k. countable_key k \<and> slice k < Suc j) ks) =
      length (filter (\<lambda>k. countable_key k \<and> slice k < j) ks) + tally ks j"
    unfolding tally_def by (induction ks) (auto simp: less_Suc_eq)
  then show ?case
    using Suc by simp
qed simp

text \<open>When \<open>nums\<close> counts the keys \<open>ks\<close>, a prefix of it counts the keys of an array of that size.\<close>

lemma key_count_tally:
  assumes "length nums = 27" "\<forall>j < 27. nums ! j = int (tally ks j)" "j \<le> 27"
  shows "key_count nums j = int (length (filter (\<lambda>k. countable_key k \<and> slice k < j) ks))"
proof -
  have "key_count nums j = (\<Sum>i<j. nums ! i)"
    using assms(1,3) by (simp add: key_count_def sum_list_sum_nth lessThan_atLeast0)
  also have "\<dots> = int (\<Sum>i<j. tally ks i)"
    using assms(2,3) by simp
  finally show ?thesis
    by (simp only: tally_sum [OF assms(3)])
qed

lemma computesizes_spec:
  assumes "length nums = 27" "\<forall>j < 27. nums ! j = int (tally ks j)"
    "narray = int (length (filter countable_key ks))" "computesizes nums narray = (n, na)"
  shows "0 \<le> n \<and> n \<le> MAXASIZE \<and> na = int (length (filter (\<lambda>k. 0 < k \<and> k \<le> n) ks))"
proof -
  have "filter (\<lambda>k. countable_key k \<and> slice k < 27) ks = filter countable_key ks"
    using slice_less by (auto intro: filter_cong)
  then have "sum_list nums = narray"
    using key_count_tally [OF assms(1,2), of 27] assms(1,3) by (simp add: key_count_def)
  moreover have "\<forall>x \<in> set nums. 0 \<le> x"
    using assms(1,2) by (auto simp: in_set_conv_nth)
  moreover have "array_choice nums 0 0 0" "0 = key_count nums 0"
    by (simp_all add: array_choice_def key_count_def)
  moreover have "0 < narray \<or> narray = 0"
    unfolding assms(3) by linarith
  ultimately have "array_choice nums (length nums) n na"
    using computesizes_loop_spec [of nums narray 0 0 0 0 n na] assms(4)
    by (auto simp: computesizes_def)
  then consider "n = 0" "na = 0" | j where "j < 27" "n = 2 ^ j" "na = key_count nums (Suc j)"
    using assms(1) by (auto simp: array_choice_def)
  then show ?thesis
  proof cases
    case 1
    then show ?thesis
      by (auto simp: filter_empty_conv)
  next
    case 2
    have "n \<le> 2 ^ 26"
      unfolding 2(2) using 2(1) by (intro power_increasing) auto
    moreover have "countable_key k \<and> slice k < Suc j \<longleftrightarrow> 0 < k \<and> k \<le> n" for k
      using slice_le_iff [of k j] calculation 2(2) by (auto simp: countable_key_def less_Suc_eq_le)
    ultimately show ?thesis
      using key_count_tally [OF assms(1,2), of "Suc j"] 2 by simp
  qed
qed

section \<open>Growing for one more key\<close>

text \<open>The number of entries with a value.\<close>

definition entries :: "Table \<Rightarrow> nat" where
  "entries t = length (filter (\<lambda>v. v \<noteq> Nil) (array t)) + length (filter (\<lambda>n. gval n \<noteq> Nil) (node t))"

lemma hash_ints_rev: "hash_ints (rev ns) = rev (hash_ints ns)"
  by (simp add: hash_ints_def rev_filter rev_map)

lemma tally_rev [simp]: "tally (rev ks) j = tally ks j"
  by (simp add: tally_def rev_filter [symmetric])

lemma rehoused_count:
  assumes "0 \<le> na"
  shows "rehoused t na + length (filter (\<lambda>k. 0 < k \<and> k \<le> na)
      (arr_ints (array t) 1 (length (array t)) @ hash_ints (node t))) = entries t"
proof -
  let ?A = "array t" and ?n = "min (nat na) (length (array t))"
  have "arr_ints ?A 1 (length ?A) = arr_ints ?A 1 ?n @ arr_ints ?A (?n + 1) (length ?A)"
    by (rule arr_ints_split) auto
  moreover have "filter (\<lambda>k. 0 < k \<and> k \<le> na) (arr_ints ?A 1 ?n) = arr_ints ?A 1 ?n"
    by (auto simp: filter_id_conv arr_ints_def)
  moreover have "filter (\<lambda>k. 0 < k \<and> k \<le> na) (arr_ints ?A (?n + 1) (length ?A)) = []"
    using assms by (auto simp: filter_empty_conv arr_ints_def min_def split: if_splits)
  ultimately have "length (filter (\<lambda>k. 0 < k \<and> k \<le> na) (arr_ints ?A 1 (length ?A))) = length (arr_ints ?A 1 ?n)"
    by simp
  also have "\<dots> = length (filter (\<lambda>v. v \<noteq> Nil) (take (nat na) ?A))"
  proof -
    have "arr_ints ?A 1 ?n = arr_ints (take (nat na) ?A) 1 (length (take (nat na) ?A))"
      by (auto simp: arr_ints_def min.commute intro!: filter_cong arg_cong [where f = "map int"])
    then show ?thesis
      using arr_ints_length [of "take (nat na) ?A"] by simp
  qed
  finally have a: "length (filter (\<lambda>k. 0 < k \<and> k \<le> na) (arr_ints ?A 1 (length ?A))) +
      length (filter (\<lambda>v. v \<noteq> Nil) (drop (nat na) ?A)) = length (filter (\<lambda>v. v \<noteq> Nil) ?A)"
    by (metis append_take_drop_id filter_append length_append)
  have h: "length (filter (\<lambda>k. 0 < k \<and> k \<le> na) (hash_ints ns)) +
      length (filter (\<lambda>n. gval n \<noteq> Nil \<and> \<not> (0 < arrayindex (gkey n) \<and> arrayindex (gkey n) \<le> na)) ns) =
      length (filter (\<lambda>n. gval n \<noteq> Nil) ns)" for ns
    by (induction ns) (auto simp: hash_ints_def)
  show ?thesis
    using a h [of "node t"] by (simp add: rehoused_def entries_def)
qed

lemma rehash_ok:
  assumes ok: "table_ok hs t" and nk: "newkey_like hs nk" and fr: "\<forall>a b. fr a b"
    and room: "entries t < 2 ^ 26"
  shows "\<exists>t'. rehash hs fr nk t ek = Some (t', Inr ()) \<and> table_ok hs t' \<and>
    (in_array t' ek \<or> 1 \<le> free_nodes t') \<and> (\<forall>k. live k \<longrightarrow> tlook t' k = tlook t k)"
proof -
  let ?A = "array t" and ?kA = "arr_ints (array t) 1 (length (array t))" and ?kH = "hash_ints (node t)"
  have lenA: "length ?A \<le> 2 ^ 26"
    using table_okD(8) [OF ok] by (simp add: sizearray_def)
  obtain nums1 n1 where s1: "numusearray t (replicate 27 0) = (nums1, n1)"
    by force
  note S1 = numusearray_spec [OF lenA s1]
  obtain nums2 inc u where s2: "numusehash t nums1 = (nums2, inc, u)"
    by (metis prod_cases3)
  have S2: "length nums2 = 27 \<and> inc = int (length (filter countable_key ?kH)) \<and>
      u = int (length (filter (\<lambda>n. gval n \<noteq> Nil) (node t))) \<and>
      (\<forall>j < 27. nums2 ! j = nums1 ! j + int (tally ?kH j))"
    using numusehash_loop_spec [of nums1 "rev (node t)" 0 0 nums2 inc u] S1 s2
    by (simp add: numusehash_def hash_ints_rev rev_filter [symmetric])
  obtain nums3 c where s3: "countint ek nums2 = (nums3, c)"
    by force
  note S3 = countint_spec [OF conjunct1 [OF S2] s3]
  let ?ks = "?kA @ ?kH @ [arrayindex ek]"
  have "filter countable_key ?kA = ?kA"
    using lenA by (auto simp: filter_id_conv arr_ints_def countable_key_def)
  then have "n1 + inc + c = int (length (filter countable_key ?ks))"
    using S1 S2 S3 arr_ints_length [of ?A] by simp
  moreover have "\<forall>j < 27. nums3 ! j = int (tally ?ks j)"
    using S1 S2 S3 by simp
  moreover obtain n na where s4: "computesizes nums3 (n1 + inc + c) = (n, na)"
    by force
  ultimately have S4: "0 \<le> n" "n \<le> MAXASIZE" "na = int (length (filter (\<lambda>k. 0 < k \<and> k \<le> n) ?ks))"
    using computesizes_spec [of nums3 ?ks] S3 by blast+
  have total: "n1 + u = int (entries t)"
    using S1 S2 by (simp add: entries_def)
  have cnt: "na = int (entries t) - int (rehoused t n) + (if 0 < arrayindex ek \<and> arrayindex ek \<le> n then 1 else 0)"
    using S4(3) rehoused_count [OF S4(1), of t] by (auto simp flip: of_nat_add)
  have nh: "int (rehoused t n) \<le> n1 + u + 1 - na" "n1 + u + 1 - na \<le> MAXASIZE"
    using cnt total room S4(3) by (auto split: if_splits)
  obtain t' where t': "resize hs fr nk t n (n1 + u + 1 - na) = Some (t', Inr ())" "table_ok hs t'"
    "sizearray t' = n" "n1 + u + 1 - na \<le> int (rehoused t n + free_nodes t')"
    "\<forall>k. live k \<longrightarrow> tlook t' k = tlook t k"
    using resize_ok [OF ok nk fr S4(1,2) nh] by blast
  have "in_array t' ek \<or> 1 \<le> free_nodes t'"
    using t'(3,4) cnt total by (auto simp: in_array_def split: if_splits)
  moreover have "rehash hs fr nk t ek = Some (t', Inr ())"
    using s1 s2 s3 s4 t'(1) by (simp add: rehash_def algebra_simps)
  ultimately show ?thesis
    using t' by blast
qed

section \<open>The set operations\<close>

lemma newkey_ok:
  assumes ok: "table_ok hs t" and k: "storable k" "\<not> in_array t k" "\<And>j. \<not> holds_key (node t) j k"
    and fr: "\<forall>a b. fr a b" and room: "entries t < 2 ^ 26"
  shows "\<exists>t' s. newkey hs fr (Suc f) t k = Some (t', Inr s) \<and> s \<noteq> NilObj \<and> slot_for t' k s \<and>
    table_ok hs t' \<and> (\<forall>k'. live k' \<longrightarrow> tlook t' k' = tlook t k') \<and> (flags t = 0 \<longrightarrow> flags t' = 0)"
proof -
  have k': "live k" "luaO_rawequalObj k k"
    using k(1) by (auto simp: storable_def)
  let ?nk = "newkey hs fr f"
  let ?grow = "\<lambda>t. tbind (rehash hs fr ?nk t k) (\<lambda>t _. set_with hs ?nk t k)"
  consider t' j where "newkey_body hs ?grow t k = Some (t', Inr (NodeSlot j))" "inserted hs t k t' j"
    | lf where "free_nodes t = 0" "lf < 0" "newkey_body hs ?grow t k = ?grow (t\<lparr>lastfree := lf\<rparr>)"
    using newkey_body_cases [OF ok k' k(2,3), of ?grow] by blast
  then show ?thesis
  proof cases
    case 1
    then have "slot_for t' k (NodeSlot j)"
      using k(2) k'(2) same_shapeD [of t t' hs] table_okD(2) [of hs t']
      by (simp add: slot_for_def holds_key_def inserted_def)
    then show ?thesis
      using 1 by (auto simp: inserted_def)
  next
    case 2
    let ?t = "t\<lparr>lastfree := lf\<rparr>"
    have sh: "same_shape t ?t"
      by (simp add: same_shape_def)
    note S = same_shapeD [OF sh]
    have "gkey (node t ! i) \<noteq> Nil" if "\<not> dummy t" "i < sizenode t" for i
      using free_nodes_pos_iff [OF ok] 2(1) that by auto
    then have ok': "table_ok hs ?t"
      using ok 2(2) S [of hs] unfolding table_ok_def by auto
    have look: "tlook ?t = tlook t"
      using S [of hs] by (auto simp: fun_eq_iff tlook_def)
    have "entries ?t < 2 ^ 26"
      using room by (simp add: entries_def)
    from rehash_ok [OF ok' newkey_like_newkey fr this] obtain t1 where
      t1: "rehash hs fr ?nk ?t k = Some (t1, Inr ())" "table_ok hs t1" "in_array t1 k \<or> 1 \<le> free_nodes t1"
      "\<forall>k. live k \<longrightarrow> tlook t1 k = tlook ?t k"
      by blast
    from set_with_stored [OF t1(2) k(1) newkey_like_newkey t1(3)] obtain t2 s where
      "set_with hs ?nk t1 k = Some (t2, Inr s)" "s \<noteq> NilObj" "slot_for t2 k s" "table_ok hs t2" "flags t2 = 0"
      "\<forall>k'. live k' \<longrightarrow> tlook t2 k' = tlook t1 k'"
      by blast
    then show ?thesis
      using 2(3) t1 look by auto
  qed
qed

text \<open>What each of the three set operations promises on a key that can be stored.\<close>

definition set_done :: "(addr \<Rightarrow> u32) \<Rightarrow> Table \<Rightarrow> tvalue \<Rightarrow> tvalue \<Rightarrow> slot tres \<Rightarrow> bool" where
  "set_done hs t k v r \<longleftrightarrow> (case r of
      Some (t', Inr s) \<Rightarrow> s \<noteq> NilObj \<and> table_ok hs t' \<and> read_slot t' s = tlook t k \<and>
        table_ok hs (write_slot t' s v) \<and>
        (\<forall>k'. live k' \<longrightarrow> tlook (write_slot t' s v) k' = (if luaO_rawequalObj k k' then v else tlook t k'))
    | _ \<Rightarrow> False)"

lemma set_done_flags: "set_done hs (t\<lparr>flags := f\<rparr>) k v r = set_done hs t k v r"
  unfolding set_done_def flags_irrelevant ..

lemma set_doneI:
  assumes "table_ok hs t" "storable k" "slot_for t' k s" "s \<noteq> NilObj" "table_ok hs t'"
    "\<forall>k'. live k' \<longrightarrow> tlook t' k' = tlook t k'"
  shows "set_done hs t k v (Some (t', Inr s))"
proof -
  have l: "live k"
    using assms(2) by (simp add: storable_def)
  show ?thesis
    using assms write_slot_stored [OF assms(5) l assms(3,4), of v] slot_for_read [OF assms(5) l assms(3)] l
    by (simp add: set_done_def)
qed

lemma grow_set_done:
  assumes ok: "table_ok hs t" and k: "storable k" and fr: "\<forall>a b. fr a b" and room: "entries t < 2 ^ 26"
    and p: "slot_for t k p"
  shows "set_done hs t k v (if p \<noteq> NilObj then Some (t, Inr p) else newkey hs fr (Suc f) t k)"
proof (cases "p = NilObj")
  case False
  then show ?thesis
    using set_doneI [OF ok k p _ ok] by simp
next
  case True
  then have "\<not> in_array t k" "\<And>j. \<not> holds_key (node t) j k"
    using p by (auto simp: slot_for_def)
  from newkey_ok [OF ok k this fr room, of f] obtain t' s where
    "newkey hs fr (Suc f) t k = Some (t', Inr s)" "s \<noteq> NilObj" "slot_for t' k s"
    "table_ok hs t'" "\<forall>k'. live k' \<longrightarrow> tlook t' k' = tlook t k'"
    by blast
  then show ?thesis
    using True set_doneI [OF ok k] by simp
qed

lemma luaH_set_done:
  assumes ok: "table_ok hs t" and k: "storable k" and fr: "\<forall>a b. fr a b" and room: "entries t < 2 ^ 26"
  shows "set_done hs t k v (luaH_set hs fr (Suc f) t k)"
proof -
  let ?t = "t\<lparr>flags := 0\<rparr>"
  have l: "live k"
    using k by (simp add: storable_def)
  have "luaH_set hs fr (Suc f) t k =
      (if luaH_get hs t k \<noteq> NilObj then Some (?t, Inr (luaH_get hs t k)) else newkey hs fr (Suc f) ?t k)"
    using k by (auto simp: luaH_set_def set_with_def storable_iff split: tvalue.split)
  moreover have "set_done hs ?t k v
      (if luaH_get hs t k \<noteq> NilObj then Some (?t, Inr (luaH_get hs t k)) else newkey hs fr (Suc f) ?t k)"
    using grow_set_done [of hs ?t k fr "luaH_get hs t k" v f] get_slot [OF ok l] ok k fr room
    by (simp add: table_ok_flags entries_def)
  ultimately show ?thesis
    by (simp only: set_done_flags)
qed

lemma luaH_setnum_done:
  assumes ok: "table_ok hs t" and i: "INT_MIN \<le> i" "i \<le> INT_MAX" and fr: "\<forall>a b. fr a b"
    and room: "entries t < 2 ^ 26"
  shows "set_done hs t (Number (cast_num i)) v (luaH_setnum hs fr (Suc f) t i)"
proof -
  have "storable (Number (cast_num i))"
    using cast_num_not_nan [of i] i by (simp add: storable_iff luai_numisnan_iff)
  from grow_set_done [OF ok this fr room getnum_slot [OF ok i], of v f] show ?thesis
    by (simp add: luaH_setnum_def setnum_with_def Let_def)
qed

lemma luaH_setstr_done:
  assumes ok: "table_ok hs t" and fr: "\<forall>a b. fr a b" and room: "entries t < 2 ^ 26"
  shows "set_done hs t (Str s) v (luaH_setstr hs fr (Suc f) t s)"
proof -
  have k: "storable (Str s)"
    by (simp add: storable_iff)
  have "slot_for t (Str s) (luaH_getstr hs t s)"
    using get_slot [OF ok, of "Str s"] by (simp add: luaH_get_def live_def)
  from grow_set_done [OF ok k fr room this, of v f] show ?thesis
    by (simp add: luaH_setstr_def setstr_with_def Let_def)
qed

lemma luaH_new_ok:
  assumes "\<forall>a b. fr a b" "0 \<le> narray" "narray \<le> 2 ^ 26" "0 \<le> nhash" "nhash \<le> 2 ^ 26"
  shows "\<exists>t. luaH_new fr narray nhash = Some (t, Inr ()) \<and> table_ok hs t \<and> entries t = 0 \<and>
    sizearray t = narray \<and> (\<forall>k. live k \<longrightarrow> tlook t k = Nil)"
proof -
  let ?t = "\<lparr>flags = NOT 0, array = [], lsizenode = 0, node = [dummynode], dummy = True, lastfree = 0\<rparr>"
  let ?u = "?t\<lparr>array := replicate (nat narray) Nil\<rparr>"
  have "setarrayvector fr ?t narray = Some (?u, Inr ())"
    using setarrayvector_ok [of fr ?t narray] assms by (simp add: sizearray_def)
  moreover obtain t where t: "setnodevector fr ?u nhash = Some (t, Inr ())" "fresh_nodes t" "array t = array ?u"
    using setnodevector_ok [OF assms(1,4), of ?u] assms(5) by blast
  moreover have sz: "sizearray t = narray"
    using t(3) assms by (simp add: sizearray_def)
  moreover have "tlook t k = Nil" if "live k" for k
    using fresh_nodes_ok(2) [OF t(2) _ that] sz assms(3) t(3)
    by (auto simp: tlook_def in_array_def)
  moreover have "filter (\<lambda>n. gval n \<noteq> Nil) (node t) = []"
    using t(2) by (auto simp: filter_empty_conv fresh_nodes_def dummynode_def)
  ultimately show ?thesis
    using fresh_nodes_ok(1) [OF t(2)] assms(3)
    by (intro exI [of _ t]) (simp add: luaH_new_def entries_def)
qed

end
