(* ===== verification/Lua_Table_Spec.thy ===== *)
theory Lua_Table_Spec
  imports Lua_Table_Rehash
begin

text \<open>
  What a table (\<^verbatim>\<open>src/src/ltable.c\<close>) promises: it is a finite map from keys to values that are not
  nil, where the keys are taken up to raw equality (only 0 and -0 are equal and different). The
  section on the interface states this as a locale, for the users of tables.
\<close>

section \<open>The map of a table\<close>

definition canon :: "tvalue \<Rightarrow> tvalue" where
  "canon k = (case k of Number n \<Rightarrow> if luai_numeq n 0 then Number 0 else k | _ \<Rightarrow> k)"

definition table_map :: "Table \<Rightarrow> tvalue \<Rightarrow> tvalue option" where
  "table_map t c = (if storable c \<and> canon c = c \<and> tlook t c \<noteq> Nil then Some (tlook t c) else None)"

lemma zero_numeq: "luai_numeq 0 0"
  using num_mag_0 by (simp add: luai_numeq_iff)

lemma canon_rawequal: "storable k \<Longrightarrow> luaO_rawequalObj (canon k) k"
  using zero_numeq
  by (cases k) (auto simp: canon_def storable_def luaO_rawequalObj_def luai_numeq_sym)

lemma canon_eq_iff:
  assumes "storable k" "storable k'" shows "canon k = canon k' \<longleftrightarrow> luaO_rawequalObj k k'"
proof
  assume "canon k = canon k'"
  then show "luaO_rawequalObj k k'"
    using canon_rawequal [OF assms(1)] canon_rawequal [OF assms(2)] rawequal_sym rawequal_trans by metis
next
  assume "luaO_rawequalObj k k'"
  then consider "k = k'" | m n where "k = Number m" "k' = Number n" "luai_numeq m n"
    by (auto simp: rawequal_cases)
  then show "canon k = canon k'"
  proof cases
    case 2
    have z: "luai_numeq m 0 \<longleftrightarrow> luai_numeq n 0"
      using 2(3) luai_numeq_trans luai_numeq_sym by blast
    moreover have "m = n" if "\<not> luai_numeq m 0"
      using 2(3) z that num_mag_0 by (auto simp: luai_numeq_iff)
    ultimately show ?thesis
      using 2 by (auto simp: canon_def)
  qed simp
qed

lemma storable_canon: "storable k \<Longrightarrow> storable (canon k)"
  using zero_numeq by (cases k) (auto simp: canon_def storable_def luaO_rawequalObj_def live_def)

lemma canon_canon: "storable k \<Longrightarrow> canon (canon k) = canon k"
  using canon_eq_iff canon_rawequal storable_canon by blast

lemma storable_live: "storable k \<Longrightarrow> live k"
  by (simp add: storable_def)

lemma table_map_canon:
  "storable k \<Longrightarrow> table_map t (canon k) = (if tlook t k = Nil then None else Some (tlook t k))"
  using tlook_rawequal [OF canon_rawequal, of k t] storable_canon canon_canon by (simp add: table_map_def)

lemma tlook_unstorable: "live k \<Longrightarrow> \<not> storable k \<Longrightarrow> tlook t k = Nil"
proof -
  assume k: "live k" "\<not> storable k"
  then have "\<not> luaO_rawequalObj k k"
    by (simp add: storable_def)
  then have "\<not> holds_key (node t) j k" for j
    using not_holds_nan by blast
  moreover have "\<not> in_array t k"
    using k by (cases k) (auto simp: storable_def luaO_rawequalObj_def in_array_def arrayindex_def Let_def
        luai_numeq_iff live_def split: if_splits)
  ultimately show ?thesis
    by (simp add: tlook_def nlook_none)
qed

text \<open>Storing a value is an update of the map, or a removal when the value is nil.\<close>

lemma table_map_update:
  assumes "storable k" "\<forall>k'. live k' \<longrightarrow> tlook t' k' = (if luaO_rawequalObj k k' then v else tlook t k')"
  shows "table_map t' = (table_map t)(canon k := (if v = Nil then None else Some v))"
proof
  fix c
  show "table_map t' c = ((table_map t)(canon k := (if v = Nil then None else Some v))) c"
  proof (cases "storable c \<and> canon c = c")
    case True
    then have "luaO_rawequalObj k c \<longleftrightarrow> c = canon k"
      using canon_eq_iff [OF assms(1)] by metis
    then show ?thesis
      using True assms(2) storable_live [of c] by (auto simp: table_map_def)
  next
    case False
    then have "c \<noteq> canon k"
      using storable_canon canon_canon assms(1) by blast
    then show ?thesis
      using False by (auto simp: table_map_def)
  qed
qed

section \<open>The entries of a table\<close>

text \<open>The entries in the order of the traversal.\<close>

definition array_entries :: "tvalue list \<Rightarrow> (tvalue \<times> tvalue) list" where
  "array_entries arr = filter (\<lambda>(k, v). v \<noteq> Nil)
     (map (\<lambda>i. (Number (cast_num (int i + 1)), arr ! i)) [0..<length arr])"

definition node_entries :: "Node list \<Rightarrow> (tvalue \<times> tvalue) list" where
  "node_entries ns = map (\<lambda>n. (gkey n, gval n)) (filter (\<lambda>n. gval n \<noteq> Nil) ns)"

definition table_entries :: "Table \<Rightarrow> (tvalue \<times> tvalue) list" where
  "table_entries t = array_entries (array t) @ node_entries (node t)"

lemma array_key:
  assumes "table_ok hs t" "i < length (array t)"
  shows "storable (Number (cast_num (int i + 1)))" "arrayindex (Number (cast_num (int i + 1))) = int i + 1"
    "in_array t (Number (cast_num (int i + 1)))"
    "tlook t (Number (cast_num (int i + 1))) = array t ! i"
proof -
  have i: "INT_MIN \<le> int i + 1" "int i + 1 \<le> INT_MAX"
    using assms table_okD(8) [OF assms(1)] by (auto simp: sizearray_def INT_MIN_def)
  then show "storable (Number (cast_num (int i + 1)))" "arrayindex (Number (cast_num (int i + 1))) = int i + 1"
    using cast_num_not_nan arrayindex_cast_num by (auto simp: storable_iff luai_numisnan_iff)
  then show "in_array t (Number (cast_num (int i + 1)))"
    "tlook t (Number (cast_num (int i + 1))) = array t ! i"
    using assms(2) by (auto simp: in_array_def sizearray_def tlook_def)
qed

lemma table_entries_lookup:
  assumes ok: "table_ok hs t" and kv: "(k, v) \<in> set (table_entries t)"
  shows "storable k \<and> tlook t k = v \<and> v \<noteq> Nil"
proof -
  note T = table_okD [OF ok]
  from kv consider i where "i < length (array t)" "k = Number (cast_num (int i + 1))" "v = array t ! i" "v \<noteq> Nil"
    | j where "j < length (node t)" "k = gkey (node t ! j)" "v = gval (node t ! j)" "v \<noteq> Nil"
    by (auto simp: table_entries_def array_entries_def node_entries_def in_set_conv_nth)
  then show ?thesis
  proof cases
    case 1
    then show ?thesis
      using array_key [OF ok 1(1)] by simp
  next
    case 2
    have l: "live k"
      using 2 nodes_okD(5) [OF T(3), of j] by auto
    have st: "storable k"
      using l nodes_okD(6) [OF T(3), of j] 2 by (simp add: storable_def)
    have "holds_key (node t) j k"
      using 2 st by (simp add: holds_key_def storable_def)
    moreover have "\<not> in_array t k"
      using T(2,9) 2 l by simp
    ultimately show ?thesis
      using 2 st nlook_holds [OF T(3) l] by (simp add: tlook_def)
  qed
qed

lemma table_entries_complete:
  assumes ok: "table_ok hs t" and k: "live k" "tlook t k \<noteq> Nil"
  shows "\<exists>k'. luaO_rawequalObj k' k \<and> (k', tlook t k) \<in> set (table_entries t)"
proof (cases "in_array t k")
  case True
  define i where "i = nat (arrayindex k - 1)"
  have i: "i < length (array t)" "arrayindex k = int i + 1"
    using True by (auto simp: in_array_def sizearray_def i_def)
  have "luaO_rawequalObj k (Number (cast_num (int i + 1)))"
    using arrayindex_pos_iff [of "int i + 1" k] i arrayindex_range [of k] by simp
  moreover have "tlook t k = array t ! i"
    using True by (simp add: tlook_def i_def)
  ultimately show ?thesis
    using i(1) k(2) unfolding table_entries_def array_entries_def
    by (intro exI [of _ "Number (cast_num (int i + 1))"]) (auto simp: rawequal_sym)
next
  case False
  then have "nlook (node t) k \<noteq> Nil"
    using k by (simp add: tlook_def)
  then obtain j where j: "holds_key (node t) j k"
    using nlook_none by blast
  have "tlook t k = gval (node t ! j)"
    using False nlook_holds [OF table_okD(3) [OF ok] k(1) j] by (simp add: tlook_def)
  then show ?thesis
    using j k(2) unfolding table_entries_def node_entries_def holds_key_def
    by (intro exI [of _ "gkey (node t ! j)"]) auto
qed

text \<open>No two entries have equal keys.\<close>

lemma table_entries_distinct:
  assumes ok: "table_ok hs t"
  shows "distinct (map (\<lambda>(k, v). canon k) (table_entries t))"
proof -
  note T = table_okD [OF ok]
  let ?A = "map (\<lambda>i. (Number (cast_num (int i + 1)), array t ! i)) [0..<length (array t)]"
  let ?c = "\<lambda>(k :: tvalue, v :: tvalue). canon k"
  have ai: "arrayindex k = arrayindex k'" if "canon k = canon k'" "storable k" "storable k'" for k k'
    using that canon_eq_iff arrayindex_rawequal by blast
  have "inj_on (\<lambda>i. canon (Number (cast_num (int i + 1)))) {0..<length (array t)}"
  proof (rule inj_onI)
    fix i j assume ij: "i \<in> {0..<length (array t)}" "j \<in> {0..<length (array t)}"
      and c: "canon (Number (cast_num (int i + 1))) = canon (Number (cast_num (int j + 1)))"
    note Ki = array_key [OF ok, of i] and Kj = array_key [OF ok, of j]
    have "int i + 1 = int j + 1"
      using ai [OF c Ki(1) Kj(1)] Ki(2) Kj(2) ij by simp
    then show "i = j"
      by simp
  qed
  then have "distinct (map ?c ?A)"
    by (simp add: distinct_map comp_def inj_on_def)
  then have a: "distinct (map ?c (array_entries (array t)))"
    unfolding array_entries_def by (rule distinct_map_filter)
  have n: "distinct (map ?c (node_entries (node t)))"
  proof -
    have "map ?c (node_entries (node t)) = map (\<lambda>n. canon (gkey n)) (filter (\<lambda>n. gval n \<noteq> Nil) (node t))"
      by (simp add: node_entries_def)
    moreover have "distinct (map (\<lambda>n. canon (gkey n)) (filter (\<lambda>n. gval n \<noteq> Nil) (rev (node t))))"
      unfolding distinct_conv_nth
    proof (intro allI impI)
      let ?F = "filter (\<lambda>n. gval n \<noteq> Nil) (rev (node t))"
      fix i j assume ij: "i < length (map (\<lambda>n. canon (gkey n)) ?F)" "j < length (map (\<lambda>n. canon (gkey n)) ?F)" "i \<noteq> j"
      have st: "storable (gkey (?F ! m))" if "m < length ?F" for m
      proof -
        have "?F ! m \<in> set ?F"
          using that by (rule nth_mem)
        then have "?F ! m \<in> set (node t)" "gval (?F ! m) \<noteq> Nil"
          by auto
        then show ?thesis
          using nodes_okD(5,6) [OF T(3)] by (metis in_set_conv_nth storable_def)
      qed
      have "\<not> luaO_rawequalObj (gkey (?F ! i)) (gkey (?F ! j))"
      proof (cases "i < j")
        case True
        then show ?thesis
          using sorted_wrt_nth_less [OF sorted_wrt_nodes [OF T(3)], of i j] ij by simp
      next
        case False
        then show ?thesis
          using sorted_wrt_nth_less [OF sorted_wrt_nodes [OF T(3)], of j i] ij by (simp add: rawequal_sym)
      qed
      then show "map (\<lambda>n. canon (gkey n)) ?F ! i \<noteq> map (\<lambda>n. canon (gkey n)) ?F ! j"
        using ij canon_eq_iff [OF st st] by simp
    qed
    ultimately show ?thesis
      by (simp add: rev_filter [symmetric] rev_map [symmetric])
  qed
  have "canon k \<noteq> canon k'" if "(k, v) \<in> set (array_entries (array t))" "(k', v') \<in> set (node_entries (node t))" for k v k' v'
  proof
    assume c: "canon k = canon k'"
    have "storable k" "storable k'"
      using table_entries_lookup [OF ok] that by (auto simp: table_entries_def)
    then have r: "luaO_rawequalObj k k'"
      using c canon_eq_iff by blast
    have "in_array t k"
      using that(1) array_key(3) [OF ok] by (auto simp: array_entries_def)
    then have "in_array t k'"
      using in_array_rawequal [OF r] by simp
    moreover have "\<not> in_array t k'"
      using that(2) T(2,9) storable_live [OF \<open>storable k'\<close>]
      by (auto simp: node_entries_def in_set_conv_nth)
    ultimately show False
      by blast
  qed
  then have "set (map ?c (array_entries (array t))) \<inter> set (map ?c (node_entries (node t))) = {}"
    by fastforce
  then show ?thesis
    using a n by (simp add: table_entries_def)
qed

lemma table_map_entries:
  assumes ok: "table_ok hs t"
  shows "table_map t c = Some v \<longleftrightarrow> (\<exists>k. canon k = c \<and> (k, v) \<in> set (table_entries t))"
proof
  assume "table_map t c = Some v"
  then have c: "storable c" "canon c = c" "tlook t c = v" "v \<noteq> Nil"
    by (auto simp: table_map_def split: if_splits)
  obtain k where k: "luaO_rawequalObj k c" "(k, v) \<in> set (table_entries t)"
    using table_entries_complete [OF ok storable_live [OF c(1)]] c by auto
  then show "\<exists>k. canon k = c \<and> (k, v) \<in> set (table_entries t)"
    using table_entries_lookup [OF ok k(2)] canon_eq_iff [of k c] c by auto
next
  assume "\<exists>k. canon k = c \<and> (k, v) \<in> set (table_entries t)"
  then obtain k where k: "canon k = c" "(k, v) \<in> set (table_entries t)"
    by blast
  then show "table_map t c = Some v"
    using table_entries_lookup [OF ok k(2)] table_map_canon [of k t] by auto
qed

lemma map_snd_filter: "map snd (filter (\<lambda>(k, v). P v) xs) = filter P (map snd xs)"
  by (induction xs) auto

lemma entries_length: "entries t = length (table_entries t)"
proof -
  have "length (array_entries arr) = length (filter (\<lambda>v. v \<noteq> Nil) arr)" for arr
  proof -
    have "map snd (map (\<lambda>i. (Number (cast_num (int i + 1)), arr ! i)) [0..<length arr]) = arr"
      by (simp add: comp_def map_nth)
    then have "filter (\<lambda>v. v \<noteq> Nil) arr = map snd (array_entries arr)"
      unfolding array_entries_def map_snd_filter by simp
    then show ?thesis
      by simp
  qed
  then show ?thesis
    by (simp add: entries_def table_entries_def node_entries_def)
qed

lemma entries_card: "table_ok hs t \<Longrightarrow> finite (dom (table_map t)) \<and> entries t = card (dom (table_map t))"
proof -
  assume ok: "table_ok hs t"
  have d: "dom (table_map t) = set (map (\<lambda>(k, v). canon k) (table_entries t))"
    using table_map_entries [OF ok] by (force simp: dom_def)
  show ?thesis
    unfolding d entries_length using distinct_card [OF table_entries_distinct [OF ok]] by simp
qed

end
