(* ===== verification/Lua_Table_Props.thy ===== *)
theory Lua_Table_Props
  imports Lua_Table_Spec
begin

text \<open>
  The properties of tables (\<^verbatim>\<open>src/src/ltable.c\<close>) and of the functions of \<^verbatim>\<open>src/src/lapi.c\<close> that
  reach them without metamethods, with the interface \<open>raw_array\<close> through which the table library
  uses them.
\<close>

section \<open>Raw access\<close>

text \<open>\<open>lua_rawget\<close>, \<open>lua_rawgeti\<close>, \<open>lua_rawset\<close> and \<open>lua_rawseti\<close> without the stack they use.\<close>

definition lua_rawget :: "(addr \<Rightarrow> u32) \<Rightarrow> Table \<Rightarrow> tvalue \<Rightarrow> tvalue" where
  "lua_rawget hs t k = read_slot t (luaH_get hs t k)"

definition lua_rawgeti :: "Table \<Rightarrow> int \<Rightarrow> tvalue" where
  "lua_rawgeti t n = read_slot t (luaH_getnum t n)"

text \<open>A run that does not come back is an error here; lemma \<open>rawset_ok\<close> shows it is not taken.\<close>

definition assign :: "slot tres \<Rightarrow> tvalue \<Rightarrow> (Table \<times> unit result) option" where
  "assign r v = tbind r (\<lambda>t s. Some (write_slot t s v, Inr ()))"

definition lua_rawset ::
  "(addr \<Rightarrow> u32) \<Rightarrow> (u64 \<Rightarrow> u64 \<Rightarrow> bool) \<Rightarrow> nat \<Rightarrow> Table \<Rightarrow> tvalue \<Rightarrow> tvalue \<Rightarrow> unit tres" where
  "lua_rawset hs fr f t k v = assign (luaH_set hs fr f t k) v"

definition lua_rawseti ::
  "(addr \<Rightarrow> u32) \<Rightarrow> (u64 \<Rightarrow> u64 \<Rightarrow> bool) \<Rightarrow> nat \<Rightarrow> Table \<Rightarrow> int \<Rightarrow> tvalue \<Rightarrow> unit tres" where
  "lua_rawseti hs fr f t n v = assign (luaH_setnum hs fr f t n) v"

lemma rawget_tlook: "table_ok hs t \<Longrightarrow> live k \<Longrightarrow> lua_rawget hs t k = tlook t k"
  unfolding lua_rawget_def by (rule slot_for_read [OF _ _ get_slot])

lemma rawgeti_tlook:
  "table_ok hs t \<Longrightarrow> INT_MIN \<le> i \<Longrightarrow> i \<le> INT_MAX \<Longrightarrow> lua_rawgeti t i = tlook t (Number (cast_num i))"
  unfolding lua_rawgeti_def by (rule slot_for_read [OF _ _ getnum_slot]) (auto simp: live_def)

lemma assign_done:
  assumes "storable k" "set_done hs t k v r"
  shows "\<exists>t'. assign r v = Some (t', Inr ()) \<and> table_ok hs t' \<and>
    table_map t' = (table_map t)(canon k := (if v = Nil then None else Some v))"
proof -
  obtain t' x where "r = Some (t', x)"
    using assms(2) by (cases r) (auto simp: set_done_def)
  with assms(2) obtain s where "r = Some (t', Inr s)"
    by (cases x) (auto simp: set_done_def)
  then show ?thesis
    using assms(2) table_map_update [OF assms(1), of "write_slot t' s v" v t]
    by (simp add: set_done_def assign_def)
qed

lemma rawset_ok:
  assumes "table_ok hs t" "storable k" "\<forall>a b. fr a b" "entries t < 2 ^ 26"
  shows "\<exists>t'. lua_rawset hs fr (Suc f) t k v = Some (t', Inr ()) \<and> table_ok hs t' \<and>
    table_map t' = (table_map t)(canon k := (if v = Nil then None else Some v))"
  unfolding lua_rawset_def by (intro assign_done luaH_set_done assms)

lemma rawseti_ok:
  assumes "table_ok hs t" "INT_MIN \<le> i" "i \<le> INT_MAX" "\<forall>a b. fr a b" "entries t < 2 ^ 26"
  shows "\<exists>t'. lua_rawseti hs fr (Suc f) t i v = Some (t', Inr ()) \<and> table_ok hs t' \<and>
    table_map t' = (table_map t)(canon (Number (cast_num i)) := (if v = Nil then None else Some v))"
proof -
  have "storable (Number (cast_num i))"
    using cast_num_not_nan assms(2,3) by (simp add: storable_iff luai_numisnan_iff)
  then show ?thesis
    unfolding lua_rawseti_def by (intro assign_done luaH_setnum_done assms)
qed

lemma entries_update:
  assumes "table_ok hs t" "table_ok hs t'" "table_map t' = (table_map t)(c := v)"
  shows "entries t' \<le> (if table_map t c = None then Suc (entries t) else entries t)"
proof -
  have "dom (table_map t') \<subseteq> insert c (dom (table_map t))"
    using assms(3) by (auto split: if_splits)
  then have "card (dom (table_map t')) \<le> card (insert c (dom (table_map t)))"
    using entries_card [OF assms(1)] by (intro card_mono) auto
  also have "\<dots> \<le> (if table_map t c = None then Suc (card (dom (table_map t))) else card (dom (table_map t)))"
    using entries_card [OF assms(1)] by (auto simp: card_insert_if insert_absorb domI)
  finally show ?thesis
    using entries_card [OF assms(1)] entries_card [OF assms(2)] by (cases "table_map t c") simp_all
qed

section \<open>The interface to integer keys\<close>

text \<open>
  What the table library relies on when it treats a table as an array: reading back what was
  written at an integer key and leaving the other integer keys alone, as long as the table is not
  full. \<open>load\<close> bounds how full it is.
\<close>

locale raw_array =
  fixes inv :: "'t \<Rightarrow> bool" and load :: "'t \<Rightarrow> nat" and cap :: nat
    and geti :: "'t \<Rightarrow> int \<Rightarrow> tvalue"
    and seti :: "'t \<Rightarrow> int \<Rightarrow> tvalue \<Rightarrow> ('t \<times> unit result) option"
  assumes seti: "inv t \<Longrightarrow> load t < cap \<Longrightarrow> INT_MIN \<le> i \<Longrightarrow> i \<le> INT_MAX \<Longrightarrow>
    \<exists>t'. seti t i v = Some (t', Inr ()) \<and> inv t' \<and>
      load t' \<le> (if geti t i = Nil then Suc (load t) else load t) \<and>
      (\<forall>j. INT_MIN \<le> j \<longrightarrow> j \<le> INT_MAX \<longrightarrow> geti t' j = (if j = i then v else geti t j))"

lemma same_int_key:
  assumes "INT_MIN \<le> i" "i \<le> INT_MAX" "INT_MIN \<le> j" "j \<le> INT_MAX"
  shows "canon (Number (cast_num i)) = canon (Number (cast_num j)) \<longleftrightarrow> i = j"
proof -
  have "storable (Number (cast_num k))" if "INT_MIN \<le> k" "k \<le> INT_MAX" for k
    using cast_num_not_nan that by (simp add: storable_iff luai_numisnan_iff)
  then have "canon (Number (cast_num i)) = canon (Number (cast_num j)) \<longleftrightarrow>
      luai_numeq (cast_num i) (cast_num j)"
    using assms by (subst canon_eq_iff) (auto simp: luaO_rawequalObj_def)
  then show ?thesis
    using luai_numeq_cast_num_iff [OF assms] by simp
qed

lemma rawgeti_map:
  assumes "table_ok hs t" "INT_MIN \<le> i" "i \<le> INT_MAX"
  shows "lua_rawgeti t i = (case table_map t (canon (Number (cast_num i))) of None \<Rightarrow> Nil | Some v \<Rightarrow> v)"
proof -
  have "storable (Number (cast_num i))"
    using cast_num_not_nan assms by (simp add: storable_iff luai_numisnan_iff)
  then show ?thesis
    using rawgeti_tlook [OF assms] by (simp add: table_map_canon)
qed

definition granting :: "u64 \<Rightarrow> u64 \<Rightarrow> bool" where
  "granting osize nsize = True"

interpretation tab: raw_array "table_ok hs" entries "2 ^ 26" lua_rawgeti
  "lua_rawseti hs granting (Suc f)" for hs f
proof
  fix t :: Table and i :: int and v :: tvalue
  assume ok: "table_ok hs t" and room: "entries t < 2 ^ 26" and i: "INT_MIN \<le> i" "i \<le> INT_MAX"
  have fr: "\<forall>a b. granting a b"
    by (simp add: granting_def)
  obtain t' where t': "lua_rawseti hs granting (Suc f) t i v = Some (t', Inr ())" "table_ok hs t'"
    "table_map t' = (table_map t)(canon (Number (cast_num i)) := (if v = Nil then None else Some v))"
    using rawseti_ok [OF ok i fr room, of f v] by blast
  have "lua_rawgeti t' j = (if j = i then v else lua_rawgeti t j)" if "INT_MIN \<le> j" "j \<le> INT_MAX" for j
    using rawgeti_map [OF t'(2) that] rawgeti_map [OF ok that] same_int_key [OF i that]
      same_int_key [OF that i] t'(3) by auto
  moreover have "entries t' \<le> (if lua_rawgeti t i = Nil then Suc (entries t) else entries t)"
    using entries_update [OF ok t'(2,3)] rawgeti_map [OF ok i] by (auto split: if_splits)
  ultimately show "\<exists>t'. lua_rawseti hs granting (Suc f) t i v = Some (t', Inr ()) \<and> table_ok hs t' \<and>
      entries t' \<le> (if lua_rawgeti t i = Nil then Suc (entries t) else entries t) \<and>
      (\<forall>j. INT_MIN \<le> j \<longrightarrow> j \<le> INT_MAX \<longrightarrow> lua_rawgeti t' j = (if j = i then v else lua_rawgeti t j))"
    using t' by blast
qed

section \<open>Boundaries\<close>

text \<open>A boundary: no element at 0, and the element after it is nil.\<close>

definition boundary :: "Table \<Rightarrow> int \<Rightarrow> bool" where
  "boundary t n \<longleftrightarrow> 0 \<le> n \<and> n < INT_MAX \<and> (n = 0 \<or> lua_rawgeti t n \<noteq> Nil) \<and> lua_rawgeti t (n + 1) = Nil"

lemma array_boundary_spec:
  "i < j \<Longrightarrow> arr ! (j - 1) = Nil \<Longrightarrow> i = 0 \<or> arr ! (i - 1) \<noteq> Nil \<Longrightarrow>
     i \<le> array_boundary arr i j \<and> array_boundary arr i j < j \<and> arr ! array_boundary arr i j = Nil \<and>
     (array_boundary arr i j = 0 \<or> arr ! (array_boundary arr i j - 1) \<noteq> Nil)"
proof (induction arr i j rule: array_boundary.induct)
  case (1 arr i j)
  show ?case
  proof (cases "j - i > 1")
    case False
    then have "j = Suc i"
      using "1.prems"(1) by simp
    then show ?thesis
      using "1.prems" by (simp add: array_boundary.simps [of arr i])
  next
    case True
    let ?m = "(i + j) div 2"
    have m: "i < ?m" "?m < j"
      using True by auto
    show ?thesis
    proof (cases "arr ! (?m - 1) = Nil")
      case nil: True
      then have "array_boundary arr i j = array_boundary arr i ?m"
        using True by (simp add: array_boundary.simps [of arr i j] Let_def)
      then show ?thesis
        using "1.IH"(1) [OF True refl nil] m nil "1.prems"(3) by auto
    next
      case some: False
      then have "array_boundary arr i j = array_boundary arr ?m j"
        using True by (simp add: array_boundary.simps [of arr i j] Let_def)
      then show ?thesis
        using "1.IH"(2) [OF True refl some] m some "1.prems"(2) by auto
    qed
  qed
qed

lemma sint_small: "0 \<le> i \<Longrightarrow> i \<le> INT_MAX \<Longrightarrow> sint (word_of_int i :: u32) = i"
  by (simp add: sint_sbintrunc' signed_take_bit_int_eq_self)

lemma num_is_nil_iff:
  assumes "0 < i" "i \<le> INT_MAX"
  shows "num_is_nil t (word_of_int i) \<longleftrightarrow> lua_rawgeti t i = Nil"
proof -
  have "sint (word_of_int i :: u32) = i"
    using assms by (intro sint_small) auto
  then show ?thesis
    by (simp add: num_is_nil_def lua_rawgeti_def)
qed

lemma word_int_arith:
  assumes "0 \<le> i" "i \<le> j" "j \<le> INT_MAX"
  shows "uint (word_of_int j :: u32) = j" "(word_of_int j - word_of_int i > (1 :: u32)) \<longleftrightarrow> j - i > 1"
    "(word_of_int i + word_of_int j) div 2 = (word_of_int ((i + j) div 2) :: u32)"
    "sint (word_of_int j :: u32) = j"
proof -
  show j: "uint (word_of_int j :: u32) = j" "sint (word_of_int j :: u32) = j"
    using assms sint_small [of j] by (simp_all add: uint_word_of_int)
  have "uint (word_of_int (j - i) :: u32) = j - i"
    using assms by (simp add: uint_word_of_int del: of_int_diff)
  then show "(word_of_int j - word_of_int i > (1 :: u32)) \<longleftrightarrow> j - i > 1"
    by (simp add: word_less_def)
  have "uint (word_of_int (i + j) :: u32) = i + j"
    using assms by (simp add: uint_word_of_int del: of_int_add)
  moreover have "uint (word_of_int ((i + j) div 2) :: u32) = (i + j) div 2"
    using assms by (simp add: uint_word_of_int)
  ultimately have "uint ((word_of_int (i + j) :: u32) div 2) = uint (word_of_int ((i + j) div 2) :: u32)"
    by (simp add: uint_div_distrib)
  then show "(word_of_int i + word_of_int j) div 2 = (word_of_int ((i + j) div 2) :: u32)"
    by (simp add: word_uint_eq_iff)
qed

lemma binary_search_ok:
  "0 \<le> i \<Longrightarrow> i < j \<Longrightarrow> j \<le> INT_MAX \<Longrightarrow> j - i \<le> 2 ^ f \<Longrightarrow> i = 0 \<or> lua_rawgeti t i \<noteq> Nil \<Longrightarrow>
     lua_rawgeti t j = Nil \<Longrightarrow> \<exists>n. binary_search (Suc f) t (word_of_int i) (word_of_int j) = Some n \<and> boundary t n"
proof (induction f arbitrary: i j)
  case 0
  then have "j = i + 1"
    by simp
  then show ?case
    using 0 word_int_arith(2) [of i j] word_int_arith(4) [of i i]
    by (auto simp: boundary_def)
next
  case (Suc f)
  note W = word_int_arith [of i j]
  show ?case
  proof (cases "j - i > 1")
    case False
    then have "j = i + 1"
      using Suc.prems by simp
    then show ?thesis
      using Suc.prems W(2) word_int_arith(4) [of i i] by (auto simp: boundary_def)
  next
    case True
    let ?m = "(i + j) div 2"
    have m: "0 < ?m" "i < ?m" "?m < j" "?m \<le> INT_MAX" "?m - i \<le> 2 ^ f" "j - ?m \<le> 2 ^ f"
      using True Suc.prems by auto
    have nm: "num_is_nil t (word_of_int ?m) \<longleftrightarrow> lua_rawgeti t ?m = Nil"
      by (rule num_is_nil_iff) (use m in auto)
    have step: "binary_search (Suc (Suc f)) t (word_of_int i) (word_of_int j) =
        (if lua_rawgeti t ?m = Nil then binary_search (Suc f) t (word_of_int i) (word_of_int ?m)
         else binary_search (Suc f) t (word_of_int ?m) (word_of_int j))"
      using True W(2,3) Suc.prems nm by (simp del: binary_search.simps(2)) (simp add: Let_def)
    show ?thesis
    proof (cases "lua_rawgeti t ?m = Nil")
      case nil: True
      then show ?thesis
        using step Suc.IH [of i ?m] m Suc.prems by simp
    next
      case some: False
      then show ?thesis
        using step Suc.IH [of ?m j] m Suc.prems by simp
    qed
  qed
qed

lemma linear_search_ok:
  "0 < i \<Longrightarrow> i \<le> k \<Longrightarrow> k \<le> INT_MAX \<Longrightarrow> lua_rawgeti t k = Nil \<Longrightarrow> i = 1 \<or> lua_rawgeti t (i - 1) \<noteq> Nil \<Longrightarrow>
     nat (k - i) < f \<Longrightarrow> \<exists>n. linear_search f t (word_of_int i) = Some n \<and> boundary t n"
proof (induction f arbitrary: i)
  case (Suc f)
  have ni: "num_is_nil t (word_of_int i) \<longleftrightarrow> lua_rawgeti t i = Nil"
    by (rule num_is_nil_iff) (use Suc.prems in auto)
  show ?case
  proof (cases "lua_rawgeti t i = Nil")
    case True
    have "sint (word_of_int (i - 1) :: u32) = i - 1"
      using Suc.prems by (intro sint_small) auto
    then show ?thesis
      using True ni Suc.prems by (auto simp: boundary_def)
  next
    case False
    then have "i \<noteq> k"
      using Suc.prems(4) by blast
    then show ?thesis
      using False ni Suc.IH [of "i + 1"] Suc.prems by simp
  qed
qed simp

lemma doubling_search_ok:
  "0 \<le> i \<Longrightarrow> i < j \<Longrightarrow> j \<le> MAX_INT \<Longrightarrow> 2 ^ 31 \<le> j * 2 ^ d \<Longrightarrow> i = 0 \<or> lua_rawgeti t i \<noteq> Nil \<Longrightarrow>
     0 < k \<Longrightarrow> k \<le> INT_MAX \<Longrightarrow> lua_rawgeti t k = Nil \<Longrightarrow> nat k + 33 + d \<le> f \<Longrightarrow>
     \<exists>n. doubling_search f t (word_of_int i) (word_of_int j) = Some n \<and> boundary t n"
proof (induction f arbitrary: i j d)
  case (Suc f)
  have nj: "num_is_nil t (word_of_int j) \<longleftrightarrow> lua_rawgeti t j = Nil"
    by (rule num_is_nil_iff) (use Suc.prems in auto)
  show ?case
  proof (cases "lua_rawgeti t j = Nil")
    case True
    obtain g where g: "f = Suc g" "31 \<le> g"
      using Suc.prems(9) by (cases f) auto
    have "(2 :: int) ^ 31 \<le> 2 ^ g"
      using g by (intro power_increasing) auto
    then have "j - i \<le> 2 ^ g"
      using Suc.prems by simp
    then have "\<exists>n. binary_search (Suc g) t (word_of_int i) (word_of_int j) = Some n \<and> boundary t n"
      using Suc.prems True by (intro binary_search_ok) auto
    then show ?thesis
      using True nj g(1) by simp
  next
    case False
    have j2: "uint (word_of_int (j * 2) :: u32) = j * 2"
      using Suc.prems by (simp add: uint_word_of_int del: of_int_mult)
    have w: "(word_of_int j * 2 :: u32) = word_of_int (j * 2)"
      by simp
    have big: "(word_of_int j * 2 :: u32) > word_of_int MAX_INT \<longleftrightarrow> j * 2 > MAX_INT"
      unfolding w word_less_def j2 by simp
    show ?thesis
    proof (cases "j * 2 > MAX_INT")
      case True
      have "\<exists>n. linear_search f t (word_of_int 1) = Some n \<and> boundary t n"
        using Suc.prems by (intro linear_search_ok [of 1 k]) auto
      then show ?thesis
        using False nj big True by simp
    next
      case small: False
      obtain e where e: "d = Suc e"
      proof (cases d)
        case 0
        then show ?thesis
          using Suc.prems(3,4) by simp
      qed
      have "2 ^ 31 \<le> j * 2 * 2 ^ e"
        using Suc.prems(4) by (simp add: e mult.assoc)
      then have "\<exists>n. doubling_search f t (word_of_int j) (word_of_int (j * 2)) = Some n \<and> boundary t n"
        by (intro Suc.IH) (use Suc.prems small False e in auto)
      moreover have "doubling_search (Suc f) t (word_of_int i) (word_of_int j) =
          doubling_search f t (word_of_int j) (word_of_int (j * 2))"
        by (simp only: doubling_search.simps Let_def nj False small big w [symmetric] if_True if_False simp_thms)
      ultimately show ?thesis
        by simp
    qed
  qed
qed simp

text \<open>Some key among the first \<open>entries t + 1\<close> positive integers is absent.\<close>

lemma absent_key:
  assumes ok: "table_ok hs t" and room: "entries t < 2 ^ 26"
  shows "\<exists>k. 0 < k \<and> k \<le> int (entries t) + 1 \<and> lua_rawgeti t k = Nil"
proof (rule ccontr)
  assume none: "\<not> ?thesis"
  let ?c = "\<lambda>k. canon (Number (cast_num k))"
  have r: "INT_MIN \<le> k \<and> k \<le> INT_MAX" if "0 < k" "k \<le> int (entries t) + 1" for k
    using that room by (simp add: INT_MIN_def)
  have "?c ` {0<..int (entries t) + 1} \<subseteq> dom (table_map t)"
  proof
    fix c assume "c \<in> ?c ` {0<..int (entries t) + 1}"
    then obtain k where k: "0 < k" "k \<le> int (entries t) + 1" "c = ?c k"
      by auto
    then show "c \<in> dom (table_map t)"
      using none rawgeti_map [OF ok, of k] r [OF k(1,2)] by (force simp: dom_def split: option.splits)
  qed
  then have "card (?c ` {0<..int (entries t) + 1}) \<le> entries t"
    using entries_card [OF ok] by (metis card_mono)
  moreover have "inj_on ?c {0<..int (entries t) + 1}"
    by (rule inj_onI) (use same_int_key r in auto)
  ultimately show False
    by (simp add: card_image)
qed

lemma luaH_getn_ok:
  assumes ok: "table_ok hs t" and room: "entries t < 2 ^ 26" and f: "entries t + 66 \<le> f"
  shows "\<exists>n. luaH_getn f t = Some n \<and> boundary t n"
proof -
  let ?A = "array t" and ?j = "length (array t)"
  have geti: "lua_rawgeti t (int i + 1) = ?A ! i" if "i < ?j" for i
    using rawgeti_tlook [OF ok, of "int i + 1"] array_key(4) [OF ok that] that table_okD(8) [OF ok]
    by (simp add: sizearray_def INT_MIN_def)
  have lt: "?j \<le> 2 ^ 26"
    using table_okD(8) [OF ok] by (simp add: sizearray_def)
  show ?thesis
  proof (cases "?j > 0 \<and> ?A ! (?j - 1) = Nil")
    case True
    let ?n = "array_boundary ?A 0 ?j"
    have n: "?n < ?j" "?A ! ?n = Nil" "?n = 0 \<or> ?A ! (?n - 1) \<noteq> Nil"
      using array_boundary_spec [of 0 ?j ?A] True by auto
    have "lua_rawgeti t (int ?n) = ?A ! (?n - 1)" if "?n \<noteq> 0"
      using geti [of "?n - 1"] n(1) that by (simp add: of_nat_diff)
    then have "boundary t (int ?n)"
      using n geti [OF n(1)] lt by (auto simp: boundary_def)
    then show ?thesis
      using True by (simp add: luaH_getn_def Let_def)
  next
    case False
    have last: "?j = 0 \<or> lua_rawgeti t (int ?j) \<noteq> Nil"
      using False geti [of "?j - 1"] by (cases "?j = 0") (auto simp: of_nat_diff)
    show ?thesis
    proof (cases "dummy t")
      case True
      have k: "INT_MIN \<le> int ?j + 1" "int ?j + 1 \<le> INT_MAX"
        using lt by (auto simp: INT_MIN_def)
      have "lua_rawgeti t (int ?j + 1) = Nil"
      proof -
        have na: "\<not> in_array t (Number (cast_num (int ?j + 1)))"
          using arrayindex_cast_num [OF k] by (simp add: in_array_def sizearray_def)
        have "\<not> luaO_rawequalObj Nil (Number (cast_num (int ?j + 1)))"
          by (simp add: luaO_rawequalObj_def)
        then have "nlook (node t) (Number (cast_num (int ?j + 1))) = Nil"
          using table_okD(4) [OF ok True] by (simp add: nlook_def dummynode_def)
        then show ?thesis
          using na rawgeti_tlook [OF ok k] by (simp add: tlook_def)
      qed
      then have "boundary t (int ?j)"
        using last lt by (auto simp: boundary_def)
      then show ?thesis
        using False True by (auto simp: luaH_getn_def Let_def)
    next
      case nd: False
      obtain k where k: "0 < k" "k \<le> int (entries t) + 1" "lua_rawgeti t k = Nil"
        using absent_key [OF ok room] by blast
      have "\<exists>n. doubling_search f t (word_of_int (int ?j)) (word_of_int (int ?j + 1)) = Some n \<and> boundary t n"
        using last lt k room f
        by (intro doubling_search_ok [of _ _ 31 _ k]) auto
      then show ?thesis
        using False nd by (auto simp: luaH_getn_def Let_def unbound_search_def)
    qed
  qed
qed

section \<open>Properties\<close>

text \<open>An empty table, for the witnesses.\<close>

definition new_table :: Table where
  "new_table = \<lparr>flags = NOT 0, array = [], lsizenode = 0, node = [dummynode], dummy = True, lastfree = 0\<rparr>"

lemma new_table_ok: "table_ok hs new_table" "entries new_table = 0" "table_map new_table k = None"
proof -
  obtain t where t: "luaH_new granting 0 0 = Some (t, Inr ())" "table_ok hs t" "entries t = 0"
    "\<forall>k. live k \<longrightarrow> tlook t k = Nil"
    using luaH_new_ok [of granting 0 0] by (auto simp: granting_def)
  moreover have "luaH_new granting 0 0 = Some (new_table, Inr ())"
    by (simp add: luaH_new_def setarrayvector_def luaM_vector_def luaM_reallocv_def luaM_realloc_def
        granting_def sizearray_def setnodevector_def new_table_def)
  ultimately show "table_ok hs new_table" "entries new_table = 0" "table_map new_table k = None"
    using storable_live [of k] by (auto simp: table_map_def)
qed

text \<open>
  C2: searching a well-formed table is looking its key up in the map the table stands for. Raw
  equality is all that matters, so -0 finds what 0 holds, and nil and NaN are never found.
\<close>

theorem luaH_get_map:
  assumes "table_ok hs t" "\<forall>a. k \<noteq> DeadKey a"
  shows "lua_rawget hs t k =
    (if storable k then (case table_map t (canon k) of None \<Rightarrow> Nil | Some v \<Rightarrow> v) else Nil)"
proof (cases "live k")
  case True
  then show ?thesis
    using rawget_tlook [OF assms(1) True] tlook_unstorable [OF True, of t] table_map_canon [of k t] by auto
next
  case False
  then have "k = Nil"
    using assms(2) by (auto simp: not_live_cases)
  then show ?thesis
    by (simp add: lua_rawget_def luaH_get_def storable_def)
qed

text \<open>The witness of the property above: nothing is found in an empty table.\<close>

lemma luaH_get_map_witness: "lua_rawget (\<lambda>_. 0) new_table (Boolean True) = Nil"
  using luaH_get_map [OF new_table_ok(1), of "Boolean True" "\<lambda>_. 0"] new_table_ok(3) by simp

text \<open>
  C1: storing a value under any key that is neither nil nor NaN always succeeds while the table holds
  fewer than \<open>2 ^ 26\<close> entries: whatever collisions, moves of colliding nodes and rehashes it takes, it
  returns after at most one rehash, keeps the invariant, and updates exactly that key of the map
  (or removes it, when the value is nil).
\<close>

theorem luaH_set_map:
  assumes "table_ok hs t" "storable k" "\<forall>a b. fr a b" "entries t < 2 ^ 26" "1 \<le> f"
  shows "\<exists>t'. lua_rawset hs fr f t k v = Some (t', Inr ()) \<and> table_ok hs t' \<and>
    table_map t' = (table_map t)(canon k := (if v = Nil then None else Some v))"
  using rawset_ok [OF assms(1-4), of "f - 1" v] assms(5) by simp

text \<open>The witness of the property above: the first key of an empty table, which has to grow.\<close>

lemma luaH_set_map_witness:
  "\<exists>t'. lua_rawset (\<lambda>_. 0) granting 1 new_table (Boolean True) (LightUserdata 7) = Some (t', Inr ()) \<and>
     table_map t' (Boolean True) = Some (LightUserdata 7)"
proof -
  have "storable (Boolean True)" "\<forall>a b. granting a b" "canon (Boolean True) = Boolean True"
    by (simp_all add: storable_iff granting_def canon_def)
  then show ?thesis
    using luaH_set_map [OF new_table_ok(1), of "Boolean True" granting 1 "\<lambda>_. 0" "LightUserdata 7"] new_table_ok(2)
    by auto
qed

text \<open>
  C8: nil and NaN cannot be keys: storing under them raises the error that names the key and leaves
  the table as it was but for its cache of absent metamethods.
\<close>

theorem luaH_set_error:
  assumes "table_ok hs t" "k = Nil \<or> (\<exists>n. k = Number n \<and> luai_numisnan n)"
  shows "luaH_set hs fr f t k = Some (t\<lparr>flags := 0\<rparr>,
    runerror (if k = Nil then ''table index is nil'' else ''table index is NaN''))"
proof (cases "k = Nil")
  case True
  then show ?thesis
    by (simp add: luaH_set_def set_with_def luaH_get_def)
next
  case False
  then obtain n where n: "k = Number n" "luai_numisnan n"
    using assms(2) by blast
  then have k: "live k" "\<not> storable k" "\<not> luaO_rawequalObj k k"
    by (auto simp: live_def storable_iff luaO_rawequalObj_def luai_numisnan_def)
  have "\<not> in_array t k"
    using n by (auto simp: in_array_def arrayindex_def Let_def luai_numeq_iff luai_numisnan_iff)
  moreover have "\<not> holds_key (node t) j k" for j
    using not_holds_nan [OF k(3)] .
  ultimately have "luaH_get hs t k = NilObj"
    using get_slot [OF assms(1) k(1)] by (cases "luaH_get hs t k") (auto simp: slot_for_def)
  then show ?thesis
    using n by (simp add: luaH_set_def set_with_def)
qed

text \<open>The witness of the property above on an empty table.\<close>

lemma luaH_set_error_witness:
  "luaH_set (\<lambda>_. 0) granting 1 new_table Nil = Some (new_table\<lparr>flags := 0\<rparr>, runerror ''table index is nil'')"
  using luaH_set_error [OF new_table_ok(1), of Nil "\<lambda>_. 0" granting 1] by simp

text \<open>
  C7: the length of a table is a boundary: zero or a present index whose successor is absent. The
  search in the hash part always ends, also where doubling the index overflows and it falls back to
  a linear search.
\<close>

theorem luaH_getn_boundary:
  assumes "table_ok hs t" "entries t < 2 ^ 26" "entries t + 66 \<le> f"
  shows "\<exists>n. luaH_getn f t = Some n \<and> 0 \<le> n \<and> n < INT_MAX \<and> (n = 0 \<or> lua_rawgeti t n \<noteq> Nil) \<and>
    lua_rawgeti t (n + 1) = Nil"
  using luaH_getn_ok [OF assms] unfolding boundary_def .

text \<open>The witness of the property above: an empty table has length 0.\<close>

lemma luaH_getn_boundary_witness: "luaH_getn 66 new_table = Some 0 \<and> lua_rawgeti new_table 1 = Nil"
proof -
  have "luaH_getn 66 new_table = Some 0"
    by (simp add: luaH_getn_def new_table_def)
  then show ?thesis
    using luaH_getn_boundary [OF new_table_ok(1), of 66] new_table_ok(2) by auto
qed

section \<open>A failed allocation\<close>

text \<open>A table of a string key and the key 1, both in the hash part, and an allocator out of room.\<close>

definition small_table :: Table where
  "small_table = \<lparr>flags = 0, array = [], lsizenode = 1,
     node = [\<lparr>gval = Boolean True, gkey = Str 5, gnext = Some 1\<rparr>,
             \<lparr>gval = Boolean True, gkey = Number 4607182418800017408, gnext = None\<rparr>],
     dummy = False, lastfree = 1\<rparr>"

definition one_node_fails :: "u64 \<Rightarrow> u64 \<Rightarrow> bool" where
  "one_node_fails osize nsize = (nsize \<noteq> 40)"

text \<open>The run of \<open>luaH_set\<close>, step by step.\<close>

lemma small_table_grows:
  "luaH_set (\<lambda>_. 0) one_node_fails 1 small_table (Number 4611686018427387904) =
     Some (small_table\<lparr>array := [Nil, Nil], lastfree := -1\<rparr>, Inl (LuaError ERRMEM ''not enough memory''))"
proof -
  let ?k = "Number 4611686018427387904" and ?nums = "[1, 1] @ replicate 25 0"
  let ?t = "small_table\<lparr>lastfree := -1\<rparr>"
  have f: "small_table\<lparr>flags := 0\<rparr> = small_table"
    by (simp add: small_table_def)
  have get: "luaH_get (\<lambda>_. 0) small_table ?k = NilObj"
    by code_simp
  have mp: "mainposition (\<lambda>_. 0) small_table ?k = 0" "gval (node small_table ! 0) = Boolean True"
    "luai_numisnan 4611686018427387904 = False"
    by code_simp+
  have free: "getfreepos small_table = (?t, None)"
    by code_simp
  have arr: "numusearray ?t (replicate 27 0) = (replicate 27 0, 0)"
  proof -
    have "[0..<MAXBITS + 1] = 0 # [1..<27]"
      by (simp add: upt_conv_Cons)
    then show ?thesis
      unfolding numusearray_def by (simp only: numusearray_loop.simps Let_def) (simp add: small_table_def)
  qed
  have hash: "numusehash ?t (replicate 27 0) = (1 # replicate 26 0, 1, 2)"
    by code_simp
  have cnt: "countint ?k (1 # replicate 26 0) = (?nums, 1)"
    by code_simp
  have sizes: "computesizes ?nums 2 = (2, 2)"
    by code_simp
  have setarr: "setarrayvector one_node_fails ?t 2 = Some (?t\<lparr>array := [Nil, Nil]\<rparr>, Inr ())"
    by code_simp
  have setnode: "setnodevector one_node_fails (?t\<lparr>array := [Nil, Nil]\<rparr>) 1 =
      Some (?t\<lparr>array := [Nil, Nil]\<rparr>, Inl (LuaError ERRMEM ''not enough memory''))"
    by code_simp
  have sz: "sizearray ?t = 0"
    by (simp add: sizearray_def small_table_def)
  have resize: "resize (\<lambda>_. 0) one_node_fails nk ?t 2 1 =
      Some (?t\<lparr>array := [Nil, Nil]\<rparr>, Inl (LuaError ERRMEM ''not enough memory''))" for nk
    by (simp add: resize_def sz setarr setnode)
  have "rehash (\<lambda>_. 0) one_node_fails nk ?t ?k =
      Some (?t\<lparr>array := [Nil, Nil]\<rparr>, Inl (LuaError ERRMEM ''not enough memory''))" for nk
    using arr hash cnt sizes resize by (simp add: rehash_def)
  then show ?thesis
    using get mp free f by (simp add: luaH_set_def set_with_def newkey_body_def)
qed

text \<open>An integer key below or above the array part is looked for in the nodes.\<close>

lemma array_slot:
  assumes "INT_MIN \<le> k" "k \<le> INT_MAX" "sizearray t \<le> INT_MAX"
  shows "(word_of_int (k - 1) :: u32) < word_of_int (sizearray t) \<longleftrightarrow> 1 \<le> k \<and> k \<le> sizearray t"
proof -
  let ?s = "sizearray t"
  have s: "0 \<le> ?s"
    by (simp add: sizearray_def)
  have "uint (word_of_int (k - 1) :: u32) = (k - 1) mod 2 ^ 32" "uint (word_of_int ?s :: u32) = ?s"
    using s assms(3) by (simp_all add: uint_word_of_int del: of_int_diff)
  moreover have "(k - 1) mod 2 ^ 32 < ?s \<longleftrightarrow> 1 \<le> k \<and> k \<le> ?s"
  proof (cases "1 \<le> k")
    case True
    then show ?thesis
      using assms by auto
  next
    case False
    then have "(k - 1 + 2 ^ 32) mod 2 ^ 32 = k - 1 + 2 ^ 32"
      using assms(1) by (intro mod_pos_pos_trivial) (auto simp: INT_MIN_def)
    then have "(k - 1) mod 2 ^ 32 = k - 1 + 2 ^ 32"
      by (simp only: mod_add_self2)
    then show ?thesis
      using False assms s by (simp add: INT_MIN_def)
  qed
  ultimately show ?thesis
    by (simp add: word_less_def)
qed

lemma rawgeti_cases:
  assumes "INT_MIN \<le> k" "k \<le> INT_MAX" "sizearray t \<le> INT_MAX"
  shows "1 \<le> k \<and> k \<le> sizearray t \<Longrightarrow> lua_rawgeti t k = array t ! nat (k - 1)"
    and "\<not> (1 \<le> k \<and> k \<le> sizearray t) \<Longrightarrow> lua_rawgeti t k = read_slot t (slot_of (search (length (node t)) (node t)
          (\<lambda>n. case gkey n of Number m \<Rightarrow> luai_numeq m (cast_num k) | _ \<Rightarrow> False) (hashnum t (cast_num k))))"
  using array_slot [OF assms] by (auto simp: lua_rawgeti_def luaH_getnum_def Let_def)

lemma read_node: "node t' = node t \<Longrightarrow> read_slot t' (slot_of r) = read_slot t (slot_of r)"
  by (cases r) (simp_all add: slot_of_def)

text \<open>
  C9: when the allocation of the new node vector fails, \<open>resize\<close> has already made the array part longer
  and has moved nothing into it: every integer key between the old size and the new one reads as nil
  from then on, whatever it held in the hash part. The other integer keys read as before.
\<close>

theorem resize_failure_hides_keys:
  assumes "sizearray t < na" "na \<le> INT_MAX"
    and "setarrayvector fr t na = Some (t1, Inr ())" "setnodevector fr t1 nh = Some (t2, Inl e)"
    and "INT_MIN \<le> k" "k \<le> INT_MAX"
  shows "\<exists>t'. resize hs fr nk t na nh = Some (t', Inl e) \<and>
    lua_rawgeti t' k = (if sizearray t < k \<and> k \<le> na then Nil else lua_rawgeti t k)"
proof -
  have t1: "t1 = t\<lparr>array := array t @ replicate (nat na - length (array t)) Nil\<rparr>"
    using assms(1,3) by (auto simp: setarrayvector_def sizearray_def split: sum.splits)
  have t2: "t2 = t1"
    using assms(4) by (auto simp: setnodevector_def Let_def runerror_def split: if_splits sum.splits)
  have s: "sizearray t1 = na" "sizearray t \<le> INT_MAX" "node t1 = node t" "lsizenode t1 = lsizenode t"
    using assms(1,2) by (auto simp: t1 sizearray_def)
  have h: "hashnum t1 x = hashnum t x" for x
    using s(4) by (simp add: hashnum_def hashmod_def sizenode_def Let_def)
  note old = rawgeti_cases [OF assms(5,6) s(2)] and new = rawgeti_cases [of k t1, unfolded s, OF assms(5,6,2)]
  have "lua_rawgeti t1 k = (if sizearray t < k \<and> k \<le> na then Nil else lua_rawgeti t k)"
  proof (cases "1 \<le> k \<and> k \<le> na")
    case True
    then show ?thesis
      using old(1) new(1) by (auto simp: t1 nth_append sizearray_def)
  next
    case False
    then have "\<not> (1 \<le> k \<and> k \<le> sizearray t)" "\<not> (sizearray t < k \<and> k \<le> na)"
      using assms(1) by (auto simp: sizearray_def)
    then show ?thesis
      using old(2) new(2) False read_node [OF s(3)] by (auto simp: h)
  qed
  then show ?thesis
    using assms(1,3,4) t2 by (simp add: resize_def)
qed

text \<open>The run above: the key 1 held true and is gone when the assignment of the key 2 has failed.\<close>

theorem resize_failure_hides_keys_witness:
  "lua_rawgeti small_table 1 = Boolean True \<and>
   (\<exists>t. resize (\<lambda>_. 0) one_node_fails (\<lambda>t k. None) (small_table\<lparr>lastfree := -1\<rparr>) 2 1 =
      Some (t, Inl (LuaError ERRMEM ''not enough memory'')) \<and> lua_rawgeti t 1 = Nil) \<and>
   (\<exists>t. luaH_set (\<lambda>_. 0) one_node_fails 1 small_table (Number 4611686018427387904) =
      Some (t, Inl (LuaError ERRMEM ''not enough memory'')) \<and> lua_rawgeti t 1 = Nil)"
proof -
  let ?t = "small_table\<lparr>lastfree := -1\<rparr>"
  have "setarrayvector one_node_fails ?t 2 = Some (?t\<lparr>array := [Nil, Nil]\<rparr>, Inr ())"
    "setnodevector one_node_fails (?t\<lparr>array := [Nil, Nil]\<rparr>) 1 =
      Some (?t\<lparr>array := [Nil, Nil]\<rparr>, Inl (LuaError ERRMEM ''not enough memory''))"
    by code_simp+
  moreover have "sizearray ?t = 0"
    by (simp add: sizearray_def small_table_def)
  ultimately have r: "\<exists>t. resize (\<lambda>_. 0) one_node_fails (\<lambda>t k. None) ?t 2 1 =
      Some (t, Inl (LuaError ERRMEM ''not enough memory'')) \<and> lua_rawgeti t 1 = Nil"
    using resize_failure_hides_keys [of ?t 2 one_node_fails _ 1 _ _ 1 "\<lambda>_. 0" "\<lambda>t k. None"]
    by (auto simp: INT_MIN_def)
  have "lua_rawgeti small_table 1 = Boolean True"
    "lua_rawgeti (small_table\<lparr>array := [Nil, Nil], lastfree := -1\<rparr>) 1 = Nil"
    by code_simp+
  then show ?thesis
    using r small_table_grows by auto
qed

end
