(* ===== verification/Lua_Table_Next.thy ===== *)
theory Lua_Table_Next
  imports Lua_Table_Props
begin

text \<open>
  Traversal (\<open>luaH_next\<close> of \<^verbatim>\<open>src/src/ltable.c\<close>) while the program assigns to the fields it visits and the
  collector turns the keys of the fields that were cleared into dead keys.
\<close>

section \<open>Keys and addresses\<close>

text \<open>
  A dead key keeps the address of an object that is gone, and the traversal compares addresses. A set of
  keys is unambiguous when a live key shares its address with no other key: the objects of a heap have
  one address each, and no key has the address of a dead one.
\<close>

definition akeys :: "Table \<Rightarrow> tvalue set" where
  "akeys t = {k \<in> gkey ` set (node t). iscollectable k}"

definition unambiguous :: "tvalue set \<Rightarrow> bool" where
  "unambiguous K \<longleftrightarrow> (\<forall>a\<in>K. \<forall>b\<in>K. gcvalue a = gcvalue b \<longrightarrow> live b \<longrightarrow> a = b)"

text \<open>
  What happens to a table during a traversal: values of present fields change, and an empty node
  whose key is an object may get a dead key (\<open>removeentry\<close> of \<^verbatim>\<open>lgc.c\<close>). Nothing is inserted.
\<close>

definition revised :: "Table \<Rightarrow> Table \<Rightarrow> bool" where
  "revised t t' \<longleftrightarrow> lsizenode t' = lsizenode t \<and> length (array t') = length (array t) \<and>
     length (node t') = length (node t) \<and>
     (\<forall>i < length (array t). array t ! i = Nil \<longrightarrow> array t' ! i = Nil) \<and>
     (\<forall>j < length (node t). gnext (node t' ! j) = gnext (node t ! j) \<and>
        (gval (node t ! j) = Nil \<longrightarrow> gval (node t' ! j) = Nil) \<and>
        (gkey (node t' ! j) = gkey (node t ! j) \<or>
         iscollectable (gkey (node t ! j)) \<and> gval (node t' ! j) = Nil \<and>
         gkey (node t' ! j) = DeadKey (gcvalue (gkey (node t ! j)))))"

lemma revisedD:
  assumes "revised t t'" "j < length (node t)"
  shows "gnext (node t' ! j) = gnext (node t ! j)" "gval (node t ! j) = Nil \<Longrightarrow> gval (node t' ! j) = Nil"
    "gkey (node t' ! j) = gkey (node t ! j) \<or> iscollectable (gkey (node t ! j)) \<and> gval (node t' ! j) = Nil \<and>
       gkey (node t' ! j) = DeadKey (gcvalue (gkey (node t ! j)))"
  using assms unfolding revised_def by blast+

lemma revised_refl: "revised t t"
  by (simp add: revised_def)

lemma revised_edges: "revised t t' \<Longrightarrow> edges (node t') = edges (node t)"
  using revisedD(1) [of t t'] by (auto simp: edges_def revised_def)

lemma revised_linked: "revised t t' \<Longrightarrow> linked (node t) \<Longrightarrow> linked (node t')"
  using revised_edges [of t t'] by (simp add: linked_def revised_def)

lemma revised_mainposition: "revised t t' \<Longrightarrow> mainposition hs t' k = mainposition hs t k"
  using mainposition_cong [of t' t hs] by (simp add: revised_def)

lemma findindex_revised:
  assumes ok: "table_ok hs t" and un: "unambiguous (akeys t)" and rv: "revised t t'"
    and j: "j < length (node t)" "live (gkey (node t ! j))"
  shows "findindex hs t' (gkey (node t ! j)) = Inr (int j + sizearray t)"
proof -
  let ?k = "gkey (node t ! j)" and ?N = "node t'"
  let ?P = "\<lambda>n. luaO_rawequalObj (gkey n) ?k \<or>
    ttype (gkey n) = 11 \<and> iscollectable ?k \<and> gcvalue (gkey n) = gcvalue ?k"
  note T = table_okD [OF ok]
  have len: "length ?N = length (node t)" "sizearray t' = sizearray t"
    using rv by (auto simp: revised_def sizearray_def)
  have same: "m = j" if m: "m < length (node t)" "gkey (node t ! m) = ?k" for m
  proof -
    have "luaO_rawequalObj (gkey (node t ! j)) (gkey (node t ! m))"
      unfolding m(2) by (rule nodes_okD(6) [OF T(3) j])
    then show ?thesis
      using nodes_okD(11) [OF T(3) j(1) m(1) j(2)] by blast
  qed
  have P: "?P (?N ! m) \<longleftrightarrow> m = j" if m: "m < length (node t)" for m
  proof
    assume p: "?P (?N ! m)"
    show "m = j"
    proof (cases "luaO_rawequalObj (gkey (?N ! m)) ?k")
      case True
      then have "live (gkey (?N ! m))"
        using live_rawequal j(2) by blast
      then have "gkey (?N ! m) = gkey (node t ! m)"
        using revisedD(3) [OF rv m] by auto
      then show ?thesis
        using nodes_okD(11) [OF T(3) j(1) m j(2)] True by (simp add: rawequal_sym)
    next
      case False
      then have d: "ttype (gkey (?N ! m)) = 11" "iscollectable ?k" "gcvalue (gkey (?N ! m)) = gcvalue ?k"
        using p by blast+
      have "gcvalue (gkey (node t ! m)) = gcvalue ?k" "gkey (node t ! m) \<in> akeys t" "?k \<in> akeys t"
        using revisedD(3) [OF rv m] d m j(1) by (auto simp: akeys_def iscollectable_def)
      then show ?thesis
        using un j(2) same [OF m] unfolding unambiguous_def by blast
    qed
  next
    assume "m = j"
    then show "?P (?N ! m)"
      using revisedD(3) [OF rv j(1)] nodes_okD(6) [OF T(3) j] by auto
  qed
  have k: "?k \<noteq> Nil" "\<not> in_array t' ?k"
    using j T(2,9) len by (auto simp: in_array_def)
  let ?m = "mainposition hs t' ?k"
  have m: "?m < length ?N"
    using T(2,10) revised_mainposition [OF rv] len by simp
  have l: "linked ?N" "(?m, j) \<in> (edges ?N)\<^sup>*"
    using revised_linked [OF rv nodes_okD(1) [OF T(3)]] nodes_okD(8) [OF T(3) j] revised_edges [OF rv]
      revised_mainposition [OF rv] by simp_all
  obtain j' where j': "search (length ?N) ?N ?P ?m = Some j'"
    using search_reach [where P = ?P, OF l m] P [OF j(1)] by blast
  have "?P (?N ! j')" "j' < length (node t)"
    using search_SomeD [OF j' l(1) m] len by simp_all
  then have "j' = j"
    using P by blast
  then show ?thesis
    using j' k len by (auto simp: findindex_def in_array_def Let_def)
qed

section \<open>What is left of a traversal\<close>

text \<open>The rest of a traversal after the array index and the node index given.\<close>

lemma next_array_hd:
  "next_array vs i = (case filter (\<lambda>(k, v). v \<noteq> Nil)
       (map (\<lambda>j. (Number (cast_num (int j + 1)), vs ! (j - i))) [i..<i + length vs]) of
     [] \<Rightarrow> None | e # _ \<Rightarrow> Some e)"
proof (induction vs arbitrary: i)
  case (Cons v vs)
  have "map (\<lambda>j. (Number (cast_num (int j + 1)), (v # vs) ! (j - i))) [i..<i + length (v # vs)] =
      (Number (cast_num (int i + 1)), v) #
      map (\<lambda>j. (Number (cast_num (int j + 1)), vs ! (j - Suc i))) [Suc i..<Suc i + length vs]"
    by (rule nth_equalityI) (auto simp: nth_Cons upt_conv_Cons split: nat.split simp del: upt_Suc)
  then show ?case
    using Cons.IH [of "Suc i"] by simp
qed simp

lemma next_hash_hd: "next_hash ns = (case node_entries ns of [] \<Rightarrow> None | e # _ \<Rightarrow> Some e)"
  by (induction ns) (auto simp: node_entries_def)

definition array_entries_from :: "tvalue list \<Rightarrow> nat \<Rightarrow> (tvalue \<times> tvalue) list" where
  "array_entries_from arr i = filter (\<lambda>(k, v). v \<noteq> Nil)
     (map (\<lambda>j. (Number (cast_num (int j + 1)), arr ! j)) [i..<length arr])"

lemma next_array_drop:
  "i \<le> length arr \<Longrightarrow> next_array (drop i arr) i =
     (case array_entries_from arr i of [] \<Rightarrow> None | e # _ \<Rightarrow> Some e)"
proof -
  assume "i \<le> length arr"
  then have "map (\<lambda>j. (Number (cast_num (int j + 1)), drop i arr ! (j - i))) [i..<i + length (drop i arr)] =
      map (\<lambda>j. (Number (cast_num (int j + 1)), arr ! j)) [i..<length arr]"
    by (intro map_cong) auto
  then show ?thesis
    by (simp add: next_array_hd array_entries_from_def)
qed

lemma luaH_next_array:
  assumes "findindex hs t k = Inr (int i - 1)" "i \<le> length (array t)"
  shows "luaH_next hs t k = Inr (case array_entries_from (array t) i @ node_entries (node t) of
    [] \<Rightarrow> None | e # _ \<Rightarrow> Some e)"
  using assms next_array_drop [of i "array t"]
  by (auto simp: luaH_next_def next_hash_hd split: list.split)

lemma luaH_next_node:
  assumes "findindex hs t k = Inr (int j + sizearray t)"
  shows "luaH_next hs t k = Inr (case node_entries (drop (Suc j) (node t)) of [] \<Rightarrow> None | e # _ \<Rightarrow> Some e)"
proof -
  have "nat (int j + sizearray t + 1) = Suc j + length (array t)"
    by (simp add: sizearray_def)
  then show ?thesis
    using assms by (simp add: luaH_next_def next_hash_hd)
qed

text \<open>The slots of a table in the order of the traversal, empty ones included.\<close>

definition slots :: "Table \<Rightarrow> (tvalue \<times> tvalue) list" where
  "slots t = map (\<lambda>i. (Number (cast_num (int i + 1)), array t ! i)) [0..<length (array t)] @
     map (\<lambda>n. (gkey n, gval n)) (node t)"

abbreviation full :: "tvalue \<times> tvalue \<Rightarrow> bool" where
  "full e \<equiv> snd e \<noteq> Nil"

lemma full_eq: "(\<lambda>(k, v). v \<noteq> Nil) = full"
  by auto

lemma node_entries_full: "node_entries ns = filter full (map (\<lambda>n. (gkey n, gval n)) ns)"
  by (simp add: node_entries_def filter_map comp_def)

lemma table_entries_slots: "table_entries t = filter full (slots t)"
  by (simp add: table_entries_def slots_def array_entries_def node_entries_full full_eq)

lemma slots_length: "length (slots t) = length (array t) + length (node t)"
  by (simp add: slots_def)

lemma slots_nth:
  "i < length (array t) \<Longrightarrow> slots t ! i = (Number (cast_num (int i + 1)), array t ! i)"
  "j < length (node t) \<Longrightarrow> slots t ! (length (array t) + j) = (gkey (node t ! j), gval (node t ! j))"
  by (simp_all add: slots_def nth_append)

lemma luaH_next_slots:
  assumes "findindex hs t k = Inr (int q - 1)" "q \<le> length (slots t)"
  shows "luaH_next hs t k = Inr (case filter full (drop q (slots t)) of [] \<Rightarrow> None | e # _ \<Rightarrow> Some e)"
proof (cases "q \<le> length (array t)")
  case True
  then have "filter full (drop q (slots t)) = array_entries_from (array t) q @ node_entries (node t)"
    by (simp add: slots_def array_entries_from_def node_entries_full full_eq drop_map)
  then show ?thesis
    using luaH_next_array [OF assms(1) True] by simp
next
  case False
  then obtain j where j: "q = length (array t) + Suc j"
    by (metis add_Suc_right less_imp_Suc_add not_le)
  then have "filter full (drop q (slots t)) = node_entries (drop (Suc j) (node t))"
    by (simp add: slots_def node_entries_full drop_map)
  then show ?thesis
    using luaH_next_node [of hs t k j] assms(1) j by (simp add: sizearray_def)
qed

lemma nth_filter_split:
  "p < length (filter P xs) \<Longrightarrow>
     \<exists>us x vs. xs = us @ x # vs \<and> P x \<and> filter P us = take p (filter P xs) \<and> x = filter P xs ! p"
proof (induction xs arbitrary: p)
  case (Cons y xs)
  show ?case
  proof (cases "P y \<and> p = 0")
    case True
    then show ?thesis
      by (intro exI [of _ "[]"]) auto
  next
    case False
    then obtain q where q: "q < length (filter P xs)" "p = (if P y then Suc q else q)"
      using Cons.prems by (cases p) (auto split: if_splits)
    then obtain us x vs where "xs = us @ x # vs" "P x" "filter P us = take q (filter P xs)" "x = filter P xs ! q"
      using Cons.IH by blast
    then show ?thesis
      using q(2) by (intro exI [of _ "y # us"]) auto
  qed
qed simp

text \<open>The entries behind a slot are the ones that have not been visited.\<close>

lemma unvisited:
  assumes "length S' = length S" "distinct (map fst (filter full S))"
    and "\<And>r. r < length S \<Longrightarrow> full (S' ! r) \<Longrightarrow> full (S ! r) \<and> fst (S' ! r) = fst (S ! r)"
  shows "filter full (drop q S') = filter (\<lambda>e. fst e \<notin> fst ` set (filter full (take q S))) (filter full S')"
proof -
  let ?V = "fst ` set (filter full (take q S))"
  have front: "fst e \<in> ?V" if e: "e \<in> set (filter full (take q S'))" for e
  proof -
    obtain r where r: "r < q" "r < length S" "e = S' ! r" "full e"
      using e assms(1) by (auto simp: in_set_conv_nth)
    then have "S ! r \<in> set (filter full (take q S))" "fst e = fst (S ! r)"
      using assms(3) [of r] by (auto simp: in_set_conv_nth)
    then show ?thesis by simp
  qed
  have behind: "fst e \<notin> ?V" if e: "e \<in> set (filter full (drop q S'))" for e
  proof -
    obtain r where r: "r < length (drop q S')" "e = drop q S' ! r" "full e"
      using e by (auto simp: in_set_conv_nth)
    then have "drop q S ! r \<in> set (filter full (drop q S))" "fst e = fst (drop q S ! r)"
      using assms(1) assms(3) [of "q + r"] by (auto simp: in_set_conv_nth)
    moreover have "fst ` set (filter full (take q S)) \<inter> fst ` set (filter full (drop q S)) = {}"
      using assms(2) append_take_drop_id [of q S] by (metis distinct_append filter_append map_append set_map)
    ultimately show ?thesis by auto
  qed
  have "filter full S' = filter full (take q S') @ filter full (drop q S')"
    by (metis append_take_drop_id filter_append)
  then show ?thesis
    using front behind by (simp add: filter_empty_conv filter_id_conv del: filter_filter)
qed

lemma revised_slots:
  assumes "revised t t'" "r < length (slots t)" "full (slots t' ! r)"
  shows "full (slots t ! r) \<and> fst (slots t' ! r) = fst (slots t ! r)"
proof (cases "r < length (array t)")
  case True
  then show ?thesis
    using assms slots_nth(1) [of r t] slots_nth(1) [of r t'] by (auto simp: revised_def)
next
  case False
  then obtain j where j: "r = length (array t) + j" "j < length (node t)"
    using assms(2) by (metis add_less_cancel_left le_Suc_ex not_less slots_length)
  then show ?thesis
    using assms revisedD [OF assms(1) j(2)] slots_nth(2) [of j t] slots_nth(2) [of j t'] by (auto simp: revised_def)
qed

section \<open>The traversal\<close>

lemma distinct_mapI: "distinct (map f xs) \<Longrightarrow> distinct xs"
  by (simp add: distinct_map)

lemma entry_keys_distinct: "table_ok hs t \<Longrightarrow> distinct (map fst (table_entries t))"
proof -
  assume "table_ok hs t"
  then have "distinct (map canon (map fst (table_entries t)))"
    using table_entries_distinct [of hs t] by (simp add: case_prod_unfold comp_def)
  then show ?thesis
    by (rule distinct_mapI)
qed

text \<open>The slot of an entry is found again, whether its field was cleared since or not.\<close>

lemma findindex_slot:
  assumes ok: "table_ok hs t" and un: "unambiguous (akeys t)" and rv: "revised t t'"
    and r: "r < length (slots t)" "full (slots t ! r)"
  shows "findindex hs t' (fst (slots t ! r)) = Inr (int r)"
proof (cases "r < length (array t)")
  case True
  have "sizearray t' = sizearray t"
    using rv by (simp add: revised_def sizearray_def)
  then show ?thesis
    using array_key(2,3) [OF ok True] slots_nth(1) [OF True] by (simp add: findindex_def in_array_def)
next
  case False
  then obtain j where j: "r = length (array t) + j" "j < length (node t)"
    using r(1) by (metis add_less_cancel_left le_Suc_ex not_less slots_length)
  then have "live (gkey (node t ! j))"
    using nodes_okD(5) [OF table_okD(3) [OF ok], of j] r(2) slots_nth(2) [OF j(2)] by auto
  then show ?thesis
    using findindex_revised [OF ok un rv j(2)] j slots_nth(2) [OF j(2)] by (simp add: sizearray_def)
qed

text \<open>
  C6: a traversal visits every field once. Let \<open>t\<close> be a table in which no key has the address of a dead
  one, and \<open>t'\<close> what it has become after its fields were assigned to or cleared, with the keys
  of cleared fields dead where the collector came by. Given the key of any entry of \<open>t\<close> (or nil at the
  start), the next entry is the first of \<open>t'\<close> whose key was not among the ones up to there, and nil behind the
  last. The keys of the entries are different, and the entries of \<open>t\<close> are its map.
\<close>

theorem luaH_next_traverses:
  assumes "table_ok hs t" "unambiguous (akeys t)" "revised t t'" "p \<le> length (table_entries t)"
  shows "luaH_next hs t' (if p = 0 then Nil else fst (table_entries t ! (p - 1))) =
      Inr (case filter (\<lambda>e. fst e \<notin> fst ` set (take p (table_entries t))) (table_entries t') of
        [] \<Rightarrow> None | e # _ \<Rightarrow> Some e) \<and>
    distinct (map (\<lambda>(k, v). canon k) (table_entries t)) \<and>
    (\<forall>c v. table_map t c = Some v \<longleftrightarrow> (\<exists>k. canon k = c \<and> (k, v) \<in> set (table_entries t)))"
proof -
  have len: "length (slots t') = length (slots t)"
    using assms(3) by (simp add: slots_length revised_def)
  have d: "distinct (map fst (filter full (slots t)))"
    using entry_keys_distinct [OF assms(1)] by (simp add: table_entries_slots)
  obtain q where q: "findindex hs t' (if p = 0 then Nil else fst (table_entries t ! (p - 1))) = Inr (int q - 1)"
    "q \<le> length (slots t)" "filter full (take q (slots t)) = take p (table_entries t)"
  proof (cases p)
    case 0
    show thesis
      by (rule that [of 0]) (simp_all add: 0 findindex_def)
  next
    case (Suc m)
    then have "m < length (filter full (slots t))"
      using assms(4) by (simp add: table_entries_slots)
    then obtain us x vs where u: "slots t = us @ x # vs" "full x" "filter full us = take m (table_entries t)"
      "x = table_entries t ! m"
      using nth_filter_split [of m full "slots t"] unfolding table_entries_slots by blast
    have "findindex hs t' (fst x) = Inr (int (length us))"
      using findindex_slot [OF assms(1-3), of "length us"] u(1,2) by simp
    moreover have "take (Suc m) (table_entries t) = take m (table_entries t) @ [x]"
      using u(4) assms(4) Suc by (simp add: take_Suc_conv_app_nth)
    ultimately show thesis
      using u Suc by (intro that [of "Suc (length us)"]) simp_all
  qed
  have "filter full (drop q (slots t')) =
      filter (\<lambda>e. fst e \<notin> fst ` set (take p (table_entries t))) (table_entries t')"
  proof -
    have "filter full (drop q (slots t')) =
        filter (\<lambda>e. fst e \<notin> fst ` set (filter full (take q (slots t)))) (filter full (slots t'))"
      by (rule unvisited [OF len d]) (rule revised_slots [OF assms(3)])
    then show ?thesis
      by (simp only: q(3) table_entries_slots)
  qed
  then show ?thesis
    using luaH_next_slots [OF q(1)] q(2) len table_entries_distinct [OF assms(1)] table_map_entries [OF assms(1)]
    by simp
qed

section \<open>Where the keys come from\<close>

lemma unambiguous_sub: "unambiguous K \<Longrightarrow> L \<subseteq> K \<Longrightarrow> unambiguous L"
  unfolding unambiguous_def by blast

text \<open>A cleared key that dies does not make another one ambiguous.\<close>

lemma unambiguous_revised:
  assumes ok: "table_ok hs t" and un: "unambiguous (akeys t)" and rv: "revised t t'"
  shows "unambiguous (akeys t')"
  unfolding unambiguous_def
proof (intro ballI impI)
  fix a b assume k: "a \<in> akeys t'" "b \<in> akeys t'" "gcvalue a = gcvalue b" "live b"
  have len: "length (node t') = length (node t)"
    using rv by (simp add: revised_def)
  obtain i where i: "i < length (node t)" "a = gkey (node t' ! i)"
    using k(1) len by (auto simp: akeys_def in_set_conv_nth)
  obtain j where j: "j < length (node t)" "b = gkey (node t' ! j)"
    using k(2) len by (auto simp: akeys_def in_set_conv_nth)
  have "gkey (node t' ! j) = gkey (node t ! j)"
    using revisedD(3) [OF rv j(1)] j(2) k(4) by (metis live_simps(2))
  then have b: "b = gkey (node t ! j)" "b \<in> akeys t"
    using j k(2) by (auto simp: akeys_def)
  have "gcvalue (gkey (node t ! i)) = gcvalue a \<and> iscollectable (gkey (node t ! i))"
  proof (cases "gkey (node t' ! i) = gkey (node t ! i)")
    case True
    then show ?thesis
      using i(2) k(1) by (simp add: akeys_def)
  next
    case False
    then show ?thesis
      using revisedD(3) [OF rv i(1)] i(2) by simp
  qed
  then have a: "gkey (node t ! i) \<in> akeys t" "gcvalue (gkey (node t ! i)) = gcvalue b"
    using i(1) k(3) by (simp_all add: akeys_def)
  then have e: "gkey (node t ! i) = b"
    using un b(2) k(4) unfolding unambiguous_def by blast
  then have "luaO_rawequalObj (gkey (node t ! i)) (gkey (node t ! j))" "live (gkey (node t ! i))"
    using nodes_okD(6) [OF table_okD(3) [OF ok] j(1)] b(1) k(4) by simp_all
  then have "i = j"
    using nodes_okD(11) [OF table_okD(3) [OF ok] i(1) j(1)] by blast
  then show "a = b"
    using i(2) j(2) by simp
qed

lemma unambiguous_new: "unambiguous (akeys new_table)"
  by (simp add: unambiguous_def akeys_def new_table_def dummynode_def iscollectable_def)

text \<open>
  Insertion, with the rehash it may cause, brings no other key into the node vector than the one that
  is inserted, and numbers from the array.
\<close>

definition keys_in :: "tvalue set \<Rightarrow> Table \<Rightarrow> bool" where
  "keys_in K t \<longleftrightarrow> lsizenode t \<le> MAXBITS \<and> length (node t) = sizenode t \<and>
     gkey ` set (node t) \<subseteq> K \<union> {Nil} \<union> range Number"

definition inserts :: "newkey_fun \<Rightarrow> bool" where
  "inserts nk \<longleftrightarrow> (\<forall>K t k t' s. keys_in K t \<longrightarrow> nk t k = Some (t', Inr s) \<longrightarrow> keys_in (insert k K) t')"

lemma insertsD: "inserts nk \<Longrightarrow> keys_in K t \<Longrightarrow> nk t k = Some (t', Inr s) \<Longrightarrow> keys_in (insert k K) t'"
  unfolding inserts_def by blast

lemma keys_in_old: "k \<in> K \<union> {Nil} \<union> range Number \<Longrightarrow> keys_in (insert k K) t = keys_in K t"
  unfolding keys_in_def by blast

lemma keys_in_mono: "keys_in K t \<Longrightarrow> K \<subseteq> L \<Longrightarrow> keys_in L t"
  unfolding keys_in_def by blast

lemma gkeys_update: "set (map gkey (ns[i := n])) \<subseteq> insert (gkey n) (gkey ` set ns)"
  using set_update_subset_insert [of "map gkey ns" i "gkey n"] by (simp add: map_update)

lemma gkeys_same: "gkey n = gkey (ns ! i) \<Longrightarrow> gkey ` set (ns[i := n]) = gkey ` set ns"
proof -
  assume "gkey n = gkey (ns ! i)"
  then have "map gkey (ns[i := n]) = map gkey ns"
    by (cases "i < length ns") (simp_all add: map_update list_update_same_conv list_update_beyond)
  then show ?thesis
    by (metis set_map)
qed

lemma gkeys_fields:
  "gkey ` set (ns[i := (ns ! i)\<lparr>gnext := x\<rparr>]) = gkey ` set ns"
  "gkey ` set (ns[i := (ns ! i)\<lparr>gval := v\<rparr>]) = gkey ` set ns"
  by (simp_all add: gkeys_same)

lemma keys_in_write: "keys_in K (write_slot t s v) = keys_in K t"
  by (cases s) (simp_all add: keys_in_def sizenode_def gkeys_same)

lemma keys_in_nodes:
  "keys_in K t \<Longrightarrow> length ns = length (node t) \<Longrightarrow> gkey ` set ns \<subseteq> insert k (gkey ` set (node t)) \<Longrightarrow>
     keys_in (insert k K) (t\<lparr>node := ns\<rparr>)"
  unfolding keys_in_def by (auto simp: sizenode_def)

lemma gkeys_put: "gkey ` set (put_key N i k) \<subseteq> insert k (gkey ` set N)"
  using gkeys_update [of N i "(N ! i)\<lparr>gkey := k\<rparr>"] by (simp add: put_key_def)

lemma gkeys_chain_free: "gkey ` set (chain_free N mp n) = gkey ` set N"
  by (simp only: chain_free_def Let_def gkeys_fields)

lemma gkeys_move: "mp < length N \<Longrightarrow> gkey ` set (move_colliding N p mp n) \<subseteq> gkey ` set N"
proof -
  assume mp: "mp < length N"
  let ?N1 = "N[p := (N ! p)\<lparr>gnext := Some n\<rparr>]"
  let ?N2 = "?N1[n := ?N1 ! mp]"
  have 1: "gkey ` set ?N1 = gkey ` set N"
    by (simp add: gkeys_same)
  have 2: "gkey (?N1 ! mp) \<in> gkey ` set ?N1"
    using mp by (intro imageI nth_mem) simp
  have "gkey ` set ?N2 \<subseteq> insert (gkey (?N1 ! mp)) (gkey ` set ?N1)"
    using gkeys_update [of ?N1 n "?N1 ! mp"] by (simp only: set_map)
  then have "gkey ` set ?N2 \<subseteq> gkey ` set N"
    by (simp only: 1 insert_absorb [OF 2 [unfolded 1]])
  then show ?thesis
    by (simp only: move_colliding_def Let_def gkeys_fields)
qed

lemma put_key_length: "length (put_key N i k) = length N"
  by (simp add: put_key_def)

lemma move_length: "length (move_colliding N p mp n) = length N" "length (chain_free N mp n) = length N"
  by (simp_all add: move_colliding_def chain_free_def Let_def)

lemma newkey_body_inserts:
  assumes K: "keys_in K t" and r: "newkey_body hs grow t k = Some (t', Inr s)"
    and grow: "\<And>t t' s. keys_in K t \<Longrightarrow> grow t = Some (t', Inr s) \<Longrightarrow> keys_in (insert k K) t'"
  shows "keys_in (insert k K) t'"
proof -
  let ?mp = "mainposition hs t k"
  obtain u f where u: "getfreepos t = (u, f)"
    by (cases "getfreepos t")
  obtain lf where lf: "u = t\<lparr>lastfree := lf\<rparr>"
    using getfreepos_spec [OF u] by blast
  have same: "node u = node t" "keys_in K u"
    using K by (simp_all add: lf keys_in_def sizenode_def)
  have mp: "?mp < length (node t)"
    using K mainposition_less [of t hs k] by (simp add: keys_in_def)
  have put: "keys_in (insert k K) (u\<lparr>node := put_key N i k\<rparr>)"
    if N: "length N = length (node t)" "gkey ` set N \<subseteq> gkey ` set (node t)" for N i
  proof (rule keys_in_nodes [OF same(2)])
    show "length (put_key N i k) = length (node u)"
      by (simp add: put_key_length N(1) same(1))
    show "gkey ` set (put_key N i k) \<subseteq> insert k (gkey ` set (node u))"
      unfolding same(1) using gkeys_put [of N i k] N(2) by blast
  qed
  have put0: "keys_in (insert k K) (t\<lparr>node := put_key (node t) ?mp k\<rparr>)"
    by (rule keys_in_nodes [OF K put_key_length gkeys_put])
  have moved: "keys_in (insert k K) (u\<lparr>node := put_key (move_colliding (node t) p ?mp n) ?mp k\<rparr>)" for p n
    by (rule put [OF move_length(1) gkeys_move [OF mp]])
  have chained: "keys_in (insert k K) (u\<lparr>node := put_key (chain_free (node t) ?mp n) n k\<rparr>)" for n
    by (rule put [OF move_length(2)]) (simp add: gkeys_chain_free)
  show ?thesis
  proof (cases "gval (node t ! ?mp) \<noteq> Nil \<or> dummy t")
    case True
    show ?thesis
    proof (cases f)
      case None
      then show ?thesis
        using r u True grow [OF same(2)] by (simp add: newkey_body_def Let_def)
    next
      case (Some n)
      have o: "mainposition hs u x = mainposition hs t x" for x
        using mainposition_cong [of u t hs] lf by simp
      show ?thesis
        using r u True Some moved chained same(1)
        by (auto simp: newkey_body_def Let_def o split: option.splits if_splits)
    qed
  next
    case False
    then show ?thesis
      using r put0 by (auto simp: newkey_body_def Let_def)
  qed
qed

lemma set_with_inserts:
  "inserts nk \<Longrightarrow> keys_in K t \<Longrightarrow> set_with hs nk t k = Some (t', Inr s) \<Longrightarrow> keys_in (insert k K) t'"
proof -
  assume i: "inserts nk" and K: "keys_in K t" and r: "set_with hs nk t k = Some (t', Inr s)"
  have "keys_in K (t\<lparr>flags := 0\<rparr>)" "keys_in (insert k K) (t\<lparr>flags := 0\<rparr>)"
    using K by (auto simp: keys_in_def sizenode_def)
  then show ?thesis
    using r insertsD [OF i] by (auto simp: set_with_def Let_def split: if_splits tvalue.splits)
qed

lemma setnum_with_inserts:
  assumes "inserts nk" "keys_in K t" "setnum_with nk t n = Some (t', Inr s)" shows "keys_in K t'"
proof -
  have "keys_in (insert (Number (cast_num n)) K) t' = keys_in K t'"
    by (rule keys_in_old) simp
  then show ?thesis
    using assms insertsD [OF assms(1,2)] by (auto simp: setnum_with_def Let_def split: if_splits)
qed

lemma tbind_Inr: "tbind m f = Some (t', Inr r) \<longleftrightarrow> (\<exists>u x. m = Some (u, Inr x) \<and> f u x = Some (t', Inr r))"
  by (cases "(m, f)" rule: tbind.cases) auto

lemma reinsert_array_inserts:
  "inserts nk \<Longrightarrow> keys_in K t \<Longrightarrow> reinsert_array nk t i vs = Some (t', Inr ()) \<Longrightarrow> keys_in K t'"
proof (induction vs arbitrary: t i)
  case (Cons v vs)
  show ?case
  proof (cases "v = Nil")
    case True
    then show ?thesis
      using Cons by simp
  next
    case False
    then obtain u s where u: "setnum_with nk t (i + 1) = Some (u, Inr s)"
        "reinsert_array nk (write_slot u s v) (i + 1) vs = Some (t', Inr ())"
      using Cons.prems(3) by (auto simp: tbind_Inr)
    have "keys_in K (write_slot u s v)"
      using setnum_with_inserts [OF Cons.prems(1,2) u(1)] by (simp add: keys_in_write)
    then show ?thesis
      using Cons.IH [OF Cons.prems(1) _ u(2)] by blast
  qed
qed simp

lemma reinsert_hash_inserts:
  "inserts nk \<Longrightarrow> keys_in K t \<Longrightarrow> gkey ` {n \<in> set ns. gval n \<noteq> Nil} \<subseteq> K \<union> {Nil} \<union> range Number \<Longrightarrow>
     reinsert_hash hs nk t ns = Some (t', Inr ()) \<Longrightarrow> keys_in K t'"
proof (induction ns arbitrary: t)
  case (Cons n ns)
  have old: "gval n \<noteq> Nil \<Longrightarrow> keys_in (insert (gkey n) K) u = keys_in K u" for u
    using Cons.prems(3) by (intro keys_in_old) auto
  have sub: "gkey ` {n \<in> set ns. gval n \<noteq> Nil} \<subseteq> K \<union> {Nil} \<union> range Number"
    using Cons.prems(3) by auto
  show ?case
  proof (cases "gval n = Nil")
    case True
    then show ?thesis
      using Cons.IH [OF Cons.prems(1,2) sub] Cons.prems(4) by simp
  next
    case False
    then obtain u s where u: "set_with hs nk t (gkey n) = Some (u, Inr s)"
        "reinsert_hash hs nk (write_slot u s (gval n)) ns = Some (t', Inr ())"
      using Cons.prems(4) by (auto simp: tbind_Inr)
    have "keys_in K (write_slot u s (gval n))"
      using set_with_inserts [OF Cons.prems(1,2) u(1)] old [OF False] by (simp add: keys_in_write)
    then show ?thesis
      using Cons.IH [OF Cons.prems(1) _ sub u(2)] by blast
  qed
qed simp

lemma setnodevector_keys: "setnodevector fr t n = Some (t', Inr ()) \<Longrightarrow> keys_in K t'"
  by (auto simp: setnodevector_def Let_def keys_in_def sizenode_def dummynode_def runerror_def twoto_def
      split: sum.splits if_splits)

lemma resize_inserts:
  assumes i: "inserts nk" and K: "keys_in K t" and r: "resize hs fr nk t na nh = Some (t', Inr ())"
  shows "keys_in K t'"
proof -
  obtain u v w x y z where u: "(if na > sizearray t then setarrayvector fr t na else Some (t, Inr ())) = Some (u, Inr x)"
    and v: "setnodevector fr u nh = Some (v, Inr y)"
    and w: "(if na < sizearray t then
        tbind (reinsert_array nk (v\<lparr>array := take (nat na) (array v)\<rparr>) na (drop (nat na) (array v)))
          (\<lambda>u _. Some (u, luaM_vector fr (sizearray t) na 16))
      else Some (v, Inr ())) = Some (w, Inr z)"
    and h: "reinsert_hash hs nk w (rev (node t)) = Some (t', Inr ())"
    using r unfolding resize_def Let_def tbind_Inr by (elim exE conjE) (rule that, assumption+)
  have kv: "keys_in K v"
    using setnodevector_keys v by simp
  have "keys_in K (v\<lparr>array := take (nat na) (array v)\<rparr>)"
    using kv by (simp add: keys_in_def sizenode_def)
  then have "keys_in K w"
    using w kv reinsert_array_inserts [OF i] by (auto simp: tbind_Inr Let_def split: if_splits)
  then show ?thesis
    by (rule reinsert_hash_inserts [OF i _ _ h]) (use K in \<open>auto simp: keys_in_def\<close>)
qed

lemma newkey_inserts: "inserts (newkey hs fr f)"
proof (induction f)
  case 0
  show ?case
    unfolding inserts_def by (auto intro: newkey_body_inserts)
next
  case (Suc f)
  show ?case
    unfolding inserts_def
  proof (intro allI impI)
    fix K t k t' s
    assume K: "keys_in K t" and r: "newkey hs fr (Suc f) t k = Some (t', Inr s)"
    show "keys_in (insert k K) t'"
    proof (rule newkey_body_inserts [OF K r [unfolded newkey.simps]])
      fix t t' s
      assume t: "keys_in K t" "tbind (rehash hs fr (newkey hs fr f) t k) (\<lambda>t _. set_with hs (newkey hs fr f) t k) = Some (t', Inr s)"
      then obtain u where u: "rehash hs fr (newkey hs fr f) t k = Some (u, Inr ())" "set_with hs (newkey hs fr f) u k = Some (t', Inr s)"
        by (auto simp: tbind_Inr)
      have "keys_in K u"
        using u(1) resize_inserts [OF Suc.IH t(1)] by (auto simp: rehash_def Let_def split: prod.splits)
      then show "keys_in (insert k K) t'"
        using set_with_inserts [OF Suc.IH _ u(2)] by blast
    qed
  qed
qed

text \<open>
  The keys of a table that assignments build are addresses of objects of one heap: if the new key shares
  its address with no other one, the table stays unambiguous.
\<close>

lemma unambiguous_set:
  assumes "table_ok hs t" "unambiguous (insert k (akeys t))" "luaH_set hs fr f t k = Some (t', Inr s)"
  shows "unambiguous (akeys (write_slot t' s v))"
proof -
  have "keys_in (gkey ` set (node t)) t"
    using table_okD(1,2) [OF assms(1)] by (auto simp: keys_in_def)
  then have "keys_in (insert k (gkey ` set (node t))) (write_slot t' s v)"
    using set_with_inserts [OF newkey_inserts] assms(3) by (simp add: luaH_set_def keys_in_write)
  then have "akeys (write_slot t' s v) \<subseteq> insert k (akeys t)"
    by (auto simp: akeys_def keys_in_def iscollectable_def)
  then show ?thesis
    by (rule unambiguous_sub [OF assms(2)])
qed

section \<open>An instance\<close>

text \<open>
  The first of two fields has been cleared and its string collected: with the dead key the traversal
  goes on behind it.
\<close>

definition small_table_collected :: Table where
  "small_table_collected = small_table\<lparr>node := [\<lparr>gval = Nil, gkey = DeadKey 5, gnext = Some 1\<rparr>,
     \<lparr>gval = Boolean True, gkey = Number 4607182418800017408, gnext = None\<rparr>]\<rparr>"

lemma small_edges: "edges (node small_table) = {(0, 1)}"
  by (auto simp: edges_def small_table_def nth_Cons split: nat.splits)

lemma next_table_ok: "table_ok (\<lambda>_. 0) small_table"
proof -
  have m: "mainposition (\<lambda>_. 0) small_table (Str 5) = 0"
    "mainposition (\<lambda>_. 0) small_table (Number 4607182418800017408) = 0"
    "luaO_rawequalObj (Number 4607182418800017408) (Number 4607182418800017408)"
    "arrayindex (Number 4607182418800017408) = 1" "sizenode small_table = 2" "sizearray small_table = 0"
    by code_simp+
  have ac: "acyclic {(0 :: nat, Suc 0)}"
    by (simp add: acyclic_insert) (simp add: acyclic_def)
  have "nodes_ok (mainposition (\<lambda>_. 0) small_table) (node small_table)"
    unfolding nodes_ok_def linked_def small_edges
    using m(1-3) ac by (auto simp: small_table_def less_Suc_eq live_def luaO_rawequalObj_def)
  then show ?thesis
    using m(5,6) by (auto simp: table_ok_def in_array_def) (auto simp: small_table_def less_2_cases_iff)
qed

lemma small_entries: "table_entries small_table = [(Str 5, Boolean True), (Number 4607182418800017408, Boolean True)]"
  "table_entries small_table_collected = [(Number 4607182418800017408, Boolean True)]"
  by code_simp+

lemma small_revised: "revised small_table small_table_collected" "unambiguous (akeys small_table)"
  by (auto simp: revised_def unambiguous_def akeys_def small_table_def small_table_collected_def iscollectable_def
      less_Suc_eq)

theorem luaH_next_traverses_witness:
  "luaH_next (\<lambda>_. 0) small_table_collected (Str 5) = Inr (Some (Number 4607182418800017408, Boolean True))"
  using luaH_next_traverses [OF next_table_ok small_revised(2,1), of 1] by (simp add: small_entries)

end
