(* ===== verification/Lua_TabLib.thy ===== *)
theory Lua_TabLib
  imports Lua_Table_Props
begin

text \<open>
  The table library, \<^verbatim>\<open>src/src/ltablib.c\<close>. The functions work on the table at the bottom of the
  stack through \<open>lua_rawgeti\<close> and \<open>lua_rawseti\<close>, and are defined over any such pair; the rest of
  the stack is their argument list, without the table. What they call of the rest of the
  interpreter (a Lua function, the order \<open>lua_lessthan\<close>, the conversions of
  \<^verbatim>\<open>lauxlib.c\<close>) are arguments too. An action returns the table with the result or the
  error; \<open>None\<close> is one that does not return. Messages are given without the position that
  \<open>luaL_error\<close> puts before them.
\<close>

section \<open>Actions on a table\<close>

type_synonym ('t, 'a) act = "('t \<times> 'a result) option"

fun abind :: "('t, 'a) act \<Rightarrow> ('t \<Rightarrow> 'a \<Rightarrow> ('t, 'b) act) \<Rightarrow> ('t, 'b) act" where
  "abind None f = None"
| "abind (Some (t, Inl e)) f = Some (t, Inl e)"
| "abind (Some (t, Inr x)) f = f t x"

lemma abind_cong [fundef_cong]:
  "m = m' \<Longrightarrow> (\<And>t x. m' = Some (t, Inr x) \<Longrightarrow> f t x = f' t x) \<Longrightarrow> abind m f = abind m' f'"
  by (cases "(m', f')" rule: abind.cases) auto

definition aerror :: "'t \<Rightarrow> bytes \<Rightarrow> ('t, 'a) act" where
  "aerror t msg = Some (t, runerror msg)"

type_synonym 't getter = "'t \<Rightarrow> int \<Rightarrow> tvalue"
type_synonym 't setter = "'t \<Rightarrow> int \<Rightarrow> tvalue \<Rightarrow> ('t, unit) act"

definition luaT_typenames :: "bytes list" where
  "luaT_typenames = [''nil'', ''boolean'', ''userdata'', ''number'', ''string'', ''table'',
     ''function'', ''userdata'', ''thread'', ''proto'', ''upval'']"

section \<open>Traversals\<close>

text \<open>\<open>call f args\<close> is \<open>lua_call\<close> with one result.\<close>

function foreachi_loop ::
  "'t getter \<Rightarrow> (tvalue \<Rightarrow> tvalue list \<Rightarrow> 't \<Rightarrow> ('t, tvalue) act) \<Rightarrow> tvalue \<Rightarrow> int \<Rightarrow> int \<Rightarrow> 't \<Rightarrow> ('t, tvalue list) act" where
  "foreachi_loop geti call f i n t =
     (if i \<le> n
      then abind (call f [Number (cast_num i), geti t i] t) (\<lambda>t r.
             if r \<noteq> Nil then Some (t, Inr [r]) else foreachi_loop geti call f (i + 1) n t)
      else Some (t, Inr []))"
  by pat_completeness auto
termination by (relation "measure (\<lambda>(geti, call, f, i, n, t). nat (n + 1 - i))") auto

declare foreachi_loop.simps [simp del]

definition foreachi ::
  "'t getter \<Rightarrow> ('t \<Rightarrow> int option) \<Rightarrow> (tvalue \<Rightarrow> tvalue list \<Rightarrow> 't \<Rightarrow> ('t, tvalue) act) \<Rightarrow> tvalue \<Rightarrow> 't \<Rightarrow> ('t, tvalue list) act" where
  "foreachi geti getn call f t =
     (case getn t of None \<Rightarrow> None
      | Some n \<Rightarrow> if ttype f \<noteq> 6 then aerror t ''function expected''
                  else foreachi_loop geti call f 1 n t)"

text \<open>\<open>next\<close> is \<open>lua_next\<close>; the number of steps is bounded because the called function may add keys.\<close>

fun foreach_loop ::
  "nat \<Rightarrow> ('t \<Rightarrow> tvalue \<Rightarrow> (tvalue \<times> tvalue) option result) \<Rightarrow>
   (tvalue \<Rightarrow> tvalue list \<Rightarrow> 't \<Rightarrow> ('t, tvalue) act) \<Rightarrow> tvalue \<Rightarrow> tvalue \<Rightarrow> 't \<Rightarrow> ('t, tvalue list) act" where
  "foreach_loop 0 nxt call f key t = None"
| "foreach_loop (Suc n) nxt call f key t =
     (case nxt t key of
        Inl e \<Rightarrow> Some (t, Inl e)
      | Inr None \<Rightarrow> Some (t, Inr [])
      | Inr (Some (k, v)) \<Rightarrow>
          abind (call f [k, v] t) (\<lambda>t r.
            if r \<noteq> Nil then Some (t, Inr [r]) else foreach_loop n nxt call f k t))"

definition foreach ::
  "nat \<Rightarrow> ('t \<Rightarrow> tvalue \<Rightarrow> (tvalue \<times> tvalue) option result) \<Rightarrow>
   (tvalue \<Rightarrow> tvalue list \<Rightarrow> 't \<Rightarrow> ('t, tvalue) act) \<Rightarrow> tvalue \<Rightarrow> 't \<Rightarrow> ('t, tvalue list) act" where
  "foreach n nxt call f t =
     (if ttype f \<noteq> 6 then aerror t ''function expected'' else foreach_loop n nxt call f Nil t)"

fun maxn_loop ::
  "nat \<Rightarrow> ('t \<Rightarrow> tvalue \<Rightarrow> (tvalue \<times> tvalue) option result) \<Rightarrow> tvalue \<Rightarrow> lua_Number \<Rightarrow> 't \<Rightarrow> ('t, lua_Number) act" where
  "maxn_loop 0 nxt key m t = None"
| "maxn_loop (Suc n) nxt key m t =
     (case nxt t key of
        Inl e \<Rightarrow> Some (t, Inl e)
      | Inr None \<Rightarrow> Some (t, Inr m)
      | Inr (Some (k, v)) \<Rightarrow>
          maxn_loop n nxt k (case k of Number x \<Rightarrow> if luai_numlt m x then x else m | _ \<Rightarrow> m) t)"

definition maxn :: "nat \<Rightarrow> ('t \<Rightarrow> tvalue \<Rightarrow> (tvalue \<times> tvalue) option result) \<Rightarrow> 't \<Rightarrow> ('t, tvalue list) act" where
  "maxn n nxt t = abind (maxn_loop n nxt Nil (cast_num 0) t) (\<lambda>t m. Some (t, Inr [Number m]))"

definition tgetn :: "('t \<Rightarrow> int option) \<Rightarrow> 't \<Rightarrow> ('t, tvalue list) act" where
  "tgetn getn t = (case getn t of None \<Rightarrow> None | Some n \<Rightarrow> Some (t, Inr [Number (cast_num n)]))"

definition setn :: "'t \<Rightarrow> ('t, tvalue list) act" where
  "setn t = aerror t (LUA_QL ''setn'' @ '' is obsolete'')"

section \<open>Inserting and removing\<close>

text \<open>\<open>checkint n v\<close> is \<open>luaL_checkint\<close> of argument \<open>n\<close>.\<close>

type_synonym checker = "nat \<Rightarrow> tvalue \<Rightarrow> int result"

function tinsert_loop :: "'t getter \<Rightarrow> 't setter \<Rightarrow> int \<Rightarrow> int \<Rightarrow> 't \<Rightarrow> ('t, unit) act" where
  "tinsert_loop geti seti i pos t =
     (if i > pos then abind (seti t i (geti t (i - 1))) (\<lambda>t _. tinsert_loop geti seti (i - 1) pos t)
      else Some (t, Inr ()))"
  by pat_completeness auto
termination by (relation "measure (\<lambda>(geti, seti, i, pos, t). nat (i - pos))") auto

declare tinsert_loop.simps [simp del]

definition tinsert ::
  "'t getter \<Rightarrow> 't setter \<Rightarrow> ('t \<Rightarrow> int option) \<Rightarrow> checker \<Rightarrow> tvalue list \<Rightarrow> 't \<Rightarrow> ('t, tvalue list) act" where
  "tinsert geti seti getn checkint args t =
     (case getn t of None \<Rightarrow> None
      | Some n \<Rightarrow>
        let e = n + 1 in
        case args of
          [v] \<Rightarrow> abind (seti t e v) (\<lambda>t _. Some (t, Inr []))
        | [p, v] \<Rightarrow>
            (case checkint 2 p of Inl er \<Rightarrow> Some (t, Inl er)
             | Inr pos \<Rightarrow>
                 let e = (if pos > e then pos else e)
                 in abind (tinsert_loop geti seti e pos t) (\<lambda>t _.
                    abind (seti t pos v) (\<lambda>t _. Some (t, Inr []))))
        | _ \<Rightarrow> aerror t (''wrong number of arguments to '' @ LUA_QL ''insert''))"

function tremove_loop :: "'t getter \<Rightarrow> 't setter \<Rightarrow> int \<Rightarrow> int \<Rightarrow> 't \<Rightarrow> ('t, unit) act" where
  "tremove_loop geti seti pos e t =
     (if pos < e then abind (seti t pos (geti t (pos + 1))) (\<lambda>t _. tremove_loop geti seti (pos + 1) e t)
      else Some (t, Inr ()))"
  by pat_completeness auto
termination by (relation "measure (\<lambda>(geti, seti, pos, e, t). nat (e - pos))") auto

declare tremove_loop.simps [simp del]

definition tremove ::
  "'t getter \<Rightarrow> 't setter \<Rightarrow> ('t \<Rightarrow> int option) \<Rightarrow> checker \<Rightarrow> tvalue list \<Rightarrow> 't \<Rightarrow> ('t, tvalue list) act" where
  "tremove geti seti getn checkint args t =
     (case getn t of None \<Rightarrow> None
      | Some e \<Rightarrow>
        (case (case args of [] \<Rightarrow> Inr e | p # _ \<Rightarrow> if p = Nil then Inr e else checkint 2 p) of
           Inl er \<Rightarrow> Some (t, Inl er)
         | Inr pos \<Rightarrow>
             if \<not> (1 \<le> pos \<and> pos \<le> e) then Some (t, Inr [])
             else let r = geti t pos
                  in abind (tremove_loop geti seti pos e t) (\<lambda>t _.
                     abind (seti t e Nil) (\<lambda>t _. Some (t, Inr [r])))))"

section \<open>Concatenation\<close>

text \<open>\<open>tostr\<close> is \<open>lua_tolstring\<close>: the text of a string or number, \<open>None\<close> for anything else.\<close>

definition addfield :: "'t getter \<Rightarrow> (tvalue \<Rightarrow> bytes option) \<Rightarrow> int \<Rightarrow> bytes \<Rightarrow> 't \<Rightarrow> ('t, bytes) act" where
  "addfield geti tostr i b t =
     (case tostr (geti t i) of
        None \<Rightarrow> aerror t (''invalid value ('' @ luaT_typenames ! ttype (geti t i) @ '') at index '' @
                  int_dec i @ '' in table for '' @ LUA_QL ''concat'')
      | Some s \<Rightarrow> Some (t, Inr (b @ s)))"

function concat_loop ::
  "'t getter \<Rightarrow> (tvalue \<Rightarrow> bytes option) \<Rightarrow> bytes \<Rightarrow> int \<Rightarrow> int \<Rightarrow> bytes \<Rightarrow> 't \<Rightarrow> ('t, int \<times> bytes) act" where
  "concat_loop geti tostr sep i to b t =
     (if i < to
      then abind (addfield geti tostr i b t) (\<lambda>t b. concat_loop geti tostr sep (i + 1) to (b @ sep) t)
      else Some (t, Inr (i, b)))"
  by pat_completeness auto
termination by (relation "measure (\<lambda>(geti, tostr, sep, i, to, b, t). nat (to - i))") auto

declare concat_loop.simps [simp del]

text \<open>The separator and the bounds are the optional arguments; the last defaults to the length.\<close>

definition tconcat ::
  "'t getter \<Rightarrow> ('t \<Rightarrow> int option) \<Rightarrow> (tvalue \<Rightarrow> bytes option) \<Rightarrow> bytes option \<Rightarrow> int option \<Rightarrow> int option \<Rightarrow> 't \<Rightarrow> ('t, bytes) act" where
  "tconcat geti getn tostr sep i to t =
     (let sep = (case sep of None \<Rightarrow> [] | Some s \<Rightarrow> s); i = (case i of None \<Rightarrow> 1 | Some i \<Rightarrow> i) in
      case (case to of None \<Rightarrow> getn t | Some l \<Rightarrow> Some l) of None \<Rightarrow> None
      | Some to \<Rightarrow>
          abind (concat_loop geti tostr sep i to [] t) (\<lambda>t (i, b).
            if i = to then addfield geti tostr i b t else Some (t, Inr b)))"

section \<open>Sorting\<close>

text \<open>The order is a Lua function, if there is one, or \<open>lua_lessthan\<close>.\<close>

type_synonym 't order = "tvalue \<Rightarrow> tvalue \<Rightarrow> 't \<Rightarrow> ('t, bool) act"

definition sort_comp ::
  "(tvalue \<Rightarrow> tvalue list \<Rightarrow> 't \<Rightarrow> ('t, tvalue) act) \<Rightarrow> 't order \<Rightarrow> tvalue \<Rightarrow> 't order" where
  "sort_comp call lessthan f a b t =
     (if f \<noteq> Nil then abind (call f [a, b] t) (\<lambda>t res. Some (t, Inr (\<not> l_isfalse res)))
      else lessthan a b t)"

text \<open>\<open>set2(i, j)\<close> with \<open>x\<close> below \<open>y\<close> on the stack: \<open>y\<close> goes to \<open>i\<close>, then \<open>x\<close> to \<open>j\<close>.\<close>

definition set2 :: "'t setter \<Rightarrow> int \<Rightarrow> int \<Rightarrow> tvalue \<Rightarrow> tvalue \<Rightarrow> 't \<Rightarrow> ('t, unit) act" where
  "set2 seti i j x y t = abind (seti t i y) (\<lambda>t _. seti t j x)"

definition invalid_order :: bytes where
  "invalid_order = ''invalid order function for sorting''"

text \<open>The two inner loops give the index they stop at and the element read there.\<close>

fun sort_up :: "nat \<Rightarrow> 't getter \<Rightarrow> 't order \<Rightarrow> int \<Rightarrow> int \<Rightarrow> tvalue \<Rightarrow> 't \<Rightarrow> ('t, int \<times> tvalue) act" where
  "sort_up 0 geti lt i u p t = None"
| "sort_up (Suc n) geti lt i u p t =
     (let i = i + 1; a = geti t i
      in abind (lt a p t) (\<lambda>t b.
           if b then (if i > u then aerror t invalid_order else sort_up n geti lt i u p t)
           else Some (t, Inr (i, a))))"

fun sort_down :: "nat \<Rightarrow> 't getter \<Rightarrow> 't order \<Rightarrow> int \<Rightarrow> int \<Rightarrow> tvalue \<Rightarrow> 't \<Rightarrow> ('t, int \<times> tvalue) act" where
  "sort_down 0 geti lt j l p t = None"
| "sort_down (Suc n) geti lt j l p t =
     (let j = j - 1; a = geti t j
      in abind (lt p a t) (\<lambda>t b.
           if b then (if j < l then aerror t invalid_order else sort_down n geti lt j l p t)
           else Some (t, Inr (j, a))))"

fun sort_partition ::
  "nat \<Rightarrow> 't getter \<Rightarrow> 't setter \<Rightarrow> 't order \<Rightarrow> int \<Rightarrow> int \<Rightarrow> int \<Rightarrow> int \<Rightarrow> tvalue \<Rightarrow> 't \<Rightarrow> ('t, int) act" where
  "sort_partition 0 geti seti lt i j l u p t = None"
| "sort_partition (Suc n) geti seti lt i j l u p t =
     abind (sort_up n geti lt i u p t) (\<lambda>t (i, ai).
     abind (sort_down n geti lt j l p t) (\<lambda>t (j, aj).
       if j < i then Some (t, Inr i)
       else abind (set2 seti i j ai aj t) (\<lambda>t _. sort_partition n geti seti lt i j l u p t)))"

definition sort_ends :: "'t getter \<Rightarrow> 't setter \<Rightarrow> 't order \<Rightarrow> int \<Rightarrow> int \<Rightarrow> 't \<Rightarrow> ('t, unit) act" where
  "sort_ends geti seti lt l u t =
     (let al = geti t l; au = geti t u
      in abind (lt au al t) (\<lambda>t b. if b then set2 seti l u al au t else Some (t, Inr ())))"

definition sort_middle :: "'t getter \<Rightarrow> 't setter \<Rightarrow> 't order \<Rightarrow> int \<Rightarrow> int \<Rightarrow> int \<Rightarrow> 't \<Rightarrow> ('t, unit) act" where
  "sort_middle geti seti lt l i u t =
     (let ai = geti t i; al = geti t l
      in abind (lt ai al t) (\<lambda>t b.
           if b then set2 seti i l ai al t
           else let au = geti t u
                in abind (lt au ai t) (\<lambda>t b.
                     if b then set2 seti i u ai au t else Some (t, Inr ()))))"

text \<open>Two elements, three elements, and the partition with its larger part done in the same loop.\<close>

fun auxsort :: "nat \<Rightarrow> 't getter \<Rightarrow> 't setter \<Rightarrow> 't order \<Rightarrow> int \<Rightarrow> int \<Rightarrow> 't \<Rightarrow> ('t, unit) act" where
  "auxsort 0 geti seti lt l u t = None"
| "auxsort (Suc n) geti seti lt l u t =
     (if \<not> l < u then Some (t, Inr ()) else
      abind (sort_ends geti seti lt l u t) (\<lambda>t _.
      if u - l = 1 then Some (t, Inr ()) else
      let i = (l + u) div 2
      in abind (sort_middle geti seti lt l i u t) (\<lambda>t _.
      if u - l = 2 then Some (t, Inr ()) else
      let p = geti t i
      in abind (set2 seti i (u - 1) p (geti t (u - 1)) t) (\<lambda>t _.
         abind (sort_partition n geti seti lt l (u - 1) l u p t) (\<lambda>t i.
         abind (set2 seti (u - 1) i (geti t (u - 1)) (geti t i) t) (\<lambda>t _.
         let (j, i, l, u) = (if i - l < u - i then (l, i - 1, i + 1, u) else (i + 1, u, l, i - 1))
         in abind (auxsort n geti seti lt j i t) (\<lambda>t _. auxsort n geti seti lt l u t)))))))"

definition tsort ::
  "nat \<Rightarrow> 't getter \<Rightarrow> 't setter \<Rightarrow> ('t \<Rightarrow> int option) \<Rightarrow>
   (tvalue \<Rightarrow> tvalue list \<Rightarrow> 't \<Rightarrow> ('t, tvalue) act) \<Rightarrow> 't order \<Rightarrow> tvalue \<Rightarrow> 't \<Rightarrow> ('t, tvalue list) act" where
  "tsort fuel geti seti getn call lessthan f t =
     (case getn t of None \<Rightarrow> None
      | Some n \<Rightarrow>
          if f \<noteq> Nil \<and> ttype f \<noteq> 6 then aerror t ''function expected''
          else abind (auxsort fuel geti seti (sort_comp call lessthan f) 1 n t) (\<lambda>t _. Some (t, Inr [])))"

section \<open>Moving elements up and down\<close>

context raw_array begin

definition elems :: "'t \<Rightarrow> int \<Rightarrow> int \<Rightarrow> tvalue list" where
  "elems t i j = map (geti t) [i..j]"

lemma seti_ok:
  assumes "inv t" "load t < cap" "INT_MIN \<le> i" "i \<le> INT_MAX"
  shows "\<exists>t'. seti t i v = Some (t', Inr ()) \<and> inv t' \<and> load t' \<le> Suc (load t) \<and>
    (\<forall>j. INT_MIN \<le> j \<longrightarrow> j \<le> INT_MAX \<longrightarrow> geti t' j = (if j = i then v else geti t j))"
proof -
  obtain t' where "seti t i v = Some (t', Inr ())" "inv t'"
    "load t' \<le> (if geti t i = Nil then Suc (load t) else load t)"
    "\<forall>j. INT_MIN \<le> j \<longrightarrow> j \<le> INT_MAX \<longrightarrow> geti t' j = (if j = i then v else geti t j)"
    using seti [OF assms, of v] by blast
  moreover from this(3) have "load t' \<le> Suc (load t)" by (simp split: if_splits)
  ultimately show ?thesis by blast
qed

lemma tinsert_loop_moves:
  assumes "inv t" "load t + nat (i - pos) < cap" "INT_MIN < pos" "i \<le> INT_MAX"
  shows "\<exists>t'. tinsert_loop geti seti i pos t = Some (t', Inr ()) \<and> inv t' \<and>
    load t' \<le> load t + nat (i - pos) \<and>
    (\<forall>j. INT_MIN \<le> j \<longrightarrow> j \<le> INT_MAX \<longrightarrow>
       geti t' j = (if pos < j \<and> j \<le> i then geti t (j - 1) else geti t j))"
  using assms
proof (induction "nat (i - pos)" arbitrary: i t)
  case 0
  then show ?case by (auto simp: tinsert_loop.simps [of _ _ i])
next
  case (Suc n)
  then have i: "pos < i" by simp
  obtain t1 where t1: "seti t i (geti t (i - 1)) = Some (t1, Inr ())" "inv t1" "load t1 \<le> Suc (load t)"
    "\<forall>j. INT_MIN \<le> j \<longrightarrow> j \<le> INT_MAX \<longrightarrow> geti t1 j = (if j = i then geti t (i - 1) else geti t j)"
  proof -
    have "load t < cap" "INT_MIN \<le> i" using Suc.prems i by auto
    then show thesis using that seti_ok [of t i "geti t (i - 1)"] Suc.prems by blast
  qed
  have "n = nat (i - 1 - pos)" "load t1 + nat (i - 1 - pos) < cap" "i - 1 \<le> INT_MAX"
    using Suc.hyps(2) Suc.prems t1(3) i by auto
  from Suc.hyps(1) [OF this(1) t1(2) this(2) Suc.prems(3) this(3)]
  obtain t' where t': "tinsert_loop geti seti (i - 1) pos t1 = Some (t', Inr ())" "inv t'"
    "load t' \<le> load t1 + nat (i - 1 - pos)"
    "\<forall>j. INT_MIN \<le> j \<longrightarrow> j \<le> INT_MAX \<longrightarrow>
       geti t' j = (if pos < j \<and> j \<le> i - 1 then geti t1 (j - 1) else geti t1 j)"
    by blast
  have "geti t' j = (if pos < j \<and> j \<le> i then geti t (j - 1) else geti t j)"
    if "INT_MIN \<le> j" "j \<le> INT_MAX" for j
    using t'(4) t1(4) that Suc.prems(3,4) i by auto
  moreover have "load t' \<le> load t + nat (i - pos)" using t'(3) t1(3) i by linarith
  ultimately show ?case
    using t1 t' i by (subst tinsert_loop.simps) auto
qed

lemma tremove_loop_moves:
  assumes "inv t" "load t + nat (e - pos) < cap" "INT_MIN \<le> pos" "e \<le> INT_MAX"
  shows "\<exists>t'. tremove_loop geti seti pos e t = Some (t', Inr ()) \<and> inv t' \<and>
    load t' \<le> load t + nat (e - pos) \<and>
    (\<forall>j. INT_MIN \<le> j \<longrightarrow> j \<le> INT_MAX \<longrightarrow>
       geti t' j = (if pos \<le> j \<and> j < e then geti t (j + 1) else geti t j))"
  using assms
proof (induction "nat (e - pos)" arbitrary: pos t)
  case 0
  then show ?case by (auto simp: tremove_loop.simps [of _ _ pos])
next
  case (Suc n)
  then have i: "pos < e" by simp
  obtain t1 where t1: "seti t pos (geti t (pos + 1)) = Some (t1, Inr ())" "inv t1" "load t1 \<le> Suc (load t)"
    "\<forall>j. INT_MIN \<le> j \<longrightarrow> j \<le> INT_MAX \<longrightarrow> geti t1 j = (if j = pos then geti t (pos + 1) else geti t j)"
  proof -
    have "load t < cap" "pos \<le> INT_MAX" using Suc.prems i by auto
    then show thesis using that seti_ok [of t pos "geti t (pos + 1)"] Suc.prems by blast
  qed
  have "n = nat (e - (pos + 1))" "load t1 + nat (e - (pos + 1)) < cap" "INT_MIN \<le> pos + 1"
    using Suc.hyps(2) Suc.prems t1(3) i by auto
  from Suc.hyps(1) [OF this(1) t1(2) this(2,3) Suc.prems(4)]
  obtain t' where t': "tremove_loop geti seti (pos + 1) e t1 = Some (t', Inr ())" "inv t'"
    "load t' \<le> load t1 + nat (e - (pos + 1))"
    "\<forall>j. INT_MIN \<le> j \<longrightarrow> j \<le> INT_MAX \<longrightarrow>
       geti t' j = (if pos + 1 \<le> j \<and> j < e then geti t1 (j + 1) else geti t1 j)"
    by blast
  have "geti t' j = (if pos \<le> j \<and> j < e then geti t (j + 1) else geti t j)"
    if "INT_MIN \<le> j" "j \<le> INT_MAX" for j
    using t'(4) t1(4) that Suc.prems(3,4) i by auto
  moreover have "load t' \<le> load t + nat (e - pos)" using t'(3) t1(3) i by linarith
  ultimately show ?case
    using t1 t' i by (subst tremove_loop.simps) auto
qed

lemma length_elems [simp]: "length (elems t i j) = nat (j - i + 1)"
  by (simp add: elems_def)

lemma nth_elems: "k < nat (j - i + 1) \<Longrightarrow> elems t i j ! k = geti t (i + int k)"
  by (simp add: elems_def nth_upto)

lemma tinsert_inserts:
  assumes "inv t" "getn t = Some n" "0 \<le> n" "n < INT_MAX" "checkint 2 p = Inr pos" "1 \<le> pos" "pos \<le> n + 1"
    and "load t + nat (n + 2 - pos) < cap"
  shows "\<exists>t'. tinsert geti seti getn checkint [p, v] t = Some (t', Inr []) \<and> inv t' \<and>
    elems t' 1 (n + 1) = take (nat (pos - 1)) (elems t 1 n) @ v # drop (nat (pos - 1)) (elems t 1 n)"
proof -
  have "load t + nat (n + 1 - pos) < cap" "INT_MIN < pos" "n + 1 \<le> INT_MAX"
    using assms by (auto simp: INT_MIN_def)
  from tinsert_loop_moves [OF assms(1) this]
  obtain t1 where t1: "tinsert_loop geti seti (n + 1) pos t = Some (t1, Inr ())" "inv t1"
    "load t1 \<le> load t + nat (n + 1 - pos)"
    "\<forall>j. INT_MIN \<le> j \<longrightarrow> j \<le> INT_MAX \<longrightarrow> geti t1 j = (if pos < j \<and> j \<le> n + 1 then geti t (j - 1) else geti t j)"
    by blast
  have "load t1 < cap" "INT_MIN \<le> pos" "pos \<le> INT_MAX"
    using t1(3) assms by (auto simp: INT_MIN_def)
  from seti_ok [OF t1(2) this, of v]
  obtain t' where t': "seti t1 pos v = Some (t', Inr ())" "inv t'"
    "\<forall>j. INT_MIN \<le> j \<longrightarrow> j \<le> INT_MAX \<longrightarrow> geti t' j = (if j = pos then v else geti t1 j)"
    by blast
  have at: "geti t' j = (if j = pos then v else if pos < j then geti t (j - 1) else geti t j)"
    if "1 \<le> j" "j \<le> n + 1" for j
    using t'(3) t1(4) that assms(4) by (auto simp: INT_MIN_def)
  have "elems t' 1 (n + 1) = take (nat (pos - 1)) (elems t 1 n) @ v # drop (nat (pos - 1)) (elems t 1 n)"
    (is "?l = ?r")
  proof (rule nth_equalityI)
    show "length ?l = length ?r" using assms by auto
    fix k assume "k < length ?l"
    then have k: "int k \<le> n" using assms(3) by auto
    then have l: "?l ! k = geti t' (1 + int k)" using assms(3) by (simp add: nth_elems)
    show "?l ! k = ?r ! k"
    proof (cases "1 + int k" pos rule: linorder_cases)
      case less
      then show ?thesis using k l at [of "1 + int k"] assms by (auto simp: nth_append nth_elems)
    next
      case equal
      then show ?thesis using k l at [of "1 + int k"] assms by (auto simp: nth_append nth_elems min_def)
    next
      case greater
      then have "k - nat (pos - 1) = Suc (k - nat pos)" "nat pos \<le> k"
        "nat (pos - 1) + k - nat pos = k - 1" "1 + int (k - 1) = int k" "k - 1 < nat n"
        "\<not> nat n \<le> nat (pos - 1)"
        using assms(3,6) k by auto
      then show ?thesis using k l at [of "1 + int k"] assms greater
        by (auto simp: nth_append nth_elems min_def)
    qed
  qed
  then show ?thesis
    using t1(1) t'(1,2) assms(2,5,7) by (auto simp: tinsert_def Let_def)
qed

lemma tremove_removes:
  assumes "inv t" "getn t = Some n" "n < INT_MAX" "1 \<le> pos" "pos \<le> n"
    and "args = [] \<and> pos = n \<or> args = [p] \<and> p \<noteq> Nil \<and> checkint 2 p = Inr pos"
    and "load t + nat (n + 1 - pos) < cap"
  shows "\<exists>t'. tremove geti seti getn checkint args t = Some (t', Inr [geti t pos]) \<and> inv t' \<and> geti t' n = Nil \<and>
    elems t' 1 (n - 1) = take (nat (pos - 1)) (elems t 1 n) @ drop (nat pos) (elems t 1 n)"
proof -
  have "load t + nat (n - pos) < cap" "INT_MIN \<le> pos" "n \<le> INT_MAX"
    using assms by (auto simp: INT_MIN_def)
  from tremove_loop_moves [OF assms(1) this]
  obtain t1 where t1: "tremove_loop geti seti pos n t = Some (t1, Inr ())" "inv t1"
    "load t1 \<le> load t + nat (n - pos)"
    "\<forall>j. INT_MIN \<le> j \<longrightarrow> j \<le> INT_MAX \<longrightarrow> geti t1 j = (if pos \<le> j \<and> j < n then geti t (j + 1) else geti t j)"
    by blast
  have "load t1 < cap" "INT_MIN \<le> n" "n \<le> INT_MAX"
    using t1(3) assms by (auto simp: INT_MIN_def)
  from seti_ok [OF t1(2) this, of Nil]
  obtain t' where t': "seti t1 n Nil = Some (t', Inr ())" "inv t'"
    "\<forall>j. INT_MIN \<le> j \<longrightarrow> j \<le> INT_MAX \<longrightarrow> geti t' j = (if j = n then Nil else geti t1 j)"
    by blast
  have at: "geti t' j = (if pos \<le> j then geti t (j + 1) else geti t j)" if "1 \<le> j" "j < n" for j
    using t'(3) t1(4) that assms(3) by (auto simp: INT_MIN_def)
  have "elems t' 1 (n - 1) = take (nat (pos - 1)) (elems t 1 n) @ drop (nat pos) (elems t 1 n)"
    (is "?l = ?r")
  proof (rule nth_equalityI)
    show "length ?l = length ?r" using assms by auto
    fix k assume "k < length ?l"
    then have k: "1 + int k < n" by auto
    then have l: "?l ! k = geti t' (1 + int k)" by (simp add: nth_elems)
    show "?l ! k = ?r ! k"
    proof (cases "1 + int k < pos")
      case True
      then show ?thesis using k l at [of "1 + int k"] assms by (auto simp: nth_append nth_elems)
    next
      case False
      then have "nat (pos - 1) \<le> k" "nat pos + (k - nat (pos - 1)) = k + 1" using assms(4) by auto
      then show ?thesis using k l at [of "1 + int k"] assms False
        by (auto simp: nth_append nth_elems min_def add.commute)
    qed
  qed
  moreover have "geti t' n = Nil" using t'(3) assms by (auto simp: INT_MIN_def)
  ultimately show ?thesis
    using t1(1) t'(1,2) assms(2,4,5,6) by (auto simp: tremove_def)
qed

end

section \<open>On the model's own tables\<close>

text \<open>The first \<open>n\<close> elements of a table as a list.\<close>

definition table_list :: "Table \<Rightarrow> int \<Rightarrow> tvalue list" where
  "table_list t n = map (lua_rawgeti t) [1..n]"

definition number_arg :: checker where
  "number_arg n v = (case v of Number x \<Rightarrow> Inr (lua_number2int x) | _ \<Rightarrow> runerror ''number expected'')"

text \<open>A table with one element, for instances.\<close>

definition one_table :: Table where
  "one_table = new_table\<lparr>array := [Boolean True]\<rparr>"

lemma one_table_ok: "table_ok hs one_table"
proof -
  have m: "mainposition hs (new_table\<lparr>array := [Boolean True]\<rparr>) = mainposition hs new_table"
    by (rule mainposition_cong) simp
  show ?thesis
    using new_table_ok(1) [of hs] unfolding table_ok_def one_table_def m
    by (simp add: new_table_def sizearray_def sizenode_def dummynode_def live_def twoto_def)
qed

lemma one_table_facts: "luaH_getn 0 one_table = Some 1" "entries one_table = 1"
  "number_arg 2 (Number 4607182418800017408) = Inr 1" "table_list one_table 1 = [Boolean True]"
proof -
  show "luaH_getn 0 one_table = Some 1" by (simp add: luaH_getn_def one_table_def new_table_def)
qed code_simp+

text \<open>C19: \<open>table.insert\<close> at a position of a table with room inserts into the list of its elements.\<close>

theorem table_insert_list:
  assumes "table_ok hs t" "luaH_getn g t = Some n" "0 \<le> n" "n < INT_MAX"
    and "number_arg 2 p = Inr pos" "1 \<le> pos" "pos \<le> n + 1" "entries t + nat (n + 2 - pos) < 2 ^ 26"
  shows "\<exists>t'. tinsert lua_rawgeti (lua_rawseti hs granting (Suc f)) (luaH_getn g) number_arg [p, v] t =
      Some (t', Inr []) \<and> table_ok hs t' \<and>
    table_list t' (n + 1) = take (nat (pos - 1)) (table_list t n) @ v # drop (nat (pos - 1)) (table_list t n)"
  using tab.tinsert_inserts [OF assms(1), of "luaH_getn g" n number_arg p pos f v] assms(2-)
  by (simp add: tab.elems_def table_list_def)

theorem table_insert_list_witness:
  "\<exists>t'. tinsert lua_rawgeti (lua_rawseti (\<lambda>_. 0) granting 1) (luaH_getn 0) number_arg
      [Number 4607182418800017408, Boolean False] one_table = Some (t', Inr []) \<and>
    table_list t' 2 = [Boolean False, Boolean True]"
  using table_insert_list [OF one_table_ok one_table_facts(1) _ _ one_table_facts(3), where v = "Boolean False"
      and hs = "\<lambda>_. 0" and f = 0]
  by (auto simp: one_table_facts)

text \<open>C20: \<open>table.remove\<close> gives back the element at the position, or the last one, and takes it out of the
  list of elements, and the slot behind the shorter list is empty.\<close>

theorem table_remove_list:
  assumes "table_ok hs t" "luaH_getn g t = Some n" "n < INT_MAX" "1 \<le> pos" "pos \<le> n"
    and "args = [] \<and> pos = n \<or> args = [p] \<and> p \<noteq> Nil \<and> number_arg 2 p = Inr pos"
    and "entries t + nat (n + 1 - pos) < 2 ^ 26"
  shows "\<exists>t'. tremove lua_rawgeti (lua_rawseti hs granting (Suc f)) (luaH_getn g) number_arg args t =
      Some (t', Inr [lua_rawgeti t pos]) \<and> table_ok hs t' \<and> lua_rawgeti t' n = Nil \<and>
    table_list t' (n - 1) = take (nat (pos - 1)) (table_list t n) @ drop (nat pos) (table_list t n)"
  using tab.tremove_removes [OF assms(1), of "luaH_getn g" n pos args p number_arg f] assms(2-)
  by (simp add: tab.elems_def table_list_def)

theorem table_remove_list_witness:
  "\<exists>t'. tremove lua_rawgeti (lua_rawseti (\<lambda>_. 0) granting 1) (luaH_getn 0) number_arg [] one_table =
      Some (t', Inr [Boolean True]) \<and> table_list t' 0 = []"
proof -
  have "lua_rawgeti one_table 1 = Boolean True" by code_simp
  then show ?thesis
    using table_remove_list [OF one_table_ok one_table_facts(1), where pos = 1 and args = "[]" and hs = "\<lambda>_. 0" and f = 0]
    by (auto simp: one_table_facts)
qed

end
