(* ===== verification/Lua_Proto.thy ===== *)
theory Lua_Proto
  imports Lua_Opcodes Lua_Object
begin

text \<open>
  Function prototypes, the \<^verbatim>\<open>Proto\<close> of \<^verbatim>\<open>src/src/lobject.h\<close>, by content: a string is its bytes
  (\<open>None\<close> for a null pointer), a vector with its size is a list. Strings are interned, so that
  comparing their pointers is comparing their bytes. The fields \<open>k\<close> and \<open>p\<close> are \<open>konsts\<close> and
  \<open>protos\<close> here.
\<close>

datatype konst = KNil | KBool bool | KNum lua_Number | KStr "bytes option"

record LocVar =
  varname :: "bytes option"
  startpc :: int
  endpc :: int

datatype Proto = Proto
  (source: "bytes option") (linedefined: int) (lastlinedefined: int)
  (nups: u8) (numparams: u8) (is_vararg: u8) (maxstacksize: u8)
  (code: "Instruction list") (konsts: "konst list") (protos: "Proto list")
  (lineinfo: "int list") (locvars: "LocVar list") (upvalues: "bytes option list")

definition VARARG_HASARG :: u8 where "VARARG_HASARG = 1"
definition VARARG_ISVARARG :: u8 where "VARARG_ISVARARG = 2"
definition VARARG_NEEDSARG :: u8 where "VARARG_NEEDSARG = 4"

definition MAXSTACK :: int where "MAXSTACK = 250"

definition sizecode :: "Proto \<Rightarrow> int" where "sizecode f = int (length (code f))"
definition sizek :: "Proto \<Rightarrow> int" where "sizek f = int (length (konsts f))"
definition sizep :: "Proto \<Rightarrow> int" where "sizep f = int (length (protos f))"
definition maxstack :: "Proto \<Rightarrow> int" where "maxstack f = uint (maxstacksize f)"

lemmas proto_sizes = sizecode_def sizek_def sizep_def maxstack_def

definition is_kstr :: "konst \<Rightarrow> bool" where
  "is_kstr c = (case c of KStr s \<Rightarrow> True | _ \<Rightarrow> False)"

end
