(* ===== verification/Lua_Checker.thy ===== *)
theory Lua_Checker
  imports Lua_Proto
begin

text \<open>
  The code checker of \<^verbatim>\<open>src/src/ldebug.c\<close>, \<open>symbexec\<close>: it walks through the code of a function,
  checks every instruction it meets, and finds the last one that changed a register. A run is
  accepted, rejected (a \<open>check\<close> that fails returns \<open>0\<close>), or reads outside a vector, which the
  code must never do.
\<close>

section \<open>Outcomes\<close>

datatype 'a sym = Acc 'a | Rej | Oob

fun sbind :: "'a sym \<Rightarrow> ('a \<Rightarrow> 'b sym) \<Rightarrow> 'b sym" where
  "sbind (Acc x) f = f x"
| "sbind Rej f = Rej"
| "sbind Oob f = Oob"

lemma sbind_cong [fundef_cong]:
  "m = m' \<Longrightarrow> (\<And>x. m' = Acc x \<Longrightarrow> f x = f' x) \<Longrightarrow> sbind m f = sbind m' f'"
  by (cases m') auto

lemma sbind_Acc_iff: "sbind m f = Acc y \<longleftrightarrow> (\<exists>x. m = Acc x \<and> f x = Acc y)"
  by (cases m) auto

lemma sbind_Oob_iff: "sbind m f = Oob \<longleftrightarrow> m = Oob \<or> (\<exists>x. m = Acc x \<and> f x = Oob)"
  by (cases m) auto

definition chk :: "bool \<Rightarrow> 'a sym \<Rightarrow> 'a sym" where
  "chk c m = (if c then m else Rej)"

lemma chk_cong [fundef_cong]: "c = c' \<Longrightarrow> (c' \<Longrightarrow> m = m') \<Longrightarrow> chk c m = chk c' m'"
  by (simp add: chk_def)

lemma chk_Acc_iff: "chk c m = Acc x \<longleftrightarrow> c \<and> m = Acc x"
  by (simp add: chk_def)

lemma chk_Oob_iff: "chk c m = Oob \<longleftrightarrow> c \<and> m = Oob"
  by (simp add: chk_def)

lemmas sym_iffs = sbind_Acc_iff sbind_Oob_iff chk_Acc_iff chk_Oob_iff

definition at :: "'a list \<Rightarrow> int \<Rightarrow> 'a sym" where
  "at xs i = (if 0 \<le> i \<and> i < int (length xs) then Acc (xs ! nat i) else Oob)"

section \<open>The checks\<close>

definition NO_REG :: int where "NO_REG = 255"

definition isreg :: "Proto \<Rightarrow> int \<Rightarrow> bool" where
  "isreg pt r \<longleftrightarrow> r < maxstack pt"

definition precheck :: "Proto \<Rightarrow> bool sym" where
  "precheck pt =
     chk (maxstack pt \<le> MAXSTACK)
    (chk (uint (numparams pt) + uint (is_vararg pt AND VARARG_HASARG) \<le> maxstack pt)
    (chk (is_vararg pt AND VARARG_NEEDSARG = 0 \<or> is_vararg pt AND VARARG_HASARG \<noteq> 0)
    (chk (int (length (upvalues pt)) \<le> uint (nups pt))
    (chk (int (length (lineinfo pt)) = sizecode pt \<or> lineinfo pt = [])
    (chk (sizecode pt > 0)
    (sbind (at (code pt) (sizecode pt - 1)) (\<lambda>i.
     chk (GET_OPCODE i = opnum OP_RETURN) (Acc True))))))))"

definition luaG_checkopenop :: "Instruction \<Rightarrow> bool" where
  "luaG_checkopenop i =
     (case op_of (GET_OPCODE i) of
        Some OP_CALL \<Rightarrow> GETARG_B i = 0
      | Some OP_TAILCALL \<Rightarrow> GETARG_B i = 0
      | Some OP_RETURN \<Rightarrow> GETARG_B i = 0
      | Some OP_SETLIST \<Rightarrow> GETARG_B i = 0
      | _ \<Rightarrow> False)"

definition checkArgMode :: "Proto \<Rightarrow> int \<Rightarrow> OpArgMask \<Rightarrow> bool" where
  "checkArgMode pt r mode =
     (case mode of
        OpArgN \<Rightarrow> r = 0
      | OpArgU \<Rightarrow> True
      | OpArgR \<Rightarrow> isreg pt r
      | OpArgK \<Rightarrow> if ISK r then INDEXK r < sizek pt else r < maxstack pt)"

text \<open>A word that looks like a \<open>SETLIST\<close> whose count is in the next word.\<close>

definition setlist0 :: "Instruction \<Rightarrow> bool" where
  "setlist0 d \<longleftrightarrow> GET_OPCODE d = opnum OP_SETLIST \<and> GETARG_C d = 0"

text \<open>How many such words stand right before \<open>dest\<close>, counted from the \<open>j\<close>-th on.\<close>

function setlist_run :: "Proto \<Rightarrow> int \<Rightarrow> int \<Rightarrow> int sym" where
  "setlist_run pt dest j =
     (if j < dest
      then sbind (at (code pt) (dest - 1 - j)) (\<lambda>d.
             if \<not> setlist0 d then Acc j else setlist_run pt dest (j + 1))
      else Acc j)"
  by pat_completeness auto
termination by (relation "measure (\<lambda>(pt, dest, j). nat (dest - j))") auto

declare setlist_run.simps [simp del]

text \<open>The operands \<open>b\<close> and \<open>c\<close>, checked by the mode of the instruction.\<close>

definition sym_args :: "Proto \<Rightarrow> int \<Rightarrow> Instruction \<Rightarrow> OpCode \<Rightarrow> (int \<times> int) sym" where
  "sym_args pt pc i op =
     (case getOpMode op of
        iABC \<Rightarrow>
          let b = GETARG_B i; c = GETARG_C i
          in chk (checkArgMode pt b (getBMode op)) (chk (checkArgMode pt c (getCMode op)) (Acc (b, c)))
      | iABx \<Rightarrow>
          let b = GETARG_Bx i
          in if getBMode op = OpArgK then chk (b < sizek pt) (Acc (b, 0)) else Acc (b, 0)
      | iAsBx \<Rightarrow>
          let b = GETARG_sBx i
          in if getBMode op = OpArgR
             then let dest = pc + 1 + b
                  in chk (0 \<le> dest \<and> dest < sizecode pt)
                       (if dest > 0
                        then sbind (setlist_run pt dest 0) (\<lambda>j. chk (even j) (Acc (b, 0)))
                        else Acc (b, 0))
             else Acc (b, 0))"

text \<open>The pseudo instructions behind a \<open>CLOSURE\<close>, from the \<open>j\<close>-th on.\<close>

function closure_ups :: "Proto \<Rightarrow> int \<Rightarrow> int \<Rightarrow> int \<Rightarrow> unit sym" where
  "closure_ups pt pc nup j =
     (if j \<le> nup
      then sbind (at (code pt) (pc + j)) (\<lambda>i.
             chk (GET_OPCODE i = opnum OP_GETUPVAL \<or> GET_OPCODE i = opnum OP_MOVE)
               (closure_ups pt pc nup (j + 1)))
      else Acc ())"
  by pat_completeness auto
termination by (relation "measure (\<lambda>(pt, pc, nup, j). nat (nup + 1 - j))") auto

declare closure_ups.simps [simp del]

definition openop :: "Proto \<Rightarrow> int \<Rightarrow> 'a sym \<Rightarrow> 'a sym" where
  "openop pt pc m = sbind (at (code pt) (pc + 1)) (\<lambda>i. chk (luaG_checkopenop i) m)"

section \<open>Symbolic execution\<close>

text \<open>The second \<open>switch\<close>: the position the scan goes on from, and the last change of \<open>reg\<close>.\<close>

definition sym_effect ::
  "Proto \<Rightarrow> int \<Rightarrow> int \<Rightarrow> int \<Rightarrow> OpCode \<Rightarrow> int \<Rightarrow> int \<Rightarrow> int \<Rightarrow> int \<Rightarrow> (int \<times> int) sym" where
  "sym_effect pt lastpc reg pc op a b c lst =
    (let jump = (let dest = pc + 1 + b in
                 Acc (if reg \<noteq> NO_REG \<and> pc < dest \<and> dest \<le> lastpc then pc + b else pc, lst));
         call = (let c = c - 1; r = Acc (pc, if reg \<ge> a then pc else lst) in
                 chk (b \<noteq> 0 \<longrightarrow> isreg pt (a + b - 1))
                   (if c = - 1 then openop pt pc r
                    else if c \<noteq> 0 then chk (isreg pt (a + c - 1)) r else r))
     in case op of
       OP_LOADBOOL \<Rightarrow>
         if c = 1
         then chk (pc + 2 < sizecode pt) (sbind (at (code pt) (pc + 1)) (\<lambda>i.
                chk (GET_OPCODE i \<noteq> opnum OP_SETLIST \<or> GETARG_C i \<noteq> 0) (Acc (pc, lst))))
         else Acc (pc, lst)
     | OP_LOADNIL \<Rightarrow> Acc (pc, if a \<le> reg \<and> reg \<le> b then pc else lst)
     | OP_GETUPVAL \<Rightarrow> chk (b < uint (nups pt)) (Acc (pc, lst))
     | OP_SETUPVAL \<Rightarrow> chk (b < uint (nups pt)) (Acc (pc, lst))
     | OP_GETGLOBAL \<Rightarrow> sbind (at (konsts pt) b) (\<lambda>v. chk (is_kstr v) (Acc (pc, lst)))
     | OP_SETGLOBAL \<Rightarrow> sbind (at (konsts pt) b) (\<lambda>v. chk (is_kstr v) (Acc (pc, lst)))
     | OP_SELF \<Rightarrow> chk (isreg pt (a + 1)) (Acc (pc, if reg = a + 1 then pc else lst))
     | OP_CONCAT \<Rightarrow> chk (b < c) (Acc (pc, lst))
     | OP_TFORLOOP \<Rightarrow>
         chk (c \<ge> 1) (chk (isreg pt (a + 2 + c)) (Acc (pc, if reg \<ge> a + 2 then pc else lst)))
     | OP_FORLOOP \<Rightarrow> chk (isreg pt (a + 3)) jump
     | OP_FORPREP \<Rightarrow> chk (isreg pt (a + 3)) jump
     | OP_JMP \<Rightarrow> jump
     | OP_CALL \<Rightarrow> call
     | OP_TAILCALL \<Rightarrow> call
     | OP_RETURN \<Rightarrow>
         let b = b - 1 in if b > 0 then chk (isreg pt (a + b - 1)) (Acc (pc, lst)) else Acc (pc, lst)
     | OP_SETLIST \<Rightarrow>
         chk (b > 0 \<longrightarrow> isreg pt (a + b))
           (if c = 0 then chk (pc + 1 < sizecode pt - 1) (Acc (pc + 1, lst)) else Acc (pc, lst))
     | OP_CLOSURE \<Rightarrow>
         chk (b < sizep pt) (sbind (at (protos pt) b) (\<lambda>f.
         let nup = uint (nups f)
         in chk (pc + nup < sizecode pt) (sbind (closure_ups pt pc nup 1) (\<lambda>_.
              Acc (if reg \<noteq> NO_REG then pc + nup else pc, lst)))))
     | OP_VARARG \<Rightarrow>
         let b = b - 1; r = chk (isreg pt (a + b - 1)) (Acc (pc, lst))
         in chk (is_vararg pt AND VARARG_ISVARARG \<noteq> 0 \<and> is_vararg pt AND VARARG_NEEDSARG = 0)
              (if b = - 1 then openop pt pc r else r)
     | _ \<Rightarrow> Acc (pc, lst))"

definition sym_step :: "Proto \<Rightarrow> int \<Rightarrow> int \<Rightarrow> int \<Rightarrow> int \<Rightarrow> (int \<times> int) sym" where
  "sym_step pt lastpc reg pc lst =
     sbind (at (code pt) pc) (\<lambda>i.
       case op_of (GET_OPCODE i) of
         None \<Rightarrow> Rej
       | Some op \<Rightarrow>
           let a = GETARG_A i
           in chk (isreg pt a)
             (sbind (sym_args pt pc i op) (\<lambda>(b, c).
              let lst = (if testAMode op \<and> a = reg then pc else lst);
                  effect = sym_effect pt lastpc reg pc op a b c lst
              in if testTMode op
                 then chk (pc + 2 < sizecode pt) (sbind (at (code pt) (pc + 1)) (\<lambda>i'.
                        chk (GET_OPCODE i' = opnum OP_JMP) effect))
                 else effect)))"

lemma sym_effect_mono:
  assumes "sym_effect pt lastpc reg pc op a b c lst = Acc (pc', lst')"
  shows "pc \<le> pc'"
  using assms
  by (cases op) (auto simp: sym_effect_def Let_def sym_iffs openop_def split: if_splits)

lemma sym_step_mono:
  assumes "sym_step pt lastpc reg pc lst = Acc (pc', lst')"
  shows "pc \<le> pc'"
  using assms
  by (auto simp: sym_step_def Let_def sym_iffs split: option.splits if_splits dest: sym_effect_mono)

function symb_loop :: "Proto \<Rightarrow> int \<Rightarrow> int \<Rightarrow> int \<Rightarrow> int \<Rightarrow> int sym" where
  "symb_loop pt lastpc reg pc lst =
     (if pc < lastpc
      then sbind (sym_step pt lastpc reg pc lst) (\<lambda>(pc, lst). symb_loop pt lastpc reg (pc + 1) lst)
      else Acc lst)"
  by pat_completeness auto
termination
  by (relation "measure (\<lambda>(pt, lastpc, reg, pc, lst). nat (lastpc - pc))")
    (auto dest: sym_step_mono)

declare symb_loop.simps [simp del]

definition symbexec :: "Proto \<Rightarrow> int \<Rightarrow> int \<Rightarrow> Instruction sym" where
  "symbexec pt lastpc reg =
     sbind (precheck pt) (\<lambda>_.
     sbind (symb_loop pt lastpc reg 0 (sizecode pt - 1)) (\<lambda>lst. at (code pt) lst))"

text \<open>The result is compared with \<open>0\<close>: an accepted run that ends in the word \<open>0\<close> is a rejection.\<close>

definition luaG_checkcode :: "Proto \<Rightarrow> bool" where
  "luaG_checkcode pt =
     (case symbexec pt (sizecode pt) NO_REG of Acc i \<Rightarrow> i \<noteq> 0 | _ \<Rightarrow> False)"

section \<open>The checker stays inside its vectors\<close>

lemma precheck_not_Oob: "precheck pt \<noteq> Oob"
  by (auto simp: precheck_def sym_iffs at_def sizecode_def split: if_splits)

lemma precheck_ends:
  assumes "precheck pt = Acc x"
  shows "sizecode pt > 0" "GET_OPCODE (code pt ! nat (sizecode pt - 1)) = opnum OP_RETURN"
  using assms by (auto simp: precheck_def sym_iffs at_def split: if_splits)

lemma setlist_run_not_Oob: "dest \<le> sizecode pt \<Longrightarrow> 0 \<le> j \<Longrightarrow> setlist_run pt dest j \<noteq> Oob"
proof (induction pt dest j rule: setlist_run.induct)
  case (1 pt dest j)
  then show ?case
    by (subst setlist_run.simps) (auto simp: sym_iffs at_def sizecode_def split: if_splits)
qed

lemma closure_ups_not_Oob:
  "0 \<le> pc \<Longrightarrow> pc + nup < sizecode pt \<Longrightarrow> 1 \<le> j \<Longrightarrow> closure_ups pt pc nup j \<noteq> Oob"
proof (induction pt pc nup j rule: closure_ups.induct)
  case (1 pt pc nup j)
  then show ?case
    by (subst closure_ups.simps) (auto simp: sym_iffs at_def sizecode_def split: if_splits)
qed

lemma sym_args_not_Oob: "sym_args pt pc i op \<noteq> Oob"
  by (auto simp: sym_args_def Let_def sym_iffs setlist_run_not_Oob split: OpMode.split)

lemma GETARG_nonneg: "0 \<le> GETARG_B i" "0 \<le> GETARG_C i" "0 \<le> GETARG_Bx i" "0 \<le> GETARG_A i"
  by (simp_all add: GETARG_B_def GETARG_C_def GETARG_Bx_def GETARG_A_def)

lemma op_modes_Bx:
  "getOpMode OP_GETGLOBAL = iABx" "getBMode OP_GETGLOBAL = OpArgK"
  "getOpMode OP_SETGLOBAL = iABx" "getBMode OP_SETGLOBAL = OpArgK"
  "getOpMode OP_CLOSURE = iABx"
  by code_simp+

lemma sym_args_const:
  assumes "sym_args pt pc i op = Acc (b, c)"
  shows "op = OP_GETGLOBAL \<or> op = OP_SETGLOBAL \<Longrightarrow> 0 \<le> b \<and> b < sizek pt"
    and "op = OP_CLOSURE \<Longrightarrow> 0 \<le> b"
  using assms
  by (auto simp: sym_args_def Let_def sym_iffs op_modes_Bx GETARG_nonneg split: if_splits)

lemma at_inside: "0 \<le> i \<Longrightarrow> i < int (length xs) \<Longrightarrow> at xs i = Acc (xs ! nat i)"
  by (simp add: at_def)

lemma sym_effect_not_Oob:
  assumes "0 \<le> pc" "sym_args pt pc i op = Acc (b, c)"
    and "op \<noteq> OP_RETURN \<Longrightarrow> pc + 1 < sizecode pt"
  shows "sym_effect pt lastpc reg pc op a b c lst \<noteq> Oob"
proof -
  have "op \<noteq> OP_RETURN \<Longrightarrow> at (code pt) (pc + 1) = Acc (code pt ! nat (pc + 1))"
    using assms(1,3) by (simp add: at_def sizecode_def)
  moreover have "op = OP_GETGLOBAL \<or> op = OP_SETGLOBAL \<Longrightarrow> at (konsts pt) b = Acc (konsts pt ! nat b)"
    using sym_args_const(1) [OF assms(2)] by (simp add: at_def sizek_def)
  moreover have "op = OP_CLOSURE \<Longrightarrow> b < sizep pt \<Longrightarrow> at (protos pt) b = Acc (protos pt ! nat b)"
    using sym_args_const(2) [OF assms(2)] by (simp add: at_def sizep_def)
  moreover note closure_ups_not_Oob [OF assms(1)]
  ultimately show ?thesis
    by (cases op) (auto simp: sym_effect_def Let_def sym_iffs openop_def)
qed

lemma sym_effect_last:
  "sym_effect pt lastpc reg pc op a b c lst = Acc (pc', lst') \<Longrightarrow> lst' = lst \<or> lst' = pc"
  by (cases op) (auto simp: sym_effect_def Let_def sym_iffs openop_def split: if_splits)

lemma op_of_Some: "op_of n = Some op \<Longrightarrow> n = opnum op"
  by (simp add: op_of_Some_iff)

lemma sym_step_not_Oob:
  assumes "precheck pt = Acc x" "0 \<le> pc" "pc < sizecode pt"
  shows "sym_step pt lastpc reg pc lst \<noteq> Oob"
proof -
  let ?i = "code pt ! nat pc"
  have here: "at (code pt) pc = Acc ?i"
    using assms by (simp add: at_def sizecode_def)
  have more: "pc + 1 < sizecode pt" if "op_of (GET_OPCODE ?i) = Some op" "op \<noteq> OP_RETURN" for op
  proof (rule ccontr)
    assume "\<not> pc + 1 < sizecode pt"
    then have "pc = sizecode pt - 1" using assms by simp
    then have "opnum op = opnum OP_RETURN"
      using precheck_ends(2) [OF assms(1)] op_of_Some [OF that(1)] by simp
    then show False using that(2) opnum_inj by metis
  qed
  have skip: "at (code pt) (pc + 1) = Acc (code pt ! nat (pc + 1))" if "pc + 2 < sizecode pt"
    using that assms by (simp add: at_def sizecode_def)
  show ?thesis
    using sym_effect_not_Oob [OF assms(2)] more skip
    by (auto simp: sym_step_def here Let_def sym_iffs sym_args_not_Oob split: option.split)
qed

lemma sym_step_last:
  "sym_step pt lastpc reg pc lst = Acc (pc', lst') \<Longrightarrow> lst' = lst \<or> lst' = pc"
  by (auto simp: sym_step_def Let_def sym_iffs split: option.splits if_splits dest!: sym_effect_last)

lemma symb_loop_inside:
  assumes "precheck pt = Acc x" "0 \<le> pc" "lastpc \<le> sizecode pt" "0 \<le> lst" "lst < sizecode pt"
  shows "symb_loop pt lastpc reg pc lst \<noteq> Oob \<and>
    (\<forall>l. symb_loop pt lastpc reg pc lst = Acc l \<longrightarrow> 0 \<le> l \<and> l < sizecode pt)"
  using assms
proof (induction pt lastpc reg pc lst rule: symb_loop.induct)
  case (1 pt lastpc reg pc lst)
  show ?case
  proof (cases "pc < lastpc")
    case True
    then have step: "sym_step pt lastpc reg pc lst \<noteq> Oob"
      using 1(2-) by (intro sym_step_not_Oob) auto
    show ?thesis
    proof (cases "sym_step pt lastpc reg pc lst")
      case (Acc r)
      obtain pc' lst' where r: "r = (pc', lst')" by (cases r)
      have "0 \<le> pc' + 1" "0 \<le> lst'" "lst' < sizecode pt"
        using sym_step_mono [of pt lastpc reg pc lst pc' lst'] sym_step_last [of pt lastpc reg pc lst pc' lst']
          Acc r 1(2-) True by auto
      note IH = 1(1) [OF True Acc [unfolded r] refl 1(2) this(1) 1(4) this(2,3)]
      have eq: "symb_loop pt lastpc reg pc lst = symb_loop pt lastpc reg (pc' + 1) lst'"
        by (subst symb_loop.simps) (simp add: True Acc r)
      show ?thesis unfolding eq by (rule IH)
    qed (use step True in \<open>simp_all add: symb_loop.simps [of pt lastpc reg pc lst]\<close>)
  next
    case False
    then show ?thesis using 1(2-) by (simp add: symb_loop.simps [of pt lastpc reg pc lst])
  qed
qed

text \<open>C18: whatever the bytes of a function are, the checker reads no instruction, constant or prototype
  outside the vectors of the function, for every register and every last position in the code.\<close>

theorem symbexec_inside:
  assumes "lastpc \<le> sizecode pt"
  shows "symbexec pt lastpc reg \<noteq> Oob"
proof (cases "precheck pt")
  case (Acc x)
  have "sizecode pt > 0" using precheck_ends(1) [OF Acc] .
  then show ?thesis
    using symb_loop_inside [OF Acc, of 0 lastpc "sizecode pt - 1" reg] assms Acc
    by (auto simp: symbexec_def sym_iffs at_def sizecode_def)
qed (use precheck_not_Oob in \<open>auto simp: symbexec_def\<close>)

section \<open>Accepted code does not leave itself\<close>

text \<open>The positions the scan of the whole code visits.\<close>

inductive visited :: "Proto \<Rightarrow> int \<Rightarrow> int \<Rightarrow> bool" for pt where
  start: "visited pt 0 (sizecode pt - 1)"
| step: "visited pt pc lst \<Longrightarrow> pc < sizecode pt \<Longrightarrow>
    sym_step pt (sizecode pt) NO_REG pc lst = Acc (pc', lst') \<Longrightarrow> visited pt (pc' + 1) lst'"

definition seen :: "Proto \<Rightarrow> int \<Rightarrow> bool" where
  "seen pt pc \<longleftrightarrow> pc < sizecode pt \<and> (\<exists>lst. visited pt pc lst)"

text \<open>Where the interpreter goes on after the instruction at \<open>pc\<close> (\<open>luaV_execute\<close>): a test is followed
  by the jump behind it or skips it.\<close>

definition flow :: "Proto \<Rightarrow> int \<Rightarrow> Instruction \<Rightarrow> OpCode \<Rightarrow> int set" where
  "flow pt pc i op =
     (case op of
        OP_JMP \<Rightarrow> {pc + 1 + GETARG_sBx i}
      | OP_FORPREP \<Rightarrow> {pc + 1 + GETARG_sBx i}
      | OP_FORLOOP \<Rightarrow> {pc + 1, pc + 1 + GETARG_sBx i}
      | OP_LOADBOOL \<Rightarrow> {if GETARG_C i \<noteq> 0 then pc + 2 else pc + 1}
      | OP_SETLIST \<Rightarrow> {if GETARG_C i = 0 then pc + 2 else pc + 1}
      | OP_CLOSURE \<Rightarrow> {pc + 1 + uint (nups (protos pt ! nat (GETARG_Bx i)))}
      | OP_RETURN \<Rightarrow> {}
      | _ \<Rightarrow> if testTMode op then {pc + 1, pc + 2} else {pc + 1})"

lemma checkcode_accepts:
  assumes "luaG_checkcode pt"
  shows "\<exists>x. precheck pt = Acc x" "\<exists>l. symb_loop pt (sizecode pt) NO_REG 0 (sizecode pt - 1) = Acc l"
  using assms by (auto simp: luaG_checkcode_def symbexec_def sym_iffs split: sym.splits)

lemma visited_accepts:
  "visited pt pc lst \<Longrightarrow> symb_loop pt (sizecode pt) NO_REG 0 (sizecode pt - 1) = Acc l \<Longrightarrow>
    0 \<le> pc \<and> symb_loop pt (sizecode pt) NO_REG pc lst = Acc l"
proof (induction rule: visited.induct)
  case (step pc lst pc' lst')
  then show ?case
    using sym_step_mono [OF step.hyps(3)] symb_loop.simps [of pt "sizecode pt" NO_REG pc lst] by simp
qed simp

lemma visited_step:
  assumes "luaG_checkcode pt" "visited pt pc lst" "pc < sizecode pt"
  shows "\<exists>pc' lst'. sym_step pt (sizecode pt) NO_REG pc lst = Acc (pc', lst')" "0 \<le> pc"
  using visited_accepts [OF assms(2)] checkcode_accepts(2) [OF assms(1)] assms(3)
    symb_loop.simps [of pt "sizecode pt" NO_REG pc lst]
  by (auto simp: sym_iffs)

lemma sym_effect_next:
  assumes "sym_effect pt lastpc NO_REG pc op a b c lst = Acc (pc', lst')"
  shows "pc' = (if op = OP_SETLIST \<and> c = 0 then pc + 1 else pc)"
  using assms by (cases op) (auto simp: sym_effect_def Let_def sym_iffs openop_def split: if_splits)

lemma op_modes_SETLIST: "getOpMode OP_SETLIST = iABC" "testTMode OP_SETLIST = False"
  by code_simp+

lemma sym_args_fields:
  assumes "sym_args pt pc i op = Acc (b, c)"
  shows "getOpMode op = iABC \<Longrightarrow> b = GETARG_B i \<and> c = GETARG_C i"
    and "getOpMode op = iABx \<Longrightarrow> b = GETARG_Bx i"
    and "getOpMode op = iAsBx \<Longrightarrow> b = GETARG_sBx i"
  using assms by (auto simp: sym_args_def Let_def sym_iffs split: if_splits)

text \<open>One accepted step, taken apart.\<close>

lemma sym_stepE:
  assumes "sym_step pt lastpc reg pc lst = Acc (pc', lst')" "0 \<le> pc" "pc < sizecode pt"
  obtains op b c l where "op_of (GET_OPCODE (code pt ! nat pc)) = Some op"
    "sym_args pt pc (code pt ! nat pc) op = Acc (b, c)"
    "sym_effect pt lastpc reg pc op (GETARG_A (code pt ! nat pc)) b c l = Acc (pc', lst')"
    "testTMode op \<Longrightarrow> pc + 2 < sizecode pt"
  using assms
  by (auto simp: sym_step_def Let_def sym_iffs at_def sizecode_def split: option.splits if_splits)

lemma setlist0_iff:
  "op_of (GET_OPCODE i) = Some op \<Longrightarrow> setlist0 i \<longleftrightarrow> op = OP_SETLIST \<and> GETARG_C i = 0"
  using opnum_inj [of op OP_SETLIST] by (auto simp: setlist0_def op_of_Some_iff)

lemma seen_next:
  assumes "luaG_checkcode pt" "seen pt pc"
  shows "0 \<le> pc"
    and "pc + (if setlist0 (code pt ! nat pc) then 2 else 1) < sizecode pt \<Longrightarrow>
      seen pt (pc + (if setlist0 (code pt ! nat pc) then 2 else 1))"
proof -
  obtain lst where v: "visited pt pc lst" "pc < sizecode pt"
    using assms(2) by (auto simp: seen_def)
  obtain pc' lst' where s: "sym_step pt (sizecode pt) NO_REG pc lst = Acc (pc', lst')"
    using visited_step(1) [OF assms(1) v] by blast
  show nn: "0 \<le> pc" using visited_step(2) [OF assms(1) v] .
  obtain op b c l where o: "op_of (GET_OPCODE (code pt ! nat pc)) = Some op"
    "sym_args pt pc (code pt ! nat pc) op = Acc (b, c)"
    "sym_effect pt (sizecode pt) NO_REG pc op (GETARG_A (code pt ! nat pc)) b c l = Acc (pc', lst')"
    by (rule sym_stepE [OF s nn v(2)])
  have "pc' + 1 = pc + (if setlist0 (code pt ! nat pc) then 2 else 1)"
    using sym_effect_next [OF o(3)] sym_args_fields(1) [OF o(2)] op_modes_SETLIST(1) setlist0_iff [OF o(1)]
    by auto
  then show "pc + (if setlist0 (code pt ! nat pc) then 2 else 1) < sizecode pt \<Longrightarrow>
      seen pt (pc + (if setlist0 (code pt ! nat pc) then 2 else 1))"
    using visited.step [OF v s] by (auto simp: seen_def)
qed

lemma seen_covers:
  assumes "luaG_checkcode pt" "int n < sizecode pt"
  shows "seen pt (int n) \<or> 0 < n \<and> seen pt (int n - 1) \<and> setlist0 (code pt ! (n - 1))"
  using assms(2)
proof (induction n)
  case 0
  then show ?case using visited.start by (auto simp: seen_def)
next
  case (Suc n)
  then consider "seen pt (int n)" | "0 < n" "seen pt (int n - 1)" "setlist0 (code pt ! (n - 1))"
    by auto
  then show ?case
  proof cases
    case 1
    then show ?thesis
      using seen_next(2) [OF assms(1) 1] Suc.prems by (cases "setlist0 (code pt ! n)") (auto simp: add.commute)
  next
    case 2
    then have "nat (int n - 1) = n - 1" by simp
    then show ?thesis
      using seen_next(2) [OF assms(1) 2(2)] 2 Suc.prems by (auto simp: add.commute)
  qed
qed

lemma setlist_run_spec:
  "setlist_run pt dest j = Acc j' \<Longrightarrow> 0 \<le> j \<Longrightarrow> j \<le> dest \<Longrightarrow> dest \<le> sizecode pt \<Longrightarrow>
    j \<le> j' \<and> j' \<le> dest \<and> (\<forall>m. j \<le> m \<and> m < j' \<longrightarrow> setlist0 (code pt ! nat (dest - 1 - m))) \<and>
    (j' < dest \<longrightarrow> \<not> setlist0 (code pt ! nat (dest - 1 - j')))"
proof (induction pt dest j rule: setlist_run.induct)
  case (1 pt dest j)
  show ?case
  proof (cases "j < dest")
    case False
    then show ?thesis using 1(2-) by (subst (asm) setlist_run.simps) auto
  next
    case True
    then have a: "at (code pt) (dest - 1 - j) = Acc (code pt ! nat (dest - 1 - j))"
      using 1(3-) by (simp add: at_def sizecode_def)
    show ?thesis
    proof (cases "setlist0 (code pt ! nat (dest - 1 - j))")
      case False
      then show ?thesis using 1(2-) True a by (subst (asm) setlist_run.simps) auto
    next
      case run: True
      have r: "setlist_run pt dest (j + 1) = Acc j'"
        using 1(2) True a run by (subst (asm) setlist_run.simps) auto
      have "setlist0 (code pt ! nat (dest - 1 - m))" if "j \<le> m" "m < j'"
        "\<forall>m. j + 1 \<le> m \<and> m < j' \<longrightarrow> setlist0 (code pt ! nat (dest - 1 - m))" for m
        using that run by (cases "m = j") auto
      then show ?thesis
        using 1(1) [OF True a _ r] run 1(3-) True by auto
    qed
  qed
qed

lemma seen_run:
  assumes "luaG_checkcode pt" "seen pt s"
    and "\<forall>m. s \<le> m \<and> m < s + 2 * int n \<longrightarrow> setlist0 (code pt ! nat m)" "s + 2 * int n < sizecode pt"
  shows "seen pt (s + 2 * int n)"
  using assms(3,4)
proof (induction n)
  case (Suc n)
  have "seen pt (s + 2 * int n)" using Suc by auto
  moreover have "setlist0 (code pt ! nat (s + 2 * int n))" using Suc.prems(1) by auto
  ultimately show ?case
    using seen_next(2) [OF assms(1), of "s + 2 * int n"] Suc.prems(2) by (simp add: algebra_simps)
qed (use assms(2) in simp)

text \<open>An even run of words that look like open \<open>SETLIST\<close>s ends at an instruction.\<close>

lemma jump_target_seen:
  assumes "luaG_checkcode pt" "0 \<le> dest" "dest < sizecode pt"
    and "0 < dest \<Longrightarrow> \<exists>j. setlist_run pt dest 0 = Acc j \<and> even j"
  shows "seen pt dest"
proof (cases "dest = 0")
  case True
  then show ?thesis using visited.start assms(3) by (auto simp: seen_def)
next
  case False
  then obtain j where j: "setlist_run pt dest 0 = Acc j" "even j" using assms by auto
  note run = setlist_run_spec [OF j(1)]
  have j2: "j = 2 * int (nat (j div 2))" using run j(2) assms by auto
  have "seen pt (dest - j)"
    using seen_covers [OF assms(1), of "nat (dest - j)"] run assms False
    by (auto simp: nat_diff_distrib)
  moreover have "setlist0 (code pt ! nat m)" if "dest - j \<le> m" "m < dest" for m
    using run assms False that spec [of "\<lambda>m. 0 \<le> m \<and> m < j \<longrightarrow> setlist0 (code pt ! nat (dest - 1 - m))" "dest - 1 - m"]
    by auto
  moreover have e: "dest - j + 2 * int (nat (j div 2)) = dest" using j2 by linarith
  ultimately show ?thesis
    using seen_run [OF assms(1), of "dest - j" "nat (j div 2)"] assms(3) unfolding e by blast
qed

lemma not_return:
  assumes "luaG_checkcode pt" "0 \<le> pc" "pc < sizecode pt"
    and "GET_OPCODE (code pt ! nat pc) = opnum op" "op \<noteq> OP_RETURN"
  shows "pc + 1 < sizecode pt"
proof (rule ccontr)
  assume "\<not> pc + 1 < sizecode pt"
  then have "pc = sizecode pt - 1" using assms(3) by simp
  then have "opnum op = opnum OP_RETURN"
    using precheck_ends(2) checkcode_accepts(1) [OF assms(1)] assms(4) by auto
  then show False using assms(5) opnum_inj by blast
qed

lemma closure_ups_spec:
  "closure_ups pt pc nup j = Acc u \<Longrightarrow> 0 \<le> pc \<Longrightarrow> 1 \<le> j \<Longrightarrow> j \<le> m \<Longrightarrow> m \<le> nup \<Longrightarrow> pc + nup < sizecode pt \<Longrightarrow>
    GET_OPCODE (code pt ! nat (pc + m)) = opnum OP_GETUPVAL \<or>
    GET_OPCODE (code pt ! nat (pc + m)) = opnum OP_MOVE"
proof (induction pt pc nup j rule: closure_ups.induct)
  case (1 pt pc nup j)
  have a: "at (code pt) (pc + j) = Acc (code pt ! nat (pc + j))"
    using 1(3-) by (simp add: at_def sizecode_def)
  have "j \<le> nup" using 1(3-) by simp
  then have r: "GET_OPCODE (code pt ! nat (pc + j)) = opnum OP_GETUPVAL \<or>
      GET_OPCODE (code pt ! nat (pc + j)) = opnum OP_MOVE" "closure_ups pt pc nup (j + 1) = Acc u"
    using 1(2) a by (subst (asm) closure_ups.simps, auto simp: chk_Acc_iff split: if_splits)+
  show ?case
  proof (cases "j = m")
    case True
    then show ?thesis using r by simp
  next
    case False
    then show ?thesis using 1(1) [OF \<open>j \<le> nup\<close> a r(1) r(2)] 1(3-) by simp
  qed
qed

lemma op_modes_jumps:
  "op = OP_JMP \<or> op = OP_FORLOOP \<or> op = OP_FORPREP \<Longrightarrow> getOpMode op = iAsBx \<and> getBMode op = OpArgR"
proof -
  have "getOpMode OP_JMP = iAsBx \<and> getBMode OP_JMP = OpArgR" "getOpMode OP_FORLOOP = iAsBx \<and> getBMode OP_FORLOOP = OpArgR"
    "getOpMode OP_FORPREP = iAsBx \<and> getBMode OP_FORPREP = OpArgR"
    by code_simp+
  then show "op = OP_JMP \<or> op = OP_FORLOOP \<or> op = OP_FORPREP \<Longrightarrow> getOpMode op = iAsBx \<and> getBMode op = OpArgR"
    by auto
qed

lemma sym_args_jump:
  assumes "sym_args pt pc i op = Acc (b, c)" "op = OP_JMP \<or> op = OP_FORLOOP \<or> op = OP_FORPREP"
  shows "0 \<le> pc + 1 + GETARG_sBx i" "pc + 1 + GETARG_sBx i < sizecode pt"
    and "0 < pc + 1 + GETARG_sBx i \<Longrightarrow> \<exists>j. setlist_run pt (pc + 1 + GETARG_sBx i) 0 = Acc j \<and> even j"
  using assms(1) op_modes_jumps [OF assms(2)]
  by (auto simp: sym_args_def Let_def sym_iffs split: if_splits)

lemma op_modes_flow:
  "testTMode op \<longleftrightarrow> op \<in> {OP_EQ, OP_LT, OP_LE, OP_TEST, OP_TESTSET, OP_TFORLOOP}"
  "getOpMode OP_LOADBOOL = iABC"
proof -
  have "list_all (\<lambda>op. testTMode op = (op \<in> set [OP_EQ, OP_LT, OP_LE, OP_TEST, OP_TESTSET, OP_TFORLOOP])) all_opcodes"
    by code_simp
  moreover have "op \<in> set all_opcodes" by (cases op) (simp_all add: all_opcodes_def)
  ultimately show "testTMode op \<longleftrightarrow> op \<in> {OP_EQ, OP_LT, OP_LE, OP_TEST, OP_TESTSET, OP_TFORLOOP}"
    by (auto simp: list_all_iff)
  show "getOpMode OP_LOADBOOL = iABC" by code_simp
qed

lemma seen_closure:
  assumes "luaG_checkcode pt" "seen pt pc" "0 \<le> pc" "\<not> setlist0 (code pt ! nat pc)"
    and "\<forall>m. 1 \<le> m \<and> m \<le> int n \<longrightarrow> GET_OPCODE (code pt ! nat (pc + m)) = opnum OP_GETUPVAL \<or>
      GET_OPCODE (code pt ! nat (pc + m)) = opnum OP_MOVE"
    and "pc + int n < sizecode pt"
  shows "seen pt (pc + int n)"
  using assms(5,6)
proof (induction n)
  case (Suc n)
  have "\<not> setlist0 (code pt ! nat (pc + int n))"
  proof (cases n)
    case 0
    then show ?thesis using assms(4) by simp
  next
    case (Suc m)
    then show ?thesis using Suc.prems(1) by (auto simp: setlist0_def dest!: spec [of _ "int n"])
  qed
  then show ?case
    using seen_next(2) [OF assms(1) Suc.IH] Suc.prems by (auto simp: algebra_simps)
qed (use assms(2) in simp)

text \<open>Behind an \<open>OP_CLOSURE\<close> and the pseudo-instructions for its upvalues.\<close>

lemma closure_next_seen:
  assumes ok: "luaG_checkcode pt" and pc: "seen pt pc" "0 \<le> pc" "pc < sizecode pt"
    and opn: "GET_OPCODE (code pt ! nat pc) = opnum OP_CLOSURE"
    and args: "sym_args pt pc (code pt ! nat pc) OP_CLOSURE = Acc (b, c)"
    and effect: "sym_effect pt (sizecode pt) NO_REG pc OP_CLOSURE a b c l = Acc r"
  shows "seen pt (pc + uint (nups (protos pt ! nat b)) + 1)"
proof -
  let ?nup = "uint (nups (protos pt ! nat b))"
  have e: "pc + ?nup < sizecode pt" "\<exists>u. closure_ups pt pc ?nup 1 = Acc u"
    using effect sym_args_const(2) [OF args]
    by (auto simp: sym_effect_def sym_iffs Let_def at_def sizep_def split: if_splits)
  then have ups: "\<forall>m. 1 \<le> m \<and> m \<le> ?nup \<longrightarrow> GET_OPCODE (code pt ! nat (pc + m)) = opnum OP_GETUPVAL \<or>
      GET_OPCODE (code pt ! nat (pc + m)) = opnum OP_MOVE"
    using closure_ups_spec [OF _ pc(2)] by blast
  have "\<not> setlist0 (code pt ! nat pc)"
    using opn opnum_inj [of OP_CLOSURE OP_SETLIST] by (auto simp: setlist0_def)
  then have last: "seen pt (pc + ?nup)"
    using seen_closure [OF ok pc(1,2) _, of "nat ?nup"] ups e(1) by simp
  have "GET_OPCODE (code pt ! nat (pc + ?nup)) \<in> {opnum OP_CLOSURE, opnum OP_GETUPVAL, opnum OP_MOVE}"
  proof (cases "?nup = 0")
    case False
    then have "1 \<le> ?nup" using uint_nonnegative [of "nups (protos pt ! nat b)"] by linarith
    then show ?thesis using ups by blast
  qed (use opn in simp)
  then obtain op' where "GET_OPCODE (code pt ! nat (pc + ?nup)) = opnum op'" "op' \<noteq> OP_RETURN" "op' \<noteq> OP_SETLIST"
    by blast
  then have "pc + ?nup + 1 < sizecode pt" "\<not> setlist0 (code pt ! nat (pc + ?nup))"
    using not_return [OF ok _ e(1)] pc(2) opnum_inj [of op' OP_SETLIST] by (auto simp: setlist0_def)
  then show ?thesis using seen_next(2) [OF ok last] by simp
qed

text \<open>C17: in code the checker accepts, from an instruction the scan has seen the interpreter goes on to
  another such instruction: jumps, skips, loops, counts of \<open>SETLIST\<close> and the pseudo instructions of
  a closure included. The one gap is a \<open>LOADBOOL\<close> with \<open>C > 1\<close>, which the next property is about.\<close>

theorem checked_flow:
  assumes "luaG_checkcode pt" "seen pt pc" "op_of (GET_OPCODE (code pt ! nat pc)) = Some op"
    and "op = OP_LOADBOOL \<Longrightarrow> GETARG_C (code pt ! nat pc) \<le> 1"
    and "s \<in> flow pt pc (code pt ! nat pc) op"
  shows "seen pt s"
proof -
  let ?i = "code pt ! nat pc"
  obtain lst where v: "visited pt pc lst" "pc < sizecode pt"
    using assms(2) by (auto simp: seen_def)
  obtain pc' lst' where s: "sym_step pt (sizecode pt) NO_REG pc lst = Acc (pc', lst')"
    using visited_step(1) [OF assms(1) v] by blast
  have nn: "0 \<le> pc" using visited_step(2) [OF assms(1) v] .
  note next1 = seen_next(2) [OF assms(1)]
  obtain b c l where args: "sym_args pt pc ?i op = Acc (b, c)"
    and effect: "sym_effect pt (sizecode pt) NO_REG pc op (GETARG_A ?i) b c l = Acc (pc', lst')"
    and skip: "testTMode op \<Longrightarrow> pc + 2 < sizecode pt"
    by (rule sym_stepE [OF s nn v(2)]) (use assms(3) in auto)
  have opn: "GET_OPCODE ?i = opnum op" using assms(3) by (simp add: op_of_Some_iff)
  have more: "op \<noteq> OP_RETURN \<Longrightarrow> pc + 1 < sizecode pt"
    using not_return [OF assms(1) nn v(2) opn] by blast
  have sl: "setlist0 ?i \<longleftrightarrow> op = OP_SETLIST \<and> GETARG_C ?i = 0"
    using setlist0_iff [OF assms(3)] .
  have one: "seen pt (pc + 1)" if "op \<noteq> OP_RETURN" "\<not> setlist0 ?i"
    using next1 [OF assms(2)] more that by simp
  have two: "seen pt (pc + 2)" if "op \<noteq> OP_RETURN" "\<not> setlist0 ?i" "\<not> setlist0 (code pt ! nat (pc + 1))"
    "pc + 2 < sizecode pt"
    using next1 [OF one [OF that(1,2)]] that by (simp add: add.assoc)
  have jump: "seen pt (pc + 1 + GETARG_sBx ?i)" if "op = OP_JMP \<or> op = OP_FORLOOP \<or> op = OP_FORPREP"
    using jump_target_seen [OF assms(1) sym_args_jump [OF args that]] .
  have at1: "at (code pt) (pc + 1) = Acc (code pt ! nat (pc + 1))" if "pc + 2 < sizecode pt"
    using that nn by (simp add: at_def sizecode_def)
  consider (jmp) "op = OP_JMP \<or> op = OP_FORPREP" | (forl) "op = OP_FORLOOP" | (loadb) "op = OP_LOADBOOL"
    | (setl) "op = OP_SETLIST" | (clos) "op = OP_CLOSURE" | (test) "testTMode op"
    | (ret) "op = OP_RETURN" | (plain) "flow pt pc ?i op = {pc + 1}" "op \<noteq> OP_RETURN" "op \<noteq> OP_SETLIST"
    by (cases op) (auto simp: flow_def op_modes_flow)
  then show ?thesis
  proof cases
    case jmp
    then show ?thesis using assms(5) jump by (auto simp: flow_def)
  next
    case forl
    then show ?thesis using assms(5) jump one sl by (auto simp: flow_def)
  next
    case loadb
    have "c = GETARG_C ?i" using sym_args_fields(1) [OF args] loadb op_modes_flow(2) by simp
    moreover have "GETARG_C ?i = 0 \<or> GETARG_C ?i = 1" using assms(4) loadb GETARG_nonneg(2) [of ?i] by linarith
    ultimately show ?thesis
      using effect assms(5) loadb one two sl at1
      by (auto simp: flow_def sym_effect_def sym_iffs setlist0_def split: if_splits)
  next
    case setl
    have "c = GETARG_C ?i" using sym_args_fields(1) [OF args] setl op_modes_SETLIST(1) by simp
    then show ?thesis
      using effect assms(5) setl one sl next1 [OF assms(2)]
      by (auto simp: flow_def sym_effect_def sym_iffs split: if_splits)
  next
    case clos
    have "b = GETARG_Bx ?i" using sym_args_fields(2) [OF args] clos op_modes_Bx(5) by simp
    then show ?thesis
      using closure_next_seen [OF assms(1,2) nn v(2) opn [unfolded clos] args [unfolded clos] effect [unfolded clos]]
        assms(5) clos by (auto simp: flow_def ac_simps)
  next
    case test
    have "GET_OPCODE (code pt ! nat (pc + 1)) = opnum OP_JMP"
      using s at1 [OF skip [OF test]] test assms(3) v(2) nn
      by (auto simp: sym_step_def sym_iffs Let_def at_def sizecode_def split: if_splits)
    then have "\<not> setlist0 (code pt ! nat (pc + 1))" by (simp add: setlist0_def)
    then show ?thesis
      using assms(5) one two sl skip [OF test] test op_modes_flow(1) [of op] by (auto simp: flow_def split: if_splits)
  next
    case ret
    then show ?thesis using assms(5) by (simp add: flow_def)
  next
    case plain
    then show ?thesis using assms(5) one sl by auto
  qed
qed

text \<open>An accepted function for an instance: a jump over a \<open>LOADNIL\<close> to the final \<open>RETURN\<close>.\<close>

definition jump_proto :: Proto where
  "jump_proto = Proto (Some ''=f'') 0 0 0 0 0 2
     [CREATE_ABx OP_JMP 0 131072, CREATE_ABC OP_LOADNIL 0 1 0, CREATE_ABC OP_RETURN 0 1 0] [] [] [] [] []"

lemma jump_proto_facts: "luaG_checkcode jump_proto"
  "op_of (GET_OPCODE (code jump_proto ! nat 0)) = Some OP_JMP"
  "GETARG_sBx (code jump_proto ! nat 0) = 1" "sizecode jump_proto = 3"
  by code_simp+

theorem checked_flow_witness: "seen jump_proto 2"
proof -
  have "seen jump_proto 0" using visited.start jump_proto_facts(4) by (auto simp: seen_def)
  then show ?thesis
    by (rule checked_flow [OF jump_proto_facts(1) _ jump_proto_facts(2)])
      (use jump_proto_facts(3) in \<open>simp_all add: flow_def\<close>)
qed

theorem symbexec_inside_witness: "symbexec jump_proto 3 0 \<noteq> Oob"
  by (rule symbexec_inside) (simp add: jump_proto_facts)

text \<open>A function whose \<open>LOADBOOL\<close>, the last instruction but the final \<open>RETURN\<close>, has \<open>C = 2\<close>.\<close>

definition skip_proto :: Proto where
  "skip_proto = Proto (Some ''=f'') 0 0 0 0 0 2
     [CREATE_ABC OP_LOADBOOL 0 1 2, CREATE_ABC OP_RETURN 0 1 0] [] [] [] [] []"

lemma skip_proto_facts: "luaG_checkcode skip_proto" "sizecode skip_proto = 2"
  "op_of (GET_OPCODE (code skip_proto ! nat 0)) = Some OP_LOADBOOL"
  "GETARG_C (code skip_proto ! nat 0) = 2"
  by code_simp+

text \<open>the checker tests the skip of a \<open>LOADBOOL\<close> only for \<open>C = 1\<close>, the interpreter skips for every
  \<open>C\<close> but \<open>0\<close>: an accepted function exists that runs off the end of its code.\<close>

theorem loadbool_escapes:
  "\<exists>pt op s. luaG_checkcode pt \<and> seen pt 0 \<and> op_of (GET_OPCODE (code pt ! 0)) = Some op \<and>
     s \<in> flow pt 0 (code pt ! 0) op \<and> \<not> s < sizecode pt"
proof -
  have "seen skip_proto 0" using visited.start skip_proto_facts(2) by (auto simp: seen_def)
  moreover have "2 \<in> flow skip_proto 0 (code skip_proto ! 0) OP_LOADBOOL" "\<not> 2 < sizecode skip_proto"
    using skip_proto_facts by (simp_all add: flow_def)
  ultimately show ?thesis using skip_proto_facts by fastforce
qed

end
