(* ===== verification/Lua_Zio.thy ===== *)
theory Lua_Zio
  imports Lua_Prelude
begin

text \<open>
  Buffered input, \<^verbatim>\<open>src/src/lzio.c\<close>. A stream is the part of the current block that is still
  unread and the blocks its reader will hand out; the reader answers \<open>NULL\<close> or an empty block at
  the end. An empty block before the end looks like the end, once.
\<close>

record Zio =
  unread :: bytes
  blocks :: "bytes list"

definition luaZ_init :: "bytes list \<Rightarrow> Zio" where
  "luaZ_init bs = \<lparr>unread = [], blocks = bs\<rparr>"

text \<open>The character or \<open>EOZ\<close> (\<open>None\<close>). \<open>luaZ_fill\<close> takes the first character of the new block.\<close>

definition luaZ_fill :: "Zio \<Rightarrow> char option \<times> Zio" where
  "luaZ_fill z =
     (case blocks z of
        [] \<Rightarrow> (None, z)
      | b # bs \<Rightarrow> (case b of [] \<Rightarrow> (None, z\<lparr>blocks := bs\<rparr>)
                  | c # r \<Rightarrow> (Some c, \<lparr>unread = r, blocks = bs\<rparr>)))"

definition luaZ_lookahead :: "Zio \<Rightarrow> char option \<times> Zio" where
  "luaZ_lookahead z =
     (case unread z of
        [] \<Rightarrow> (case luaZ_fill z of
                 (None, z) \<Rightarrow> (None, z)
               | (Some c, z) \<Rightarrow> (Some c, z\<lparr>unread := c # unread z\<rparr>))
      | c # _ \<Rightarrow> (Some c, z))"

definition zgetc :: "Zio \<Rightarrow> char option \<times> Zio" where
  "zgetc z = (case unread z of [] \<Rightarrow> luaZ_fill z | c # r \<Rightarrow> (Some c, z\<lparr>unread := r\<rparr>))"

lemma lookahead_Some: "luaZ_lookahead z = (Some c, z') \<Longrightarrow> unread z' \<noteq> []"
  by (auto simp: luaZ_lookahead_def luaZ_fill_def split: list.splits)

text \<open>The bytes read, the number of missing ones, and the stream behind them.\<close>

function luaZ_read :: "Zio \<Rightarrow> nat \<Rightarrow> bytes \<times> nat \<times> Zio" where
  "luaZ_read z n =
     (if n = 0 then ([], 0, z)
      else case luaZ_lookahead z of
        (None, z) \<Rightarrow> ([], n, z)
      | (Some c, z) \<Rightarrow>
          let m = (if n \<le> length (unread z) then n else length (unread z));
              (b, r, z') = luaZ_read (z\<lparr>unread := drop m (unread z)\<rparr>) (n - m)
          in (take m (unread z) @ b, r, z'))"
  by pat_completeness auto
termination
  by (relation "measure snd") (auto dest: lookahead_Some [OF sym])

declare luaZ_read.simps [simp del]

definition LUA_MINBUFFER :: nat where "LUA_MINBUFFER = 32"

text \<open>The size of the buffer after \<open>luaZ_openspace\<close>.\<close>

definition luaZ_openspace :: "nat \<Rightarrow> nat \<Rightarrow> nat" where
  "luaZ_openspace buffsize n =
     (if n > buffsize then (if n < LUA_MINBUFFER then LUA_MINBUFFER else n) else buffsize)"

section \<open>A stream is its bytes\<close>

definition z_ok :: "Zio \<Rightarrow> bool" where
  "z_ok z \<longleftrightarrow> [] \<notin> set (blocks z)"

definition zbytes :: "Zio \<Rightarrow> bytes" where
  "zbytes z = unread z @ concat (blocks z)"

lemma lookahead_bytes:
  assumes "z_ok z"
  shows "zbytes z = [] \<Longrightarrow> luaZ_lookahead z = (None, z)"
    and "zbytes z = c # cs \<Longrightarrow> \<exists>z'. luaZ_lookahead z = (Some c, z') \<and> z_ok z' \<and> zbytes z' = c # cs \<and> unread z' \<noteq> []"
  using assms
  by (auto simp: luaZ_lookahead_def luaZ_fill_def zbytes_def z_ok_def split: list.splits)

lemma zgetc_bytes:
  assumes "z_ok z"
  shows "zbytes z = [] \<Longrightarrow> zgetc z = (None, z)"
    and "zbytes z = c # cs \<Longrightarrow> \<exists>z'. zgetc z = (Some c, z') \<and> z_ok z' \<and> zbytes z' = cs"
  using assms
  by (auto simp: zgetc_def luaZ_fill_def zbytes_def z_ok_def split: list.splits)

lemma read_bytes:
  assumes "z_ok z"
  shows "\<exists>z'. luaZ_read z n = (take n (zbytes z), n - length (zbytes z), z') \<and> z_ok z' \<and>
    zbytes z' = drop n (zbytes z)"
  using assms
proof (induction z n rule: luaZ_read.induct)
  case (1 z n)
  show ?case
  proof (cases "n = 0")
    case True
    then show ?thesis using 1(2) by (simp add: luaZ_read.simps)
  next
    case False
    show ?thesis
    proof (cases "zbytes z")
      case Nil
      then show ?thesis
        using lookahead_bytes(1) [OF 1(2)] False 1(2) by (simp add: luaZ_read.simps [of z n])
    next
      case (Cons c cs)
      obtain z1 where z1: "luaZ_lookahead z = (Some c, z1)" "z_ok z1" "zbytes z1 = zbytes z" "unread z1 \<noteq> []"
        using lookahead_bytes(2) [OF 1(2) Cons] Cons by metis
      define m where "m = (if n \<le> length (unread z1) then n else length (unread z1))"
      let ?z = "z1\<lparr>unread := drop m (unread z1)\<rparr>"
      have m: "m \<le> length (unread z1)" "m \<le> n" by (simp_all add: m_def)
      have zb: "zbytes ?z = drop m (zbytes z)"
        using m unfolding z1(3) [symmetric] by (simp add: zbytes_def)
      have ok: "z_ok ?z" using z1(2) by (simp add: z_ok_def)
      obtain z' where z': "luaZ_read ?z (n - m) = (take (n - m) (zbytes ?z), n - m - length (zbytes ?z), z')"
        "z_ok z'" "zbytes z' = drop (n - m) (zbytes ?z)"
        using 1(1) [OF False z1(1) [symmetric] refl m_def] ok by blast
      have t: "take m (unread z1) = take m (zbytes z)"
        using m unfolding z1(3) [symmetric] by (simp add: zbytes_def)
      have "luaZ_read z n = (take m (zbytes z) @ take (n - m) (drop m (zbytes z)),
          n - m - (length (zbytes z) - m), z')"
        using False z1(1) z'(1) by (subst luaZ_read.simps) (simp add: m_def [symmetric] t zb)
      moreover have "take m (zbytes z) @ take (n - m) (drop m (zbytes z)) = take n (zbytes z)"
        using m(2) by (metis le_add_diff_inverse take_add)
      moreover have "m \<le> length (zbytes z)" using m unfolding z1(3) [symmetric] by (simp add: zbytes_def)
      ultimately show ?thesis
        using z' m by (simp add: zb)
    qed
  qed
qed

end
