(* ===== verification/Lua_Chunk.thy ===== *)
theory Lua_Chunk
  imports Lua_Checker Lua_Zio
begin

text \<open>
  Precompiled chunks: \<^verbatim>\<open>src/src/ldump.c\<close> writes a prototype through a writer that may fail, and
  \<^verbatim>\<open>src/src/lundump.c\<close> reads it from a stream, checking sizes, depth and code. Numbers are little
  endian and of the widths of the host. Vectors are allocated through \<open>room\<close>; the strings and
  prototypes themselves are taken to fit.
\<close>

section \<open>Bytes of numbers\<close>

fun le_bytes :: "nat \<Rightarrow> nat \<Rightarrow> bytes" where
  "le_bytes 0 v = []"
| "le_bytes (Suc n) v = char_of (v mod 256) # le_bytes n (v div 256)"

fun le_value :: "bytes \<Rightarrow> nat" where
  "le_value [] = 0"
| "le_value (c # cs) = of_char c + 256 * le_value cs"

lemma length_le_bytes [simp]: "length (le_bytes n v) = n"
  by (induction n arbitrary: v) auto

lemma le_value_bytes: "le_value (le_bytes n v) = v mod 256 ^ n"
proof (induction n arbitrary: v)
  case (Suc n)
  have "v mod 256 ^ Suc n = 256 * (v div 256 mod 256 ^ n) + v mod 256"
    by (simp add: mod_mult2_eq mult.commute)
  then show ?case using Suc by (simp add: of_char_of)
qed simp

definition int_bytes :: "int \<Rightarrow> bytes" where
  "int_bytes x = le_bytes 4 (nat (x mod 2 ^ 32))"

definition int_value :: "bytes \<Rightarrow> int" where
  "int_value b = (let v = int (le_value b) in if v < 2 ^ 31 then v else v - 2 ^ 32)"

section \<open>Dumping\<close>

record 'd DumpState =
  data :: 'd
  strip :: bool
  status :: int

text \<open>A writer gives its status, \<open>0\<close> to go on, and its new state.\<close>

type_synonym 'd writer = "bytes \<Rightarrow> 'd \<Rightarrow> int \<times> 'd"

definition DumpBlock :: "'d writer \<Rightarrow> bytes \<Rightarrow> 'd DumpState \<Rightarrow> 'd DumpState" where
  "DumpBlock w b D =
     (if status D = 0 then let (s, d) = w b (data D) in D\<lparr>status := s, data := d\<rparr> else D)"

definition DumpChar :: "'d writer \<Rightarrow> int \<Rightarrow> 'd DumpState \<Rightarrow> 'd DumpState" where
  "DumpChar w y = DumpBlock w (le_bytes 1 (nat (y mod 256)))"

definition DumpInt :: "'d writer \<Rightarrow> int \<Rightarrow> 'd DumpState \<Rightarrow> 'd DumpState" where
  "DumpInt w x = DumpBlock w (int_bytes x)"

definition DumpNumber :: "'d writer \<Rightarrow> lua_Number \<Rightarrow> 'd DumpState \<Rightarrow> 'd DumpState" where
  "DumpNumber w x = DumpBlock w (le_bytes 8 (unat x))"

definition DumpVector :: "'d writer \<Rightarrow> ('a \<Rightarrow> bytes) \<Rightarrow> 'a list \<Rightarrow> 'd DumpState \<Rightarrow> 'd DumpState" where
  "DumpVector w enc xs D = DumpBlock w (concat (map enc xs)) (DumpInt w (int (length xs)) D)"

definition DumpString :: "'d writer \<Rightarrow> bytes option \<Rightarrow> 'd DumpState \<Rightarrow> 'd DumpState" where
  "DumpString w s D =
     (case s of
        None \<Rightarrow> DumpBlock w (le_bytes 8 0) D
      | Some s \<Rightarrow> DumpBlock w (s @ [CHR 0x00]) (DumpBlock w (le_bytes 8 (length s + 1)) D))"

definition DumpCode :: "'d writer \<Rightarrow> Instruction list \<Rightarrow> 'd DumpState \<Rightarrow> 'd DumpState" where
  "DumpCode w = DumpVector w (\<lambda>i. le_bytes 4 (unat i))"

definition DumpConstant :: "'d writer \<Rightarrow> konst \<Rightarrow> 'd DumpState \<Rightarrow> 'd DumpState" where
  "DumpConstant w c D =
     (case c of
        KNil \<Rightarrow> DumpChar w 0 D
      | KBool b \<Rightarrow> DumpChar w (if b then 1 else 0) (DumpChar w 1 D)
      | KNum n \<Rightarrow> DumpNumber w n (DumpChar w 3 D)
      | KStr s \<Rightarrow> DumpString w s (DumpChar w 4 D))"

definition DumpLocVar :: "'d writer \<Rightarrow> LocVar \<Rightarrow> 'd DumpState \<Rightarrow> 'd DumpState" where
  "DumpLocVar w v D = DumpInt w (endpc v) (DumpInt w (startpc v) (DumpString w (varname v) D))"

definition DumpDebug :: "'d writer \<Rightarrow> Proto \<Rightarrow> 'd DumpState \<Rightarrow> 'd DumpState" where
  "DumpDebug w f D =
     (let li = (if strip D then [] else lineinfo f);
          lv = (if strip D then [] else locvars f);
          uv = (if strip D then [] else upvalues f);
          D = DumpVector w int_bytes li D;
          D = fold (DumpLocVar w) lv (DumpInt w (int (length lv)) D)
      in fold (DumpString w) uv (DumpInt w (int (length uv)) D))"

text \<open>\<open>DumpConstants\<close>, with the dump of the inner prototypes as an argument.\<close>

definition DumpConstants ::
  "'d writer \<Rightarrow> (Proto \<Rightarrow> 'd DumpState \<Rightarrow> 'd DumpState) \<Rightarrow> Proto \<Rightarrow> 'd DumpState \<Rightarrow> 'd DumpState" where
  "DumpConstants w df f D =
     (let D = fold (DumpConstant w) (konsts f) (DumpInt w (int (length (konsts f))) D)
      in fold df (protos f) (DumpInt w (int (length (protos f))) D))"

lemma DumpConstants_cong [fundef_cong]:
  "f = f' \<Longrightarrow> w = w' \<Longrightarrow> D = D' \<Longrightarrow> (\<And>g D. g \<in> set (protos f') \<Longrightarrow> df g D = df' g D) \<Longrightarrow>
    DumpConstants w df f D = DumpConstants w' df' f' D'"
  by (auto simp: DumpConstants_def Let_def intro!: fold_cong)

lemma protos_smaller: "g \<in> set (protos f) \<Longrightarrow> size g < size f"
  by (cases f) (auto dest: size_list_estimation' [where f = size] simp: less_Suc_eq_le trans_le_add1)

function DumpFunction :: "'d writer \<Rightarrow> bytes option \<Rightarrow> Proto \<Rightarrow> 'd DumpState \<Rightarrow> 'd DumpState" where
  "DumpFunction w q f D =
     (let D = DumpString w (if source f = q \<or> strip D then None else source f) D;
          D = DumpInt w (lastlinedefined f) (DumpInt w (linedefined f) D);
          D = DumpChar w (uint (numparams f)) (DumpChar w (uint (nups f)) D);
          D = DumpChar w (uint (maxstacksize f)) (DumpChar w (uint (is_vararg f)) D);
          D = DumpCode w (code f) D;
          D = DumpConstants w (DumpFunction w (source f)) f D
      in DumpDebug w f D)"
  by pat_completeness auto
termination
  by (relation "measure (\<lambda>(w, q, f, D). size f)") (auto dest: protos_smaller)

declare DumpFunction.simps [simp del]

text \<open>\<open>luaU_header\<close>: the signature, version, format, endianness and the sizes of the host.\<close>

definition luaU_header :: bytes where
  "luaU_header = CHR 0x1B # ''Lua'' @ map char_of [0x51, 0, 1, 4, 8, 4, 8, 0 :: nat]"

definition DumpHeader :: "'d writer \<Rightarrow> 'd DumpState \<Rightarrow> 'd DumpState" where
  "DumpHeader w D = DumpBlock w luaU_header D"

definition luaU_dump :: "'d writer \<Rightarrow> 'd \<Rightarrow> bool \<Rightarrow> Proto \<Rightarrow> int \<times> 'd" where
  "luaU_dump w d s f =
     (let D = DumpFunction w None f (DumpHeader w \<lparr>data = d, strip = s, status = 0\<rparr>)
      in (status D, data D))"

section \<open>Loading\<close>

type_synonym 'a loader = "Zio \<Rightarrow> ('a \<times> Zio) result"

definition lret :: "'a \<Rightarrow> 'a loader" where
  "lret x z = Inr (x, z)"

definition lbind :: "'a loader \<Rightarrow> ('a \<Rightarrow> 'b loader) \<Rightarrow> 'b loader" where
  "lbind m f z = bind (m z) (\<lambda>(x, z). f x z)"

definition load_error :: "bytes \<Rightarrow> bytes \<Rightarrow> 'a loader" where
  "load_error nm why z = Inl (LuaError ERRSYNTAX (nm @ '': '' @ why @ '' in precompiled chunk''))"

definition newvector :: "(nat \<Rightarrow> bool) \<Rightarrow> nat \<Rightarrow> nat \<Rightarrow> unit loader" where
  "newvector room n sz z =
     (if room (n * sz) then Inr ((), z) else Inl (LuaError ERRMEM ''not enough memory''))"

definition LoadBlock :: "bytes \<Rightarrow> nat \<Rightarrow> bytes loader" where
  "LoadBlock nm sz z =
     (let (b, r, z') = luaZ_read z sz
      in if r \<noteq> 0 then load_error nm ''unexpected end'' z' else Inr (b, z'))"

text \<open>A \<open>char\<close> is signed.\<close>

definition LoadChar :: "bytes \<Rightarrow> int loader" where
  "LoadChar nm = lbind (LoadBlock nm 1) (\<lambda>b.
     let v = int (le_value b) in lret (if v < 128 then v else v - 256))"

definition LoadByte :: "bytes \<Rightarrow> u8 loader" where
  "LoadByte nm = lbind (LoadChar nm) (\<lambda>x. lret (word_of_int x))"

definition LoadInt :: "bytes \<Rightarrow> int loader" where
  "LoadInt nm = lbind (LoadBlock nm 4) (\<lambda>b.
     let x = int_value b in if x < 0 then load_error nm ''bad integer'' else lret x)"

definition LoadNumber :: "bytes \<Rightarrow> lua_Number loader" where
  "LoadNumber nm = lbind (LoadBlock nm 8) (\<lambda>b. lret (word_of_nat (le_value b)))"

definition LoadString :: "bytes \<Rightarrow> bytes option loader" where
  "LoadString nm = lbind (LoadBlock nm 8) (\<lambda>b.
     let sz = le_value b
     in if sz = 0 then lret None
        else lbind (LoadBlock nm sz) (\<lambda>s. lret (Some (take (sz - 1) s))))"

text \<open>The elements of a vector of \<open>n\<close> elements of \<open>sz\<close> bytes.\<close>

fun split_vector :: "nat \<Rightarrow> nat \<Rightarrow> bytes \<Rightarrow> bytes list" where
  "split_vector 0 sz b = []"
| "split_vector (Suc n) sz b = take sz b # split_vector n sz (drop sz b)"

definition LoadVector :: "bytes \<Rightarrow> nat \<Rightarrow> nat \<Rightarrow> bytes list loader" where
  "LoadVector nm n sz = lbind (LoadBlock nm (n * sz)) (\<lambda>b. lret (split_vector n sz b))"

primrec load_list :: "nat \<Rightarrow> 'a loader \<Rightarrow> 'a list loader" where
  "load_list 0 m = lret []"
| "load_list (Suc n) m = lbind m (\<lambda>x. lbind (load_list n m) (\<lambda>xs. lret (x # xs)))"

definition LoadCode :: "bytes \<Rightarrow> (nat \<Rightarrow> bool) \<Rightarrow> Instruction list loader" where
  "LoadCode nm room = lbind (LoadInt nm) (\<lambda>n.
     lbind (newvector room (nat n) 4) (\<lambda>_.
     lbind (LoadVector nm (nat n) 4) (\<lambda>bs. lret (map (\<lambda>b. word_of_nat (le_value b)) bs))))"

definition LoadConstant :: "bytes \<Rightarrow> konst loader" where
  "LoadConstant nm = lbind (LoadChar nm) (\<lambda>t.
     if t = 0 then lret KNil
     else if t = 1 then lbind (LoadChar nm) (\<lambda>x. lret (KBool (x \<noteq> 0)))
     else if t = 3 then lbind (LoadNumber nm) (\<lambda>n. lret (KNum n))
     else if t = 4 then lbind (LoadString nm) (\<lambda>s. lret (KStr s))
     else load_error nm ''bad constant'')"

text \<open>The constants and the inner prototypes, loaded by \<open>lf\<close>.\<close>

definition LoadConstants ::
  "bytes \<Rightarrow> (nat \<Rightarrow> bool) \<Rightarrow> Proto loader \<Rightarrow> (konst list \<times> Proto list) loader" where
  "LoadConstants nm room lf = lbind (LoadInt nm) (\<lambda>n.
     lbind (newvector room (nat n) 16) (\<lambda>_.
     lbind (load_list (nat n) (LoadConstant nm)) (\<lambda>ks.
     lbind (LoadInt nm) (\<lambda>n.
     lbind (newvector room (nat n) 8) (\<lambda>_.
     lbind (load_list (nat n) lf) (\<lambda>fs. lret (ks, fs)))))))"

definition LoadLocVar :: "bytes \<Rightarrow> LocVar loader" where
  "LoadLocVar nm = lbind (LoadString nm) (\<lambda>s. lbind (LoadInt nm) (\<lambda>a. lbind (LoadInt nm) (\<lambda>b.
     lret \<lparr>varname = s, startpc = a, endpc = b\<rparr>)))"

definition LoadDebug ::
  "bytes \<Rightarrow> (nat \<Rightarrow> bool) \<Rightarrow> (int list \<times> LocVar list \<times> bytes option list) loader" where
  "LoadDebug nm room = lbind (LoadInt nm) (\<lambda>n.
     lbind (newvector room (nat n) 4) (\<lambda>_.
     lbind (LoadVector nm (nat n) 4) (\<lambda>li.
     lbind (LoadInt nm) (\<lambda>n.
     lbind (newvector room (nat n) 16) (\<lambda>_.
     lbind (load_list (nat n) (LoadLocVar nm)) (\<lambda>lv.
     lbind (LoadInt nm) (\<lambda>n.
     lbind (newvector room (nat n) 8) (\<lambda>_.
     lbind (load_list (nat n) (LoadString nm)) (\<lambda>uv.
     lret (map int_value li, lv, uv))))))))))"

text \<open>The first argument is how many more C calls may nest: \<open>LUAI_MAXCCALLS\<close> less those in use.\<close>

fun LoadFunction :: "nat \<Rightarrow> bytes \<Rightarrow> (nat \<Rightarrow> bool) \<Rightarrow> bytes option \<Rightarrow> Proto loader" where
  "LoadFunction 0 nm room q = load_error nm ''code too deep''"
| "LoadFunction (Suc d) nm room q =
     lbind (LoadString nm) (\<lambda>s.
     let s = (if s = None then q else s) in
     lbind (LoadInt nm) (\<lambda>ld. lbind (LoadInt nm) (\<lambda>lld.
     lbind (LoadByte nm) (\<lambda>nu. lbind (LoadByte nm) (\<lambda>np. lbind (LoadByte nm) (\<lambda>va. lbind (LoadByte nm) (\<lambda>ms.
     lbind (LoadCode nm room) (\<lambda>co.
     lbind (LoadConstants nm room (LoadFunction d nm room s)) (\<lambda>(ks, fs).
     lbind (LoadDebug nm room) (\<lambda>(li, lv, uv).
     let f = Proto s ld lld nu np va ms co ks fs li lv uv
     in if \<not> luaG_checkcode f then load_error nm ''bad code'' else lret f))))))))))"

definition LoadHeader :: "bytes \<Rightarrow> unit loader" where
  "LoadHeader nm = lbind (LoadBlock nm 12) (\<lambda>s.
     if s \<noteq> luaU_header then load_error nm ''bad header'' else lret ())"

definition LUAI_MAXCCALLS :: nat where "LUAI_MAXCCALLS = 200"

definition chunk_name :: "bytes \<Rightarrow> bytes" where
  "chunk_name name =
     (case name of
        [] \<Rightarrow> name
      | c # r \<Rightarrow> if c = CHR ''@'' \<or> c = CHR ''='' then r
                 else if c = CHR 0x1B then ''binary string'' else name)"

definition luaU_undump :: "nat \<Rightarrow> (nat \<Rightarrow> bool) \<Rightarrow> bytes \<Rightarrow> Proto loader" where
  "luaU_undump nCcalls room name =
     lbind (LoadHeader (chunk_name name)) (\<lambda>_.
       LoadFunction (LUAI_MAXCCALLS - nCcalls) (chunk_name name) room (Some ''=?''))"

section \<open>What a load gives back\<close>

text \<open>
  A dumped prototype comes back with the source of the enclosing one where it had none or the dump
  was stripped, and without debug information in the latter case.
\<close>

function loaded :: "bool \<Rightarrow> bytes option \<Rightarrow> Proto \<Rightarrow> Proto" where
  "loaded s q f =
     (let src = (if s \<or> source f = None then q else source f) in
      Proto src (linedefined f) (lastlinedefined f) (nups f) (numparams f) (is_vararg f) (maxstacksize f)
        (code f) (konsts f) (map (loaded s src) (protos f))
        (if s then [] else lineinfo f) (if s then [] else locvars f) (if s then [] else upvalues f))"
  by pat_completeness auto
termination
  by (relation "measure (\<lambda>(s, q, f). size f)") (auto dest: protos_smaller)

declare loaded.simps [simp del]

definition is_int :: "int \<Rightarrow> bool" where
  "is_int x \<longleftrightarrow> - (2 ^ 31) \<le> x \<and> x < 2 ^ 31"

definition is_size :: "int \<Rightarrow> bool" where
  "is_size x \<longleftrightarrow> 0 \<le> x \<and> x < 2 ^ 31"

definition fits_string :: "bytes option \<Rightarrow> bool" where
  "fits_string s \<longleftrightarrow> (case s of None \<Rightarrow> True | Some s \<Rightarrow> length s + 1 < 2 ^ 64)"

definition fits_konst :: "konst \<Rightarrow> bool" where
  "fits_konst c \<longleftrightarrow> (case c of KStr s \<Rightarrow> fits_string s | _ \<Rightarrow> True)"

definition fits_locvar :: "LocVar \<Rightarrow> bool" where
  "fits_locvar v \<longleftrightarrow> fits_string (varname v) \<and> is_size (startpc v) \<and> is_size (endpc v)"

definition fits_proto :: "Proto \<Rightarrow> bool" where
  "fits_proto f \<longleftrightarrow> fits_string (source f) \<and> is_size (linedefined f) \<and> is_size (lastlinedefined f) \<and>
     is_size (sizecode f) \<and> is_size (sizek f) \<and> is_size (sizep f) \<and> is_size (int (length (lineinfo f))) \<and>
     is_size (int (length (locvars f))) \<and> is_size (int (length (upvalues f))) \<and>
     list_all fits_konst (konsts f) \<and> list_all is_int (lineinfo f) \<and> list_all fits_locvar (locvars f) \<and>
     list_all fits_string (upvalues f)"

text \<open>All sizes are representable, the nesting is at most \<open>d\<close>, and every loaded prototype passes
  the checker.\<close>

fun loadable :: "nat \<Rightarrow> bool \<Rightarrow> bytes option \<Rightarrow> Proto \<Rightarrow> bool" where
  "loadable 0 s q f = False"
| "loadable (Suc d) s q f \<longleftrightarrow> fits_proto f \<and> luaG_checkcode (loaded s q f) \<and>
     list_all (loadable d s (source (loaded s q f))) (protos f)"

section \<open>What a dump writes, a load reads\<close>

definition collect :: "bytes writer" where
  "collect b d = (0, d @ b)"

text \<open>The step \<open>m\<close> of a dump writes some bytes, and \<open>l\<close> reads \<open>x\<close> from them, whatever follows them and
  however they are cut into blocks.\<close>

definition carries :: "bool \<Rightarrow> (bytes DumpState \<Rightarrow> bytes DumpState) \<Rightarrow> 'a loader \<Rightarrow> 'a \<Rightarrow> bool" where
  "carries s m l x \<longleftrightarrow> (\<exists>bs.
     (\<forall>D. strip D = s \<longrightarrow> status D = 0 \<longrightarrow> m D = D\<lparr>data := data D @ bs\<rparr>) \<and>
     (\<forall>z rest. z_ok z \<longrightarrow> zbytes z = bs @ rest \<longrightarrow>
        (\<exists>z'. l z = Inr (x, z') \<and> z_ok z' \<and> zbytes z' = rest)))"

lemma carriesI:
  assumes "\<And>D. strip D = s \<Longrightarrow> status D = 0 \<Longrightarrow> m D = D\<lparr>data := data D @ bs\<rparr>"
    and "\<And>z rest. z_ok z \<Longrightarrow> zbytes z = bs @ rest \<Longrightarrow> \<exists>z'. l z = Inr (x, z') \<and> z_ok z' \<and> zbytes z' = rest"
  shows "carries s m l x"
  using assms unfolding carries_def by blast

lemma carries_cong:
  "carries s m' l x \<Longrightarrow> (\<And>D. strip D = s \<Longrightarrow> m D = m' D) \<Longrightarrow> carries s m l x"
  by (simp add: carries_def)

lemma carries_bind:
  assumes "carries s m1 l1 x" "carries s m2 (l2 x) y"
  shows "carries s (\<lambda>D. m2 (m1 D)) (lbind l1 l2) y"
proof -
  obtain b1 where b1: "\<And>D. strip D = s \<Longrightarrow> status D = 0 \<Longrightarrow> m1 D = D\<lparr>data := data D @ b1\<rparr>"
    "\<And>z rest. z_ok z \<Longrightarrow> zbytes z = b1 @ rest \<Longrightarrow> \<exists>z'. l1 z = Inr (x, z') \<and> z_ok z' \<and> zbytes z' = rest"
    using assms(1) unfolding carries_def by blast
  obtain b2 where b2: "\<And>D. strip D = s \<Longrightarrow> status D = 0 \<Longrightarrow> m2 D = D\<lparr>data := data D @ b2\<rparr>"
    "\<And>z rest. z_ok z \<Longrightarrow> zbytes z = b2 @ rest \<Longrightarrow> \<exists>z'. l2 x z = Inr (y, z') \<and> z_ok z' \<and> zbytes z' = rest"
    using assms(2) unfolding carries_def by blast
  show ?thesis
  proof (rule carriesI [where bs = "b1 @ b2"])
    show "m2 (m1 D) = D\<lparr>data := data D @ b1 @ b2\<rparr>" if "strip D = s" "status D = 0" for D
      using b1(1) [OF that] b2(1) [of "D\<lparr>data := data D @ b1\<rparr>"] that by simp
    show "\<exists>z'. lbind l1 l2 z = Inr (y, z') \<and> z_ok z' \<and> zbytes z' = rest"
      if z: "z_ok z" "zbytes z = (b1 @ b2) @ rest" for z rest
    proof -
      obtain z1 where z1: "l1 z = Inr (x, z1)" "z_ok z1" "zbytes z1 = b2 @ rest"
        using b1(2) [of z "b2 @ rest"] z by auto
      then show ?thesis using b2(2) [OF z1(2,3)] by (simp add: lbind_def)
    qed
  qed
qed

lemma carries_ret: "carries s (\<lambda>D. D) (lret x) x"
  by (rule carriesI [where bs = "[]"]) (simp_all add: lret_def)

lemma carries_map: "carries s m l x \<Longrightarrow> carries s m (lbind l (\<lambda>x. lret (f x))) (f x)"
  using carries_bind [where ?m2.0 = "\<lambda>D. D" and ?l2.0 = "\<lambda>x. lret (f x)" and y = "f x", OF _ carries_ret] by simp

lemma carries_skip: "carries s m (l ()) y \<Longrightarrow> \<forall>n. room n \<Longrightarrow> carries s m (lbind (newvector room n k) l) y"
  by (simp add: carries_def lbind_def newvector_def)

lemma carries_block: "n = length b \<Longrightarrow> carries s (DumpBlock collect b) (LoadBlock nm n) b"
proof (rule carriesI [where bs = b])
  fix z rest assume "n = length b" "z_ok z" "zbytes z = b @ rest"
  then show "\<exists>z'. LoadBlock nm n z = Inr (b, z') \<and> z_ok z' \<and> zbytes z' = rest"
    using read_bytes [of z n] by (auto simp: LoadBlock_def)
qed (simp add: DumpBlock_def collect_def)

lemma int_value_bytes: "is_int x \<Longrightarrow> int_value (int_bytes x) = x"
proof -
  assume x: "is_int x"
  have "le_value (int_bytes x) = nat (x mod 2 ^ 32)"
    by (simp add: int_bytes_def le_value_bytes nat_mod_distrib nat_less_iff)
  moreover have "x mod 2 ^ 32 = (if 0 \<le> x then x else x + 2 ^ 32)"
  proof (cases "0 \<le> x")
    case True
    then show ?thesis using x by (simp add: is_int_def)
  next
    case False
    have "x mod 2 ^ 32 = (x + 2 ^ 32) mod 2 ^ 32" by simp
    also have "\<dots> = x + 2 ^ 32" using x False by (intro mod_pos_pos_trivial) (auto simp: is_int_def)
    finally show ?thesis using False by simp
  qed
  ultimately show ?thesis
    using x by (auto simp: int_value_def is_int_def Let_def)
qed

lemma carries_int: "is_size x \<Longrightarrow> carries s (DumpInt collect x) (LoadInt nm) x"
proof -
  assume x: "is_size x"
  then have v: "int_value (int_bytes x) = x" by (intro int_value_bytes) (auto simp: is_int_def is_size_def)
  have "carries s (\<lambda>D. (\<lambda>D. D) (DumpBlock collect (int_bytes x) D)) (LoadInt nm) x"
    unfolding LoadInt_def
    by (rule carries_bind [OF carries_block]) (use x v carries_ret in \<open>simp_all add: int_bytes_def is_size_def\<close>)
  then show ?thesis by (simp add: DumpInt_def [abs_def])
qed

lemma carries_byte: "carries s (DumpChar collect (uint b)) (LoadByte nm) b"
proof -
  have b: "le_value (le_bytes 1 (nat (uint b mod 256))) = unat b"
  proof -
    have "unat b < 256" by (rule order_less_le_trans [OF unsigned_less]) simp
    then show ?thesis by (simp add: le_value_bytes of_char_of mod_pos_pos_trivial nat_mod_distrib)
  qed
  have "carries s (DumpChar collect (uint b)) (LoadChar nm) (if int (unat b) < 128 then int (unat b) else int (unat b) - 256)"
    unfolding LoadChar_def DumpChar_def
    using carries_map [OF carries_block [of 1 "le_bytes 1 (nat (uint b mod 256))" s nm],
        of "\<lambda>b. if int (le_value b) < 128 then int (le_value b) else int (le_value b) - 256"]
    unfolding b by (simp add: Let_def)
  note c = carries_map [OF this, of "word_of_int :: int \<Rightarrow> u8"]
  have "(256 :: u8) = 0" by code_simp
  then have "word_of_int (if int (unat b) < 128 then int (unat b) else int (unat b) - 256) = b"
    by (cases "int (unat b) < 128") auto
  then show ?thesis using c unfolding LoadByte_def by simp
qed

lemma carries_char: "0 \<le> y \<Longrightarrow> y < 128 \<Longrightarrow> carries s (DumpChar collect y) (LoadChar nm) y"
  using carries_map [OF carries_block [of 1 "le_bytes 1 (nat (y mod 256))" s nm],
      of "\<lambda>b. if int (le_value b) < 128 then int (le_value b) else int (le_value b) - 256"]
  unfolding LoadChar_def DumpChar_def by (simp add: Let_def le_value_bytes of_char_of)

lemma carries_number: "carries s (DumpNumber collect x) (LoadNumber nm) x"
proof -
  have "word_of_nat (le_value (le_bytes 8 (unat x))) = x"
  proof -
    have "unat x < 2 ^ 64" by (rule order_less_le_trans [OF unsigned_less]) simp
    then show ?thesis by (simp add: le_value_bytes)
  qed
  then show ?thesis
    using carries_map [OF carries_block [of 8 "le_bytes 8 (unat x)" s nm], of "\<lambda>b. word_of_nat (le_value b) :: lua_Number"]
    unfolding LoadNumber_def DumpNumber_def by simp
qed

lemma carries_vector:
  assumes "\<And>x. x \<in> set xs \<Longrightarrow> length (enc x) = n"
  shows "carries s (DumpBlock collect (concat (map enc xs))) (LoadVector nm (length xs) n) (map enc xs)"
proof -
  have "length (concat (map enc xs)) = length xs * n \<and> split_vector (length xs) n (concat (map enc xs)) = map enc xs"
    using assms by (induction xs) auto
  then show ?thesis
    using carries_map [OF carries_block [of "length xs * n" "concat (map enc xs)" s nm], of "split_vector (length xs) n"]
    unfolding LoadVector_def by simp
qed

lemma carries_string: "fits_string x \<Longrightarrow> carries s (DumpString collect x) (LoadString nm) x"
proof -
  assume x: "fits_string x"
  show ?thesis
  proof (cases x)
    case None
    have "carries s (\<lambda>D. (\<lambda>D. D) (DumpBlock collect (le_bytes 8 0) D)) (LoadString nm) x"
      unfolding LoadString_def
      by (rule carries_bind [OF carries_block]) (simp_all add: le_value_bytes None carries_ret)
    then show ?thesis by (rule carries_cong) (simp add: DumpString_def None)
  next
    case (Some b)
    have v: "le_value (le_bytes 8 (length b + 1)) = length b + 1"
      using x Some by (simp add: le_value_bytes fits_string_def)
    have "carries s (DumpBlock collect (b @ [CHR 0x00]))
        (lbind (LoadBlock nm (length b + 1)) (\<lambda>s. lret (Some (take (length b + 1 - 1) s)))) x"
      using carries_map [OF carries_block [of "length b + 1" "b @ [CHR 0x00]" s nm],
          of "\<lambda>s. Some (take (length b + 1 - 1) s)"] Some by simp
    then have "carries s (\<lambda>D. DumpBlock collect (b @ [CHR 0x00]) (DumpBlock collect (le_bytes 8 (length b + 1)) D))
        (LoadString nm) x"
      unfolding LoadString_def by (intro carries_bind [OF carries_block]) (simp_all add: v Let_def del: One_nat_def)
    then show ?thesis by (rule carries_cong) (simp add: DumpString_def Some)
  qed
qed

lemma carries_list:
  assumes "\<And>x. x \<in> set xs \<Longrightarrow> carries s (m x) l (h x)"
  shows "carries s (fold m xs) (load_list (length xs) l) (map h xs)"
  using assms
proof (induction xs)
  case Nil
  then show ?case by (simp add: carries_ret id_def)
next
  case (Cons x xs)
  have "carries s (\<lambda>D. fold m xs (m x D)) (load_list (length (x # xs)) l) (map h (x # xs))"
    unfolding load_list.simps length_Cons
    by (rule carries_bind [where x = "h x"])
      (use Cons carries_map [OF Cons.IH, of "\<lambda>xs. h x # xs"] in auto)
  then show ?case by (simp add: comp_def)
qed

lemma carries_counted:
  assumes "is_size (int (length xs))" "\<forall>n. room n" "carries s m (k (length xs)) y"
  shows "carries s (\<lambda>D. m (DumpInt collect (int (length xs)) D))
    (lbind (LoadInt nm) (\<lambda>n. lbind (newvector room (nat n) j) (\<lambda>_. k (nat n)))) y"
  by (rule carries_bind [OF carries_int [OF assms(1)]], unfold nat_int, rule carries_skip [OF assms(3,2)])

lemma carries_konst: "fits_konst c \<Longrightarrow> carries s (DumpConstant collect c) (LoadConstant nm) c"
proof (cases c)
  case KNil
  have "carries s (\<lambda>D. (\<lambda>D. D) (DumpChar collect 0 D)) (LoadConstant nm) c"
    unfolding LoadConstant_def by (rule carries_bind [OF carries_char]) (simp_all add: KNil carries_ret)
  then show ?thesis by (rule carries_cong) (simp add: DumpConstant_def KNil)
next
  case (KBool b)
  have "carries s (\<lambda>D. DumpChar collect (if b then 1 else 0) (DumpChar collect 1 D)) (LoadConstant nm) c"
    unfolding LoadConstant_def
    by (rule carries_bind [OF carries_char])
      (use carries_map [OF carries_char, of "if b then 1 else 0" s nm "\<lambda>x. KBool (x \<noteq> 0)"] KBool
       in \<open>auto split: if_splits\<close>)
  then show ?thesis by (rule carries_cong) (simp add: DumpConstant_def KBool)
next
  case (KNum n)
  have "carries s (\<lambda>D. DumpNumber collect n (DumpChar collect 3 D)) (LoadConstant nm) c"
    unfolding LoadConstant_def
    by (rule carries_bind [OF carries_char]) (use carries_map [OF carries_number] KNum in auto)
  then show ?thesis by (rule carries_cong) (simp add: DumpConstant_def KNum)
next
  case (KStr b)
  assume "fits_konst c"
  then have b: "fits_string b" by (simp add: fits_konst_def KStr)
  have "carries s (\<lambda>D. DumpString collect b (DumpChar collect 4 D)) (LoadConstant nm) c"
    unfolding LoadConstant_def
    by (rule carries_bind [OF carries_char]) (use carries_map [OF carries_string [OF b]] KStr in auto)
  then show ?thesis by (rule carries_cong) (simp add: DumpConstant_def KStr)
qed

lemma carries_locvar: "fits_locvar v \<Longrightarrow> carries s (DumpLocVar collect v) (LoadLocVar nm) v"
proof -
  assume v: "fits_locvar v"
  have 3: "carries s (DumpInt collect (endpc v))
      (lbind (LoadInt nm) (\<lambda>b. lret \<lparr>varname = varname v, startpc = startpc v, endpc = b\<rparr>)) v"
    using carries_map [OF carries_int [of "endpc v"], of s nm "\<lambda>b. \<lparr>varname = varname v, startpc = startpc v, endpc = b\<rparr>"] v
    by (cases v) (simp add: fits_locvar_def)
  have 2: "carries s (\<lambda>D. DumpInt collect (endpc v) (DumpInt collect (startpc v) D))
      (lbind (LoadInt nm) (\<lambda>a. lbind (LoadInt nm) (\<lambda>b. lret \<lparr>varname = varname v, startpc = a, endpc = b\<rparr>))) v"
    using carries_int [of "startpc v" s nm] v
    by (intro carries_bind [where x = "startpc v" and ?m1.0 = "DumpInt collect (startpc v)"] 3)
      (simp_all add: fits_locvar_def)
  have "carries s (\<lambda>D. (\<lambda>D. DumpInt collect (endpc v) (DumpInt collect (startpc v) D))
      (DumpString collect (varname v) D)) (LoadLocVar nm) v"
    unfolding LoadLocVar_def
    using carries_string [of "varname v" s nm] v
    by (intro carries_bind [where x = "varname v" and ?m1.0 = "DumpString collect (varname v)"] 2)
      (simp_all add: fits_locvar_def)
  then show ?thesis by (rule carries_cong) (simp add: DumpLocVar_def)
qed

lemma list_allD: "list_all P xs \<Longrightarrow> x \<in> set xs \<Longrightarrow> P x"
  by (simp add: list_all_iff)

lemma carries_code:
  assumes "is_size (int (length xs))" "\<forall>n. room n"
  shows "carries s (DumpCode collect xs) (LoadCode nm room) xs"
proof -
  have w: "word_of_nat (le_value (le_bytes 4 (unat i))) = i" for i :: u32
  proof -
    have "unat i < 2 ^ 32" by (rule order_less_le_trans [OF unsigned_less]) simp
    then show ?thesis by (simp add: le_value_bytes)
  qed
  have "carries s (DumpBlock collect (concat (map (\<lambda>i. le_bytes 4 (unat i)) xs)))
      (lbind (LoadVector nm (length xs) 4) (\<lambda>bs. lret (map (\<lambda>b. word_of_nat (le_value b)) bs))) xs"
    using carries_map [OF carries_vector [of xs "\<lambda>i. le_bytes 4 (unat i)" 4 s nm],
        of "map (\<lambda>b. word_of_nat (le_value b) :: Instruction)"] by (simp add: w comp_def)
  from carries_counted [OF assms, where k = "\<lambda>n. lbind (LoadVector nm n 4) (\<lambda>bs. lret (map (\<lambda>b. word_of_nat (le_value b)) bs))", OF this]
  show ?thesis
    unfolding LoadCode_def by (rule carries_cong) (simp add: DumpCode_def DumpVector_def)
qed

lemma carries_debug:
  assumes "fits_proto f" "\<forall>n. room n"
  shows "carries s (DumpDebug collect f) (LoadDebug nm room)
    (if s then [] else lineinfo f, if s then [] else locvars f, if s then [] else upvalues f)"
proof -
  define li lv uv where defs: "li = (if s then [] else lineinfo f)" "lv = (if s then [] else locvars f)"
    "uv = (if s then [] else upvalues f)"
  have sizes: "is_size (int (length li))" "is_size (int (length lv))" "is_size (int (length uv))"
    and fits: "list_all is_int li" "list_all fits_locvar lv" "list_all fits_string uv"
    using assms(1) by (auto simp: defs fits_proto_def is_size_def)
  note counted = carries_counted [OF _ assms(2)]
  have 3: "carries s (fold (DumpString collect) uv) (lbind (load_list (length uv) (LoadString nm)) (\<lambda>uv. lret (li, lv, uv)))
      (li, lv, uv)"
    using carries_map [OF carries_list [of uv s "DumpString collect" "LoadString nm" id], of "\<lambda>uv. (li, lv, uv)"]
      carries_string list_allD [OF fits(3)] by auto
  note 3 = counted [OF sizes(3), where k = "\<lambda>n. lbind (load_list n (LoadString nm)) (\<lambda>uv. lret (li, lv, uv))", OF 3]
  have 2: "carries s (fold (DumpLocVar collect) lv) (load_list (length lv) (LoadLocVar nm)) lv"
    using carries_list [of lv s "DumpLocVar collect" "LoadLocVar nm" id] carries_locvar list_allD [OF fits(2)] by auto
  note 2 = carries_bind [OF 2, where ?l2.0 = "\<lambda>lv. lbind (LoadInt nm) (\<lambda>n. lbind (newvector room (nat n) 8)
      (\<lambda>_. lbind (load_list (nat n) (LoadString nm)) (\<lambda>uv. lret (li, lv, uv))))", OF 3]
  note 2 = counted [OF sizes(2), where k = "\<lambda>n. lbind (load_list n (LoadLocVar nm)) (\<lambda>lv. lbind (LoadInt nm)
      (\<lambda>n. lbind (newvector room (nat n) 8) (\<lambda>_. lbind (load_list (nat n) (LoadString nm)) (\<lambda>uv. lret (li, lv, uv)))))", OF 2]
  have li: "map int_value (map int_bytes li) = li"
    using list_allD [OF fits(1)] by (simp add: map_idI int_value_bytes)
  have 1: "carries s (DumpBlock collect (concat (map int_bytes li))) (LoadVector nm (length li) 4) (map int_bytes li)"
    by (rule carries_vector) (simp add: int_bytes_def)
  note 1 = carries_bind [OF 1, where ?l2.0 = "\<lambda>l. lbind (LoadInt nm) (\<lambda>n. lbind (newvector room (nat n) 16) (\<lambda>_.
      lbind (load_list (nat n) (LoadLocVar nm)) (\<lambda>lv. lbind (LoadInt nm) (\<lambda>n. lbind (newvector room (nat n) 8)
      (\<lambda>_. lbind (load_list (nat n) (LoadString nm)) (\<lambda>uv. lret (map int_value l, lv, uv)))))))", unfolded li, OF 2]
  note 1 = counted [OF sizes(1), where k = "\<lambda>n. lbind (LoadVector nm n 4) (\<lambda>l. lbind (LoadInt nm) (\<lambda>n.
      lbind (newvector room (nat n) 16) (\<lambda>_. lbind (load_list (nat n) (LoadLocVar nm)) (\<lambda>lv. lbind (LoadInt nm)
      (\<lambda>n. lbind (newvector room (nat n) 8) (\<lambda>_. lbind (load_list (nat n) (LoadString nm))
      (\<lambda>uv. lret (map int_value l, lv, uv))))))))", OF 1]
  show ?thesis
    unfolding LoadDebug_def defs [symmetric]
    by (rule carries_cong [OF 1]) (simp add: DumpDebug_def DumpVector_def Let_def defs)
qed

lemma carries_constants:
  assumes "fits_proto f" "\<forall>n. room n" "\<And>g. g \<in> set (protos f) \<Longrightarrow> carries s (df g) lf (h g)"
  shows "carries s (DumpConstants collect df f) (LoadConstants nm room lf) (konsts f, map h (protos f))"
proof -
  have sizes: "is_size (int (length (konsts f)))" "is_size (int (length (protos f)))"
    and fits: "list_all fits_konst (konsts f)"
    using assms(1) by (auto simp: fits_proto_def sizek_def sizep_def)
  note counted = carries_counted [OF _ assms(2)]
  note 2 = carries_map [OF carries_list [of "protos f" s df lf h, OF assms(3)], of "\<lambda>fs. (konsts f, fs)"]
  note 2 = counted [OF sizes(2), where k = "\<lambda>n. lbind (load_list n lf) (\<lambda>fs. lret (konsts f, fs))", OF 2]
  have 1: "carries s (fold (DumpConstant collect) (konsts f)) (load_list (length (konsts f)) (LoadConstant nm)) (konsts f)"
    using carries_list [of "konsts f" s "DumpConstant collect" "LoadConstant nm" id] carries_konst list_allD [OF fits] by auto
  note 1 = carries_bind [OF 1, where ?l2.0 = "\<lambda>ks. lbind (LoadInt nm) (\<lambda>n. lbind (newvector room (nat n) 8)
      (\<lambda>_. lbind (load_list (nat n) lf) (\<lambda>fs. lret (ks, fs))))", OF 2]
  note 1 = counted [OF sizes(1), where k = "\<lambda>n. lbind (load_list n (LoadConstant nm)) (\<lambda>ks. lbind (LoadInt nm)
      (\<lambda>n. lbind (newvector room (nat n) 8) (\<lambda>_. lbind (load_list (nat n) lf) (\<lambda>fs. lret (ks, fs)))))", OF 1]
  show ?thesis
    unfolding LoadConstants_def
    by (rule carries_cong [OF 1], assumption) (unfold DumpConstants_def Let_def, rule refl)
qed

lemma source_loaded: "source (loaded s q f) = (if s \<or> source f = None then q else source f)"
  by (subst loaded.simps) (simp add: Let_def)

lemma carries_function:
  assumes "\<forall>n. room n"
  shows "loadable d s q f \<Longrightarrow> \<not> s \<and> q' \<noteq> None \<longrightarrow> q = q' \<Longrightarrow>
    carries s (DumpFunction collect q' f) (LoadFunction d nm room q) (loaded s q f)"
proof (induction d arbitrary: q q' f)
  case 0
  then show ?case by simp
next
  case (Suc d)
  define src where "src = source (loaded s q f)"
  define src0 where "src0 = (if source f = q' \<or> s then None else source f)"
  have ok: "fits_proto f" "luaG_checkcode (loaded s q f)" "list_all (loadable d s src) (protos f)"
    using Suc.prems(1) by (simp_all add: src_def)
  have fits: "fits_string src0" "is_size (linedefined f)" "is_size (lastlinedefined f)" "is_size (int (length (code f)))"
    using ok(1) by (auto simp: fits_proto_def sizecode_def src0_def fits_string_def)
  have src: "(if src0 = None then q else src0) = src"
    using Suc.prems(2) by (auto simp: src_def src0_def source_loaded)
  have inner: "carries s (DumpFunction collect (source f) g) (LoadFunction d nm room src) (loaded s src g)"
    if "g \<in> set (protos f)" for g
    using Suc.IH [OF list_allD [OF ok(3) that], of "source f"] by (auto simp: src_def source_loaded)
  have ld: "loaded s q f = Proto src (linedefined f) (lastlinedefined f) (nups f) (numparams f) (is_vararg f)
      (maxstacksize f) (code f) (konsts f) (map (loaded s src) (protos f))
      (if s then [] else lineinfo f) (if s then [] else locvars f) (if s then [] else upvalues f)"
    by (subst loaded.simps) (simp add: Let_def src_def source_loaded)
  have "carries s (\<lambda>D. DumpDebug collect f (DumpConstants collect (DumpFunction collect (source f)) f
      (DumpCode collect (code f) (DumpChar collect (uint (maxstacksize f)) (DumpChar collect (uint (is_vararg f))
      (DumpChar collect (uint (numparams f)) (DumpChar collect (uint (nups f))
      (DumpInt collect (lastlinedefined f) (DumpInt collect (linedefined f) (DumpString collect src0 D))))))))))
      (LoadFunction (Suc d) nm room q) (loaded s q f)"
    unfolding LoadFunction.simps
    apply (rule carries_bind [where ?m1.0 = "DumpString collect src0", OF carries_string [OF fits(1)]])
    unfolding src Let_def
    apply (rule carries_bind [where ?m1.0 = "DumpInt collect (linedefined f)", OF carries_int [OF fits(2)]])
    apply (rule carries_bind [where ?m1.0 = "DumpInt collect (lastlinedefined f)", OF carries_int [OF fits(3)]])
    apply (rule carries_bind [where ?m1.0 = "DumpChar collect (uint (nups f))", OF carries_byte])
    apply (rule carries_bind [where ?m1.0 = "DumpChar collect (uint (numparams f))", OF carries_byte])
    apply (rule carries_bind [where ?m1.0 = "DumpChar collect (uint (is_vararg f))", OF carries_byte])
    apply (rule carries_bind [where ?m1.0 = "DumpChar collect (uint (maxstacksize f))", OF carries_byte])
    apply (rule carries_bind [where ?m1.0 = "DumpCode collect (code f)", OF carries_code [OF fits(4) assms]])
    apply (rule carries_bind [where ?m1.0 = "DumpConstants collect (DumpFunction collect (source f)) f",
          OF carries_constants [OF ok(1) assms inner]])
     apply assumption
    unfolding prod.case
    apply (rule carries_bind [where ?m1.0 = "DumpDebug collect f" and ?m2.0 = "\<lambda>D. D", OF carries_debug [OF ok(1) assms]])
    using ok(2) carries_ret [of s "loaded s q f"] by (simp add: ld)
  then show ?case
    by (rule carries_cong) (subst DumpFunction.simps, simp add: Let_def src0_def)
qed

lemma carries_header: "carries s (DumpHeader collect) (LoadHeader nm) ()"
proof -
  have "length luaU_header = 12" by (simp add: luaU_header_def)
  then have "carries s (\<lambda>D. (\<lambda>D. D) (DumpBlock collect luaU_header D)) (LoadHeader nm) ()"
    unfolding LoadHeader_def by (intro carries_bind [OF carries_block]) (simp_all add: carries_ret)
  then show ?thesis by (rule carries_cong) (simp add: DumpHeader_def)
qed

text \<open>C21: loading what was dumped gives the prototype back (up to what stripping removes and the names of
  sources that were missing), stops right behind it, and neither side fails, however the reader cuts
  the bytes into blocks.\<close>

theorem undump_dump:
  assumes "\<forall>n. room n" "loadable (LUAI_MAXCCALLS - nCcalls) s (Some ''=?'') f"
    and "z_ok z" "zbytes z = snd (luaU_dump collect [] s f) @ rest"
  shows "fst (luaU_dump collect [] s f) = 0 \<and>
    (\<exists>z'. luaU_undump nCcalls room name z = Inr (loaded s (Some ''=?'') f, z') \<and> zbytes z' = rest)"
proof -
  have "carries s (\<lambda>D. DumpFunction collect None f (DumpHeader collect D)) (luaU_undump nCcalls room name)
      (loaded s (Some ''=?'') f)"
    unfolding luaU_undump_def
    by (rule carries_bind [OF carries_header]) (rule carries_function [OF assms(1,2)], simp)
  then obtain bs where bs:
    "\<And>D. strip D = s \<Longrightarrow> status D = 0 \<Longrightarrow>
      DumpFunction collect None f (DumpHeader collect D) = D\<lparr>data := data D @ bs\<rparr>"
    "\<And>z rest. z_ok z \<Longrightarrow> zbytes z = bs @ rest \<Longrightarrow>
      \<exists>z'. luaU_undump nCcalls room name z = Inr (loaded s (Some ''=?'') f, z') \<and> z_ok z' \<and> zbytes z' = rest"
    unfolding carries_def by blast
  have "luaU_dump collect [] s f = (0, bs)"
    by (simp add: luaU_dump_def bs(1))
  then show ?thesis using bs(2) [OF assms(3)] assms(4) by auto
qed

text \<open>Every prototype names its source.\<close>

function sourced :: "Proto \<Rightarrow> bool" where
  "sourced f \<longleftrightarrow> source f \<noteq> None \<and> (\<forall>g\<in>set (protos f). sourced g)"
  by pat_completeness auto
termination
  by (relation "measure size") (auto dest: protos_smaller)

declare sourced.simps [simp del]

lemma loaded_id: "sourced f \<Longrightarrow> loaded False q f = f"
proof (induction f arbitrary: q rule: sourced.induct)
  case (1 f)
  have "map (loaded False q') (protos f) = protos f" for q'
    using 1 sourced.simps [of f] by (intro map_idI) auto
  moreover have "source f \<noteq> None" using 1(2) sourced.simps [of f] by simp
  ultimately show ?case
    by (subst loaded.simps) (cases f, auto)
qed

lemma sourced_jump: "sourced jump_proto"
  by (subst sourced.simps) (simp add: jump_proto_def)

lemma loadable_jump: "loadable 200 False (Some ''=?'') jump_proto"
proof -
  have src: "loaded False (Some ''=?'') jump_proto = jump_proto"
    by (rule loaded_id [OF sourced_jump])
  have "fits_proto jump_proto"
    by (simp add: fits_proto_def jump_proto_def fits_string_def is_size_def sizecode_def sizek_def sizep_def)
  then show ?thesis
    using loadable.simps(2) [of 199 False "Some ''=?''" jump_proto] jump_proto_facts(1)
    by (simp add: src) (simp add: jump_proto_def)
qed

theorem undump_dump_witness:
  "\<exists>z'. luaU_undump 0 (\<lambda>_. True) ''=f'' \<lparr>unread = snd (luaU_dump collect [] False jump_proto), blocks = []\<rparr> =
     Inr (jump_proto, z')"
proof -
  have "loaded False (Some ''=?'') jump_proto = jump_proto"
    by (rule loaded_id [OF sourced_jump])
  then show ?thesis
    using undump_dump [where room = "\<lambda>_. True" and nCcalls = 0 and s = False and f = jump_proto and name = "''=f''"
        and z = "\<lparr>unread = snd (luaU_dump collect [] False jump_proto), blocks = []\<rparr>" and rest = "[]"]
      loadable_jump
    by (auto simp: LUAI_MAXCCALLS_def z_ok_def zbytes_def)
qed

text \<open>an unstripped dump of a prototype that names its sources loses nothing: \<open>loaded\<close> is the identity.\<close>

theorem loaded_same:
  assumes "sourced f"
  shows "loaded False q f = f"
  using assms by (rule loaded_id)

theorem loaded_same_witness: "loaded False None jump_proto = jump_proto"
  by (rule loaded_same [OF sourced_jump])

text \<open>a string constant of size \<open>0\<close> in a chunk is loaded as a string value with a null pointer, which
  no later check refuses.\<close>

theorem null_string_loaded:
  "LoadConstant nm \<lparr>unread = CHR 0x04 # le_bytes 8 0 @ rest, blocks = []\<rparr> =
     Inr (KStr None, \<lparr>unread = rest, blocks = []\<rparr>)"
proof -
  have r: "luaZ_read \<lparr>unread = b @ rest, blocks = []\<rparr> (length b) = (b, 0, \<lparr>unread = rest, blocks = []\<rparr>)"
    if "b \<noteq> []" for b rest
    using that
    by (subst luaZ_read.simps, cases b) (auto simp: luaZ_lookahead_def luaZ_read.simps [of _ 0])
  have "le_bytes 8 0 \<noteq> []" by (metis length_le_bytes list.size(3) zero_neq_numeral)
  then show ?thesis
    using r [of "[CHR 0x04]"] r [of "le_bytes 8 0" rest]
    by (simp add: LoadConstant_def LoadChar_def LoadString_def LoadBlock_def lbind_def lret_def le_value_bytes)
qed

end
