(* ===== verification/Lua_StrMatch.thy ===== *)
theory Lua_StrMatch
  imports Lua_Object
begin

text \<open>
  The pattern matcher of \<^verbatim>\<open>src/src/lstrlib.c\<close>. Pointers into the subject and into the pattern are
  indices; both end in a zero byte, which is what an index at the end reads. The recursion is
  bounded by a count that each call takes one from: \<open>None\<close> is a run that used it up, which
  \<open>Lua_StrMatch_Props\<close> shows not to happen. The character classes are those of the C locale.
\<close>

section \<open>Characters\<close>

abbreviation uchar :: "char \<Rightarrow> nat" where "uchar c \<equiv> of_char c"

definition isupper :: "nat \<Rightarrow> bool" where "isupper c \<longleftrightarrow> 65 \<le> c \<and> c \<le> 90"
definition islower :: "nat \<Rightarrow> bool" where "islower c \<longleftrightarrow> 97 \<le> c \<and> c \<le> 122"
definition isdigit :: "nat \<Rightarrow> bool" where "isdigit c \<longleftrightarrow> 48 \<le> c \<and> c \<le> 57"
definition isalpha :: "nat \<Rightarrow> bool" where "isalpha c \<longleftrightarrow> isupper c \<or> islower c"
definition isalnum :: "nat \<Rightarrow> bool" where "isalnum c \<longleftrightarrow> isalpha c \<or> isdigit c"
definition iscntrl :: "nat \<Rightarrow> bool" where "iscntrl c \<longleftrightarrow> c < 32 \<or> c = 127"
definition isspace :: "nat \<Rightarrow> bool" where "isspace c \<longleftrightarrow> c = 32 \<or> 9 \<le> c \<and> c \<le> 13"
definition ispunct :: "nat \<Rightarrow> bool" where "ispunct c \<longleftrightarrow> 33 \<le> c \<and> c \<le> 126 \<and> \<not> isalnum c"
definition isxdigit :: "nat \<Rightarrow> bool" where
  "isxdigit c \<longleftrightarrow> isdigit c \<or> 65 \<le> c \<and> c \<le> 70 \<or> 97 \<le> c \<and> c \<le> 102"
definition tolower :: "nat \<Rightarrow> nat" where "tolower c = (if isupper c then c + 32 else c)"
definition toupper :: "nat \<Rightarrow> nat" where "toupper c = (if islower c then c - 32 else c)"

section \<open>The state of a match\<close>

definition CAP_UNFINISHED :: int where "CAP_UNFINISHED = - 1"
definition CAP_POSITION :: int where "CAP_POSITION = - 2"
definition LUA_MAXCAPTURES :: nat where "LUA_MAXCAPTURES = 32"

record MatchState =
  src :: bytes
  pat :: bytes
  level :: nat
  capture :: "(nat \<times> int) list"

definition NUL :: char where "NUL = CHR 0x00"
definition L_ESC :: char where "L_ESC = CHR 0x25"

definition SPECIALS :: bytes where "SPECIALS = ''^$*+?.([%-''"

text \<open>What is at an index of a string with its terminating zero byte.\<close>

definition rd :: "bytes \<Rightarrow> nat \<Rightarrow> char" where
  "rd s i = (if i < length s then s ! i else NUL)"

type_synonym 'a mat = "(MatchState \<times> 'a) result option"

fun mbind :: "'a mat \<Rightarrow> (MatchState \<Rightarrow> 'a \<Rightarrow> 'b mat) \<Rightarrow> 'b mat" where
  "mbind None f = None"
| "mbind (Some (Inl e)) f = Some (Inl e)"
| "mbind (Some (Inr (ms, x))) f = f ms x"

lemma mbind_cong [fundef_cong]:
  "m = m' \<Longrightarrow> (\<And>ms x. m' = Some (Inr (ms, x)) \<Longrightarrow> f ms x = f' ms x) \<Longrightarrow> mbind m f = mbind m' f'"
  by (cases "(m', f')" rule: mbind.cases) auto

definition mret :: "MatchState \<Rightarrow> 'a \<Rightarrow> 'a mat" where
  "mret ms x = Some (Inr (ms, x))"

definition merror :: "bytes \<Rightarrow> 'a mat" where
  "merror msg = Some (runerror msg)"

definition mlift :: "MatchState \<Rightarrow> 'a result \<Rightarrow> 'a mat" where
  "mlift ms r = Some (case r of Inl e \<Rightarrow> Inl e | Inr x \<Rightarrow> Inr (ms, x))"

definition check_capture :: "MatchState \<Rightarrow> int \<Rightarrow> nat result" where
  "check_capture ms l =
     (let l = l - 49
      in if l < 0 \<or> l \<ge> int (level ms) \<or> snd (capture ms ! nat l) = CAP_UNFINISHED
         then runerror ''invalid capture index'' else Inr (nat l))"

text \<open>The last open capture below \<open>level\<close>.\<close>

fun to_close :: "(nat \<times> int) list \<Rightarrow> nat \<Rightarrow> nat result" where
  "to_close caps 0 = runerror ''invalid pattern capture''"
| "to_close caps (Suc l) = (if snd (caps ! l) = CAP_UNFINISHED then Inr l else to_close caps l)"

definition capture_to_close :: "MatchState \<Rightarrow> nat result" where
  "capture_to_close ms = to_close (capture ms) (level ms)"

section \<open>Single characters\<close>

text \<open>The end of a \<open>[...]\<close>: one round of the loop at \<open>p\<close>, then the test of the next character.\<close>

function class_loop :: "bytes \<Rightarrow> nat \<Rightarrow> nat result" where
  "class_loop pt p =
     (if p \<ge> length pt \<or> rd pt p = NUL then runerror (''malformed pattern (missing '' @ LUA_QL '']'' @ '')'')
      else let p' = (if rd pt p = L_ESC \<and> rd pt (p + 1) \<noteq> NUL then p + 2 else p + 1)
           in if rd pt p' \<noteq> CHR '']'' then class_loop pt p' else Inr (p' + 1))"
  by pat_completeness auto
termination by (relation "measure (\<lambda>(pt, p). length pt - p)") (auto simp: Let_def)

declare class_loop.simps [simp del]

definition classend :: "bytes \<Rightarrow> nat \<Rightarrow> nat result" where
  "classend pt p =
     (if rd pt p = L_ESC then
        (if rd pt (p + 1) = NUL then runerror (''malformed pattern (ends with '' @ LUA_QL ''%'' @ '')'')
         else Inr (p + 2))
      else if rd pt p = CHR ''['' then class_loop pt (if rd pt (p + 1) = CHR ''^'' then p + 2 else p + 1)
      else Inr (p + 1))"

definition match_class :: "nat \<Rightarrow> nat \<Rightarrow> bool" where
  "match_class c cl =
     (let l = tolower cl; test = (\<lambda>res. if islower cl then res else \<not> res)
      in if l = uchar CHR ''a'' then test (isalpha c)
         else if l = uchar CHR ''c'' then test (iscntrl c)
         else if l = uchar CHR ''d'' then test (isdigit c)
         else if l = uchar CHR ''l'' then test (islower c)
         else if l = uchar CHR ''p'' then test (ispunct c)
         else if l = uchar CHR ''s'' then test (isspace c)
         else if l = uchar CHR ''u'' then test (isupper c)
         else if l = uchar CHR ''w'' then test (isalnum c)
         else if l = uchar CHR ''x'' then test (isxdigit c)
         else if l = uchar CHR ''z'' then test (c = 0)
         else cl = c)"

text \<open>The loop of \<open>matchbracketclass\<close>, with \<open>p\<close> as it is before \<open>++p\<close>: whether an element matches.\<close>

function bracket_loop :: "bytes \<Rightarrow> nat \<Rightarrow> nat \<Rightarrow> nat \<Rightarrow> bool" where
  "bracket_loop pt c p ec =
     (let p = p + 1 in
      if \<not> p < ec then False
      else if rd pt p = L_ESC
           then match_class c (uchar (rd pt (p + 1))) \<or> bracket_loop pt c (p + 1) ec
      else if rd pt (p + 1) = CHR ''-'' \<and> p + 2 < ec
           then uchar (rd pt p) \<le> c \<and> c \<le> uchar (rd pt (p + 2)) \<or> bracket_loop pt c (p + 2) ec
      else uchar (rd pt p) = c \<or> bracket_loop pt c p ec)"
  by pat_completeness auto
termination by (relation "measure (\<lambda>(pt, c, p, ec). ec - p)") auto

declare bracket_loop.simps [simp del]

definition matchbracketclass :: "bytes \<Rightarrow> nat \<Rightarrow> nat \<Rightarrow> nat \<Rightarrow> bool" where
  "matchbracketclass pt c p ec =
     (if rd pt (p + 1) = CHR ''^'' then \<not> bracket_loop pt c (p + 1) ec else bracket_loop pt c p ec)"

definition singlematch :: "bytes \<Rightarrow> nat \<Rightarrow> nat \<Rightarrow> nat \<Rightarrow> bool" where
  "singlematch pt c p ep =
     (if rd pt p = CHR ''.'' then True
      else if rd pt p = L_ESC then match_class c (uchar (rd pt (p + 1)))
      else if rd pt p = CHR ''['' then matchbracketclass pt c p (ep - 1)
      else uchar (rd pt p) = c)"

section \<open>Items of a pattern\<close>

function balance_loop :: "bytes \<Rightarrow> char \<Rightarrow> char \<Rightarrow> nat \<Rightarrow> nat \<Rightarrow> nat option" where
  "balance_loop sb b e cont s =
     (let s = s + 1 in
      if s < length sb then
        (if sb ! s = e then (if cont - 1 = 0 then Some (s + 1) else balance_loop sb b e (cont - 1) s)
         else if sb ! s = b then balance_loop sb b e (cont + 1) s
         else balance_loop sb b e cont s)
      else None)"
  by pat_completeness auto
termination by (relation "measure (\<lambda>(sb, b, e, cont, s). length sb - s)") auto

declare balance_loop.simps [simp del]

definition matchbalance :: "MatchState \<Rightarrow> nat \<Rightarrow> nat \<Rightarrow> nat option result" where
  "matchbalance ms s p =
     (if rd (pat ms) p = NUL \<or> rd (pat ms) (p + 1) = NUL then runerror ''unbalanced pattern''
      else if rd (src ms) s \<noteq> rd (pat ms) p then Inr None
      else Inr (balance_loop (src ms) (rd (pat ms) p) (rd (pat ms) (p + 1)) 1 s))"

text \<open>The rest of the match is the argument \<open>M\<close> of what calls it.\<close>

type_synonym matcher = "MatchState \<Rightarrow> nat \<Rightarrow> nat \<Rightarrow> nat option mat"

function max_count :: "bytes \<Rightarrow> bytes \<Rightarrow> nat \<Rightarrow> nat \<Rightarrow> nat \<Rightarrow> nat \<Rightarrow> nat" where
  "max_count sb pt s p ep i =
     (if s + i < length sb \<and> singlematch pt (uchar (rd sb (s + i))) p ep
      then max_count sb pt s p ep (i + 1) else i)"
  by pat_completeness auto
termination by (relation "measure (\<lambda>(sb, pt, s, p, ep, i). length sb - (s + i))") auto

declare max_count.simps [simp del]

fun max_loop :: "matcher \<Rightarrow> nat \<Rightarrow> nat \<Rightarrow> nat \<Rightarrow> MatchState \<Rightarrow> nat option mat" where
  "max_loop M s q 0 ms = M ms s q"
| "max_loop M s q (Suc i) ms =
     mbind (M ms (s + Suc i) q) (\<lambda>ms res. case res of Some r \<Rightarrow> mret ms res | None \<Rightarrow> max_loop M s q i ms)"

definition max_expand :: "matcher \<Rightarrow> MatchState \<Rightarrow> nat \<Rightarrow> nat \<Rightarrow> nat \<Rightarrow> nat option mat" where
  "max_expand M ms s p ep = max_loop M s (ep + 1) (max_count (src ms) (pat ms) s p ep 0) ms"

function min_loop :: "matcher \<Rightarrow> bytes \<Rightarrow> bytes \<Rightarrow> nat \<Rightarrow> nat \<Rightarrow> nat \<Rightarrow> MatchState \<Rightarrow> nat option mat" where
  "min_loop M sb pt p ep s ms =
     mbind (M ms s (ep + 1)) (\<lambda>ms res.
       case res of Some r \<Rightarrow> mret ms res
       | None \<Rightarrow> if s < length sb \<and> singlematch pt (uchar (rd sb s)) p ep
                 then min_loop M sb pt p ep (s + 1) ms else mret ms None)"
  by pat_completeness auto
termination by (relation "measure (\<lambda>(M, sb, pt, p, ep, s, ms). length sb - s)") auto

declare min_loop.simps [simp del]

definition min_expand :: "matcher \<Rightarrow> MatchState \<Rightarrow> nat \<Rightarrow> nat \<Rightarrow> nat \<Rightarrow> nat option mat" where
  "min_expand M ms s p ep = min_loop M (src ms) (pat ms) p ep s ms"

definition start_capture :: "matcher \<Rightarrow> MatchState \<Rightarrow> nat \<Rightarrow> nat \<Rightarrow> int \<Rightarrow> nat option mat" where
  "start_capture M ms s p what =
     (if level ms \<ge> LUA_MAXCAPTURES then merror ''too many captures''
      else mbind (M (ms\<lparr>capture := (capture ms)[level ms := (s, what)], level := level ms + 1\<rparr>) s p)
             (\<lambda>ms res. case res of None \<Rightarrow> mret (ms\<lparr>level := level ms - 1\<rparr>) None | Some r \<Rightarrow> mret ms res))"

definition set_len :: "nat \<Rightarrow> int \<Rightarrow> MatchState \<Rightarrow> MatchState" where
  "set_len l n ms = ms\<lparr>capture := (capture ms)[l := (fst (capture ms ! l), n)]\<rparr>"

definition end_capture :: "matcher \<Rightarrow> MatchState \<Rightarrow> nat \<Rightarrow> nat \<Rightarrow> nat option mat" where
  "end_capture M ms s p =
     mbind (mlift ms (capture_to_close ms)) (\<lambda>ms l.
     mbind (M (set_len l (int s - int (fst (capture ms ! l))) ms) s p) (\<lambda>ms res.
       case res of None \<Rightarrow> mret (set_len l CAP_UNFINISHED ms) None | Some r \<Rightarrow> mret ms res))"

text \<open>The length of a position capture, as a \<open>size_t\<close>, is more than any string has.\<close>

definition match_capture :: "MatchState \<Rightarrow> nat \<Rightarrow> int \<Rightarrow> nat option result" where
  "match_capture ms s l =
     bind (check_capture ms l) (\<lambda>l.
       let (init, n) = capture ms ! l; len = nat (n mod 2 ^ 64)
       in Inr (if length (src ms) - s \<ge> len \<and> take len (drop init (src ms)) = take len (drop s (src ms))
               then Some (s + len) else None))"

definition match_default :: "matcher \<Rightarrow> MatchState \<Rightarrow> nat \<Rightarrow> nat \<Rightarrow> nat option mat" where
  "match_default M ms s p =
     mbind (mlift ms (classend (pat ms) p)) (\<lambda>ms ep.
       let m = (s < length (src ms) \<and> singlematch (pat ms) (uchar (rd (src ms) s)) p ep);
           c = rd (pat ms) ep
       in if c = CHR ''?'' then
            mbind (if m then M ms (s + 1) (ep + 1) else mret ms None) (\<lambda>ms res.
              case res of Some r \<Rightarrow> mret ms res | None \<Rightarrow> M ms s (ep + 1))
          else if c = CHR ''*'' then max_expand M ms s p ep
          else if c = CHR ''+'' then (if m then max_expand M ms (s + 1) p ep else mret ms None)
          else if c = CHR ''-'' then min_expand M ms s p ep
          else if \<not> m then mret ms None
          else M ms (s + 1) ep)"

definition match_frontier :: "matcher \<Rightarrow> MatchState \<Rightarrow> nat \<Rightarrow> nat \<Rightarrow> nat option mat" where
  "match_frontier M ms s p =
     (if rd (pat ms) p \<noteq> CHR ''[''
      then merror (''missing '' @ LUA_QL ''['' @ '' after '' @ LUA_QL ''%f'' @ '' in pattern'')
      else mbind (mlift ms (classend (pat ms) p)) (\<lambda>ms ep.
        let previous = (if s = 0 then NUL else rd (src ms) (s - 1))
        in if matchbracketclass (pat ms) (uchar previous) p (ep - 1) \<or>
              \<not> matchbracketclass (pat ms) (uchar (rd (src ms) s)) p (ep - 1)
           then mret ms None else M ms s ep))"

text \<open>\<open>match\<close>. A \<open>goto init\<close> is a call.\<close>

fun do_match :: "nat \<Rightarrow> matcher" where
  "do_match 0 ms s p = None"
| "do_match (Suc n) ms s p =
     (let M = do_match n; c = rd (pat ms) p; d = rd (pat ms) (p + 1)
      in if c = CHR ''('' then
           (if d = CHR '')'' then start_capture M ms s (p + 2) CAP_POSITION
            else start_capture M ms s (p + 1) CAP_UNFINISHED)
         else if c = CHR '')'' then end_capture M ms s (p + 1)
         else if c = L_ESC \<and> d = CHR ''b'' then
           mbind (mlift ms (matchbalance ms s (p + 2))) (\<lambda>ms r.
             case r of None \<Rightarrow> mret ms None | Some s \<Rightarrow> M ms s (p + 4))
         else if c = L_ESC \<and> d = CHR ''f'' then match_frontier M ms s (p + 2)
         else if c = L_ESC \<and> isdigit (uchar d) then
           mbind (mlift ms (match_capture ms s (int (uchar d)))) (\<lambda>ms r.
             case r of None \<Rightarrow> mret ms None | Some s \<Rightarrow> M ms s (p + 2))
         else if c = NUL then mret ms (Some s)
         else if c = CHR ''$'' \<and> d = NUL then mret ms (if s = length (src ms) then Some s else None)
         else match_default M ms s p)"

end
