(* ===== verification/Lua_StrLib.thy ===== *)
theory Lua_StrLib
  imports Lua_StrMatch
begin

text \<open>
  The string library, \<^verbatim>\<open>src/src/lstrlib.c\<close>, on the bytes of its arguments; an optional argument
  that is absent has its default filled in by the function. The replacement of \<open>gsub\<close> is a
  string, or a function of the captures (a Lua function or a table look-up).
  \<open>string.format\<close> has a theory of its own, \<open>Lua_Format\<close>; \<open>string.dump\<close> is not modelled. An error message is given without its position and argument number.
\<close>

section \<open>Positions and slices\<close>

definition str_len :: "bytes \<Rightarrow> nat" where
  "str_len s = length s"

definition posrelat :: "int \<Rightarrow> nat \<Rightarrow> int" where
  "posrelat pos len = (let pos = (if pos < 0 then pos + int len + 1 else pos) in if pos \<ge> 0 then pos else 0)"

definition str_sub :: "bytes \<Rightarrow> int \<Rightarrow> int option \<Rightarrow> bytes" where
  "str_sub s i j =
     (let l = length s;
          start = posrelat i l;
          to = posrelat (case j of None \<Rightarrow> - 1 | Some j \<Rightarrow> j) l;
          start = (if start < 1 then 1 else start);
          to = (if to > int l then int l else to)
      in if start \<le> to then take (nat (to - start + 1)) (drop (nat (start - 1)) s) else [])"

fun reverse_loop :: "bytes \<Rightarrow> nat \<Rightarrow> bytes \<Rightarrow> bytes" where
  "reverse_loop s 0 b = b"
| "reverse_loop s (Suc l) b = reverse_loop s l (b @ [s ! l])"

definition str_reverse :: "bytes \<Rightarrow> bytes" where
  "str_reverse s = reverse_loop s (length s) []"

definition str_lower :: "bytes \<Rightarrow> bytes" where
  "str_lower s = map (\<lambda>c. char_of (tolower (uchar c))) s"

definition str_upper :: "bytes \<Rightarrow> bytes" where
  "str_upper s = map (\<lambda>c. char_of (toupper (uchar c))) s"

fun rep_loop :: "bytes \<Rightarrow> nat \<Rightarrow> bytes \<Rightarrow> bytes" where
  "rep_loop s 0 b = b"
| "rep_loop s (Suc n) b = rep_loop s n (b @ s)"

definition str_rep :: "bytes \<Rightarrow> int \<Rightarrow> bytes" where
  "str_rep s n = rep_loop s (nat n) []"

text \<open>\<open>pose\<close> is compared with the length as a \<open>size_t\<close>; it is not negative. The number of results is
  an \<open>int\<close>.\<close>

definition str_byte :: "bytes \<Rightarrow> int option \<Rightarrow> int option \<Rightarrow> nat list result" where
  "str_byte s i j =
     (let l = length s;
          posi = posrelat (case i of None \<Rightarrow> 1 | Some i \<Rightarrow> i) l;
          pose = posrelat (case j of None \<Rightarrow> posi | Some j \<Rightarrow> j) l;
          posi = (if posi \<le> 0 then 1 else posi);
          pose = (if pose > int l then int l else pose)
      in if posi > pose then Inr []
         else let n = (let m = (pose - posi + 1) mod 2 ^ 32 in if m < 2 ^ 31 then m else m - 2 ^ 32)
              in if posi + n \<le> pose then runerror ''string slice too long''
                 else Inr (map (\<lambda>k. uchar (s ! nat (posi + k - 1))) [0..n - 1]))"

definition str_char :: "int list \<Rightarrow> bytes result" where
  "str_char cs =
     (if \<forall>c\<in>set cs. c mod 256 = c then Inr (map (\<lambda>c. char_of (nat c)) cs) else runerror ''invalid value'')"

section \<open>Searching\<close>

text \<open>\<open>memchr\<close>: the first place of \<open>c\<close> among the first \<open>n\<close> bytes.\<close>

fun memchr :: "bytes \<Rightarrow> char \<Rightarrow> nat \<Rightarrow> nat option" where
  "memchr s c 0 = None"
| "memchr [] c (Suc n) = None"
| "memchr (x # s) c (Suc n) = (if x = c then Some 0 else map_option Suc (memchr s c n))"

lemma memchr_less: "memchr s c n = Some i \<Longrightarrow> i < n"
  by (induction s c n arbitrary: i rule: memchr.induct) (auto split: if_splits)

text \<open>The loop, at offset \<open>o\<close> of the subject with \<open>l1\<close> places left.\<close>

function lmemfind_loop :: "bytes \<Rightarrow> char \<Rightarrow> bytes \<Rightarrow> nat \<Rightarrow> nat \<Rightarrow> nat option" where
  "lmemfind_loop s1 c s2 off l1 =
     (if l1 > 0 then
        (case memchr (drop off s1) c l1 of
           None \<Rightarrow> None
         | Some i \<Rightarrow>
             let init = off + i + 1
             in if take (length s2) (drop init s1) = s2 then Some (init - 1)
                else lmemfind_loop s1 c s2 init (l1 - (i + 1)))
      else None)"
  by pat_completeness auto
termination by (relation "measure (\<lambda>(s1, c, s2, off, l1). l1)") (auto dest: memchr_less)

declare lmemfind_loop.simps [simp del]

definition lmemfind :: "bytes \<Rightarrow> bytes \<Rightarrow> nat option" where
  "lmemfind s1 s2 =
     (case s2 of
        [] \<Rightarrow> Some 0
      | c # r \<Rightarrow> if length s2 > length s1 then None
                 else lmemfind_loop s1 c r 0 (length s1 - length r))"

datatype capval = CapStr bytes | CapPos nat

definition push_onecapture :: "MatchState \<Rightarrow> nat \<Rightarrow> nat \<Rightarrow> nat \<Rightarrow> capval result" where
  "push_onecapture ms i s e =
     (if i \<ge> level ms then
        (if i = 0 then Inr (CapStr (take (e - s) (drop s (src ms)))) else runerror ''invalid capture index'')
      else let (init, l) = capture ms ! i
           in if l = CAP_UNFINISHED then runerror ''unfinished capture''
              else if l = CAP_POSITION then Inr (CapPos (init + 1))
              else Inr (CapStr (take (nat l) (drop init (src ms)))))"

fun result_map :: "('a \<Rightarrow> 'b result) \<Rightarrow> 'a list \<Rightarrow> 'b list result" where
  "result_map f [] = Inr []"
| "result_map f (x # xs) = bind (f x) (\<lambda>y. bind (result_map f xs) (\<lambda>ys. Inr (y # ys)))"

text \<open>\<open>whole\<close> tells a call with the bounds of the match from one without.\<close>

definition push_captures :: "MatchState \<Rightarrow> (nat \<times> nat) option \<Rightarrow> capval list result" where
  "push_captures ms whole =
     (let nlevels = (if level ms = 0 \<and> whole \<noteq> None then 1 else level ms);
          (s, e) = (case whole of None \<Rightarrow> (0, 0) | Some se \<Rightarrow> se)
      in result_map (\<lambda>i. push_onecapture ms i s e) [0..<nlevels])"

definition fresh_state :: "bytes \<Rightarrow> bytes \<Rightarrow> MatchState" where
  "fresh_state s p = \<lparr>src = s, pat = p, level = 0, capture = replicate LUA_MAXCAPTURES (0, 0)\<rparr>"

text \<open>A call of \<open>match\<close> gets a count that is enough for the pattern.\<close>

definition run_match :: "MatchState \<Rightarrow> nat \<Rightarrow> nat \<Rightarrow> nat option mat" where
  "run_match ms s p = do_match (length (pat ms) + 2) (ms\<lparr>level := 0\<rparr>) s p"

text \<open>The scan of \<open>str_find_aux\<close>: the start of the match with its end, and the state.\<close>

function find_loop :: "bytes \<Rightarrow> nat \<Rightarrow> bool \<Rightarrow> nat \<Rightarrow> MatchState \<Rightarrow> (nat \<times> nat) option mat" where
  "find_loop sb p anchor s1 ms =
     mbind (run_match ms s1 p) (\<lambda>ms res.
       case res of
         Some r \<Rightarrow> mret ms (Some (s1, r))
       | None \<Rightarrow> if s1 < length sb \<and> \<not> anchor then find_loop sb p anchor (s1 + 1) ms else mret ms None)"
  by pat_completeness auto
termination by (relation "measure (\<lambda>(sb, p, anchor, s1, ms). length sb - s1)") auto

declare find_loop.simps [simp del]

datatype strval = VNil | VInt int | VCap capval

definition strpbrk :: "bytes \<Rightarrow> bytes \<Rightarrow> bool" where
  "strpbrk p set_of \<longleftrightarrow> (\<exists>c\<in>set (takeWhile (\<lambda>c. c \<noteq> NUL) p). c \<in> set set_of)"

text \<open>The start of a search, an offset.\<close>

definition find_init :: "int option \<Rightarrow> nat \<Rightarrow> nat" where
  "find_init i l1 =
     (let init = posrelat (case i of None \<Rightarrow> 1 | Some i \<Rightarrow> i) l1 - 1
      in if init < 0 then 0 else if init > int l1 then l1 else nat init)"

definition str_find_aux ::
  "bool \<Rightarrow> bytes \<Rightarrow> bytes \<Rightarrow> int option \<Rightarrow> bool \<Rightarrow> strval list result option" where
  "str_find_aux fnd s p i plain =
     (let init = find_init i (length s)
      in if fnd \<and> (plain \<or> \<not> strpbrk p SPECIALS) then
           (case lmemfind (drop init s) p of
              Some k \<Rightarrow> Some (Inr [VInt (int (init + k) + 1), VInt (int (init + k + length p))])
            | None \<Rightarrow> Some (Inr [VNil]))
         else
           let anchor = (rd p 0 = CHR ''^'')
           in case find_loop s (if anchor then 1 else 0) anchor init (fresh_state s p) of
                None \<Rightarrow> None
              | Some (Inl e) \<Rightarrow> Some (Inl e)
              | Some (Inr (ms, None)) \<Rightarrow> Some (Inr [VNil])
              | Some (Inr (ms, Some (s1, e))) \<Rightarrow>
                  if fnd
                  then Some (bind (push_captures ms None) (\<lambda>cs.
                         Inr (VInt (int s1 + 1) # VInt (int e) # map VCap cs)))
                  else Some (bind (push_captures ms (Some (s1, e))) (\<lambda>cs. Inr (map VCap cs))))"

definition str_find :: "bytes \<Rightarrow> bytes \<Rightarrow> int option \<Rightarrow> bool \<Rightarrow> strval list result option" where
  "str_find = str_find_aux True"

definition str_match :: "bytes \<Rightarrow> bytes \<Rightarrow> int option \<Rightarrow> strval list result option" where
  "str_match s p i = str_find_aux False s p i False"

text \<open>One step of the iterator of \<open>gmatch\<close>: the captures and the next start.\<close>

function gmatch_loop :: "bytes \<Rightarrow> nat \<Rightarrow> MatchState \<Rightarrow> (nat \<times> nat) option mat" where
  "gmatch_loop sb s ms =
     (if s \<le> length sb
      then mbind (run_match ms s 0) (\<lambda>ms res.
             case res of Some e \<Rightarrow> mret ms (Some (s, e)) | None \<Rightarrow> gmatch_loop sb (s + 1) ms)
      else mret ms None)"
  by pat_completeness auto
termination by (relation "measure (\<lambda>(sb, s, ms). length sb + 1 - s)") auto

declare gmatch_loop.simps [simp del]

definition gmatch_aux :: "bytes \<Rightarrow> bytes \<Rightarrow> nat \<Rightarrow> (capval list \<times> nat) option result option" where
  "gmatch_aux s p start =
     (case gmatch_loop s start (fresh_state s p) of
        None \<Rightarrow> None
      | Some (Inl e) \<Rightarrow> Some (Inl e)
      | Some (Inr (ms, None)) \<Rightarrow> Some (Inr None)
      | Some (Inr (ms, Some (s1, e))) \<Rightarrow>
          Some (bind (push_captures ms (Some (s1, e))) (\<lambda>cs.
            Inr (Some (cs, if e = s1 then e + 1 else e)))))"

section \<open>Substitution\<close>

text \<open>What a called function or a table gives: nil or false, a string or number by its text, or a value
  of another type, by the name of the type.\<close>

datatype rvalue = RFalse | RText bytes | ROther bytes

datatype repl = RStr bytes | RFun "capval list \<Rightarrow> rvalue result" | RTab "capval \<Rightarrow> rvalue result"

text \<open>A capture as text: a position as its number.\<close>

definition cap_text :: "capval \<Rightarrow> bytes" where
  "cap_text v = (case v of CapStr s \<Rightarrow> s | CapPos n \<Rightarrow> nat_dec n)"

text \<open>Behind a last \<open>%\<close> the loop reads the zero byte that ends the replacement.\<close>

function add_s_loop :: "MatchState \<Rightarrow> bytes \<Rightarrow> nat \<Rightarrow> nat \<Rightarrow> nat \<Rightarrow> bytes \<Rightarrow> bytes result" where
  "add_s_loop ms news s e i b =
     (if i < length news then
        (if news ! i \<noteq> L_ESC then add_s_loop ms news s e (i + 1) (b @ [news ! i])
         else let c = rd news (i + 1)
              in if \<not> isdigit (uchar c) then add_s_loop ms news s e (i + 2) (b @ [c])
                 else if c = CHR ''0''
                      then add_s_loop ms news s e (i + 2) (b @ take (e - s) (drop s (src ms)))
                 else bind (push_onecapture ms (uchar c - 49) s e) (\<lambda>v.
                        add_s_loop ms news s e (i + 2) (b @ cap_text v)))
      else Inr b)"
  by pat_completeness auto
termination by (relation "measure (\<lambda>(ms, news, s, e, i, b). length news - i)") auto

declare add_s_loop.simps [simp del]

definition add_s :: "MatchState \<Rightarrow> bytes \<Rightarrow> nat \<Rightarrow> nat \<Rightarrow> bytes \<Rightarrow> bytes result" where
  "add_s ms news s e b = add_s_loop ms news s e 0 b"

definition add_value :: "repl \<Rightarrow> MatchState \<Rightarrow> nat \<Rightarrow> nat \<Rightarrow> bytes \<Rightarrow> bytes result" where
  "add_value r ms s e b =
     (let keep = take (e - s) (drop s (src ms));
          put = (\<lambda>v. case v of
                   RFalse \<Rightarrow> Inr (b @ keep)
                 | RText x \<Rightarrow> Inr (b @ x)
                 | ROther ty \<Rightarrow> runerror (''invalid replacement value (a '' @ ty @ '')''))
      in case r of
           RStr news \<Rightarrow> add_s ms news s e b
         | RFun f \<Rightarrow> bind (push_captures ms (Some (s, e))) (\<lambda>cs. bind (f cs) put)
         | RTab f \<Rightarrow> bind (push_onecapture ms 0 s e) (\<lambda>v. bind (f v) put))"

text \<open>The loop takes one from its count in every round; \<open>length src + 2\<close> rounds are enough.\<close>

fun gsub_loop ::
  "nat \<Rightarrow> repl \<Rightarrow> nat \<Rightarrow> bool \<Rightarrow> int \<Rightarrow> MatchState \<Rightarrow> nat \<Rightarrow> int \<Rightarrow> bytes \<Rightarrow> (nat \<times> int \<times> bytes) mat" where
  "gsub_loop 0 r p anchor max_s ms s n b = None"
| "gsub_loop (Suc k) r p anchor max_s ms s n b =
     (if n < max_s then
        mbind (run_match ms s p) (\<lambda>ms e.
        mbind (case e of None \<Rightarrow> mret ms b | Some e \<Rightarrow> mlift ms (add_value r ms s e b)) (\<lambda>ms b.
        let n = (if e = None then n else n + 1)
        in case (case e of Some e \<Rightarrow> if e > s then Some (e, b) else None | None \<Rightarrow> None) of
             Some (s, b) \<Rightarrow> if anchor then mret ms (s, n, b) else gsub_loop k r p anchor max_s ms s n b
           | None \<Rightarrow>
               if s < length (src ms)
               then (let b = b @ [src ms ! s]; s = s + 1
                     in if anchor then mret ms (s, n, b) else gsub_loop k r p anchor max_s ms s n b)
               else mret ms (s, n, b)))
      else mret ms (s, n, b))"

definition str_gsub :: "bytes \<Rightarrow> bytes \<Rightarrow> repl \<Rightarrow> int option \<Rightarrow> (bytes \<times> int) result option" where
  "str_gsub s p r m =
     (let max_s = (case m of None \<Rightarrow> int (length s) + 1 | Some m \<Rightarrow> m);
          anchor = (rd p 0 = CHR ''^'')
      in case gsub_loop (length s + 2) r (if anchor then 1 else 0) anchor max_s (fresh_state s p) 0 0 [] of
           None \<Rightarrow> None
         | Some (Inl e) \<Rightarrow> Some (Inl e)
         | Some (Inr (ms, s', n, b)) \<Rightarrow> Some (Inr (b @ drop s' s, n)))"

end
