(* ===== verification/Lua_StrLib_Props.thy ===== *)
theory Lua_StrLib_Props
  imports Lua_StrLib
begin

text \<open>
  The matcher always answers within the count it is given, and every position and capture it
  answers with lies inside the subject; from this the searches and \<open>gsub\<close> answer too. The plain
  search finds the first occurrence, and the slices are those of the manual.
\<close>

section \<open>Captures inside the subject\<close>

definition cap_ok :: "bytes \<Rightarrow> nat \<Rightarrow> nat \<times> int \<Rightarrow> bool" where
  "cap_ok sb s c \<longleftrightarrow> fst c \<le> length sb \<and>
     (snd c = CAP_UNFINISHED \<and> fst c \<le> s \<or> snd c = CAP_POSITION \<or>
      0 \<le> snd c \<and> int (fst c) + snd c \<le> int (length sb))"

definition ok :: "nat \<Rightarrow> MatchState \<Rightarrow> bool" where
  "ok s ms \<longleftrightarrow> s \<le> length (src ms) \<and> level ms \<le> LUA_MAXCAPTURES \<and> length (capture ms) = LUA_MAXCAPTURES \<and>
     (\<forall>i<level ms. cap_ok (src ms) s (capture ms ! i))"

text \<open>The same open and closed captures, as after an attempt that failed.\<close>

definition same :: "MatchState \<Rightarrow> MatchState \<Rightarrow> bool" where
  "same ms ms' \<longleftrightarrow> src ms' = src ms \<and> pat ms' = pat ms \<and> level ms' = level ms \<and>
     length (capture ms') = length (capture ms) \<and> (\<forall>i<level ms. capture ms' ! i = capture ms ! i)"

definition spec :: "MatchState \<Rightarrow> nat \<Rightarrow> nat option mat \<Rightarrow> bool" where
  "spec ms s r \<longleftrightarrow> (case r of
       None \<Rightarrow> False
     | Some (Inl e) \<Rightarrow> True
     | Some (Inr (ms', None)) \<Rightarrow> same ms ms'
     | Some (Inr (ms', Some t)) \<Rightarrow> s \<le> t \<and> t \<le> length (src ms) \<and> src ms' = src ms \<and> pat ms' = pat ms \<and>
         ok (length (src ms)) ms')"

definition sound :: "bytes \<Rightarrow> matcher \<Rightarrow> nat \<Rightarrow> bool" where
  "sound pt M p \<longleftrightarrow> (\<forall>ms s. pat ms = pt \<longrightarrow> ok s ms \<longrightarrow> spec ms s (M ms s p))"

lemma soundD: "sound pt M p \<Longrightarrow> pat ms = pt \<Longrightarrow> ok s ms \<Longrightarrow> spec ms s (M ms s p)"
  by (simp add: sound_def)

lemma same_refl [simp]: "same ms ms"
  by (simp add: same_def)

lemma same_trans: "same a b \<Longrightarrow> same b c \<Longrightarrow> same a c"
  by (simp add: same_def)

lemma ok_mono: "ok s ms \<Longrightarrow> s \<le> t \<Longrightarrow> t \<le> length (src ms) \<Longrightarrow> ok t ms"
  by (auto simp: ok_def cap_ok_def)

lemma ok_same: "ok s ms \<Longrightarrow> same ms ms' \<Longrightarrow> ok s ms'"
  by (simp add: ok_def same_def)

lemma spec_error [simp]: "spec ms s (merror m)" "spec ms s (Some (Inl e))"
  by (simp_all add: spec_def merror_def runerror_def)

lemma spec_fail [simp]: "same ms ms' \<Longrightarrow> spec ms s (mret ms' None)"
  by (simp add: spec_def mret_def)

lemma spec_done: "ok s ms \<Longrightarrow> spec ms s (mret ms (Some s))"
  using ok_mono [of s ms "length (src ms)"] by (auto simp: spec_def mret_def ok_def)

lemma spec_weaken: "spec ms' t r \<Longrightarrow> same ms ms' \<Longrightarrow> s \<le> t \<Longrightarrow> spec ms s r"
  by (auto simp: spec_def same_def split: option.splits sum.splits)

lemma spec_or:
  assumes "spec ms s r" "\<And>ms'. same ms ms' \<Longrightarrow> spec ms s (f ms')"
  shows "spec ms s (mbind r (\<lambda>ms res. case res of Some t \<Rightarrow> mret ms res | None \<Rightarrow> f ms))"
proof (cases r)
  case (Some x)
  then show ?thesis
  proof (cases x)
    case (Inr y)
    obtain ms' res where "y = (ms', res)" by (cases y)
    then show ?thesis using assms Some Inr by (cases res) (auto simp: spec_def mret_def)
  qed simp
qed (use assms(1) in \<open>simp add: spec_def\<close>)

lemma spec_lift:
  assumes "\<And>x. r = Inr x \<Longrightarrow> spec ms s (f ms x)"
  shows "spec ms s (mbind (mlift ms r) f)"
  using assms by (cases r) (simp_all add: mlift_def)

section \<open>The combinators\<close>

lemma max_count_bound: "s + i \<le> length sb \<Longrightarrow> s + max_count sb pt s p ep i \<le> length sb"
proof (induction sb pt s p ep i rule: max_count.induct)
  case (1 sb pt s p ep i)
  then show ?case by (subst max_count.simps) auto
qed

lemma spec_max_loop:
  "sound pt M q \<Longrightarrow> pat ms = pt \<Longrightarrow> ok s ms \<Longrightarrow> s + i \<le> length (src ms) \<Longrightarrow> spec ms s (max_loop M s q i ms)"
proof (induction i arbitrary: ms)
  case 0
  then show ?case using soundD by simp
next
  case (Suc i)
  have "spec ms s (M ms (s + Suc i) q)"
    using soundD [OF Suc.prems(1,2) ok_mono [OF Suc.prems(3), of "s + Suc i"]] Suc.prems(4)
    by (auto intro: spec_weaken [of ms "s + Suc i"])
  moreover have "spec ms s (max_loop M s q i ms')" if "same ms ms'" for ms'
    using Suc.IH [OF Suc.prems(1), of ms'] Suc.prems that ok_same [OF Suc.prems(3) that]
    by (auto simp: same_def intro: spec_weaken)
  ultimately show ?case by (simp only: max_loop.simps) (rule spec_or)
qed

lemma spec_max_expand:
  assumes "sound pt M (ep + 1)" "pat ms = pt" "ok s ms"
  shows "spec ms s (max_expand M ms s p ep)"
  using spec_max_loop [OF assms] max_count_bound [of s 0 "src ms"] assms(3)
  by (simp add: max_expand_def ok_def)

lemma spec_min_loop:
  "sound pt M (ep + 1) \<Longrightarrow> pat ms = pt \<Longrightarrow> ok s ms \<Longrightarrow> src ms = sb \<Longrightarrow> spec ms s (min_loop M sb pt p ep s ms)"
proof (induction "length sb - s" arbitrary: s ms rule: less_induct)
  case less
  have "spec ms s (if s < length sb \<and> singlematch pt (uchar (rd sb s)) p ep
      then min_loop M sb pt p ep (s + 1) ms' else mret ms' None)" if "same ms ms'" for ms'
  proof (cases "s < length sb \<and> singlematch pt (uchar (rd sb s)) p ep")
    case True
    have m: "pat ms' = pt" "src ms' = sb" "ok (s + 1) ms'"
      using that less.prems True ok_mono [OF ok_same [OF less.prems(3) that], of "s + 1"]
      by (auto simp: same_def)
    have "length sb - (s + 1) < length sb - s" using True by linarith
    from less.hyps [OF this less.prems(1) m(1) m(3) m(2)] show ?thesis
      using True that by (auto intro: spec_weaken)
  qed (use that in auto)
  then show ?case
    using soundD [OF less.prems(1-3)] by (subst min_loop.simps) (rule spec_or)
qed

lemma spec_start_capture:
  assumes "sound pt M p" "pat ms = pt" "ok s ms" "what = CAP_UNFINISHED \<or> what = CAP_POSITION"
  shows "spec ms s (start_capture M ms s p what)"
proof (cases "level ms \<ge> LUA_MAXCAPTURES")
  case False
  let ?ms = "ms\<lparr>capture := (capture ms)[level ms := (s, what)], level := level ms + 1\<rparr>"
  have ok: "ok s ?ms"
    using assms(3,4) False by (auto simp: ok_def cap_ok_def nth_list_update less_Suc_eq)
  note sp = soundD [OF assms(1), of ?ms s]
  show ?thesis
  proof (cases "M ?ms s p")
    case None
    then show ?thesis using sp ok assms(2) by (simp add: spec_def)
  next
    case (Some x)
    show ?thesis
    proof (cases x)
      case (Inl e)
      then show ?thesis using Some False by (simp add: start_capture_def)
    next
      case (Inr y)
      obtain ms' res where y: "y = (ms', res)" by (cases y)
      have "spec ?ms s (M ?ms s p)" using sp ok assms(2) by simp
      then show ?thesis
        using Some Inr y False
        by (cases res) (auto simp: start_capture_def spec_def mret_def same_def nth_list_update)
    qed
  qed
qed (simp add: start_capture_def)

lemma to_close_bound: "to_close caps l = Inr i \<Longrightarrow> i < l \<and> snd (caps ! i) = CAP_UNFINISHED"
  by (induction caps l rule: to_close.induct) (auto split: if_splits simp: runerror_def)

lemma spec_end_capture:
  assumes "sound pt M p" "pat ms = pt" "ok s ms"
  shows "spec ms s (end_capture M ms s p)"
  unfolding end_capture_def
proof (rule spec_lift)
  fix l assume "capture_to_close ms = Inr l"
  then have l: "l < level ms" "snd (capture ms ! l) = CAP_UNFINISHED"
    using to_close_bound by (auto simp: capture_to_close_def)
  let ?ms = "set_len l (int s - int (fst (capture ms ! l))) ms"
  have len: "l < length (capture ms)" using assms(3) l(1) by (simp add: ok_def)
  have "fst (capture ms ! l) \<le> s"
    using assms(3) l by (auto simp: ok_def cap_ok_def CAP_UNFINISHED_def CAP_POSITION_def)
  then have ok: "ok s ?ms"
    using assms(3) l len by (auto simp: ok_def cap_ok_def set_len_def nth_list_update)
  have eqs: "src ?ms = src ms" "pat ?ms = pat ms" "level ?ms = level ms"
    by (simp_all add: set_len_def)
  have sp: "spec ?ms s (M ?ms s p)" using soundD [OF assms(1)] assms(2) ok eqs by simp
  show "spec ms s (mbind (M ?ms s p) (\<lambda>ms res.
       case res of None \<Rightarrow> mret (set_len l CAP_UNFINISHED ms) None | Some r \<Rightarrow> mret ms res))"
  proof (cases "M ?ms s p")
    case None
    then show ?thesis using sp by (simp add: spec_def)
  next
    case (Some x)
    show ?thesis
    proof (cases x)
      case (Inr y)
      obtain ms' res where y: "y = (ms', res)" by (cases y)
      show ?thesis
      proof (cases res)
        case None
        then have "same ?ms ms'" using sp Some Inr y by (simp add: spec_def)
        then have "same ms (set_len l CAP_UNFINISHED ms')"
          using l len by (auto simp: same_def set_len_def nth_list_update prod_eq_iff)
        then show ?thesis using Some Inr y None by simp
      qed (use sp Some Inr y eqs in \<open>auto simp: spec_def mret_def\<close>)
    qed (use Some in simp)
  qed
qed

section \<open>The matcher answers\<close>

lemma rd_inside: "rd s i \<noteq> NUL \<Longrightarrow> i < length s"
  by (auto simp: rd_def split: if_splits)

lemma class_loop_bounds: "class_loop pt p = Inr e \<Longrightarrow> p < e \<and> e \<le> length pt"
proof (induction pt p rule: class_loop.induct)
  case (1 pt p)
  define p' where "p' = (if rd pt p = L_ESC \<and> rd pt (p + 1) \<noteq> NUL then p + 2 else p + 1)"
  have nonul: "\<not> (p \<ge> length pt \<or> rd pt p = NUL)"
    using 1(2) by (subst (asm) class_loop.simps) (auto simp: runerror_def split: if_splits)
  have "p < p'" by (simp add: p'_def)
  have eq: "class_loop pt p = (if rd pt p' \<noteq> CHR '']'' then class_loop pt p' else Inr (p' + 1))"
    using nonul by (subst class_loop.simps) (simp only: if_False Let_def p'_def)
  show ?case
  proof (cases "rd pt p' = CHR '']''")
    case True
    then have "p' < length pt" by (intro rd_inside) (simp add: NUL_def)
    moreover have "e = p' + 1"
      using 1(2) True by (simp add: eq)
    ultimately show ?thesis using \<open>p < p'\<close> by simp
  next
    case False
    then have "class_loop pt p' = Inr e"
      using 1(2) by (simp add: eq)
    then show ?thesis using 1(1) [OF nonul p'_def] False \<open>p < p'\<close> by auto
  qed
qed

lemma classend_bounds: "classend pt p = Inr e \<Longrightarrow> rd pt p \<noteq> NUL \<Longrightarrow> p < e \<and> e \<le> length pt"
  using class_loop_bounds [of pt "p + 1" e] class_loop_bounds [of pt "p + 2" e] rd_inside [of pt p] rd_inside [of pt "p + 1"]
  by (auto simp: classend_def runerror_def split: if_splits)

lemma spec_default:
  assumes M: "\<And>q. p < q \<Longrightarrow> q \<le> length pt \<Longrightarrow> sound pt M q"
    and "pat ms = pt" "ok s ms" "rd pt p \<noteq> NUL"
  shows "spec ms s (match_default M ms s p)"
  unfolding match_default_def
proof (rule spec_lift)
  fix ep assume "classend (pat ms) p = Inr ep"
  then have ep: "p < ep" "ep \<le> length pt" using classend_bounds assms(2,4) by auto
  define m where "m \<longleftrightarrow> s < length (src ms) \<and> singlematch (pat ms) (uchar (rd (src ms) s)) p ep"
  define c where "c = rd (pat ms) ep"
  have next1: "sound pt M (ep + 1)" if "c \<noteq> NUL"
    using M [of "ep + 1"] ep rd_inside [of pt ep] that assms(2) by (simp add: c_def)
  have step: "spec ms s (M ms (s + 1) q)" if m "sound pt M q" for q
    using soundD [OF that(2) assms(2) ok_mono [OF assms(3), of "s + 1"]] that(1)
    by (auto simp: m_def intro: spec_weaken [of ms "s + 1"])
  have opt: "spec ms s (mbind (if m then M ms (s + 1) (ep + 1) else mret ms None) (\<lambda>ms res.
              case res of Some r \<Rightarrow> mret ms res | None \<Rightarrow> M ms s (ep + 1)))" if "c = CHR ''?''"
  proof (rule spec_or)
    have n: "sound pt M (ep + 1)" using next1 that by (simp add: NUL_def)
    show "spec ms s (if m then M ms (s + 1) (ep + 1) else mret ms None)" using step [OF _ n] by simp
    show "spec ms s (M ms' s (ep + 1))" if "same ms ms'" for ms'
      using soundD [OF n, of ms' s] ok_same [OF assms(3) that] that assms(2)
      by (auto simp: same_def intro: spec_weaken [of ms' s])
  qed
  have star: "spec ms s (max_expand M ms s p ep)" if "c = CHR ''*''"
    using spec_max_expand [OF next1 assms(2,3)] that by (simp add: NUL_def)
  have plus: "spec ms s (max_expand M ms (s + 1) p ep)" if "c = CHR ''+''" m
    using spec_max_expand [OF next1 assms(2) ok_mono [OF assms(3), of "s + 1"]] that
    by (auto simp: NUL_def m_def intro: spec_weaken [of ms "s + 1"])
  have minus: "spec ms s (min_expand M ms s p ep)" if "c = CHR ''-''"
    using spec_min_loop [OF next1 assms(2,3) refl] that assms(2) by (simp add: NUL_def min_expand_def)
  show "spec ms s (let m = (s < length (src ms) \<and> singlematch (pat ms) (uchar (rd (src ms) s)) p ep);
           c = rd (pat ms) ep
       in if c = CHR ''?'' then
            mbind (if m then M ms (s + 1) (ep + 1) else mret ms None) (\<lambda>ms res.
              case res of Some r \<Rightarrow> mret ms res | None \<Rightarrow> M ms s (ep + 1))
          else if c = CHR ''*'' then max_expand M ms s p ep
          else if c = CHR ''+'' then (if m then max_expand M ms (s + 1) p ep else mret ms None)
          else if c = CHR ''-'' then min_expand M ms s p ep
          else if \<not> m then mret ms None
          else M ms (s + 1) ep)"
    unfolding Let_def m_def [symmetric] c_def [symmetric]
    using opt star plus minus step [OF _ M [OF ep]] by auto
qed

lemma spec_frontier:
  assumes M: "\<And>q. p < q \<Longrightarrow> q \<le> length pt \<Longrightarrow> sound pt M q" and "pat ms = pt" "ok s ms"
  shows "spec ms s (match_frontier M ms s p)"
proof (cases "rd pt p = CHR ''[''")
  case True
  then have "rd pt p \<noteq> NUL" by (simp add: NUL_def)
  then show ?thesis
    using True assms(2) classend_bounds [of pt p] soundD [OF M assms(2,3)]
    by (auto simp: match_frontier_def Let_def intro!: spec_lift)
qed (use assms(2) in \<open>simp add: match_frontier_def\<close>)

lemma balance_bound: "balance_loop sb b e cont s = Some t \<Longrightarrow> s < t \<and> t \<le> length sb"
proof (induction sb b e cont s rule: balance_loop.induct)
  case (1 sb b e cont s)
  then show ?case
    by (subst (asm) balance_loop.simps) (auto simp: Let_def split: if_splits)
qed

lemma matchbalance_bound:
  "matchbalance ms s p = Inr (Some t) \<Longrightarrow> s < t \<and> t \<le> length (src ms) \<and> p + 2 \<le> length (pat ms)"
  using balance_bound rd_inside [of "pat ms" "p + 1"]
  by (auto simp: matchbalance_def runerror_def split: if_splits)

lemma match_capture_bound:
  "match_capture ms s l = Inr (Some t) \<Longrightarrow> s \<le> length (src ms) \<Longrightarrow> s \<le> t \<and> t \<le> length (src ms)"
  by (auto simp: match_capture_def bind_Inr_iff Let_def case_prod_unfold split: if_splits)

lemma spec_move:
  assumes "sound pt M q" "pat ms = pt" "ok s ms" "s \<le> t" "t \<le> length (src ms)"
  shows "spec ms s (M ms t q)"
  using soundD [OF assms(1,2) ok_mono [OF assms(3-5)]] assms(4) by (auto intro: spec_weaken)

lemma do_match_sound: "length pt < n + p \<Longrightarrow> p \<le> length pt \<Longrightarrow> sound pt (do_match n) p"
proof (induction n arbitrary: p)
  case 0
  then show ?case by simp
next
  case (Suc n)
  have M: "sound pt (do_match n) q" if "p < q" "q \<le> length pt" for q
    using Suc.IH that Suc.prems by simp
  show ?case
    unfolding sound_def
  proof (intro allI impI)
    fix ms s assume ms: "pat ms = pt" "ok s ms"
    have s: "s \<le> length (src ms)" using ms(2) by (simp add: ok_def)
    define c d where cd: "c = rd pt p" "d = rd pt (p + 1)"
    have in1: "p + 1 \<le> length pt" if "c \<noteq> NUL" using that rd_inside [of pt p] by (simp add: cd)
    have in2: "p + 2 \<le> length pt" if "d \<noteq> NUL" using that rd_inside [of pt "p + 1"] by (simp add: cd)
    have open1: "spec ms s (start_capture (do_match n) ms s (p + 2) CAP_POSITION)" if "d = CHR '')''"
      using spec_start_capture [OF M ms] in2 that by (simp add: NUL_def)
    have open2: "spec ms s (start_capture (do_match n) ms s (p + 1) CAP_UNFINISHED)" if "c \<noteq> NUL"
      using spec_start_capture [OF M ms] in1 that by simp
    have close: "spec ms s (end_capture (do_match n) ms s (p + 1))" if "c \<noteq> NUL"
      using spec_end_capture [OF M ms] in1 that by simp
    have bal: "spec ms s (mbind (mlift ms (matchbalance ms s (p + 2))) (\<lambda>ms r.
             case r of None \<Rightarrow> mret ms None | Some s \<Rightarrow> do_match n ms s (p + 4)))"
      using spec_move [OF M ms] matchbalance_bound [of ms s "p + 2"] ms(1)
      by (intro spec_lift) (auto split: option.split)
    have fr: "spec ms s (match_frontier (do_match n) ms s (p + 2))"
      using spec_frontier [OF M ms, of "p + 2"] by simp
    have cap: "spec ms s (mbind (mlift ms (match_capture ms s (int (uchar d)))) (\<lambda>ms r.
             case r of None \<Rightarrow> mret ms None | Some s \<Rightarrow> do_match n ms s (p + 2)))" if "d \<noteq> NUL"
      using spec_move [OF M ms] match_capture_bound [of ms s] in2 [OF that] s
      by (intro spec_lift) (auto split: option.split)
    have dflt: "spec ms s (match_default (do_match n) ms s p)" if "c \<noteq> NUL"
      using spec_default [OF M ms] that by (simp add: cd)
    have dig: "d \<noteq> NUL" if "isdigit (uchar d)" using that by (auto simp: isdigit_def NUL_def)
    have nn: "CHR ''('' \<noteq> NUL" "CHR '')'' \<noteq> NUL" by (simp_all add: NUL_def)
    show "spec ms s (do_match (Suc n) ms s p)"
      unfolding do_match.simps ms(1) Let_def cd [symmetric]
      using open1 open2 close bal fr cap [OF dig] dflt spec_done [OF ms(2)] nn by auto
  qed
qed

section \<open>The searches answer\<close>

definition ready :: "bytes \<Rightarrow> bytes \<Rightarrow> MatchState \<Rightarrow> bool" where
  "ready sb pt ms \<longleftrightarrow> src ms = sb \<and> pat ms = pt \<and> length (capture ms) = LUA_MAXCAPTURES"

lemma ready_fresh: "ready sb pt (fresh_state sb pt)"
  by (simp add: ready_def fresh_state_def)

lemma run_match_spec:
  assumes "ready sb pt ms" "s \<le> length sb" "p \<le> length pt"
  shows "spec (ms\<lparr>level := 0\<rparr>) s (run_match ms s p)"
proof -
  have "ok s (ms\<lparr>level := 0\<rparr>)" using assms by (simp add: ready_def ok_def)
  then show ?thesis
    using soundD [OF do_match_sound [of pt "length pt + 2" p]] assms by (simp add: run_match_def ready_def)
qed

lemma run_match_cases:
  assumes "ready sb pt ms" "s \<le> length sb" "p \<le> length pt"
  obtains (err) e where "run_match ms s p = Some (Inl e)"
    | (none) ms' where "run_match ms s p = Some (Inr (ms', None))" "ready sb pt ms'"
    | (some) ms' t where "run_match ms s p = Some (Inr (ms', Some t))" "ready sb pt ms'" "s \<le> t" "t \<le> length sb"
proof -
  note sp = run_match_spec [OF assms]
  consider "run_match ms s p = None" | e where "run_match ms s p = Some (Inl e)"
    | ms' where "run_match ms s p = Some (Inr (ms', None))"
    | ms' t where "run_match ms s p = Some (Inr (ms', Some t))"
    by (metis option.exhaust sum.exhaust surj_pair)
  then show thesis
  proof cases
    case 1
    then show ?thesis using sp by (simp add: spec_def)
  next
    case (2 e)
    then show ?thesis by (rule err)
  next
    case (3 ms')
    have "ready sb pt ms'" using sp 3 assms(1) by (simp add: spec_def same_def ready_def)
    then show ?thesis using none 3 by blast
  next
    case (4 ms' t)
    have "ready sb pt ms'" "s \<le> t" "t \<le> length sb"
      using sp 4 assms(1) by (simp_all add: spec_def ok_def ready_def)
    then show ?thesis using some 4 by blast
  qed
qed

text \<open>C22: a match answers, for every pattern, and what it answers lies inside the subject: the end not
  before the start, and every finished capture with its whole length.\<close>

theorem match_inside:
  assumes "s \<le> length sb" "p \<le> length pt"
  shows "\<exists>r. run_match (fresh_state sb pt) s p = Some r \<and>
    (\<forall>ms e. r = Inr (ms, Some e) \<longrightarrow> s \<le> e \<and> e \<le> length sb \<and> src ms = sb \<and> level ms \<le> LUA_MAXCAPTURES \<and>
       (\<forall>i<level ms. cap_ok sb (length sb) (capture ms ! i)))"
proof -
  have src: "src ((fresh_state sb pt)\<lparr>level := 0\<rparr>) = sb" by (simp add: fresh_state_def)
  show ?thesis
    using run_match_spec [OF ready_fresh assms] unfolding spec_def src
    by (cases "run_match (fresh_state sb pt) s p") (auto simp: ok_def)
qed

theorem match_inside_witness:
  "\<exists>r. run_match (fresh_state ''key=val'' ''(%w+)=(%w*)'') 0 0 = Some r \<and>
    (\<forall>ms e. r = Inr (ms, Some e) \<longrightarrow> e \<le> 7)"
proof -
  obtain r where "run_match (fresh_state ''key=val'' ''(%w+)=(%w*)'') 0 0 = Some r"
    "\<forall>ms e. r = Inr (ms, Some e) \<longrightarrow> e \<le> length ''key=val''"
    using match_inside [of 0 "''key=val''" 0 "''(%w+)=(%w*)''"] by blast
  then show ?thesis by auto
qed

lemma find_loop_answers:
  "ready sb pt ms \<Longrightarrow> s \<le> length sb \<Longrightarrow> p \<le> length pt \<Longrightarrow> find_loop sb p anchor s ms \<noteq> None"
proof (induction "length sb - s" arbitrary: s ms rule: less_induct)
  case less
  from less.prems show ?case
  proof (cases rule: run_match_cases)
    case (none ms')
    show ?thesis
    proof (cases "s < length sb \<and> \<not> anchor")
      case True
      then have "length sb - (s + 1) < length sb - s" by linarith
      from less.hyps [OF this none(2) _ less.prems(3)] True show ?thesis
        using none by (subst find_loop.simps) auto
    qed (use none in \<open>subst find_loop.simps, auto simp: mret_def\<close>)
  qed (subst find_loop.simps, simp add: mret_def)+
qed

lemma gmatch_loop_answers:
  "ready sb pt ms \<Longrightarrow> gmatch_loop sb s ms \<noteq> None"
proof (induction "length sb + 1 - s" arbitrary: s ms rule: less_induct)
  case less
  show ?case
  proof (cases "s \<le> length sb")
    case True
    from less.prems True le0 [of "length pt"] show ?thesis
    proof (cases rule: run_match_cases)
      case (none ms')
      have "length sb + 1 - (s + 1) < length sb + 1 - s" using True by linarith
      from less.hyps [OF this none(2)] show ?thesis
        using none True by (subst gmatch_loop.simps) auto
    qed (subst gmatch_loop.simps, simp add: mret_def)+
  qed (subst gmatch_loop.simps, simp add: mret_def)
qed

lemma gsub_loop_answers:
  "ready sb pt ms \<Longrightarrow> s \<le> length sb \<Longrightarrow> p \<le> length pt \<Longrightarrow> length sb + 1 < k + s \<Longrightarrow>
    gsub_loop k r p anchor m ms s n b \<noteq> None"
proof (induction k arbitrary: ms s n b)
  case (Suc k)
  from Suc.prems(1-3) show ?case
  proof (cases rule: run_match_cases)
    case (err e)
    then show ?thesis by (simp add: mret_def)
  next
    case (none ms')
    have "src ms' = sb" using none(2) by (simp add: ready_def)
    then show ?thesis
      using none Suc.IH [OF none(2), of "s + 1"] Suc.prems by (auto simp: mret_def Let_def)
  next
    case (some ms' t)
    have src: "src ms' = sb" using some(2) by (simp add: ready_def)
    show ?thesis
    proof (cases "add_value r ms' s t b")
      case (Inr b')
      then show ?thesis
        using some src Suc.IH [OF some(2), of t] Suc.IH [OF some(2), of "s + 1"] Suc.prems
        by (auto simp: mret_def mlift_def Let_def)
    qed (use some in \<open>auto simp: mret_def mlift_def\<close>)
  qed
qed simp

lemma anchor_index: "(if rd p 0 = CHR ''^'' then 1 else 0) \<le> length p"
  by (cases p) (auto simp: rd_def NUL_def)

text \<open>C23: \<open>find\<close>, \<open>match\<close>, a step of \<open>gmatch\<close> and \<open>gsub\<close> always answer: with results or with an error.\<close>

theorem string_search_answers:
  "str_find s p i plain \<noteq> None \<and> str_match s p i \<noteq> None \<and> gmatch_aux s p start \<noteq> None \<and>
   str_gsub s p r m \<noteq> None"
proof -
  have f: "str_find_aux fnd s p i plain \<noteq> None" for fnd plain
  proof -
    define init where "init = find_init i (length s)"
    have "init \<le> length s" by (auto simp: init_def find_init_def Let_def)
    then obtain res where
      F: "find_loop s (if rd p 0 = CHR ''^'' then 1 else 0) (rd p 0 = CHR ''^'') init (fresh_state s p) = Some res"
      using find_loop_answers [OF ready_fresh _ anchor_index] by blast
    show ?thesis
      unfolding str_find_aux_def init_def [symmetric] Let_def F
      by (auto split: option.splits sum.splits prod.splits)
  qed
  have "gmatch_loop s start (fresh_state s p) \<noteq> None"
    by (rule gmatch_loop_answers [OF ready_fresh])
  then have "gmatch_aux s p start \<noteq> None"
    by (auto simp: gmatch_aux_def split: option.splits sum.splits prod.splits)
  moreover obtain res where
    G: "gsub_loop (length s + 2) r (if rd p 0 = CHR ''^'' then 1 else 0) (rd p 0 = CHR ''^'')
      (case m of None \<Rightarrow> int (length s) + 1 | Some m \<Rightarrow> m) (fresh_state s p) 0 0 [] = Some res"
    using gsub_loop_answers [OF ready_fresh le0 anchor_index] by (metis add_0_right lessI add_2_eq_Suc' add_Suc_right One_nat_def not_None_eq)
  have "str_gsub s p r m \<noteq> None"
    unfolding str_gsub_def Let_def G by (auto split: sum.splits prod.splits)
  ultimately show ?thesis using f by (simp add: str_find_def str_match_def)
qed

section \<open>The plain search\<close>

text \<open>\<open>s2\<close> is at offset \<open>i\<close> of \<open>s1\<close>.\<close>

definition occurs :: "bytes \<Rightarrow> bytes \<Rightarrow> nat \<Rightarrow> bool" where
  "occurs s1 s2 i \<longleftrightarrow> i + length s2 \<le> length s1 \<and> take (length s2) (drop i s1) = s2"

lemma memchr_None: "memchr s c n = None \<longleftrightarrow> (\<forall>i < min n (length s). s ! i \<noteq> c)"
  by (induction s c n rule: memchr.induct) (auto simp: less_Suc_eq_0_disj min_def split: if_splits)

lemma memchr_Some:
  "memchr s c n = Some i \<Longrightarrow> i < n \<and> i < length s \<and> s ! i = c \<and> (\<forall>j<i. s ! j \<noteq> c)"
  by (induction s c n arbitrary: i rule: memchr.induct)
    (auto simp: less_Suc_eq_0_disj split: if_splits, blast)

lemma occurs_Cons:
  "occurs s (c # r) i \<longleftrightarrow> i + length r < length s \<and> s ! i = c \<and> take (length r) (drop (i + 1) s) = r"
proof (cases "i < length s")
  case True
  then have "drop i s = s ! i # drop (i + 1) s" by (simp add: Cons_nth_drop_Suc)
  then show ?thesis by (auto simp: occurs_def)
qed (simp add: occurs_def)

lemma lmemfind_loop_spec:
  "off + l1 + length r = length s \<Longrightarrow> lmemfind_loop s c r off l1 = res \<Longrightarrow>
    (case res of None \<Rightarrow> \<forall>i\<ge>off. \<not> occurs s (c # r) i
     | Some i \<Rightarrow> off \<le> i \<and> occurs s (c # r) i \<and> (\<forall>j. off \<le> j \<and> j < i \<longrightarrow> \<not> occurs s (c # r) j))"
proof (induction s c r off l1 arbitrary: res rule: lmemfind_loop.induct)
  case (1 s c r off l1)
  show ?case
  proof (cases "l1 > 0")
    case False
    then have "res = None" using 1(3) by (subst (asm) lmemfind_loop.simps) simp
    then show ?thesis using 1(2) False by (simp add: occurs_Cons)
  next
    case True
    show ?thesis
    proof (cases "memchr (drop off s) c l1")
      case None
      then have "res = None" using 1(3) True by (subst (asm) lmemfind_loop.simps) simp
      moreover have "\<not> occurs s (c # r) i" if "off \<le> i" for i
      proof
        assume o: "occurs s (c # r) i"
        then have "i - off < min l1 (length (drop off s))" "drop off s ! (i - off) = c"
          using 1(2) that by (auto simp: occurs_Cons)
        then show False using None by (auto simp: memchr_None)
      qed
      ultimately show ?thesis by simp
    next
      case (Some i)
      note m = memchr_Some [OF Some]
      have none: "\<not> occurs s (c # r) j" if "off \<le> j" "j < off + i" for j
      proof
        assume "occurs s (c # r) j"
        then have "drop off s ! (j - off) = c" using that by (simp add: occurs_Cons)
        then show False using m that by auto
      qed
      show ?thesis
      proof (cases "take (length r) (drop (off + i + 1) s) = r")
        case here: True
        then have "res = Some (off + i)" using 1(3) True Some by (subst (asm) lmemfind_loop.simps) simp
        then show ?thesis using here m none 1(2) by (auto simp: occurs_Cons)
      next
        case False
        then have r: "lmemfind_loop s c r (off + i + 1) (l1 - (i + 1)) = res"
          using 1(3) True Some by (subst (asm) lmemfind_loop.simps) (simp add: Let_def)
        have "off + i + 1 + (l1 - (i + 1)) + length r = length s" using m 1(2) by simp
        note IH = 1(1) [OF True Some refl False this r]
        have "\<not> occurs s (c # r) (off + i)" using False by (simp add: occurs_Cons)
        then have "\<not> occurs s (c # r) j" if "off \<le> j" "j < off + i + 1" for j
          using none that by (cases "j = off + i") auto
        then show ?thesis using IH by (auto split: option.splits simp: not_less_eq_eq) (meson not_le)+
      qed
    qed
  qed
qed

text \<open>the plain search gives the first occurrence, and nothing only where there is none.\<close>

theorem lmemfind_first:
  "lmemfind s1 s2 = (if \<exists>i\<le>length s1. occurs s1 s2 i then Some (LEAST i. occurs s1 s2 i) else None)"
proof (cases s2)
  case Nil
  then have "occurs s1 s2 0" by (simp add: occurs_def)
  then show ?thesis using Nil by (auto simp: lmemfind_def intro!: Least_equality [symmetric])
next
  case (Cons c r)
  have inside: "i \<le> length s1" if "occurs s1 s2 i" for i using that by (simp add: occurs_def)
  show ?thesis
  proof (cases "length s2 > length s1")
    case True
    then show ?thesis using Cons by (auto simp: lmemfind_def occurs_def)
  next
    case False
    then have len: "0 + (length s1 - length r) + length r = length s1" using Cons by simp
    have eq: "lmemfind s1 s2 = lmemfind_loop s1 c r 0 (length s1 - length r)"
      using False Cons by (simp add: lmemfind_def)
    note sp = lmemfind_loop_spec [OF len refl, of c, folded Cons eq]
    show ?thesis
    proof (cases "lmemfind s1 s2")
      case None
      then show ?thesis using sp by auto
    next
      case (Some i)
      then have "occurs s1 s2 i" "\<forall>j<i. \<not> occurs s1 s2 j" using sp by auto
      then have "(LEAST i. occurs s1 s2 i) = i" by (intro Least_equality) (auto simp: not_less [symmetric])
      then show ?thesis using Some \<open>occurs s1 s2 i\<close> inside by auto
    qed
  qed
qed

section \<open>Substitution\<close>

lemma add_s_whole: "add_s ms ''%0'' s e b = Inr (b @ take (e - s) (drop s (src ms)))"
proof -
  have "add_s_loop ms ''%0'' s e 0 b = add_s_loop ms ''%0'' s e 2 (b @ take (e - s) (drop s (src ms)))"
    by (subst add_s_loop.simps) (simp add: L_ESC_def rd_def isdigit_def numeral_2_eq_2)
  also have "\<dots> = Inr (b @ take (e - s) (drop s (src ms)))"
    by (subst add_s_loop.simps) simp
  finally show ?thesis by (simp add: add_s_def)
qed

lemma gsub_loop_whole:
  "ready sb pt ms \<Longrightarrow> s \<le> length sb \<Longrightarrow> p \<le> length pt \<Longrightarrow>
    gsub_loop k (RStr ''%0'') p anchor m ms s n (take s sb) = Some (Inr (ms', s', n', b)) \<Longrightarrow>
    s' \<le> length sb \<and> b = take s' sb"
proof (induction k arbitrary: ms s n)
  case (Suc k)
  note stop = Suc.prems(4)
  show ?case
  proof (cases "n < m")
    case False
    then show ?thesis using stop Suc.prems(2) by (auto simp: mret_def)
  next
    case True
    from Suc.prems(1-3) show ?thesis
    proof (cases rule: run_match_cases)
      case (err e)
      then show ?thesis using stop True by simp
    next
      case (none ms1)
      have src: "src ms1 = sb" using none(2) by (simp add: ready_def)
      show ?thesis
      proof (cases "s < length sb")
        case inside: True
        have b: "take s sb @ [sb ! s] = take (s + 1) sb" using inside by (simp add: take_Suc_conv_app_nth)
        show ?thesis
          using stop True none inside src Suc.IH [OF none(2), of "s + 1"] Suc.prems(3) b
          by (auto simp: mret_def Let_def split: if_splits)
      qed (use stop True none src Suc.prems(2) in \<open>auto simp: mret_def Let_def\<close>)
    next
      case (some ms1 t)
      have src: "src ms1 = sb" using some(2) by (simp add: ready_def)
      have add: "add_value (RStr ''%0'') ms1 s t (take s sb) = Inr (take t sb)"
        using some(3,4) by (simp add: add_value_def add_s_whole src take_add [symmetric])
      show ?thesis
      proof (cases "s < t")
        case True
        then show ?thesis
          using stop \<open>n < m\<close> some src add Suc.IH [OF some(2,4), of "n + 1"] Suc.prems(3)
          by (auto simp: mret_def mlift_def Let_def split: if_splits)
      next
        case False
        then have t: "t = s" using some(3) by simp
        show ?thesis
        proof (cases "s < length sb")
          case inside: True
          have b: "take s sb @ [sb ! s] = take (s + 1) sb" using inside by (simp add: take_Suc_conv_app_nth)
          show ?thesis
            using stop \<open>n < m\<close> some src add t inside Suc.IH [OF some(2), of "s + 1" "n + 1"] Suc.prems(3) b
            by (auto simp: mret_def mlift_def Let_def split: if_splits)
        qed (use stop \<open>n < m\<close> some src add t in \<open>auto simp: mret_def mlift_def Let_def\<close>)
      qed
    qed
  qed
qed simp

text \<open>Replacing every match by itself, whatever the pattern and the bound, changes nothing.\<close>

theorem gsub_whole_match:
  assumes "str_gsub s p (RStr ''%0'') m = Some (Inr (r, n))"
  shows "r = s"
proof -
  obtain ms s' n' b where g: "gsub_loop (length s + 2) (RStr ''%0'') (if rd p 0 = CHR ''^'' then 1 else 0)
      (rd p 0 = CHR ''^'') (case m of None \<Rightarrow> int (length s) + 1 | Some m \<Rightarrow> m) (fresh_state s p) 0 0 [] =
        Some (Inr (ms, s', n', b))" "r = b @ drop s' s"
    using assms by (auto simp: str_gsub_def Let_def split: option.splits sum.splits prod.splits)
  have "s' \<le> length s \<and> b = take s' s"
    by (rule gsub_loop_whole [OF ready_fresh le0 anchor_index]) (unfold take_0, rule g(1))
  then show ?thesis using g(2) by simp
qed

lemma gsub_run: "str_gsub ''ab'' ''b'' (RStr ''%0'') None = Some (Inr (''ab'', 1))"
  by code_simp

theorem gsub_whole_match_witness:
  "case str_gsub ''ab'' ''b'' (RStr ''%0'') None of Some (Inr (r, n)) \<Rightarrow> r = ''ab'' \<and> n = 1 | _ \<Rightarrow> False"
  using gsub_run gsub_whole_match [OF gsub_run] by simp

text \<open>a replacement that ends in a lone escape character adds a zero byte, read from behind it.\<close>

theorem trailing_escape_adds_nul:
  "add_s ms ''x%'' s e b = Inr (b @ [CHR ''x'', NUL])"
proof -
  have "add_s_loop ms ''x%'' s e 0 b = add_s_loop ms ''x%'' s e 1 (b @ [CHR ''x''])"
    by (subst add_s_loop.simps) (simp add: L_ESC_def)
  also have "\<dots> = add_s_loop ms ''x%'' s e 3 (b @ [CHR ''x'', NUL])"
    by (subst add_s_loop.simps) (simp add: L_ESC_def rd_def isdigit_def NUL_def numeral_3_eq_3)
  also have "\<dots> = Inr (b @ [CHR ''x'', NUL])"
    by (subst add_s_loop.simps) simp
  finally show ?thesis by (simp add: add_s_def)
qed

end
