(* ===== verification/Lua_Lex.thy ===== *)
theory Lua_Lex
  imports Lua_Zio Lua_StrMatch
begin

text \<open>
  The lexical analyser, \<^verbatim>\<open>src/src/llex.c\<close>: from the characters of a buffered stream to tokens. The
  state is the record the parser shares with it. \<open>LUA_COMPAT_LSTR\<close> is 1, as \<^verbatim>\<open>luaconf.h\<close> has it, the
  locale of the character classes is C.
\<close>

section \<open>Tokens and state\<close>

definition FIRST_RESERVED :: int where "FIRST_RESERVED = 257"

definition TK_CONCAT :: int where "TK_CONCAT = 278"
definition TK_DOTS :: int where "TK_DOTS = 279"
definition TK_EQ :: int where "TK_EQ = 280"
definition TK_GE :: int where "TK_GE = 281"
definition TK_LE :: int where "TK_LE = 282"
definition TK_NE :: int where "TK_NE = 283"
definition TK_NUMBER :: int where "TK_NUMBER = 284"
definition TK_NAME :: int where "TK_NAME = 285"
definition TK_STRING :: int where "TK_STRING = 286"
definition TK_EOS :: int where "TK_EOS = 287"

lemmas TK_defs = FIRST_RESERVED_def TK_CONCAT_def TK_DOTS_def TK_EQ_def TK_GE_def TK_LE_def TK_NE_def
  TK_NUMBER_def TK_NAME_def TK_STRING_def TK_EOS_def

definition luaX_tokens :: "bytes list" where
  "luaX_tokens =
     [''and'', ''break'', ''do'', ''else'', ''elseif'',
      ''end'', ''false'', ''for'', ''function'', ''if'',
      ''in'', ''local'', ''nil'', ''not'', ''or'', ''repeat'',
      ''return'', ''then'', ''true'', ''until'', ''while'',
      ''..'', ''...'', ''=='', ''>='', ''<='', ''~='',
      ''<number>'', ''<name>'', ''<string>'', ''<eof>'']"

definition NUM_RESERVED :: nat where "NUM_RESERVED = 21"

text \<open>The field \<open>reserved\<close> of a string, as \<open>luaX_init\<close> sets it: 0 for all but the first tokens.\<close>

fun mark_reserved :: "nat \<Rightarrow> bytes list \<Rightarrow> bytes \<Rightarrow> nat" where
  "mark_reserved i [] s = 0"
| "mark_reserved i (w # ws) s = (if s = w then i + 1 else mark_reserved (i + 1) ws s)"

definition luaX_init :: "bytes \<Rightarrow> nat" where
  "luaX_init = mark_reserved 0 (take NUM_RESERVED luaX_tokens)"

datatype SemInfo = SemR lua_Number | SemTS bytes

record Token =
  token :: int
  seminfo :: "SemInfo option"

text \<open>
  \<open>current\<close> is \<open>None\<close> at the end (\<open>EOZ\<close>). \<open>buff\<close> is the used part of the token buffer, \<open>buffsize\<close> its
  allocated size. \<open>anchored\<close> are the strings, in order, that \<open>luaX_newstring\<close> has made and that still have to be
  stored in the table of the function being compiled: \<open>anchor_string\<close> in \<open>Lua_Code\<close> is the store, which the
  parser makes as soon as the analyser returns.
\<close>

record LexState =
  current :: "char option"
  linenumber :: int
  lastline :: int
  tok :: Token
  lookahead :: Token
  zio :: Zio
  buff :: bytes
  buffsize :: nat
  lsource :: bytes
  decpoint :: char
  anchored :: "bytes list"

text \<open>
  What the analyser calls outside: the allocator (whether it has room for a buffer), \<open>strtod\<close> and
  \<open>strtoul\<close> to base 16 converted to a double, both with the index where they stop reading, and the
  first character of the decimal point of \<open>localeconv\<close>, if it answers.
\<close>

record lexlib =
  c_room :: "nat \<Rightarrow> bool"
  c_strtod :: "bytes \<Rightarrow> lua_Number \<times> nat"
  c_strtoul16 :: "bytes \<Rightarrow> lua_Number \<times> nat"
  c_decimal_point :: "char option"

definition luaO_str2d :: "lexlib \<Rightarrow> bytes \<Rightarrow> lua_Number option" where
  "luaO_str2d K s =
     (let (r, e) = c_strtod K s
      in if e = 0 then None
         else let (r, e) = (if rd s e = CHR ''x'' \<or> rd s e = CHR ''X'' then c_strtoul16 K s else (r, e))
              in if rd s e = NUL then Some r
                 else if dropWhile (\<lambda>c. isspace (uchar c)) (drop e s) \<noteq> [] then None else Some r)"

definition cstr :: "bytes \<Rightarrow> bytes" where
  "cstr = takeWhile (\<lambda>c. c \<noteq> NUL)"

definition next_ch :: "LexState \<Rightarrow> LexState" where
  "next_ch ls = (let (c, z) = zgetc (zio ls) in ls\<lparr>current := c, zio := z\<rparr>)"

definition is_newline :: "char \<Rightarrow> bool" where
  "is_newline c \<longleftrightarrow> c = CHR 0x0A \<or> c = CHR 0x0D"

definition cur_is :: "(char \<Rightarrow> bool) \<Rightarrow> LexState \<Rightarrow> bool" where
  "cur_is P ls = (case current ls of None \<Rightarrow> False | Some c \<Rightarrow> P c)"

definition currIsNewline :: "LexState \<Rightarrow> bool" where
  "currIsNewline = cur_is is_newline"

text \<open>\<open>cast(char, EOZ)\<close> is the byte 255.\<close>

definition cast_char :: "char option \<Rightarrow> char" where
  "cast_char c = (case c of None \<Rightarrow> CHR 0xFF | Some c \<Rightarrow> c)"

section \<open>Errors and the token buffer\<close>

definition MAXSRC :: u64 where "MAXSRC = 80"

text \<open>Every call here has the arguments its format asks for.\<close>

definition pushf :: "bytes \<Rightarrow> fmtarg list \<Rightarrow> bytes" where
  "pushf f args = (case luaO_pushvfstring f args of None \<Rightarrow> [] | Some s \<Rightarrow> s)"

definition luaX_token2str :: "int \<Rightarrow> bytes" where
  "luaX_token2str tk =
     (if tk < FIRST_RESERVED
      then (if iscntrl (nat tk) then pushf ''char(%d)'' [FInt tk] else pushf ''%c'' [FChar (char_of (nat tk))])
      else luaX_tokens ! nat (tk - FIRST_RESERVED))"

definition error_place :: "LexState \<Rightarrow> bytes \<Rightarrow> bytes" where
  "error_place ls msg =
     pushf ''%s:%d: %s''
       [FStr (Some (luaO_chunkid (cstr (lsource ls)) MAXSRC)), FInt (linenumber ls), FStr (Some msg)]"

text \<open>
  \<open>save\<close> may raise an error itself, but with the token 0, which does not save: the recursion of
  \<open>luaX_lexerror\<close>, \<open>txtToken\<close> and \<open>save\<close> ends there.
\<close>

definition lexerror_0 :: "LexState \<Rightarrow> bytes \<Rightarrow> 'a result" where
  "lexerror_0 ls msg = Inl (LuaError ERRSYNTAX (error_place ls msg))"

definition resizebuffer :: "lexlib \<Rightarrow> nat \<Rightarrow> LexState \<Rightarrow> LexState result" where
  "resizebuffer K n ls =
     (if c_room K n then Inr (ls\<lparr>buffsize := n\<rparr>) else Inl (LuaError ERRMEM ''not enough memory''))"

definition save :: "lexlib \<Rightarrow> char \<Rightarrow> LexState \<Rightarrow> LexState result" where
  "save K c ls =
     bind (if length (buff ls) + 1 > buffsize ls
           then if int (buffsize ls) \<ge> MAX_SIZET div 2 then lexerror_0 ls ''lexical element too long''
                else resizebuffer K (buffsize ls * 2) ls
           else Inr ls) (\<lambda>ls. Inr (ls\<lparr>buff := buff ls @ [c]\<rparr>))"

definition save_and_next :: "lexlib \<Rightarrow> LexState \<Rightarrow> LexState result" where
  "save_and_next K ls = bind (save K (cast_char (current ls)) ls) (\<lambda>ls. Inr (next_ch ls))"

definition txtToken :: "lexlib \<Rightarrow> LexState \<Rightarrow> int \<Rightarrow> bytes result" where
  "txtToken K ls tk =
     (if tk = TK_NAME \<or> tk = TK_STRING \<or> tk = TK_NUMBER
      then bind (save K NUL ls) (\<lambda>ls. Inr (cstr (buff ls)))
      else Inr (luaX_token2str tk))"

definition luaX_lexerror :: "lexlib \<Rightarrow> LexState \<Rightarrow> bytes \<Rightarrow> int \<Rightarrow> 'a result" where
  "luaX_lexerror K ls msg tk =
     (if tk = 0 then lexerror_0 ls msg
      else bind (txtToken K ls tk) (\<lambda>t.
        Inl (LuaError ERRSYNTAX (pushf (''%s near '' @ LUA_QL ''%s'') [FStr (Some (error_place ls msg)), FStr (Some t)]))))"

definition luaX_syntaxerror :: "lexlib \<Rightarrow> LexState \<Rightarrow> bytes \<Rightarrow> 'a result" where
  "luaX_syntaxerror K ls msg = luaX_lexerror K ls msg (token (tok ls))"

text \<open>The string; the analyser does nothing more behind this call that could fail.\<close>

definition luaX_newstring :: "bytes \<Rightarrow> LexState \<Rightarrow> bytes \<times> LexState" where
  "luaX_newstring s ls = (s, ls\<lparr>anchored := anchored ls @ [s]\<rparr>)"

definition reset_buffer :: "LexState \<Rightarrow> LexState" where
  "reset_buffer ls = ls\<lparr>buff := []\<rparr>"

definition inclinenumber :: "lexlib \<Rightarrow> LexState \<Rightarrow> LexState result" where
  "inclinenumber K ls =
     (let old = current ls;
          ls = next_ch ls;
          ls = (if currIsNewline ls \<and> current ls \<noteq> old then next_ch ls else ls);
          ls = ls\<lparr>linenumber := linenumber ls + 1\<rparr>
      in if linenumber ls \<ge> MAX_INT then luaX_syntaxerror K ls ''chunk has too many lines'' else Inr ls)"

text \<open>The record before holds whatever the parser allocated; the buffer is the caller's.\<close>

definition luaX_setinput :: "lexlib \<Rightarrow> LexState \<Rightarrow> Zio \<Rightarrow> bytes \<Rightarrow> LexState result" where
  "luaX_setinput K ls z name =
     (let ls = ls\<lparr>decpoint := CHR ''.'', lookahead := (lookahead ls)\<lparr>token := TK_EOS\<rparr>, zio := z, anchored := [],
                 linenumber := 1, lastline := 1, lsource := name\<rparr>
      in bind (resizebuffer K LUA_MINBUFFER ls) (\<lambda>ls. Inr (next_ch ls)))"

section \<open>The rest of the input\<close>

text \<open>Every character is read once: the loops below end because what is left shrinks.\<close>

definition ahead :: "LexState \<Rightarrow> nat" where
  "ahead ls = (if current ls = None then 0 else 1) + length (zbytes (zio ls))"

lemma next_ahead [termination_simp]: "current ls \<noteq> None \<Longrightarrow> ahead (next_ch ls) < ahead ls"
  by (auto simp: ahead_def next_ch_def zgetc_def luaZ_fill_def zbytes_def split: list.splits)

lemma next_ahead_le: "ahead (next_ch ls) \<le> ahead ls"
  by (auto simp: ahead_def next_ch_def zgetc_def luaZ_fill_def zbytes_def split: list.splits)

lemma save_same:
  assumes "save K c ls = Inr ls'"
  obtains n where "ls' = ls\<lparr>buffsize := n, buff := buff ls @ [c]\<rparr>"
  using assms that [of "buffsize ls"] that [of "2 * buffsize ls"]
  by (auto simp: save_def bind_Inr_iff resizebuffer_def lexerror_0_def mult.commute split: if_splits)

lemma save_ahead: "save K c ls = Inr ls' \<Longrightarrow> ahead ls' = ahead ls \<and> current ls' = current ls"
  by (erule save_same) (simp add: ahead_def)

lemma save_and_next_ahead:
  assumes "save_and_next K ls = Inr ls'"
  shows "ahead ls' \<le> ahead ls" and "current ls \<noteq> None \<Longrightarrow> ahead ls' < ahead ls"
proof -
  obtain l where l: "save K (cast_char (current ls)) ls = Inr l" "ls' = next_ch l"
    using assms by (auto simp: save_and_next_def bind_Inr_iff)
  show "ahead ls' \<le> ahead ls" "current ls \<noteq> None \<Longrightarrow> ahead ls' < ahead ls"
    using save_ahead [OF l(1)] next_ahead_le [of l] next_ahead [of l] by (auto simp: l(2))
qed

lemmas save_and_next_le = save_and_next_ahead(1) and save_and_next_less = save_and_next_ahead(2)

lemma lexerror_neq_Inr [simp]: "luaX_lexerror K ls msg tk \<noteq> Inr x" "luaX_syntaxerror K ls msg \<noteq> Inr x"
    "lexerror_0 ls msg \<noteq> Inr x"
  by (simp_all add: luaX_syntaxerror_def luaX_lexerror_def lexerror_0_def bind_Inr_iff)

lemma inclinenumber_ahead: "inclinenumber K ls = Inr ls' \<Longrightarrow> current ls \<noteq> None \<Longrightarrow> ahead ls' < ahead ls"
  using next_ahead [of ls] next_ahead_le [of "next_ch ls"]
  by (auto simp: inclinenumber_def Let_def ahead_def split: if_splits)

lemma reset_ahead [simp]: "ahead (reset_buffer ls) = ahead ls" "current (reset_buffer ls) = current ls"
  by (simp_all add: reset_buffer_def ahead_def)

lemma cur_is_current: "cur_is P ls \<Longrightarrow> current ls \<noteq> None"
  by (auto simp: cur_is_def split: option.splits)

section \<open>Numerals\<close>

definition strchr :: "bytes \<Rightarrow> char \<Rightarrow> bool" where
  "strchr s c \<longleftrightarrow> c \<in> set s \<or> c = NUL"

definition check_next :: "lexlib \<Rightarrow> bytes \<Rightarrow> LexState \<Rightarrow> (bool \<times> LexState) result" where
  "check_next K s ls =
     (if \<not> strchr s (cast_char (current ls)) then Inr (False, ls)
      else bind (save_and_next K ls) (\<lambda>ls. Inr (True, ls)))"

definition buffreplace :: "char \<Rightarrow> char \<Rightarrow> LexState \<Rightarrow> LexState" where
  "buffreplace a b ls = ls\<lparr>buff := map (\<lambda>c. if c = a then b else c) (buff ls)\<rparr>"

definition trydecpoint :: "lexlib \<Rightarrow> LexState \<Rightarrow> (lua_Number \<times> LexState) result" where
  "trydecpoint K ls =
     (let old = decpoint ls;
          ls = ls\<lparr>decpoint := (case c_decimal_point K of None \<Rightarrow> CHR ''.'' | Some c \<Rightarrow> c)\<rparr>;
          ls = buffreplace old (decpoint ls) ls
      in case luaO_str2d K (cstr (buff ls)) of
           None \<Rightarrow> luaX_lexerror K (buffreplace (decpoint ls) CHR ''.'' ls) ''malformed number'' TK_NUMBER
         | Some r \<Rightarrow> Inr (r, ls))"

text \<open>The loop \<open>while (P(ls->current)) save_and_next(ls)\<close>.\<close>

function save_while :: "lexlib \<Rightarrow> (char \<Rightarrow> bool) \<Rightarrow> LexState \<Rightarrow> LexState result" where
  "save_while K P ls =
     (if cur_is P ls then bind (save_and_next K ls) (\<lambda>ls. save_while K P ls) else Inr ls)"
  by pat_completeness auto
termination
  by (relation "measure (\<lambda>(K, P, ls). ahead ls)") (auto dest: cur_is_current save_and_next_less)

declare save_while.simps [simp del]

definition is_digit :: "char \<Rightarrow> bool" where "is_digit c \<longleftrightarrow> isdigit (uchar c)"

definition is_word :: "char \<Rightarrow> bool" where "is_word c \<longleftrightarrow> isalnum (uchar c) \<or> c = CHR ''_''"

definition read_numeral :: "lexlib \<Rightarrow> LexState \<Rightarrow> (lua_Number \<times> LexState) result" where
  "read_numeral K ls =
     bind (save_and_next K ls) (\<lambda>ls.
     bind (save_while K (\<lambda>c. is_digit c \<or> c = CHR ''.'') ls) (\<lambda>ls.
     bind (check_next K ''Ee'' ls) (\<lambda>(e, ls).
     bind (if e then bind (check_next K ''+-'' ls) (\<lambda>(_, ls). Inr ls) else Inr ls) (\<lambda>ls.
     bind (save_while K is_word ls) (\<lambda>ls.
     bind (save K NUL ls) (\<lambda>ls.
       let ls = buffreplace CHR ''.'' (decpoint ls) ls
       in case luaO_str2d K (cstr (buff ls)) of
            None \<Rightarrow> trydecpoint K ls
          | Some r \<Rightarrow> Inr (r, ls)))))))"

section \<open>Strings\<close>

text \<open>The count of \<open>=\<close> is an \<open>int\<close>; it is not followed past its range.\<close>

function sep_loop :: "lexlib \<Rightarrow> int \<Rightarrow> LexState \<Rightarrow> (int \<times> LexState) result" where
  "sep_loop K count ls =
     (if current ls = Some CHR ''='' then bind (save_and_next K ls) (\<lambda>ls. sep_loop K (count + 1) ls)
      else Inr (count, ls))"
  by pat_completeness auto
termination
  by (relation "measure (\<lambda>(K, count, ls). ahead ls)") (auto dest: save_and_next_less)

declare sep_loop.simps [simp del]

definition skip_sep :: "lexlib \<Rightarrow> LexState \<Rightarrow> (int \<times> LexState) result" where
  "skip_sep K ls =
     (let s = current ls
      in bind (save_and_next K ls) (\<lambda>ls. bind (sep_loop K 0 ls) (\<lambda>(count, ls).
           Inr (if current ls = s then count else - count - 1, ls))))"

lemma sep_loop_ahead: "sep_loop K count ls = Inr (n, ls') \<Longrightarrow> ahead ls' \<le> ahead ls"
proof (induction K count ls rule: sep_loop.induct)
  case (1 K count ls)
  show ?case
  proof (cases "current ls = Some CHR ''=''")
    case True
    then obtain l where l: "save_and_next K ls = Inr l" "sep_loop K (count + 1) l = Inr (n, ls')"
      using 1(2) by (subst (asm) sep_loop.simps) (auto simp: bind_Inr_iff)
    show ?thesis
      using 1(1) [OF True l] save_and_next_less [OF l(1)] True by simp
  next
    case False
    then show ?thesis using 1(2) by (simp add: sep_loop.simps)
  qed
qed

lemma skip_sep_ahead: "skip_sep K ls = Inr (n, ls') \<Longrightarrow> current ls \<noteq> None \<Longrightarrow> ahead ls' < ahead ls"
  by (auto simp: skip_sep_def bind_Inr_iff Let_def dest!: save_and_next_less sep_loop_ahead)

text \<open>\<open>sem\<close> tells a string from a comment (\<open>seminfo\<close> is not \<open>NULL\<close>).\<close>

function long_loop :: "lexlib \<Rightarrow> bool \<Rightarrow> int \<Rightarrow> LexState \<Rightarrow> LexState result" where
  "long_loop K sem sep ls =
     (case current ls of
        None \<Rightarrow> luaX_lexerror K ls (if sem then ''unfinished long string'' else ''unfinished long comment'') TK_EOS
      | Some c \<Rightarrow>
          if c = CHR ''['' then
            bind (skip_sep K ls) (\<lambda>(n, ls').
              if n = sep then
                bind (save_and_next K ls') (\<lambda>ls'.
                  if sep = 0 then luaX_lexerror K ls' ''nesting of [[...]] is deprecated'' (int (uchar CHR ''[''))
                  else long_loop K sem sep ls')
              else long_loop K sem sep ls')
          else if c = CHR '']'' then
            bind (skip_sep K ls) (\<lambda>(n, ls').
              if n = sep then save_and_next K ls' else long_loop K sem sep ls')
          else if is_newline c then
            bind (save K CHR 0x0A ls) (\<lambda>ls'. bind (inclinenumber K ls') (\<lambda>ls''.
              long_loop K sem sep (if sem then ls'' else reset_buffer ls'')))
          else if sem then bind (save_and_next K ls) (\<lambda>ls'. long_loop K sem sep ls')
          else long_loop K sem sep (next_ch ls))"
  by pat_completeness auto
termination
proof (relation "measure (\<lambda>(K, sem, sep, ls). ahead ls)", goal_cases)
  case 1 show ?case by simp
qed (auto dest!: skip_sep_ahead save_and_next_le inclinenumber_ahead save_ahead simp: next_ahead save_and_next_less)

declare long_loop.simps [simp del]

definition read_long_string :: "lexlib \<Rightarrow> bool \<Rightarrow> int \<Rightarrow> LexState \<Rightarrow> (bytes \<times> LexState) result" where
  "read_long_string K sem sep ls =
     bind (save_and_next K ls) (\<lambda>ls.
     bind (if currIsNewline ls then inclinenumber K ls else Inr ls) (\<lambda>ls.
     bind (long_loop K sem sep ls) (\<lambda>ls.
       if sem
       then let b = buff ls; k = nat (2 + sep)
            in Inr (luaX_newstring (take (length b - 2 * k) (drop k b)) ls)
       else Inr ([], ls))))"

definition escape_char :: "char \<Rightarrow> char option" where
  "escape_char c =
     (if c = CHR ''a'' then Some CHR 0x07
      else if c = CHR ''b'' then Some CHR 0x08
      else if c = CHR ''f'' then Some CHR 0x0C
      else if c = CHR ''n'' then Some CHR 0x0A
      else if c = CHR ''r'' then Some CHR 0x0D
      else if c = CHR ''t'' then Some CHR 0x09
      else if c = CHR ''v'' then Some CHR 0x0B
      else None)"

text \<open>The loop over at most \<open>k\<close> digits of an escape.\<close>

fun dec_esc :: "nat \<Rightarrow> nat \<Rightarrow> LexState \<Rightarrow> nat \<times> LexState" where
  "dec_esc 0 c ls = (c, ls)"
| "dec_esc (Suc k) c ls =
     (case current ls of
        None \<Rightarrow> (c, ls)
      | Some d \<Rightarrow>
          let c = 10 * c + (uchar d - 48); ls = next_ch ls
          in if cur_is is_digit ls then dec_esc k c ls else (c, ls))"

lemma dec_esc_ahead: "dec_esc k c ls = (v, ls') \<Longrightarrow> ahead ls' \<le> ahead ls"
proof (induction k arbitrary: c ls)
  case (Suc k)
  show ?case
    using Suc(2) next_ahead_le [of ls] Suc(1) [of _ "next_ch ls"]
    by (fastforce simp: Let_def split: option.splits if_splits)
qed simp

function string_loop :: "lexlib \<Rightarrow> char \<Rightarrow> LexState \<Rightarrow> LexState result" where
  "string_loop K del ls =
     (if current ls = Some del then Inr ls
      else case current ls of
        None \<Rightarrow> luaX_lexerror K ls ''unfinished string'' TK_EOS
      | Some c \<Rightarrow>
          if is_newline c then luaX_lexerror K ls ''unfinished string'' TK_STRING
          else if c = CHR 0x5C then
            (let l = next_ch ls
             in case current l of
                  None \<Rightarrow> string_loop K del l
                | Some d \<Rightarrow>
                    (case escape_char d of
                       Some e \<Rightarrow> bind (save K e l) (\<lambda>l'. string_loop K del (next_ch l'))
                     | None \<Rightarrow>
                         if is_newline d then
                           bind (save K CHR 0x0A l) (\<lambda>l'. bind (inclinenumber K l') (\<lambda>l''. string_loop K del l''))
                         else if \<not> is_digit d then bind (save_and_next K l) (\<lambda>l'. string_loop K del l')
                         else
                           let (v, l') = dec_esc 3 0 l
                           in if v > 255 then luaX_lexerror K l' ''escape sequence too large'' TK_STRING
                              else bind (save K (char_of v) l') (\<lambda>l''. string_loop K del l'')))
          else bind (save_and_next K ls) (\<lambda>l. string_loop K del l))"
  by pat_completeness auto
termination
proof (relation "measure (\<lambda>(K, del, ls). ahead ls)", goal_cases)
  case 1 show ?case by simp
next
  case (2 K del ls c l) then show ?case by (simp add: next_ahead)
next
  case (3 K del ls c l d l' l'')
  then show ?case
    using next_ahead [of ls] save_ahead [of K _ l l'] inclinenumber_ahead [of K l' l''] by force
next
  case (4 K del ls c l d l')
  then show ?case
    using next_ahead [of ls] save_and_next_le [of K l l'] by simp
next
  case (5 K del ls c l d r v l' l'')
  then show ?case
    using next_ahead [of ls] save_ahead [of K _ l' l''] dec_esc_ahead [of 3 0 l v l'] by simp
next
  case (6 K del ls c l d e l')
  then show ?case
    using next_ahead [of ls] next_ahead_le [of l'] save_ahead [of K e l l'] by simp
next
  case (7 K del ls c l)
  then show ?case by (simp add: save_and_next_less)
qed

declare string_loop.simps [simp del]

definition read_string :: "lexlib \<Rightarrow> char \<Rightarrow> LexState \<Rightarrow> (bytes \<times> LexState) result" where
  "read_string K del ls =
     bind (save_and_next K ls) (\<lambda>ls.
     bind (string_loop K del ls) (\<lambda>ls.
     bind (save_and_next K ls) (\<lambda>ls.
       Inr (luaX_newstring (take (length (buff ls) - 2) (drop 1 (buff ls))) ls))))"

section \<open>Tokens\<close>

function skip_line :: "LexState \<Rightarrow> LexState" where
  "skip_line ls = (if cur_is (\<lambda>c. \<not> is_newline c) ls then skip_line (next_ch ls) else ls)"
  by pat_completeness auto
termination by (relation "measure ahead") (auto dest: cur_is_current simp: next_ahead)

declare skip_line.simps [simp del]

lemma skip_line_ahead: "ahead (skip_line ls) \<le> ahead ls"
proof (induction ls rule: skip_line.induct)
  case (1 ls)
  then show ?case
    using next_ahead_le [of ls] by (subst skip_line.simps) auto
qed

lemma long_loop_ahead: "long_loop K sem sep ls = Inr ls' \<Longrightarrow> ahead ls' \<le> ahead ls"
proof (induction K sem sep ls arbitrary: ls' rule: long_loop.induct)
  case (1 K sem sep ls)
  obtain c where c: "current ls = Some c"
    using "1.prems" by (cases "current ls") (simp_all add: long_loop.simps [of K sem sep ls])
  note R = "1.prems" [unfolded long_loop.simps [of K sem sep ls] c option.case]
  consider "c = CHR ''[''" | "c = CHR '']''" "c \<noteq> CHR ''[''" | "is_newline c" "c \<noteq> CHR ''[''" "c \<noteq> CHR '']''"
    | "\<not> is_newline c" "c \<noteq> CHR ''[''" "c \<noteq> CHR '']''" by blast
  then show ?case
  proof cases
    case 1
    obtain n l where l: "skip_sep K ls = Inr (n, l)"
      using R 1 by (auto simp: bind_Inr_iff)
    note less = skip_sep_ahead [OF l] c
    show ?thesis
    proof (cases "n = sep")
      case True
      then obtain l2 where l2: "save_and_next K l = Inr l2" "sep \<noteq> 0" "long_loop K sem sep l2 = Inr ls'"
        using R 1 l by (auto simp: bind_Inr_iff split: if_splits)
      show ?thesis
        using "1.IH"(1) [OF c 1 l refl True l2(1,2,3)] less save_and_next_le [OF l2(1)] by simp
    next
      case False
      then have "long_loop K sem sep l = Inr ls'"
        using R 1 l by simp
      from "1.IH"(2) [OF c 1 l refl False this] less show ?thesis by simp
    qed
  next
    case 2
    obtain n l where l: "skip_sep K ls = Inr (n, l)"
      using R 2 by (auto simp: bind_Inr_iff)
    note less = skip_sep_ahead [OF l] c
    show ?thesis
    proof (cases "n = sep")
      case True
      then have "save_and_next K l = Inr ls'" using R 2 l by simp
      from save_and_next_le [OF this] less show ?thesis by simp
    next
      case False
      then have "long_loop K sem sep l = Inr ls'"
        using R 2 l by simp
      from "1.IH"(3) [OF c 2(2,1) l refl False this] less show ?thesis by simp
    qed
  next
    case 3
    then obtain l l2 where l: "save K CHR 0x0A ls = Inr l" "inclinenumber K l = Inr l2"
      "long_loop K sem sep (if sem then l2 else reset_buffer l2) = Inr ls'"
      using R by (auto simp: bind_Inr_iff)
    have "ahead ls' \<le> ahead (if sem then l2 else reset_buffer l2)"
      by (rule "1.IH"(4) [OF c 3(2,3,1) l])
    moreover have "ahead l2 < ahead ls"
      using inclinenumber_ahead [OF l(2)] save_ahead [OF l(1)] c by simp
    ultimately show ?thesis by (simp split: if_splits)
  next
    case 4
    show ?thesis
    proof (cases sem)
      case True
      then obtain l where l: "save_and_next K ls = Inr l" "long_loop K sem sep l = Inr ls'"
        using R 4 by (auto simp: bind_Inr_iff)
      show ?thesis
        using "1.IH"(5) [OF c 4(2,3,1) True l] save_and_next_le [OF l(1)] by simp
    next
      case False
      then have "long_loop K sem sep (next_ch ls) = Inr ls'" using R 4 by simp
      from "1.IH"(6) [OF c 4(2,3,1) False this] next_ahead_le [of ls] show ?thesis by simp
    qed
  qed
qed

lemma read_long_string_ahead:
  "read_long_string K sem sep ls = Inr (s, ls') \<Longrightarrow> ahead ls' \<le> ahead ls"
  by (cases sem) (force simp: read_long_string_def bind_Inr_iff luaX_newstring_def Let_def ahead_def cur_is_def currIsNewline_def
    split: if_splits option.splits dest!: save_and_next_le inclinenumber_ahead long_loop_ahead)+

text \<open>The token, what it says in \<open>seminfo\<close> (left alone by \<open>None\<close>), and the state behind it.\<close>

type_synonym lexed = "(int \<times> SemInfo option \<times> LexState) result"

definition tk_char :: "char \<Rightarrow> int" where "tk_char c = int (uchar c)"

definition one_or_eq :: "char \<Rightarrow> int \<Rightarrow> LexState \<Rightarrow> lexed" where
  "one_or_eq c tk ls =
     (let ls = next_ch ls
      in if current ls \<noteq> Some CHR ''='' then Inr (tk_char c, None, ls) else Inr (tk, None, next_ch ls))"

definition lex_numeral :: "lexlib \<Rightarrow> LexState \<Rightarrow> lexed" where
  "lex_numeral K ls = bind (read_numeral K ls) (\<lambda>(r, ls). Inr (TK_NUMBER, Some (SemR r), ls))"

definition lex_bracket :: "lexlib \<Rightarrow> LexState \<Rightarrow> lexed" where
  "lex_bracket K ls =
     bind (skip_sep K ls) (\<lambda>(sep, ls).
       if sep \<ge> 0 then bind (read_long_string K True sep ls) (\<lambda>(s, ls). Inr (TK_STRING, Some (SemTS s), ls))
       else if sep = - 1 then Inr (tk_char CHR ''['', None, ls)
       else luaX_lexerror K ls ''invalid long string delimiter'' TK_STRING)"

definition lex_dot :: "lexlib \<Rightarrow> LexState \<Rightarrow> lexed" where
  "lex_dot K ls =
     bind (save_and_next K ls) (\<lambda>ls.
     bind (check_next K ''.'' ls) (\<lambda>(dot2, ls).
       if dot2 then bind (check_next K ''.'' ls) (\<lambda>(dot3, ls). Inr (if dot3 then TK_DOTS else TK_CONCAT, None, ls))
       else if \<not> cur_is is_digit ls then Inr (tk_char CHR ''.'', None, ls)
       else lex_numeral K ls))"

definition lex_name :: "lexlib \<Rightarrow> LexState \<Rightarrow> lexed" where
  "lex_name K ls =
     bind (save_and_next K ls) (\<lambda>ls.
     bind (save_while K is_word ls) (\<lambda>ls.
       let (ts, ls) = luaX_newstring (buff ls) ls
       in if luaX_init ts > 0 then Inr (int (luaX_init ts) - 1 + FIRST_RESERVED, None, ls)
          else Inr (TK_NAME, Some (SemTS ts), ls)))"

definition lex_default :: "lexlib \<Rightarrow> char \<Rightarrow> LexState \<Rightarrow> lexed" where
  "lex_default K c ls =
     (if is_digit c then lex_numeral K ls
      else if isalpha (uchar c) \<or> c = CHR ''_'' \<or> c = CHR ''$'' then lex_name K ls
      else Inr (tk_char c, None, next_ch ls))"

text \<open>What a comment leaves to the loop, from behind its two dashes.\<close>

definition skip_comment :: "lexlib \<Rightarrow> LexState \<Rightarrow> LexState result" where
  "skip_comment K ls =
     (if current ls = Some CHR ''['' then
        bind (skip_sep K ls) (\<lambda>(sep, ls). let ls = reset_buffer ls in
          if sep \<ge> 0 then bind (read_long_string K False sep ls) (\<lambda>(_, ls). Inr (reset_buffer ls))
          else Inr (skip_line ls))
      else Inr (skip_line ls))"

lemma skip_comment_ahead: "skip_comment K ls = Inr ls' \<Longrightarrow> ahead ls' \<le> ahead ls"
  using skip_line_ahead
  by (fastforce simp: skip_comment_def bind_Inr_iff Let_def split: if_splits
    dest!: skip_sep_ahead read_long_string_ahead intro: le_trans less_imp_le)

function lex_loop :: "lexlib \<Rightarrow> LexState \<Rightarrow> lexed" where
  "lex_loop K ls =
     (case current ls of
        None \<Rightarrow> Inr (TK_EOS, None, ls)
      | Some c \<Rightarrow>
          if is_newline c then bind (inclinenumber K ls) (\<lambda>ls'. lex_loop K ls')
          else if c = CHR ''-'' then
            (let l = next_ch ls
             in if current l \<noteq> Some CHR ''-'' then Inr (tk_char CHR ''-'', None, l)
                else bind (skip_comment K (next_ch l)) (\<lambda>l'. lex_loop K l'))
          else if c = CHR ''['' then lex_bracket K ls
          else if c = CHR ''='' then one_or_eq CHR ''='' TK_EQ ls
          else if c = CHR ''<'' then one_or_eq CHR ''<'' TK_LE ls
          else if c = CHR ''>'' then one_or_eq CHR ''>'' TK_GE ls
          else if c = CHR ''~'' then one_or_eq CHR ''~'' TK_NE ls
          else if c = CHR 0x22 \<or> c = CHR 0x27 then
            bind (read_string K c ls) (\<lambda>(s, ls'). Inr (TK_STRING, Some (SemTS s), ls'))
          else if c = CHR ''.'' then lex_dot K ls
          else if isspace (uchar c) then lex_loop K (next_ch ls)
          else lex_default K c ls)"
  by pat_completeness auto
termination
proof (relation "measure (\<lambda>(K, ls). ahead ls)", goal_cases)
  case 1 show ?case by simp
next
  case (2 K ls c l) then show ?case by (simp add: inclinenumber_ahead)
next
  case (3 K ls c l l')
  then show ?case
    using next_ahead [of ls] next_ahead_le [of l] skip_comment_ahead [of K "next_ch l" l'] by simp
next
  case (4 K ls c) then show ?case by (simp add: next_ahead)
qed

declare lex_loop.simps [simp del]

definition llex :: "lexlib \<Rightarrow> LexState \<Rightarrow> lexed" where
  "llex K ls = lex_loop K (reset_buffer ls)"

definition set_token :: "int \<Rightarrow> SemInfo option \<Rightarrow> Token \<Rightarrow> Token" where
  "set_token tk sem t = t\<lparr>token := tk, seminfo := (case sem of None \<Rightarrow> seminfo t | Some s \<Rightarrow> Some s)\<rparr>"

definition luaX_next :: "lexlib \<Rightarrow> LexState \<Rightarrow> LexState result" where
  "luaX_next K ls =
     (let ls = ls\<lparr>lastline := linenumber ls\<rparr>
      in if token (lookahead ls) \<noteq> TK_EOS
         then Inr (ls\<lparr>tok := lookahead ls, lookahead := (lookahead ls)\<lparr>token := TK_EOS\<rparr>\<rparr>)
         else bind (llex K ls) (\<lambda>(tk, sem, ls). Inr (ls\<lparr>tok := set_token tk sem (tok ls)\<rparr>)))"

definition luaX_lookahead :: "lexlib \<Rightarrow> LexState \<Rightarrow> LexState result" where
  "luaX_lookahead K ls =
     bind (llex K ls) (\<lambda>(tk, sem, ls). Inr (ls\<lparr>lookahead := set_token tk sem (lookahead ls)\<rparr>))"

end
