(* ===== verification/Lua_Lex_Props.thy ===== *)
theory Lua_Lex_Props
  imports Lua_Lex
begin

text \<open>
  What holds of the lexical analyser: it always answers and each token takes input, it counts every
  line break once, and a zero byte passes for a dot.
\<close>

section \<open>The text ahead\<close>

definition ltext :: "LexState \<Rightarrow> bytes" where
  "ltext ls = (case current ls of None \<Rightarrow> [] | Some c \<Rightarrow> c # zbytes (zio ls))"

definition lex_ok :: "LexState \<Rightarrow> bool" where
  "lex_ok ls \<longleftrightarrow> z_ok (zio ls) \<and> (current ls = None \<longrightarrow> zbytes (zio ls) = [])"

lemma next_text_z:
  assumes z: "z_ok (zio ls)"
  shows "lex_ok (next_ch ls)" "ltext (next_ch ls) = zbytes (zio ls)"
proof -
  have "lex_ok (next_ch ls) \<and> ltext (next_ch ls) = zbytes (zio ls)"
  proof (cases "zbytes (zio ls)")
    case Nil
    then show ?thesis
      using zgetc_bytes(1) [OF z Nil] z by (simp add: next_ch_def lex_ok_def ltext_def)
  next
    case (Cons c cs)
    then show ?thesis
      using zgetc_bytes(2) [OF z Cons] by (auto simp: next_ch_def lex_ok_def ltext_def)
  qed
  then show "lex_ok (next_ch ls)" "ltext (next_ch ls) = zbytes (zio ls)" by simp_all
qed

lemma next_line: "linenumber (next_ch ls) = linenumber ls"
  by (simp add: next_ch_def split: prod.splits)

lemma next_text:
  assumes "lex_ok ls"
  shows "lex_ok (next_ch ls)" "ltext (next_ch ls) = tl (ltext ls)"
    "linenumber (next_ch ls) = linenumber ls"
  using assms next_text_z [of ls]
  by (auto simp: ltext_def lex_ok_def next_line split: option.splits)

section \<open>Line breaks\<close>

text \<open>A line break is a line feed or a carriage return, or one of each.\<close>

fun breaks :: "bytes \<Rightarrow> int" where
  "breaks [] = 0"
| "breaks [c] = (if is_newline c then 1 else 0)"
| "breaks (c # d # s) =
     (if is_newline c then 1 + (if is_newline d \<and> d \<noteq> c then breaks s else breaks (d # s))
      else breaks (d # s))"

lemma breaks_other: "\<not> is_newline c \<Longrightarrow> breaks (c # s) = breaks s"
  by (cases s) simp_all

definition kept :: "LexState \<Rightarrow> LexState \<Rightarrow> bool" where
  "kept ls ls' \<longleftrightarrow>
     (lex_ok ls \<longrightarrow> lex_ok ls' \<and> linenumber ls' + breaks (ltext ls') = linenumber ls + breaks (ltext ls))"

lemma kept_refl [simp]: "kept ls ls"
  by (simp add: kept_def)

lemma kept_trans [trans]: "kept a b \<Longrightarrow> kept b c \<Longrightarrow> kept a c"
  by (simp add: kept_def)

lemma kept_next: "\<not> currIsNewline ls \<Longrightarrow> kept ls (next_ch ls)"
  using next_text [of ls]
  by (auto simp: kept_def currIsNewline_def cur_is_def ltext_def breaks_other split: option.splits)

lemma kept_same:
  "current ls' = current ls \<Longrightarrow> zio ls' = zio ls \<Longrightarrow> linenumber ls' = linenumber ls \<Longrightarrow> kept ls ls'"
  by (simp add: kept_def lex_ok_def ltext_def cong: option.case_cong)

lemma kept_save: "save K c ls = Inr ls' \<Longrightarrow> kept ls ls'"
  by (erule save_same) (simp add: kept_same)

lemma currIsNewline_same: "current ls' = current ls \<Longrightarrow> currIsNewline ls' = currIsNewline ls"
  by (simp add: currIsNewline_def cur_is_def)

lemma kept_save_and_next:
  assumes "save_and_next K ls = Inr ls'" "\<not> currIsNewline ls"
  shows "kept ls ls'"
proof -
  obtain l where l: "save K (cast_char (current ls)) ls = Inr l" "ls' = next_ch l"
    using assms(1) by (auto simp: save_and_next_def bind_Inr_iff)
  show ?thesis
    using kept_trans [OF kept_save [OF l(1)] kept_next] currIsNewline_same [of l ls] save_ahead [OF l(1)]
      assms(2) by (simp add: l(2))
qed

lemma inclinenumber_Inr:
  assumes "inclinenumber K ls = Inr ls'"
  shows "ls' = (let l = (if currIsNewline (next_ch ls) \<and> current (next_ch ls) \<noteq> current ls
      then next_ch (next_ch ls) else next_ch ls) in l\<lparr>linenumber := linenumber l + 1\<rparr>)"
  using assms by (auto simp: inclinenumber_def Let_def split: if_splits)

lemma kept_inc:
  assumes "inclinenumber K ls = Inr ls'" "currIsNewline ls"
  shows "kept ls ls'"
  unfolding kept_def
proof
  assume ok: "lex_ok ls"
  obtain c s where c: "current ls = Some c" "is_newline c" "ltext ls = c # s"
    using assms(2) by (auto simp: currIsNewline_def cur_is_def ltext_def split: option.splits)
  let ?l = "next_ch ls"
  note n1 = next_text [OF ok]
  note n2 = next_text [OF n1(1)]
  have s: "ltext ?l = s" using n1(2) c by simp
  have two: "(currIsNewline ?l \<and> current ?l \<noteq> current ls) =
      (case s of [] \<Rightarrow> False | d # _ \<Rightarrow> is_newline d \<and> d \<noteq> c)"
    unfolding s [symmetric] using c by (auto simp: ltext_def currIsNewline_def cur_is_def split: option.splits)
  have [simp]: "lex_ok (l\<lparr>linenumber := k\<rparr>) = lex_ok l" "ltext (l\<lparr>linenumber := k\<rparr>) = ltext l" for l k
    by (simp_all add: lex_ok_def ltext_def cong: option.case_cong)
  show "lex_ok ls' \<and> linenumber ls' + breaks (ltext ls') = linenumber ls + breaks (ltext ls)"
    unfolding inclinenumber_Inr [OF assms(1)] two using c n1 n2 s
    by (cases s) (auto simp: Let_def)
qed

lemma kept_save_while:
  "save_while K P ls = Inr ls' \<Longrightarrow> (\<And>c. P c \<Longrightarrow> \<not> is_newline c) \<Longrightarrow> kept ls ls'"
proof (induction K P ls rule: save_while.induct)
  case (1 K P ls)
  show ?case
  proof (cases "cur_is P ls")
    case True
    then obtain l where l: "save_and_next K ls = Inr l" "save_while K P l = Inr ls'"
      using 1(2) by (subst (asm) save_while.simps) (auto simp: bind_Inr_iff)
    have "\<not> currIsNewline ls"
      using True 1(3) by (auto simp: cur_is_def currIsNewline_def split: option.splits)
    with l 1(1) [OF True l] 1(3) show ?thesis by (blast intro: kept_trans kept_save_and_next)
  next
    case False
    then show ?thesis using 1(2) by (simp add: save_while.simps)
  qed
qed

lemma kept_check_next:
  assumes "check_next K s ls = Inr (b, ls')" "\<And>c. c \<in> set s \<Longrightarrow> \<not> is_newline c"
  shows "kept ls ls'"
proof (cases b)
  case True
  then have "save_and_next K ls = Inr ls'" "strchr s (cast_char (current ls))"
    using assms(1) by (auto simp: check_next_def bind_Inr_iff split: if_splits)
  then have "\<not> currIsNewline ls"
    using assms(2) by (auto simp: strchr_def cast_char_def currIsNewline_def cur_is_def NUL_def is_newline_def
      split: option.splits)
  with \<open>save_and_next K ls = Inr ls'\<close> show ?thesis by (rule kept_save_and_next)
next
  case False
  then show ?thesis using assms(1) by (auto simp: check_next_def bind_Inr_iff split: if_splits)
qed

lemma kept_sep_loop: "sep_loop K count ls = Inr (n, ls') \<Longrightarrow> kept ls ls'"
proof (induction K count ls rule: sep_loop.induct)
  case (1 K count ls)
  show ?case
  proof (cases "current ls = Some CHR ''=''")
    case True
    then obtain l where l: "save_and_next K ls = Inr l" "sep_loop K (count + 1) l = Inr (n, ls')"
      using 1(2) by (subst (asm) sep_loop.simps) (auto simp: bind_Inr_iff)
    have "\<not> currIsNewline ls" using True by (simp add: currIsNewline_def cur_is_def is_newline_def)
    with l 1(1) [OF True l] show ?thesis by (blast intro: kept_trans kept_save_and_next)
  next
    case False
    then show ?thesis using 1(2) by (simp add: sep_loop.simps)
  qed
qed

lemma sep_loop_count: "sep_loop K count ls = Inr (n, ls') \<Longrightarrow> count \<le> n"
proof (induction K count ls rule: sep_loop.induct)
  case (1 K count ls)
  then show ?case
    by (cases "current ls = Some CHR ''=''") (fastforce simp: sep_loop.simps [of K count ls] bind_Inr_iff)+
qed

lemma skip_sep_current:
  "skip_sep K ls = Inr (n, ls') \<Longrightarrow> 0 \<le> n \<Longrightarrow> current ls' = current ls"
  by (auto simp: skip_sep_def bind_Inr_iff Let_def dest!: sep_loop_count split: if_splits)

lemma kept_skip_sep:
  assumes "skip_sep K ls = Inr (n, ls')" "\<not> currIsNewline ls"
  shows "kept ls ls'"
proof -
  obtain l n' where "save_and_next K ls = Inr l" "sep_loop K 0 l = Inr (n', ls')"
    using assms(1) by (auto simp: skip_sep_def bind_Inr_iff Let_def)
  then show ?thesis using assms(2) by (blast intro: kept_trans kept_save_and_next kept_sep_loop)
qed

lemma not_newline [simp]:
  "\<not> is_newline CHR ''[''" "\<not> is_newline CHR '']''" "\<not> is_newline CHR ''-''" "\<not> is_newline CHR 0x5C"
  "\<not> is_newline CHR ''=''" "\<not> is_newline CHR ''.''" "\<not> is_newline CHR ''<''" "\<not> is_newline CHR ''>''"
  "\<not> is_newline CHR ''~''" "\<not> is_newline CHR 0x22" "\<not> is_newline CHR 0x27"
  by (simp_all add: is_newline_def)

lemma currIsNewline_Some: "current ls = Some c \<Longrightarrow> currIsNewline ls = is_newline c"
  by (simp add: currIsNewline_def cur_is_def)

lemma kept_reset [simp]: "kept (reset_buffer ls) ls' = kept ls ls'" "kept ls (reset_buffer ls') = kept ls ls'"
  by (simp_all add: kept_def reset_buffer_def lex_ok_def ltext_def cong: option.case_cong)

lemma kept_long_loop: "long_loop K sem sep ls = Inr ls' \<Longrightarrow> sep \<ge> 0 \<Longrightarrow> kept ls ls'"
proof (induction K sem sep ls arbitrary: ls' rule: long_loop.induct)
  case (1 K sem sep ls)
  obtain c where c: "current ls = Some c"
    using "1.prems" by (cases "current ls") (simp_all add: long_loop.simps [of K sem sep ls])
  note R = "1.prems"(1) [unfolded long_loop.simps [of K sem sep ls] c option.case]
  note cn = currIsNewline_Some [OF c]
  have close: "kept l l2"
    if l: "skip_sep K ls = Inr (sep, l)" "save_and_next K l = Inr l2" "c = CHR ''['' \<or> c = CHR '']''" for l l2
  proof -
    have "current l = Some c"
      using skip_sep_current [OF l(1) "1.prems"(2)] c by simp
    with l(2,3) show ?thesis
      by (auto intro!: kept_save_and_next simp: currIsNewline_Some)
  qed
  consider "c = CHR ''[''" | "c = CHR '']''" "c \<noteq> CHR ''[''" | "is_newline c" "c \<noteq> CHR ''[''" "c \<noteq> CHR '']''"
    | "\<not> is_newline c" "c \<noteq> CHR ''[''" "c \<noteq> CHR '']''" by blast
  then show ?case
  proof cases
    case 1
    obtain n l where l: "skip_sep K ls = Inr (n, l)"
      using R 1 by (auto simp: bind_Inr_iff)
    have kl: "kept ls l" using kept_skip_sep [OF l] cn 1 by simp
    show ?thesis
    proof (cases "n = sep")
      case True
      then obtain l2 where l2: "save_and_next K l = Inr l2" "sep \<noteq> 0" "long_loop K sem sep l2 = Inr ls'"
        using R 1 l by (auto simp: bind_Inr_iff split: if_splits)
      show ?thesis
        using "1.IH"(1) [OF c 1 l refl True l2 "1.prems"(2)] close [OF l [unfolded True] l2(1)] 1 kl
        by (blast intro: kept_trans)
    next
      case False
      then have "long_loop K sem sep l = Inr ls'"
        using R 1 l by simp
      from "1.IH"(2) [OF c 1 l refl False this "1.prems"(2)] kl show ?thesis by (blast intro: kept_trans)
    qed
  next
    case 2
    obtain n l where l: "skip_sep K ls = Inr (n, l)"
      using R 2 by (auto simp: bind_Inr_iff)
    have kl: "kept ls l" using kept_skip_sep [OF l] cn 2 by simp
    show ?thesis
    proof (cases "n = sep")
      case True
      then have "save_and_next K l = Inr ls'" using R 2 l by simp
      from close [OF l [unfolded True] this] 2 kl show ?thesis by (blast intro: kept_trans)
    next
      case False
      then have "long_loop K sem sep l = Inr ls'"
        using R 2 l by simp
      from "1.IH"(3) [OF c 2(2,1) l refl False this "1.prems"(2)] kl show ?thesis by (blast intro: kept_trans)
    qed
  next
    case 3
    then obtain l l2 where l: "save K CHR 0x0A ls = Inr l" "inclinenumber K l = Inr l2"
      "long_loop K sem sep (if sem then l2 else reset_buffer l2) = Inr ls'"
      using R by (auto simp: bind_Inr_iff)
    have "kept (if sem then l2 else reset_buffer l2) ls'"
      by (rule "1.IH"(4) [OF c 3(2,3,1) l "1.prems"(2)])
    moreover have "kept l l2"
      using kept_inc [OF l(2)] save_ahead [OF l(1)] currIsNewline_same [of l ls] cn 3 by simp
    ultimately show ?thesis
      using kept_save [OF l(1)] by (auto intro: kept_trans split: if_splits)
  next
    case 4
    show ?thesis
    proof (cases sem)
      case True
      then obtain l where l: "save_and_next K ls = Inr l" "long_loop K sem sep l = Inr ls'"
        using R 4 by (auto simp: bind_Inr_iff)
      show ?thesis
        using "1.IH"(5) [OF c 4(2,3,1) True l "1.prems"(2)] kept_save_and_next [OF l(1)] cn 4
        by (auto intro: kept_trans)
    next
      case False
      then have "long_loop K sem sep (next_ch ls) = Inr ls'" using R 4 by simp
      from "1.IH"(6) [OF c 4(2,3,1) False this "1.prems"(2)] kept_next [of ls] cn 4
      show ?thesis by (auto intro: kept_trans)
    qed
  qed
qed

lemma kept_read_long_string:
  assumes "read_long_string K sem sep ls = Inr (s, ls')" "sep \<ge> 0" "\<not> currIsNewline ls"
  shows "kept ls ls'"
proof -
  obtain l1 l2 l3 where l: "save_and_next K ls = Inr l1"
    "(if currIsNewline l1 then inclinenumber K l1 else Inr l1) = Inr l2" "long_loop K sem sep l2 = Inr l3"
    and e: "(if sem then let b = buff l3; k = nat (2 + sep)
            in Inr (luaX_newstring (take (length b - 2 * k) (drop k b)) l3)
       else Inr ([], l3)) = (Inr (s, ls') :: (bytes \<times> LexState) result)"
    using assms(1) unfolding read_long_string_def bind_Inr_iff by blast
  have "kept l3 ls'"
    using e by (auto simp: Let_def luaX_newstring_def split: if_splits intro!: kept_same)
  moreover
  have "kept l1 l2" using l(2) kept_inc by (auto split: if_splits)
  ultimately show ?thesis
    using kept_save_and_next [OF l(1) assms(3)] kept_long_loop [OF l(3) assms(2)] by (blast intro: kept_trans)
qed

lemma is_digit_newline: "is_digit c \<Longrightarrow> \<not> is_newline c"
  by (auto simp: is_digit_def isdigit_def is_newline_def)

lemma kept_dec_esc:
  "dec_esc k c ls = (v, ls') \<Longrightarrow> cur_is is_digit ls \<Longrightarrow> kept ls ls'"
proof (induction k arbitrary: c ls)
  case (Suc k)
  obtain d where d: "current ls = Some d" "is_digit d"
    using Suc(3) by (auto simp: cur_is_def split: option.splits)
  have "kept ls (next_ch ls)"
    using d is_digit_newline by (intro kept_next) (simp add: currIsNewline_Some)
  then show ?case
    using Suc(2) d Suc(1) by (auto simp: Let_def split: if_splits intro: kept_trans)
qed simp

text \<open>From here on, \<open>goes\<close> also says that input is taken, not put back.\<close>

definition goes :: "LexState \<Rightarrow> LexState \<Rightarrow> bool" where
  "goes ls ls' \<longleftrightarrow> kept ls ls' \<and> ahead ls' \<le> ahead ls"

lemma goes_refl [simp]: "goes ls ls"
  by (simp add: goes_def)

lemma goes_trans [trans]: "goes a b \<Longrightarrow> goes b c \<Longrightarrow> goes a c"
  by (auto simp: goes_def intro: kept_trans)

lemma goes_next: "\<not> currIsNewline ls \<Longrightarrow> goes ls (next_ch ls)"
  by (simp add: goes_def kept_next next_ahead_le)

lemma goes_save: "save K c ls = Inr ls' \<Longrightarrow> goes ls ls'"
  using kept_save save_ahead by (fastforce simp: goes_def)

lemma goes_save_and_next: "save_and_next K ls = Inr ls' \<Longrightarrow> \<not> currIsNewline ls \<Longrightarrow> goes ls ls'"
  by (simp add: goes_def kept_save_and_next save_and_next_le)

lemma goes_inc:
  assumes "inclinenumber K ls = Inr ls'" "currIsNewline ls"
  shows "goes ls ls'"
proof -
  have "current ls \<noteq> None" using assms(2) by (auto simp: currIsNewline_def cur_is_def split: option.splits)
  then show ?thesis using kept_inc [OF assms] inclinenumber_ahead [OF assms(1)] by (simp add: goes_def)
qed

lemma goes_same: "current ls' = current ls \<Longrightarrow> zio ls' = zio ls \<Longrightarrow> linenumber ls' = linenumber ls \<Longrightarrow> goes ls ls'"
  by (simp add: goes_def kept_same ahead_def)

lemma goes_reset [simp]: "goes (reset_buffer ls) ls' = goes ls ls'" "goes ls (reset_buffer ls') = goes ls ls'"
  by (simp_all add: goes_def)

lemma string_step_escape:
  assumes "goes (next_ch ls) l" "current ls = Some CHR 0x5C"
  shows "goes ls l"
  using goes_trans [OF goes_next assms(1)] assms(2) by (simp add: currIsNewline_Some)

lemma escape_not_newline: "escape_char d = Some e \<Longrightarrow> \<not> is_newline d"
  by (auto simp: escape_char_def is_newline_def split: if_splits)

lemma goes_string_loop:
  "string_loop K del ls = Inr ls' \<Longrightarrow> goes ls ls' \<and> current ls' = Some del"
proof (induction K del ls arbitrary: ls' rule: string_loop.induct)
  case (1 K del ls)
  note IH = "1.IH"
  show ?case
  proof (cases "current ls = Some del")
    case True
    then show ?thesis using "1.prems" by (simp add: string_loop.simps [of K del ls])
  next
    case del: False
    obtain c where c: "current ls = Some c"
      using "1.prems" del by (cases "current ls") (simp_all add: string_loop.simps [of K del ls])
    note R = "1.prems" [unfolded string_loop.simps [of K del ls] c option.case]
    have nl: "\<not> is_newline c" using R del c by (auto split: if_splits)
    have cn: "\<not> currIsNewline ls" using nl c by (simp add: currIsNewline_Some)
    show ?thesis
    proof (cases "c = CHR 0x5C")
      case False
      then obtain l where l: "save_and_next K ls = Inr l" "string_loop K del l = Inr ls'"
        using R del c nl by (auto simp: bind_Inr_iff)
      show ?thesis
        using IH(6) [OF del c nl False l] goes_save_and_next [OF l(1) cn] by (blast intro: goes_trans)
    next
      case bs: True
      let ?l = "next_ch ls"
      have step: "goes ls ?l" by (rule goes_next [OF cn])
      show ?thesis
      proof (cases "current ?l")
        case None
        then have "string_loop K del ?l = Inr ls'" using R del c bs by (simp add: Let_def)
        from IH(1) [OF del c nl bs refl None this] step show ?thesis by (blast intro: goes_trans)
      next
        case d: (Some d)
        note cd = currIsNewline_Some [OF d]
        show ?thesis
        proof (cases "escape_char d")
          case e: (Some e)
          then obtain l' where l: "save K e ?l = Inr l'" "string_loop K del (next_ch l') = Inr ls'"
            using R del c bs d by (auto simp: Let_def bind_Inr_iff)
          have "goes l' (next_ch l')"
            using escape_not_newline [OF e] save_ahead [OF l(1)] d by (intro goes_next) (simp add: currIsNewline_Some)
          with IH(5) [OF del c nl bs refl d e l] step goes_save [OF l(1)] show ?thesis
            by (blast intro: goes_trans)
        next
          case e: None
          show ?thesis
          proof (cases "is_newline d")
            case n: True
            then obtain l' l'' where l: "save K CHR 0x0A ?l = Inr l'" "inclinenumber K l' = Inr l''"
              "string_loop K del l'' = Inr ls'"
              using R del c bs d e by (auto simp: Let_def bind_Inr_iff)
            have "goes l' l''"
              using save_ahead [OF l(1)] d n by (intro goes_inc [OF l(2)]) (simp add: currIsNewline_Some)
            with IH(2) [OF del c nl bs refl d e n l] step goes_save [OF l(1)] show ?thesis
              by (blast intro: goes_trans)
          next
            case n: False
            show ?thesis
            proof (cases "is_digit d")
              case False
              then obtain l' where l: "save_and_next K ?l = Inr l'" "string_loop K del l' = Inr ls'"
                using R del c bs d e n by (auto simp: Let_def bind_Inr_iff)
              from IH(3) [OF del c nl bs refl d e n False l] goes_save_and_next [OF l(1)] step show ?thesis
                using n cd by (auto intro: goes_trans)
            next
              case dig: True
              obtain v l' where v: "dec_esc 3 0 ?l = (v, l')" by (cases "dec_esc 3 0 ?l")
              have v': "\<not> 255 < v" using R del c bs d e n dig v by (auto simp: Let_def)
              obtain l'' where l: "save K (char_of v) l' = Inr l''" "string_loop K del l'' = Inr ls'"
                using R del c bs d e n dig v v' by (auto simp: Let_def bind_Inr_iff)
              have "goes ?l l'"
                using kept_dec_esc [OF v] dec_esc_ahead [OF v] d dig by (simp add: goes_def cur_is_def)
              with IH(4) [OF del c nl bs refl d e n _ v [symmetric] refl v' l] dig step goes_save [OF l(1)] show ?thesis
                by (auto intro: goes_trans)
            qed
          qed
        qed
      qed
    qed
  qed
qed

lemma save_while_ahead: "save_while K P ls = Inr ls' \<Longrightarrow> ahead ls' \<le> ahead ls"
proof (induction K P ls rule: save_while.induct)
  case (1 K P ls)
  show ?case
  proof (cases "cur_is P ls")
    case True
    then obtain l where l: "save_and_next K ls = Inr l" "save_while K P l = Inr ls'"
      using 1(2) by (subst (asm) save_while.simps) (auto simp: bind_Inr_iff)
    from 1(1) [OF True l] save_and_next_le [OF l(1)] show ?thesis by simp
  next
    case False
    then show ?thesis using 1(2) by (simp add: save_while.simps)
  qed
qed

lemma goes_save_while:
  "save_while K P ls = Inr ls' \<Longrightarrow> (\<And>c. P c \<Longrightarrow> \<not> is_newline c) \<Longrightarrow> goes ls ls'"
  by (simp add: goes_def kept_save_while save_while_ahead)

lemma goes_check_next:
  "check_next K s ls = Inr (b, ls') \<Longrightarrow> (\<And>c. c \<in> set s \<Longrightarrow> \<not> is_newline c) \<Longrightarrow> goes ls ls'"
  using kept_check_next [of K s ls b ls']
  by (auto simp: goes_def check_next_def bind_Inr_iff split: if_splits dest: save_and_next_le)

lemma goes_skip_sep: "skip_sep K ls = Inr (n, ls') \<Longrightarrow> current ls \<noteq> None \<Longrightarrow> \<not> currIsNewline ls \<Longrightarrow> goes ls ls'"
  using kept_skip_sep skip_sep_ahead by (fastforce simp: goes_def)

lemma goes_read_long_string:
  "read_long_string K sem sep ls = Inr (s, ls') \<Longrightarrow> sep \<ge> 0 \<Longrightarrow> \<not> currIsNewline ls \<Longrightarrow> goes ls ls'"
  by (simp add: goes_def kept_read_long_string read_long_string_ahead)

lemma goes_newstring: "luaX_newstring s ls = (t, ls') \<Longrightarrow> goes ls ls'"
  by (auto simp: luaX_newstring_def intro!: goes_same)

text \<open>\<open>takes ls ls'\<close>: at least one character has gone.\<close>

definition takes :: "LexState \<Rightarrow> LexState \<Rightarrow> bool" where
  "takes ls ls' \<longleftrightarrow> kept ls ls' \<and> ahead ls' < ahead ls"

lemma takes_trans:
  "takes a b \<Longrightarrow> goes b c \<Longrightarrow> takes a c" "goes a b \<Longrightarrow> takes b c \<Longrightarrow> takes a c"
  by (auto simp: goes_def takes_def intro: kept_trans)

lemma takes_goes: "takes a b \<Longrightarrow> goes a b"
  by (simp add: takes_def goes_def)

lemma takes_next: "current ls = Some c \<Longrightarrow> \<not> is_newline c \<Longrightarrow> takes ls (next_ch ls)"
  by (simp add: takes_def kept_next next_ahead currIsNewline_Some)

lemma takes_save_and_next:
  "save_and_next K ls = Inr ls' \<Longrightarrow> current ls = Some c \<Longrightarrow> \<not> is_newline c \<Longrightarrow> takes ls ls'"
  by (simp add: takes_def kept_save_and_next save_and_next_less currIsNewline_Some)

lemma takes_inc:
  "inclinenumber K ls = Inr ls' \<Longrightarrow> current ls = Some c \<Longrightarrow> is_newline c \<Longrightarrow> takes ls ls'"
  by (simp add: takes_def kept_inc inclinenumber_ahead currIsNewline_Some)

lemma takes_skip_sep:
  "skip_sep K ls = Inr (n, ls') \<Longrightarrow> current ls = Some c \<Longrightarrow> \<not> is_newline c \<Longrightarrow> takes ls ls'"
  by (simp add: takes_def kept_skip_sep skip_sep_ahead currIsNewline_Some)

lemma takes_read_string:
  assumes "read_string K c ls = Inr (s, ls')" "current ls = Some c" "\<not> is_newline c"
  shows "takes ls ls'"
proof -
  obtain l1 l2 l3 where l: "save_and_next K ls = Inr l1" "string_loop K c l1 = Inr l2" "save_and_next K l2 = Inr l3"
    "luaX_newstring (take (length (buff l3) - 2) (drop 1 (buff l3))) l3 = (s, ls')"
    using assms(1) by (auto simp: read_string_def bind_Inr_iff)
  have "goes l1 l2" "current l2 = Some c" using goes_string_loop [OF l(2)] by simp_all
  then show ?thesis
    using takes_save_and_next [OF l(1) assms(2,3)] takes_save_and_next [OF l(3) _ assms(3)] goes_newstring [OF l(4)]
    by (blast intro: takes_trans takes_goes)
qed

lemma goes_trydecpoint: "trydecpoint K ls = Inr (r, ls') \<Longrightarrow> goes ls ls'"
  by (auto simp: trydecpoint_def Let_def buffreplace_def intro!: goes_same split: option.splits)

lemma takes_read_numeral:
  assumes "read_numeral K ls = Inr (r, ls')" "current ls = Some c" "\<not> is_newline c"
  shows "takes ls ls'"
proof -
  obtain l1 l2 e l3 l4 l5 l6 where l: "save_and_next K ls = Inr l1"
    "save_while K (\<lambda>c. is_digit c \<or> c = CHR ''.'') l1 = Inr l2" "check_next K ''Ee'' l2 = Inr (e, l3)"
    "(if e then bind (check_next K ''+-'' l3) (\<lambda>(_, ls). Inr ls) else Inr l3) = Inr l4"
    "save_while K is_word l4 = Inr l5" "save K NUL l5 = Inr l6"
    and r: "(let l7 = buffreplace CHR ''.'' (decpoint l6) l6
       in case luaO_str2d K (cstr (buff l7)) of None \<Rightarrow> trydecpoint K l7 | Some r \<Rightarrow> Inr (r, l7)) = Inr (r, ls')"
    using assms(1) unfolding read_numeral_def by (auto simp: bind_Inr_iff)
  have g12: "goes l1 l2" using l(2) by (rule goes_save_while) (auto dest: is_digit_newline)
  have g23: "goes l2 l3" using l(3) by (rule goes_check_next) (auto simp: is_newline_def)
  have g34: "goes l3 l4"
    using l(4) by (auto simp: bind_Inr_iff is_newline_def split: if_splits intro!: goes_check_next)
  have g45: "goes l4 l5"
    using l(5) by (rule goes_save_while)
      (auto simp: is_word_def is_newline_def isalnum_def isalpha_def isupper_def islower_def isdigit_def)
  have g6: "goes l6 ls'"
  proof -
    have "goes l6 (buffreplace CHR ''.'' (decpoint l6) l6)" by (simp add: goes_same buffreplace_def)
    with r show ?thesis by (auto simp: Let_def split: option.splits intro: goes_trans goes_trydecpoint)
  qed
  note g = goes_trans [OF g12 goes_trans [OF g23 goes_trans [OF g34 goes_trans [OF g45
    goes_trans [OF goes_save [OF l(6)] g6]]]]]
  show ?thesis by (rule takes_trans(1) [OF takes_save_and_next [OF l(1) assms(2,3)] g])
qed

lemma goes_skip_line: "goes ls (skip_line ls)"
proof (induction ls rule: skip_line.induct)
  case (1 ls)
  show ?case
  proof (cases "cur_is (\<lambda>c. \<not> is_newline c) ls")
    case True
    then have "\<not> currIsNewline ls" by (auto simp: cur_is_def currIsNewline_def split: option.splits)
    with 1 [OF True] True show ?thesis
      by (subst skip_line.simps) (auto intro: goes_trans goes_next)
  qed (simp add: skip_line.simps)
qed

lemma goes_skip_comment:
  assumes "skip_comment K ls = Inr ls'"
  shows "goes ls ls'"
proof (cases "current ls = Some CHR ''[''")
  case True
  then obtain sep l where l: "skip_sep K ls = Inr (sep, l)"
    using assms by (auto simp: skip_comment_def bind_Inr_iff)
  have l1: "goes ls (reset_buffer l)" using takes_goes [OF takes_skip_sep [OF l True]] by simp
  show ?thesis
  proof (cases "sep \<ge> 0")
    case sep: True
    then obtain s l2 where l2: "read_long_string K False sep (reset_buffer l) = Inr (s, l2)" "ls' = reset_buffer l2"
      using assms True l by (auto simp: skip_comment_def bind_Inr_iff Let_def)
    have "\<not> currIsNewline (reset_buffer l)"
      using skip_sep_current [OF l sep] True by (simp add: currIsNewline_Some)
    from goes_read_long_string [OF l2(1) sep this] l1 show ?thesis by (auto simp: l2(2) intro: goes_trans)
  next
    case False
    then have "ls' = skip_line (reset_buffer l)" using assms True l by (simp add: skip_comment_def Let_def)
    then show ?thesis using l1 goes_skip_line by (blast intro: goes_trans)
  qed
qed (use assms goes_skip_line in \<open>auto simp: skip_comment_def\<close>)

section \<open>Tokens\<close>

definition tok_ok :: "int \<Rightarrow> SemInfo option \<Rightarrow> bool" where
  "tok_ok tk sem \<longleftrightarrow>
     (case sem of
        None \<Rightarrow> 0 \<le> tk \<and> tk < 256 \<or> FIRST_RESERVED \<le> tk \<and> tk \<le> TK_NE \<or> tk = TK_EOS
      | Some (SemR r) \<Rightarrow> tk = TK_NUMBER
      | Some (SemTS s) \<Rightarrow> tk = TK_NAME \<or> tk = TK_STRING)"

definition lexed_ok :: "LexState \<Rightarrow> int \<Rightarrow> SemInfo option \<Rightarrow> LexState \<Rightarrow> bool" where
  "lexed_ok ls tk sem ls' \<longleftrightarrow>
     tok_ok tk sem \<and> (if tk = TK_EOS then goes ls ls' \<and> current ls' = None else takes ls ls')"

lemma lexed_ok_takes: "takes ls ls' \<Longrightarrow> tok_ok tk sem \<Longrightarrow> tk \<noteq> TK_EOS \<Longrightarrow> lexed_ok ls tk sem ls'"
  by (simp add: lexed_ok_def)

lemma lexed_ok_trans: "goes a b \<Longrightarrow> lexed_ok b tk sem c \<Longrightarrow> lexed_ok a tk sem c"
  by (auto simp: lexed_ok_def intro: goes_trans takes_trans split: if_splits)

lemma tk_char_range: "0 \<le> tk_char c" "tk_char c < 256"
  using nat_of_char_less_256 [of c] by (simp_all only: tk_char_def)

lemma tk_char_ok [simp]: "tok_ok (tk_char c) None" "tk_char c \<noteq> TK_EOS"
  using tk_char_range [of c] by (simp_all add: tok_ok_def TK_EOS_def)

lemma luaX_init_le: "luaX_init s \<le> 21"
proof -
  have "mark_reserved i ws s \<le> i + length ws" for i ws
    by (induction i ws s rule: mark_reserved.induct) auto
  from this [of 0 "take NUM_RESERVED luaX_tokens"] show ?thesis
    by (simp add: luaX_init_def NUM_RESERVED_def)
qed

lemma lex_numeral_ok:
  "lex_numeral K ls = Inr (tk, sem, ls') \<Longrightarrow> current ls = Some c \<Longrightarrow> \<not> is_newline c \<Longrightarrow> lexed_ok ls tk sem ls'"
  by (auto simp: lex_numeral_def bind_Inr_iff tok_ok_def TK_defs intro!: lexed_ok_takes takes_read_numeral)

lemma one_or_eq_ok:
  assumes "one_or_eq c t ls = Inr (tk, sem, ls')" "current ls = Some c" "\<not> is_newline c" "FIRST_RESERVED \<le> t" "t \<le> TK_NE"
  shows "lexed_ok ls tk sem ls'"
proof -
  have t: "takes ls (next_ch ls)" using assms(2,3) by (rule takes_next)
  have "tok_ok t None" "t \<noteq> TK_EOS" using assms(4,5) by (auto simp: tok_ok_def TK_defs)
  moreover have "current (next_ch ls) = Some CHR ''='' \<Longrightarrow> takes ls (next_ch (next_ch ls))"
    using takes_trans(1) [OF t takes_goes [OF takes_next]] by simp
  ultimately show ?thesis
    using assms(1) t by (auto simp: one_or_eq_def Let_def split: if_splits intro!: lexed_ok_takes)
qed

lemma lex_bracket_ok:
  assumes "lex_bracket K ls = Inr (tk, sem, ls')" "current ls = Some CHR ''[''"
  shows "lexed_ok ls tk sem ls'"
proof -
  obtain sep l where l: "skip_sep K ls = Inr (sep, l)"
    using assms(1) by (auto simp: lex_bracket_def bind_Inr_iff)
  have t: "takes ls l" using takes_skip_sep [OF l assms(2)] by simp
  show ?thesis
  proof (cases "sep \<ge> 0")
    case True
    have "\<not> currIsNewline l" using skip_sep_current [OF l True] assms(2) by (simp add: currIsNewline_Some)
    then show ?thesis
      using assms(1) l True takes_trans(1) [OF t goes_read_long_string]
      by (auto simp: lex_bracket_def bind_Inr_iff tok_ok_def TK_defs intro!: lexed_ok_takes)
  next
    case False
    then show ?thesis
      using assms(1) l t by (auto simp: lex_bracket_def split: if_splits intro!: lexed_ok_takes)
  qed
qed

lemma goes_check_dot: "check_next K ''.'' ls = Inr (b, ls') \<Longrightarrow> goes ls ls'"
  by (rule goes_check_next) (auto simp: is_newline_def)

lemma lex_dot_ok:
  assumes "lex_dot K ls = Inr (tk, sem, ls')" "current ls = Some CHR ''.''"
  shows "lexed_ok ls tk sem ls'"
proof -
  obtain l1 d l2 where l: "save_and_next K ls = Inr l1" "check_next K ''.'' l1 = Inr (d, l2)"
    using assms(1) by (auto simp: lex_dot_def bind_Inr_iff)
  have t: "takes ls l2"
    using takes_trans(1) [OF takes_save_and_next [OF l(1) assms(2)] goes_check_dot [OF l(2)]] by simp
  have R: "(if d then bind (check_next K ''.'' l2) (\<lambda>(dot3, ls). Inr (if dot3 then TK_DOTS else TK_CONCAT, None, ls))
       else if \<not> cur_is is_digit l2 then Inr (tk_char CHR ''.'', None, l2) else lex_numeral K l2) = Inr (tk, sem, ls')"
    using assms(1) by (simp add: lex_dot_def l)
  show ?thesis
  proof (cases d)
    case True
    then obtain d3 where "check_next K ''.'' l2 = Inr (d3, ls')" and e: "tk = (if d3 then TK_DOTS else TK_CONCAT)" "sem = None"
      using R by (auto simp: bind_Inr_iff)
    then show ?thesis
      using takes_trans(1) [OF t goes_check_dot]
      by (intro lexed_ok_takes) (auto simp: tok_ok_def TK_defs)
  next
    case False
    show ?thesis
    proof (cases "cur_is is_digit l2")
      case True
      then obtain c where "current l2 = Some c" "\<not> is_newline c"
        by (auto simp: cur_is_def dest: is_digit_newline split: option.splits)
      then show ?thesis
        using R False True lexed_ok_trans [OF takes_goes [OF t] lex_numeral_ok] by auto
    next
      case F: False
      then show ?thesis using R False t by (auto intro!: lexed_ok_takes)
    qed
  qed
qed

lemma lex_name_ok:
  assumes "lex_name K ls = Inr (tk, sem, ls')" "current ls = Some c" "\<not> is_newline c"
  shows "lexed_ok ls tk sem ls'"
proof -
  obtain l1 l2 where l: "save_and_next K ls = Inr l1" "save_while K is_word l1 = Inr l2"
    using assms(1) by (auto simp: lex_name_def bind_Inr_iff)
  have "goes l1 l2"
    using l(2) by (rule goes_save_while)
      (auto simp: is_word_def is_newline_def isalnum_def isalpha_def isupper_def islower_def isdigit_def)
  then have "takes ls (l2\<lparr>anchored := a\<rparr>)" for a
    using takes_trans(1) [OF takes_save_and_next [OF l(1) assms(2,3)] goes_trans [OF _ goes_same]] by simp
  then show ?thesis
    using assms(1) luaX_init_le [of "buff l2"]
    by (auto simp: lex_name_def l luaX_newstring_def tok_ok_def TK_defs intro!: lexed_ok_takes split: if_splits)
qed

lemma lex_default_ok:
  assumes "lex_default K c ls = Inr (tk, sem, ls')" "current ls = Some c" "\<not> is_newline c"
  shows "lexed_ok ls tk sem ls'"
  using assms lex_numeral_ok [OF _ assms(2,3)] lex_name_ok [OF _ assms(2,3)] takes_next [OF assms(2,3)]
  by (auto simp: lex_default_def split: if_splits intro!: lexed_ok_takes)

lemma lex_loop_ok: "lex_loop K ls = Inr (tk, sem, ls') \<Longrightarrow> lexed_ok ls tk sem ls'"
proof (induction K ls rule: lex_loop.induct)
  case (1 K ls)
  show ?case
  proof (cases "current ls")
    case None
    then have "tk = TK_EOS" "sem = None" "ls' = ls" using "1.prems" by (simp_all add: lex_loop.simps [of K ls])
    then show ?thesis using None by (simp add: lexed_ok_def tok_ok_def)
  next
    case c: (Some c)
    note R = "1.prems" [unfolded lex_loop.simps [of K ls] c option.case]
    show ?thesis
    proof (cases "is_newline c")
      case True
      then obtain l where l: "inclinenumber K ls = Inr l" "lex_loop K l = Inr (tk, sem, ls')"
        using R by (auto simp: bind_Inr_iff)
      from "1.IH"(1) [OF c True l] takes_goes [OF takes_inc [OF l(1) c True]] show ?thesis by (rule lexed_ok_trans [rotated])
    next
      case nl: False
      let ?l = "next_ch ls"
      have t: "takes ls ?l" by (rule takes_next [OF c nl])
      show ?thesis
      proof (cases "c = CHR ''-''")
        case m: True
        show ?thesis
        proof (cases "current ?l = Some CHR ''-''")
          case True
          then obtain l' where l: "skip_comment K (next_ch ?l) = Inr l'" "lex_loop K l' = Inr (tk, sem, ls')"
            using R nl m by (auto simp: Let_def bind_Inr_iff)
          have "goes ls l'"
            using goes_trans [OF takes_goes [OF t] goes_trans [OF takes_goes [OF takes_next [OF True]] goes_skip_comment [OF l(1)]]]
            by simp
          from lexed_ok_trans [OF this "1.IH"(2) [OF c nl m refl _ l]] True show ?thesis by simp
        next
          case False
          then show ?thesis using R nl m t by (auto simp: Let_def intro!: lexed_ok_takes)
        qed
      next
        case m: False
        consider "c = CHR ''[''" | "c = CHR ''=''" | "c = CHR ''<''" | "c = CHR ''>''" | "c = CHR ''~''"
          | "c = CHR 0x22 \<or> c = CHR 0x27" | "c = CHR ''.''"
          | "c \<notin> set ''[=<>~.'' \<union> {CHR 0x22, CHR 0x27}" "isspace (uchar c)"
          | "c \<notin> set ''[=<>~.'' \<union> {CHR 0x22, CHR 0x27}" "\<not> isspace (uchar c)"
          by auto
        then show ?thesis
        proof cases
          case 1 then show ?thesis using R c by (auto intro: lex_bracket_ok)
        next
          case 2 then show ?thesis using R c by (auto intro!: one_or_eq_ok simp: TK_defs)
        next
          case 3 then show ?thesis using R c by (auto intro!: one_or_eq_ok simp: TK_defs)
        next
          case 4 then show ?thesis using R c by (auto intro!: one_or_eq_ok simp: TK_defs)
        next
          case 5 then show ?thesis using R c by (auto intro!: one_or_eq_ok simp: TK_defs)
        next
          case 6
          then have "bind (read_string K c ls) (\<lambda>(s, l). Inr (TK_STRING, Some (SemTS s), l)) = Inr (tk, sem, ls')"
            using R nl m by auto
          then show ?thesis
            by (auto simp: bind_Inr_iff tok_ok_def TK_defs intro!: lexed_ok_takes takes_read_string [OF _ c nl])
        next
          case 7 then show ?thesis using R c by (auto intro: lex_dot_ok)
        next
          case 8
          then have "lex_loop K ?l = Inr (tk, sem, ls')" using R nl m by auto
          then have "lexed_ok ?l tk sem ls'" using "1.IH"(3) [OF c nl m] 8 by auto
          then show ?thesis by (rule lexed_ok_trans [OF takes_goes [OF t]])
        next
          case 9
          then show ?thesis using R nl m c by (auto intro: lex_default_ok)
        qed
      qed
    qed
  qed
qed

lemma llex_ok: "llex K ls = Inr (tk, sem, ls') \<Longrightarrow> lexed_ok (reset_buffer ls) tk sem ls'"
  unfolding llex_def by (rule lex_loop_ok)

text \<open>The tokens of the whole input, by repeated calls of \<open>llex\<close>.\<close>

function lex_run :: "lexlib \<Rightarrow> LexState \<Rightarrow> ((int \<times> SemInfo option) list \<times> LexState) result" where
  "lex_run K ls =
     bind (llex K ls) (\<lambda>(tk, sem, l).
       if tk = TK_EOS then Inr ([], l) else bind (lex_run K l) (\<lambda>(ts, l'). Inr ((tk, sem) # ts, l')))"
  by pat_completeness auto
termination
  by (relation "measure (\<lambda>(K, ls). ahead ls)") (auto dest!: llex_ok simp: lexed_ok_def takes_def)

declare lex_run.simps [simp del]

lemma lex_run_ok:
  "lex_run K ls = Inr (ts, ls') \<Longrightarrow> goes ls ls' \<and> current ls' = None \<and> (\<forall>(tk, sem) \<in> set ts. tok_ok tk sem \<and> tk \<noteq> TK_EOS)"
proof (induction K ls arbitrary: ts rule: lex_run.induct)
  case (1 K ls)
  obtain tk sem l where l: "llex K ls = Inr (tk, sem, l)"
    using "1.prems" by (subst (asm) lex_run.simps) (auto simp: bind_Inr_iff)
  have ok: "lexed_ok (reset_buffer ls) tk sem l" by (rule llex_ok [OF l])
  show ?case
  proof (cases "tk = TK_EOS")
    case True
    then show ?thesis
      using "1.prems" ok by (subst (asm) lex_run.simps) (auto simp: l lexed_ok_def)
  next
    case False
    then obtain ts' where t: "lex_run K l = Inr (ts', ls')" "ts = (tk, sem) # ts'"
      using "1.prems" by (subst (asm) lex_run.simps) (auto simp: l bind_Inr_iff)
    from "1.IH" [OF l _ _ False t(1)] ok False show ?thesis
      using takes_goes [of "reset_buffer ls" l]
      by (auto simp: t(2) lexed_ok_def intro: goes_trans)
  qed
qed

section \<open>Errors\<close>

definition lexical :: "'a result \<Rightarrow> bool" where
  "lexical r \<longleftrightarrow> (\<forall>st m. r = Inl (LuaError st m) \<longrightarrow> st = ERRSYNTAX \<or> st = ERRMEM)"

lemma lexical_Inr [simp]: "lexical (Inr x)"
  by (simp add: lexical_def)

lemma lexical_bind: "lexical m \<Longrightarrow> (\<And>x. m = Inr x \<Longrightarrow> lexical (f x)) \<Longrightarrow> lexical (bind m f)"
  by (cases m) (auto simp: lexical_def)

lemma lexical_bind_iff: "lexical (bind m f) \<longleftrightarrow> lexical m \<and> (\<forall>x. m = Inr x \<longrightarrow> lexical (f x))"
  by (cases m) (auto simp: lexical_def)

lemma lexical_if: "lexical (if b then x else y) \<longleftrightarrow> (if b then lexical x else lexical y)"
  by simp

lemmas lexical_simps = lexical_bind_iff lexical_if Let_def

lemma lexical_save [simp]: "lexical (save K c ls)"
  by (auto simp: save_def lexical_def bind_Inl_iff lexerror_0_def resizebuffer_def split: if_splits)

lemma lexical_save_and_next [simp]: "lexical (save_and_next K ls)"
  by (simp add: save_and_next_def lexical_bind)

lemma lexical_lexerror [simp]: "lexical (luaX_lexerror K ls msg tk)" "lexical (luaX_syntaxerror K ls msg)"
proof -
  show "lexical (luaX_lexerror K ls msg tk)" for tk
    unfolding luaX_lexerror_def
    by (auto simp: lexerror_0_def txtToken_def intro!: lexical_bind) (auto simp: lexical_def)
  then show "lexical (luaX_syntaxerror K ls msg)" by (simp add: luaX_syntaxerror_def)
qed

lemma lexical_inclinenumber [simp]: "lexical (inclinenumber K ls)"
  by (simp add: inclinenumber_def Let_def)

lemma lexical_check_next [simp]: "lexical (check_next K s ls)"
  by (simp add: check_next_def lexical_bind)

lemma lexical_save_while [simp]: "lexical (save_while K P ls)"
proof (induction K P ls rule: save_while.induct)
  case (1 K P ls)
  then show ?case by (subst save_while.simps) (auto intro!: lexical_bind)
qed

lemma lexical_sep_loop [simp]: "lexical (sep_loop K n ls)"
proof (induction K n ls rule: sep_loop.induct)
  case (1 K n ls)
  then show ?case by (subst sep_loop.simps) (auto intro!: lexical_bind)
qed

lemma lexical_skip_sep [simp]: "lexical (skip_sep K ls)"
  by (auto simp: skip_sep_def Let_def intro!: lexical_bind)

lemma lexical_long_loop [simp]: "lexical (long_loop K sem sep ls)"
proof (induction "ahead ls" arbitrary: sem ls rule: less_induct)
  case less
  show ?case
    by (subst long_loop.simps)
      (auto simp: lexical_simps next_ahead save_and_next_less intro!: less
        dest!: skip_sep_ahead inclinenumber_ahead save_ahead dest: save_and_next_le split: option.split)
qed

lemma lexical_read_long_string [simp]: "lexical (read_long_string K sem sep ls)"
  by (simp add: read_long_string_def lexical_simps)

lemma lexical_string_loop [simp]: "lexical (string_loop K del ls)"
proof (induction "ahead ls" arbitrary: ls rule: less_induct)
  case less
  let ?l = "next_ch ls"
  show ?case
  proof (cases "current ls")
    case (Some c)
    have l: "ahead ?l < ahead ls" using next_ahead [of ls] Some by simp
    have IH: "lexical (string_loop K del l)" if "ahead l \<le> ahead ?l" for l
      using less l that by simp
    have esc: "lexical (string_loop K del (next_ch x))" if "save K e ?l = Inr x" for e x
      using save_ahead [OF that] next_ahead_le [of x] by (intro IH) simp
    have nl: "lexical (string_loop K del y)" if "save K e ?l = Inr x" "inclinenumber K x = Inr y" "current ?l = Some d" for e x y d
      using save_ahead [OF that(1)] inclinenumber_ahead [OF that(2)] that(3) by (intro IH) simp
    have sn: "lexical (string_loop K del x)" if "save_and_next K ?l = Inr x" for x
      using save_and_next_le [OF that] by (intro IH) simp
    have dg: "lexical (string_loop K del x)" if "dec_esc 3 0 ?l = (v, y)" "save K e y = Inr x" for x y v e
      using dec_esc_ahead [OF that(1)] save_ahead [OF that(2)] by (intro IH) simp
    have pl: "lexical (string_loop K del x)" if "save_and_next K ls = Inr x" for x
      using save_and_next_less [OF that] Some by (intro less) simp
    show ?thesis
      by (subst string_loop.simps)
        (auto simp: lexical_simps Some IH pl esc nl sn dg split: option.split prod.split)
  qed (simp add: string_loop.simps)
qed

lemma lexical_read_numeral [simp]: "lexical (read_numeral K ls)"
  by (simp add: read_numeral_def trydecpoint_def lexical_simps split: option.split prod.split)

lemma lexical_read_string [simp]: "lexical (read_string K c ls)"
  by (simp add: read_string_def lexical_simps)

lemma lexical_lex_cases [simp]:
  "lexical (lex_numeral K ls)" "lexical (lex_bracket K ls)" "lexical (lex_dot K ls)" "lexical (lex_name K ls)"
  "lexical (one_or_eq c tk ls)" "lexical (skip_comment K ls)"
  by (simp_all add: lex_numeral_def lex_bracket_def lex_dot_def lex_name_def one_or_eq_def
    skip_comment_def luaX_newstring_def lexical_simps split: prod.split)

lemma lexical_lex_loop: "lexical (lex_loop K ls)"
proof (induction "ahead ls" arbitrary: ls rule: less_induct)
  case less
  let ?l = "next_ch ls"
  show ?case
  proof (cases "current ls")
    case (Some c)
    have l: "ahead ?l < ahead ls" using next_ahead [of ls] Some by simp
    have nl: "lexical (lex_loop K x)" if "inclinenumber K ls = Inr x" for x
      using inclinenumber_ahead [OF that] Some by (intro less) simp
    have co: "lexical (lex_loop K x)" if "skip_comment K (next_ch ?l) = Inr x" for x
      using skip_comment_ahead [OF that] next_ahead_le [of ?l] l by (intro less) simp
    show ?thesis
      by (subst lex_loop.simps)
        (simp add: lexical_simps Some nl co less l lex_default_def split: option.split prod.split)
  qed (simp add: lex_loop.simps)
qed

section \<open>The analyser\<close>

text \<open>
  C25: \<open>llex\<close> ends on every input: it raises a syntax error or a memory error, or it gives a token
  of the right kind with its value, and every token but the end of the stream takes some input, so
  that a parser which calls it until the end comes to an end.
\<close>

theorem llex_answers:
  "case llex K ls of
     Inl (LuaError st msg) \<Rightarrow> st \<in> {ERRSYNTAX, ERRMEM}
   | Inr (tk, sem, ls') \<Rightarrow>
       tok_ok tk sem \<and> (if tk = TK_EOS then current ls' = None else ahead ls' < ahead ls)"
proof (cases "llex K ls")
  case (Inl e)
  then show ?thesis
    using lexical_lex_loop [of K "reset_buffer ls"] by (cases e) (auto simp: llex_def lexical_def)
next
  case (Inr r)
  then show ?thesis
    using llex_ok [of K ls] by (cases r) (auto simp: lexed_ok_def takes_def)
qed

lemma setinput_text:
  assumes "luaX_setinput K l0 z name = Inr ls" "z_ok z"
  shows "lex_ok ls" "ltext ls = zbytes z" "linenumber ls = 1"
  using assms next_text_z
  by (auto simp: luaX_setinput_def resizebuffer_def Let_def next_line split: if_splits)

text \<open>
  C24: the line counter is right at the end of every chunk that has been read: one more than the number of line
  breaks in it, where a line feed with a carriage return on either side of it is one break. So
  it is in comments, in long strings, and in short strings with escaped breaks.
\<close>

theorem lexer_counts_lines:
  assumes "luaX_setinput K l0 z name = Inr ls" and "z_ok z" and "lex_run K ls = Inr (ts, ls')"
  shows "linenumber ls' = 1 + breaks (zbytes z)"
proof -
  note i = setinput_text [OF assms(1,2)]
  have "kept ls ls'" "current ls' = None"
    using lex_run_ok [OF assms(3)] by (simp_all add: goes_def)
  then show ?thesis
    using i by (simp add: kept_def ltext_def)
qed

definition plain_lib :: lexlib where
  "plain_lib = \<lparr>c_room = (\<lambda>n. True), c_strtod = (\<lambda>s. (0, 0)), c_strtoul16 = (\<lambda>s. (0, 0)), c_decimal_point = None\<rparr>"

definition start_state :: LexState where
  "start_state = \<lparr>current = None, linenumber = 0, lastline = 0, tok = \<lparr>token = 0, seminfo = None\<rparr>,
     lookahead = \<lparr>token = 0, seminfo = None\<rparr>, zio = luaZ_init [], buff = [], buffsize = 0, lsource = [],
     decpoint = CHR ''.'', anchored = []\<rparr>"

definition sample_chunk :: bytes where
  "sample_chunk = ''x = --[[a'' @ [CHR 0x0D, CHR 0x0A] @ '']] '' @ [CHR 0x22, CHR 0x5C, CHR 0x0A, CHR 0x22]"

lemma lexer_counts_lines_witness:
  "\<exists>ls ts ls'. luaX_setinput plain_lib start_state (luaZ_init [sample_chunk]) ''=x'' = Inr ls \<and>
     lex_run plain_lib ls = Inr (ts, ls') \<and>
     ts = [(TK_NAME, Some (SemTS ''x'')), (61, None), (TK_STRING, Some (SemTS [CHR 0x0A]))] \<and>
     linenumber ls' = 3"
proof -
  define r where "r = bind (luaX_setinput plain_lib start_state (luaZ_init [sample_chunk]) ''=x'') (lex_run plain_lib)"
  have r: "map_sum id fst r = Inr [(TK_NAME, Some (SemTS ''x'')), (61, None), (TK_STRING, Some (SemTS [CHR 0x0A]))]"
    unfolding r_def by code_simp
  obtain ts ls' where "r = Inr (ts, ls')" "ts = [(TK_NAME, Some (SemTS ''x'')), (61, None), (TK_STRING, Some (SemTS [CHR 0x0A]))]"
    using r by (cases r) auto
  moreover obtain ls where "luaX_setinput plain_lib start_state (luaZ_init [sample_chunk]) ''=x'' = Inr ls"
    "lex_run plain_lib ls = Inr (ts, ls')"
    using calculation(1) by (auto simp: r_def bind_Inr_iff)
  moreover have "z_ok (luaZ_init [sample_chunk])" by (simp add: z_ok_def luaZ_init_def sample_chunk_def)
  moreover have "breaks (zbytes (luaZ_init [sample_chunk])) = 2"
    by (simp add: zbytes_def luaZ_init_def sample_chunk_def is_newline_def)
  ultimately show ?thesis
    using lexer_counts_lines [of plain_lib start_state "luaZ_init [sample_chunk]" "''=x''" ls ts ls'] by auto
qed

section \<open>Zero bytes\<close>

lemma save_room:
  "length (buff ls) < buffsize ls \<Longrightarrow> save K c ls = Inr (ls\<lparr>buff := buff ls @ [c]\<rparr>)"
  by (simp add: save_def)

text \<open>
  C26: \<open>check_next\<close> asks \<open>strchr\<close> for the current character, which also finds the zero byte at the end of the
  set: a dot followed by a zero byte is read as the operator \<open>..\<close>, and the zero byte is swallowed.
\<close>

theorem nul_read_as_dot:
  assumes "lex_ok ls" and "ltext ls = CHR ''.'' # NUL # c # s" and "c \<noteq> NUL" "c \<noteq> CHR ''.''" and "2 \<le> buffsize ls"
  shows "\<exists>ls'. llex K ls = Inr (TK_CONCAT, None, ls') \<and> ltext ls' = c # s"
proof -
  have cur: "current l = Some d" if "ltext l = d # u" for l d u
    using that by (auto simp: ltext_def split: option.splits)
  define l0 where "l0 = reset_buffer ls"
  define l1 where "l1 = next_ch (l0\<lparr>buff := [CHR ''.'']\<rparr>)"
  define l2 where "l2 = next_ch (l1\<lparr>buff := [CHR ''.'', NUL]\<rparr>)"
  have buff [simp]: "lex_ok (l\<lparr>buff := b\<rparr>) = lex_ok l" "ltext (l\<lparr>buff := b\<rparr>) = ltext l" "current (l\<lparr>buff := b\<rparr>) = current l" for l b
    by (simp_all add: lex_ok_def ltext_def cong: option.case_cong)
  have nb [simp]: "buff (next_ch l) = buff l" "buffsize (next_ch l) = buffsize l" for l
    by (simp_all add: next_ch_def split: prod.split)
  have l0: "lex_ok l0" "ltext l0 = CHR ''.'' # NUL # c # s" "buff l0 = []" "buffsize l0 = buffsize ls"
    using assms(1,2) by (simp_all add: l0_def reset_buffer_def)
  have l1: "lex_ok l1" "ltext l1 = NUL # c # s" "buff l1 = [CHR ''.'']" "buffsize l1 = buffsize ls"
    using next_text [of "l0\<lparr>buff := [CHR ''.'']\<rparr>"] l0 by (simp_all add: l1_def)
  have l2: "lex_ok l2" "ltext l2 = c # s" "buff l2 = [CHR ''.'', NUL]" "buffsize l2 = buffsize ls"
    using next_text [of "l1\<lparr>buff := [CHR ''.'', NUL]\<rparr>"] l1 by (simp_all add: l2_def)
  note curs = cur [OF l0(2)] cur [OF l1(2)] cur [OF l2(2)]
  have s0: "save_and_next K l0 = Inr l1"
    using assms(5) l0 by (simp add: save_and_next_def save_room curs cast_char_def l1_def)
  have s1: "save_and_next K l1 = Inr l2"
    using assms(5) l1 by (simp add: save_and_next_def save_room curs cast_char_def l2_def)
  have "lex_dot K l0 = Inr (TK_CONCAT, None, l2)"
    using assms(3,4) by (simp add: lex_dot_def s0 s1 check_next_def strchr_def curs cast_char_def)
  moreover have "lex_loop K l0 = lex_dot K l0"
    by (subst lex_loop.simps) (simp add: curs)
  ultimately show ?thesis
    using l2(2) by (auto simp: llex_def l0_def)
qed

lemma nul_read_as_dot_witness:
  "\<exists>ls'. llex plain_lib (start_state\<lparr>current := Some CHR ''.'', buffsize := 32, zio := luaZ_init [NUL # ''a'']\<rparr>) =
     Inr (TK_CONCAT, None, ls') \<and> ltext ls' = ''a''"
  by (rule nul_read_as_dot)
    (simp_all add: lex_ok_def z_ok_def ltext_def zbytes_def luaZ_init_def start_state_def NUL_def)

end
