(* ===== verification/Lua_Format.thy ===== *)
theory Lua_Format
  imports Lua_StrLib Lua_Lex_Props
begin

text \<open>
  \<open>string.format\<close> of \<^verbatim>\<open>src/src/lstrlib.c\<close>. \<open>sprintf\<close> and the conversion of the arguments are
  parameters; each format specification is built as the code builds it. Then the contract of \<open>%q\<close>: the
  lexical analyser reads the quoted text back.
\<close>

section \<open>Format specifications\<close>

definition FLAGS :: bytes where "FLAGS = ''-+ #0''"

definition LUA_INTFRMLEN :: bytes where "LUA_INTFRMLEN = ''l''"

text \<open>\<open>sizeof\<close> of a literal counts its zero byte.\<close>

definition MAX_FORMAT :: nat where
  "MAX_FORMAT = (length FLAGS + 1) + (length LUA_INTFRMLEN + 1) + 10"

fun quote_char :: "char \<Rightarrow> bytes" where
  "quote_char c =
     (if c = CHR 0x22 \<or> c = CHR 0x5C \<or> c = CHR 0x0A then [CHR 0x5C, c]
      else if c = CHR 0x0D then [CHR 0x5C, CHR ''r'']
      else if c = NUL then [CHR 0x5C, CHR ''0'', CHR ''0'', CHR ''0'']
      else [c])"

definition addquoted :: "bytes \<Rightarrow> bytes" where
  "addquoted s = [CHR 0x22] @ concat (map quote_char s) @ [CHR 0x22]"

function skip_flags :: "bytes \<Rightarrow> nat \<Rightarrow> nat" where
  "skip_flags s p = (if rd s p \<noteq> NUL \<and> strchr FLAGS (rd s p) then skip_flags s (p + 1) else p)"
  by pat_completeness auto
termination by (relation "measure (\<lambda>(s, p). length s - p)") (auto simp: rd_def split: if_splits)

declare skip_flags.simps [simp del]

definition skip_digit :: "bytes \<Rightarrow> nat \<Rightarrow> nat" where
  "skip_digit s p = (if isdigit (uchar (rd s p)) then p + 1 else p)"

text \<open>The place of the conversion character and \<open>form\<close> up to it.\<close>

definition scanformat :: "bytes \<Rightarrow> nat \<Rightarrow> (nat \<times> bytes) result" where
  "scanformat s b =
     (let p = skip_flags s b
      in if p - b \<ge> length FLAGS + 1 then runerror ''invalid format (repeated flags)''
         else let p = skip_digit s (skip_digit s p);
                  p = (if rd s p = CHR ''.'' then skip_digit s (skip_digit s (p + 1)) else p)
              in if isdigit (uchar (rd s p)) then runerror ''invalid format (width or precision too long)''
                 else Inr (p, CHR ''%'' # map (rd s) [b..<p + 1]))"

definition addintlen :: "bytes \<Rightarrow> bytes" where
  "addintlen form = butlast form @ LUA_INTFRMLEN @ [last form]"

section \<open>The function\<close>

text \<open>
  The conversion of an argument to a number or a string, and \<open>sprintf\<close> with a number cast to \<open>int\<close>,
  \<open>long\<close> or \<open>unsigned long\<close>, with a \<open>double\<close>, and with a string.
\<close>

record 'a fmtlib =
  f_checknumber :: "'a \<Rightarrow> lua_Number result"
  f_checklstring :: "'a \<Rightarrow> bytes result"
  sprintf_int :: "bytes \<Rightarrow> lua_Number \<Rightarrow> bytes"
  sprintf_long :: "bytes \<Rightarrow> lua_Number \<Rightarrow> bytes"
  sprintf_ulong :: "bytes \<Rightarrow> lua_Number \<Rightarrow> bytes"
  sprintf_double :: "bytes \<Rightarrow> lua_Number \<Rightarrow> bytes"
  sprintf_str :: "bytes \<Rightarrow> bytes \<Rightarrow> bytes"

definition format_item :: "'a fmtlib \<Rightarrow> char \<Rightarrow> bytes \<Rightarrow> 'a \<Rightarrow> bytes result" where
  "format_item F c form a =
     (let num = (\<lambda>sp form. bind (f_checknumber F a) (\<lambda>n. Inr (cstr (sp form n))))
      in if c = CHR ''c'' then num (sprintf_int F) form
         else if c \<in> set ''di'' then num (sprintf_long F) (addintlen form)
         else if c \<in> set ''ouxX'' then num (sprintf_ulong F) (addintlen form)
         else if c \<in> set ''eEfgG'' then num (sprintf_double F) form
         else if c = CHR ''q'' then bind (f_checklstring F a) (\<lambda>s. Inr (addquoted s))
         else if c = CHR ''s'' then
           bind (f_checklstring F a) (\<lambda>s.
             if \<not> strchr form CHR ''.'' \<and> length s \<ge> 100 then Inr s
             else Inr (cstr (sprintf_str F form (cstr s))))
         else runerror (pushf (''invalid option '' @ LUA_QL ''%%%c'' @ '' to '' @ LUA_QL ''format'') [FChar c]))"

lemma skip_flags_le: "b \<le> skip_flags s b"
proof (induction s b rule: skip_flags.induct)
  case (1 s p)
  then show ?case by (subst skip_flags.simps) auto
qed

lemma skip_digit_le: "p \<le> skip_digit s p" "skip_digit s p \<le> p + 1"
  by (simp_all add: skip_digit_def)

lemma scanformat_place:
  assumes "scanformat s b = Inr (p, form)"
  shows "b \<le> p" "p \<le> b + 10" "length form = p - b + 2"
proof -
  let ?f = "skip_flags s b"
  let ?q = "skip_digit s (skip_digit s ?f)"
  let ?r = "if rd s ?q = CHR ''.'' then skip_digit s (skip_digit s (?q + 1)) else ?q"
  have r: "?f - b \<le> 5" "p = ?r" "form = CHR ''%'' # map (rd s) [b..<p + 1]"
    using assms by (auto simp: scanformat_def Let_def FLAGS_def split: if_splits)
  have q: "?f \<le> ?q" "?q \<le> ?f + 2"
    using skip_digit_le [where s = s and p = ?f] skip_digit_le [where s = s and p = "skip_digit s ?f"] by simp_all
  have "?q \<le> ?r" "?r \<le> ?q + 3"
    using skip_digit_le [where s = s and p = "?q + 1"]
      skip_digit_le [where s = s and p = "skip_digit s (?q + 1)"] by simp_all
  then show "b \<le> p" "p \<le> b + 10"
    using r q skip_flags_le [of b s] by simp_all
  then show "length form = p - b + 2" using r(3) by simp
qed

function format_loop :: "'a fmtlib \<Rightarrow> bytes \<Rightarrow> nat \<Rightarrow> 'a list \<Rightarrow> bytes \<Rightarrow> bytes result" where
  "format_loop F s i args b =
     (if i < length s then
        if rd s i \<noteq> L_ESC then format_loop F s (i + 1) args (b @ [rd s i])
        else if rd s (i + 1) = L_ESC then format_loop F s (i + 2) args (b @ [rd s (i + 1)])
        else (case args of
            [] \<Rightarrow> runerror ''no value''
          | a # args' \<Rightarrow>
              bind (scanformat s (i + 1)) (\<lambda>(p, form). bind (format_item F (rd s p) form a) (\<lambda>t.
                format_loop F s (p + 1) args' (b @ t))))
      else Inr b)"
  by pat_completeness auto
termination
  by (relation "measure (\<lambda>(F, s, i, args, b). length s - i)") (auto dest!: scanformat_place(1))

declare format_loop.simps [simp del]

definition str_format :: "'a fmtlib \<Rightarrow> bytes \<Rightarrow> 'a list \<Rightarrow> bytes result" where
  "str_format F s args = format_loop F s 0 args []"

section \<open>Bounds\<close>

text \<open>
  The specification built for \<open>sprintf\<close>, with the length modifier and the zero byte at its end, fits
  the buffer \<open>form\<close>, whatever the format string is.
\<close>

theorem format_spec_fits:
  assumes "scanformat s b = Inr (p, form)"
  shows "length form + 1 \<le> MAX_FORMAT \<and> length (addintlen form) + 1 \<le> MAX_FORMAT"
proof -
  have "p - b \<le> 10" using scanformat_place(2) [OF assms] by simp
  then show ?thesis
    using scanformat_place(3) [OF assms] by (simp add: addintlen_def MAX_FORMAT_def FLAGS_def LUA_INTFRMLEN_def)
qed

lemma format_spec_fits_witness:
  "scanformat ''%-+ #099.99d'' 1 = Inr (11, ''%-+ #099.99d'') \<and> length (addintlen ''%-+ #099.99d'') + 1 \<le> MAX_FORMAT"
proof -
  have "scanformat ''%-+ #099.99d'' 1 = Inr (11, ''%-+ #099.99d'')" by code_simp
  from this and format_spec_fits [OF this] show ?thesis by simp
qed

section \<open>Quoted strings are read back\<close>

text \<open>Room for \<open>n\<close> more characters in the token buffer.\<close>

definition roomy :: "lexlib \<Rightarrow> LexState \<Rightarrow> nat \<Rightarrow> bool" where
  "roomy K ls n \<longleftrightarrow> (\<forall>k. c_room K k) \<and> 0 < buffsize ls \<and> length (buff ls) \<le> buffsize ls \<and>
     int (length (buff ls) + n) \<le> MAX_SIZET div 2"

lemma save_roomy:
  assumes "roomy K ls (Suc n)"
  obtains ls' where "save K c ls = Inr ls'" "roomy K ls' n" "buff ls' = buff ls @ [c]" "current ls' = current ls"
    "zio ls' = zio ls" "linenumber ls' = linenumber ls"
proof (cases "length (buff ls) + 1 > buffsize ls")
  case True
  then have "buffsize ls = length (buff ls)" using assms by (simp add: roomy_def)
  then show ?thesis
    using assms True
    by (intro that [of "ls\<lparr>buffsize := buffsize ls * 2, buff := buff ls @ [c]\<rparr>"])
      (simp_all add: save_def resizebuffer_def roomy_def Suc_le_eq)
next
  case False
  then show ?thesis
    using assms by (intro that [of "ls\<lparr>buff := buff ls @ [c]\<rparr>"]) (simp_all add: save_def roomy_def)
qed

lemma text_same: "current ls' = current ls \<Longrightarrow> zio ls' = zio ls \<Longrightarrow> ltext ls' = ltext ls \<and> lex_ok ls' = lex_ok ls"
  by (simp add: ltext_def lex_ok_def cong: option.case_cong)

lemma current_text: "ltext ls = c # s \<Longrightarrow> current ls = Some c"
  by (auto simp: ltext_def split: option.splits)

lemma next_same [simp]: "buff (next_ch ls) = buff ls" "buffsize (next_ch ls) = buffsize ls"
    "roomy K (next_ch ls) n = roomy K ls n"
  by (simp_all add: roomy_def next_ch_def split: prod.split)

text \<open>\<open>reads K ls s t n\<close>: the buffer room, and the text \<open>s\<close> ahead.\<close>

definition reads :: "lexlib \<Rightarrow> LexState \<Rightarrow> bytes \<Rightarrow> nat \<Rightarrow> bool" where
  "reads K ls s n \<longleftrightarrow> lex_ok ls \<and> ltext ls = s \<and> roomy K ls n"

lemma reads_next: "reads K ls (c # s) n \<Longrightarrow> reads K (next_ch ls) s n"
  using next_text [of ls] by (simp add: reads_def)

lemma reads_save:
  assumes "reads K ls s (Suc n)"
  obtains ls' where "save K c ls = Inr ls'" "reads K ls' s n" "buff ls' = buff ls @ [c]" "linenumber ls' = linenumber ls"
proof -
  obtain ls' where ls': "save K c ls = Inr ls'" "roomy K ls' n" "buff ls' = buff ls @ [c]" "current ls' = current ls"
    "zio ls' = zio ls" "linenumber ls' = linenumber ls"
    by (rule save_roomy [of K ls n c]) (use assms in \<open>simp add: reads_def\<close>)
  show ?thesis
    by (rule that [OF ls'(1) _ ls'(3,6)]) (use assms text_same [OF ls'(4,5)] ls'(2) in \<open>simp add: reads_def\<close>)
qed

lemma reads_save_and_next:
  assumes "reads K ls (c # s) (Suc n)"
  obtains ls' where "save_and_next K ls = Inr ls'" "reads K ls' s n" "buff ls' = buff ls @ [c]"
    "linenumber ls' = linenumber ls"
proof -
  obtain l where l: "save K c ls = Inr l" "reads K l (c # s) n" "buff l = buff ls @ [c]" "linenumber l = linenumber ls"
    by (rule reads_save [OF assms])
  have "current ls = Some c" using assms current_text by (auto simp: reads_def)
  then show ?thesis
    using l reads_next [OF l(2)] by (intro that [of "next_ch l"]) (simp_all add: save_and_next_def cast_char_def next_line)
qed

lemma reads_current: "reads K ls (c # s) n \<Longrightarrow> current ls = Some c"
  using current_text by (auto simp: reads_def)

definition newlines :: "bytes \<Rightarrow> int" where
  "newlines s = int (count_list s CHR 0x0A)"

lemma reads_inc:
  assumes "reads K ls (CHR 0x0A # c # s) n" "\<not> is_newline c" "linenumber ls + 1 < MAX_INT"
  obtains ls' where "inclinenumber K ls = Inr ls'" "reads K ls' (c # s) n" "buff ls' = buff ls"
    "linenumber ls' = linenumber ls + 1"
proof -
  let ?l = "next_ch ls"
  have r: "reads K ?l (c # s) n" by (rule reads_next [OF assms(1)])
  have nl: "\<not> currIsNewline ?l"
    using reads_current [OF r] assms(2) by (simp add: currIsNewline_Some)
  let ?r = "?l\<lparr>linenumber := linenumber ls + 1\<rparr>"
  have "inclinenumber K ls = Inr ?r"
    using nl assms(3) by (simp add: inclinenumber_def Let_def next_line)
  moreover have "reads K ?r (c # s) n"
    using r text_same [of ?r ?l] by (simp add: reads_def roomy_def)
  ultimately show ?thesis by (rule that) simp_all
qed

text \<open>One quoted character: the scanner passes it and has the character in its buffer.\<close>

definition step_to :: "lexlib \<Rightarrow> LexState \<Rightarrow> char \<Rightarrow> bytes \<Rightarrow> nat \<Rightarrow> bool" where
  "step_to K ls c u n \<longleftrightarrow>
     (\<exists>l. string_loop K CHR 0x22 ls = string_loop K CHR 0x22 l \<and> reads K l u n \<and> buff l = buff ls @ [c] \<and>
       linenumber l = linenumber ls + newlines [c])"

lemma step_plain:
  assumes "reads K ls (c # u) (Suc n)" "c \<noteq> CHR 0x22" "c \<noteq> CHR 0x5C" "\<not> is_newline c"
  shows "step_to K ls c u n"
proof -
  obtain l where l: "save_and_next K ls = Inr l" "reads K l u n" "buff l = buff ls @ [c]" "linenumber l = linenumber ls"
    by (rule reads_save_and_next [OF assms(1)])
  have "string_loop K CHR 0x22 ls = string_loop K CHR 0x22 l"
    using assms(2-4) by (subst string_loop.simps) (simp add: reads_current [OF assms(1)] l(1))
  then show ?thesis
    using l assms(4) by (auto simp: step_to_def newlines_def is_newline_def)
qed

lemma step_escaped:
  assumes "reads K ls (CHR 0x5C # c # u) (Suc n)" "c = CHR 0x22 \<or> c = CHR 0x5C"
  shows "step_to K ls c u n"
proof -
  have r: "reads K (next_ch ls) (c # u) (Suc n)" by (rule reads_next [OF assms(1)])
  obtain l where l: "save_and_next K (next_ch ls) = Inr l" "reads K l u n" "buff l = buff ls @ [c]" "linenumber l = linenumber ls"
    by (rule reads_save_and_next [OF r]) (simp add: next_line)
  have "escape_char c = None" "\<not> is_newline c" "\<not> is_digit c"
    using assms(2) by (auto simp: escape_char_def is_newline_def is_digit_def isdigit_def)
  then have "string_loop K CHR 0x22 ls = string_loop K CHR 0x22 l"
    by (subst string_loop.simps) (simp add: reads_current [OF assms(1)] reads_current [OF r] l(1))
  then show ?thesis
    using l assms(2) by (auto simp: step_to_def newlines_def)
qed

lemma step_newline:
  assumes "reads K ls (CHR 0x5C # CHR 0x0A # h # u) (Suc n)" "\<not> is_newline h" "linenumber ls + 1 < MAX_INT"
  shows "step_to K ls CHR 0x0A (h # u) n"
proof -
  have r: "reads K (next_ch ls) (CHR 0x0A # h # u) (Suc n)" by (rule reads_next [OF assms(1)])
  obtain l where l: "save K CHR 0x0A (next_ch ls) = Inr l" "reads K l (CHR 0x0A # h # u) n"
    "buff l = buff ls @ [CHR 0x0A]" "linenumber l = linenumber ls"
    by (rule reads_save [OF r, of "CHR 0x0A"]) (simp add: next_line)
  obtain l2 where l2: "inclinenumber K l = Inr l2" "reads K l2 (h # u) n" "buff l2 = buff l" "linenumber l2 = linenumber l + 1"
    by (rule reads_inc [OF l(2) assms(2)]) (use assms(3) l(4) in simp)
  have "escape_char CHR 0x0A = None" "is_newline CHR 0x0A"
    by (simp_all add: escape_char_def is_newline_def)
  then have "string_loop K CHR 0x22 ls = string_loop K CHR 0x22 l2"
    by (subst string_loop.simps) (simp add: reads_current [OF assms(1)] reads_current [OF r] l(1) l2(1))
  then show ?thesis
    using l l2 by (auto simp: step_to_def newlines_def)
qed

lemma step_return:
  assumes "reads K ls (CHR 0x5C # CHR ''r'' # u) (Suc n)"
  shows "step_to K ls CHR 0x0D u n"
proof -
  have r: "reads K (next_ch ls) (CHR ''r'' # u) (Suc n)" by (rule reads_next [OF assms])
  obtain l where l: "save K CHR 0x0D (next_ch ls) = Inr l" "reads K l (CHR ''r'' # u) n"
    "buff l = buff ls @ [CHR 0x0D]" "linenumber l = linenumber ls"
    by (rule reads_save [OF r, of "CHR 0x0D"]) (simp add: next_line)
  have "string_loop K CHR 0x22 ls = string_loop K CHR 0x22 (next_ch l)"
    by (subst string_loop.simps)
      (simp add: reads_current [OF assms] reads_current [OF r] l(1) escape_char_def)
  then show ?thesis
    using l reads_next [OF l(2)] by (auto simp: step_to_def newlines_def next_line)
qed

lemma step_nul:
  assumes "reads K ls (CHR 0x5C # CHR ''0'' # CHR ''0'' # CHR ''0'' # u) (Suc n)"
  shows "step_to K ls NUL u n"
proof -
  let ?l1 = "next_ch ls" and ?l2 = "next_ch (next_ch ls)" and ?l3 = "next_ch (next_ch (next_ch ls))"
  let ?l4 = "next_ch ?l3"
  note r1 = reads_next [OF assms]
  note r2 = reads_next [OF r1]
  note r3 = reads_next [OF r2]
  note r4 = reads_next [OF r3]
  note cur = reads_current [OF r1] reads_current [OF r2] reads_current [OF r3]
  have zero: "is_digit CHR ''0''" "escape_char CHR ''0'' = None" "\<not> is_newline CHR ''0''"
    by (simp_all add: is_digit_def isdigit_def escape_char_def is_newline_def)
  have dig: "cur_is is_digit ?l2" "cur_is is_digit ?l3" by (simp_all add: cur_is_def cur zero(1))
  have d: "dec_esc 3 0 ?l1 = (0, ?l4)"
    by (simp add: numeral_3_eq_3 cur dig Let_def)
  obtain l where l: "save K NUL ?l4 = Inr l" "reads K l u n" "buff l = buff ls @ [NUL]" "linenumber l = linenumber ls"
    by (rule reads_save [OF r4, of NUL]) (simp add: next_line)
  have nul: "char_of (0 :: nat) = NUL" by code_simp
  have "string_loop K CHR 0x22 ls = string_loop K CHR 0x22 l"
    by (subst string_loop.simps) (simp add: reads_current [OF assms] cur zero d l(1) nul)
  then show ?thesis
    using l by (auto simp: step_to_def newlines_def NUL_def)
qed

lemma quote_step:
  assumes "reads K ls (quote_char c @ h # u) (Suc n)" "\<not> is_newline h" "linenumber ls + newlines [c] < MAX_INT"
  shows "step_to K ls c (h # u) n"
proof -
  consider "c = CHR 0x22 \<or> c = CHR 0x5C" | "c = CHR 0x0A" | "c = CHR 0x0D" | "c = NUL"
    | "c \<noteq> CHR 0x22" "c \<noteq> CHR 0x5C" "c \<noteq> NUL" "\<not> is_newline c"
    by (auto simp: is_newline_def)
  then show ?thesis
  proof cases
    case 1 then show ?thesis using assms(1) by (intro step_escaped) auto
  next
    case 2 then show ?thesis using assms by (auto simp: newlines_def intro!: step_newline)
  next
    case 3 then show ?thesis using assms(1) by (auto intro!: step_return)
  next
    case 4 then show ?thesis using assms(1) by (auto simp: NUL_def [symmetric] intro!: step_nul) (simp_all add: NUL_def)
  next
    case 5 then show ?thesis using assms(1) by (intro step_plain) (auto simp: is_newline_def)
  qed
qed

lemma quoted_head: "\<exists>h u. concat (map quote_char s) @ CHR 0x22 # r = h # u \<and> \<not> is_newline h"
  by (cases s) (auto simp: is_newline_def)

lemma string_loop_quoted:
  "reads K ls (concat (map quote_char s) @ CHR 0x22 # r) (length s + k) \<Longrightarrow>
   linenumber ls + newlines s < MAX_INT \<Longrightarrow>
   \<exists>l. string_loop K CHR 0x22 ls = Inr l \<and> reads K l (CHR 0x22 # r) k \<and> buff l = buff ls @ s \<and>
     linenumber l = linenumber ls + newlines s"
proof (induction s arbitrary: ls)
  case Nil
  then have "current ls = Some CHR 0x22" by (auto intro: reads_current)
  then show ?case
    using Nil by (simp add: string_loop.simps [of K "CHR 0x22" ls] newlines_def)
next
  case (Cons c s)
  obtain h u where h: "concat (map quote_char s) @ CHR 0x22 # r = h # u" "\<not> is_newline h"
    using quoted_head by blast
  have nn: "newlines (c # s) = newlines [c] + newlines s" "0 \<le> newlines s" "0 \<le> newlines [c]"
    by (simp_all add: newlines_def)
  have "step_to K ls c (h # u) (length s + k)"
    using Cons.prems nn by (intro quote_step [OF _ h(2)]) (simp_all add: h(1) del: quote_char.simps)
  then obtain l where l: "string_loop K CHR 0x22 ls = string_loop K CHR 0x22 l" "reads K l (h # u) (length s + k)"
    "buff l = buff ls @ [c]" "linenumber l = linenumber ls + newlines [c]"
    by (auto simp: step_to_def)
  show ?case
    using Cons.IH [of l] l(2-4) Cons.prems(2) nn by (auto simp: h(1) l(1) simp del: quote_char.simps)
qed

text \<open>
  C27: \<open>string.format\<close> promises of \<open>%q\<close> that the interpreter reads its result back: whatever bytes
  \<open>s\<close> holds, with quotes, escapes, line breaks and zero bytes, the analyser takes the quoted text, and no more, for a
  string token with the value \<open>s\<close>.
\<close>

theorem quoted_string_read_back:
  assumes "reads K (reset_buffer ls) (addquoted s @ r) (length s + 2)" and "linenumber ls + newlines s < MAX_INT"
  shows "\<exists>ls'. llex K ls = Inr (TK_STRING, Some (SemTS s), ls') \<and> ltext ls' = r \<and>
    linenumber ls' = linenumber ls + newlines s"
proof -
  let ?ls = "reset_buffer ls"
  let ?q = "concat (map quote_char s) @ CHR 0x22 # r"
  have r0: "reads K ?ls (CHR 0x22 # ?q) (Suc (length s + 1))"
    using assms(1) by (simp add: addquoted_def)
  obtain l1 where l1: "save_and_next K ?ls = Inr l1" "reads K l1 ?q (length s + 1)" "buff l1 = buff ?ls @ [CHR 0x22]"
    "linenumber l1 = linenumber ?ls"
    by (rule reads_save_and_next [OF r0])
  have ln: "linenumber ?ls = linenumber ls" "buff ?ls = []" by (simp_all add: reset_buffer_def)
  obtain l2 where l2: "string_loop K CHR 0x22 l1 = Inr l2" "reads K l2 (CHR 0x22 # r) 1" "buff l2 = buff l1 @ s"
    "linenumber l2 = linenumber l1 + newlines s"
    using string_loop_quoted [OF l1(2)] assms(2) l1(4) ln by auto
  have r2: "reads K l2 (CHR 0x22 # r) (Suc 0)" using l2(2) by simp
  obtain l3 where l3: "save_and_next K l2 = Inr l3" "reads K l3 r 0" "buff l3 = buff l2 @ [CHR 0x22]"
    "linenumber l3 = linenumber l2"
    by (rule reads_save_and_next [OF r2])
  have "read_string K CHR 0x22 ?ls = Inr (luaX_newstring s l3)"
    by (simp add: read_string_def l1(1) l2(1) l3(1) l3(3) l2(3) l1(3) ln)
  moreover have "current ls = Some CHR 0x22" using reads_current [OF r0] by simp
  ultimately have "llex K ls = Inr (TK_STRING, Some (SemTS s), l3\<lparr>anchored := anchored l3 @ [s]\<rparr>)"
    unfolding llex_def by (subst lex_loop.simps) (simp add: luaX_newstring_def is_newline_def)
  moreover have "ltext (l3\<lparr>anchored := anchored l3 @ [s]\<rparr>) = r"
    using text_same [of "l3\<lparr>anchored := anchored l3 @ [s]\<rparr>" l3] l3(2) by (simp add: reads_def)
  ultimately show ?thesis
    using l1 l2 l3 ln by simp
qed

lemma quoted_string_read_back_witness:
  "\<exists>ls'. llex plain_lib (start_state\<lparr>current := Some CHR 0x22, linenumber := 1, buffsize := 32,
        zio := luaZ_init [tl (addquoted [NUL, CHR 0x0A, CHR 0x22]) @ '';'']\<rparr>) =
      Inr (TK_STRING, Some (SemTS [NUL, CHR 0x0A, CHR 0x22]), ls') \<and> ltext ls' = '';'' \<and> linenumber ls' = 2"
  using quoted_string_read_back [of plain_lib "start_state\<lparr>current := Some CHR 0x22, linenumber := 1, buffsize := 32,
        zio := luaZ_init [tl (addquoted [NUL, CHR 0x0A, CHR 0x22]) @ '';'']\<rparr>" "[NUL, CHR 0x0A, CHR 0x22]" "'';''"]
  by (simp add: reads_def lex_ok_def z_ok_def ltext_def zbytes_def luaZ_init_def addquoted_def reset_buffer_def
    roomy_def plain_lib_def newlines_def NUL_def start_state_def)

end
