(* ===== verification/Lua_String.thy ===== *)
theory Lua_String
  imports Lua_Object "HOL-Library.Multiset"
begin

text \<open>
  The table of interned strings, \<^verbatim>\<open>src/src/lstring.c\<close>, and the part of the collector
  (\<^verbatim>\<open>src/src/lgc.c\<close>) that sweeps it. Strings live at addresses; a bucket is the chain of addresses
  from its head along \<open>next\<close>. The answers of the allocator are arguments: the address for a new
  string, and whether there is room for a new vector.
\<close>

section \<open>Colours\<close>

definition WHITEBITS :: u8 where "WHITEBITS = 3"

definition BLACKBIT :: nat where "BLACKBIT = 2"

definition FIXEDBIT :: nat where "FIXEDBIT = 5"

definition maskmarks :: u8 where "maskmarks = NOT (push_bit BLACKBIT 1 OR WHITEBITS)"

text \<open>A string with its header (the type tag and \<open>next\<close> aside).\<close>

record TString =
  marked :: u8
  reserved :: u8
  hashval :: u32
  chars :: bytes

text \<open>
  \<open>objects\<close> is the heap of strings, \<open>buckets\<close> the vector \<open>hash\<close> with its chains, \<open>sweeping\<close> the state
  \<open>GCSsweepstring\<close> of the collector.
\<close>

record strstate =
  objects :: "addr \<Rightarrow> TString option"
  buckets :: "addr list list"
  nuse :: u32
  currentwhite :: u8
  sweeping :: bool
  sweepstrgc :: nat

definition otherwhite :: "strstate \<Rightarrow> u8" where
  "otherwhite S = currentwhite S XOR WHITEBITS"

definition luaC_white :: "strstate \<Rightarrow> u8" where
  "luaC_white S = currentwhite S AND WHITEBITS"

definition isdead :: "strstate \<Rightarrow> TString \<Rightarrow> bool" where
  "isdead S t \<longleftrightarrow> marked t AND otherwhite S AND WHITEBITS \<noteq> 0"

definition changewhite :: "TString \<Rightarrow> TString" where
  "changewhite t = t\<lparr>marked := marked t XOR WHITEBITS\<rparr>"

definition makewhite :: "strstate \<Rightarrow> TString \<Rightarrow> TString" where
  "makewhite S t = t\<lparr>marked := (marked t AND maskmarks) OR luaC_white S\<rparr>"

definition luaS_fix :: "TString \<Rightarrow> TString" where
  "luaS_fix t = t\<lparr>marked := marked t OR push_bit FIXEDBIT 1\<rparr>"

section \<open>Interning\<close>

text \<open>The hash: not all bytes of a long string count.\<close>

function hash_loop :: "bytes \<Rightarrow> nat \<Rightarrow> nat \<Rightarrow> u32 \<Rightarrow> u32" where
  "hash_loop s step l1 h =
     (if 0 < step \<and> step \<le> l1
      then hash_loop s step (l1 - step) (h XOR (push_bit 5 h + drop_bit 2 h + of_nat (of_char (s ! (l1 - 1)))))
      else h)"
  by pat_completeness auto
termination by (relation "measure (\<lambda>(s, step, l1, h). l1)") auto

declare hash_loop.simps [simp del]

definition str_hash :: "bytes \<Rightarrow> u32" where
  "str_hash s = (let l = length s in hash_loop s (l div 32 + 1) l (of_nat l))"

definition lmod :: "u32 \<Rightarrow> nat \<Rightarrow> nat" where
  "lmod h n = unat (h AND (of_nat n - 1))"

definition obj_hash :: "(addr \<Rightarrow> TString option) \<Rightarrow> addr \<Rightarrow> u32" where
  "obj_hash H p = (case H p of None \<Rightarrow> 0 | Some t \<Rightarrow> hashval t)"

text \<open>The rehash: each node of a chain in turn becomes the head of its new chain.\<close>

fun relink :: "(addr \<Rightarrow> TString option) \<Rightarrow> addr list \<Rightarrow> addr list list \<Rightarrow> addr list list" where
  "relink H [] newhash = newhash"
| "relink H (p # ps) newhash =
     (let h1 = lmod (obj_hash H p) (length newhash)
      in relink H ps (newhash[h1 := p # newhash ! h1]))"

fun relink_all :: "(addr \<Rightarrow> TString option) \<Rightarrow> addr list list \<Rightarrow> addr list list \<Rightarrow> addr list list" where
  "relink_all H [] newhash = newhash"
| "relink_all H (b # bs) newhash = relink_all H bs (relink H b newhash)"

definition luaS_resize :: "bool \<Rightarrow> nat \<Rightarrow> strstate \<Rightarrow> strstate result" where
  "luaS_resize room newsize S =
     (if sweeping S then Inr S
      else if \<not> room then Inl (LuaError ERRMEM ''not enough memory'')
      else Inr (S\<lparr>buckets := relink_all (objects S) (buckets S) (replicate newsize [])\<rparr>))"

text \<open>\<open>sizeof(TString)\<close> on the 64-bit host.\<close>

definition sizeof_TString :: int where "sizeof_TString = 24"

definition chain_new :: "addr \<Rightarrow> TString \<Rightarrow> strstate \<Rightarrow> strstate" where
  "chain_new a ts S =
     (let h = lmod (hashval ts) (length (buckets S))
      in S\<lparr>objects := (objects S)(a \<mapsto> ts), buckets := (buckets S)[h := a # buckets S ! h], nuse := nuse S + 1\<rparr>)"

text \<open>The state comes back also with an error: a string whose insertion made the table grow is in the table
  when the growing fails.\<close>

definition newlstr :: "addr option \<Rightarrow> bool \<Rightarrow> bytes \<Rightarrow> u32 \<Rightarrow> strstate \<Rightarrow> strstate \<times> addr result" where
  "newlstr fresh room str h S =
     (if int (length str) + 1 > MAX_SIZET - sizeof_TString
      then (S, runerror ''memory allocation error: block too big'')
      else case fresh of
        None \<Rightarrow> (S, Inl (LuaError ERRMEM ''not enough memory''))
      | Some a \<Rightarrow>
          let S = chain_new a \<lparr>marked = luaC_white S, reserved = 0, hashval = h, chars = str\<rparr> S
          in if nuse S > of_nat (length (buckets S)) \<and> int (length (buckets S)) \<le> MAX_INT div 2
             then (case luaS_resize room (length (buckets S) * 2) S of Inl e \<Rightarrow> (S, Inl e) | Inr S' \<Rightarrow> (S', Inr a))
             else (S, Inr a))"

fun find_str :: "(addr \<Rightarrow> TString option) \<Rightarrow> bytes \<Rightarrow> addr list \<Rightarrow> (addr \<times> TString) option" where
  "find_str H str [] = None"
| "find_str H str (a # as) =
     (case H a of
        Some t \<Rightarrow> if length (chars t) = length str \<and> chars t = str then Some (a, t) else find_str H str as
      | None \<Rightarrow> find_str H str as)"

definition luaS_newlstr :: "addr option \<Rightarrow> bool \<Rightarrow> bytes \<Rightarrow> strstate \<Rightarrow> strstate \<times> addr result" where
  "luaS_newlstr fresh room str S =
     (let h = str_hash str
      in case find_str (objects S) str (buckets S ! lmod h (length (buckets S))) of
           Some (a, t) \<Rightarrow>
             (if isdead S t then S\<lparr>objects := (objects S)(a \<mapsto> changewhite t)\<rparr> else S, Inr a)
         | None \<Rightarrow> newlstr fresh room str h S)"

section \<open>Sweeping\<close>

text \<open>\<open>sweeplist\<close> on a chain of strings, and \<open>freeobj\<close> of a string.\<close>

definition freestr :: "addr \<Rightarrow> strstate \<Rightarrow> strstate" where
  "freestr a S = S\<lparr>nuse := nuse S - 1, objects := (objects S)(a := None)\<rparr>"

definition alive :: "strstate \<Rightarrow> TString \<Rightarrow> bool" where
  "alive S t \<longleftrightarrow> (marked t XOR WHITEBITS) AND otherwhite S \<noteq> 0"

fun sweeplist :: "addr list \<Rightarrow> strstate \<Rightarrow> addr list \<times> strstate" where
  "sweeplist [] S = ([], S)"
| "sweeplist (a # as) S =
     (case objects S a of
        None \<Rightarrow> sweeplist as S
      | Some t \<Rightarrow>
          if alive S t
          then let (r, S') = sweeplist as (S\<lparr>objects := (objects S)(a \<mapsto> makewhite S t)\<rparr>) in (a # r, S')
          else sweeplist as (freestr a S))"

definition sweep_bucket :: "nat \<Rightarrow> strstate \<Rightarrow> strstate" where
  "sweep_bucket i S =
     (let (c, S) = sweeplist (buckets S ! i) S in S\<lparr>buckets := (buckets S)[i := c]\<rparr>)"

text \<open>One step of the collector in the state \<open>GCSsweepstring\<close>.\<close>

definition sweep_step :: "strstate \<Rightarrow> strstate" where
  "sweep_step S =
     (let S = (sweep_bucket (sweepstrgc S) S)\<lparr>sweepstrgc := sweepstrgc S + 1\<rparr>
      in if sweepstrgc S \<ge> length (buckets S) then S\<lparr>sweeping := False\<rparr> else S)"

definition MINSTRTABSIZE :: nat where "MINSTRTABSIZE = 32"

definition checkSizes :: "bool \<Rightarrow> strstate \<Rightarrow> strstate result" where
  "checkSizes room S =
     (if nuse S < of_nat (length (buckets S) div 4) \<and> length (buckets S) > MINSTRTABSIZE * 2
      then luaS_resize room (length (buckets S) div 2) S
      else Inr S)"

end
