(* ===== verification/Lua_String_Props.thy ===== *)
theory Lua_String_Props
  imports Lua_String
begin

text \<open>
  What the string table promises: equal strings have one address, whatever the order of interning, sweeping
  and resizing, and a string handed out is not freed by the sweep that is under way.
\<close>

section \<open>Places\<close>

lemma lmod_power:
  assumes "k \<le> 30"
  shows "lmod h (2 ^ k) = unat h mod 2 ^ k"
proof -
  have "of_nat (2 ^ k) - 1 = (mask k :: u32)" by (simp add: mask_eq_exp_minus_1)
  then show ?thesis by (simp add: lmod_def unat_and_mask)
qed

lemma lmod_less: "k \<le> 30 \<Longrightarrow> lmod h (2 ^ k) < 2 ^ k"
  by (simp add: lmod_power)

definition placed :: "(addr \<Rightarrow> TString option) \<Rightarrow> addr list list \<Rightarrow> bool" where
  "placed H bs \<longleftrightarrow> (\<forall>i < length bs. \<forall>a \<in> set (bs ! i). lmod (obj_hash H a) (length bs) = i)"

lemma mset_push:
  "i < length xs \<Longrightarrow> mset (concat (xs[i := a # xs ! i])) = add_mset a (mset (concat xs))"
proof (induction xs arbitrary: i)
  case (Cons x xs)
  then show ?case by (cases i) auto
qed simp

lemma relink_spec:
  "length nh = 2 ^ k \<Longrightarrow> k \<le> 30 \<Longrightarrow>
   length (relink H ps nh) = length nh \<and> mset (concat (relink H ps nh)) = mset ps + mset (concat nh) \<and>
   (placed H nh \<longrightarrow> placed H (relink H ps nh))"
proof (induction ps arbitrary: nh)
  case (Cons p ps)
  let ?h = "lmod (obj_hash H p) (length nh)"
  let ?nh = "nh[?h := p # nh ! ?h]"
  have h: "?h < length nh" using Cons.prems lmod_less by simp
  have "placed H nh \<longrightarrow> placed H ?nh" using h by (auto simp: placed_def nth_list_update)
  then show ?case
    using Cons.IH [of ?nh] Cons.prems mset_push [OF h, of p] by (auto simp: Let_def)
qed simp

lemma relink_all_spec:
  "length nh = 2 ^ k \<Longrightarrow> k \<le> 30 \<Longrightarrow>
   length (relink_all H bs nh) = length nh \<and> mset (concat (relink_all H bs nh)) = mset (concat bs) + mset (concat nh) \<and>
   (placed H nh \<longrightarrow> placed H (relink_all H bs nh))"
proof (induction bs arbitrary: nh)
  case (Cons b bs)
  then show ?case using Cons.IH [of "relink H b nh"] relink_spec [OF Cons.prems, of H b] by auto
qed simp

section \<open>The invariant\<close>

definition interned :: "strstate \<Rightarrow> bool" where
  "interned S \<longleftrightarrow>
     distinct (concat (buckets S)) \<and> set (concat (buckets S)) = dom (objects S) \<and> placed (objects S) (buckets S) \<and>
     nuse S = of_nat (length (concat (buckets S)))"

definition one_each :: "(addr \<Rightarrow> TString option) \<Rightarrow> bool" where
  "one_each H \<longleftrightarrow> (\<forall>a t. H a = Some t \<longrightarrow> hashval t = str_hash (chars t)) \<and>
     (\<forall>a b t u. H a = Some t \<and> H b = Some u \<and> chars t = chars u \<longrightarrow> a = b)"

definition strt_ok :: "strstate \<Rightarrow> bool" where
  "strt_ok S \<longleftrightarrow> (\<exists>k \<le> 30. length (buckets S) = 2 ^ k) \<and> interned S \<and> one_each (objects S) \<and>
     bit (currentwhite S) 0 \<noteq> bit (currentwhite S) 1"

lemma strt_okE:
  assumes "strt_ok S"
  obtains k where "k \<le> 30" "length (buckets S) = 2 ^ k" "interned S" "one_each (objects S)"
    "bit (currentwhite S) 0 \<noteq> bit (currentwhite S) 1"
  using assms by (auto simp: strt_ok_def)

lemma interned_rehash:
  assumes "interned S" "2 ^ k = n" "k \<le> 30"
  shows "interned (S\<lparr>buckets := relink_all (objects S) (buckets S) (replicate n [])\<rparr>)"
proof -
  let ?nh = "replicate n [] :: addr list list"
  have nh: "length ?nh = 2 ^ k" "concat ?nh = []" using assms(2) by simp_all
  note r = relink_all_spec [OF nh(1) assms(3), of "objects S" "buckets S"]
  have m: "mset (concat (relink_all (objects S) (buckets S) ?nh)) = mset (concat (buckets S))"
    using r nh(2) by simp
  have "placed (objects S) (relink_all (objects S) (buckets S) ?nh)"
    using r by (simp add: placed_def [of _ ?nh])
  then show ?thesis
    using assms(1) m mset_eq_setD [OF m] mset_eq_length [OF m] mset_eq_imp_distinct_iff [OF m]
    by (simp add: interned_def)
qed

lemma str_resize_ok:
  assumes "luaS_resize room n S = Inr S'" "strt_ok S" "n = 2 ^ k" "k \<le> 30"
  shows "strt_ok S' \<and> objects S' = objects S \<and> currentwhite S' = currentwhite S"
proof -
  have "interned S" using assms(2) by (simp add: strt_ok_def)
  note i = interned_rehash [OF this assms(3) [symmetric] assms(4)]
  have "length (relink_all (objects S) (buckets S) (replicate n [])) = 2 ^ k"
    using relink_all_spec [of "replicate n []" k] assms(3,4) by simp
  then show ?thesis
    using assms i by (auto simp: luaS_resize_def strt_ok_def split: if_splits)
qed

section \<open>Colours\<close>

lemma and_3: "x AND y AND 3 \<noteq> 0 \<longleftrightarrow> bit x 0 \<and> bit y 0 \<or> bit x 1 \<and> bit y 1" for x y :: u8
proof -
  have b3: "bit (3 :: u8) n \<longleftrightarrow> n = 0 \<or> n = 1" for n
  proof -
    have "bit (mask 2 :: u8) n \<longleftrightarrow> n < 2" by (auto simp: bit_mask_iff)
    then show ?thesis by (auto simp: mask_eq_exp_minus_1)
  qed
  have "x AND y AND 3 \<noteq> 0 \<longleftrightarrow> (\<exists>n. bit (x AND y AND 3) n)"
    by (metis bit_0_eq bit_eqI bot_apply bot_bool_def)
  then show ?thesis unfolding bit_and_iff b3 by auto
qed

lemma xor_3: "bit (x XOR 3) n \<longleftrightarrow> bit x n \<noteq> (n = 0 \<or> n = 1)" if "n < 8" for x :: u8
proof -
  have "bit (mask 2 :: u8) n \<longleftrightarrow> n < 2" using that by (simp add: bit_mask_iff)
  then have "bit (3 :: u8) n \<longleftrightarrow> n = 0 \<or> n = 1" by (auto simp: mask_eq_exp_minus_1)
  then show ?thesis by (simp only: bit_xor_iff)
qed

text \<open>The bit of the white that is dead in this cycle.\<close>

definition dead_bit :: "strstate \<Rightarrow> nat" where
  "dead_bit S = (if bit (currentwhite S) 0 then 1 else 0)"

lemma isdead_bit:
  "bit (currentwhite S) 0 \<noteq> bit (currentwhite S) 1 \<Longrightarrow> isdead S t \<longleftrightarrow> bit (marked t) (dead_bit S)"
  unfolding isdead_def otherwhite_def WHITEBITS_def and_3 by (auto simp: xor_3 dead_bit_def)

lemma changewhite_alive:
  "bit (currentwhite S) 0 \<noteq> bit (currentwhite S) 1 \<Longrightarrow> isdead S t \<Longrightarrow> \<not> isdead S (changewhite t)"
  by (auto simp: isdead_bit changewhite_def WHITEBITS_def xor_3 dead_bit_def)

lemma alive_not_dead:
  assumes "bit (currentwhite S) 0 \<noteq> bit (currentwhite S) 1" "\<not> isdead S t"
  shows "alive S t"
proof -
  have "bit ((marked t XOR WHITEBITS) AND otherwhite S) (dead_bit S)"
    using assms by (auto simp: isdead_bit otherwhite_def WHITEBITS_def bit_and_iff xor_3 dead_bit_def)
  then show ?thesis by (auto simp: alive_def)
qed

lemma makewhite_not_dead:
  assumes "bit (currentwhite S) 0 \<noteq> bit (currentwhite S) 1"
  shows "\<not> isdead S (makewhite S t)"
proof -
  have m: "\<not> bit maskmarks 0" "\<not> bit maskmarks 1"
    by (simp_all add: maskmarks_def BLACKBIT_def WHITEBITS_def)
  have w: "bit (luaC_white S) (dead_bit S) = False"
    using assms by (auto simp: luaC_white_def bit_and_iff dead_bit_def)
  show ?thesis
    using m w assms by (auto simp: isdead_bit makewhite_def bit_or_iff bit_and_iff dead_bit_def split: if_splits)
qed

lemma new_not_dead:
  assumes "bit (currentwhite S) 0 \<noteq> bit (currentwhite S) 1" "marked t = luaC_white S"
  shows "\<not> isdead S t"
  using assms by (auto simp: isdead_bit luaC_white_def bit_and_iff dead_bit_def)

lemma isdead_cong: "currentwhite S' = currentwhite S \<Longrightarrow> isdead S' t = isdead S t"
  by (simp add: isdead_def otherwhite_def)

section \<open>Interning\<close>

lemma find_str_Some: "find_str H str as = Some (a, t) \<Longrightarrow> H a = Some t \<and> chars t = str \<and> a \<in> set as"
  by (induction as) (auto split: option.splits if_splits)

lemma find_str_None: "find_str H str as = None \<Longrightarrow> a \<in> set as \<Longrightarrow> H a = Some t \<Longrightarrow> chars t \<noteq> str"
  by (induction as) (auto split: option.splits if_splits)

text \<open>A string of the heap is in the bucket of its hash.\<close>

lemma in_bucket:
  assumes "strt_ok S" "objects S a = Some t"
  shows "a \<in> set (buckets S ! lmod (str_hash (chars t)) (length (buckets S)))"
proof -
  have i: "interned S" "one_each (objects S)" using assms(1) by (simp_all add: strt_ok_def)
  then have "a \<in> set (concat (buckets S))" using assms(2) by (auto simp: interned_def)
  then obtain b where "b \<in> set (buckets S)" "a \<in> set b" by auto
  then obtain j where j: "j < length (buckets S)" "a \<in> set (buckets S ! j)"
    by (auto simp only: in_set_conv_nth [of b])
  moreover have "lmod (obj_hash (objects S) a) (length (buckets S)) = j"
    using i(1) j by (auto simp: interned_def placed_def)
  ultimately show ?thesis
    using i(2) assms(2) by (auto simp: obj_hash_def one_each_def)
qed

lemma one_each_sub:
  assumes "one_each H" and sub: "\<And>b v. H' b = Some v \<Longrightarrow> \<exists>w. H b = Some w \<and> chars w = chars v \<and> hashval w = hashval v"
  shows "one_each H'"
  unfolding one_each_def
proof (intro conjI allI impI)
  fix a t assume "H' a = Some t"
  from sub [OF this] assms(1) show "hashval t = str_hash (chars t)" by (auto simp: one_each_def)
next
  fix a b t u assume H: "H' a = Some t \<and> H' b = Some u \<and> chars t = chars u"
  obtain v w where v: "H a = Some v" "H b = Some w" "chars v = chars w"
    using sub [of a t] sub [of b u] H by auto
  with assms(1) show "a = b" by (auto simp: one_each_def)
qed

lemma recolour_ok:
  assumes "strt_ok S" "objects S a = Some t" "chars u = chars t" "hashval u = hashval t"
  shows "strt_ok (S\<lparr>objects := (objects S)(a \<mapsto> u)\<rparr>)"
proof -
  have h: "obj_hash ((objects S)(a \<mapsto> u)) = obj_hash (objects S)"
    using assms by (auto simp: obj_hash_def fun_eq_iff)
  have "interned (S\<lparr>objects := (objects S)(a \<mapsto> u)\<rparr>)"
    using assms(1,2) by (auto simp: strt_ok_def interned_def placed_def h)
  moreover have "one_each ((objects S)(a \<mapsto> u))"
  proof (rule one_each_sub)
    show "one_each (objects S)" using assms(1) by (simp add: strt_ok_def)
  qed (use assms in \<open>auto split: if_splits\<close>)
  ultimately show ?thesis using assms(1) by (simp add: strt_ok_def)
qed

lemma insert_ok:
  assumes ok: "strt_ok S" and fresh: "objects S a = None" and new: "\<And>b u. objects S b = Some u \<Longrightarrow> chars u \<noteq> chars t"
    and h: "hashval t = str_hash (chars t)"
  shows "strt_ok (chain_new a t S)"
proof -
  define i where "i = lmod (hashval t) (length (buckets S))"
  let ?S = "S\<lparr>objects := (objects S)(a \<mapsto> t), buckets := (buckets S)[i := a # buckets S ! i], nuse := nuse S + 1\<rparr>"
  have S: "chain_new a t S = ?S" by (simp add: chain_new_def Let_def i_def)
  obtain k where k: "k \<le> 30" "length (buckets S) = 2 ^ k" "interned S" "one_each (objects S)"
    "bit (currentwhite S) 0 \<noteq> bit (currentwhite S) 1"
    by (rule strt_okE [OF ok])
  have i: "i < length (buckets S)" using lmod_less k by (simp add: i_def)
  have m: "mset (concat (buckets ?S)) = add_mset a (mset (concat (buckets S)))"
    using mset_push [OF i, of a] by simp
  have na: "a \<notin> set (concat (buckets S))" using k(3) fresh by (auto simp: interned_def)
  have s: "set (concat (buckets ?S)) = insert a (set (concat (buckets S)))"
    using m by (metis set_mset_add_mset_insert set_mset_mset)
  have "distinct (concat (buckets ?S))"
    using k(3) na m mset_eq_imp_distinct_iff [of "concat (buckets ?S)" "a # concat (buckets S)"]
    by (simp add: interned_def)
  moreover have "set (concat (buckets ?S)) = dom (objects ?S)"
    unfolding s using k(3) by (simp add: interned_def)
  moreover have "nuse ?S = of_nat (length (concat (buckets ?S)))"
    using k(3) m mset_eq_length [of "concat (buckets ?S)" "a # concat (buckets S)"] by (simp add: interned_def)
  moreover have "placed (objects ?S) (buckets ?S)"
  proof -
    have "obj_hash ((objects S)(a \<mapsto> t)) b = obj_hash (objects S) b" if "b \<in> set (buckets S ! j)" "j < length (buckets S)" for b j
      using that na by (auto simp: obj_hash_def)
    moreover have "obj_hash ((objects S)(a \<mapsto> t)) a = hashval t" by (simp add: obj_hash_def)
    ultimately show ?thesis
      using k(3) i by (auto simp: interned_def placed_def nth_list_update i_def)
  qed
  moreover have "one_each (objects ?S)"
    using k(4) new h by (auto simp: one_each_def) metis+
  ultimately show ?thesis
    using k unfolding S by (auto simp: strt_ok_def interned_def)
qed

definition fresh_ok :: "addr option \<Rightarrow> strstate \<Rightarrow> bool" where
  "fresh_ok fresh S \<longleftrightarrow> (case fresh of None \<Rightarrow> True | Some a \<Rightarrow> objects S a = None)"

text \<open>What both outcomes of \<open>luaS_newlstr\<close> leave: \<open>held S a str\<close>, a string that this cycle does not free.\<close>

definition held :: "strstate \<Rightarrow> addr \<Rightarrow> bytes \<Rightarrow> bool" where
  "held S a str \<longleftrightarrow> (\<exists>t. objects S a = Some t \<and> chars t = str \<and> \<not> isdead S t)"

definition extends :: "strstate \<Rightarrow> strstate \<Rightarrow> bool" where
  "extends S S' \<longleftrightarrow> currentwhite S' = currentwhite S \<and>
     (\<forall>a t. objects S a = Some t \<longrightarrow> (\<exists>t'. objects S' a = Some t' \<and> chars t' = chars t \<and> (isdead S' t' \<longrightarrow> isdead S t)))"

lemma newlstr_ok:
  assumes ok: "strt_ok S" and f: "fresh_ok fresh S" and new: "\<And>b u. objects S b = Some u \<Longrightarrow> chars u \<noteq> str"
    and r: "newlstr fresh room str (str_hash str) S = (S', r)"
  shows "strt_ok S' \<and> extends S S' \<and> (\<forall>a. r = Inr a \<longrightarrow> held S' a str)"
proof (cases "int (length str) + 1 > MAX_SIZET - sizeof_TString \<or> fresh = None")
  case True
  then show ?thesis
    using r ok by (auto simp: newlstr_def runerror_def extends_def split: if_splits option.splits)
next
  case False
  then obtain a where a: "fresh = Some a" "objects S a = None"
    using f by (auto simp: fresh_ok_def)
  obtain k where k: "k \<le> 30" "length (buckets S) = 2 ^ k" "bit (currentwhite S) 0 \<noteq> bit (currentwhite S) 1"
    by (rule strt_okE [OF ok])
  define t where "t = \<lparr>marked = luaC_white S, reserved = 0, hashval = str_hash str, chars = str\<rparr>"
  define S1 where "S1 = chain_new a t S"
  have S1: "objects S1 = (objects S)(a \<mapsto> t)" "currentwhite S1 = currentwhite S" "length (buckets S1) = length (buckets S)"
    by (simp_all add: S1_def chain_new_def Let_def)
  have ok1: "strt_ok S1"
    using insert_ok [OF ok a(2), of t] new by (simp add: S1_def t_def)
  have "\<not> isdead S1 t"
    using new_not_dead [OF k(3), of t] isdead_cong [OF S1(2)] by (simp add: t_def)
  then have held1: "held S1 a str" by (simp add: held_def S1 t_def)
  have ext1: "extends S S1"
    using a(2) isdead_cong [OF S1(2)] by (auto simp: extends_def S1)
  have R: "(if nuse S1 > of_nat (length (buckets S1)) \<and> int (length (buckets S1)) \<le> MAX_INT div 2
      then (case luaS_resize room (length (buckets S1) * 2) S1 of Inl e \<Rightarrow> (S1, Inl e) | Inr S' \<Rightarrow> (S', Inr a))
      else (S1, Inr a)) = (S', r)"
    using r False unfolding newlstr_def a(1) Let_def option.case S1_def t_def by simp
  have grown: "strt_ok S2 \<and> extends S S2 \<and> held S2 a str"
    if "luaS_resize room (length (buckets S1) * 2) S1 = Inr S2" "int (length (buckets S1)) \<le> MAX_INT div 2" for S2
  proof -
    have "k < 30"
    proof (rule ccontr)
      assume "\<not> k < 30"
      then have "(2 :: int) ^ 30 \<le> 2 ^ k" by (intro power_increasing) auto
      then show False using that(2) k(2) S1(3) by simp
    qed
    then have "strt_ok S2 \<and> objects S2 = objects S1 \<and> currentwhite S2 = currentwhite S1"
      using str_resize_ok [OF that(1) ok1, of "k + 1"] k(2) S1(3) by simp
    then show ?thesis
      using ext1 held1 isdead_cong [of S2 S1] by (auto simp: extends_def held_def)
  qed
  show ?thesis
    using R ok1 ext1 held1 grown by (auto split: if_splits sum.splits)
qed

lemma luaS_newlstr_ok:
  assumes ok: "strt_ok S" and f: "fresh_ok fresh S" and r: "luaS_newlstr fresh room str S = (S', r)"
  shows "strt_ok S' \<and> extends S S' \<and> (\<forall>a. r = Inr a \<longrightarrow> held S' a str)"
proof -
  let ?b = "buckets S ! lmod (str_hash str) (length (buckets S))"
  have w: "bit (currentwhite S) 0 \<noteq> bit (currentwhite S) 1" using ok by (simp add: strt_ok_def)
  show ?thesis
  proof (cases "find_str (objects S) str ?b")
    case None
    have new: "chars u \<noteq> str" if "objects S b = Some u" for b u
      using find_str_None [OF None] in_bucket [OF ok that] that by auto
    show ?thesis
      by (rule newlstr_ok [OF ok f new]) (use r None in \<open>simp_all add: luaS_newlstr_def\<close>)
  next
    case (Some at)
    obtain a t where at: "at = (a, t)" "objects S a = Some t" "chars t = str"
      using Some find_str_Some by (cases at) blast
    let ?S = "S\<lparr>objects := (objects S)(a \<mapsto> changewhite t)\<rparr>"
    have S': "S' = (if isdead S t then ?S else S)" "r = Inr a"
      using r Some at by (auto simp: luaS_newlstr_def)
    show ?thesis
    proof (cases "isdead S t")
      case True
      have "\<not> isdead ?S (changewhite t)"
        using changewhite_alive [OF w True] isdead_cong [of ?S S] by simp
      moreover have "strt_ok ?S"
        by (rule recolour_ok [OF ok at(2)]) (simp_all add: changewhite_def)
      ultimately show ?thesis
        using True S' at(2,3) isdead_cong [of ?S S] by (auto simp: extends_def held_def changewhite_def)
    next
      case False
      then show ?thesis using S' at(2,3) ok by (auto simp: extends_def held_def)
    qed
  qed
qed

lemma held_unique: "strt_ok S \<Longrightarrow> held S a str \<Longrightarrow> held S b str \<Longrightarrow> a = b"
  by (auto simp: strt_ok_def one_each_def held_def)

lemma held_extends: "extends S S' \<Longrightarrow> held S a str \<Longrightarrow> held S' a str"
  by (auto simp: extends_def held_def)

section \<open>Sweeping\<close>

lemma colour_cong: "currentwhite S' = currentwhite S \<Longrightarrow> alive S' t = alive S t \<and> makewhite S' t = makewhite S t"
  by (simp add: alive_def makewhite_def otherwhite_def luaC_white_def)

definition swept :: "strstate \<Rightarrow> TString option \<Rightarrow> TString option" where
  "swept S ot = (case ot of None \<Rightarrow> None | Some t \<Rightarrow> if alive S t then Some (makewhite S t) else None)"

lemma swept_cong: "currentwhite S' = currentwhite S \<Longrightarrow> swept S' ot = swept S ot"
  using colour_cong [of S' S] by (auto simp: swept_def split: option.split)

lemma sweeplist_spec:
  "sweeplist as S = (c, S') \<Longrightarrow> distinct as \<Longrightarrow> set as \<subseteq> dom (objects S) \<Longrightarrow>
   objects S' = (\<lambda>x. if x \<in> set as then swept S (objects S x) else objects S x) \<and>
   c = filter (\<lambda>a. swept S (objects S a) \<noteq> None) as \<and> nuse S' = nuse S - of_nat (length as - length c) \<and>
   buckets S' = buckets S \<and> currentwhite S' = currentwhite S \<and> sweeping S' = sweeping S \<and> sweepstrgc S' = sweepstrgc S"
proof (induction as arbitrary: S c S')
  case (Cons a as)
  obtain t where t: "objects S a = Some t" using Cons.prems(3) by auto
  have a: "a \<notin> set as" "distinct as" using Cons.prems(2) by simp_all
  have other: "filter (\<lambda>x. swept S (H x) \<noteq> None) as = filter (\<lambda>x. swept S (objects S x) \<noteq> None) as"
    if "H = (objects S)(a := v)" for H v
  proof (rule filter_cong [OF refl])
    fix x assume "x \<in> set as"
    with a(1) have "x \<noteq> a" by blast
    then have "H x = objects S x" unfolding that by (rule fun_upd_other)
    then show "(swept S (H x) \<noteq> None) = (swept S (objects S x) \<noteq> None)" by simp
  qed
  show ?case
  proof (cases "alive S t")
    case True
    let ?S = "S\<lparr>objects := (objects S)(a \<mapsto> makewhite S t)\<rparr>"
    obtain r where r: "sweeplist as ?S = (r, S')" "c = a # r"
      using Cons.prems(1) t True by (auto split: prod.splits)
    have sc: "swept ?S ot = swept S ot" for ot by (rule swept_cong) simp
    have n: "swept S (objects S a) = Some (makewhite S t)" using t True by (simp add: swept_def)
    have "set as \<subseteq> dom (objects ?S)" using Cons.prems(3) by auto
    note IH = Cons.IH [OF r(1) a(2) this]
    have c: "c = filter (\<lambda>x. swept S (objects S x) \<noteq> None) (a # as)"
      using IH other [of "objects ?S" "Some (makewhite S t)"] n by (simp add: sc r(2))
    moreover have "objects S' = (\<lambda>x. if x \<in> set (a # as) then swept S (objects S x) else objects S x)"
      using IH a(1) n by (auto simp: sc fun_eq_iff)
    moreover have "nuse S' = nuse S - of_nat (length (a # as) - length c)"
      using IH by (simp add: r(2))
    ultimately show ?thesis using IH by simp
  next
    case False
    let ?S = "freestr a S"
    have r: "sweeplist as ?S = (c, S')" using Cons.prems(1) t False by simp
    have sc: "swept ?S ot = swept S ot" for ot by (rule swept_cong) (simp add: freestr_def)
    have "set as \<subseteq> dom (objects ?S)" using Cons.prems(2,3) by (auto simp: freestr_def)
    note IH = Cons.IH [OF r a(2) this, unfolded sc]
    have oS: "objects ?S = (objects S)(a := None)" by (simp add: freestr_def)
    have n: "swept S (objects S a) = None" using t False by (simp add: swept_def)
    have c: "c = filter (\<lambda>x. swept S (objects S x) \<noteq> None) as"
      using IH other [OF oS] by simp
    have "length c \<le> length as" unfolding c by simp
    then have "nuse S' = nuse S - of_nat (length (a # as) - length c)"
      using IH by (simp add: freestr_def Suc_diff_le)
    moreover have "objects S' = (\<lambda>x. if x \<in> set (a # as) then swept S (objects S x) else objects S x)"
      using IH a(1) n by (auto simp: oS fun_eq_iff)
    moreover have "c = filter (\<lambda>x. swept S (objects S x) \<noteq> None) (a # as)" using c n by simp
    ultimately show ?thesis
      using IH by (simp add: freestr_def)
  qed
qed simp

lemma concat_update_filter:
  assumes "distinct (concat bs)" "i < length bs"
  shows "concat (bs[i := filter P (bs ! i)]) = filter (\<lambda>a. a \<in> set (bs ! i) \<longrightarrow> P a) (concat bs)"
proof -
  let ?A = "concat (take i bs)" and ?B = "concat (drop (Suc i) bs)"
  have c: "concat bs = ?A @ bs ! i @ ?B"
    using id_take_nth_drop [OF assms(2)] by (metis append.assoc concat.simps(2) concat_append)
  have "concat (bs[i := filter P (bs ! i)]) = ?A @ filter P (bs ! i) @ ?B"
    using assms(2) by (simp add: upd_conv_take_nth_drop)
  moreover have "filter (\<lambda>a. a \<in> set (bs ! i) \<longrightarrow> P a) ?A = ?A" "filter (\<lambda>a. a \<in> set (bs ! i) \<longrightarrow> P a) ?B = ?B"
    using assms(1) unfolding c by (auto simp: filter_id_conv)
  moreover have "filter (\<lambda>a. a \<in> set (bs ! i) \<longrightarrow> P a) (bs ! i) = filter P (bs ! i)"
    by (rule filter_cong) simp_all
  ultimately show ?thesis unfolding c filter_append by (simp only:)
qed

lemma length_concat_update:
  "i < length bs \<Longrightarrow> length (concat (bs[i := c])) + length (bs ! i) = length (concat bs) + length c"
proof (induction bs arbitrary: i)
  case (Cons b bs)
  then show ?case by (cases i) fastforce+
qed simp

text \<open>A bucket's sweep on the heap, and what it means for the table.\<close>

lemma sweep_bucket_spec:
  assumes ok: "strt_ok S" and i: "i < length (buckets S)"
  shows "strt_ok (sweep_bucket i S) \<and> length (buckets (sweep_bucket i S)) = length (buckets S) \<and>
    currentwhite (sweep_bucket i S) = currentwhite S \<and> sweeping (sweep_bucket i S) = sweeping S \<and>
    sweepstrgc (sweep_bucket i S) = sweepstrgc S \<and>
    objects (sweep_bucket i S) = (\<lambda>x. if x \<in> set (buckets S ! i) then swept S (objects S x) else objects S x)"
proof -
  obtain k where k: "k \<le> 30" "length (buckets S) = 2 ^ k" "interned S" "one_each (objects S)"
    "bit (currentwhite S) 0 \<noteq> bit (currentwhite S) 1"
    by (rule strt_okE [OF ok])
  let ?b = "buckets S ! i"
  let ?P = "\<lambda>a. swept S (objects S a) \<noteq> None"
  let ?Q = "\<lambda>a. a \<in> set ?b \<longrightarrow> ?P a"
  obtain c S' where r: "sweeplist ?b S = (c, S')" by force
  have d: "distinct (concat (buckets S))" "set (concat (buckets S)) = dom (objects S)"
    using k(3) by (simp_all add: interned_def)
  have b: "distinct ?b" "set ?b \<subseteq> dom (objects S)"
    using d i by (auto simp: distinct_concat_iff nth_mem)
  note s = sweeplist_spec [OF r b]
  define T where "T = S'\<lparr>buckets := (buckets S)[i := c]\<rparr>"
  have sb: "sweep_bucket i S = T" using s by (simp add: sweep_bucket_def r T_def)
  have o: "objects T = (\<lambda>x. if x \<in> set ?b then swept S (objects S x) else objects S x)"
    using s by (simp add: T_def)
  have cc: "concat (buckets T) = filter ?Q (concat (buckets S))"
    using concat_update_filter [OF d(1) i, of ?P] s by (simp add: T_def)
  have sub: "\<exists>w. objects S a = Some w \<and> chars w = chars v \<and> hashval w = hashval v" if "objects T a = Some v" for a v
    using that by (auto simp: o swept_def makewhite_def split: if_splits option.splits)
  have "distinct (concat (buckets T))" unfolding cc using d(1) by simp
  moreover have "set (concat (buckets T)) = dom (objects T)"
    unfolding cc set_filter d(2) by (auto simp: o swept_def split: option.splits if_splits)
  moreover have "nuse T = of_nat (length (concat (buckets T)))"
  proof -
    have lc: "length c \<le> length ?b" using s by simp
    have "length (concat (buckets T)) + length ?b = length (concat (buckets S)) + length c"
      using length_concat_update [OF i, of c] by (simp add: T_def)
    then have "length (concat (buckets S)) = length (concat (buckets T)) + (length ?b - length c)"
      using lc by linarith
    then have "of_nat (length (concat (buckets T))) = (of_nat (length (concat (buckets S))) - of_nat (length ?b - length c) :: u32)"
      by (simp only: of_nat_add add_diff_cancel_right')
    then show ?thesis using k(3) s by (simp add: interned_def T_def)
  qed
  moreover have "placed (objects T) (buckets T)"
  proof -
    have "lmod (obj_hash (objects T) a) (2 ^ k) = j" if "j < 2 ^ k" "a \<in> set (buckets T ! j)" for a j
    proof -
      have "buckets T ! j \<in> set (buckets T)" using that(1) k(2) by (intro nth_mem) (simp add: T_def)
      then have "a \<in> set (concat (buckets T))" using that(2) by auto
      then obtain v where v: "objects T a = Some v" using calculation(2) by blast
      have "a \<in> set (buckets S ! j)"
        using that i s k(2) by (auto simp: T_def nth_list_update split: if_splits)
      then have "lmod (obj_hash (objects S) a) (2 ^ k) = j"
        using k(2,3) that(1) by (auto simp: interned_def placed_def)
      moreover have "obj_hash (objects T) a = obj_hash (objects S) a"
        using sub [OF v] v by (auto simp: obj_hash_def)
      ultimately show ?thesis by simp
    qed
    then show ?thesis using k(2) by (simp add: placed_def T_def)
  qed
  moreover have "one_each (objects T)"
    by (rule one_each_sub [OF k(4)]) (rule sub)
  ultimately show ?thesis
    unfolding sb using k s o by (auto simp: strt_ok_def interned_def T_def)
qed

lemma sweep_held:
  assumes "strt_ok S" "held S a str" "i < length (buckets S)"
  shows "held (sweep_bucket i S) a str"
proof -
  note s = sweep_bucket_spec [OF assms(1,3)]
  have w: "bit (currentwhite S) 0 \<noteq> bit (currentwhite S) 1" using assms(1) by (simp add: strt_ok_def)
  obtain t where t: "objects S a = Some t" "chars t = str" "\<not> isdead S t" using assms(2) by (auto simp: held_def)
  have "swept S (Some t) = Some (makewhite S t)" using alive_not_dead [OF w t(3)] by (simp add: swept_def)
  moreover have "\<not> isdead (sweep_bucket i S) (makewhite S t)" "\<not> isdead (sweep_bucket i S) t"
    using makewhite_not_dead [OF w, of t] isdead_cong [of "sweep_bucket i S" S] s t(3) by simp_all
  ultimately show ?thesis
    using s t by (auto simp: held_def makewhite_def)
qed

section \<open>Interleavings\<close>

text \<open>What happens to the table between two marking phases: strings are interned, the collector sweeps a
  bucket or, at the end of the sweep, shrinks the table. Allocations may fail.\<close>

inductive str_step :: "strstate \<Rightarrow> strstate \<Rightarrow> bool" where
  intern: "fresh_ok fresh S \<Longrightarrow> luaS_newlstr fresh room str S = (S', r) \<Longrightarrow> str_step S S'"
| sweep: "sweeping S \<Longrightarrow> sweepstrgc S < length (buckets S) \<Longrightarrow> str_step S (sweep_step S)"
| shrink: "checkSizes room S = Inr S' \<Longrightarrow> str_step S S'"

inductive_cases str_stepE: "str_step S S'"

lemma sweep_step_spec:
  assumes "strt_ok S" "sweepstrgc S < length (buckets S)"
  shows "strt_ok (sweep_step S)" and "held S a str \<Longrightarrow> held (sweep_step S) a str"
proof -
  let ?T = "sweep_bucket (sweepstrgc S) S"
  have T: "strt_ok ?T" using sweep_bucket_spec [OF assms] by simp
  have e: "objects (sweep_step S) = objects ?T" "buckets (sweep_step S) = buckets ?T" "nuse (sweep_step S) = nuse ?T"
    "currentwhite (sweep_step S) = currentwhite ?T"
    by (simp_all add: sweep_step_def Let_def)
  show "strt_ok (sweep_step S)" using T by (simp add: strt_ok_def interned_def e)
  show "held S a str \<Longrightarrow> held (sweep_step S) a str"
    using sweep_held [OF assms(1) _ assms(2)] isdead_cong [OF e(4)] by (simp add: held_def e(1))
qed

lemma checkSizes_spec:
  assumes "checkSizes room S = Inr S'" "strt_ok S"
  shows "strt_ok S'" and "held S a str \<Longrightarrow> held S' a str"
proof -
  have *: "strt_ok S' \<and> objects S' = objects S \<and> currentwhite S' = currentwhite S"
  proof (cases "S' = S")
    case False
    then have r: "luaS_resize room (length (buckets S) div 2) S = Inr S'" "MINSTRTABSIZE * 2 < length (buckets S)"
      using assms(1) by (auto simp: checkSizes_def split: if_splits)
    obtain k where k: "k \<le> 30" "length (buckets S) = 2 ^ k" by (rule strt_okE [OF assms(2)])
    then obtain j where "k = Suc j" using r(2) by (cases k) (auto simp: MINSTRTABSIZE_def)
    then show ?thesis using str_resize_ok [OF r(1) assms(2), of j] k by simp
  qed (use assms(2) in simp)
  then show "strt_ok S'" "held S a str \<Longrightarrow> held S' a str"
    using isdead_cong [of S' S] by (auto simp: held_def)
qed

lemma str_step_ok:
  assumes "str_step S S'" "strt_ok S"
  shows "strt_ok S' \<and> (held S a str \<longrightarrow> held S' a str)"
  using assms
proof (cases rule: str_step.cases)
  case (intern fresh room str' r)
  from luaS_newlstr_ok [OF assms(2) intern(1,2)] show ?thesis using held_extends by auto
next
  case sweep
  then show ?thesis using sweep_step_spec [OF assms(2)] by auto
next
  case (shrink room)
  from checkSizes_spec [OF shrink assms(2)] show ?thesis by auto
qed

lemma str_steps_ok: "str_step\<^sup>*\<^sup>* S S' \<Longrightarrow> strt_ok S \<Longrightarrow> strt_ok S' \<and> (held S a str \<longrightarrow> held S' a str)"
  by (induction rule: rtranclp_induct) (use str_step_ok in blast)+

text \<open>
  C28: a string is interned once: asked for the same bytes again, \<open>luaS_newlstr\<close> answers with the same
  address, whatever other strings were interned meanwhile, however often the table was resized, and although the
  collector may have been sweeping when the string was found, dead, or made. (\<open>str_step\<close> covers one
  cycle, from the marking of its strings to the end of the sweep.)
\<close>

theorem string_interned_once:
  assumes "strt_ok S" and "fresh_ok f1 S" "luaS_newlstr f1 room1 str S = (S1, Inr a)"
    and "str_step\<^sup>*\<^sup>* S1 S2" and "fresh_ok f2 S2" "luaS_newlstr f2 room2 str S2 = (S3, r)"
  shows "r = Inr a \<and> (\<exists>t. objects S3 a = Some t \<and> chars t = str)"
proof -
  have 1: "strt_ok S1" "held S1 a str" using luaS_newlstr_ok [OF assms(1-3)] by simp_all
  have 2: "strt_ok S2" "held S2 a str" using str_steps_ok [OF assms(4) 1(1)] 1(2) by simp_all
  then obtain t where t: "objects S2 a = Some t" "chars t = str" by (auto simp: held_def)
  have f: "find_str (objects S2) str (buckets S2 ! lmod (str_hash str) (length (buckets S2))) \<noteq> None"
    using find_str_None in_bucket [OF 2(1) t(1)] t by blast
  then obtain b where b: "r = Inr b"
    using assms(6) by (auto simp: luaS_newlstr_def split: option.splits)
  have 3: "strt_ok S3" "extends S2 S3" "held S3 b str" using luaS_newlstr_ok [OF 2(1) assms(5,6)] b by auto
  then have "held S3 a str" using held_extends 2(2) by blast
  then show ?thesis using held_unique [OF 3(1) _ 3(3)] b by (auto simp: held_def)
qed

text \<open>
  C29: the invariant of the table, which every interning, sweep of a bucket and resize keeps, failed
  allocations included: each live string stands in one chain, that of its hash, no two have the same
  bytes, and the count is right.
\<close>

theorem string_table_invariant:
  assumes "strt_ok S" "str_step\<^sup>*\<^sup>* S S'"
  shows "strt_ok S'"
  using str_steps_ok [OF assms(2,1)] by simp

text \<open>
  C30: the sweep frees exactly the dead strings of a bucket, never one with the fixed mark (the reserved
  words), and the ones that stay get the white of the next cycle.
\<close>

theorem sweep_frees_dead:
  assumes "strt_ok S" "i < length (buckets S)" "a \<in> set (buckets S ! i)" "objects S a = Some t"
    and "currentwhite S = push_bit FIXEDBIT 1 OR push_bit n 1" "n = 0 \<or> n = 1"
  shows "objects (sweep_bucket i S) a =
    (if isdead S t \<and> \<not> bit (marked t) FIXEDBIT then None else Some (makewhite S t))"
proof -
  have w: "bit (currentwhite S) 0 \<noteq> bit (currentwhite S) 1" using assms(1) by (simp add: strt_ok_def)
  have cw: "bit (currentwhite S) m \<longleftrightarrow> m = 5 \<or> m = n" if "m < 8" for m
  proof -
    have "m \<in> {0, 1, 2, 3, 4, 5, 6, 7}" using that by auto
    then show ?thesis using assms(6) unfolding assms(5) FIXEDBIT_def by auto
  qed
  have ow: "bit (otherwhite S) m \<longleftrightarrow> m = 5 \<or> m = dead_bit S" if "m < 8" for m
    using that assms(6) cw by (auto simp: otherwhite_def WHITEBITS_def xor_3 dead_bit_def)
  have "alive S t \<longleftrightarrow> (\<exists>m < 8. bit (marked t XOR WHITEBITS) m \<and> bit (otherwhite S) m)"
  proof -
    have "alive S t \<longleftrightarrow> (\<exists>m. bit ((marked t XOR WHITEBITS) AND otherwhite S) m)"
      unfolding alive_def by (metis bit_0_eq bit_eqI bot_apply bot_bool_def)
    also have "\<dots> \<longleftrightarrow> (\<exists>m < 8. bit (marked t XOR WHITEBITS) m \<and> bit (otherwhite S) m)"
      using bit_imp_le_length [of "otherwhite S"] by (auto simp: bit_and_iff)
    finally show ?thesis .
  qed
  also have "\<dots> \<longleftrightarrow> (\<exists>m < 8. bit (marked t XOR WHITEBITS) m \<and> (m = 5 \<or> m = dead_bit S))"
    using ow by blast
  also have "\<dots> \<longleftrightarrow> bit (marked t XOR WHITEBITS) 5 \<or> bit (marked t XOR WHITEBITS) (dead_bit S)"
  proof -
    have "dead_bit S < 8" "5 < (8 :: nat)" by (simp_all add: dead_bit_def)
    then show ?thesis by blast
  qed
  also have "\<dots> \<longleftrightarrow> bit (marked t) 5 \<or> \<not> bit (marked t) (dead_bit S)"
    by (simp add: WHITEBITS_def xor_3 dead_bit_def)
  finally have "alive S t \<longleftrightarrow> \<not> isdead S t \<or> bit (marked t) FIXEDBIT"
    using isdead_bit [OF w] by (auto simp: FIXEDBIT_def)
  then show ?thesis
    using sweep_bucket_spec [OF assms(1,2)] assms(3,4) by (simp add: swept_def)
qed

section \<open>An instance\<close>

definition small_table :: strstate where
  "small_table = \<lparr>objects = (\<lambda>_. None), buckets = replicate 2 [], nuse = 0, currentwhite = 33, sweeping = True, sweepstrgc = 0\<rparr>"

lemma small_table_ok: "strt_ok small_table"
proof -
  have "length (buckets small_table) = 2 ^ 1" by (simp add: small_table_def)
  moreover have "interned small_table" "one_each (objects small_table)"
    by (auto simp: interned_def one_each_def placed_def small_table_def)
  ultimately show ?thesis
    unfolding strt_ok_def by (intro conjI exI [of _ 1]) (simp_all add: small_table_def)
qed

text \<open>\<open>x\<close> made while the collector sweeps, another string interned, the bucket of \<open>x\<close> swept, \<open>x\<close> asked for.\<close>

definition instance_1 :: "strstate \<times> addr result" where "instance_1 = luaS_newlstr (Some 8) True ''x'' small_table"
definition instance_2 :: "strstate \<times> addr result" where "instance_2 = luaS_newlstr (Some 16) True ''y'' (fst instance_1)"

lemma instance_values:
  "snd instance_1 = Inr 8" "snd instance_2 = Inr 16" "fresh_ok (Some 16) (fst instance_1)"
  "sweeping (fst instance_2)" "sweepstrgc (fst instance_2) = 0" "length (buckets (fst instance_2)) = 2"
  by (code_simp)+

theorem string_interned_once_witness:
  "\<exists>S3 r. luaS_newlstr None True ''x'' (sweep_step (fst instance_2)) = (S3, r) \<and> r = Inr 8"
proof -
  obtain S3 r where r: "luaS_newlstr None True ''x'' (sweep_step (fst instance_2)) = (S3, r)" by force
  have i1: "luaS_newlstr (Some 8) True ''x'' small_table = (fst instance_1, Inr 8)"
    using instance_values(1) by (simp add: instance_1_def [symmetric] prod_eq_iff)
  have "str_step (fst instance_1) (fst instance_2)"
    by (rule str_step.intern [OF instance_values(3), of True "''y''" _ "snd instance_2"]) (simp add: instance_2_def)
  moreover have "str_step (fst instance_2) (sweep_step (fst instance_2))"
    by (rule str_step.sweep) (simp_all add: instance_values)
  ultimately have "str_step\<^sup>*\<^sup>* (fst instance_1) (sweep_step (fst instance_2))" by auto
  from string_interned_once [OF small_table_ok _ i1 this _ r] show ?thesis
    using r by (auto simp: fresh_ok_def small_table_def)
qed

theorem string_table_invariant_witness: "strt_ok (fst instance_1)"
proof (rule string_table_invariant [OF small_table_ok])
  have "str_step small_table (fst instance_1)"
    by (rule str_step.intern [of "Some 8" _ True "''x''" _ "snd instance_1"])
      (simp_all add: instance_1_def fresh_ok_def small_table_def)
  then show "str_step\<^sup>*\<^sup>* small_table (fst instance_1)" by auto
qed

theorem sweep_frees_dead_witness:
  "\<exists>i t. objects (fst instance_1) 8 = Some t \<and>
     objects (sweep_bucket i (fst instance_1)) 8 = Some (makewhite (fst instance_1) t)"
proof -
  let ?S = "fst instance_1"
  have "luaS_newlstr (Some 8) True ''x'' small_table = (?S, Inr 8)"
    using instance_values(1) by (simp add: instance_1_def [symmetric] prod_eq_iff)
  from luaS_newlstr_ok [OF small_table_ok _ this] have ok: "strt_ok ?S" "held ?S 8 ''x''"
    by (simp_all add: fresh_ok_def) (simp_all add: small_table_def)
  then obtain t where t: "objects ?S 8 = Some t" "\<not> isdead ?S t" by (auto simp: held_def)
  have "lmod h (length (buckets ?S)) < length (buckets ?S)" for h
    using ok(1) by (auto simp: strt_ok_def lmod_less)
  moreover have "currentwhite ?S = push_bit FIXEDBIT 1 OR push_bit 0 1" by code_simp
  ultimately show ?thesis
    using sweep_frees_dead [OF ok(1) _ in_bucket [OF ok(1) t(1)] t(1), of 0] t by auto
qed

end
