(* ===== verification/Lua_Gc.thy ===== *)
theory Lua_Gc
  imports Lua_String
begin

text \<open>
  The collector, \<^verbatim>\<open>src/src/lgc.c\<close>: colours, marking, the traversal of each kind of object, weak tables,
  finalizers, the atomic end of the mark phase and the write barriers. The heap maps addresses to objects;
  \<open>mark\<close> is the byte \<open>marked\<close> of their headers. A list linked through \<open>gclist\<close> is the list of its
  addresses: an object has one such field, and \<open>Lua_Gc_Props\<close> shows that it never is in two lists.
  Sizes and the pace of the collector are not modelled.
\<close>

section \<open>Objects\<close>

text \<open>An open upvalue points to a slot of a thread's stack.\<close>

datatype upv = Closed tvalue | Open addr nat

text \<open>
  What the collector reads of an object: the metatable and environment of a userdata; the metatable,
  array part and nodes of a table; environment and upvalues of a closure; the strings, constants
  and functions of a prototype; the globals, the stack, \<open>top\<close> and the tops of the calls of a thread.
\<close>

datatype gcobject =
    GString bytes
  | GUdata "addr option" addr
  | GUpval upv
  | GTable "addr option" "tvalue list" "(tvalue \<times> tvalue) list"
  | GCClosure addr "tvalue list"
  | GLClosure addr addr "addr list"
  | GProto "addr option" "tvalue list" "addr option list" "addr option list" "addr option list"
  | GThread tvalue "tvalue list" nat "nat list"

datatype gcphase = GCSpause | GCSpropagate | GCSsweepstring | GCSsweep | GCSfinalize

record gstate =
  mark :: "addr \<Rightarrow> u8"
  obj :: "addr \<Rightarrow> gcobject option"
  white :: u8
  gcstate :: gcphase
  gray :: "addr list"
  grayagain :: "addr list"
  weak :: "addr list"
  uvhead :: "addr list"
  openupval :: "addr \<Rightarrow> addr list"
  mainthread :: addr
  running :: addr
  registry :: tvalue
  mt :: "addr option list"
  tm_mode :: addr
  tm_gc :: addr
  udata :: "addr list"
  tmudata :: "addr list"

section \<open>Colours\<close>

text \<open>\<open>FINALIZEDBIT\<close> of userdata and \<open>KEYWEAKBIT\<close> of tables are the same bit.\<close>

definition FINALIZEDBIT :: nat where "FINALIZEDBIT = 3"
definition KEYWEAKBIT :: nat where "KEYWEAKBIT = 3"
definition VALUEWEAKBIT :: nat where "VALUEWEAKBIT = 4"

definition iswhite :: "gstate \<Rightarrow> addr \<Rightarrow> bool" where
  "iswhite g a \<longleftrightarrow> bit (mark g a) 0 \<or> bit (mark g a) 1"

definition isblack :: "gstate \<Rightarrow> addr \<Rightarrow> bool" where
  "isblack g a \<longleftrightarrow> bit (mark g a) BLACKBIT"

definition isgray :: "gstate \<Rightarrow> addr \<Rightarrow> bool" where
  "isgray g a \<longleftrightarrow> \<not> isblack g a \<and> \<not> iswhite g a"

definition set_mark :: "addr \<Rightarrow> u8 \<Rightarrow> gstate \<Rightarrow> gstate" where
  "set_mark a m g = g\<lparr>mark := (mark g)(a := m)\<rparr>"

definition white2gray :: "addr \<Rightarrow> gstate \<Rightarrow> gstate" where
  "white2gray a g = set_mark a (unset_bit 0 (unset_bit 1 (mark g a))) g"

definition gray2black :: "addr \<Rightarrow> gstate \<Rightarrow> gstate" where
  "gray2black a g = set_mark a (set_bit BLACKBIT (mark g a)) g"

definition black2gray :: "addr \<Rightarrow> gstate \<Rightarrow> gstate" where
  "black2gray a g = set_mark a (unset_bit BLACKBIT (mark g a)) g"

definition stringmark :: "addr \<Rightarrow> gstate \<Rightarrow> gstate" where
  "stringmark a g = white2gray a g"

definition gwhite :: "gstate \<Rightarrow> u8" where
  "gwhite g = white g AND WHITEBITS"

definition gmakewhite :: "addr \<Rightarrow> gstate \<Rightarrow> gstate" where
  "gmakewhite a g = set_mark a ((mark g a AND maskmarks) OR gwhite g) g"

definition gisdead :: "gstate \<Rightarrow> addr \<Rightarrow> bool" where
  "gisdead g a \<longleftrightarrow> mark g a AND (white g XOR WHITEBITS) AND WHITEBITS \<noteq> 0"

section \<open>Marking\<close>

text \<open>The value of an upvalue, \<open>*uv->v\<close>.\<close>

definition uv_value :: "(addr \<Rightarrow> gcobject option) \<Rightarrow> upv \<Rightarrow> tvalue" where
  "uv_value H u =
     (case u of Closed v \<Rightarrow> v
      | Open th i \<Rightarrow> (case H th of Some (GThread gt st tp ci) \<Rightarrow> if i < length st then st ! i else Nil | _ \<Rightarrow> Nil))"

text \<open>
  \<open>reallymarkobject\<close> recurs only from an upvalue to its value and from a userdata to its two tables:
  three levels are all there is, and the number left bounds them.
\<close>

fun reallymark :: "nat \<Rightarrow> addr \<Rightarrow> gstate \<Rightarrow> gstate" where
  "reallymark 0 a g = g"
| "reallymark (Suc n) a g =
     (let mo = (\<lambda>b g. if iswhite g b then reallymark n b g else g);
          mv = (\<lambda>v g. if iscollectable v \<and> iswhite g (gcvalue v) then reallymark n (gcvalue v) g else g);
          g = white2gray a g
      in case obj g a of
           None \<Rightarrow> g
         | Some (GString s) \<Rightarrow> g
         | Some (GUdata m env) \<Rightarrow>
             let g = gray2black a g
             in mo env (case m of None \<Rightarrow> g | Some m \<Rightarrow> mo m g)
         | Some (GUpval u) \<Rightarrow>
             let g = mv (uv_value (obj g) u) g
             in (case u of Closed v \<Rightarrow> gray2black a g | Open th i \<Rightarrow> g)
         | Some _ \<Rightarrow> g\<lparr>gray := a # gray g\<rparr>)"

definition reallymarkobject :: "addr \<Rightarrow> gstate \<Rightarrow> gstate" where
  "reallymarkobject a g = reallymark 3 a g"

definition markobject :: "addr \<Rightarrow> gstate \<Rightarrow> gstate" where
  "markobject a g = (if iswhite g a then reallymarkobject a g else g)"

definition markvalue :: "tvalue \<Rightarrow> gstate \<Rightarrow> gstate" where
  "markvalue v g = (if iscollectable v \<and> iswhite g (gcvalue v) then reallymarkobject (gcvalue v) g else g)"

text \<open>Loops that mark every element, and every pointer that is not \<open>NULL\<close>.\<close>

definition markvalues :: "tvalue list \<Rightarrow> gstate \<Rightarrow> gstate" where
  "markvalues vs g = fold markvalue vs g"

definition markopts :: "addr option list \<Rightarrow> gstate \<Rightarrow> gstate" where
  "markopts as g = fold (\<lambda>a g. case a of None \<Rightarrow> g | Some a \<Rightarrow> markobject a g) as g"

definition stringmarks :: "addr option list \<Rightarrow> gstate \<Rightarrow> gstate" where
  "stringmarks as g = fold (\<lambda>a g. case a of None \<Rightarrow> g | Some a \<Rightarrow> stringmark a g) as g"

section \<open>Traversals\<close>

definition removeentry :: "tvalue \<times> tvalue \<Rightarrow> tvalue \<times> tvalue" where
  "removeentry n = (if iscollectable (fst n) then (DeadKey (gcvalue (fst n)), snd n) else n)"

text \<open>\<open>gfasttm\<close>: the value of a metamethod in a metatable (the cache of absent ones aside).\<close>

definition gfasttm :: "gstate \<Rightarrow> addr option \<Rightarrow> addr \<Rightarrow> tvalue option" where
  "gfasttm g m ev =
     (case m of None \<Rightarrow> None
      | Some m \<Rightarrow> (case obj g m of
          Some (GTable _ _ nodes) \<Rightarrow>
            (case filter (\<lambda>n. fst n = Str ev \<and> snd n \<noteq> Nil) nodes of [] \<Rightarrow> None | n # _ \<Rightarrow> Some (snd n))
        | _ \<Rightarrow> None))"

definition weak_mode :: "gstate \<Rightarrow> addr option \<Rightarrow> bool \<times> bool" where
  "weak_mode g m =
     (case gfasttm g m (tm_mode g) of
        Some (Str s) \<Rightarrow> (case obj g s of Some (GString cs) \<Rightarrow> (CHR ''k'' \<in> set cs, CHR ''v'' \<in> set cs) | _ \<Rightarrow> (False, False))
      | _ \<Rightarrow> (False, False))"

definition weak_bits :: "bool \<Rightarrow> bool \<Rightarrow> u8 \<Rightarrow> u8" where
  "weak_bits k v m =
     (let m = unset_bit KEYWEAKBIT (unset_bit VALUEWEAKBIT m);
          m = (if k then set_bit KEYWEAKBIT m else m)
      in if v then set_bit VALUEWEAKBIT m else m)"

text \<open>The values a node has marked: none of an empty one.\<close>

definition node_marks :: "bool \<Rightarrow> bool \<Rightarrow> tvalue \<times> tvalue \<Rightarrow> tvalue list" where
  "node_marks weakkey weakvalue n =
     (if snd n = Nil then []
      else (if weakkey then [] else [fst n]) @ (if weakvalue then [] else [snd n]))"

definition traversetable :: "addr \<Rightarrow> addr option \<Rightarrow> tvalue list \<Rightarrow> (tvalue \<times> tvalue) list \<Rightarrow> gstate \<Rightarrow> bool \<times> gstate" where
  "traversetable a m arr nodes g =
     (let g = (case m of None \<Rightarrow> g | Some m \<Rightarrow> markobject m g);
          (weakkey, weakvalue) = weak_mode g m;
          g = (if weakkey \<or> weakvalue
               then (set_mark a (weak_bits weakkey weakvalue (mark g a)) g)\<lparr>weak := a # weak g\<rparr> else g)
      in if weakkey \<and> weakvalue then (True, g)
         else let g = (if \<not> weakvalue then markvalues (rev arr) g else g);
                  g = markvalues (concat (map (node_marks weakkey weakvalue) (rev nodes))) g;
                  nodes = map (\<lambda>n. if snd n = Nil then removeentry n else n) nodes
              in (weakkey \<or> weakvalue, g\<lparr>obj := (obj g)(a \<mapsto> GTable m arr nodes)\<rparr>))"

definition traverseproto ::
  "addr option \<Rightarrow> tvalue list \<Rightarrow> addr option list \<Rightarrow> addr option list \<Rightarrow> addr option list \<Rightarrow> gstate \<Rightarrow> gstate" where
  "traverseproto src k upvals ps locs g =
     stringmarks locs (markopts ps (stringmarks upvals (markvalues k (stringmarks [src] g))))"

definition traverseclosure_C :: "addr \<Rightarrow> tvalue list \<Rightarrow> gstate \<Rightarrow> gstate" where
  "traverseclosure_C env upvs g = markvalues upvs (markobject env g)"

definition traverseclosure_L :: "addr \<Rightarrow> addr \<Rightarrow> addr list \<Rightarrow> gstate \<Rightarrow> gstate" where
  "traverseclosure_L env p upvs g = fold markobject upvs (markobject p (markobject env g))"

text \<open>Slots from \<open>top\<close> up to the highest top of a call are cleared; the sizes stay.\<close>

definition traversestack :: "addr \<Rightarrow> tvalue \<Rightarrow> tvalue list \<Rightarrow> nat \<Rightarrow> nat list \<Rightarrow> gstate \<Rightarrow> gstate" where
  "traversestack a gt st tp ci g =
     (let g = markvalue gt g;
          lim = foldl max tp ci;
          g = markvalues (take tp st) g;
          st = take tp st @ replicate (min (lim + 1) (length st) - tp) Nil @ drop (max tp (lim + 1)) st
      in g\<lparr>obj := (obj g)(a \<mapsto> GThread gt st tp ci)\<rparr>)"

definition propagatemark :: "gstate \<Rightarrow> gstate" where
  "propagatemark g =
     (case gray g of
        [] \<Rightarrow> g
      | a # rest \<Rightarrow>
          let g = (gray2black a g)\<lparr>gray := rest\<rparr>
          in case obj g a of
               Some (GTable m arr nodes) \<Rightarrow>
                 let (w, g) = traversetable a m arr nodes g in (if w then black2gray a g else g)
             | Some (GCClosure env upvs) \<Rightarrow> traverseclosure_C env upvs g
             | Some (GLClosure env p upvs) \<Rightarrow> traverseclosure_L env p upvs g
             | Some (GThread gt st tp ci) \<Rightarrow>
                 traversestack a gt st tp ci (black2gray a (g\<lparr>grayagain := a # grayagain g\<rparr>))
             | Some (GProto src k us ps ls) \<Rightarrow> traverseproto src k us ps ls g
             | _ \<Rightarrow> g)"

partial_function (option) propagateall :: "gstate \<Rightarrow> gstate option" where
  "propagateall g = (if gray g = [] then Some g else propagateall (propagatemark g))"


section \<open>The ends of the mark phase\<close>

definition markmt :: "gstate \<Rightarrow> gstate" where
  "markmt g = markopts (mt g) g"

definition globals :: "gstate \<Rightarrow> addr \<Rightarrow> tvalue" where
  "globals g th = (case obj g th of Some (GThread gt st tp ci) \<Rightarrow> gt | _ \<Rightarrow> Nil)"

definition markroot :: "gstate \<Rightarrow> gstate" where
  "markroot g =
     (let g = g\<lparr>gray := [], grayagain := [], weak := []\<rparr>;
          g = markobject (mainthread g) g;
          g = markvalue (globals g (mainthread g)) g;
          g = markvalue (registry g) g
      in (markmt g)\<lparr>gcstate := GCSpropagate\<rparr>)"

definition upvalue_of :: "gstate \<Rightarrow> addr \<Rightarrow> tvalue" where
  "upvalue_of g uv = (case obj g uv of Some (GUpval u) \<Rightarrow> uv_value (obj g) u | _ \<Rightarrow> Nil)"

definition remarkupval :: "addr \<Rightarrow> gstate \<Rightarrow> gstate" where
  "remarkupval uv g = (if isgray g uv then markvalue (upvalue_of g uv) g else g)"

definition remarkupvals :: "gstate \<Rightarrow> gstate" where
  "remarkupvals g = fold remarkupval (uvhead g) g"

text \<open>
  \<open>udata\<close> is the part of \<open>rootgc\<close> behind the main thread, which holds all userdata; \<open>tmudata\<close>, a
  circular list in the code, is listed from its first element.
\<close>

definition udata_mt :: "gstate \<Rightarrow> addr \<Rightarrow> addr option" where
  "udata_mt g u = (case obj g u of Some (GUdata m env) \<Rightarrow> m | _ \<Rightarrow> None)"

definition markfinalized :: "addr \<Rightarrow> gstate \<Rightarrow> gstate" where
  "markfinalized u g = set_mark u (set_bit FINALIZEDBIT (mark g u)) g"

fun separate :: "bool \<Rightarrow> addr list \<Rightarrow> gstate \<Rightarrow> addr list \<times> gstate" where
  "separate all [] g = ([], g)"
| "separate all (u # us) g =
     (if (\<not> iswhite g u \<and> \<not> all) \<or> bit (mark g u) FINALIZEDBIT
      then let (kept, g) = separate all us g in (u # kept, g)
      else if gfasttm g (udata_mt g u) (tm_gc g) = None
      then let (kept, g) = separate all us (markfinalized u g) in (u # kept, g)
      else let g = markfinalized u g in separate all us (g\<lparr>tmudata := tmudata g @ [u]\<rparr>))"

definition luaC_separateudata :: "bool \<Rightarrow> gstate \<Rightarrow> gstate" where
  "luaC_separateudata all g = (let (kept, g) = separate all (udata g) g in g\<lparr>udata := kept\<rparr>)"

definition marktmu :: "gstate \<Rightarrow> gstate" where
  "marktmu g = fold (\<lambda>u g. reallymarkobject u (gmakewhite u g)) (tmudata g) g"

definition iscleared :: "tvalue \<Rightarrow> bool \<Rightarrow> gstate \<Rightarrow> bool \<times> gstate" where
  "iscleared v iskey g =
     (if \<not> iscollectable v then (False, g)
      else case v of
        Str s \<Rightarrow> (False, stringmark s g)
      | Userdata u \<Rightarrow> (iswhite g u \<or> (\<not> iskey \<and> bit (mark g u) FINALIZEDBIT), g)
      | _ \<Rightarrow> (iswhite g (gcvalue v), g))"

text \<open>Both loops run from the last element to the first.\<close>

fun clear_array :: "tvalue list \<Rightarrow> gstate \<Rightarrow> tvalue list \<times> gstate" where
  "clear_array [] g = ([], g)"
| "clear_array (v # vs) g =
     (let (vs, g) = clear_array vs g; (c, g) = iscleared v False g in ((if c then Nil else v) # vs, g))"

definition clear_node :: "tvalue \<times> tvalue \<Rightarrow> gstate \<Rightarrow> (tvalue \<times> tvalue) \<times> gstate" where
  "clear_node n g =
     (if snd n = Nil then (n, g)
      else let (c, g) = iscleared (fst n) True g
           in if c then (removeentry (fst n, Nil), g)
              else let (c, g) = iscleared (snd n) False g
                   in (if c then removeentry (fst n, Nil) else n, g))"

fun clear_nodes :: "(tvalue \<times> tvalue) list \<Rightarrow> gstate \<Rightarrow> (tvalue \<times> tvalue) list \<times> gstate" where
  "clear_nodes [] g = ([], g)"
| "clear_nodes (n # ns) g =
     (let (ns, g) = clear_nodes ns g; (n, g) = clear_node n g in (n # ns, g))"

definition clear_one :: "addr \<Rightarrow> gstate \<Rightarrow> gstate" where
  "clear_one a g =
     (case obj g a of
        Some (GTable m arr nodes) \<Rightarrow>
          let (arr, g) = (if bit (mark g a) VALUEWEAKBIT then clear_array arr g else (arr, g));
              (nodes, g) = clear_nodes nodes g
          in g\<lparr>obj := (obj g)(a \<mapsto> GTable m arr nodes)\<rparr>
      | _ \<Rightarrow> g)"

definition cleartable :: "addr list \<Rightarrow> gstate \<Rightarrow> gstate" where
  "cleartable l g = fold clear_one l g"

text \<open>\<open>propagateall\<close> may loop on no heap that is finite; that it ends is a theorem of \<open>Lua_Gc_Props\<close>.\<close>

definition atomic :: "gstate \<Rightarrow> gstate option" where
  "atomic g =
     Option.bind (propagateall (remarkupvals g)) (\<lambda>g.
       let g = g\<lparr>gray := weak g, weak := []\<rparr>
       in Option.bind (propagateall (markmt (markobject (running g) g))) (\<lambda>g.
       let g = g\<lparr>gray := grayagain g, grayagain := []\<rparr>
       in Option.bind (propagateall g) (\<lambda>g.
       Option.bind (propagateall (marktmu (luaC_separateudata False g))) (\<lambda>g.
       let g = cleartable (weak g) g
       in Some (g\<lparr>white := white g XOR WHITEBITS, gcstate := GCSsweepstring\<rparr>)))))"

text \<open>\<open>singlestep\<close> up to the end of the mark phase.\<close>

definition mark_step :: "gstate \<Rightarrow> gstate option" where
  "mark_step g =
     (case gcstate g of
        GCSpause \<Rightarrow> Some (markroot g)
      | GCSpropagate \<Rightarrow> (if gray g \<noteq> [] then Some (propagatemark g) else atomic g)
      | _ \<Rightarrow> None)"

section \<open>Barriers and new objects\<close>

definition luaC_barrierf :: "addr \<Rightarrow> addr \<Rightarrow> gstate \<Rightarrow> gstate" where
  "luaC_barrierf a v g = (if gcstate g = GCSpropagate then reallymarkobject v g else gmakewhite a g)"

definition luaC_barrierback :: "addr \<Rightarrow> gstate \<Rightarrow> gstate" where
  "luaC_barrierback t g = (let g = black2gray t g in g\<lparr>grayagain := t # grayagain g\<rparr>)"

definition valiswhite :: "gstate \<Rightarrow> tvalue \<Rightarrow> bool" where
  "valiswhite g v \<longleftrightarrow> iscollectable v \<and> iswhite g (gcvalue v)"

definition luaC_barrier :: "addr \<Rightarrow> tvalue \<Rightarrow> gstate \<Rightarrow> gstate" where
  "luaC_barrier p v g = (if valiswhite g v \<and> isblack g p then luaC_barrierf p (gcvalue v) g else g)"

definition luaC_barriert :: "addr \<Rightarrow> tvalue \<Rightarrow> gstate \<Rightarrow> gstate" where
  "luaC_barriert t v g = (if valiswhite g v \<and> isblack g t then luaC_barrierback t g else g)"

definition luaC_objbarrier :: "addr \<Rightarrow> addr \<Rightarrow> gstate \<Rightarrow> gstate" where
  "luaC_objbarrier p a g = (if iswhite g a \<and> isblack g p then luaC_barrierf p a g else g)"

definition luaC_objbarriert :: "addr \<Rightarrow> addr \<Rightarrow> gstate \<Rightarrow> gstate" where
  "luaC_objbarriert t a g = (if iswhite g a \<and> isblack g t then luaC_barrierback t g else g)"

definition put_obj :: "addr \<Rightarrow> gcobject \<Rightarrow> gstate \<Rightarrow> gstate" where
  "put_obj a ob g = g\<lparr>obj := (obj g)(a \<mapsto> ob)\<rparr>"

definition luaC_link :: "addr \<Rightarrow> gcobject \<Rightarrow> gstate \<Rightarrow> gstate" where
  "luaC_link a ob g = set_mark a (gwhite g) (put_obj a ob g)"

definition luaC_linkupval :: "addr \<Rightarrow> gstate \<Rightarrow> gstate" where
  "luaC_linkupval uv g =
     (if isgray g uv
      then if gcstate g = GCSpropagate then luaC_barrier uv (upvalue_of g uv) (gray2black uv g) else gmakewhite uv g
      else g)"

section \<open>Upvalues\<close>

text \<open>The slot an open upvalue points to; \<open>openupval\<close> lists those of a thread from the top of its stack down.\<close>

definition uv_level :: "gstate \<Rightarrow> addr \<Rightarrow> nat" where
  "uv_level g p = (case obj g p of Some (GUpval (Open th i)) \<Rightarrow> i | _ \<Rightarrow> 0)"

definition luaF_findupval :: "addr \<Rightarrow> addr \<Rightarrow> nat \<Rightarrow> gstate \<Rightarrow> addr \<times> gstate" where
  "luaF_findupval fresh th level g =
     (let above = takeWhile (\<lambda>p. level < uv_level g p) (openupval g th);
          rest = dropWhile (\<lambda>p. level < uv_level g p) (openupval g th);
          new = (fresh, set_mark fresh (gwhite g)
                   ((put_obj fresh (GUpval (Open th level)) g)
                      \<lparr>openupval := (openupval g)(th := above @ fresh # rest), uvhead := fresh # uvhead g\<rparr>))
      in case rest of
           [] \<Rightarrow> new
         | p # _ \<Rightarrow>
             if uv_level g p = level
             then (p, if gisdead g p then set_mark p (mark g p XOR WHITEBITS) g else g)
             else new)"

definition unlinkupval :: "addr \<Rightarrow> gstate \<Rightarrow> gstate" where
  "unlinkupval uv g = g\<lparr>uvhead := filter (\<lambda>p. p \<noteq> uv) (uvhead g)\<rparr>"

definition luaF_freeupval :: "addr \<Rightarrow> gstate \<Rightarrow> gstate" where
  "luaF_freeupval uv g =
     (let g = (case obj g uv of Some (GUpval (Open th i)) \<Rightarrow> unlinkupval uv g | _ \<Rightarrow> g)
      in g\<lparr>obj := (obj g)(uv := None)\<rparr>)"

definition close_upval :: "addr \<Rightarrow> gstate \<Rightarrow> gstate" where
  "close_upval uv g =
     (if gisdead g uv then luaF_freeupval uv g
      else let g = unlinkupval uv g
           in luaC_linkupval uv (put_obj uv (GUpval (Closed (upvalue_of g uv))) g))"

fun close_loop :: "addr \<Rightarrow> nat \<Rightarrow> addr list \<Rightarrow> gstate \<Rightarrow> gstate" where
  "close_loop th level [] g = g"
| "close_loop th level (uv # rest) g =
     (if level \<le> uv_level g uv
      then close_loop th level rest (close_upval uv (g\<lparr>openupval := (openupval g)(th := rest)\<rparr>))
      else g)"

definition luaF_close :: "addr \<Rightarrow> nat \<Rightarrow> gstate \<Rightarrow> gstate" where
  "luaF_close th level g = close_loop th level (openupval g th) g"

section \<open>Stores of the program\<close>

text \<open>
  The assignments that the interpreter and the interface make to objects, each with the barrier the
  code has behind it. The keys and values of a table are the business of \<open>Lua_Table\<close>: \<open>arr\<close> and
  \<open>nodes\<close> are its contents with the value \<open>v\<close> stored at the key \<open>k\<close>, whose barrier comes first when
  the key is new.
\<close>

definition table_store :: "addr \<Rightarrow> tvalue list \<Rightarrow> (tvalue \<times> tvalue) list \<Rightarrow> tvalue \<Rightarrow> tvalue \<Rightarrow> gstate \<Rightarrow> gstate" where
  "table_store t arr nodes k v g =
     (case obj g t of
        Some (GTable m _ _) \<Rightarrow> luaC_barriert t v (luaC_barriert t k (put_obj t (GTable m arr nodes) g))
      | _ \<Rightarrow> g)"

definition lua_setmetatable :: "tvalue \<Rightarrow> addr option \<Rightarrow> gstate \<Rightarrow> gstate" where
  "lua_setmetatable v m g =
     (case v of
        Tab a \<Rightarrow>
          (case obj g a of Some (GTable _ arr nodes) \<Rightarrow>
             let g = put_obj a (GTable m arr nodes) g
             in (case m of None \<Rightarrow> g | Some m \<Rightarrow> luaC_objbarriert a m g) | _ \<Rightarrow> g)
      | Userdata a \<Rightarrow>
          (case obj g a of Some (GUdata _ env) \<Rightarrow>
             let g = put_obj a (GUdata m env) g
             in (case m of None \<Rightarrow> g | Some m \<Rightarrow> luaC_objbarrier a m g) | _ \<Rightarrow> g)
      | _ \<Rightarrow> g\<lparr>mt := (mt g)[ttype v := m]\<rparr>)"

definition lua_setfenv :: "tvalue \<Rightarrow> addr \<Rightarrow> gstate \<Rightarrow> gstate" where
  "lua_setfenv v t g =
     (case v of
        Fun a \<Rightarrow>
          (case obj g a of
             Some (GCClosure _ us) \<Rightarrow> luaC_objbarrier a t (put_obj a (GCClosure t us) g)
           | Some (GLClosure _ p us) \<Rightarrow> luaC_objbarrier a t (put_obj a (GLClosure t p us) g)
           | _ \<Rightarrow> g)
      | Userdata a \<Rightarrow>
          (case obj g a of Some (GUdata m _) \<Rightarrow> luaC_objbarrier a t (put_obj a (GUdata m t) g) | _ \<Rightarrow> g)
      | Thread a \<Rightarrow>
          (case obj g a of Some (GThread _ st tp ci) \<Rightarrow> luaC_objbarrier a t (put_obj a (GThread (Tab t) st tp ci) g) | _ \<Rightarrow> g)
      | _ \<Rightarrow> g)"

definition set_upval :: "addr \<Rightarrow> tvalue \<Rightarrow> gstate \<Rightarrow> gstate" where
  "set_upval uv v g =
     (case obj g uv of
        Some (GUpval (Closed _)) \<Rightarrow> put_obj uv (GUpval (Closed v)) g
      | Some (GUpval (Open th i)) \<Rightarrow>
          (case obj g th of Some (GThread gt st tp ci) \<Rightarrow> put_obj th (GThread gt (st[i := v]) tp ci) g | _ \<Rightarrow> g)
      | _ \<Rightarrow> g)"

definition OP_SETUPVAL_step :: "addr \<Rightarrow> tvalue \<Rightarrow> gstate \<Rightarrow> gstate" where
  "OP_SETUPVAL_step uv v g = luaC_barrier uv v (set_upval uv v g)"

text \<open>
  \<open>aux_upvalue\<close> bounds the index by the names of upvalues in the prototype, which a stripped chunk
  has none of.
\<close>

definition sizeupvalues :: "gstate \<Rightarrow> addr \<Rightarrow> nat" where
  "sizeupvalues g p = (case obj g p of Some (GProto _ _ names _ _) \<Rightarrow> length names | _ \<Rightarrow> 0)"

definition lua_setupvalue :: "addr \<Rightarrow> nat \<Rightarrow> tvalue \<Rightarrow> gstate \<Rightarrow> gstate" where
  "lua_setupvalue f n v g =
     (case obj g f of
        Some (GCClosure env us) \<Rightarrow>
          if 1 \<le> n \<and> n \<le> length us then luaC_barrier f v (put_obj f (GCClosure env (us[n - 1 := v])) g) else g
      | Some (GLClosure env p us) \<Rightarrow>
          if 1 \<le> n \<and> n \<le> sizeupvalues g p then luaC_barrier f v (set_upval (us ! (n - 1)) v g) else g
      | _ \<Rightarrow> g)"

text \<open>The parser adds constants, and nested functions and names, to a prototype.\<close>

definition add_constant :: "addr \<Rightarrow> gcobject \<Rightarrow> tvalue \<Rightarrow> gstate \<Rightarrow> gstate" where
  "add_constant p ob v g = luaC_barrier p v (put_obj p ob g)"

definition add_part :: "addr \<Rightarrow> gcobject \<Rightarrow> addr \<Rightarrow> gstate \<Rightarrow> gstate" where
  "add_part p ob x g = luaC_objbarrier p x (put_obj p ob g)"

end
