(* ===== verification/Lua_Gc_Marks.thy ===== *)
theory Lua_Gc_Marks
  imports Lua_Gc
begin

text \<open>
  What marking does, in one relation: \<open>marks g g'\<close> says that \<open>g'\<close> arises from \<open>g\<close> by marking white
  objects, each of which is then on the gray list, or needs no traversal. The well-formedness of heaps
  says that references lead to objects of the kind the code takes them for.
\<close>

section \<open>Typed heaps\<close>

type_synonym heap = "addr \<Rightarrow> gcobject option"

datatype gckind = KString | KUdata | KUpval | KTable | KFunction | KProto | KThread

fun kind :: "gcobject \<Rightarrow> gckind" where
  "kind (GString s) = KString"
| "kind (GUdata m e) = KUdata"
| "kind (GUpval u) = KUpval"
| "kind (GTable m arr nodes) = KTable"
| "kind (GCClosure e us) = KFunction"
| "kind (GLClosure e p us) = KFunction"
| "kind (GProto s k us ps ls) = KProto"
| "kind (GThread gt st tp ci) = KThread"

definition hask :: "heap \<Rightarrow> addr \<Rightarrow> gckind \<Rightarrow> bool" where
  "hask H a k \<longleftrightarrow> (\<exists>ob. H a = Some ob \<and> kind ob = k)"

fun vok :: "heap \<Rightarrow> tvalue \<Rightarrow> bool" where
  "vok H (Str a) = hask H a KString"
| "vok H (Tab a) = hask H a KTable"
| "vok H (Fun a) = hask H a KFunction"
| "vok H (Userdata a) = hask H a KUdata"
| "vok H (Thread a) = hask H a KThread"
| "vok H (DeadKey a) = False"
| "vok H _ = True"

text \<open>An empty node may have any key, and a slot above the top any value.\<close>

definition node_ok :: "heap \<Rightarrow> tvalue \<times> tvalue \<Rightarrow> bool" where
  "node_ok H n \<longleftrightarrow> snd n \<noteq> Nil \<longrightarrow> vok H (fst n) \<and> vok H (snd n)"

fun ob_ok :: "heap \<Rightarrow> gcobject \<Rightarrow> bool" where
  "ob_ok H (GString s) = True"
| "ob_ok H (GUdata m e) = ((\<forall>x\<in>set_option m. hask H x KTable) \<and> hask H e KTable)"
| "ob_ok H (GUpval u) = ((\<forall>th i. u = Open th i \<longrightarrow> hask H th KThread) \<and> vok H (uv_value H u))"
| "ob_ok H (GTable m arr nodes) =
     ((\<forall>x\<in>set_option m. hask H x KTable) \<and> (\<forall>v\<in>set arr. vok H v) \<and> (\<forall>n\<in>set nodes. node_ok H n))"
| "ob_ok H (GCClosure e us) = (hask H e KTable \<and> (\<forall>v\<in>set us. vok H v))"
| "ob_ok H (GLClosure e p us) = (hask H e KTable \<and> hask H p KProto \<and> (\<forall>u\<in>set us. hask H u KUpval))"
| "ob_ok H (GProto s k us ps ls) =
     ((\<forall>x\<in>set_option s. hask H x KString) \<and> (\<forall>v\<in>set k. vok H v) \<and>
      (\<forall>x\<in>\<Union>(set_option ` set us). hask H x KString) \<and> (\<forall>x\<in>\<Union>(set_option ` set ps). hask H x KProto) \<and>
      (\<forall>x\<in>\<Union>(set_option ` set ls). hask H x KString))"
| "ob_ok H (GThread gt st tp ci) = (vok H gt \<and> (\<forall>v\<in>set (take tp st). vok H v))"

definition vref :: "tvalue \<Rightarrow> addr set" where
  "vref v = (if iscollectable v then {gcvalue v} else {})"

definition node_refs :: "tvalue \<times> tvalue \<Rightarrow> addr set" where
  "node_refs n = (if snd n = Nil then {} else vref (fst n) \<union> vref (snd n))"

text \<open>Everything the program can reach from an object in one step, through weak tables as well.\<close>

fun orefs :: "heap \<Rightarrow> gcobject \<Rightarrow> addr set" where
  "orefs H (GString s) = {}"
| "orefs H (GUdata m e) = insert e (set_option m)"
| "orefs H (GUpval u) = vref (uv_value H u)"
| "orefs H (GTable m arr nodes) = set_option m \<union> \<Union>(vref ` set arr) \<union> \<Union>(node_refs ` set nodes)"
| "orefs H (GCClosure e us) = insert e (\<Union>(vref ` set us))"
| "orefs H (GLClosure e p us) = insert e (insert p (set us))"
| "orefs H (GProto s k us ps ls) =
     set_option s \<union> \<Union>(vref ` set k) \<union> \<Union>(set_option ` set us) \<union> \<Union>(set_option ` set ps) \<union> \<Union>(set_option ` set ls)"
| "orefs H (GThread gt st tp ci) = vref gt \<union> \<Union>(vref ` set (take tp st))"

definition wf :: "gstate \<Rightarrow> bool" where
  "wf g \<longleftrightarrow> (\<forall>a ob. obj g a = Some ob \<longrightarrow> ob_ok (obj g) ob \<and> (iswhite g a \<longrightarrow> \<not> isblack g a))"

lemma wf_ob: "wf g \<Longrightarrow> obj g a = Some ob \<Longrightarrow> ob_ok (obj g) ob"
  by (simp add: wf_def)

lemma vok_vref: "vok H v \<Longrightarrow> a \<in> vref v \<Longrightarrow> \<exists>ob. H a = Some ob"
  by (cases v) (auto simp: vref_def iscollectable_def hask_def split: if_splits)

section \<open>Colours\<close>

definition wmark :: "u8 \<Rightarrow> bool" where
  "wmark m \<longleftrightarrow> bit m 0 \<or> bit m 1"

lemma iswhite_wmark: "iswhite g a = wmark (mark g a)"
  by (simp add: iswhite_def wmark_def)

lemma set_mark_sel [simp]:
  "obj (set_mark a m g) = obj g" "gray (set_mark a m g) = gray g"
  "mark (set_mark a m g) = (mark g)(a := m)"
  by (simp_all add: set_mark_def)

lemma set_mark_twice [simp]: "set_mark a m (set_mark a n g) = set_mark a m g"
  by (simp add: set_mark_def)

lemma set_mark_same [simp]: "set_mark a (mark g a) g = g"
  by (simp add: set_mark_def)

lemma wmark_bits [simp]:
  "\<not> wmark (unset_bit 0 (unset_bit (Suc 0) m))" "wmark (set_bit BLACKBIT m) = wmark m"
  "wmark (unset_bit BLACKBIT m) = wmark m" "bit (set_bit BLACKBIT m) BLACKBIT"
  "\<not> bit (unset_bit BLACKBIT m) BLACKBIT"
  "bit (unset_bit 0 (unset_bit (Suc 0) m)) BLACKBIT = bit m BLACKBIT"
  for m :: u8
  by (simp_all add: wmark_def BLACKBIT_def bit_unset_bit_iff bit_set_bit_iff)

lemma unset_white: "\<not> wmark m \<Longrightarrow> unset_bit 0 (unset_bit (Suc 0) m) = m" for m :: u8
  by (rule bit_eqI) (auto simp: wmark_def bit_unset_bit_iff intro!: Nat.gr0I)

section \<open>Marking\<close>

text \<open>An object that has just been marked: on the gray list, or with nothing white behind it.\<close>

definition shaded :: "gstate \<Rightarrow> addr set \<Rightarrow> addr \<Rightarrow> bool" where
  "shaded g N a =
     (case obj g a of
        None \<Rightarrow> False
      | Some (GString s) \<Rightarrow> \<not> isblack g a
      | Some (GUdata m e) \<Rightarrow> isblack g a \<and> (\<forall>x\<in>orefs (obj g) (GUdata m e). \<not> iswhite g x)
      | Some (GUpval u) \<Rightarrow> (\<forall>th i. u = Open th i \<longrightarrow> \<not> isblack g a) \<and> (\<forall>c. u = Closed c \<longrightarrow> isblack g a) \<and>
                           (\<forall>x\<in>orefs (obj g) (GUpval u). \<not> iswhite g x)
      | _ \<Rightarrow> \<not> isblack g a \<and> a \<in> N)"

definition listable :: "heap \<Rightarrow> addr \<Rightarrow> bool" where
  "listable H a \<longleftrightarrow> hask H a KTable \<or> hask H a KFunction \<or> hask H a KProto \<or> hask H a KThread"

definition marks_by :: "addr list \<Rightarrow> gstate \<Rightarrow> gstate \<Rightarrow> bool" where
  "marks_by N g g' \<longleftrightarrow>
     g' = g\<lparr>mark := mark g', gray := N @ gray g\<rparr> \<and> distinct N \<and>
     (\<forall>a\<in>set N. iswhite g a \<and> \<not> iswhite g' a \<and> listable (obj g) a) \<and>
     (\<forall>a. mark g' a = mark g a \<or> iswhite g a \<and> \<not> iswhite g' a \<and> shaded g' (set N) a)"

definition marks :: "gstate \<Rightarrow> gstate \<Rightarrow> bool" where
  "marks g g' \<longleftrightarrow> (\<exists>N. marks_by N g g')"

lemma marks_by_sel:
  assumes "marks_by N g g'"
  shows "obj g' = obj g" "gray g' = N @ gray g" "grayagain g' = grayagain g" "weak g' = weak g"
    "uvhead g' = uvhead g" "gcstate g' = gcstate g" "running g' = running g" "mainthread g' = mainthread g"
    "mt g' = mt g" "registry g' = registry g" "white g' = white g" "udata g' = udata g" "tmudata g' = tmudata g"
    "openupval g' = openupval g" "tm_mode g' = tm_mode g" "tm_gc g' = tm_gc g"
proof -
  have e: "g' = g\<lparr>mark := mark g', gray := N @ gray g\<rparr>"
    using assms by (simp add: marks_by_def)
  show "obj g' = obj g" "gray g' = N @ gray g" "grayagain g' = grayagain g" "weak g' = weak g"
    "uvhead g' = uvhead g" "gcstate g' = gcstate g" "running g' = running g" "mainthread g' = mainthread g"
    "mt g' = mt g" "registry g' = registry g" "white g' = white g" "udata g' = udata g" "tmudata g' = tmudata g"
    "openupval g' = openupval g" "tm_mode g' = tm_mode g" "tm_gc g' = tm_gc g"
    by (subst e, simp)+
qed

lemma marks_sel:
  assumes "marks g g'"
  shows "obj g' = obj g" "grayagain g' = grayagain g" "weak g' = weak g"
    "uvhead g' = uvhead g" "gcstate g' = gcstate g" "running g' = running g" "mainthread g' = mainthread g"
    "mt g' = mt g" "registry g' = registry g" "white g' = white g" "udata g' = udata g" "tmudata g' = tmudata g"
    "openupval g' = openupval g" "tm_mode g' = tm_mode g" "tm_gc g' = tm_gc g"
proof -
  obtain N where N: "marks_by N g g'"
    using assms by (auto simp: marks_def)
  show "obj g' = obj g" "grayagain g' = grayagain g" "weak g' = weak g"
    "uvhead g' = uvhead g" "gcstate g' = gcstate g" "running g' = running g" "mainthread g' = mainthread g"
    "mt g' = mt g" "registry g' = registry g" "white g' = white g" "udata g' = udata g" "tmudata g' = tmudata g"
    "openupval g' = openupval g" "tm_mode g' = tm_mode g" "tm_gc g' = tm_gc g"
    by (simp_all add: marks_by_sel [OF N])
qed

lemma marks_refl [simp]: "marks g g"
  unfolding marks_def marks_by_def by (rule exI [of _ "[]"]) simp

lemma marks_by_white: "marks_by N g g' \<Longrightarrow> iswhite g' a \<Longrightarrow> iswhite g a \<and> mark g' a = mark g a"
  unfolding marks_by_def iswhite_wmark by metis

lemma marks_white: "marks g g' \<Longrightarrow> iswhite g' a \<Longrightarrow> iswhite g a \<and> mark g' a = mark g a"
  using marks_by_white unfolding marks_def by blast

lemma marks_by_cases:
  "marks_by N g g' \<Longrightarrow> mark g' a = mark g a \<or> iswhite g a \<and> \<not> iswhite g' a \<and> shaded g' (set N) a"
  unfolding marks_by_def by blast

lemma marks_nonwhite: "marks g g' \<Longrightarrow> \<not> iswhite g a \<Longrightarrow> mark g' a = mark g a \<and> \<not> iswhite g' a"
  unfolding marks_def iswhite_wmark [of g'] using marks_by_cases [of _ g g' a] by (auto simp: iswhite_wmark)

lemma shaded_mono:
  assumes "shaded g N a" "obj g' = obj g" "N \<subseteq> N'" "mark g' a = mark g a" "\<And>x. \<not> iswhite g x \<Longrightarrow> \<not> iswhite g' x"
  shows "shaded g' N' a"
  using assms by (auto simp: shaded_def isblack_def split: option.splits gcobject.splits)

lemma marks_trans:
  assumes "marks g g'" "marks g' g''" shows "marks g g''"
proof -
  obtain N N' where m: "marks_by N g g'" "marks_by N' g' g''"
    using assms by (auto simp: marks_def)
  note s = marks_by_sel [OF m(1)] marks_by_sel [OF m(2)]
  have later: "\<not> iswhite g' x \<Longrightarrow> \<not> iswhite g'' x" for x
    using marks_by_white [OF m(2)] by blast
  have "g'' = g\<lparr>mark := mark g'', gray := (N' @ N) @ gray g\<rparr>"
    using s by (cases g; cases g'; cases g'') simp
  moreover have "distinct (N' @ N)"
    using m by (auto simp: marks_by_def)
  moreover have "\<forall>a\<in>set (N' @ N). iswhite g a \<and> \<not> iswhite g'' a \<and> listable (obj g) a"
    using m s later marks_by_white [OF m(1)] by (auto simp: marks_by_def)
  moreover have "mark g'' a = mark g a \<or> iswhite g a \<and> \<not> iswhite g'' a \<and> shaded g'' (set (N' @ N)) a" for a
  proof (cases "mark g' a = mark g a")
    case True
    then show ?thesis
      using marks_by_cases [OF m(2), of a] shaded_mono [of g'' "set N'" a g'' "set (N' @ N)"]
      by (auto simp: iswhite_wmark)
  next
    case False
    then have *: "iswhite g a" "\<not> iswhite g' a" "shaded g' (set N) a"
      using marks_by_cases [OF m(1), of a] by auto
    then have "mark g'' a = mark g' a"
      using marks_by_cases [OF m(2), of a] by auto
    then show ?thesis
      using * later s shaded_mono [OF *(3), of g'' "set (N' @ N)"] by auto
  qed
  ultimately show ?thesis
    unfolding marks_def marks_by_def by blast
qed

lemma marks_wf:
  assumes "wf g" "marks g g'" shows "wf g'"
  using assms marks_white [OF assms(2)] marks_sel(1) [OF assms(2)] unfolding wf_def isblack_def by metis

text \<open>Marking from inside one object: it changes colour first, what it refers to is marked, and its own mark is set last.\<close>

lemma marks_wrap:
  assumes a: "iswhite g a" "\<not> wmark m" and mk: "marks (set_mark a m g) g2"
    and m': "\<not> wmark m'" and sh: "\<And>N. shaded (set_mark a m' g2) N a"
  shows "marks g (set_mark a m' g2)"
proof -
  let ?g1 = "set_mark a m g" and ?g' = "set_mark a m' g2"
  obtain N where N: "marks_by N ?g1 g2"
    using mk by (auto simp: marks_def)
  note s = marks_by_sel [OF N]
  have w: "iswhite ?g1 x \<longleftrightarrow> x \<noteq> a \<and> iswhite g x" "iswhite ?g' x \<longleftrightarrow> x \<noteq> a \<and> iswhite g2 x" for x
    using a m' by (auto simp: iswhite_wmark)
  have "?g' = g\<lparr>mark := mark ?g', gray := N @ gray g\<rparr>"
    using N unfolding marks_by_def set_mark_def by (cases g; cases g2) simp
  moreover have "\<forall>x\<in>set N. iswhite g x \<and> \<not> iswhite ?g' x \<and> listable (obj g) x"
    using N by (auto simp: marks_by_def w)
  moreover have "mark ?g' x = mark g x \<or> iswhite g x \<and> \<not> iswhite ?g' x \<and> shaded ?g' (set N) x" for x
  proof (cases "x = a")
    case True
    then show ?thesis
      using a sh w by auto
  next
    case False
    then consider "mark g2 x = mark g x" | "iswhite g x" "\<not> iswhite g2 x" "shaded g2 (set N) x"
      using marks_by_cases [OF N, of x] w by auto
    then show ?thesis
    proof cases
      case 2
      have "shaded ?g' (set N) x"
        using 2 False w by (intro shaded_mono [OF 2(3)]) auto
      then show ?thesis
        using 2 w by auto
    qed (use False in auto)
  qed
  ultimately show ?thesis
    using N unfolding marks_def marks_by_def by blast
qed


section \<open>The marking functions\<close>

text \<open>\<open>f\<close> marks the addresses \<open>A\<close>, on any state whose heap is \<open>H\<close>.\<close>

definition marking :: "heap \<Rightarrow> addr set \<Rightarrow> (gstate \<Rightarrow> gstate) \<Rightarrow> bool" where
  "marking H A f \<longleftrightarrow> (\<forall>g. wf g \<longrightarrow> obj g = H \<longrightarrow> marks g (f g) \<and> (\<forall>a\<in>A. \<not> iswhite (f g) a))"

lemma markingD:
  "marking (obj g) A f \<Longrightarrow> wf g \<Longrightarrow> marks g (f g)"
  "marking (obj g) A f \<Longrightarrow> wf g \<Longrightarrow> a \<in> A \<Longrightarrow> \<not> iswhite (f g) a"
  by (simp_all add: marking_def)

lemma marking_id [intro]: "marking H {} (\<lambda>g. g)"
  by (simp add: marking_def)

lemma marking_comp [intro]:
  assumes "marking H A f" "marking H B h" shows "marking H (A \<union> B) (\<lambda>g. h (f g))"
  unfolding marking_def
proof (intro allI impI)
  fix g :: gstate
  assume g: "wf g" "obj g = H"
  have f: "marks g (f g)" "\<forall>a\<in>A. \<not> iswhite (f g) a"
    using assms(1) g by (simp_all add: marking_def)
  have "wf (f g)" "obj (f g) = H"
    using marks_wf [OF g(1) f(1)] marks_sel(1) [OF f(1)] g by simp_all
  then have h: "marks (f g) (h (f g))" "\<forall>a\<in>B. \<not> iswhite (h (f g)) a"
    using assms(2) by (simp_all add: marking_def)
  show "marks g (h (f g)) \<and> (\<forall>a\<in>A \<union> B. \<not> iswhite (h (f g)) a)"
    using marks_trans [OF f(1) h(1)] marks_nonwhite [OF h(1)] f(2) h(2) by auto
qed

lemma marking_weaken: "marking H A f \<Longrightarrow> B \<subseteq> A \<Longrightarrow> marking H B f"
  by (auto simp: marking_def)

lemma marking_fold:
  assumes "\<And>x. x \<in> set xs \<Longrightarrow> marking H (A x) (f x)"
  shows "marking H (\<Union>x\<in>set xs. A x) (fold f xs)"
  using assms
proof (induction xs)
  case Nil
  show ?case by (simp add: marking_def)
next
  case (Cons x xs)
  have "marking H (A x \<union> (\<Union>x\<in>set xs. A x)) (\<lambda>g. fold f xs (f x g))"
    using Cons by (intro marking_comp) auto
  then show ?case
    by (simp add: comp_def)
qed

lemma marking_if_white:
  assumes "\<And>g. wf g \<Longrightarrow> obj g = H \<Longrightarrow> iswhite g a \<Longrightarrow> marks g (f g) \<and> \<not> iswhite (f g) a"
  shows "marking H {a} (\<lambda>g. if iswhite g a then f g else g)"
  using assms by (auto simp: marking_def)

lemma marks_wrap_same:
  assumes "iswhite g a" "\<not> wmark m" "marks (set_mark a m g) g2" "\<And>N. shaded g2 N a"
  shows "marks g g2"
proof -
  have "\<not> wmark (mark g2 a)"
    using marks_nonwhite [OF assms(3), of a] assms(2) by (simp add: iswhite_wmark)
  then show ?thesis
    using marks_wrap [OF assms(1-3), of "mark g2 a"] assms(4) by simp
qed

lemma marks_string:
  assumes "wf g" "iswhite g a" "obj g a = Some (GString s)"
  shows "marks g (set_mark a (unset_bit 0 (unset_bit (Suc 0) (mark g a))) g)"
  using assms by (intro marks_wrap_same [OF assms(2) _ marks_refl]) (auto simp: shaded_def isblack_def wf_def)

lemma marks_push:
  assumes "wf g" "iswhite g a" "listable (obj g) a"
  shows "marks g (set_mark a (unset_bit 0 (unset_bit (Suc 0) (mark g a))) g\<lparr>gray := a # gray g\<rparr>)"
    (is "marks g ?g'")
proof -
  obtain ob where ob: "obj g a = Some ob" "kind ob \<in> {KTable, KFunction, KProto, KThread}"
    using assms(3) by (auto simp: listable_def hask_def)
  have nb: "\<not> bit (mark g a) BLACKBIT"
    using assms ob by (auto simp: wf_def isblack_def)
  have "shaded ?g' {a} a"
    using ob nb by (cases ob) (auto simp: shaded_def isblack_def)
  then have "marks_by [a] g ?g'"
    using assms by (auto simp: marks_by_def set_mark_def iswhite_wmark)
  then show ?thesis
    by (auto simp: marks_def)
qed


text \<open>The depth to which marking recurs.\<close>

fun rank :: "gcobject \<Rightarrow> nat" where
  "rank (GUpval u) = 2" | "rank (GUdata m e) = 1" | "rank ob = 0"

lemma rank_value: "vok H v \<Longrightarrow> H (gcvalue v) = Some ob \<Longrightarrow> iscollectable v \<Longrightarrow> rank ob \<le> 1"
  by (cases v; cases ob) (auto simp: hask_def iscollectable_def)

lemma rank_kind: "kind ob \<noteq> KUpval \<Longrightarrow> kind ob \<noteq> KUdata \<Longrightarrow> rank ob = 0"
  by (cases ob) auto

lemma rank_table: "kind ob = KTable \<Longrightarrow> rank ob = 0"
  by (cases ob) auto

lemma shaded_udata:
  "obj g a = Some (GUdata m e) \<Longrightarrow> \<not> iswhite g e \<Longrightarrow> (\<forall>x\<in>set_option m. \<not> iswhite g x) \<Longrightarrow> isblack g a \<Longrightarrow> shaded g N a"
  by (auto simp: shaded_def)

lemma shaded_upval:
  assumes "obj g a = Some (GUpval u)" "\<forall>x\<in>vref (uv_value (obj g) u). \<not> iswhite g x"
    "case u of Closed c \<Rightarrow> isblack g a | Open th i \<Rightarrow> \<not> isblack g a"
  shows "shaded g N a"
  using assms by (auto simp: shaded_def split: upv.splits)

lemma reallymark_marks:
  assumes "wf g" "obj g a = Some ob" "iswhite g a" "rank ob < n"
  shows "marks g (reallymark n a g) \<and> \<not> iswhite (reallymark n a g) a"
  using assms
proof (induction n arbitrary: g a ob)
  case (Suc n)
  let ?m = "unset_bit 0 (unset_bit (Suc 0) (mark g a))"
  let ?b = "set_bit BLACKBIT ?m"
  have mo: "marking (obj g) {b} (\<lambda>g. if iswhite g b then reallymark n b g else g)"
    if "obj g b = Some ob'" "rank ob' < n" for b ob'
    using Suc.IH that by (intro marking_if_white) auto
  have ok: "ob_ok (obj g) ob" "\<not> isblack g a"
    using Suc.prems by (auto simp: wf_def)
  have wf': "wf (set_mark a m g)" if "\<not> wmark m" for m
    using Suc.prems(1) that by (auto simp: wf_def iswhite_wmark isblack_def)
  have done1: ?case if "marks g (reallymark (Suc n) a g)" "\<And>g'. g' = reallymark (Suc n) a g \<Longrightarrow> \<not> iswhite g' a"
    using that by blast
  show ?case
  proof (cases ob)
    case (GUdata m e)
    let ?mt = "\<lambda>g. case m of None \<Rightarrow> g | Some m \<Rightarrow> if iswhite g m then reallymark n m g else g"
    let ?f = "\<lambda>g. (\<lambda>g. if iswhite g e then reallymark n e g else g) (?mt g)"
    have e: "\<exists>ob'. obj g e = Some ob' \<and> rank ob' < n" "m = Some b \<Longrightarrow> \<exists>ob'. obj g b = Some ob' \<and> rank ob' < n" for b
      using ok Suc.prems GUdata by (auto simp: hask_def rank_table)
    have "marking (obj g) (set_option m) ?mt"
      using e(2) mo by (cases m) (auto intro: marking_id)
    then have f: "marking (obj (set_mark a ?b g)) (set_option m \<union> {e}) ?f"
      using e(1) mo by (intro marking_comp) auto
    have r: "reallymark (Suc n) a g = ?f (set_mark a ?b g)"
      using Suc.prems GUdata by (simp add: white2gray_def gray2black_def Let_def)
    have mk: "marks (set_mark a ?b g) (?f (set_mark a ?b g))" "\<And>x. x \<in> set_option m \<union> {e} \<Longrightarrow> \<not> iswhite (?f (set_mark a ?b g)) x"
      using markingD [OF f wf'] by simp_all
    have "shaded (?f (set_mark a ?b g)) N a" for N
      using Suc.prems GUdata mk(2) marks_sel(1) [OF mk(1)] marks_nonwhite [OF mk(1), of a]
      by (intro shaded_udata [of _ _ m e]) (auto simp: iswhite_wmark isblack_def)
    then have "marks g (?f (set_mark a ?b g))"
      by (intro marks_wrap_same [OF Suc.prems(3) _ mk(1)]) simp_all
    moreover have "\<not> iswhite (?f (set_mark a ?b g)) a"
      using marks_nonwhite [OF mk(1), of a] by (simp add: iswhite_wmark)
    ultimately show ?thesis
      unfolding r by blast
  next
    case (GUpval u)
    let ?v = "uv_value (obj g) u"
    let ?f = "\<lambda>g. if iscollectable ?v \<and> iswhite g (gcvalue ?v) then reallymark n (gcvalue ?v) g else g"
    define g2 where "g2 = ?f (set_mark a ?m g)"
    have v: "vok (obj g) ?v"
      using ok GUpval by simp
    have f: "marking (obj (set_mark a ?m g)) (vref ?v) ?f"
    proof (cases "iscollectable ?v")
      case True
      then obtain ob' where "obj g (gcvalue ?v) = Some ob'"
        using vok_vref [OF v] by (auto simp: vref_def)
      then show ?thesis
        using True rank_value [OF v] mo [of "gcvalue ?v" ob'] Suc.prems GUpval by (simp add: vref_def)
    qed (simp add: vref_def marking_id)
    have mk: "marks (set_mark a ?m g) g2" "\<And>x. x \<in> vref ?v \<Longrightarrow> \<not> iswhite g2 x"
      using markingD [OF f wf'] unfolding g2_def by simp_all
    have ma: "mark g2 a = ?m" "obj g2 = obj g"
      using marks_nonwhite [OF mk(1), of a] marks_sel(1) [OF mk(1)] by (simp_all add: iswhite_wmark)
    have r: "reallymark (Suc n) a g = (case u of Closed v \<Rightarrow> set_mark a ?b g2 | Open th i \<Rightarrow> g2)"
    proof -
      have "reallymark (Suc n) a g = (case u of Closed v \<Rightarrow> gray2black a g2 | Open th i \<Rightarrow> g2)"
        using Suc.prems GUpval by (simp add: white2gray_def Let_def g2_def split: upv.split)
      also have "\<dots> = (case u of Closed v \<Rightarrow> set_mark a ?b g2 | Open th i \<Rightarrow> g2)"
        by (cases u) (simp_all add: gray2black_def ma)
      finally show ?thesis .
    qed
    show ?thesis
    proof (cases u)
      case (Closed c)
      have "shaded (set_mark a ?b g2) N a" for N
        using Suc.prems GUpval Closed mk(2) ma by (intro shaded_upval [of _ _ u]) (auto simp: iswhite_wmark isblack_def)
      then show ?thesis
        unfolding r using Closed marks_wrap [OF Suc.prems(3) _ mk(1), of ?b] by (simp add: iswhite_wmark)
    next
      case (Open th i)
      have "shaded g2 N a" for N
        using Suc.prems GUpval Open mk(2) ma ok by (intro shaded_upval [of _ _ u]) (auto simp: iswhite_wmark isblack_def)
      then show ?thesis
        unfolding r using Open marks_wrap_same [OF Suc.prems(3) _ mk(1)] ma by (simp add: iswhite_wmark)
    qed
  next
    case (GString s)
    then show ?thesis
      using marks_string Suc.prems by (auto simp: white2gray_def iswhite_wmark)
  qed (use Suc.prems marks_push [OF Suc.prems(1,3)] in \<open>auto simp: white2gray_def iswhite_wmark listable_def hask_def\<close>)
qed simp

text \<open>Three levels are enough for every object.\<close>

lemma reallymarkobject_marks:
  assumes "wf g" "obj g a = Some ob" "iswhite g a"
  shows "marks g (reallymarkobject a g) \<and> \<not> iswhite (reallymarkobject a g) a"
  unfolding reallymarkobject_def by (rule reallymark_marks [OF assms]) (cases ob; simp)

lemma marking_object [intro]: "H a = Some ob \<Longrightarrow> marking H {a} (markobject a)"
  unfolding markobject_def [abs_def] by (rule marking_if_white) (use reallymarkobject_marks in blast)

lemma marking_value [intro]: "vok H v \<Longrightarrow> marking H (vref v) (markvalue v)"
proof (cases "iscollectable v")
  case True
  assume v: "vok H v"
  obtain ob where "H (gcvalue v) = Some ob"
    using vok_vref [OF v] True by (auto simp: vref_def)
  then show ?thesis
    using marking_object [of H "gcvalue v" ob] True by (simp add: markvalue_def [abs_def] markobject_def [abs_def] vref_def)
qed (simp add: marking_def vref_def markvalue_def)

lemma marking_string [intro]: "hask H a KString \<Longrightarrow> marking H {a} (stringmark a)"
  unfolding marking_def
proof (intro allI impI)
  fix g :: gstate assume a: "hask H a KString" and g: "wf g" "obj g = H"
  obtain s where s: "obj g a = Some (GString s)"
    using a g by (auto simp: hask_def elim: kind.elims)
  have "marks g (stringmark a g)"
    using marks_string [OF g(1) _ s] unset_white [of "mark g a"]
    by (cases "iswhite g a") (auto simp: stringmark_def white2gray_def iswhite_wmark)
  then show "marks g (stringmark a g) \<and> (\<forall>x\<in>{a}. \<not> iswhite (stringmark a g) x)"
    by (simp add: stringmark_def white2gray_def iswhite_wmark)
qed

lemma marking_values [intro]: "\<forall>v\<in>set vs. vok H v \<Longrightarrow> marking H (\<Union>(vref ` set vs)) (markvalues vs)"
  unfolding markvalues_def [abs_def] by (rule marking_fold) auto

lemma marking_objects:
  "\<forall>a\<in>set as. hask H a k \<Longrightarrow> marking H (set as) (fold markobject as)"
  using marking_fold [of as H "\<lambda>a. {a}" markobject] by (auto simp: hask_def)

lemma marking_opts [intro]:
  assumes "\<forall>x\<in>\<Union>(set_option ` set as). hask H x k" shows "marking H (\<Union>(set_option ` set as)) (markopts as)"
  unfolding markopts_def [abs_def]
proof (rule marking_fold)
  fix x assume x: "x \<in> set as"
  show "marking H (set_option x) (\<lambda>g. case x of None \<Rightarrow> g | Some a \<Rightarrow> markobject a g)"
  proof (cases x)
    case (Some a)
    then have "hask H a k"
      using assms x by force
    then show ?thesis
      using Some marking_object by (auto simp: hask_def)
  qed (simp add: marking_id)
qed

lemma marking_strings [intro]:
  assumes "\<forall>x\<in>\<Union>(set_option ` set as). hask H x KString" shows "marking H (\<Union>(set_option ` set as)) (stringmarks as)"
  unfolding stringmarks_def [abs_def]
proof (rule marking_fold)
  fix x assume x: "x \<in> set as"
  show "marking H (set_option x) (\<lambda>g. case x of None \<Rightarrow> g | Some a \<Rightarrow> stringmark a g)"
  proof (cases x)
    case (Some a)
    then have "hask H a KString"
      using assms x by force
    then show ?thesis
      using Some marking_string by (auto simp: hask_def)
  qed (simp add: marking_id)
qed

end
