(* ===== verification/Lua_Gc_Inv.thy ===== *)
theory Lua_Gc_Inv
  imports Lua_Gc_Marks
begin

text \<open>
  The invariant of the mark phase. Black objects have nothing white behind them (the ones being worked
  on, \<open>X\<close>, excepted), and every gray one is on the gray list, among those that are looked at again at
  the end (\<open>P\<close>), or settled. The gray list, \<open>grayagain\<close> and \<open>weak\<close> never share an object, so that one
  field \<open>gclist\<close> per object is enough to link them.
\<close>

section \<open>The invariant\<close>

fun can_be_black :: "gcobject \<Rightarrow> bool" where
  "can_be_black (GString s) = False"
| "can_be_black (GThread gt st tp ci) = False"
| "can_be_black (GUpval (Open th i)) = False"
| "can_be_black ob = True"

lemma can_be_black_upval [simp]: "can_be_black (GUpval u) \<longleftrightarrow> (\<forall>th i. u \<noteq> Open th i)"
  by (cases u) auto

definition blacks_ok :: "addr set \<Rightarrow> gstate \<Rightarrow> bool" where
  "blacks_ok X g \<longleftrightarrow>
     (\<forall>a ob. a \<notin> X \<longrightarrow> obj g a = Some ob \<longrightarrow> isblack g a \<longrightarrow>
        can_be_black ob \<and> (\<forall>x\<in>orefs (obj g) ob. \<not> iswhite g x))"

definition gclists :: "gstate \<Rightarrow> addr list" where
  "gclists g = gray g @ grayagain g @ weak g"

definition lists_ok :: "addr set \<Rightarrow> gstate \<Rightarrow> bool" where
  "lists_ok X g \<longleftrightarrow> distinct (gclists g) \<and> (\<forall>a\<in>set (gclists g). listable (obj g) a \<and> (a \<notin> X \<longrightarrow> isgray g a))"

definition uvs_ok :: "gstate \<Rightarrow> bool" where
  "uvs_ok g \<longleftrightarrow> (\<forall>a th i. obj g a = Some (GUpval (Open th i)) \<longrightarrow> a \<in> set (uvhead g))"

definition base :: "addr set \<Rightarrow> gstate \<Rightarrow> bool" where
  "base X g \<longleftrightarrow> wf g \<and> finite (dom (obj g)) \<and> uvs_ok g \<and> (\<forall>a\<in>X. \<not> iswhite g a) \<and> blacks_ok X g \<and> lists_ok X g"

text \<open>Of a weak table the metatable, and the array unless it is cleared, must be marked; its nodes are cleared in any case.\<close>

definition at_rest :: "gstate \<Rightarrow> addr \<Rightarrow> bool" where
  "at_rest g a =
     (case obj g a of
        Some (GString s) \<Rightarrow> True
      | Some (GUpval (Open th i)) \<Rightarrow> (\<forall>x\<in>orefs (obj g) (GUpval (Open th i)). \<not> iswhite g x)
      | Some (GThread gt st tp ci) \<Rightarrow>
          a \<in> set (grayagain g) \<and> (\<forall>x\<in>orefs (obj g) (GThread gt st tp ci). \<not> iswhite g x)
      | Some (GTable m arr nodes) \<Rightarrow>
          a \<in> set (weak g) \<and> (\<forall>x\<in>set_option m. \<not> iswhite g x) \<and>
          (bit (mark g a) VALUEWEAKBIT \<or> (\<forall>v\<in>set arr. \<forall>x\<in>vref v. \<not> iswhite g x))
      | _ \<Rightarrow> False)"

definition cover :: "addr set \<Rightarrow> gstate \<Rightarrow> bool" where
  "cover P g \<longleftrightarrow> (\<forall>a. obj g a \<noteq> None \<longrightarrow> isgray g a \<longrightarrow> a \<in> set (gray g) \<or> a \<in> P \<or> at_rest g a)"

lemma cover_mono: "cover P g \<Longrightarrow> P \<subseteq> Q \<Longrightarrow> cover Q g"
  by (auto simp: cover_def)

lemma orefs_at_rest:
  assumes "at_rest g a" "obj g' a = obj g a" "\<And>u. vref (uv_value (obj g') u) \<subseteq> vref (uv_value (obj g) u)"
    "\<And>x. \<not> iswhite g x \<Longrightarrow> \<not> iswhite g' x" "mark g' a = mark g a"
    "set (grayagain g) \<subseteq> set (grayagain g')" "set (weak g) \<subseteq> set (weak g')"
  shows "at_rest g' a"
proof -
  have "x \<in> vref (uv_value (obj g') u) \<Longrightarrow> x \<in> vref (uv_value (obj g) u)" for x u
    using assms(3) by blast
  then show ?thesis
    using assms(1,2,4-7) unfolding at_rest_def by (auto split: option.splits gcobject.splits upv.splits)
qed

section \<open>Marking preserves it\<close>

lemma marks_base:
  assumes "base X g" "marks g g'" shows "base X g'"
proof -
  obtain N where N: "marks_by N g g'"
    using assms(2) by (auto simp: marks_def)
  note s = marks_by_sel [OF N]
  have later: "\<not> iswhite g x \<Longrightarrow> \<not> iswhite g' x" for x
    using marks_nonwhite [OF assms(2)] by blast
  have X: "\<forall>a\<in>X. \<not> iswhite g a" and bl: "blacks_ok X g" and ls: "lists_ok X g" and wf: "wf g"
    using assms(1) by (auto simp: base_def)
  have "blacks_ok X g'"
    unfolding blacks_ok_def s
  proof (intro allI impI)
    fix a ob assume a: "a \<notin> X" "obj g a = Some ob" "isblack g' a"
    from marks_by_cases [OF N, of a]
    show "can_be_black ob \<and> (\<forall>x\<in>orefs (obj g) ob. \<not> iswhite g' x)"
    proof
      assume "mark g' a = mark g a"
      then have "isblack g a"
        using a by (simp add: isblack_def)
      then show ?thesis
        using a bl later unfolding blacks_ok_def by blast
    next
      assume "iswhite g a \<and> \<not> iswhite g' a \<and> shaded g' (set N) a"
      then show ?thesis
        using a s by (auto simp: shaded_def split: gcobject.splits)
    qed
  qed
  moreover have "lists_ok X g'"
  proof -
    have new: "a \<notin> set (gclists g)" if "a \<in> set N" for a
    proof
      assume "a \<in> set (gclists g)"
      then have "\<not> iswhite g a"
        using ls X unfolding lists_ok_def isgray_def by blast
      then show False
        using N that by (auto simp: marks_by_def)
    qed
    have "isgray g' a" if "a \<in> set N" for a
    proof -
      have *: "iswhite g a" "\<not> iswhite g' a" "listable (obj g) a"
        using N that by (auto simp: marks_by_def)
      then have "shaded g' (set N) a"
        using marks_by_cases [OF N, of a] by (auto simp: iswhite_wmark)
      moreover obtain ob where "obj g a = Some ob" "kind ob \<in> {KTable, KFunction, KProto, KThread}"
        using *(3) by (auto simp: listable_def hask_def)
      ultimately show ?thesis
        using *(2) s(1) by (cases ob) (auto simp: shaded_def isgray_def)
    qed
    moreover have "isgray g' a" if "isgray g a" for a
      using that marks_nonwhite [OF assms(2), of a] by (simp add: isgray_def isblack_def)
    ultimately show ?thesis
      using ls new N s unfolding lists_ok_def gclists_def by (auto simp: marks_by_def)
  qed
  ultimately show ?thesis
    using assms(1) marks_wf [OF wf assms(2)] X later s by (auto simp: base_def uvs_ok_def)
qed

lemma marks_cover:
  assumes "cover P g" "marks g g'" shows "cover P g'"
proof -
  obtain N where N: "marks_by N g g'"
    using assms(2) by (auto simp: marks_def)
  note s = marks_by_sel [OF N]
  have later: "\<not> iswhite g x \<Longrightarrow> \<not> iswhite g' x" for x
    using marks_nonwhite [OF assms(2)] by blast
  show ?thesis
    unfolding cover_def s
  proof (intro allI impI)
    fix a assume a: "obj g a \<noteq> None" "isgray g' a"
    from marks_by_cases [OF N, of a]
    show "a \<in> set (N @ gray g) \<or> a \<in> P \<or> at_rest g' a"
    proof
      assume m: "mark g' a = mark g a"
      then have "isgray g a"
        using a by (simp add: isgray_def isblack_def iswhite_def)
      then show ?thesis
        using assms(1) a orefs_at_rest [of g a g'] m later s by (auto simp: cover_def)
    next
      assume "iswhite g a \<and> \<not> iswhite g' a \<and> shaded g' (set N) a"
      then show ?thesis
        using a s by (auto simp: shaded_def isgray_def at_rest_def split: gcobject.splits upv.splits)
    qed
  qed
qed


lemmas marks_inv = marks_base marks_cover

section \<open>Changes to the object at hand\<close>

text \<open>Its bits may change as long as it does not become white.\<close>

lemma retag:
  assumes "base X g" "a \<in> X" "\<not> wmark m"
  shows "base X (set_mark a m g)" "a \<in> P \<Longrightarrow> cover P g \<Longrightarrow> cover P (set_mark a m g)"
proof -
  have w: "iswhite (set_mark a m g) x = iswhite g x" for x
    using assms by (auto simp: base_def iswhite_wmark)
  have b: "x \<noteq> a \<Longrightarrow> isblack (set_mark a m g) x = isblack g x" "x \<noteq> a \<Longrightarrow> isgray (set_mark a m g) x = isgray g x" for x
    using w by (auto simp: isblack_def isgray_def)
  have l: "gclists (set_mark a m g) = gclists g" "uvhead (set_mark a m g) = uvhead g"
      "grayagain (set_mark a m g) = grayagain g" "weak (set_mark a m g) = weak g"
    by (simp_all add: gclists_def set_mark_def)
  have "a \<noteq> x \<or> \<not> iswhite g x" for x
    using assms by (auto simp: base_def)
  then have "wf (set_mark a m g)"
    using assms(1) w b(1) unfolding base_def wf_def set_mark_sel by metis
  moreover have "blacks_ok X (set_mark a m g)"
    using assms(1,2) w b(1) unfolding base_def blacks_ok_def set_mark_sel by metis
  moreover have "lists_ok X (set_mark a m g)"
    using assms(1,2) b(2) unfolding base_def lists_ok_def set_mark_sel l by metis
  ultimately show "base X (set_mark a m g)"
    using assms w l by (auto simp: base_def uvs_ok_def)
  assume P: "a \<in> P" "cover P g"
  have "at_rest (set_mark a m g) x" if "at_rest g x" "x \<noteq> a" for x
    using that by (intro orefs_at_rest [OF that(1)]) (auto simp: w l)
  then show "cover P (set_mark a m g)"
    using P b(2) unfolding cover_def set_mark_sel by metis
qed

definition trim :: "gcobject \<Rightarrow> gcobject \<Rightarrow> bool" where
  "trim ob ob' \<longleftrightarrow> ob' = ob \<or>
     (\<exists>m arr nodes. ob = GTable m arr nodes \<and>
        ob' = GTable m arr (map (\<lambda>n. if snd n = Nil then removeentry n else n) nodes)) \<or>
     (\<exists>gt st st' tp ci. ob = GThread gt st tp ci \<and> ob' = GThread gt st' tp ci \<and>
        length st' = length st \<and> take tp st' = take tp st \<and> (\<forall>i<length st. st' ! i = st ! i \<or> st' ! i = Nil))"

lemma removeentry_Nil [simp]: "snd (removeentry n) = snd n"
  by (simp add: removeentry_def)

lemma hask_upd: "H a = Some ob \<Longrightarrow> kind ob' = kind ob \<Longrightarrow> hask (H(a \<mapsto> ob')) x k = hask H x k"
  by (auto simp: hask_def)

lemma vok_upd: "H a = Some ob \<Longrightarrow> kind ob' = kind ob \<Longrightarrow> vok (H(a \<mapsto> ob')) v = vok H v"
  by (cases v) (simp_all add: hask_upd)

lemma trim_kind: "trim ob ob' \<Longrightarrow> kind ob' = kind ob"
  by (auto simp: trim_def)

lemma trim_uv:
  assumes "H a = Some ob" "trim ob ob'"
  shows "uv_value (H(a \<mapsto> ob')) u = uv_value H u \<or> uv_value (H(a \<mapsto> ob')) u = Nil"
  using assms by (cases u) (auto simp: uv_value_def trim_def split: option.splits gcobject.splits)

lemma ob_ok_upd:
  assumes "H a = Some ob" "kind ob' = kind ob" "\<And>u. vok H (uv_value H u) \<Longrightarrow> vok H (uv_value (H(a \<mapsto> ob')) u)"
    "ob_ok H x"
  shows "ob_ok (H(a \<mapsto> ob')) x"
  using assms(3,4) by (cases x) (auto simp: hask_upd [of H a, OF assms(1,2)] vok_upd [of H a, OF assms(1,2)] node_ok_def)

lemma trim_ob_ok: "trim ob ob' \<Longrightarrow> ob_ok H ob \<Longrightarrow> ob_ok H ob'"
  by (auto simp: trim_def node_ok_def)

lemma trim_orefs: "trim ob ob' \<Longrightarrow> orefs H ob' = orefs H ob"
  by (auto simp: trim_def node_refs_def split: if_splits)

lemma orefs_upd: "(\<And>u. vref (uv_value H' u) \<subseteq> vref (uv_value H u)) \<Longrightarrow> orefs H' x \<subseteq> orefs H x"
  by (cases x) auto

lemma vref_Nil [simp]: "vref Nil = {}"
  by (simp add: vref_def iscollectable_def)

lemma put_obj_sel [simp]:
  "obj (put_obj a ob g) = (obj g)(a \<mapsto> ob)" "mark (put_obj a ob g) = mark g" "gray (put_obj a ob g) = gray g"
  "grayagain (put_obj a ob g) = grayagain g" "weak (put_obj a ob g) = weak g" "uvhead (put_obj a ob g) = uvhead g"
  "gclists (put_obj a ob g) = gclists g" "iswhite (put_obj a ob g) x = iswhite g x"
  "isblack (put_obj a ob g) x = isblack g x" "isgray (put_obj a ob g) x = isgray g x"
  by (simp_all add: put_obj_def gclists_def iswhite_def isblack_def isgray_def)

lemma listable_upd: "H a = Some ob \<Longrightarrow> kind ob' = kind ob \<Longrightarrow> listable (H(a \<mapsto> ob')) x = listable H x"
  by (simp add: listable_def hask_upd)

lemma trimmed:
  assumes "base X g" "obj g a = Some ob" "trim ob ob'"
  shows "base X (put_obj a ob' g)" "cover P g \<Longrightarrow> cover P (put_obj a ob' g)"
proof -
  note k = trim_kind [OF assms(3)]
  let ?H = "(obj g)(a \<mapsto> ob')"
  have uv: "uv_value ?H u = uv_value (obj g) u \<or> uv_value ?H u = Nil" for u
    using trim_uv [of "obj g" a, OF assms(2,3)] by blast
  have uvr: "vref (uv_value ?H u) \<subseteq> vref (uv_value (obj g) u)" for u
    using uv [of u] by auto
  have vu: "vok (obj g) (uv_value (obj g) u) \<Longrightarrow> vok (obj g) (uv_value ?H u)" for u
    using uv [of u] by auto
  have sub: "orefs ?H y \<subseteq> orefs (obj g) x" if "?H b = Some y" "obj g b = Some x" for b x y
    using that orefs_upd [of ?H "obj g" y, OF uvr] trim_orefs [OF assms(3), of "obj g"] assms(2)
    by (auto split: if_splits)
  have old: "\<exists>x. obj g b = Some x \<and> can_be_black y = can_be_black x" if "?H b = Some y" for b y
    using that assms(2,3) by (auto simp: trim_def split: if_splits)
  have "wf (put_obj a ob' g)"
    unfolding wf_def put_obj_sel
  proof (intro allI impI)
    fix b y assume b: "?H b = Some y"
    then obtain x where x: "obj g b = Some x" "ob_ok (obj g) x" "iswhite g b \<longrightarrow> \<not> isblack g b"
      using assms(1) old unfolding base_def wf_def by blast
    have "ob_ok (obj g) y"
      using b x assms(2,3) trim_ob_ok by (auto split: if_splits)
    then show "ob_ok ?H y \<and> (iswhite g b \<longrightarrow> \<not> isblack g b)"
      using ob_ok_upd [of "obj g" a, OF assms(2) k vu] x by blast
  qed
  moreover have "blacks_ok X (put_obj a ob' g)"
    unfolding blacks_ok_def put_obj_sel
  proof (intro allI impI)
    fix b y assume b: "b \<notin> X" "?H b = Some y" "isblack g b"
    then obtain x where x: "obj g b = Some x" "can_be_black y = can_be_black x"
      using old by blast
    then show "can_be_black y \<and> (\<forall>z\<in>orefs ?H y. \<not> iswhite g z)"
      using assms(1) b sub [OF b(2) x(1)] unfolding base_def blacks_ok_def by blast
  qed
  moreover have "uvs_ok (put_obj a ob' g)"
    using assms by (auto simp: base_def uvs_ok_def trim_def)
  ultimately show "base X (put_obj a ob' g)"
    using assms(1,2) by (auto simp: base_def lists_ok_def listable_upd [of "obj g" a, OF assms(2) k] insert_absorb)
  assume P: "cover P g"
  have "at_rest (put_obj a ob' g) x" if x: "at_rest g x" for x
  proof (cases "?H x = obj g x")
    case True
    then show ?thesis
      using x uvr by (intro orefs_at_rest [OF x]) auto
  next
    case False
    then have "x = a" "ob' \<noteq> ob"
      using assms(2) by (auto split: if_splits)
    then show ?thesis
      using x assms(2,3) unfolding at_rest_def trim_def by (auto simp: uv_value_def)
  qed
  then show "cover P (put_obj a ob' g)"
    using P assms(2) unfolding cover_def by (auto split: if_splits)
qed

end
