(* ===== verification/Lua_Gc_Prop.thy ===== *)
theory Lua_Gc_Prop
  imports Lua_Gc_Inv
begin

text \<open>The traversal of one gray object keeps the invariant and comes closer to the end.\<close>

section \<open>Progress\<close>

definition whites :: "gstate \<Rightarrow> addr set" where
  "whites g = {a \<in> dom (obj g). iswhite g a}"

definition gcmeasure :: "gstate \<Rightarrow> nat" where
  "gcmeasure g = card (whites g) + length (gray g)"

definition frame where
  "frame g = ((uvhead g, openupval g, mainthread g, running g, registry g, mt g),
              (white g, gcstate g, tmudata g, udata g, tm_mode g, tm_gc g))"

text \<open>What holds of any two states of one mark phase.\<close>

definition adv :: "gstate \<Rightarrow> gstate \<Rightarrow> bool" where
  "adv g g' \<longleftrightarrow>
     (\<forall>x. \<not> iswhite g x \<longrightarrow> \<not> iswhite g' x) \<and> set (grayagain g) \<subseteq> set (grayagain g') \<and> set (weak g) \<subseteq> set (weak g') \<and>
     frame g' = frame g \<and> (\<forall>x k. hask (obj g') x k = hask (obj g) x k) \<and> gcmeasure g' \<le> gcmeasure g"

lemma adv_refl [simp]: "adv g g"
  by (simp add: adv_def)

lemma adv_trans [trans]: "adv g g' \<Longrightarrow> adv g' g'' \<Longrightarrow> adv g g''"
  unfolding adv_def by auto

lemma hask_dom: "\<forall>x k. hask H' x k = hask H x k \<Longrightarrow> dom H' = dom H"
proof -
  assume h: "\<forall>x k. hask H' x k = hask H x k"
  have "x \<in> dom K \<longleftrightarrow> (\<exists>k. hask K x k)" for K x
    by (auto simp: hask_def)
  then show ?thesis
    using h by (simp add: set_eq_iff)
qed

lemma marks_adv:
  assumes "finite (dom (obj g))" "marks g g'" shows "adv g g'"
proof -
  obtain N where N: "marks_by N g g'"
    using assms(2) by (auto simp: marks_def)
  note s = marks_by_sel [OF N]
  have n: "set N \<subseteq> whites g" "distinct N"
    using N by (auto simp: marks_by_def whites_def listable_def hask_def)
  have f: "finite (whites g)"
    using assms(1) by (simp add: whites_def)
  have "whites g' \<subseteq> whites g - set N"
    using N marks_by_white [OF N] s by (auto simp: whites_def marks_by_def)
  then have "card (whites g') \<le> card (whites g) - length N"
    using n f card_mono [of "whites g - set N" "whites g'"] by (simp add: card_Diff_subset distinct_card)
  moreover have "length N \<le> card (whites g)"
    using n f card_mono [of "whites g" "set N"] by (simp add: distinct_card)
  ultimately show ?thesis
    using marks_nonwhite [OF assms(2)] s by (simp add: adv_def frame_def gcmeasure_def)
qed

lemma retag_adv: "base X g \<Longrightarrow> a \<in> X \<Longrightarrow> \<not> wmark m \<Longrightarrow> adv g (set_mark a m g)"
proof -
  assume a: "base X g" "a \<in> X" "\<not> wmark m"
  then have w: "iswhite (set_mark a m g) x = iswhite g x" for x
    by (auto simp: base_def iswhite_wmark)
  then show ?thesis
    by (simp add: adv_def whites_def gcmeasure_def frame_def) (simp add: set_mark_def)
qed

lemma trim_adv:
  assumes "obj g a = Some ob" "trim ob ob'" shows "adv g (put_obj a ob' g)"
proof -
  have "whites (put_obj a ob' g) = whites g"
    using assms(1) by (auto simp: whites_def)
  then show ?thesis
    using hask_upd [of "obj g" a, OF assms(1) trim_kind [OF assms(2)]]
    by (simp add: adv_def gcmeasure_def) (simp add: frame_def put_obj_def)
qed

section \<open>One object\<close>

lemma finish_black:
  assumes "base {a} g" "a \<notin> set (gclists g)" "obj g a = Some ob" "can_be_black ob" "\<forall>x\<in>orefs (obj g) ob. \<not> iswhite g x"
  shows "base {} g"
proof -
  have "blacks_ok {} g"
    using assms(1,3-5) unfolding base_def blacks_ok_def by (metis option.inject singletonD)
  then show ?thesis
    using assms(1,2) by (auto simp: base_def lists_ok_def)
qed

lemma finish_gray: "base {a} g \<Longrightarrow> \<not> isblack g a \<Longrightarrow> base {} g"
  unfolding base_def blacks_ok_def lists_ok_def isgray_def by auto

lemma cover_done: "cover (insert a P) g \<Longrightarrow> at_rest g a \<or> isblack g a \<Longrightarrow> cover P g"
  unfolding cover_def isgray_def by auto

text \<open>Linking the object at hand into one of the lists.\<close>

lemma relisted:
  assumes "base {a} g" "a \<notin> set (gclists g)" "listable (obj g) a"
    "g' = g\<lparr>weak := a # weak g\<rparr> \<or> g' = g\<lparr>grayagain := a # grayagain g\<rparr>"
  shows "base {a} g'" "cover P g \<Longrightarrow> cover P g'" "adv g g'"
proof -
  have s: "obj g' = obj g" "mark g' = mark g" "gray g' = gray g" "uvhead g' = uvhead g" "frame g' = frame g"
      "set (gclists g') = insert a (set (gclists g))" "set (weak g) \<subseteq> set (weak g')"
      "set (grayagain g) \<subseteq> set (grayagain g')" "distinct (gclists g) \<Longrightarrow> distinct (gclists g')"
    using assms(2,4) by (auto simp: gclists_def frame_def)
  have c: "iswhite g' x = iswhite g x" "isblack g' x = isblack g x" "isgray g' x = isgray g x" for x
    using s by (simp_all add: iswhite_def isblack_def isgray_def)
  show "base {a} g'"
    using assms(1,3) s by (simp add: base_def wf_def uvs_ok_def blacks_ok_def lists_ok_def c)
  show "adv g g'"
    using s by (simp add: adv_def gcmeasure_def whites_def c)
  assume P: "cover P g"
  have "at_rest g x \<Longrightarrow> at_rest g' x" for x
    by (erule orefs_at_rest) (simp_all add: s c)
  then show "cover P g'"
    using P by (simp add: cover_def s c) blast
qed

lemma popped:
  assumes "base {} g" "gray g = a # rest"
  defines "g1 \<equiv> (gray2black a g)\<lparr>gray := rest\<rparr>"
  shows "base {a} g1" "cover P g \<Longrightarrow> cover P g1" "adv g g1" "gcmeasure g1 < gcmeasure g" "obj g1 = obj g"
    "isblack g1 a" "a \<notin> set (gclists g1)" "listable (obj g1) a"
proof -
  have ls: "lists_ok {} g"
    using assms(1) by (simp add: base_def)
  have a: "a \<in> set (gclists g)" "isgray g a" "listable (obj g) a"
    using ls assms(2) by (auto simp: lists_ok_def gclists_def)
  have s: "obj g1 = obj g" "mark g1 = (mark g)(a := set_bit BLACKBIT (mark g a))" "gray g1 = rest" "uvhead g1 = uvhead g"
      "frame g1 = frame g" "weak g1 = weak g" "grayagain g1 = grayagain g"
    by (simp_all add: g1_def gray2black_def frame_def set_mark_def)
  have w: "iswhite g1 x = iswhite g x" for x
    by (simp add: iswhite_wmark s)
  have b: "x \<noteq> a \<Longrightarrow> isblack g1 x = isblack g x" "x \<noteq> a \<Longrightarrow> isgray g1 x = isgray g x" for x
    using w by (simp_all add: isblack_def isgray_def s)
  show "obj g1 = obj g" "isblack g1 a" "listable (obj g1) a"
    using a by (simp_all add: s isblack_def)
  have l: "gclists g = a # gclists g1"
    using assms(2) by (simp add: gclists_def s)
  then show "a \<notin> set (gclists g1)"
    using ls by (simp add: lists_ok_def)
  have na: "\<not> iswhite g a"
    using a by (simp add: isgray_def)
  have "wf g1"
    using assms(1) w b(1) na unfolding base_def wf_def s(1) by metis
  moreover have "blacks_ok {a} g1"
    using assms(1) w b(1) unfolding base_def blacks_ok_def s(1) by auto
  moreover have "lists_ok {a} g1"
    using ls l b(2) unfolding lists_ok_def s(1) by auto
  ultimately show "base {a} g1"
    using assms(1) w na s by (auto simp: base_def uvs_ok_def)
  have wh: "whites g1 = whites g"
    by (simp add: whites_def s(1) w)
  then show "gcmeasure g1 < gcmeasure g" "adv g g1"
    using assms(2) s w by (simp_all add: gcmeasure_def adv_def)
  assume P: "cover P g"
  have r: "at_rest g1 x" if "at_rest g x" "x \<noteq> a" for x
    using that by (intro orefs_at_rest [OF that(1)]) (auto simp: w s)
  show "cover P g1"
    unfolding cover_def
  proof (intro allI impI)
    fix x assume x: "obj g1 x \<noteq> None" "isgray g1 x"
    then have "x \<noteq> a"
      by (auto simp: isgray_def isblack_def s)
    then show "x \<in> set (gray g1) \<or> x \<in> P \<or> at_rest g1 x"
      using P x r b(2) assms(2) s unfolding cover_def by auto
  qed
qed

text \<open>An object other than a table or a thread: everything it refers to is marked.\<close>

definition kept :: "gstate \<Rightarrow> gstate \<Rightarrow> bool" where
  "kept g g' \<longleftrightarrow> base {} g' \<and> (\<forall>P. cover P g \<longrightarrow> cover P g') \<and> adv g g'"

lemma traversed:
  assumes "base {a} g" "a \<notin> set (gclists g)" "obj g a = Some ob" "can_be_black ob" "isblack g a"
    "marking (obj g) (orefs (obj g) ob) f"
  shows "kept g (f g)"
proof -
  have g: "wf g" "finite (dom (obj g))" "\<not> iswhite g a"
    using assms(1) by (auto simp: base_def)
  have m: "marks g (f g)" "\<forall>x\<in>orefs (obj g) ob. \<not> iswhite (f g) x"
    using markingD [OF assms(6) g(1)] by auto
  obtain N where N: "marks_by N g (f g)"
    using m(1) by (auto simp: marks_def)
  have "a \<notin> set N"
    using N g(3) by (auto simp: marks_by_def)
  then have "a \<notin> set (gclists (f g))"
    using assms(2) marks_by_sel [OF N] by (simp add: gclists_def)
  then have "base {} (f g)"
    using finish_black [OF marks_base [OF assms(1) m(1)], of ob] assms(3,4) m(2) marks_sel(1) [OF m(1)] by simp
  then show ?thesis
    using marks_cover [OF _ m(1)] marks_adv [OF g(2) m(1)] by (simp add: kept_def)
qed

lemma traverseclosure_C_ok:
  assumes "ob_ok H (GCClosure e us)" shows "marking H (orefs H (GCClosure e us)) (traverseclosure_C e us)"
proof -
  have "marking H ({e} \<union> \<Union>(vref ` set us)) (\<lambda>g. markvalues us (markobject e g))"
    using assms by (intro marking_comp) (auto simp: hask_def)
  then show ?thesis
    unfolding traverseclosure_C_def [abs_def] by (rule marking_weaken) simp
qed

lemma traverseclosure_L_ok:
  assumes "ob_ok H (GLClosure e p us)" shows "marking H (orefs H (GLClosure e p us)) (traverseclosure_L e p us)"
proof -
  have "marking H (({e} \<union> {p}) \<union> set us) (\<lambda>g. fold markobject us (markobject p (markobject e g)))"
    using assms by (intro marking_comp marking_objects [where k = KUpval]) (auto simp: hask_def)
  then show ?thesis
    unfolding traverseclosure_L_def [abs_def] by (rule marking_weaken) auto
qed

lemma marking_strings_one: "(\<forall>x\<in>set_option s. hask H x KString) \<Longrightarrow> marking H (set_option s) (stringmarks [s])"
  using marking_strings [of "[s]" H] by simp

lemma traverseproto_ok: "ob_ok H (GProto s k us ps ls) \<Longrightarrow> marking H (orefs H (GProto s k us ps ls)) (traverseproto s k us ps ls)"
proof -
  assume o: "ob_ok H (GProto s k us ps ls)"
  have "marking H ((((set_option s \<union> \<Union>(vref ` set k)) \<union> \<Union>(set_option ` set us)) \<union> \<Union>(set_option ` set ps)) \<union> \<Union>(set_option ` set ls))
      (traverseproto s k us ps ls)"
    unfolding traverseproto_def [abs_def]
    using o by (intro marking_comp marking_strings_one marking_opts [where k = KProto]) auto
  then show ?thesis
    by simp
qed


text \<open>One that is gray again when it has been traversed: a thread or a weak table.\<close>

lemma grayed:
  assumes "base {a} g" "\<not> iswhite g a" "cover (insert a P) g" "at_rest (black2gray a g) a"
  shows "base {} (black2gray a g)" "cover P (black2gray a g)" "adv g (black2gray a g)"
proof -
  have m: "\<not> wmark (unset_bit BLACKBIT (mark g a))"
    using assms(2) by (simp add: iswhite_wmark)
  note r = retag [OF assms(1) _ m] retag_adv [OF assms(1) _ m]
  show "base {} (black2gray a g)"
    using finish_gray [of a "black2gray a g"] r(1) by (simp add: black2gray_def isblack_def)
  show "cover P (black2gray a g)"
    using cover_done [of a P "black2gray a g"] r(2) assms(3,4) by (simp add: black2gray_def)
  show "adv g (black2gray a g)"
    using r(3) by (simp add: black2gray_def)
qed

lemma traversestack_ok:
  assumes g: "base {a} g" "cover (insert a P) g" "obj g a = Some (GThread gt st tp ci)" "\<not> isblack g a" "a \<in> set (grayagain g)"
  defines "g' \<equiv> traversestack a gt st tp ci g"
  shows "base {} g'" "cover P g'" "adv g g'"
proof -
  let ?f = "\<lambda>g. markvalues (take tp st) (markvalue gt g)"
  let ?st = "take tp st @ replicate (min (foldl max tp ci + 1) (length st) - tp) Nil @ drop (max tp (foldl max tp ci + 1)) st"
  let ?ob = "GThread gt ?st tp ci"
  have wf: "wf g" "finite (dom (obj g))" "\<not> iswhite g a"
    using g by (auto simp: base_def)
  then have ok: "ob_ok (obj g) (GThread gt st tp ci)"
    using wf_ob g(3) by blast
  have "marking (obj g) (vref gt \<union> \<Union>(vref ` set (take tp st))) ?f"
    using ok by (intro marking_comp) auto
  note m = markingD [OF this wf(1)]
  have eq: "g' = put_obj a ?ob (?f g)"
    by (simp add: g'_def traversestack_def put_obj_def Let_def)
  have o: "obj (?f g) a = Some (GThread gt st tp ci)" "grayagain (?f g) = grayagain g"
    using marks_sel [OF m(1)] g(3) by simp_all
  have le: "tp \<le> foldl max tp ci"
    by (induction ci rule: rev_induct) auto
  have tr: "trim (GThread gt st tp ci) ?ob"
    unfolding trim_def using le by (auto simp: nth_append min_def)
  have b: "base {a} g'" "cover (insert a P) g'"
    unfolding eq using trimmed [OF marks_base [OF g(1) m(1)] o(1) tr] marks_cover [OF g(2) m(1)] by auto
  have "at_rest g' a"
    using m(2) g(5) o trim_orefs [OF tr] unfolding eq at_rest_def by auto
  moreover have "\<not> isblack g' a"
    using g(4) marks_nonwhite [OF m(1) wf(3)] by (simp add: eq isblack_def)
  ultimately show "base {} g'" "cover P g'"
    using finish_gray [OF b(1)] cover_done [OF b(2)] by auto
  show "adv g g'"
    unfolding eq using marks_adv [OF wf(2) m(1)] trim_adv [OF o(1) tr] by (rule adv_trans)
qed

lemma node_marks_ok:
  assumes "\<forall>n\<in>set nodes. node_ok H n" "v \<in> set (concat (map (node_marks k w) (rev nodes)))"
  shows "vok H v"
  using assms by (auto simp: node_marks_def node_ok_def split: if_splits)

lemma node_marks_all: "\<Union>(vref ` set (concat (map (node_marks False False) (rev nodes)))) = \<Union>(node_refs ` set nodes)"
  by (auto simp: node_marks_def node_refs_def split: if_splits)

lemma weak_bits_value: "bit (weak_bits k v m) VALUEWEAKBIT = v" "wmark (weak_bits k v m) = wmark m"
  by (auto simp: weak_bits_def Let_def VALUEWEAKBIT_def KEYWEAKBIT_def wmark_def bit_unset_bit_iff bit_set_bit_iff)

lemma strongly:
  assumes "base {a} g" "a \<notin> set (gclists g)" "obj g a = Some (GTable m arr nodes)" "isblack g a"
  shows "kept g (put_obj a (GTable m arr (map (\<lambda>n. if snd n = Nil then removeentry n else n) nodes))
    (markvalues (concat (map (node_marks False False) (rev nodes))) (markvalues (rev arr) (case m of None \<Rightarrow> g | Some m \<Rightarrow> markobject m g))))"
    (is "kept g (put_obj a ?ob (?f g))")
proof -
  have wf: "wf g"
    using assms(1) by (simp add: base_def)
  then have ok: "ob_ok (obj g) (GTable m arr nodes)"
    using wf_ob assms(3) by blast
  have 1: "marking (obj g) (set_option m) (\<lambda>g. case m of None \<Rightarrow> g | Some m \<Rightarrow> markobject m g)"
    using ok by (cases m) (auto simp: hask_def)
  have 2: "marking (obj g) (\<Union>(vref ` set (rev arr))) (markvalues (rev arr))"
    using ok by (intro marking_values) auto
  have 3: "marking (obj g) (\<Union>(vref ` set (concat (map (node_marks False False) (rev nodes)))))
      (markvalues (concat (map (node_marks False False) (rev nodes))))"
    using ok node_marks_ok [of nodes "obj g"] by (intro marking_values) simp
  have mk: "marking (obj g) (orefs (obj g) (GTable m arr nodes)) ?f"
    by (rule marking_weaken [OF marking_comp [OF marking_comp [OF 1 2] 3]]) (use node_marks_all [of nodes] in auto)
  have k: "kept g (?f g)"
    using traversed [OF assms(1,2,3) _ assms(4) mk] by simp
  have o: "obj (?f g) a = Some (GTable m arr nodes)"
    using assms(3) marks_sel(1) [OF markingD(1) [OF mk wf]] by simp
  have tr: "trim (GTable m arr nodes) ?ob"
    by (auto simp: trim_def)
  show ?thesis
    using k trimmed [OF _ o tr] trim_adv [OF o tr] adv_trans unfolding kept_def by blast
qed


text \<open>A weak table: what it is allowed to hold back stays white.\<close>

lemma weakly:
  assumes g: "base {a} g" "a \<notin> set (gclists g)" "obj g a = Some (GTable m arr nodes)"
    and w: "\<not> wmark mk" "bit mk VALUEWEAKBIT = v"
    and h: "marking (obj g) (if v then {} else \<Union>(vref ` set arr)) h"
    and m: "\<forall>x\<in>set_option m. \<not> iswhite g x"
  defines "g3 \<equiv> (set_mark a mk g)\<lparr>weak := a # weak g\<rparr>"
  assumes put: "g4 = h g3 \<or> g4 = put_obj a (GTable m arr (map (\<lambda>n. if snd n = Nil then removeentry n else n) nodes)) (h g3)"
  shows "base {} (black2gray a g4)" "cover P g \<Longrightarrow> cover P (black2gray a g4)" "adv g (black2gray a g4)"
proof -
  let ?ob = "GTable m arr (map (\<lambda>n. if snd n = Nil then removeentry n else n) nodes)"
  let ?g2 = "set_mark a mk g"
  note r = retag [OF g(1) _ w(1)] retag_adv [OF g(1) _ w(1)]
  have l: "gclists ?g2 = gclists g" "weak ?g2 = weak g"
    by (simp_all add: gclists_def set_mark_def)
  have "listable (obj ?g2) a"
    using g(3) by (simp add: listable_def hask_def)
  note p = relisted [of a ?g2 g3, OF _ _ this]
  have b3: "base {a} g3" "adv g g3" "cover P g \<Longrightarrow> cover (insert a P) g3"
    using p r g(2) l adv_trans cover_mono [OF _ subset_insertI, of P g a] by (auto simp: g3_def)
  have o: "obj g3 = obj g" "a \<in> set (weak g3)" "mark g3 a = mk"
    by (simp_all add: g3_def)
  have wf: "wf g3" "finite (dom (obj g3))" "\<not> iswhite g3 a"
    using b3 by (auto simp: base_def)
  note hm = markingD [of g3, unfolded o(1), OF h wf(1)]
  have b4: "base {a} (h g3)" "adv g (h g3)" "cover P g \<Longrightarrow> cover (insert a P) (h g3)"
    using b3 marks_base [OF _ hm(1)] marks_cover [OF _ hm(1)] marks_adv [OF wf(2) hm(1)] adv_trans by blast+
  have o4: "obj (h g3) a = Some (GTable m arr nodes)"
    using marks_sel(1) [OF hm(1)] g(3) o by simp
  have tr: "trim (GTable m arr nodes) ?ob"
    by (auto simp: trim_def)
  have b5: "base {a} g4" "adv g g4" "cover P g \<Longrightarrow> cover (insert a P) g4"
    using put b4 trimmed [OF _ o4 tr] trim_adv [OF o4 tr] adv_trans by blast+
  have s4: "mark g4 a = mk" "a \<in> set (weak g4)" "obj g4 a = Some (GTable m arr nodes) \<or> obj g4 a = Some ?ob"
      "\<And>x. iswhite g4 x = iswhite (h g3) x" "\<not> iswhite g4 a"
    using put o o4 marks_nonwhite [OF hm(1) wf(3)] marks_sel [OF hm(1)] by auto
  have mw: "\<forall>x\<in>set_option m. \<not> iswhite g4 x"
    using m b5(2) by (auto simp: adv_def)
  have hv: "\<not> v \<Longrightarrow> \<forall>w\<in>set arr. \<forall>x\<in>vref w. \<not> iswhite (h g3) x"
    using hm(2) by fastforce
  have "at_rest (black2gray a g4) a"
  proof -
    have "iswhite (black2gray a g4) x = iswhite g4 x" for x
      by (simp add: black2gray_def iswhite_wmark)
    moreover have "weak (black2gray a g4) = weak g4"
      by (simp add: black2gray_def set_mark_def)
    moreover have "bit (mark (black2gray a g4) a) VALUEWEAKBIT = v"
      using s4(1) w(2) by (simp add: black2gray_def VALUEWEAKBIT_def BLACKBIT_def bit_unset_bit_iff)
    moreover have "obj (black2gray a g4) a = obj g4 a"
      by (simp add: black2gray_def)
    ultimately show ?thesis
      using s4 mw hv unfolding at_rest_def by (cases v) auto
  qed
  note q = grayed [OF b5(1) s4(5) _ this]
  show "base {} (black2gray a g4)" "adv g (black2gray a g4)"
    using grayed(1,3) [OF b5(1) s4(5), of UNIV] \<open>at_rest (black2gray a g4) a\<close> b5(2) adv_trans
    by (auto simp: cover_def)
  show "cover P g \<Longrightarrow> cover P (black2gray a g4)"
    using q(2) b5(3) by blast
qed


lemma traversetable_ok:
  assumes g: "base {a} g" "a \<notin> set (gclists g)" "obj g a = Some (GTable m arr nodes)" "isblack g a"
    and t: "traversetable a m arr nodes g = (w, g')"
  shows "kept g (if w then black2gray a g' else g')"
proof -
  let ?mm = "\<lambda>g. case m of None \<Rightarrow> g | Some m \<Rightarrow> markobject m g"
  let ?C = "\<lambda>k v. concat (map (node_marks k v) (rev nodes))"
  obtain k v where kv: "weak_mode (?mm g) m = (k, v)"
    by (cases "weak_mode (?mm g) m")
  have wf: "wf g" "finite (dom (obj g))" "\<not> iswhite g a"
    using g(1) by (auto simp: base_def)
  then have ok: "ob_ok (obj g) (GTable m arr nodes)"
    using wf_ob g(3) by blast
  have 1: "marking (obj g) (set_option m) ?mm"
    using ok by (cases m) (auto simp: hask_def)
  note mk = markingD [OF 1 wf(1)]
  show ?thesis
  proof (cases "k \<or> v")
    case False
    then have "w = False" "g' = put_obj a (GTable m arr (map (\<lambda>n. if snd n = Nil then removeentry n else n) nodes))
        (markvalues (?C False False) (markvalues (rev arr) (?mm g)))"
      using t kv by (simp_all add: traversetable_def put_obj_def Let_def)
    then show ?thesis
      using strongly [OF g] by simp
  next
    case True
    let ?h = "\<lambda>g. if k \<and> v then g else markvalues (?C k v) (if v then g else markvalues (rev arr) g)"
    let ?bits = "weak_bits k v (mark (?mm g) a)"
    let ?g3 = "(set_mark a ?bits (?mm g))\<lparr>weak := a # weak (?mm g)\<rparr>"
    have t': "w = True" "g' = ?h ?g3 \<or> g' = put_obj a (GTable m arr (map (\<lambda>n. if snd n = Nil then removeentry n else n) nodes)) (?h ?g3)"
      using t kv True by (auto simp: traversetable_def put_obj_def Let_def split: if_splits)
    have o: "obj (?mm g) = obj g"
      using marks_sel(1) [OF mk(1)] .
    have C: "marking (obj g) (\<Union>(vref ` set (?C k v))) (markvalues (?C k v))"
      using ok node_marks_ok [of nodes "obj g"] by (intro marking_values) simp
    have A: "marking (obj g) (\<Union>(vref ` set (rev arr))) (markvalues (rev arr))"
      using ok by (intro marking_values) auto
    have h: "marking (obj (?mm g)) (if v then {} else \<Union>(vref ` set arr)) ?h"
      unfolding o using C marking_weaken [OF marking_comp [OF A C]]
      by (cases k; cases v) (auto simp: marking_id intro: marking_weaken)
    obtain N where N: "marks_by N g (?mm g)"
      using mk(1) by (auto simp: marks_def)
    have "a \<notin> set N"
      using N wf(3) by (auto simp: marks_by_def)
    then have l: "a \<notin> set (gclists (?mm g))"
      using g(2) marks_by_sel [OF N] by (simp add: gclists_def)
    have b: "\<not> wmark ?bits" "bit ?bits VALUEWEAKBIT = v" "\<forall>x\<in>set_option m. \<not> iswhite (?mm g) x"
      using marks_nonwhite [OF mk(1) wf(3)] mk(2) by (auto simp: weak_bits_value iswhite_wmark)
    note r = weakly [OF marks_base [OF g(1) mk(1)] l _ b(1,2) h b(3) t'(2)]
    have "kept (?mm g) (black2gray a g')"
      using r o g(3) by (simp add: kept_def)
    then show ?thesis
      using t'(1) marks_cover [OF _ mk(1)] adv_trans [OF marks_adv [OF wf(2) mk(1)]] by (simp add: kept_def)
  qed
qed

lemma listable_cases:
  assumes "listable H a"
  obtains m arr nodes where "H a = Some (GTable m arr nodes)"
  | e us where "H a = Some (GCClosure e us)" | e p us where "H a = Some (GLClosure e p us)"
  | gt st tp ci where "H a = Some (GThread gt st tp ci)" | s k us ps ls where "H a = Some (GProto s k us ps ls)"
proof -
  obtain ob where ob: "H a = Some ob" "kind ob \<in> {KTable, KFunction, KProto, KThread}"
    using assms by (auto simp: listable_def hask_def)
  show thesis
    by (cases ob) (use ob that in auto)
qed

theorem propagatemark_ok:
  assumes "base {} g" "gray g \<noteq> []"
  shows "kept g (propagatemark g)" "gcmeasure (propagatemark g) < gcmeasure g"
proof -
  obtain a rest where ar: "gray g = a # rest"
    using assms(2) by (cases "gray g") auto
  define g1 where "g1 = (gray2black a g)\<lparr>gray := rest\<rparr>"
  note p = popped [OF assms(1) ar, folded g1_def]
  note pm = propagatemark_def [of g, unfolded ar list.case Let_def, folded g1_def]
  have step: "kept g1 (propagatemark g)"
    using p(8)
  proof (cases rule: listable_cases)
    case (1 m arr nodes)
    obtain w g' where t: "traversetable a m arr nodes g1 = (w, g')"
      by (cases "traversetable a m arr nodes g1")
    then have "propagatemark g = (if w then black2gray a g' else g')"
      using 1 by (simp add: pm)
    then show ?thesis
      using traversetable_ok [OF p(1,7) 1 p(6) t] by simp
  next
    case (2 e us)
    have "propagatemark g = traverseclosure_C e us g1"
      using 2 by (simp add: pm)
    then show ?thesis
      using traversed [OF p(1,7) 2 _ p(6) traverseclosure_C_ok] wf_ob [OF _ 2] p(1) by (simp add: base_def)
  next
    case (3 e pr us)
    have "propagatemark g = traverseclosure_L e pr us g1"
      using 3 by (simp add: pm)
    then show ?thesis
      using traversed [OF p(1,7) 3 _ p(6) traverseclosure_L_ok] wf_ob [OF _ 3] p(1) by (simp add: base_def)
  next
    case (5 s k us ps ls)
    have "propagatemark g = traverseproto s k us ps ls g1"
      using 5 by (simp add: pm)
    then show ?thesis
      using traversed [OF p(1,7) 5 _ p(6) traverseproto_ok] wf_ob [OF _ 5] p(1) by (simp add: base_def)
  next
    case (4 gt st tp ci)
    let ?g2 = "g1\<lparr>grayagain := a # grayagain g1\<rparr>"
    have e: "propagatemark g = traversestack a gt st tp ci (black2gray a ?g2)"
      using 4 by (simp add: pm)
    note r = relisted [OF p(1,7,8), of ?g2, simplified]
    have na: "\<not> wmark (unset_bit BLACKBIT (mark ?g2 a))"
      using r(1) by (simp add: base_def iswhite_wmark)
    note q = retag [OF r(1) _ na] retag_adv [OF r(1) _ na]
    have s: "obj (black2gray a ?g2) a = Some (GThread gt st tp ci)" "\<not> isblack (black2gray a ?g2) a"
        "a \<in> set (grayagain (black2gray a ?g2))"
      using 4 by (simp_all add: black2gray_def isblack_def set_mark_def)
    have b: "base {a} (black2gray a ?g2)" "adv g1 (black2gray a ?g2)"
      using q r adv_trans by (auto simp: black2gray_def)
    have c: "cover P g1 \<Longrightarrow> cover (insert a P) (black2gray a ?g2)" for P
      using q(2) [where P = "insert a P"] r(2) cover_mono [OF _ subset_insertI, of P _ a] by (simp add: black2gray_def)
    note t = traversestack_ok [OF b(1) _ s]
    have "cover UNIV (black2gray a ?g2)"
      by (simp add: cover_def)
    then have "base {} (propagatemark g)" "adv g1 (propagatemark g)"
      unfolding e using t(1,3) [of UNIV] b(2) adv_trans by auto
    then show ?thesis
      using t(2) c unfolding e kept_def by blast
  qed
  then show "kept g (propagatemark g)"
    using p(2,3) adv_trans unfolding kept_def by blast
  show "gcmeasure (propagatemark g) < gcmeasure g"
    using step p(4) unfolding kept_def adv_def by linarith
qed

lemma keeping_trans: "kept g g' \<Longrightarrow> kept g' g'' \<Longrightarrow> kept g g''"
  using adv_trans unfolding kept_def by blast

text \<open>All gray objects: the loop ends, on any finite heap.\<close>

theorem propagateall_ok:
  assumes "base {} g"
  shows "\<exists>g'. propagateall g = Some g' \<and> kept g g' \<and> gray g' = []"
  using assms
proof (induction g rule: measure_induct_rule [of gcmeasure])
  case (less g)
  show ?case
  proof (cases "gray g = []")
    case True
    then show ?thesis
      using less.prems by (subst propagateall.simps) (simp add: kept_def)
  next
    case False
    note p = propagatemark_ok [OF less.prems False]
    obtain g' where "propagateall (propagatemark g) = Some g'" "kept (propagatemark g) g'" "gray g' = []"
      using less.IH [OF p(2)] p(1) by (auto simp: kept_def)
    then show ?thesis
      using False keeping_trans [OF p(1)] by (subst propagateall.simps) auto
  qed
qed

end
