(* ===== verification/Lua_Gc_Atomic.thy ===== *)
theory Lua_Gc_Atomic
  imports Lua_Gc_Prop
begin

text \<open>
  The atomic end of the mark phase: from the invariant of the phase to a heap in which no reference of
  a marked object leads to a white one.
\<close>

section \<open>The invariant of the phase\<close>

text \<open>Looked at again in the end: \<open>grayagain\<close>, the weak tables, and the open upvalues.\<close>

definition open_uvs :: "gstate \<Rightarrow> addr set" where
  "open_uvs g = {a. \<exists>th i. obj g a = Some (GUpval (Open th i))}"

definition again :: "gstate \<Rightarrow> addr set" where
  "again g = set (grayagain g) \<union> set (weak g) \<union> open_uvs g"

definition roots :: "gstate \<Rightarrow> addr set" where
  "roots g = {mainthread g, running g} \<union> vref (registry g) \<union> \<Union>(set_option ` set (mt g)) \<union> set (tmudata g)"

definition roots_ok :: "gstate \<Rightarrow> bool" where
  "roots_ok g \<longleftrightarrow> hask (obj g) (mainthread g) KThread \<and> hask (obj g) (running g) KThread \<and> vok (obj g) (registry g) \<and>
     (\<forall>m\<in>\<Union>(set_option ` set (mt g)). hask (obj g) m KTable) \<and>
     (\<forall>u\<in>set (tmudata g) \<union> set (udata g). hask (obj g) u KUdata)"

definition phase_inv :: "gstate \<Rightarrow> bool" where
  "phase_inv g \<longleftrightarrow> base {} g \<and> cover (again g) g \<and> roots_ok g \<and>
     \<not> iswhite g (mainthread g) \<and> (\<forall>x\<in>vref (registry g). \<not> iswhite g x)"

lemma adv_fields:
  assumes "adv g g'"
  shows "uvhead g' = uvhead g" "openupval g' = openupval g" "mainthread g' = mainthread g" "running g' = running g"
    "registry g' = registry g" "mt g' = mt g" "white g' = white g" "gcstate g' = gcstate g" "tmudata g' = tmudata g"
    "udata g' = udata g" "tm_mode g' = tm_mode g" "tm_gc g' = tm_gc g"
  using assms by (auto simp: adv_def frame_def)

lemma adv_vok: "adv g g' \<Longrightarrow> vok (obj g') v = vok (obj g) v"
  by (cases v) (auto simp: adv_def)

lemma adv_roots_ok: "adv g g' \<Longrightarrow> roots_ok g' = roots_ok g"
  using adv_vok [of g g'] adv_fields [of g g'] by (auto simp: roots_ok_def adv_def)

lemma base_parts: "base X g \<Longrightarrow> wf g" "base X g \<Longrightarrow> finite (dom (obj g))"
  by (simp_all add: base_def)

lemma marks_kept: "base {} g \<Longrightarrow> marks g g' \<Longrightarrow> kept g g'"
  using marks_base marks_cover marks_adv base_parts(2) unfolding kept_def by blast

section \<open>Upvalues\<close>

lemma remarkupval_ok:
  assumes "base {} g" shows "marks g (remarkupval u g)"
    "isgray g u \<Longrightarrow> obj g u = Some (GUpval w) \<Longrightarrow> x \<in> vref (uv_value (obj g) w) \<Longrightarrow> \<not> iswhite (remarkupval u g) x"
proof -
  have "vok (obj g) (upvalue_of g u)"
    using wf_ob [OF base_parts(1) [OF assms], of u] by (auto simp: upvalue_of_def split: option.split gcobject.split)
  note m = markingD [OF marking_value [OF this] base_parts(1) [OF assms]]
  show "marks g (remarkupval u g)"
    using m(1) by (simp add: remarkupval_def)
  assume "isgray g u" "obj g u = Some (GUpval w)" "x \<in> vref (uv_value (obj g) w)"
  then show "\<not> iswhite (remarkupval u g) x"
    using m(2) by (simp add: remarkupval_def upvalue_of_def)
qed

lemma remark_all:
  assumes "base {} g"
  shows "marks g (fold remarkupval us g) \<and>
    (\<forall>u w. u \<in> set us \<longrightarrow> isgray g u \<longrightarrow> obj g u = Some (GUpval w) \<longrightarrow>
       (\<forall>x\<in>vref (uv_value (obj g) w). \<not> iswhite (fold remarkupval us g) x))"
  using assms
proof (induction us arbitrary: g)
  case (Cons v us)
  let ?g1 = "remarkupval v g"
  note r = remarkupval_ok [OF Cons.prems, of v]
  have b: "base {} ?g1"
    using marks_base [OF Cons.prems r(1)] .
  note i = Cons.IH [OF b]
  have o: "obj ?g1 = obj g"
    using marks_sel(1) [OF r(1)] .
  have gr: "isgray g u \<Longrightarrow> isgray ?g1 u" for u
    using marks_nonwhite [OF r(1), of u] by (simp add: isgray_def isblack_def)
  have "\<not> iswhite (fold remarkupval us ?g1) x"
    if "u \<in> set (v # us)" "isgray g u" "obj g u = Some (GUpval w)" "x \<in> vref (uv_value (obj g) w)" for u w x
  proof (cases "u \<in> set us")
    case True
    then show ?thesis
      using i gr that o by auto
  next
    case False
    then have "\<not> iswhite ?g1 x"
      using r(2) that by auto
    then show ?thesis
      using marks_nonwhite i by blast
  qed
  then show ?case
    using marks_trans [OF r(1)] i by auto
qed simp

lemma remarked:
  assumes "base {} g" "cover (again g) g"
  shows "kept g (remarkupvals g)" "cover (set (grayagain g) \<union> set (weak g)) (remarkupvals g)"
proof -
  let ?g' = "remarkupvals g"
  note r = remark_all [OF assms(1), of "uvhead g", folded remarkupvals_def]
  show "kept g ?g'"
    using marks_kept [OF assms(1)] r by blast
  obtain N where N: "marks_by N g ?g'"
    using r by (auto simp: marks_def)
  have o: "obj ?g' = obj g"
    using marks_by_sel(1) [OF N] .
  have rest: "at_rest ?g' a" if a: "a \<in> open_uvs g" "isgray ?g' a" for a
  proof -
    obtain th i where u: "obj g a = Some (GUpval (Open th i))"
      using a by (auto simp: open_uvs_def)
    have "\<forall>x\<in>orefs (obj g) (GUpval (Open th i)). \<not> iswhite ?g' x"
      using marks_by_cases [OF N, of a]
    proof
      assume "mark ?g' a = mark g a"
      then have "isgray g a"
        using a by (simp add: isgray_def isblack_def iswhite_def)
      moreover have "a \<in> set (uvhead g)"
        using assms(1) u by (auto simp: base_def uvs_ok_def)
      ultimately show ?thesis
        using r u by auto
    next
      assume "iswhite g a \<and> \<not> iswhite ?g' a \<and> shaded ?g' (set N) a"
      then show ?thesis
        using u o by (auto simp: shaded_def)
    qed
    then show ?thesis
      using u o by (simp add: at_rest_def)
  qed
  have "cover (again g) ?g'"
    using marks_cover [OF assms(2)] r by blast
  then show "cover (set (grayagain g) \<union> set (weak g)) ?g'"
    using rest unfolding cover_def again_def by blast
qed

section \<open>The lists that are gone through again\<close>

lemma requeued:
  assumes "base {} g" "gray g = []" "cover Q g"
    "g' = g\<lparr>gray := weak g, weak := []\<rparr> \<and> R = set (weak g) \<or> g' = g\<lparr>gray := grayagain g, grayagain := []\<rparr> \<and> R = set (grayagain g)"
  shows "base {} g'" "cover (Q - R) g'"
    "obj g' = obj g" "mark g' = mark g" "frame g' = frame g"
proof -
  have s: "obj g' = obj g" "mark g' = mark g" "uvhead g' = uvhead g" "frame g' = frame g"
      "set (gclists g') = set (gclists g)" "distinct (gclists g) \<Longrightarrow> distinct (gclists g')"
    using assms(2,4) by (auto simp: gclists_def frame_def)
  have c: "iswhite g' x = iswhite g x" "isblack g' x = isblack g x" "isgray g' x = isgray g x" for x
    using s by (simp_all add: iswhite_def isblack_def isgray_def)
  show "obj g' = obj g" "mark g' = mark g" "frame g' = frame g"
    using s by auto
  show "base {} g'"
    using assms(1) s by (simp add: base_def wf_def uvs_ok_def blacks_ok_def lists_ok_def c)
  have "at_rest g x \<Longrightarrow> x \<in> set (gray g') \<or> at_rest g' x" for x
    using assms(4) by (auto simp: at_rest_def c s split: option.splits gcobject.splits upv.splits)
  then show "cover (Q - R) g'"
    using assms(2,3,4) unfolding cover_def s c by fastforce
qed

lemma keptD: "kept g g' \<Longrightarrow> base {} g'" "kept g g' \<Longrightarrow> cover P g \<Longrightarrow> cover P g'" "kept g g' \<Longrightarrow> adv g g'"
  by (simp_all add: kept_def)

lemma adv_white: "adv g g' \<Longrightarrow> \<not> iswhite g x \<Longrightarrow> \<not> iswhite g' x"
  by (simp add: adv_def)

text \<open>The three rounds: from the invariant of the phase to nothing gray that is not settled.\<close>

lemma markmt_ok: "roots_ok g \<Longrightarrow> marking (obj g) (\<Union>(set_option ` set (mt g))) (markopts (mt g))"
  by (rule marking_opts [where k = KTable]) (simp add: roots_ok_def)

lemma requeue_frame:
  assumes "frame g' = frame g" "obj g' = obj g" "mark g' = mark g"
  shows "roots_ok g' = roots_ok g" "roots g' = roots g" "iswhite g' x = iswhite g x"
  using assms by (auto simp: roots_ok_def frame_def roots_def iswhite_def)

lemma rounds:
  assumes "phase_inv g"
  obtains g1 g2 g3 g4 g5
  where "propagateall (remarkupvals g) = Some g1" "g2 = g1\<lparr>gray := weak g1, weak := []\<rparr>"
    "propagateall (markmt (markobject (running g2) g2)) = Some g3"
    "g4 = g3\<lparr>gray := grayagain g3, grayagain := []\<rparr>" "propagateall g4 = Some g5"
    "base {} g5" "cover {} g5" "gray g5 = []" "roots_ok g5" "frame g5 = frame g"
    "\<forall>x\<in>roots g - set (tmudata g). \<not> iswhite g5 x"
proof -
  have g: "base {} g" "cover (again g) g" "roots_ok g"
    using assms by (simp_all add: phase_inv_def)
  note r = remarked [OF g(1,2)]
  obtain g1 where g1: "propagateall (remarkupvals g) = Some g1" "kept (remarkupvals g) g1" "gray g1 = []"
    using propagateall_ok [OF keptD(1) [OF r(1)]] by blast
  have a1: "adv g g1" "base {} g1"
    using keptD(1,3) [OF g1(2)] keptD(3) [OF r(1)] adv_trans by blast+
  have c1: "cover (set (grayagain g1) \<union> set (weak g1)) g1"
    by (rule cover_mono [OF keptD(2) [OF g1(2) r(2)]]) (use a1(1) in \<open>auto simp: adv_def\<close>)
  define g2 where "g2 = g1\<lparr>gray := weak g1, weak := []\<rparr>"
  note q2 = requeued [OF a1(2) g1(3) c1 disjI1 [OF conjI [OF g2_def refl]]]
  note f2 = requeue_frame [OF q2(5,3,4)]
  have ro2: "roots_ok g2"
    using f2(1) adv_roots_ok [OF a1(1)] g(3) by simp
  let ?f = "\<lambda>g. markopts (mt g2) (markobject (running g2) g)"
  have "marking (obj g2) ({running g2} \<union> \<Union>(set_option ` set (mt g2))) ?f"
    using markmt_ok [OF ro2] ro2 by (intro marking_comp) (auto simp: roots_ok_def hask_def)
  note m = markingD [OF this base_parts(1) [OF q2(1)]]
  have "marking (obj g2) {running g2} (markobject (running g2))"
    using ro2 by (auto simp: roots_ok_def hask_def)
  note mo = markingD(1) [OF this base_parts(1) [OF q2(1)]]
  have eq: "markmt (markobject (running g2) g2) = ?f g2"
    using marks_sel(8) [OF mo] by (simp add: markmt_def)
  have k2: "kept g2 (?f g2)"
    using marks_kept [OF q2(1) m(1)] .
  obtain g3 where g3: "propagateall (?f g2) = Some g3" "kept (?f g2) g3" "gray g3 = []"
    using propagateall_ok [OF keptD(1) [OF k2]] by blast
  have k3: "kept g2 g3"
    using keeping_trans [OF k2 g3(2)] .
  have c3: "cover (set (grayagain g3)) g3"
    by (rule cover_mono [OF keptD(2) [OF k3 q2(2)]]) (use keptD(3) [OF k3] in \<open>auto simp: adv_def g2_def\<close>)
  define g4 where "g4 = g3\<lparr>gray := grayagain g3, grayagain := []\<rparr>"
  note q4 = requeued [OF keptD(1) [OF k3] g3(3) c3 disjI2 [OF conjI [OF g4_def refl]], unfolded Diff_cancel]
  note f4 = requeue_frame [OF q4(5,3,4)]
  obtain g5 where g5: "propagateall g4 = Some g5" "kept g4 g5" "gray g5 = []"
    using propagateall_ok [OF q4(1)] by blast
  have ro5: "roots_ok g5"
    using adv_roots_ok [OF keptD(3) [OF g5(2)]] f4(1) adv_roots_ok [OF keptD(3) [OF k3]] ro2 by simp
  have fr: "frame g5 = frame g"
    using keptD(3) [OF g5(2)] keptD(3) [OF k3] a1(1) q2(5) q4(5) by (simp add: adv_def)
  have up: "\<not> iswhite g1 x \<Longrightarrow> \<not> iswhite g5 x" "\<not> iswhite (?f g2) x \<Longrightarrow> \<not> iswhite g5 x" for x
    using adv_white [OF keptD(3) [OF g5(2)], of x] adv_white [OF keptD(3) [OF k3], of x]
      adv_white [OF keptD(3) [OF g3(2)], of x] f2(3) f4(3) by auto
  have fl: "running g2 = running g" "mt g2 = mt g"
    using adv_fields [OF a1(1)] by (simp_all add: g2_def)
  have "\<not> iswhite g1 (mainthread g)" "\<forall>x\<in>vref (registry g). \<not> iswhite g1 x"
    using assms adv_white [OF a1(1)] by (auto simp: phase_inv_def)
  then have "\<forall>x\<in>roots g - set (tmudata g). \<not> iswhite g5 x"
    using up m(2) fl by (auto simp: roots_def)
  then show thesis
    using that [OF g1(1) g2_def _ g4_def g5(1) keptD(1) [OF g5(2)] keptD(2) [OF g5(2) q4(2)] g5(3) ro5 fr] g3(1) eq by simp
qed

end
