(* ===== verification/Lua_Gc_Clear.thy ===== *)
theory Lua_Gc_Clear
  imports Lua_Gc_Atomic
begin

text \<open>The end of the atomic step: userdata with finalizers come back to life, and weak tables are cleared.\<close>

section \<open>Userdata to be finalized\<close>

lemma same_colours:
  assumes "obj g' = obj g" "gray g' = gray g" "grayagain g' = grayagain g" "weak g' = weak g" "uvhead g' = uvhead g"
    "\<And>x. iswhite g' x = iswhite g x" "\<And>x. isblack g' x = isblack g x" "\<And>x. hask (obj g) x KTable \<Longrightarrow> mark g' x = mark g x"
  shows "base X g \<Longrightarrow> base X g'" "cover P g \<Longrightarrow> cover P g'"
proof -
  have c: "isgray g' x = isgray g x" "gclists g' = gclists g" for x
    using assms by (simp_all add: isgray_def gclists_def)
  show "base X g \<Longrightarrow> base X g'"
    by (simp add: base_def wf_def uvs_ok_def blacks_ok_def lists_ok_def assms(1-7) c)
  have "at_rest g x \<Longrightarrow> at_rest g' x" for x
    using assms(8) [of x] unfolding at_rest_def
    by (auto simp: assms(1-7) hask_def split: option.splits gcobject.splits upv.splits)
  then show "cover P g \<Longrightarrow> cover P g'"
    by (auto simp: cover_def assms(1-4) c)
qed

definition separated :: "gstate \<Rightarrow> gstate \<Rightarrow> bool" where
  "separated g g' \<longleftrightarrow>
     (base {} g \<longrightarrow> base {} g') \<and> (\<forall>P. cover P g \<longrightarrow> cover P g') \<and> obj g' = obj g \<and> gray g' = gray g \<and> weak g' = weak g \<and>
     (\<forall>x. iswhite g' x = iswhite g x) \<and>
     (mainthread g', running g', registry g', mt g', white g') = (mainthread g, running g, registry g, mt g, white g)"

lemma separated_trans: "separated g g' \<Longrightarrow> separated g' g'' \<Longrightarrow> separated g g''"
  by (simp add: separated_def)

lemma markfinalized_ok:
  assumes "hask (obj g) u KUdata" shows "separated g (markfinalized u g)"
proof -
  have c: "iswhite (markfinalized u g) x = iswhite g x" "isblack (markfinalized u g) x = isblack g x" for x
    by (auto simp: markfinalized_def iswhite_wmark wmark_def isblack_def FINALIZEDBIT_def BLACKBIT_def bit_set_bit_iff)
  have s: "obj (markfinalized u g) = obj g" "gray (markfinalized u g) = gray g" "grayagain (markfinalized u g) = grayagain g"
      "weak (markfinalized u g) = weak g" "uvhead (markfinalized u g) = uvhead g"
      "(mainthread (markfinalized u g), running (markfinalized u g), registry (markfinalized u g), mt (markfinalized u g), white (markfinalized u g))
       = (mainthread g, running g, registry g, mt g, white g)"
    by (simp_all add: markfinalized_def set_mark_def)
  have "mark (markfinalized u g) x = mark g x" if "hask (obj g) x KTable" for x
    using that assms by (auto simp: markfinalized_def hask_def)
  note r = same_colours [OF s(1-5) c this]
  show ?thesis
    using r s c by (auto simp: separated_def)
qed

lemma tmudata_ok: "separated g (g\<lparr>tmudata := l\<rparr>)" "separated g (g\<lparr>udata := l\<rparr>)"
  using same_colours [of "g\<lparr>tmudata := l\<rparr>" g] same_colours [of "g\<lparr>udata := l\<rparr>" g]
  by (auto simp: separated_def iswhite_def isblack_def)

lemma separate_ok:
  assumes "\<forall>u\<in>set us. hask (obj g) u KUdata" "separate all us g = (ks, g')"
  shows "separated g g' \<and> set (tmudata g) \<subseteq> set (tmudata g') \<and> set (tmudata g') \<subseteq> set (tmudata g) \<union> set us"
  using assms
proof (induction all us g arbitrary: ks g' rule: separate.induct)
  case (1 all g)
  then show ?case
    by (simp add: separated_def)
next
  case (2 all u us g)
  let ?m = "markfinalized u g"
  have m: "separated g ?m" "obj ?m = obj g" "tmudata ?m = tmudata g"
    using markfinalized_ok [of g u] 2(4) by (simp_all add: separated_def) (simp add: markfinalized_def set_mark_def)
  consider (skip) "(\<not> iswhite g u \<and> \<not> all) \<or> bit (mark g u) FINALIZEDBIT"
    | (none) "\<not> ((\<not> iswhite g u \<and> \<not> all) \<or> bit (mark g u) FINALIZEDBIT)" "gfasttm g (udata_mt g u) (tm_gc g) = None"
    | (tm) "\<not> ((\<not> iswhite g u \<and> \<not> all) \<or> bit (mark g u) FINALIZEDBIT)" "gfasttm g (udata_mt g u) (tm_gc g) \<noteq> None"
    by blast
  then show ?case
  proof cases
    case skip
    then obtain k where "separate all us g = (k, g')"
      using 2(5) by (auto split: prod.splits)
    then show ?thesis
      using 2(1) [OF skip] 2(4) by auto
  next
    case none
    then obtain k where "separate all us ?m = (k, g')"
      using 2(5) by (auto split: prod.splits)
    then show ?thesis
      using 2(2) [OF none] 2(4) m separated_trans [OF m(1)] by auto
  next
    case tm
    let ?t = "?m\<lparr>tmudata := tmudata ?m @ [u]\<rparr>"
    have "separate all us ?t = (ks, g')"
      using 2(5) unfolding separate.simps Let_def by (simp only: tm if_False)
    moreover have "separated g ?t"
      using separated_trans [OF m(1) tmudata_ok(1)] .
    ultimately show ?thesis
      using 2(3) [OF tm refl, of ks g'] 2(4) m separated_trans [of g ?t] by auto
  qed
qed

lemma coloured:
  assumes "base {} g" "obj g a = Some ob" "a \<notin> set (gclists g)" "\<not> wmark m"
  shows "base {a} (set_mark a m g)" "cover P g \<Longrightarrow> cover (insert a P) (set_mark a m g)" "adv g (set_mark a m g)"
proof -
  let ?g' = "set_mark a m g"
  have w: "iswhite ?g' x \<longleftrightarrow> x \<noteq> a \<and> iswhite g x" for x
    using assms(4) by (auto simp: iswhite_wmark)
  have b: "x \<noteq> a \<Longrightarrow> isblack ?g' x = isblack g x" "x \<noteq> a \<Longrightarrow> isgray ?g' x = isgray g x" for x
    using w by (auto simp: isblack_def isgray_def)
  have l: "gclists ?g' = gclists g" "uvhead ?g' = uvhead g" "grayagain ?g' = grayagain g" "weak ?g' = weak g" "frame ?g' = frame g"
    by (simp_all add: gclists_def set_mark_def frame_def)
  have "wf ?g'"
    using assms(1) w b(1) unfolding base_def wf_def set_mark_sel by metis
  moreover have "blacks_ok {a} ?g'"
    using assms(1) w b(1) unfolding base_def blacks_ok_def set_mark_sel by auto
  moreover have "lists_ok {a} ?g'"
    using assms(1,3) b(2) unfolding base_def lists_ok_def set_mark_sel l by auto
  ultimately show "base {a} ?g'"
    using assms(1) w l by (simp add: base_def uvs_ok_def)
  have "whites ?g' \<subseteq> whites g" "finite (whites g)"
    using base_parts(2) [OF assms(1)] by (auto simp: whites_def w)
  then show "adv g ?g'"
    using card_mono [of "whites g" "whites ?g'"] w l by (simp add: adv_def gcmeasure_def)
  assume P: "cover P g"
  have "at_rest ?g' x" if "at_rest g x" "x \<noteq> a" for x
    using that by (intro orefs_at_rest [OF that(1)]) (auto simp: w l)
  then show "cover (insert a P) ?g'"
    using P b(2) unfolding cover_def set_mark_sel by auto
qed

definition mark_udata :: "nat \<Rightarrow> addr option \<Rightarrow> addr \<Rightarrow> gstate \<Rightarrow> gstate" where
  "mark_udata n m e g =
     (let g = (case m of None \<Rightarrow> g | Some m \<Rightarrow> if iswhite g m then reallymark n m g else g)
      in if iswhite g e then reallymark n e g else g)"

lemma reallymark_udata:
  "obj g u = Some (GUdata m e) \<Longrightarrow>
   reallymark (Suc n) u g = mark_udata n m e (set_mark u (set_bit BLACKBIT (unset_bit 0 (unset_bit (Suc 0) (mark g u)))) g)"
  by (simp add: white2gray_def gray2black_def mark_udata_def Let_def)

lemma marking_udata:
  assumes "ob_ok H (GUdata m e)" "0 < n" shows "marking H (orefs H (GUdata m e)) (mark_udata n m e)"
proof -
  have o: "marking H {b} (\<lambda>g. if iswhite g b then reallymark n b g else g)" if "hask H b KTable" for b
  proof (rule marking_if_white)
    fix g assume g: "wf g" "obj g = H" "iswhite g b"
    obtain ob where "H b = Some ob" "rank ob = 0"
      using \<open>hask H b KTable\<close> rank_table by (auto simp: hask_def)
    then show "marks g (reallymark n b g) \<and> \<not> iswhite (reallymark n b g) b"
      using reallymark_marks [OF g(1) _ g(3), of ob n] g(2) assms(2) by simp
  qed
  have "marking H (set_option m) (\<lambda>g. case m of None \<Rightarrow> g | Some m \<Rightarrow> if iswhite g m then reallymark n m g else g)"
    using assms(1) o by (cases m) (auto intro: marking_id)
  from marking_comp [OF this o [of e]]
  show ?thesis
    unfolding mark_udata_def [abs_def] Let_def by (rule marking_weaken) (use assms(1) in auto)
qed

lemma marktmu_step:
  assumes "base {} g" "hask (obj g) u KUdata"
  defines "g' \<equiv> reallymarkobject u (gmakewhite u g)"
  shows "kept g g'" "\<not> iswhite g' u"
proof -
  obtain m e where u: "obj g u = Some (GUdata m e)"
    using assms(2) by (auto simp: hask_def elim: kind.elims)
  define b where "b = set_bit BLACKBIT (unset_bit 0 (unset_bit (Suc 0) (mark (gmakewhite u g) u)))"
  have "g' = mark_udata 2 m e (set_mark u b (gmakewhite u g))"
    using reallymark_udata [of "gmakewhite u g" u m e 2] u
    by (simp add: g'_def reallymarkobject_def b_def gmakewhite_def eval_nat_numeral)
  also have "set_mark u b (gmakewhite u g) = set_mark u b g"
    by (simp add: gmakewhite_def)
  finally have e: "g' = mark_udata 2 m e (set_mark u b g)" .
  have n: "u \<notin> set (gclists g)"
    using assms(1,2) by (auto simp: base_def lists_ok_def listable_def hask_def)
  have b: "\<not> wmark b" "bit b BLACKBIT"
    by (simp_all add: b_def)
  note c = coloured [OF assms(1) u n b(1)]
  have l: "u \<notin> set (gclists (set_mark u b g))" "isblack (set_mark u b g) u"
    using n b by (simp_all add: gclists_def set_mark_def isblack_def)
  have "ob_ok (obj g) (GUdata m e)"
    using wf_ob [OF base_parts(1) [OF assms(1)] u] .
  then have mk: "marking (obj (set_mark u b g)) (orefs (obj (set_mark u b g)) (GUdata m e)) (mark_udata 2 m e)"
    using marking_udata [of "obj g" m e 2] by simp
  have "kept (set_mark u b g) g'"
    unfolding e using traversed [OF c(1) l(1) _ _ l(2) mk] u by simp
  then show "kept g g'"
    using c(2,3) cover_done [OF _ disjI2 [OF l(2)]] adv_trans unfolding kept_def by blast
  show "\<not> iswhite g' u"
    using adv_white [OF keptD(3) [OF \<open>kept (set_mark u b g) g'\<close>], of u] b by (simp add: iswhite_wmark)
qed

lemma marktmu_fold:
  assumes "base {} g" "\<forall>u\<in>set us. hask (obj g) u KUdata"
  shows "kept g (fold (\<lambda>u g. reallymarkobject u (gmakewhite u g)) us g) \<and>
    (\<forall>u\<in>set us. \<not> iswhite (fold (\<lambda>u g. reallymarkobject u (gmakewhite u g)) us g) u)"
  using assms
proof (induction us arbitrary: g)
  case Nil
  then show ?case by (simp add: kept_def)
next
  case (Cons u us)
  let ?g1 = "reallymarkobject u (gmakewhite u g)"
  have s: "kept g ?g1" "\<not> iswhite ?g1 u"
    using marktmu_step [OF Cons.prems(1), of u] Cons.prems(2) by auto
  have "\<forall>v\<in>set us. hask (obj ?g1) v KUdata"
    using Cons.prems(2) keptD(3) [OF s(1)] by (simp add: adv_def)
  note i = Cons.IH [OF keptD(1) [OF s(1)] this]
  show ?case
    using i s keeping_trans [OF s(1)] adv_white [OF keptD(3), of ?g1 _ u] by auto
qed


section \<open>Weak tables\<close>

text \<open>Clearing marks strings and removes entries; nothing else changes.\<close>

definition strings_marked :: "gstate \<Rightarrow> gstate \<Rightarrow> bool" where
  "strings_marked g g' \<longleftrightarrow>
     (\<forall>x. \<not> iswhite g x \<longrightarrow> mark g' x = mark g x) \<and> (\<forall>x. iswhite g x \<longrightarrow> \<not> iswhite g' x \<longrightarrow> hask (obj g) x KString) \<and>
     obj g' = obj g \<and> roots g' = roots g \<and> white g' = white g"

lemma strings_marked_refl [simp]: "strings_marked g g"
  by (simp add: strings_marked_def)

lemma strings_marked_white: "strings_marked g g' \<Longrightarrow> \<not> iswhite g x \<Longrightarrow> \<not> iswhite g' x"
  by (simp add: strings_marked_def iswhite_wmark)

lemma strings_marked_trans: "strings_marked g g' \<Longrightarrow> strings_marked g' g'' \<Longrightarrow> strings_marked g g''"
  using strings_marked_white [of g g'] unfolding strings_marked_def by (metis iswhite_wmark)

lemma stringmark_marked: "hask (obj g) a KString \<Longrightarrow> strings_marked g (stringmark a g) \<and> \<not> iswhite (stringmark a g) a"
  using unset_white [of "mark g a"]
  by (auto simp: strings_marked_def stringmark_def white2gray_def iswhite_wmark roots_def set_mark_def)

lemma iscleared_ok:
  assumes "vok (obj g) v" "iscleared v k g = (c, g')"
  shows "strings_marked g g'" "\<not> c \<Longrightarrow> x \<in> vref v \<Longrightarrow> \<not> iswhite g' x"
  using assms stringmark_marked [of g]
  by (cases v; auto simp: iscleared_def vref_def iscollectable_def)+

lemma clear_array_ok:
  assumes "\<forall>v\<in>set vs. vok (obj g) v" "clear_array vs g = (ws, g')"
  shows "strings_marked g g' \<and> set ws \<subseteq> insert Nil (set vs) \<and> (\<forall>v\<in>set ws. \<forall>x\<in>vref v. \<not> iswhite g' x)"
  using assms
proof (induction vs arbitrary: ws g')
  case (Cons v vs)
  obtain us g1 where 1: "clear_array vs g = (us, g1)"
    by fastforce
  obtain c g2 where 2: "iscleared v False g1 = (c, g2)"
    by fastforce
  have e: "ws = (if c then Nil else v) # us" "g' = g2"
    using Cons.prems(2) 1 2 by auto
  have i: "strings_marked g g1" "set us \<subseteq> insert Nil (set vs)" "\<forall>v\<in>set us. \<forall>x\<in>vref v. \<not> iswhite g1 x"
    using Cons.IH [OF _ 1] Cons.prems(1) by auto
  have "vok (obj g1) v"
    using i(1) Cons.prems(1) by (simp add: strings_marked_def)
  note r = iscleared_ok [OF this 2]
  show ?case
    using i r strings_marked_trans [OF i(1) r(1)] strings_marked_white [OF r(1)] unfolding e by auto
qed simp

lemma clear_node_ok:
  assumes "node_ok (obj g) n" "clear_node n g = (n', g')"
  shows "strings_marked g g'" "n' = n \<or> snd n' = Nil" "x \<in> node_refs n' \<Longrightarrow> \<not> iswhite g' x"
proof -
  have "strings_marked g g' \<and> (n' = n \<or> snd n' = Nil) \<and> (\<forall>x\<in>node_refs n'. \<not> iswhite g' x)"
  proof (cases "snd n = Nil")
    case True
    then show ?thesis
      using assms(2) by (simp add: clear_node_def node_refs_def)
  next
    case False
    then have ok: "vok (obj g) (fst n)" "vok (obj g) (snd n)"
      using assms(1) by (auto simp: node_ok_def)
    obtain c1 g1 where 1: "iscleared (fst n) True g = (c1, g1)"
      by fastforce
    obtain c2 g2 where 2: "iscleared (snd n) False g1 = (c2, g2)"
      by fastforce
    note r1 = iscleared_ok [OF ok(1) 1]
    have "vok (obj g1) (snd n)"
      using ok(2) r1(1) by (simp add: strings_marked_def)
    note r2 = iscleared_ok [OF this 2]
    show ?thesis
      using False assms(2) 1 2 r1 r2 strings_marked_trans [OF r1(1) r2(1)] strings_marked_white [OF r2(1)]
      by (auto simp: clear_node_def node_refs_def split: if_splits)
  qed
  then show "strings_marked g g'" "n' = n \<or> snd n' = Nil" "x \<in> node_refs n' \<Longrightarrow> \<not> iswhite g' x"
    by auto
qed

lemma clear_nodes_ok:
  assumes "\<forall>n\<in>set ns. node_ok (obj g) n" "clear_nodes ns g = (ms, g')"
  shows "strings_marked g g' \<and> (\<forall>n\<in>set ms. n \<in> set ns \<or> snd n = Nil) \<and> (\<forall>n\<in>set ms. \<forall>x\<in>node_refs n. \<not> iswhite g' x)"
  using assms
proof (induction ns arbitrary: ms g')
  case (Cons n ns)
  obtain us g1 where 1: "clear_nodes ns g = (us, g1)"
    by fastforce
  obtain n' g2 where 2: "clear_node n g1 = (n', g2)"
    by fastforce
  have e: "ms = n' # us" "g' = g2"
    using Cons.prems(2) 1 2 by auto
  have i: "strings_marked g g1" "\<forall>n\<in>set us. n \<in> set ns \<or> snd n = Nil" "\<forall>n\<in>set us. \<forall>x\<in>node_refs n. \<not> iswhite g1 x"
    using Cons.IH [OF _ 1] Cons.prems(1) by auto
  have "node_ok (obj g1) n"
    using i(1) Cons.prems(1) by (simp add: strings_marked_def)
  note r = clear_node_ok [OF this 2]
  show ?case
    using i r strings_marked_trans [OF i(1) r(1)] strings_marked_white [OF r(1)] unfolding e by auto
qed simp

text \<open>Between two tables: those still to be cleared (\<open>T\<close>) may hold white objects in their weak parts.\<close>

definition clearing :: "addr set \<Rightarrow> gstate \<Rightarrow> bool" where
  "clearing T g \<longleftrightarrow>
     (\<forall>a ob. obj g a = Some ob \<longrightarrow> ob_ok (obj g) ob) \<and>
     (\<forall>a ob. obj g a = Some ob \<longrightarrow> \<not> iswhite g a \<longrightarrow>
        (\<forall>x\<in>orefs (obj g) ob. \<not> iswhite g x) \<or>
        a \<in> T \<and> (\<exists>m arr nodes. ob = GTable m arr nodes \<and> (\<forall>x\<in>set_option m. \<not> iswhite g x) \<and>
           (bit (mark g a) VALUEWEAKBIT \<or> (\<forall>v\<in>set arr. \<forall>x\<in>vref v. \<not> iswhite g x))))"

lemma uv_value_table:
  "H a = Some (GTable m arr nodes) \<Longrightarrow> uv_value (H(a \<mapsto> GTable m' arr' nodes')) u = uv_value H u"
  by (auto simp: uv_value_def split: upv.splits)

lemma orefs_table: "H a = Some (GTable m arr nodes) \<Longrightarrow> orefs (H(a \<mapsto> GTable m' arr' nodes')) ob = orefs H ob"
  by (cases ob) (simp_all add: uv_value_table)

lemma orefs_string: "hask H a KString \<Longrightarrow> H a = Some ob \<Longrightarrow> orefs H ob = {}"
  by (cases ob) (auto simp: hask_def)

lemma strings_marked_clearing:
  assumes "clearing T g" "strings_marked g g'" shows "clearing T g'"
  unfolding clearing_def
proof (intro conjI allI impI)
  have o: "obj g' = obj g"
    using assms(2) by (simp add: strings_marked_def)
  fix a ob assume a: "obj g' a = Some ob"
  then show "ob_ok (obj g') ob"
    using assms(1) o by (simp add: clearing_def)
  assume w: "\<not> iswhite g' a"
  show "(\<forall>x\<in>orefs (obj g') ob. \<not> iswhite g' x) \<or> a \<in> T \<and> (\<exists>m arr nodes. ob = GTable m arr nodes \<and>
      (\<forall>x\<in>set_option m. \<not> iswhite g' x) \<and>
      (bit (mark g' a) VALUEWEAKBIT \<or> (\<forall>v\<in>set arr. \<forall>x\<in>vref v. \<not> iswhite g' x)))"
  proof (cases "iswhite g a")
    case True
    then show ?thesis
      using assms(2) w a o orefs_string [of "obj g" a ob] by (auto simp: strings_marked_def)
  next
    case False
    then have "mark g' a = mark g a"
      using assms(2) by (simp add: strings_marked_def)
    then show ?thesis
      using assms(1) False a o strings_marked_white [OF assms(2)] unfolding clearing_def by metis
  qed
qed

lemma clear_one_ok:
  assumes "clearing T g" "obj g a = Some (GTable m arr nodes)" "\<not> iswhite g a"
  shows "clearing (T - {a}) (clear_one a g)" "\<forall>x. \<not> iswhite g x \<longrightarrow> mark (clear_one a g) x = mark g x"
    "roots (clear_one a g) = roots g" "white (clear_one a g) = white g" "hask (obj (clear_one a g)) x k = hask (obj g) x k"
proof -
  have ok: "ob_ok (obj g) (GTable m arr nodes)"
    using assms(1,2) unfolding clearing_def by blast
  obtain arr' g1 where 1: "(if bit (mark g a) VALUEWEAKBIT then clear_array arr g else (arr, g)) = (arr', g1)"
    by fastforce
  obtain nodes' g2 where 2: "clear_nodes nodes g1 = (nodes', g2)"
    by fastforce
  have m1: "strings_marked g g1" "set arr' \<subseteq> insert Nil (set arr)"
    using 1 clear_array_ok [of arr g] ok by (auto split: if_splits)
  have o1: "obj g1 = obj g"
    using m1 by (simp add: strings_marked_def)
  have m2: "strings_marked g1 g2" "\<forall>n\<in>set nodes'. n \<in> set nodes \<or> snd n = Nil" "\<forall>n\<in>set nodes'. \<forall>x\<in>node_refs n. \<not> iswhite g2 x"
    using clear_nodes_ok [OF _ 2] ok o1 by auto
  note mm = strings_marked_trans [OF m1(1) m2(1)]
  have a1: "\<forall>v\<in>set arr'. \<forall>x\<in>vref v. \<not> iswhite g2 x"
  proof (cases "bit (mark g a) VALUEWEAKBIT")
    case True
    then show ?thesis
      using 1 clear_array_ok [of arr g] ok strings_marked_white [OF m2(1)] by auto
  next
    case False
    then have "\<forall>v\<in>set arr. \<forall>x\<in>vref v. \<not> iswhite g x"
      using assms unfolding clearing_def by fastforce
    then show ?thesis
      using False 1 strings_marked_white [OF mm] by auto
  qed
  have mt: "\<forall>x\<in>set_option m. \<not> iswhite g2 x"
    using assms strings_marked_white [OF mm] unfolding clearing_def by fastforce
  let ?t = "GTable m arr' nodes'"
  let ?g' = "g2\<lparr>obj := (obj g2)(a \<mapsto> ?t)\<rparr>"
  have o2: "obj g2 = obj g"
    using mm by (simp add: strings_marked_def)
  have e: "clear_one a g = ?g'"
    using assms(2) 1 2 by (simp add: clear_one_def)
  have k: "hask ((obj g)(a \<mapsto> ?t)) x k = hask (obj g) x k" for x k
    using assms(2) by (simp add: hask_upd [where ob = "GTable m arr nodes"])
  have c2: "clearing T g2"
    using strings_marked_clearing [OF assms(1) mm] .
  have w: "iswhite ?g' x = iswhite g2 x" for x
    by (simp add: iswhite_def)
  have new: "orefs (obj g) ?t \<subseteq> {x. \<not> iswhite g2 x}"
    using mt a1 m2(3) by auto
  have nok: "ob_ok (obj g) ?t"
    using ok m1(2) m2(2) by (auto simp: node_ok_def)
  have up: "ob_ok ((obj g)(a \<mapsto> ?t)) ob" if "ob_ok (obj g) ob" for ob
    using that by (intro ob_ok_upd [of "obj g" a, OF assms(2)]) (simp_all add: uv_value_table [of "obj g" a, OF assms(2)])
  have old: "ob_ok (obj g) ob" if "obj g x = Some ob" for x ob
    using that c2 o2 unfolding clearing_def by metis
  have t: "ob_ok (obj ?g') ob" if "obj ?g' x = Some ob" for x ob
    using that up [OF nok] up [OF old, of x ob] o2 by (cases "x = a") auto
  show "clearing (T - {a}) (clear_one a g)"
    unfolding e clearing_def w
  proof (intro conjI allI impI)
    fix b ob assume b: "obj ?g' b = Some ob" "\<not> iswhite g2 b"
    have o: "orefs (obj ?g') y = orefs (obj g) y" for y
      using orefs_table [of "obj g" a, OF assms(2)] o2 by simp
    show "(\<forall>x\<in>orefs (obj ?g') ob. \<not> iswhite g2 x) \<or> b \<in> T - {a} \<and> (\<exists>m arr nodes. ob = GTable m arr nodes \<and>
        (\<forall>x\<in>set_option m. \<not> iswhite g2 x) \<and>
        (bit (mark ?g' b) VALUEWEAKBIT \<or> (\<forall>v\<in>set arr. \<forall>x\<in>vref v. \<not> iswhite g2 x)))"
    proof (cases "b = a")
      case True
      then show ?thesis
        using b new unfolding o by auto
    next
      case False
      then have "obj g2 b = Some ob"
        using b by simp
      then show ?thesis
        using c2 b False unfolding o unfolding clearing_def o2 by simp
    qed
  qed (use t in blast)
  show "\<forall>x. \<not> iswhite g x \<longrightarrow> mark (clear_one a g) x = mark g x" "roots (clear_one a g) = roots g" "white (clear_one a g) = white g"
    using mm by (simp_all add: e strings_marked_def roots_def)
  show "hask (obj (clear_one a g)) x k = hask (obj g) x k"
    using k o2 by (simp add: e)
qed


lemma clearing_mono: "clearing T g \<Longrightarrow> T \<subseteq> T' \<Longrightarrow> clearing T' g"
  unfolding clearing_def by blast

lemma cleartable_ok:
  assumes "clearing (set l) g" "\<forall>a\<in>set l. \<not> iswhite g a"
  shows "clearing {} (cleartable l g) \<and> (\<forall>x. \<not> iswhite g x \<longrightarrow> \<not> iswhite (cleartable l g) x) \<and>
    roots (cleartable l g) = roots g \<and> white (cleartable l g) = white g \<and>
    (\<forall>x k. hask (obj (cleartable l g)) x k = hask (obj g) x k)"
  using assms unfolding cleartable_def
proof (induction l arbitrary: g)
  case (Cons a l)
  let ?g1 = "clear_one a g"
  have w: "\<not> iswhite g a"
    using Cons.prems(2) by simp
  have c: "clearing (set l) ?g1 \<and> (\<forall>x. \<not> iswhite g x \<longrightarrow> \<not> iswhite ?g1 x) \<and> roots ?g1 = roots g \<and> white ?g1 = white g \<and>
      (\<forall>x k. hask (obj ?g1) x k = hask (obj g) x k)"
  proof (cases "\<exists>m arr nodes. obj g a = Some (GTable m arr nodes)")
    case True
    then obtain m arr nodes where a: "obj g a = Some (GTable m arr nodes)"
      by blast
    note c = clear_one_ok [OF Cons.prems(1) a w]
    show ?thesis
      using c clearing_mono [OF c(1), of "set l"] by (auto simp: iswhite_wmark)
  next
    case False
    then have "?g1 = g"
      by (auto simp: clear_one_def split: option.split gcobject.split)
    moreover have "clearing (set l) g"
      using Cons.prems(1) False unfolding clearing_def by (metis insertE list.simps(15))
    ultimately show ?thesis
      by simp
  qed
  then show ?case
    using Cons.IH [of ?g1] Cons.prems(2) by simp
qed simp

lemma settled_clearing:
  assumes "base {} g" "cover {} g" "gray g = []"
  shows "clearing (set (weak g)) g"
  unfolding clearing_def
proof (intro conjI allI impI)
  fix a ob assume a: "obj g a = Some ob"
  show "ob_ok (obj g) ob"
    using wf_ob [OF base_parts(1) [OF assms(1)] a] .
  assume w: "\<not> iswhite g a"
  show "(\<forall>x\<in>orefs (obj g) ob. \<not> iswhite g x) \<or> a \<in> set (weak g) \<and> (\<exists>m arr nodes. ob = GTable m arr nodes \<and>
      (\<forall>x\<in>set_option m. \<not> iswhite g x) \<and>
      (bit (mark g a) VALUEWEAKBIT \<or> (\<forall>v\<in>set arr. \<forall>x\<in>vref v. \<not> iswhite g x)))"
  proof (cases "isblack g a")
    case True
    then show ?thesis
      using assms(1) a unfolding base_def blacks_ok_def by blast
  next
    case False
    then have "at_rest g a"
      using assms(2,3) a w by (auto simp: cover_def isgray_def)
    then show ?thesis
      using a by (cases ob) (auto simp: at_rest_def split: upv.splits)
  qed
qed

section \<open>The atomic step\<close>

text \<open>The end of the mark phase: what is marked refers to nothing white, and the roots are marked.\<close>

definition closed :: "gstate \<Rightarrow> bool" where
  "closed g \<longleftrightarrow>
     (\<forall>a ob. obj g a = Some ob \<longrightarrow> ob_ok (obj g) ob) \<and>
     (\<forall>a ob. obj g a = Some ob \<longrightarrow> \<not> iswhite g a \<longrightarrow> (\<forall>x\<in>orefs (obj g) ob. \<not> iswhite g x)) \<and>
     (\<forall>x\<in>roots g. obj g x \<noteq> None \<and> \<not> iswhite g x)"

lemma roots_allocated:
  assumes "roots_ok g" "x \<in> roots g" shows "\<exists>k. hask (obj g) x k"
proof -
  have "\<exists>k. hask (obj g) x k" if "x \<in> vref (registry g)"
    using assms(1) that vok_vref [of "obj g" "registry g" x] by (auto simp: roots_ok_def hask_def)
  moreover have "\<exists>k. hask (obj g) x k" if "x \<in> \<Union>(set_option ` set (mt g))"
    using assms(1) that unfolding roots_ok_def by blast
  ultimately show ?thesis
    using assms unfolding roots_def roots_ok_def by blast
qed

lemma separateudata_ok:
  assumes "roots_ok g"
  shows "separated g (luaC_separateudata all g)" "roots_ok (luaC_separateudata all g)"
    "set (tmudata g) \<subseteq> set (tmudata (luaC_separateudata all g))"
proof -
  obtain ks g1 where 1: "separate all (udata g) g = (ks, g1)"
    by fastforce
  have "\<forall>u\<in>set (udata g). hask (obj g) u KUdata"
    using assms by (simp add: roots_ok_def)
  note s = separate_ok [OF this 1]
  have e: "luaC_separateudata all g = g1\<lparr>udata := ks\<rparr>"
    using 1 by (simp add: luaC_separateudata_def)
  show "separated g (luaC_separateudata all g)"
    unfolding e using s separated_trans tmudata_ok(2) by blast
  show "set (tmudata g) \<subseteq> set (tmudata (luaC_separateudata all g))"
    using s by (simp add: e)
  have sub: "set ks \<subseteq> set us" if "separate all us h = (ks, h')" for us h ks h'
    using that by (induction all us h arbitrary: ks h' rule: separate.induct) (fastforce split: if_splits prod.splits simp: Let_def)+
  show "roots_ok (luaC_separateudata all g)"
    using assms s sub [OF 1] unfolding e separated_def roots_ok_def by auto
qed

theorem atomic_ok:
  assumes "phase_inv g"
  shows "\<exists>g'. atomic g = Some g' \<and> closed g' \<and> white g' = white g XOR WHITEBITS"
proof -
  obtain g1 g2 g3 g4 g5 where r: "propagateall (remarkupvals g) = Some g1" "g2 = g1\<lparr>gray := weak g1, weak := []\<rparr>"
    "propagateall (markmt (markobject (running g2) g2)) = Some g3"
    "g4 = g3\<lparr>gray := grayagain g3, grayagain := []\<rparr>" "propagateall g4 = Some g5"
    "base {} g5" "cover {} g5" "gray g5 = []" "roots_ok g5" "frame g5 = frame g"
    "\<forall>x\<in>roots g - set (tmudata g). \<not> iswhite g5 x"
    using rounds [OF assms] by blast
  define g6 where "g6 = luaC_separateudata False g5"
  note s = separateudata_ok [OF r(9), of False, folded g6_def]
  have g6: "base {} g6" "cover {} g6" "\<And>x. iswhite g6 x = iswhite g5 x"
    "(mainthread g6, running g6, registry g6, mt g6, white g6) = (mainthread g5, running g5, registry g5, mt g5, white g5)"
    using s(1) r(6,7) by (auto simp: separated_def)
  have "\<forall>u\<in>set (tmudata g6). hask (obj g6) u KUdata"
    using s(2) by (simp add: roots_ok_def)
  note m = marktmu_fold [OF g6(1) this, folded marktmu_def]
  obtain g8 where p: "propagateall (marktmu g6) = Some g8" "kept (marktmu g6) g8" "gray g8 = []"
    using propagateall_ok [OF keptD(1)] m by blast
  have k: "kept g6 g8"
    using keeping_trans m p(2) by blast
  note f = adv_fields [OF keptD(3) [OF k]]
  have rw: "\<not> iswhite g8 x" if "x \<in> roots g8" for x
  proof (cases "x \<in> set (tmudata g6)")
    case True
    then show ?thesis
      using m adv_white [OF keptD(3) [OF p(2)]] by blast
  next
    case False
    then have "x \<in> roots g - set (tmudata g)"
      using that g6(4) r(10) f s(3) by (auto simp: roots_def frame_def)
    then show ?thesis
      using r(11) g6(3) adv_white [OF keptD(3) [OF k]] by blast
  qed
  have ro: "roots_ok g8"
    using adv_roots_ok [OF keptD(3) [OF k]] s(2) by simp
  define g9 where "g9 = cleartable (weak g8) g8"
  have "\<forall>a\<in>set (weak g8). \<not> iswhite g8 a"
    using keptD(1) [OF k] by (auto simp: base_def lists_ok_def gclists_def isgray_def)
  note c = cleartable_ok [OF settled_clearing [OF keptD(1) [OF k] keptD(2) [OF k g6(2)] p(3)] this, folded g9_def]
  have ex: "\<forall>x\<in>roots g8. obj g9 x \<noteq> None"
  proof -
    have "\<exists>k. hask (obj g9) x k" if "x \<in> roots g8" for x
      using roots_allocated [OF ro that] c by simp
    then show ?thesis
      by (auto simp: hask_def)
  qed
  let ?g' = "g9\<lparr>white := white g9 XOR WHITEBITS, gcstate := GCSsweepstring\<rparr>"
  have "atomic g = Some ?g'"
    by (simp only: atomic_def Let_def r(1,3,5) r(2,4) [symmetric] g6_def [symmetric] p(1) g9_def [symmetric] Option.bind_lunit)
  moreover have "closed ?g'"
  proof -
    have s: "obj ?g' = obj g9" "roots ?g' = roots g9" "iswhite ?g' x = iswhite g9 x" for x
      by (simp_all add: roots_def iswhite_def)
    show ?thesis
      using c rw ex unfolding closed_def s clearing_def by auto
  qed
  moreover have "white ?g' = white g XOR WHITEBITS"
    using c f(7) g6(4) r(10) by (simp add: frame_def)
  ultimately show ?thesis
    by blast
qed

end
