(* ===== verification/Lua_Gc_Stores.thy ===== *)
theory Lua_Gc_Stores
  imports Lua_Gc_Clear
begin

text \<open>
  The program runs between the steps of the collector. Its stores, and the objects it makes, keep the
  invariant of the mark phase, because of the barriers.
\<close>

section \<open>Stores\<close>

text \<open>A black object with a new reference, before its barrier: only the addresses in \<open>S\<close> may be white.\<close>

definition pending :: "addr \<Rightarrow> addr set \<Rightarrow> gstate \<Rightarrow> bool" where
  "pending a S g \<longleftrightarrow> base {a} g \<and> cover (again g) g \<and> roots_ok g \<and> \<not> iswhite g (mainthread g) \<and>
     (\<forall>x\<in>vref (registry g). \<not> iswhite g x) \<and> isblack g a \<and> a \<notin> set (gclists g) \<and>
     (\<exists>ob. obj g a = Some ob \<and> can_be_black ob \<and> (\<forall>x\<in>orefs (obj g) ob. iswhite g x \<longrightarrow> x \<in> S))"

lemma cover_again:
  "cover (again g) g \<longleftrightarrow>
     (\<forall>a. obj g a \<noteq> None \<longrightarrow> isgray g a \<longrightarrow> a \<in> set (gclists g) \<or> a \<in> open_uvs g \<or> hask (obj g) a KString)"
proof -
  have "at_rest g a \<Longrightarrow> a \<in> again g \<or> hask (obj g) a KString" for a
    by (auto simp: at_rest_def again_def open_uvs_def hask_def split: option.splits gcobject.splits upv.splits)
  moreover have "hask (obj g) a KString \<Longrightarrow> at_rest g a" for a
    by (auto simp: at_rest_def hask_def split: gcobject.splits upv.splits)
  ultimately show ?thesis
    unfolding cover_def again_def gclists_def by auto
qed

lemma pending_done:
  assumes "pending a S g" "\<forall>x\<in>S. \<not> iswhite g x" shows "phase_inv g"
proof -
  obtain ob where "obj g a = Some ob" "can_be_black ob" "\<forall>x\<in>orefs (obj g) ob. \<not> iswhite g x"
    using assms unfolding pending_def by blast
  then have "base {} g"
    using finish_black assms(1) unfolding pending_def by blast
  then show ?thesis
    using assms(1) by (simp add: pending_def phase_inv_def)
qed

lemma pending_fewer: "pending a S g \<Longrightarrow> \<forall>x\<in>S. iswhite g x \<longrightarrow> x \<in> T \<Longrightarrow> pending a T g"
  unfolding pending_def by blast

lemma pending_forward:
  assumes "pending a S g" "S \<subseteq> {x}" "iswhite g x" "obj g x \<noteq> None" "gcstate g = GCSpropagate"
  shows "phase_inv (luaC_barrierf a x g)"
proof -
  obtain ob where x: "obj g x = Some ob"
    using assms(4) by blast
  have b: "base {a} g" "cover (again g) g"
    using assms(1) by (simp_all add: pending_def)
  note r = reallymarkobject_marks [OF base_parts(1) [OF b(1)] x assms(3)]
  let ?g' = "reallymarkobject x g"
  obtain N where N: "marks_by N g ?g'"
    using r by (auto simp: marks_def)
  note s = marks_by_sel [OF N]
  have na: "\<not> iswhite g a"
    using b(1) by (simp add: base_def)
  then have "a \<notin> set N"
    using N by (auto simp: marks_by_def)
  then have "a \<notin> set (gclists ?g')"
    using assms(1) s by (simp add: pending_def gclists_def)
  moreover have "again ?g' = again g"
    using s by (simp add: again_def open_uvs_def)
  moreover have "adv g ?g'"
    using marks_adv [OF base_parts(2) [OF b(1)]] r by blast
  moreover have "isblack ?g' a"
    using assms(1) marks_nonwhite [OF conjunct1 [OF r] na] by (simp add: pending_def isblack_def)
  moreover obtain ao where ao: "obj g a = Some ao" "can_be_black ao" "\<forall>y\<in>orefs (obj g) ao. iswhite g y \<longrightarrow> y \<in> S"
    using assms(1) by (auto simp: pending_def)
  moreover have "\<forall>y\<in>orefs (obj g) ao. \<not> iswhite ?g' y"
    using ao(3) assms(2) r adv_white [OF \<open>adv g ?g'\<close>] by blast
  moreover have "base {a} ?g'" "cover (again g) ?g'"
    using marks_base [OF b(1)] marks_cover [OF b(2)] r by blast+
  moreover have "roots_ok ?g'" "\<not> iswhite ?g' (mainthread ?g')" "\<forall>y\<in>vref (registry ?g'). \<not> iswhite ?g' y"
    using assms(1) s adv_roots_ok [OF \<open>adv g ?g'\<close>] adv_white [OF \<open>adv g ?g'\<close>] by (simp_all add: pending_def)
  ultimately have "pending a {} ?g'"
    unfolding pending_def s(1) by auto
  then show ?thesis
    using pending_done assms(5) by (simp add: luaC_barrierf_def)
qed

lemma pending_back:
  assumes "pending a S g" "listable (obj g) a"
  shows "phase_inv (luaC_barrierback a g)" "\<not> isblack (luaC_barrierback a g) a"
proof -
  have p: "base {a} g" "cover (again g) g" "a \<notin> set (gclists g)"
    using assms(1) by (simp_all add: pending_def)
  let ?h = "black2gray a g" and ?g' = "luaC_barrierback a g"
  have m: "\<not> wmark (unset_bit BLACKBIT (mark g a))"
    using p(1) by (simp add: base_def iswhite_wmark)
  have e: "?g' = ?h\<lparr>grayagain := a # grayagain ?h\<rparr>"
    by (simp add: luaC_barrierback_def Let_def)
  have h: "base {a} ?h"
    using retag(1) [OF p(1) _ m] by (simp add: black2gray_def)
  have l: "a \<notin> set (gclists ?h)" "listable (obj ?h) a"
    using p(3) assms(2) by (simp_all add: black2gray_def gclists_def set_mark_def)
  have b: "base {a} ?g'"
    using relisted(1) [OF h l disjI2 [OF e]] .
  show nb: "\<not> isblack ?g' a"
    by (simp add: e black2gray_def isblack_def)
  have w: "iswhite ?g' x = iswhite g x" for x
    using m p(1) by (auto simp: e black2gray_def iswhite_wmark base_def)
  have f: "obj ?g' = obj g" "set (gclists ?g') = insert a (set (gclists g))" "frame ?g' = frame g"
      "x \<noteq> a \<Longrightarrow> isblack ?g' x = isblack g x" for x
    by (auto simp: e black2gray_def gclists_def frame_def isblack_def set_mark_def)
  have "cover (again ?g') ?g'"
    using p(2) f(4) unfolding cover_again f isgray_def w open_uvs_def by auto
  then show "phase_inv ?g'"
    using assms(1) finish_gray [OF b nb] f w
    by (auto simp: phase_inv_def pending_def roots_ok_def frame_def)
qed

lemma uv_value_upd:
  "H a = Some ob \<Longrightarrow> kind ob' = kind ob \<Longrightarrow> kind ob \<noteq> KThread \<Longrightarrow> uv_value (H(a \<mapsto> ob')) u = uv_value H u"
  by (auto simp: uv_value_def split: upv.splits gcobject.splits)

lemma orefs_uv: "(\<And>u. uv_value H' u = uv_value H u) \<Longrightarrow> orefs H' x = orefs H x"
  by (cases x) auto

text \<open>What a store keeps, whatever object it goes to: everything but the colour of what is stored.\<close>

lemma put_ok:
  assumes g: "phase_inv g" and a: "obj g a = Some ob" "kind ob' = kind ob" "can_be_black ob' = can_be_black ob"
    and uv: "\<And>u. vok (obj g) (uv_value (obj g) u) \<Longrightarrow> vok (obj g) (uv_value ((obj g)(a \<mapsto> ob')) u)"
    and ok: "ob_ok (obj g) ob'" and op: "\<And>th i. ob' = GUpval (Open th i) \<longleftrightarrow> ob = GUpval (Open th i)"
  shows "wf (put_obj a ob' g)" "finite (dom (obj (put_obj a ob' g)))" "uvs_ok (put_obj a ob' g)"
    "lists_ok {} (put_obj a ob' g)" "cover (again (put_obj a ob' g)) (put_obj a ob' g)" "roots_ok (put_obj a ob' g)"
    "frame (put_obj a ob' g) = frame g"
proof -
  have b: "base {} g" "cover (again g) g" "roots_ok g"
    using g by (simp_all add: phase_inv_def)
  note h = hask_upd [of "obj g" a, OF a(1,2)] vok_upd [of "obj g" a, OF a(1,2)] listable_upd [of "obj g" a, OF a(1,2)]
  have up: "ob_ok ((obj g)(a \<mapsto> ob')) x" if "ob_ok (obj g) x" for x
    using ob_ok_upd [of "obj g" a, OF a(1,2) uv that] .
  show "wf (put_obj a ob' g)"
    unfolding wf_def put_obj_sel
  proof (intro allI impI)
    fix c x assume c: "((obj g)(a \<mapsto> ob')) c = Some x"
    then have "ob_ok (obj g) x"
      using ok wf_ob [OF base_parts(1) [OF b(1)]] by (auto split: if_splits)
    then show "ob_ok ((obj g)(a \<mapsto> ob')) x \<and> (iswhite g c \<longrightarrow> \<not> isblack g c)"
      using up c a(1) base_parts(1) [OF b(1)] unfolding wf_def by (metis fun_upd_other)
  qed
  show "finite (dom (obj (put_obj a ob' g)))"
    using base_parts(2) [OF b(1)] by simp
  show "uvs_ok (put_obj a ob' g)" "lists_ok {} (put_obj a ob' g)"
    using b(1) a(1) op by (auto simp: base_def uvs_ok_def lists_ok_def h)
  have "open_uvs (put_obj a ob' g) = open_uvs g"
    using a(1) op by (auto simp: open_uvs_def)
  then show "cover (again (put_obj a ob' g)) (put_obj a ob' g)"
    using b(2) a(1) unfolding cover_again by (auto simp: h split: if_splits)
  show "roots_ok (put_obj a ob' g)"
    using b(3) by (simp add: roots_ok_def h) (simp add: put_obj_def)
  show "frame (put_obj a ob' g) = frame g"
    by (simp add: frame_def put_obj_def)
qed

lemma store_ok:
  assumes g: "phase_inv g" and a: "obj g a = Some ob" "kind ob' = kind ob" "can_be_black ob' = can_be_black ob" "kind ob \<noteq> KThread"
    and ok: "ob_ok (obj g) ob'" and op: "\<And>th i. ob' = GUpval (Open th i) \<longleftrightarrow> ob = GUpval (Open th i)"
    and S: "orefs (obj g) ob' \<subseteq> orefs (obj g) ob \<union> S"
  shows "if isblack g a then pending a S (put_obj a ob' g) else phase_inv (put_obj a ob' g)"
proof -
  let ?g' = "put_obj a ob' g"
  have uv: "uv_value (obj ?g') u = uv_value (obj g) u" for u
    using uv_value_upd [of "obj g" a, OF a(1,2,4)] by simp
  then have "vok (obj g) (uv_value (obj g) u) \<Longrightarrow> vok (obj g) (uv_value ((obj g)(a \<mapsto> ob')) u)" for u
    by simp
  note p = put_ok [OF g a(1-3) this ok op]
  have o: "orefs (obj ?g') x = orefs (obj g) x" for x
    using orefs_uv [of "obj ?g'" "obj g", OF uv] .
  have b: "blacks_ok {} g" "lists_ok {} g" "wf g"
    using g by (simp_all add: phase_inv_def base_def)
  have rest: "\<not> iswhite g (mainthread ?g')" "\<forall>x\<in>vref (registry ?g'). \<not> iswhite g x"
    using g p(7) by (simp_all add: phase_inv_def frame_def)
  have bl: "blacks_ok {a} ?g'"
    using b(1) by (simp add: blacks_ok_def o del: put_obj_sel(1)) (simp add: put_obj_sel(1))
  show ?thesis
  proof (cases "isblack g a")
    case True
    then have "a \<notin> set (gclists g)"
      using b(2) by (auto simp: lists_ok_def isgray_def)
    moreover have "\<not> iswhite g a"
      using b(3) a(1) True by (auto simp: wf_def)
    moreover have "can_be_black ob" "\<forall>x\<in>orefs (obj g) ob. \<not> iswhite g x"
      using b(1) a(1) True by (auto simp: blacks_ok_def)
    ultimately have "pending a S ?g'"
      using p rest bl True a(3) S o unfolding pending_def base_def lists_ok_def by auto
    then show ?thesis
      using True by simp
  next
    case False
    then have "blacks_ok {} ?g'"
      using bl by (auto simp: blacks_ok_def)
    then show ?thesis
      using False p rest by (simp add: phase_inv_def base_def)
  qed
qed


section \<open>Barriers\<close>

definition stored :: "addr \<Rightarrow> addr set \<Rightarrow> gstate \<Rightarrow> bool" where
  "stored a S g \<longleftrightarrow> (if isblack g a then pending a S g else phase_inv g)"

lemma objbarrier_ok:
  assumes "stored a {x} g" "obj g x \<noteq> None" "gcstate g = GCSpropagate"
  shows "phase_inv (luaC_objbarrier a x g)"
  using assms pending_forward [of a "{x}" g x] pending_done [of a "{x}" g]
  by (auto simp: luaC_objbarrier_def stored_def split: if_splits)

lemma barrier_ok:
  assumes "stored a (vref v) g" "vok (obj g) v" "gcstate g = GCSpropagate"
  shows "phase_inv (luaC_barrier a v g)"
proof -
  have "valiswhite g v \<Longrightarrow> obj g (gcvalue v) \<noteq> None \<and> vref v = {gcvalue v} \<and> iswhite g (gcvalue v)"
    using vok_vref [OF assms(2)] by (auto simp: valiswhite_def vref_def)
  moreover have "\<not> valiswhite g v \<Longrightarrow> \<forall>x\<in>vref v. \<not> iswhite g x"
    by (auto simp: valiswhite_def vref_def)
  ultimately show ?thesis
    using assms(1,3) pending_forward [of a "vref v" g "gcvalue v"] pending_done [of a "vref v" g]
    by (auto simp: luaC_barrier_def stored_def split: if_splits)
qed

lemma barriert_ok:
  assumes "stored a (vref v \<union> T) g" "listable (obj g) a"
  shows "stored a T (luaC_barriert a v g)" "obj (luaC_barriert a v g) = obj g" "gcstate (luaC_barriert a v g) = gcstate g"
proof -
  show "stored a T (luaC_barriert a v g)"
  proof (cases "isblack g a")
    case True
    then have p: "pending a (vref v \<union> T) g"
      using assms(1) by (simp add: stored_def)
    show ?thesis
    proof (cases "valiswhite g v")
      case w: True
      then have e: "luaC_barriert a v g = luaC_barrierback a g"
        using True by (simp add: luaC_barriert_def)
      show ?thesis
        unfolding e stored_def using pending_back [OF p assms(2)] by simp
    next
      case False
      then have e: "luaC_barriert a v g = g"
        by (simp add: luaC_barriert_def)
      have "\<forall>x\<in>vref v \<union> T. iswhite g x \<longrightarrow> x \<in> T"
        using False by (auto simp: valiswhite_def vref_def)
      then show ?thesis
        unfolding e stored_def using pending_fewer [OF p] True by simp
    qed
  qed (use assms(1) in \<open>simp add: luaC_barriert_def stored_def\<close>)
  show "obj (luaC_barriert a v g) = obj g" "gcstate (luaC_barriert a v g) = gcstate g"
    by (simp_all add: luaC_barriert_def luaC_barrierback_def black2gray_def Let_def set_mark_def)
qed

lemma objbarriert_ok:
  assumes "stored a {x} g" "listable (obj g) a"
  shows "phase_inv (luaC_objbarriert a x g)"
  using assms pending_back [of a "{x}" g] pending_done [of a "{x}" g]
  by (auto simp: luaC_objbarriert_def stored_def split: if_splits)

lemma stored_none: "stored a {} g \<Longrightarrow> phase_inv g"
  using pending_done [of a "{}" g] by (auto simp: stored_def split: if_splits)

lemma store_stored:
  assumes "phase_inv g" "obj g a = Some ob" "kind ob' = kind ob" "can_be_black ob' = can_be_black ob" "kind ob \<noteq> KThread"
    "ob_ok (obj g) ob'" "\<And>th i. ob' = GUpval (Open th i) \<longleftrightarrow> ob = GUpval (Open th i)"
    "orefs (obj g) ob' \<subseteq> orefs (obj g) ob \<union> S"
  shows "stored a S (put_obj a ob' g)"
  using store_ok [OF assms] by (simp add: stored_def)

lemma put_gcstate [simp]: "gcstate (put_obj a ob g) = gcstate g" "white (put_obj a ob g) = white g"
  by (simp_all add: put_obj_def)

lemma hask_put: "obj g a = Some ob \<Longrightarrow> kind ob' = kind ob \<Longrightarrow> hask (obj (put_obj a ob' g)) x k = hask (obj g) x k"
  using hask_upd [of "obj g" a ob ob'] by simp

lemma vok_put: "obj g a = Some ob \<Longrightarrow> kind ob' = kind ob \<Longrightarrow> vok (obj (put_obj a ob' g)) v = vok (obj g) v"
  using vok_upd [of "obj g" a ob ob'] by simp

lemma hask_alloc: "hask H x k \<Longrightarrow> H x \<noteq> None"
  by (auto simp: hask_def)

section \<open>The operations of the program\<close>

text \<open>The stack of a thread changes without a barrier: threads are never black.\<close>

lemma not_black: "phase_inv g \<Longrightarrow> obj g a = Some ob \<Longrightarrow> \<not> can_be_black ob \<Longrightarrow> \<not> isblack g a"
  unfolding phase_inv_def base_def blacks_ok_def by blast

lemma stack_ok:
  assumes g: "phase_inv g" and t: "obj g th = Some (GThread gt st tp ci)"
    and ok: "ob_ok (obj g) (GThread gt' st' tp' ci')"
    and uv: "\<And>u. vok (obj g) (uv_value (obj g) u) \<Longrightarrow>
      vok (obj g) (uv_value ((obj g)(th \<mapsto> GThread gt' st' tp' ci')) u)"
  shows "phase_inv (put_obj th (GThread gt' st' tp' ci') g)"
proof -
  let ?ob = "GThread gt' st' tp' ci'"
  have p: "wf (put_obj th ?ob g)" "finite (dom (obj (put_obj th ?ob g)))" "uvs_ok (put_obj th ?ob g)"
    "lists_ok {} (put_obj th ?ob g)" "cover (again (put_obj th ?ob g)) (put_obj th ?ob g)" "roots_ok (put_obj th ?ob g)"
    "frame (put_obj th ?ob g) = frame g"
    using put_ok [OF g t _ _ uv ok] by simp_all
  have b: "blacks_ok {} g"
    using g by (simp add: phase_inv_def base_def)
  have r: "can_be_black x \<Longrightarrow> orefs ((obj g)(th \<mapsto> ?ob)) x = orefs (obj g) x" for x
    by (cases x) (auto simp: uv_value_def split: upv.split)
  have "\<not> isblack g th"
    using not_black [OF g t] by simp
  then have "blacks_ok {} (put_obj th ?ob g)"
    using b r by (auto simp: blacks_ok_def)
  then show ?thesis
    using p g by (simp add: phase_inv_def base_def frame_def)
qed

lemma table_store_ok:
  assumes "phase_inv g" "obj g t = Some (GTable m arr nodes)" "ob_ok (obj g) (GTable m arr' nodes')"
    "orefs (obj g) (GTable m arr' nodes') \<subseteq> orefs (obj g) (GTable m arr nodes) \<union> (vref k \<union> vref v)"
  shows "phase_inv (table_store t arr' nodes' k v g)"
proof -
  let ?g1 = "put_obj t (GTable m arr' nodes') g"
  have s: "stored t (vref k \<union> vref v) ?g1"
    by (rule store_stored [OF assms(1,2) _ _ _ assms(3) _ assms(4)]) simp_all
  have l: "listable (obj ?g1) t"
    by (simp add: listable_def hask_def)
  note b = barriert_ok [OF s l]
  have "stored t (vref v \<union> {}) (luaC_barriert t k ?g1)"
    using b(1) by simp
  then have "stored t {} (luaC_barriert t v (luaC_barriert t k ?g1))"
    by (rule barriert_ok(1)) (use b(2) l in simp)
  then show ?thesis
    using stored_none assms(2) by (simp add: table_store_def)
qed

lemma setmetatable_ok:
  assumes g: "phase_inv g" "gcstate g = GCSpropagate" and v: "vok (obj g) v" and m: "\<forall>x\<in>set_option m. hask (obj g) x KTable"
  shows "phase_inv (lua_setmetatable v m g)"
proof -
  consider (tab) a where "v = Tab a" | (ud) a where "v = Userdata a" | (oth) "\<And>a. v \<noteq> Tab a" "\<And>a. v \<noteq> Userdata a"
    by blast
  then show ?thesis
  proof cases
    case (tab a)
    then obtain m0 arr nodes where a: "obj g a = Some (GTable m0 arr nodes)"
      using v by (auto simp: hask_def elim: kind.elims)
    have ok: "ob_ok (obj g) (GTable m arr nodes)"
      using wf_ob [of g a] a g m by (simp add: phase_inv_def base_def)
    have s: "stored a (set_option m) (put_obj a (GTable m arr nodes) g)"
      by (rule store_stored [OF g(1) a _ _ _ ok]) auto
    have "listable (obj (put_obj a (GTable m arr nodes) g)) a"
      by (simp add: listable_def hask_def)
    then show ?thesis
      using tab a s objbarriert_ok stored_none by (cases m) (auto simp: lua_setmetatable_def)
  next
    case (ud a)
    then obtain m0 e where a: "obj g a = Some (GUdata m0 e)"
      using v by (auto simp: hask_def elim: kind.elims)
    have ok: "ob_ok (obj g) (GUdata m e)"
      using wf_ob [of g a] a g m by (simp add: phase_inv_def base_def)
    have s: "stored a (set_option m) (put_obj a (GUdata m e) g)"
      by (rule store_stored [OF g(1) a _ _ _ ok]) auto
    have "\<forall>x\<in>set_option m. obj (put_obj a (GUdata m e) g) x \<noteq> None"
      using m by (auto simp: hask_def)
    then show ?thesis
      using ud a s objbarrier_ok [of a _ "put_obj a (GUdata m e) g"] g(2) stored_none by (cases m) (auto simp: lua_setmetatable_def)
  next
    case oth
    let ?g' = "g\<lparr>mt := (mt g)[ttype v := m]\<rparr>"
    have e: "lua_setmetatable v m g = ?g'"
      using oth by (cases v) (auto simp: lua_setmetatable_def)
    have "base {} ?g'" "cover (again ?g') ?g'"
      using g(1) same_colours [of ?g' g] by (auto simp: phase_inv_def iswhite_def isblack_def again_def open_uvs_def)
    moreover have "roots_ok ?g'"
      using g(1) m set_update_subset_insert [of "mt g" "ttype v" m] by (fastforce simp: phase_inv_def roots_ok_def)
    ultimately show ?thesis
      unfolding e using g(1) by (simp add: phase_inv_def iswhite_def)
  qed
qed


lemma setfenv_ok:
  assumes g: "phase_inv g" "gcstate g = GCSpropagate" and v: "vok (obj g) v" and t: "hask (obj g) t KTable"
  shows "phase_inv (lua_setfenv v t g)"
proof -
  have wf: "obj g a = Some ob \<Longrightarrow> ob_ok (obj g) ob" for a ob
    using wf_ob g(1) by (simp add: phase_inv_def base_def)
  have put: "phase_inv (luaC_objbarrier a t (put_obj a ob' g))"
    if "obj g a = Some ob" "kind ob' = kind ob" "can_be_black ob' = can_be_black ob" "kind ob \<in> {KFunction, KUdata}"
      "ob_ok (obj g) ob'" "orefs (obj g) ob' \<subseteq> insert t (orefs (obj g) ob)" for a ob ob'
  proof -
    have "stored a {t} (put_obj a ob' g)"
      by (rule store_stored [OF g(1) that(1,2,3) _ that(5)]) (use that in auto)
    then show ?thesis
      by (rule objbarrier_ok) (use t g(2) in \<open>auto simp: hask_def\<close>)
  qed
  consider (fn) a where "v = Fun a" | (ud) a where "v = Userdata a" | (th) a where "v = Thread a"
    | (oth) "\<And>a. v \<noteq> Fun a" "\<And>a. v \<noteq> Userdata a" "\<And>a. v \<noteq> Thread a"
    by blast
  then show ?thesis
  proof cases
    case (fn a)
    then consider e us where "obj g a = Some (GCClosure e us)" | e p us where "obj g a = Some (GLClosure e p us)"
      using v by (auto simp: hask_def elim: kind.elims)
    then show ?thesis
    proof cases
      case (1 e us)
      then show ?thesis
        using fn put [OF 1, of "GCClosure t us"] wf [OF 1] t by (auto simp: lua_setfenv_def)
    next
      case (2 e p us)
      then show ?thesis
        using fn put [OF 2, of "GLClosure t p us"] wf [OF 2] t by (auto simp: lua_setfenv_def)
    qed
  next
    case (ud a)
    then obtain m e where a: "obj g a = Some (GUdata m e)"
      using v by (auto simp: hask_def elim: kind.elims)
    then show ?thesis
      using ud put [OF a, of "GUdata m t"] wf [OF a] t by (auto simp: lua_setfenv_def)
  next
    case (th a)
    then obtain gt st tp ci where a: "obj g a = Some (GThread gt st tp ci)"
      using v by (auto simp: hask_def elim: kind.elims)
    let ?ob = "GThread (Tab t) st tp ci"
    have uv: "uv_value ((obj g)(a \<mapsto> ?ob)) u = uv_value (obj g) u" for u
      using a by (auto simp: uv_value_def split: upv.splits)
    have "phase_inv (put_obj a ?ob g)"
      by (rule stack_ok [OF g(1) a]) (use wf [OF a] t uv in auto)
    moreover have "\<not> isblack g a"
      using not_black [OF g(1) a] by simp
    ultimately show ?thesis
      using th a by (simp add: lua_setfenv_def luaC_objbarrier_def)
  next
    case oth
    then show ?thesis
      using g(1) by (cases v) (auto simp: lua_setfenv_def)
  qed
qed

lemma setupval_ok:
  assumes g: "phase_inv g" "gcstate g = GCSpropagate" and v: "vok (obj g) v" and u: "hask (obj g) uv KUpval"
  shows "phase_inv (OP_SETUPVAL_step uv v g)"
proof -
  obtain w where w: "obj g uv = Some (GUpval w)"
    using u by (auto simp: hask_def elim: kind.elims)
  show ?thesis
  proof (cases w)
    case (Closed c)
    let ?g1 = "put_obj uv (GUpval (Closed v)) g"
    have "stored uv (vref v) ?g1"
      by (rule store_stored [OF g(1) w]) (use Closed v in \<open>auto simp: uv_value_def\<close>)
    then have "phase_inv (luaC_barrier uv v ?g1)"
      by (rule barrier_ok) (use g(2) v vok_put [OF w, of "GUpval (Closed v)"] in auto)
    then show ?thesis
      using w Closed by (simp add: OP_SETUPVAL_step_def set_upval_def)
  next
    case (Open th i)
    have wf: "ob_ok (obj g) (GUpval (Open th i))"
      using wf_ob [of g uv] w Open g(1) by (simp add: phase_inv_def base_def)
    then obtain gt st tp ci where t: "obj g th = Some (GThread gt st tp ci)"
      by (auto simp: hask_def elim: kind.elims)
    let ?ob = "GThread gt (st[i := v]) tp ci"
    have "ob_ok (obj g) (GThread gt st tp ci)"
      using wf_ob [OF _ t] g(1) by (simp add: phase_inv_def base_def)
    then have ok: "ob_ok (obj g) ?ob"
      using v set_update_subset_insert [of "take tp st" i v] by (auto simp: take_update_swap)
    have uvs: "vok (obj g) (uv_value ((obj g)(th \<mapsto> ?ob)) u)" if "vok (obj g) (uv_value (obj g) u)" for u
      using that v t by (cases u; cases "i < length st") (auto simp: uv_value_def nth_list_update)
    have p: "phase_inv (put_obj th ?ob g)"
      by (rule stack_ok [OF g(1) t ok uvs])
    have "\<not> isblack g uv"
      using not_black [OF g(1) w] Open by simp
    then show ?thesis
      using p w Open t by (simp add: OP_SETUPVAL_step_def set_upval_def luaC_barrier_def)
  qed
qed

lemma setupvalue_ok:
  assumes g: "phase_inv g" "gcstate g = GCSpropagate" and v: "vok (obj g) v" and f: "obj g f = Some (GCClosure e us)"
  shows "phase_inv (lua_setupvalue f n v g)"
proof (cases "1 \<le> n \<and> n \<le> length us")
  case True
  let ?ob = "GCClosure e (us[n - 1 := v])"
  have "ob_ok (obj g) (GCClosure e us)"
    using wf_ob [OF _ f] g(1) by (simp add: phase_inv_def base_def)
  then have ok: "ob_ok (obj g) ?ob"
    using v set_update_subset_insert [of us "n - 1" v] by auto
  have "stored f (vref v) (put_obj f ?ob g)"
    by (rule store_stored [OF g(1) f _ _ _ ok]) (use set_update_subset_insert [of us "n - 1" v] in auto)
  then have "phase_inv (luaC_barrier f v (put_obj f ?ob g))"
    by (rule barrier_ok) (use g(2) v vok_put [OF f, of ?ob] in auto)
  then show ?thesis
    using f True by (simp add: lua_setupvalue_def)
qed (use g f in \<open>auto simp: lua_setupvalue_def\<close>)


lemma add_constant_ok:
  assumes g: "phase_inv g" "gcstate g = GCSpropagate" and p: "obj g p = Some ob" "kind ob = KProto" "kind ob' = KProto"
    and v: "ob_ok (obj g) ob'" "vok (obj g) v" "orefs (obj g) ob' \<subseteq> orefs (obj g) ob \<union> vref v"
  shows "phase_inv (add_constant p ob' v g)"
proof -
  have c: "can_be_black ob' = can_be_black ob" "\<And>th i. ob' = GUpval (Open th i) \<longleftrightarrow> ob = GUpval (Open th i)"
    using p by (cases ob; cases ob'; simp)+
  have "stored p (vref v) (put_obj p ob' g)"
    by (rule store_stored [OF g(1) p(1) _ c(1) _ v(1) c(2) v(3)]) (simp_all add: p)
  then show ?thesis
    unfolding add_constant_def by (rule barrier_ok) (use g(2) v vok_put [of g p ob ob'] p in auto)
qed

lemma add_part_ok:
  assumes g: "phase_inv g" "gcstate g = GCSpropagate" and p: "obj g p = Some ob" "kind ob = KProto" "kind ob' = KProto"
    and v: "ob_ok (obj g) ob'" "obj g x \<noteq> None" "orefs (obj g) ob' \<subseteq> orefs (obj g) ob \<union> {x}"
  shows "phase_inv (add_part p ob' x g)"
proof -
  have c: "can_be_black ob' = can_be_black ob" "\<And>th i. ob' = GUpval (Open th i) \<longleftrightarrow> ob = GUpval (Open th i)"
    using p by (cases ob; cases ob'; simp)+
  have "stored p {x} (put_obj p ob' g)"
    by (rule store_stored [OF g(1) p(1) _ c(1) _ v(1) c(2) v(3)]) (simp_all add: p)
  then show ?thesis
    unfolding add_part_def by (rule objbarrier_ok) (use g(2) v(2) in auto)
qed

section \<open>New objects\<close>

lemma hask_new: "H a = None \<Longrightarrow> hask H x k \<Longrightarrow> hask (H(a \<mapsto> ob)) x k"
  by (auto simp: hask_def)

lemma vok_new: "H a = None \<Longrightarrow> vok H v \<Longrightarrow> vok (H(a \<mapsto> ob)) v"
  by (cases v) (auto intro: hask_new)

lemma uv_value_new:
  "H a = None \<Longrightarrow> (\<And>th i. u = Open th i \<Longrightarrow> hask H th KThread) \<Longrightarrow> uv_value (H(a \<mapsto> ob)) u = uv_value H u"
  by (cases u) (auto simp: uv_value_def hask_def)

lemma ob_ok_new: "H a = None \<Longrightarrow> ob_ok H x \<Longrightarrow> ob_ok (H(a \<mapsto> ob)) x"
  using uv_value_new [of H a _ ob] by (cases x) (auto intro: hask_new vok_new simp: node_ok_def)

lemma orefs_new: "H a = None \<Longrightarrow> ob_ok H x \<Longrightarrow> orefs (H(a \<mapsto> ob)) x = orefs H x"
  using uv_value_new [of H a _ ob] by (cases x) auto

lemma orefs_dom: "ob_ok H ob \<Longrightarrow> x \<in> orefs H ob \<Longrightarrow> H x \<noteq> None"
  using vok_vref [of H _ x] by (cases ob) (force simp: hask_def node_ok_def node_refs_def split: if_splits)+

text \<open>\<open>luaC_link\<close>, and the part of \<open>luaF_findupval\<close> that makes an open upvalue.\<close>

lemma alloc_ok:
  assumes g: "phase_inv g" "wmark (gwhite g)" and a: "obj g a = None" and ok: "ob_ok (obj g) ob"
    and s: "obj g' = (obj g)(a \<mapsto> ob)" "gclists g' = gclists g" "mark g' = (mark g)(a := gwhite g)"
      "mainthread g' = mainthread g" "running g' = running g" "registry g' = registry g" "mt g' = mt g"
      "tmudata g' = tmudata g" "udata g' = udata g"
    and uv: "set (uvhead g) \<subseteq> set (uvhead g')" "\<And>th i. ob = GUpval (Open th i) \<Longrightarrow> a \<in> set (uvhead g')"
  shows "phase_inv g'"
proof -
  have b: "base {} g" "cover (again g) g" "roots_ok g"
    using g by (simp_all add: phase_inv_def)
  have w: "iswhite g' x \<longleftrightarrow> x = a \<or> iswhite g x" for x
    using g(2) by (auto simp: s iswhite_wmark)
  have nb: "\<not> isblack g' a"
    by (simp add: s isblack_def gwhite_def bit_and_iff WHITEBITS_def BLACKBIT_def)
  have bl: "isblack g' x \<longleftrightarrow> x \<noteq> a \<and> isblack g x" for x
    using nb by (auto simp: s isblack_def)
  have gr: "isgray g' x \<longleftrightarrow> x \<noteq> a \<and> isgray g x" for x
    using w bl by (auto simp: isgray_def)
  have old: "x \<noteq> a" if "obj g x \<noteq> None" for x
    using that a by auto
  have okx: "ob_ok (obj g) x" if "obj g c = Some x" for c x
    using wf_ob [OF base_parts(1) [OF b(1)] that] .
  have "wf g'"
    using base_parts(1) [OF b(1)] ob_ok_new [of "obj g" a, OF a] ok nb unfolding wf_def s w bl by auto
  moreover have "blacks_ok {} g'"
    unfolding blacks_ok_def
  proof (intro allI impI)
    fix c x assume c: "obj g' c = Some x" "isblack g' c"
    then have x: "obj g c = Some x" "isblack g c"
      by (auto simp: s bl)
    then have "can_be_black x" "\<forall>y\<in>orefs (obj g) x. \<not> iswhite g y"
      using b(1) by (auto simp: base_def blacks_ok_def)
    moreover have "orefs (obj g') x = orefs (obj g) x" "\<forall>y\<in>orefs (obj g) x. y \<noteq> a"
      using orefs_new [of "obj g" a, OF a okx [OF x(1)]] orefs_dom [OF okx [OF x(1)]] old by (auto simp: s)
    ultimately show "can_be_black x \<and> (\<forall>y\<in>orefs (obj g') x. \<not> iswhite g' y)"
      by (simp add: w)
  qed
  moreover have la: "listable (obj g') x" "x \<noteq> a" if "listable (obj g) x" for x
    using that a hask_new [of "obj g" a, OF a] by (auto simp: listable_def s) (auto simp: hask_def)
  have "lists_ok {} g'"
    using b(1) la by (auto simp: base_def lists_ok_def s gr)
  moreover have "uvs_ok g'"
    using b(1) uv s(1) by (fastforce simp: base_def uvs_ok_def)
  moreover have "finite (dom (obj g'))"
    using b(1) by (simp add: base_def s)
  moreover have "cover (again g') g'"
    using b(2) hask_new [of "obj g" a, OF a] unfolding cover_again gr s by (auto simp: open_uvs_def s)
  moreover have "roots_ok g'"
    using b(3) hask_new [of "obj g" a, OF a] vok_new [of "obj g" a, OF a] s by (auto simp: roots_ok_def)
  moreover have "mainthread g \<noteq> a" "\<forall>x\<in>vref (registry g). x \<noteq> a"
    using b(3) old vok_vref [of "obj g" "registry g"] by (auto simp: roots_ok_def hask_def)
  ultimately show ?thesis
    using g(1) s by (simp add: phase_inv_def base_def w)
qed

lemma link_ok:
  assumes "phase_inv g" "wmark (gwhite g)" "obj g a = None" "ob_ok (obj g) ob" "\<And>th i. ob \<noteq> GUpval (Open th i)"
  shows "phase_inv (luaC_link a ob g)"
  by (rule alloc_ok [OF assms(1-4)])
    (use assms(5) in \<open>auto simp: luaC_link_def gclists_def set_mark_def put_obj_def\<close>)

end
