(* ===== verification/Lua_Gc_Upvals.thy ===== *)
theory Lua_Gc_Upvals
  imports Lua_Gc_Stores
begin

text \<open>
  What an operation leaves alone, and the upvalues: open ones are made (\<open>luaF_findupval\<close>) and closed
  (\<open>luaF_close\<close>) in the middle of a mark phase. No object is dead there, and the lists of open upvalues
  hold what they should.
\<close>

section \<open>Fields that stay\<close>

lemma set_mark_fields [simp]: "gcstate (set_mark a m g) = gcstate g" "white (set_mark a m g) = white g"
  by (simp_all add: set_mark_def)

lemma reallymark_fields: "gcstate (reallymark n a g) = gcstate g \<and> white (reallymark n a g) = white g"
  by (induction n arbitrary: a g)
     (auto simp: Let_def white2gray_def gray2black_def split: option.split gcobject.split upv.split)

lemma reallymark_obj [simp]: "obj (reallymark n a g) = obj g"
  by (induction n arbitrary: a g)
     (auto simp: Let_def white2gray_def gray2black_def split: option.split gcobject.split upv.split)

lemma fold_obj: "(\<And>x g. obj (f x g) = obj g) \<Longrightarrow> obj (fold f xs g) = obj g"
  by (induction xs arbitrary: g) simp_all

lemma marking_obj [simp]:
  "obj (markobject a g) = obj g" "obj (markvalue v g) = obj g" "obj (stringmark a g) = obj g"
  by (simp_all add: markobject_def markvalue_def reallymarkobject_def stringmark_def white2gray_def)

lemma markings_obj [simp]:
  "obj (markvalues vs g) = obj g" "obj (markopts as g) = obj g" "obj (stringmarks as g) = obj g"
  "obj (fold markobject us g) = obj g"
  by (auto simp: markvalues_def markopts_def stringmarks_def intro!: fold_obj split: option.split)

lemma propagatemark_open: "open_uvs (propagatemark g) = open_uvs g"
proof (cases "gray g")
  case (Cons a rest)
  define g1 where "g1 = (gray2black a g)\<lparr>gray := rest\<rparr>"
  note pm = propagatemark_def [of g, unfolded Cons list.case Let_def, folded g1_def]
  have o: "obj g1 = obj g"
    by (simp add: g1_def gray2black_def)
  have t: "open_uvs (if w then black2gray a g' else g') = open_uvs g1"
    if "obj g1 a = Some (GTable m arr nodes)" "traversetable a m arr nodes g1 = (w, g')" for m arr nodes w g'
    using that by (cases m) (auto simp: traversetable_def Let_def open_uvs_def black2gray_def split: if_splits prod.splits)
  show ?thesis
  proof (cases "obj g1 a")
    case (Some ob)
    then show ?thesis
    proof (cases ob)
      case (GTable m arr nodes)
      then show ?thesis
        using Some t [of m arr nodes] o unfolding pm by (auto simp: open_uvs_def split: prod.split)
    next
      case (GThread gt st tp ci)
      then show ?thesis
        using Some o unfolding pm by (auto simp: open_uvs_def traversestack_def Let_def black2gray_def)
    qed (use Some o in \<open>auto simp: pm open_uvs_def traverseproto_def traverseclosure_C_def traverseclosure_L_def\<close>)
  qed (use o in \<open>simp add: pm open_uvs_def\<close>)
qed (simp add: propagatemark_def)

lemma barrierf_fields: "gcstate (luaC_barrierf a x g) = gcstate g" "white (luaC_barrierf a x g) = white g"
  by (simp_all add: luaC_barrierf_def reallymarkobject_def reallymark_fields gmakewhite_def)

lemma barrierback_fields: "gcstate (luaC_barrierback a g) = gcstate g" "white (luaC_barrierback a g) = white g"
  by (simp_all add: luaC_barrierback_def Let_def black2gray_def)

lemmas barrier_fields = barrierf_fields barrierback_fields luaC_barrier_def luaC_objbarrier_def luaC_barriert_def
  luaC_objbarriert_def

lemma operation_fields:
  "gcstate (table_store t arr nodes k v g) = gcstate g" "white (table_store t arr nodes k v g) = white g"
  "gcstate (lua_setmetatable w m g) = gcstate g" "white (lua_setmetatable w m g) = white g"
  "gcstate (lua_setfenv w e g) = gcstate g" "white (lua_setfenv w e g) = white g"
  "gcstate (OP_SETUPVAL_step uv v g) = gcstate g" "white (OP_SETUPVAL_step uv v g) = white g"
  "gcstate (lua_setupvalue f n v g) = gcstate g" "white (lua_setupvalue f n v g) = white g"
  "gcstate (add_constant p ob v g) = gcstate g" "white (add_constant p ob v g) = white g"
  "gcstate (add_part p ob x g) = gcstate g" "white (add_part p ob x g) = white g"
  "gcstate (luaC_link a ob g) = gcstate g" "white (luaC_link a ob g) = white g"
  by (auto simp: barrier_fields table_store_def lua_setmetatable_def lua_setfenv_def OP_SETUPVAL_step_def set_upval_def
      lua_setupvalue_def add_constant_def add_part_def luaC_link_def Let_def
      split: option.split gcobject.split upv.split tvalue.split)

section \<open>White bits\<close>

definition wbits :: "u8 \<Rightarrow> u8" where
  "wbits m = m AND WHITEBITS"

lemma bit_WHITEBITS: "bit WHITEBITS n \<longleftrightarrow> n < 2"
proof -
  have e: "WHITEBITS = mask 2"
    by (simp add: WHITEBITS_def mask_eq_exp_minus_1)
  show ?thesis
    unfolding e by (auto simp: bit_mask_iff)
qed

lemma wbits_eqI: "(\<And>n. n < 2 \<Longrightarrow> bit m n = bit m' n) \<Longrightarrow> wbits m = wbits m'"
  unfolding wbits_def by (rule bit_eqI) (auto simp: bit_and_iff bit_WHITEBITS)

lemma wbits_simps [simp]:
  "wbits (set_bit BLACKBIT m) = wbits m" "wbits (unset_bit BLACKBIT m) = wbits m"
  "wbits (weak_bits k v m) = wbits m" "wbits (wbits m) = wbits m"
  by (rule wbits_eqI, simp add: bit_set_bit_iff bit_unset_bit_iff BLACKBIT_def weak_bits_def Let_def
      KEYWEAKBIT_def VALUEWEAKBIT_def wbits_def bit_and_iff bit_WHITEBITS)+

lemma wbits_gray [simp]: "wbits (unset_bit 0 (unset_bit (Suc 0) m)) = 0"
proof -
  have "wbits (unset_bit 0 (unset_bit (Suc 0) m)) = wbits 0"
    by (rule wbits_eqI) (auto simp: bit_unset_bit_iff less_2_cases_iff)
  then show ?thesis
    by (simp add: wbits_def)
qed

lemma wbits_white [simp]: "wbits ((m AND maskmarks) OR gwhite g) = wbits (white g)"
  by (rule wbits_eqI)
    (auto simp: bit_or_iff bit_and_iff gwhite_def maskmarks_def bit_WHITEBITS less_2_cases_iff bit_simps)

text \<open>No object is dead; the lists of open upvalues are right.\<close>

definition undead :: "gstate \<Rightarrow> bool" where
  "undead g \<longleftrightarrow> (\<forall>a. obj g a \<noteq> None \<longrightarrow> \<not> gisdead g a)"

definition upvals_ok :: "gstate \<Rightarrow> bool" where
  "upvals_ok g \<longleftrightarrow>
     (\<forall>th. distinct (openupval g th) \<and> (\<forall>p\<in>set (openupval g th). \<exists>i. obj g p = Some (GUpval (Open th i))))"

definition tame :: "gstate \<Rightarrow> gstate \<Rightarrow> bool" where
  "tame g g' \<longleftrightarrow> white g' = white g \<and> openupval g' = openupval g \<and>
     (\<forall>a. wbits (mark g' a) \<in> {wbits (mark g a), 0, wbits (white g)}) \<and>
     (\<forall>a. map_option kind (obj g' a) = map_option kind (obj g a)) \<and>
     (\<forall>a th i. obj g a = Some (GUpval (Open th i)) \<longrightarrow> obj g' a = Some (GUpval (Open th i)))"

lemma tame_refl [simp]: "tame g g"
  by (simp add: tame_def)

lemma tame_trans: "tame g g' \<Longrightarrow> tame g' g'' \<Longrightarrow> tame g g''"
  unfolding tame_def by (auto simp: insert_iff) metis+

lemma gisdead_wbits: "gisdead g a \<longleftrightarrow> wbits (mark g a) AND (white g XOR WHITEBITS) \<noteq> 0"
  by (simp add: gisdead_def wbits_def ac_simps)

lemma white_alive: "wbits m = wbits (white g) \<Longrightarrow> wbits m AND (white g XOR WHITEBITS) = 0"
  by (rule bit_eqI) (auto simp: wbits_def bit_and_iff bit_xor_iff bit_WHITEBITS)

lemma tame_undead: "tame g g' \<Longrightarrow> undead g \<Longrightarrow> undead g'"
  using white_alive [of _ g] unfolding tame_def undead_def gisdead_wbits
  by (metis and_zero_eq insert_iff map_option_is_None singletonD zero_and_eq)

lemma tame_upvals: "tame g g' \<Longrightarrow> upvals_ok g \<Longrightarrow> upvals_ok g'"
  unfolding tame_def upvals_ok_def by metis

lemma tame_mark:
  "tame h g \<Longrightarrow> wbits m \<in> {wbits (mark g a), 0, wbits (white g)} \<Longrightarrow> tame h (set_mark a m g)"
  by (erule tame_trans) (simp add: tame_def set_mark_def)

lemma tame_fields:
  "tame h g \<Longrightarrow> tame h (g\<lparr>gray := x\<rparr>)" "tame h g \<Longrightarrow> tame h (g\<lparr>grayagain := x\<rparr>)" "tame h g \<Longrightarrow> tame h (g\<lparr>weak := x\<rparr>)"
  "tame h g \<Longrightarrow> tame h (g\<lparr>mt := y\<rparr>)" "tame h g \<Longrightarrow> tame h (g\<lparr>running := z\<rparr>)"
  by (simp_all add: tame_def)

lemma tame_put:
  "tame h g \<Longrightarrow> H = obj g \<Longrightarrow> map_option kind (obj g a) = Some (kind ob) \<Longrightarrow> kind ob \<noteq> KUpval \<Longrightarrow>
     tame h (g\<lparr>obj := H(a \<mapsto> ob)\<rparr>)"
  by (erule tame_trans) (auto simp: tame_def)

lemma tame_put_obj: "tame h g \<Longrightarrow> obj g a = Some ob \<Longrightarrow> kind ob' = kind ob \<Longrightarrow> kind ob \<noteq> KUpval \<Longrightarrow> tame h (put_obj a ob' g)"
  unfolding put_obj_def by (rule tame_put) simp_all

lemma tame_put_closed:
  "tame h g \<Longrightarrow> obj g a = Some (GUpval (Closed v)) \<Longrightarrow> tame h (put_obj a (GUpval (Closed w)) g)"
  by (erule tame_trans) (auto simp: tame_def put_obj_def)

lemma tame_colours:
  "tame h g \<Longrightarrow> tame h (white2gray a g)" "tame h g \<Longrightarrow> tame h (gray2black a g)" "tame h g \<Longrightarrow> tame h (black2gray a g)"
  "tame h g \<Longrightarrow> tame h (gmakewhite a g)" "tame h g \<Longrightarrow> tame h (stringmark a g)"
  by (auto simp: white2gray_def gray2black_def black2gray_def gmakewhite_def stringmark_def intro!: tame_mark)

lemma tame_reallymark: "tame h g \<Longrightarrow> tame h (reallymark n a g)"
proof (induction n arbitrary: a h g)
  case (Suc n)
  note ih = Suc.IH
  show ?case
    using Suc.prems
    by (auto simp: Let_def split: option.split gcobject.split upv.split intro!: ih tame_colours tame_fields)
qed simp

lemma tame_fold: "(\<And>x h g. tame h g \<Longrightarrow> tame h (f x g)) \<Longrightarrow> tame h g \<Longrightarrow> tame h (fold f xs g)"
  by (induction xs arbitrary: g) auto

lemma tame_marks:
  "tame h g \<Longrightarrow> tame h (reallymarkobject a g)" "tame h g \<Longrightarrow> tame h (markobject a g)" "tame h g \<Longrightarrow> tame h (markvalue v g)"
  by (simp_all add: reallymarkobject_def markobject_def markvalue_def tame_reallymark)

lemma tame_markings:
  "tame h g \<Longrightarrow> tame h (markvalues vs g)" "tame h g \<Longrightarrow> tame h (markopts as g)" "tame h g \<Longrightarrow> tame h (stringmarks as g)"
  "tame h g \<Longrightarrow> tame h (fold markobject us g)"
  by (auto simp: markvalues_def markopts_def stringmarks_def intro!: tame_fold tame_marks tame_colours split: option.split)

lemmas tame_intros = tame_colours tame_fields tame_marks tame_markings

section \<open>Steps that are tame\<close>

lemma tame_kind: "tame h g \<Longrightarrow> map_option kind (obj g a) = map_option kind (obj h a)"
  by (simp add: tame_def)

lemma traversetable_tame:
  assumes "tame h g" "obj g a = Some (GTable m0 arr0 nodes0)" "traversetable a m arr nodes g = (w, g')"
  shows "tame h g'"
proof -
  define g1 where "g1 = (case m of None \<Rightarrow> g | Some m \<Rightarrow> markobject m g)"
  have g1: "tame h g1" "obj g1 = obj g"
    using assms(1) by (auto simp: g1_def intro: tame_marks split: option.split)
  obtain k v where kv: "weak_mode g1 m = (k, v)"
    by (cases "weak_mode g1 m")
  define g2 where "g2 = (if k \<or> v then (set_mark a (weak_bits k v (mark g1 a)) g1)\<lparr>weak := a # weak g1\<rparr> else g1)"
  have g2: "tame h g2" "obj g2 = obj g"
    using g1 by (auto simp: g2_def intro!: tame_fields tame_mark)
  define g3 where "g3 = markvalues (concat (map (node_marks k v) (rev nodes))) (if \<not> v then markvalues (rev arr) g2 else g2)"
  have g3: "tame h g3" "obj g3 = obj g"
    using g2 by (auto simp: g3_def intro!: tame_markings)
  have "tame h (g3\<lparr>obj := (obj g3)(a \<mapsto> GTable m arr (map (\<lambda>n. if snd n = Nil then removeentry n else n) nodes))\<rparr>)"
    by (rule tame_put [OF g3(1) refl]) (simp_all add: g3(2) assms(2))
  moreover have "traversetable a m arr nodes g = (if k \<and> v then (True, g2) else
      (k \<or> v, g3\<lparr>obj := (obj g3)(a \<mapsto> GTable m arr (map (\<lambda>n. if snd n = Nil then removeentry n else n) nodes))\<rparr>))"
    by (simp add: traversetable_def g1_def [symmetric] kv Let_def g2_def g3_def)
  ultimately show ?thesis
    using assms(3) g2(1) by (auto split: if_splits)
qed

lemma propagatemark_tame: "tame g (propagatemark g)"
proof (cases "gray g")
  case (Cons a rest)
  define g1 where "g1 = (gray2black a g)\<lparr>gray := rest\<rparr>"
  note pm = propagatemark_def [of g, unfolded Cons list.case Let_def, folded g1_def]
  have g1: "tame g g1"
    by (auto simp: g1_def intro!: tame_intros)
  show ?thesis
  proof (cases "obj g1 a")
    case (Some ob)
    then show ?thesis
    proof (cases ob)
      case (GTable m arr nodes)
      then show ?thesis
        using Some traversetable_tame [OF g1, of a m arr nodes m arr nodes] unfolding pm
        by (auto intro: tame_colours split: prod.split)
    next
      case (GThread gt st tp ci)
      then show ?thesis
        using Some g1 unfolding pm
        by (auto simp: traversestack_def Let_def black2gray_def intro!: tame_put tame_intros tame_mark)
    qed (use Some g1 in \<open>auto simp: pm traverseproto_def traverseclosure_C_def traverseclosure_L_def intro!: tame_intros\<close>)
  qed (use g1 in \<open>simp add: pm\<close>)
qed (simp add: propagatemark_def)

lemma tame_barriers:
  "tame h g \<Longrightarrow> tame h (luaC_barrierf a x g)" "tame h g \<Longrightarrow> tame h (luaC_barrierback a g)"
  "tame h g \<Longrightarrow> tame h (luaC_barrier a v g)" "tame h g \<Longrightarrow> tame h (luaC_barriert a v g)"
  "tame h g \<Longrightarrow> tame h (luaC_objbarrier a x g)" "tame h g \<Longrightarrow> tame h (luaC_objbarriert a x g)"
  by (auto simp: luaC_barrierf_def luaC_barrierback_def luaC_barrier_def luaC_barriert_def luaC_objbarrier_def
      luaC_objbarriert_def Let_def intro!: tame_intros)

lemma linkupval_tame: "tame g (luaC_linkupval uv g)"
  by (auto simp: luaC_linkupval_def intro!: tame_barriers tame_intros)

lemma set_upval_tame: "tame g (set_upval uv v g)"
  by (auto simp: set_upval_def intro!: tame_put_obj tame_put_closed split: option.split gcobject.split upv.split)

lemma operations_tame:
  "tame g (table_store t arr nodes k v g)" "tame g (lua_setmetatable w m g)" "tame g (lua_setfenv w e g)"
  "tame g (OP_SETUPVAL_step uv v g)" "tame g (lua_setupvalue f n v g)"
  "obj g p = Some ob \<Longrightarrow> kind ob = KProto \<Longrightarrow> kind ob' = KProto \<Longrightarrow> tame g (add_constant p ob' v g)"
  "obj g p = Some ob \<Longrightarrow> kind ob = KProto \<Longrightarrow> kind ob' = KProto \<Longrightarrow> tame g (add_part p ob' x g)"
  by (auto simp: table_store_def lua_setmetatable_def lua_setfenv_def OP_SETUPVAL_step_def lua_setupvalue_def
      add_constant_def add_part_def Let_def
      intro!: tame_barriers tame_put_obj set_upval_tame tame_fields split: option.split gcobject.split tvalue.split)

lemma link_calm:
  assumes "undead g" "upvals_ok g" "obj g a = None" shows "undead (luaC_link a ob g)" "upvals_ok (luaC_link a ob g)"
proof -
  have s: "obj (luaC_link a ob g) = (obj g)(a \<mapsto> ob)" "mark (luaC_link a ob g) = (mark g)(a := gwhite g)"
    "white (luaC_link a ob g) = white g" "openupval (luaC_link a ob g) = openupval g"
    by (simp_all add: luaC_link_def set_mark_def put_obj_def)
  have "wbits (gwhite g) = wbits (white g)"
    by (rule wbits_eqI) (simp add: gwhite_def bit_and_iff bit_WHITEBITS)
  then show "undead (luaC_link a ob g)"
    using assms(1) white_alive [of "gwhite g" g] by (auto simp: undead_def gisdead_wbits s)
  show "upvals_ok (luaC_link a ob g)"
    using assms(2,3) by (force simp: upvals_ok_def s)
qed

section \<open>Making and closing upvalues\<close>

lemma distinct_between:
  "distinct (xs @ ys) \<Longrightarrow> a \<notin> set (xs @ ys) \<Longrightarrow> distinct (xs @ a # ys)"
  "distinct (xs @ ys) \<Longrightarrow> a \<notin> set (xs @ ys) \<Longrightarrow> set (xs @ a # ys) = insert a (set (xs @ ys))"
  by auto

lemma upvals_new:
  assumes u: "upvals_ok g" and a: "obj g a = None" and split: "openupval g th = xs @ ys"
    and s: "obj h = (obj g)(a \<mapsto> GUpval (Open th level))" "openupval h = (openupval g)(th := xs @ a # ys)"
  shows "upvals_ok h"
proof -
  have old: "distinct (openupval g t)" "p \<in> set (openupval g t) \<Longrightarrow> p \<noteq> a \<and> (\<exists>i. obj g p = Some (GUpval (Open t i)))" for t p
    using u a unfolding upvals_ok_def by (blast, metis option.distinct(1))
  have "distinct (xs @ ys)" "a \<notin> set (xs @ ys)"
    using old(1) [of th] old(2) [of a th] unfolding split by blast+
  note n = distinct_between [OF this]
  have "distinct (openupval h t)" for t
    using n(1) old(1) by (simp add: s)
  moreover have "\<exists>i. obj h p = Some (GUpval (Open t i))" if "p \<in> set (openupval h t)" for t p
    using that old(2) [of p t] n(2) by (auto simp: s split: if_splits simp flip: split)
  ultimately show ?thesis
    unfolding upvals_ok_def by blast
qed

lemma findupval_ok:
  assumes g: "phase_inv g" "wmark (gwhite g)" "undead g" "upvals_ok g" and a: "obj g a = None"
    and th: "obj g th = Some (GThread gt st tp ci)" "level < tp"
  defines "h \<equiv> snd (luaF_findupval a th level g)"
  shows "phase_inv h" "undead h" "upvals_ok h" "white h = white g" "gcstate h = gcstate g"
proof -
  let ?above = "takeWhile (\<lambda>p. level < uv_level g p) (openupval g th)"
  let ?rest = "dropWhile (\<lambda>p. level < uv_level g p) (openupval g th)"
  let ?new = "set_mark a (gwhite g) ((put_obj a (GUpval (Open th level)) g)
      \<lparr>openupval := (openupval g)(th := ?above @ a # ?rest), uvhead := a # uvhead g\<rparr>)"
  have split: "openupval g th = ?above @ ?rest"
    by simp
  have "\<not> gisdead g p" if "p \<in> set (openupval g th)" for p
    using that g(3,4) by (force simp: undead_def upvals_ok_def)
  then have alive: "?rest = p # ps \<Longrightarrow> \<not> gisdead g p" for p ps
    using split by (metis in_set_conv_decomp)
  have "h = g \<or> h = ?new"
  proof (cases ?rest)
    case Nil
    show ?thesis
      unfolding h_def luaF_findupval_def Let_def Nil list.case by simp
  next
    case (Cons p ps)
    show ?thesis
      unfolding h_def luaF_findupval_def Let_def Cons list.case using alive [OF Cons] by simp
  qed
  then consider "h = g" | "h = ?new"
    by blast
  then have "phase_inv h \<and> undead h \<and> upvals_ok h \<and> white h = white g \<and> gcstate h = gcstate g"
  proof cases
    case 2
    have w: "ob_ok (obj g) (GThread gt st tp ci)"
      using wf_ob [OF _ th(1)] g(1) by (simp add: phase_inv_def base_def)
    have "st ! level \<in> set (take tp st)" if "level < length st"
      using th(2) that by (auto simp: in_set_conv_nth intro!: exI [of _ level])
    then have "vok (obj g) (uv_value (obj g) (Open th level))"
      using w th by (auto simp: uv_value_def)
    then have ok: "ob_ok (obj g) (GUpval (Open th level))"
      using th(1) by (simp add: hask_def)
    have s: "obj ?new = (obj g)(a \<mapsto> GUpval (Open th level))" "mark ?new = (mark g)(a := gwhite g)" "white ?new = white g"
      "openupval ?new = (openupval g)(th := ?above @ a # ?rest)" "gcstate ?new = gcstate g"
      by (simp_all add: set_mark_def put_obj_def)
    have "phase_inv ?new"
      by (rule alloc_ok [OF g(1,2) a ok]) (auto simp: set_mark_def put_obj_def gclists_def)
    moreover have "wbits (gwhite g) = wbits (white g)"
      by (rule wbits_eqI) (simp add: gwhite_def bit_and_iff bit_WHITEBITS)
    then have "undead ?new"
      using g(3) white_alive [of "gwhite g" g] by (auto simp: undead_def gisdead_wbits s)
    moreover have "upvals_ok ?new"
      by (rule upvals_new [OF g(4) a split s(1,4)])
    ultimately show ?thesis
      by (simp add: 2 s)
  qed (use g in simp)
  then show "phase_inv h" "undead h" "upvals_ok h" "white h = white g" "gcstate h = gcstate g"
    by blast+
qed

text \<open>An open upvalue gets its value; if it was gray it becomes black, and the barrier looks at the value.\<close>

definition shut :: "addr \<Rightarrow> tvalue \<Rightarrow> gstate \<Rightarrow> gstate" where
  "shut uv w g = put_obj uv (GUpval (Closed w)) (unlinkupval uv g)"

lemma shut_sel:
  "obj (shut uv w g) = (obj g)(uv \<mapsto> GUpval (Closed w))" "mark (shut uv w g) = mark g" "gclists (shut uv w g) = gclists g"
  "uvhead (shut uv w g) = filter (\<lambda>p. p \<noteq> uv) (uvhead g)" "gcstate (shut uv w g) = gcstate g" "white (shut uv w g) = white g"
  "openupval (shut uv w g) = openupval g" "mainthread (shut uv w g) = mainthread g" "registry (shut uv w g) = registry g"
  "iswhite (shut uv w g) x = iswhite g x" "isblack (shut uv w g) x = isblack g x" "isgray (shut uv w g) x = isgray g x"
  by (simp_all add: shut_def unlinkupval_def put_obj_def gclists_def iswhite_def isblack_def isgray_def)

lemma shut_wf:
  assumes g: "phase_inv g" and uv: "obj g uv = Some (GUpval (Open th i))" and w: "w = uv_value (obj g) (Open th i)"
  shows "wf (shut uv w g)" "finite (dom (obj (shut uv w g)))" "uvs_ok (shut uv w g)" "blacks_ok {} (shut uv w g)"
    "lists_ok {} (shut uv w g)" "roots_ok (shut uv w g)" "vok (obj (shut uv w g)) w" "uv \<notin> set (gclists g)"
    "\<And>a. obj g a \<noteq> None \<Longrightarrow> isgray g a \<Longrightarrow> a \<noteq> uv \<Longrightarrow>
      a \<in> set (gclists g) \<or> a \<in> open_uvs (shut uv w g) \<or> hask (obj g) a KString"
proof -
  let ?ob = "GUpval (Closed w)" and ?h = "shut uv w g"
  have b: "base {} g" "cover (again g) g" "roots_ok g"
    using g by (simp_all add: phase_inv_def)
  note u = hask_upd [of "obj g" uv _ ?ob, OF uv] vok_upd [of "obj g" uv _ ?ob, OF uv] listable_upd [of "obj g" uv _ ?ob, OF uv]
  have uvv: "uv_value ((obj g)(uv \<mapsto> ?ob)) x = uv_value (obj g) x" for x
    using uv_value_upd [of "obj g" uv _ ?ob, OF uv] by simp
  have o: "orefs ((obj g)(uv \<mapsto> ?ob)) x = orefs (obj g) x" for x
    by (rule orefs_uv [OF uvv])
  have wok: "vok (obj g) w"
    using wf_ob [OF base_parts(1) [OF b(1)] uv] w by simp
  have up: "ob_ok ((obj g)(uv \<mapsto> ?ob)) x" if "ob_ok (obj g) x" for x
    by (rule ob_ok_upd [of "obj g" uv, OF uv _ _ that]) (simp_all add: uvv)
  show "wf ?h"
    unfolding wf_def shut_sel
  proof (intro allI impI)
    fix c x assume c: "((obj g)(uv \<mapsto> ?ob)) c = Some x"
    then have "ob_ok (obj g) x"
      using wok wf_ob [OF base_parts(1) [OF b(1)]] by (auto simp: uv_value_def split: if_splits)
    then show "ob_ok ((obj g)(uv \<mapsto> ?ob)) x \<and> (iswhite g c \<longrightarrow> \<not> isblack g c)"
      using up c uv base_parts(1) [OF b(1)] unfolding wf_def by (metis fun_upd_other)
  qed
  show "finite (dom (obj ?h))"
    using base_parts(2) [OF b(1)] by (simp add: shut_sel)
  show "uvs_ok ?h"
    using b(1) by (auto simp: base_def uvs_ok_def shut_sel)
  have "\<not> isblack g uv"
    using not_black [OF g uv] by simp
  then show "blacks_ok {} ?h"
    using b(1) by (auto simp: base_def blacks_ok_def shut_sel o split: if_splits)
  show "lists_ok {} ?h"
    using b(1) by (auto simp: base_def lists_ok_def shut_sel u)
  have m: "mt ?h = mt g" "tmudata ?h = tmudata g" "udata ?h = udata g" "running ?h = running g"
    by (simp_all add: shut_def unlinkupval_def put_obj_def)
  show "roots_ok ?h"
    using b(3) by (simp add: roots_ok_def shut_sel m u)
  show "vok (obj ?h) w"
    using wok by (simp add: shut_sel u)
  show "uv \<notin> set (gclists g)"
    using b(1) uv by (auto simp: base_def lists_ok_def listable_def hask_def)
  show "a \<in> set (gclists g) \<or> a \<in> open_uvs ?h \<or> hask (obj g) a KString"
    if "obj g a \<noteq> None" "isgray g a" "a \<noteq> uv" for a
    using b(2) that unfolding cover_again by (auto simp: open_uvs_def shut_sel)
qed

lemma shut_ok:
  assumes g: "phase_inv g" and uv: "obj g uv = Some (GUpval (Open th i))" and w: "w = uv_value (obj g) (Open th i)"
  shows "\<not> isgray g uv \<Longrightarrow> phase_inv (shut uv w g)"
    and "isgray g uv \<Longrightarrow> stored uv (vref w) (gray2black uv (shut uv w g))"
proof -
  let ?h = "shut uv w g"
  note s = shut_wf [OF g uv w]
  note k = hask_upd [of "obj g" uv _ "GUpval (Closed w)", OF uv]
  have rest: "\<not> iswhite g (mainthread ?h)" "\<forall>x\<in>vref (registry ?h). \<not> iswhite g x"
    using g by (simp_all add: phase_inv_def shut_sel)
  show "phase_inv ?h" if "\<not> isgray g uv"
  proof -
    have "cover (again ?h) ?h"
      unfolding cover_again using s(9) that by (auto simp: shut_sel k split: if_splits)
    then show ?thesis
      using s rest by (simp add: phase_inv_def base_def shut_sel)
  qed
  show "stored uv (vref w) (gray2black uv ?h)" if gr: "isgray g uv"
  proof -
    let ?b = "gray2black uv ?h"
    have nw: "\<not> iswhite g uv"
      using gr by (simp add: isgray_def)
    have c: "iswhite ?b x = iswhite g x" "isblack ?b x \<longleftrightarrow> x = uv \<or> isblack g x" for x
      by (auto simp: gray2black_def set_mark_def iswhite_def isblack_def shut_sel bit_set_bit_iff BLACKBIT_def)
    have gray: "isgray ?b x \<longleftrightarrow> x \<noteq> uv \<and> isgray g x" for x
      using c nw by (auto simp: isgray_def)
    have "gclists ?b = gclists ?h"
      by (simp add: gclists_def gray2black_def set_mark_def)
    then have f: "obj ?b = obj ?h" "gclists ?b = gclists g" "uvhead ?b = uvhead ?h" "mainthread ?b = mainthread ?h"
      "registry ?b = registry ?h" "open_uvs ?b = open_uvs ?h"
      by (simp_all add: shut_sel(3)) (simp_all add: gray2black_def set_mark_def open_uvs_def)
    have "wf ?b"
      using s(1) nw c unfolding wf_def f shut_sel by auto
    moreover have "uvs_ok ?b" "finite (dom (obj ?b))"
      using s(2,3) by (simp_all add: uvs_ok_def f)
    moreover have "blacks_ok {uv} ?b"
      using s(4) unfolding blacks_ok_def c f shut_sel(10,11) by blast
    moreover have "lists_ok {uv} ?b"
      using s(5,8) by (auto simp: lists_ok_def f gray shut_sel)
    ultimately have "base {uv} ?b"
      using nw by (simp add: base_def c)
    moreover have "cover (again ?b) ?b"
      unfolding cover_again gray f using s(9) by (auto simp: shut_sel k split: if_splits)
    moreover have "roots_ok ?b"
      using s(6) by (simp add: roots_ok_def gray2black_def set_mark_def)
    moreover have "isblack ?b uv" "uv \<notin> set (gclists ?b)"
      using c s(8) by (simp_all add: f)
    moreover have "obj ?b uv = Some (GUpval (Closed w))" "can_be_black (GUpval (Closed w))"
      "orefs (obj ?b) (GUpval (Closed w)) = vref w"
      by (simp_all add: f shut_sel uv_value_def)
    ultimately show ?thesis
      using rest by (auto simp: stored_def pending_def c f)
  qed
qed

lemma linkupval_fields: "gcstate (luaC_linkupval uv g) = gcstate g" "obj (luaC_linkupval uv g) = obj g"
  by (simp_all add: luaC_linkupval_def barrier_fields gray2black_def gmakewhite_def)
    (simp add: luaC_barrierf_def reallymarkobject_def gmakewhite_def)

lemma close_upval_ok:
  assumes g: "phase_inv g" "gcstate g = GCSpropagate" "undead g" "upvals_ok g"
    and uv: "obj g uv = Some (GUpval (Open th i))" "\<And>t. uv \<notin> set (openupval g t)"
  shows "phase_inv (close_upval uv g)" "gcstate (close_upval uv g) = GCSpropagate" "undead (close_upval uv g)"
    "upvals_ok (close_upval uv g)" "openupval (close_upval uv g) = openupval g" "white (close_upval uv g) = white g"
proof -
  define w where "w = uv_value (obj g) (Open th i)"
  let ?h = "shut uv w g"
  have "\<not> gisdead g uv"
    using g(3) uv(1) by (simp add: undead_def)
  then have e: "close_upval uv g = luaC_linkupval uv ?h"
    using uv(1) by (simp add: close_upval_def shut_def upvalue_of_def unlinkupval_def w_def)
  have v: "upvalue_of ?h uv = w"
    by (simp add: upvalue_of_def shut_sel uv_value_def)
  note s = shut_ok [OF g(1) uv(1) w_def]
  show "phase_inv (close_upval uv g)"
  proof (cases "isgray g uv")
    case True
    have "phase_inv (luaC_barrier uv w (gray2black uv ?h))"
      by (rule barrier_ok [OF s(2) [OF True]])
        (use shut_wf(7) [OF g(1) uv(1) w_def] g(2) in \<open>simp_all add: gray2black_def shut_sel\<close>)
    then show ?thesis
      using True g(2) unfolding e luaC_linkupval_def v by (simp add: shut_sel)
  next
    case False
    then show ?thesis
      using s(1) unfolding e luaC_linkupval_def by (simp add: shut_sel)
  qed
  have u: "undead ?h" "upvals_ok ?h"
    using g(3,4) uv by (auto simp: undead_def upvals_ok_def shut_sel gisdead_def)
  show "undead (close_upval uv g)" "upvals_ok (close_upval uv g)"
    using u tame_undead [OF linkupval_tame] tame_upvals [OF linkupval_tame] by (simp_all add: e)
  show "gcstate (close_upval uv g) = GCSpropagate"
    using g(2) by (simp add: e linkupval_fields shut_sel)
  show "openupval (close_upval uv g) = openupval g" "white (close_upval uv g) = white g"
    using linkupval_tame [of ?h uv] by (simp_all add: e tame_def shut_sel)
qed

lemma close_loop_ok:
  assumes "phase_inv g" "gcstate g = GCSpropagate" "undead g" "upvals_ok g" "openupval g th = us"
  shows "phase_inv (close_loop th level us g) \<and> gcstate (close_loop th level us g) = GCSpropagate \<and>
    undead (close_loop th level us g) \<and> upvals_ok (close_loop th level us g) \<and> white (close_loop th level us g) = white g"
  using assms
proof (induction us arbitrary: g)
  case (Cons uv rest)
  show ?case
  proof (cases "level \<le> uv_level g uv")
    case True
    let ?g = "g\<lparr>openupval := (openupval g)(th := rest)\<rparr>"
    obtain i where uv: "obj g uv = Some (GUpval (Open th i))"
      using Cons.prems(4,5) unfolding upvals_ok_def by (metis list.set_intros(1))
    have d: "uv \<notin> set rest" "distinct rest"
      using Cons.prems(4,5) unfolding upvals_ok_def by (metis distinct.simps(2))+
    have other: "uv \<notin> set (openupval ?g t)" for t
    proof (cases "t = th")
      case False
      then show ?thesis
        using Cons.prems(4) uv unfolding upvals_ok_def by fastforce
    qed (use d in simp)
    have "upvals_ok ?g"
      using Cons.prems(4,5) d unfolding upvals_ok_def by simp
    moreover have "phase_inv ?g"
      using Cons.prems(1) same_colours [of ?g g]
      by (auto simp: phase_inv_def roots_ok_def iswhite_def isblack_def again_def open_uvs_def)
    moreover have "undead ?g" "gcstate ?g = GCSpropagate" "obj ?g uv = Some (GUpval (Open th i))"
      using Cons.prems(2,3) uv by (simp_all add: undead_def gisdead_def)
    ultimately have c: "phase_inv (close_upval uv ?g)" "gcstate (close_upval uv ?g) = GCSpropagate" "undead (close_upval uv ?g)"
      "upvals_ok (close_upval uv ?g)" "openupval (close_upval uv ?g) = openupval ?g" "white (close_upval uv ?g) = white ?g"
      using close_upval_ok [of ?g uv th i] other by blast+
    have "openupval (close_upval uv ?g) th = rest"
      by (simp add: c(5))
    then show ?thesis
      using Cons.IH [OF c(1-4)] True c(6) by simp
  qed (use Cons.prems in simp)
qed simp

section \<open>The upvalues of a Lua function\<close>

text \<open>
  \<open>lua_setupvalue\<close> on a Lua function, but for the case in which its barrier looks at the wrong object: the
  upvalue is black, the function is not, and the value is white.
\<close>

lemma marks_ok:
  assumes "phase_inv g" "marks g g'" "adv g g'" shows "phase_inv g'"
proof -
  have "again g' = again g"
    using marks_sel [OF assms(2)] by (simp add: again_def open_uvs_def)
  then show ?thesis
    using assms(1) marks_base [OF _ assms(2)] marks_cover [OF _ assms(2)] adv_roots_ok [OF assms(3)] adv_white [OF assms(3)]
      marks_sel [OF assms(2)] by (simp add: phase_inv_def)
qed

lemma upvalue_store_ok:
  assumes g: "phase_inv g" "gcstate g = GCSpropagate" and v: "vok (obj g) v" and u: "hask (obj g) uv KUpval"
    and f: "isblack g f \<or> \<not> isblack g uv \<or> \<not> valiswhite g v"
  shows "phase_inv (luaC_barrier f v (set_upval uv v g))"
proof -
  let ?h = "set_upval uv v g"
  have s: "iswhite ?h x = iswhite g x" "isblack ?h x = isblack g x" "gcstate ?h = gcstate g" for x
    by (auto simp: set_upval_def split: option.split gcobject.split upv.split)
  have ok: "phase_inv (luaC_barrier uv v ?h)"
    using setupval_ok [OF g v u] by (simp add: OP_SETUPVAL_step_def)
  show ?thesis
  proof (cases "valiswhite g v \<and> isblack g uv")
    case True
    then have "luaC_barrier f v ?h = luaC_barrier uv v ?h"
      using f g(2) by (simp add: luaC_barrier_def valiswhite_def s luaC_barrierf_def)
    then show ?thesis
      using ok by simp
  next
    case False
    then have h: "phase_inv ?h"
      using ok by (auto simp: luaC_barrier_def valiswhite_def s)
    show ?thesis
    proof (cases "valiswhite g v \<and> isblack g f")
      case True
      have "map_option kind (obj ?h x) = map_option kind (obj g x)" for x
        using set_upval_tame [of g uv v] by (simp add: tame_def)
      then have "obj ?h x = None \<longleftrightarrow> obj g x = None" for x
        by (metis map_option_is_None)
      moreover obtain ob where "obj g (gcvalue v) = Some ob"
        using True v vok_vref [OF v, of "gcvalue v"] by (auto simp: valiswhite_def vref_def)
      ultimately obtain ob' where x: "obj ?h (gcvalue v) = Some ob'"
        by (metis not_None_eq)
      have "base {} ?h" "iswhite ?h (gcvalue v)"
        using h True by (simp_all add: phase_inv_def valiswhite_def s)
      then have m: "marks ?h (reallymarkobject (gcvalue v) ?h)"
        using reallymarkobject_marks [OF base_parts(1) x] by blast
      have "adv ?h (reallymarkobject (gcvalue v) ?h)"
        using marks_adv [OF base_parts(2) [OF \<open>base {} ?h\<close>] m] .
      then show ?thesis
        using True g(2) marks_ok [OF h m] by (simp add: luaC_barrier_def valiswhite_def s luaC_barrierf_def)
    qed (use h in \<open>auto simp: luaC_barrier_def valiswhite_def s\<close>)
  qed
qed

lemma setupvalue_L_ok:
  assumes g: "phase_inv g" "gcstate g = GCSpropagate" and v: "vok (obj g) v" and f: "obj g f = Some (GLClosure e p us)"
    and n: "n \<le> length us" "isblack g f \<or> \<not> isblack g (us ! (n - 1)) \<or> \<not> valiswhite g v"
  shows "phase_inv (lua_setupvalue f n v g)"
proof (cases "1 \<le> n \<and> n \<le> sizeupvalues g p")
  case True
  have cl: "ob_ok (obj g) (GLClosure e p us)"
    using wf_ob [OF _ f] g(1) by (simp add: phase_inv_def base_def)
  have "hask (obj g) (us ! (n - 1)) KUpval"
  proof -
    have "us ! (n - 1) \<in> set us"
      by (rule nth_mem) (use True n(1) in linarith)
    then show ?thesis
      using cl by simp
  qed
  then show ?thesis
    using upvalue_store_ok [OF g v _ n(2)] f True by (simp add: lua_setupvalue_def)
qed (use g f in \<open>auto simp: lua_setupvalue_def\<close>)

end
