(* ===== verification/Lua_Gc_Props.thy ===== *)
theory Lua_Gc_Props
  imports Lua_Gc_Upvals
begin

text \<open>
  The program and the collector take turns: nothing that the program can reach is dead when the mark
  phase ends, and the phase ends.
\<close>

section \<open>Runs\<close>

text \<open>
  A heap before a cycle: everything is white, and not the white of the dead, and the lists of open upvalues
  are those of the threads. The steps of a mark phase: one of the collector, or an operation of the program
  on values that exist: new objects, stores, upvalues made and closed, another thread resumed. Of
  \<open>lua_setupvalue\<close> on a Lua function one case is left out: a white value stored to a black upvalue of a
  function that is not black, which \<open>Lua_Gc_Setupvalue\<close> is about.
\<close>

definition start :: "gstate \<Rightarrow> bool" where
  "start g \<longleftrightarrow>
     (\<forall>a ob. obj g a = Some ob \<longrightarrow> ob_ok (obj g) ob \<and> iswhite g a \<and> \<not> isblack g a) \<and>
     finite (dom (obj g)) \<and> uvs_ok g \<and> roots_ok g \<and> wmark (gwhite g) \<and> undead g \<and> upvals_ok g"

inductive gstep :: "gstate \<Rightarrow> gstate \<Rightarrow> bool" where
  collect: "gray g \<noteq> [] \<Longrightarrow> gstep g (propagatemark g)"
| link: "obj g a = None \<Longrightarrow> ob_ok (obj g) ob \<Longrightarrow> (\<And>th i. ob \<noteq> GUpval (Open th i)) \<Longrightarrow> gstep g (luaC_link a ob g)"
| newudata: "obj g a = None \<Longrightarrow> ob_ok (obj g) (GUdata m e) \<Longrightarrow>
    gstep g ((luaC_link a (GUdata m e) g)\<lparr>udata := a # udata g\<rparr>)"
| table: "obj g t = Some (GTable m arr nodes) \<Longrightarrow> ob_ok (obj g) (GTable m arr' nodes') \<Longrightarrow>
    orefs (obj g) (GTable m arr' nodes') \<subseteq> orefs (obj g) (GTable m arr nodes) \<union> (vref k \<union> vref v) \<Longrightarrow>
    gstep g (table_store t arr' nodes' k v g)"
| setmetatable: "vok (obj g) v \<Longrightarrow> \<forall>x\<in>set_option m. hask (obj g) x KTable \<Longrightarrow> gstep g (lua_setmetatable v m g)"
| setfenv: "vok (obj g) v \<Longrightarrow> hask (obj g) t KTable \<Longrightarrow> gstep g (lua_setfenv v t g)"
| setupval: "vok (obj g) v \<Longrightarrow> hask (obj g) uv KUpval \<Longrightarrow> gstep g (OP_SETUPVAL_step uv v g)"
| setupvalue: "vok (obj g) v \<Longrightarrow> obj g f = Some (GCClosure e us) \<Longrightarrow> gstep g (lua_setupvalue f n v g)"
| setupvalue_L: "vok (obj g) v \<Longrightarrow> obj g f = Some (GLClosure e p us) \<Longrightarrow> n \<le> length us \<Longrightarrow>
    isblack g f \<or> \<not> isblack g (us ! (n - 1)) \<or> \<not> valiswhite g v \<Longrightarrow> gstep g (lua_setupvalue f n v g)"
| findupval: "obj g a = None \<Longrightarrow> obj g th = Some (GThread gt st tp ci) \<Longrightarrow> level < tp \<Longrightarrow>
    gstep g (snd (luaF_findupval a th level g))"
| close: "gstep g (luaF_close th level g)"
| resume: "hask (obj g) th KThread \<Longrightarrow> gstep g (g\<lparr>running := th\<rparr>)"
| new_constant: "obj g p = Some ob \<Longrightarrow> kind ob = KProto \<Longrightarrow> kind ob' = KProto \<Longrightarrow> ob_ok (obj g) ob' \<Longrightarrow> vok (obj g) v \<Longrightarrow>
    orefs (obj g) ob' \<subseteq> orefs (obj g) ob \<union> vref v \<Longrightarrow> gstep g (add_constant p ob' v g)"
| new_part: "obj g p = Some ob \<Longrightarrow> kind ob = KProto \<Longrightarrow> kind ob' = KProto \<Longrightarrow> ob_ok (obj g) ob' \<Longrightarrow> obj g x \<noteq> None \<Longrightarrow>
    orefs (obj g) ob' \<subseteq> orefs (obj g) ob \<union> {x} \<Longrightarrow> gstep g (add_part p ob' x g)"
| stack: "obj g th = Some (GThread gt st tp ci) \<Longrightarrow> ob_ok (obj g) (GThread gt' st' tp' ci') \<Longrightarrow>
    (\<And>u. vok (obj g) (uv_value (obj g) u) \<Longrightarrow> vok (obj g) (uv_value ((obj g)(th \<mapsto> GThread gt' st' tp' ci')) u)) \<Longrightarrow>
    gstep g (put_obj th (GThread gt' st' tp' ci') g)"

definition live :: "gstate \<Rightarrow> bool" where
  "live g \<longleftrightarrow> phase_inv g \<and> gcstate g = GCSpropagate \<and> wmark (gwhite g) \<and> undead g \<and> upvals_ok g"

lemma tame_live: "live g \<Longrightarrow> tame g h \<Longrightarrow> phase_inv h \<Longrightarrow> gcstate h = gcstate g \<Longrightarrow> live h"
  using tame_undead tame_upvals unfolding live_def by (auto simp: tame_def gwhite_def)

lemma liveD: "live g \<Longrightarrow> phase_inv g" "live g \<Longrightarrow> gcstate g = GCSpropagate" "live g \<Longrightarrow> wmark (gwhite g)"
  "live g \<Longrightarrow> undead g" "live g \<Longrightarrow> upvals_ok g"
  by (simp_all add: live_def)

lemma udata_linked:
  assumes "phase_inv g" "hask (obj g) a KUdata" shows "phase_inv (g\<lparr>udata := a # udata g\<rparr>)"
  using assms same_colours [of "g\<lparr>udata := a # udata g\<rparr>" g]
  by (auto simp: phase_inv_def roots_ok_def iswhite_def isblack_def again_def open_uvs_def)

lemma gstep_live:
  assumes "gstep g h" "live g" shows "live h"
  using assms
proof (induction rule: gstep.induct)
  case (collect g)
  then have p: "phase_inv g"
    by (simp add: live_def)
  then have k: "kept g (propagatemark g)"
    using propagatemark_ok(1) [OF _ collect.hyps] by (simp add: phase_inv_def)
  note f = adv_fields [OF keptD(3) [OF k]]
  have a: "again g \<subseteq> again (propagatemark g)"
    using keptD(3) [OF k] propagatemark_open [of g] by (auto simp: again_def adv_def)
  have "phase_inv (propagatemark g)"
    using p keptD(1) [OF k] cover_mono [OF keptD(2) [OF k] a] adv_roots_ok [OF keptD(3) [OF k]] f adv_white [OF keptD(3) [OF k]]
    by (simp add: phase_inv_def)
  then show ?case
    using tame_live [OF collect.prems propagatemark_tame] f by simp
next
  case (link g a ob)
  then show ?case
    using link_ok [of g a ob] link_calm [of g a ob] by (simp add: live_def operation_fields gwhite_def)
next
  case (newudata g a m e)
  let ?h = "luaC_link a (GUdata m e) g"
  have "phase_inv ?h" "undead ?h" "upvals_ok ?h"
    using newudata link_ok [of g a "GUdata m e"] link_calm [of g a "GUdata m e"] by (simp_all add: live_def)
  moreover have "hask (obj ?h) a KUdata" "udata ?h = udata g"
    by (simp_all add: luaC_link_def hask_def) (simp add: set_mark_def put_obj_def)
  ultimately have "phase_inv (?h\<lparr>udata := a # udata g\<rparr>)" "undead (?h\<lparr>udata := a # udata g\<rparr>)" "upvals_ok (?h\<lparr>udata := a # udata g\<rparr>)"
    using udata_linked [of ?h a] by (simp_all add: undead_def gisdead_def upvals_ok_def)
  then show ?case
    using newudata.prems by (simp add: live_def operation_fields gwhite_def)
next
  case (table g t m arr nodes arr' nodes' k v)
  then show ?case
    using tame_live [OF table.prems operations_tame(1)] table_store_ok [of g t m arr nodes arr' nodes' k v] liveD(1)
    by (simp add: operation_fields)
next
  case (setmetatable g v m)
  then show ?case
    using tame_live [OF setmetatable.prems operations_tame(2)] setmetatable_ok [of g v m] liveD(1,2) by (simp add: operation_fields)
next
  case (setfenv g v t)
  then show ?case
    using tame_live [OF setfenv.prems operations_tame(3)] setfenv_ok [of g v t] liveD(1,2) by (simp add: operation_fields)
next
  case (setupval g v uv)
  then show ?case
    using tame_live [OF setupval.prems operations_tame(4)] setupval_ok [of g v uv] liveD(1,2) by (simp add: operation_fields)
next
  case (setupvalue g v f e us n)
  then show ?case
    using tame_live [OF setupvalue.prems operations_tame(5)] setupvalue_ok [of g v f e us n] liveD(1,2) by (simp add: operation_fields)
next
  case (setupvalue_L g v f e p us n)
  then show ?case
    using tame_live [OF setupvalue_L.prems operations_tame(5)] setupvalue_L_ok [of g v f e p us n] liveD(1,2)
    by (simp add: operation_fields)
next
  case (findupval g a th gt st tp ci level)
  note l = liveD [OF findupval.prems]
  note r = findupval_ok [OF l(1,3,4,5) findupval.hyps]
  show ?case
    using l(2,3) r by (simp add: live_def gwhite_def)
next
  case (close g th level)
  then show ?case
    using close_loop_ok [of g th "openupval g th" level] by (simp add: live_def luaF_close_def gwhite_def)
next
  case (resume g th)
  let ?h = "g\<lparr>running := th\<rparr>"
  have "phase_inv ?h"
    using resume liveD(1) [OF resume.prems] same_colours [of ?h g]
    by (auto simp: phase_inv_def roots_ok_def iswhite_def isblack_def again_def open_uvs_def)
  then show ?case
    using tame_live [OF resume.prems tame_fields(5) [OF tame_refl]] by simp
next
  case (new_constant g p ob ob' v)
  note l = liveD [OF new_constant.prems] and n = new_constant.hyps
  show ?case
    by (rule tame_live [OF new_constant.prems operations_tame(6) [OF n(1-3)] add_constant_ok [OF l(1,2) n]])
      (simp add: operation_fields)
next
  case (new_part g p ob ob' x)
  note l = liveD [OF new_part.prems] and n = new_part.hyps
  show ?case
    by (rule tame_live [OF new_part.prems operations_tame(7) [OF n(1-3)] add_part_ok [OF l(1,2) n]])
      (simp add: operation_fields)
next
  case (stack g th gt st tp ci gt' st' tp' ci')
  have "tame g (put_obj th (GThread gt' st' tp' ci') g)"
    by (rule tame_put_obj [OF tame_refl stack.hyps(1)]) simp_all
  then show ?case
    using tame_live [OF stack.prems] stack_ok [of g th gt st tp ci gt' st' tp' ci'] stack.hyps liveD(1) [OF stack.prems] by simp
qed

lemma gsteps_live: "gstep\<^sup>*\<^sup>* g h \<Longrightarrow> live g \<Longrightarrow> live h"
  by (induction rule: rtranclp_induct) (auto intro: gstep_live)

section \<open>The beginning of a cycle\<close>

lemma markroot_tame: "tame g (markroot g)"
proof -
  have "tame g (markmt (markvalue r (markvalue v (markobject a (g\<lparr>gray := [], grayagain := [], weak := []\<rparr>)))))" for a v r
    unfolding markmt_def by (intro tame_intros tame_refl)
  then show ?thesis
    by (simp add: markroot_def Let_def tame_def)
qed

lemma markroot_ok:
  assumes "start g" shows "live (markroot g)" "obj (markroot g) = obj g"
proof -
  let ?g0 = "g\<lparr>gray := [], grayagain := [], weak := []\<rparr>"
  let ?a = "mainthread g" and ?r = "registry g"
  define v where "v = globals g ?a"
  have ro: "roots_ok g"
    using assms by (simp add: start_def)
  obtain gt st tp ci where t: "obj g ?a = Some (GThread gt st tp ci)"
    using ro by (auto simp: roots_ok_def hask_def elim: kind.elims)
  have c: "iswhite ?g0 x = iswhite g x" "isblack ?g0 x = isblack g x" for x
    by (simp_all add: iswhite_def isblack_def)
  have b: "base {} ?g0"
    using assms by (auto simp: start_def base_def wf_def uvs_ok_def blacks_ok_def lists_ok_def gclists_def c)
  have cov: "cover P ?g0" for P
    using assms by (auto simp: start_def cover_def isgray_def c)
  have gl: "vok (obj g) v"
  proof -
    have "ob_ok (obj g) (GThread gt st tp ci)"
      using assms t unfolding start_def by blast
    then show ?thesis
      using t by (simp add: v_def globals_def)
  qed
  define m1 where "m1 = markobject ?a ?g0"
  define m2 where "m2 = markvalue v m1"
  define m3 where "m3 = markvalue ?r m2"
  define m4 where "m4 = markopts (mt g) m3"
  have a1: "marks ?g0 m1" "\<not> iswhite m1 ?a"
    using markingD [of ?g0, OF marking_object base_parts(1) [OF b], of ?a] t unfolding m1_def by auto
  have w1: "wf m1" "obj m1 = obj g"
    using marks_wf [OF base_parts(1) [OF b] a1(1)] marks_sel(1) [OF a1(1)] by simp_all
  have a2: "marks m1 m2"
    using markingD(1) [of m1, OF marking_value w1(1)] w1(2) gl unfolding m2_def by simp
  have w2: "wf m2" "obj m2 = obj g"
    using marks_wf [OF w1(1) a2] marks_sel(1) [OF a2] w1 by simp_all
  have a3: "marks m2 m3" "\<forall>x\<in>vref ?r. \<not> iswhite m3 x"
    using markingD [of m2, OF marking_value w2(1)] w2(2) ro unfolding m3_def by (simp_all add: roots_ok_def)
  have w3: "wf m3" "obj m3 = obj g"
    using marks_wf [OF w2(1) a3(1)] marks_sel(1) [OF a3(1)] w2 by simp_all
  have a4: "marks m3 m4"
    using markingD(1) [of m3, OF marking_opts [where k = KTable] w3(1)] w3(2) ro unfolding m4_def by (simp add: roots_ok_def)
  have all: "marks ?g0 m4" "marks m1 m4" "marks m3 m4"
    using a1 a2 a3 a4 marks_trans by blast+
  note s = marks_sel [OF all(1), simplified]
  have e: "markroot g = m4\<lparr>gcstate := GCSpropagate\<rparr>"
  proof -
    have "globals m1 (mainthread m1) = v" "registry m2 = ?r" "mt m3 = mt g"
      using marks_sel [OF a1(1)] marks_sel [OF marks_trans [OF a1(1) a2]] marks_sel [OF marks_trans [OF marks_trans [OF a1(1) a2] a3(1)]]
      by (simp_all add: globals_def v_def)
    then show ?thesis
      by (simp add: markroot_def Let_def markmt_def m1_def [symmetric] m2_def [symmetric] m3_def [symmetric] m4_def [symmetric])
  qed
  let ?g' = "m4\<lparr>gcstate := GCSpropagate\<rparr>"
  have b4: "base {} m4" "cover P m4" for P
    using marks_base [OF b all(1)] marks_cover [OF cov all(1)] by auto
  have b': "base {} ?g'" "cover P ?g'" for P
    using same_colours [of ?g' m4] b4 by (auto simp: iswhite_def isblack_def)
  have w': "iswhite ?g' x = iswhite m4 x" for x
    by (simp add: iswhite_def)
  have "roots_ok ?g'"
    using ro s by (simp add: roots_ok_def)
  moreover have "\<not> iswhite m4 ?a" "\<forall>x\<in>vref ?r. \<not> iswhite m4 x"
    using marks_nonwhite [OF all(2) a1(2)] marks_nonwhite [OF all(3)] a3(2) by blast+
  ultimately have "phase_inv ?g'"
    using b' s by (simp add: phase_inv_def w')
  moreover have "undead (markroot g)" "upvals_ok (markroot g)"
    using assms tame_undead [OF markroot_tame] tame_upvals [OF markroot_tame] by (simp_all add: start_def)
  ultimately show "live (markroot g)" "obj (markroot g) = obj g"
    using assms s by (simp_all add: e live_def start_def gwhite_def)
qed

section \<open>Safety\<close>

inductive reachable :: "gstate \<Rightarrow> addr \<Rightarrow> bool" for g :: gstate where
  root: "x \<in> roots g \<Longrightarrow> reachable g x"
| ref: "reachable g x \<Longrightarrow> obj g x = Some ob \<Longrightarrow> y \<in> orefs (obj g) ob \<Longrightarrow> reachable g y"

lemma nonwhite_not_dead: "\<not> iswhite g a \<Longrightarrow> \<not> gisdead g a"
proof -
  assume w: "\<not> iswhite g a"
  have e: "WHITEBITS = mask 2"
    by (simp add: WHITEBITS_def mask_eq_exp_minus_1)
  have wb: "bit WHITEBITS n \<Longrightarrow> n < 2" for n
    unfolding e by (simp add: bit_mask_iff)
  have "\<not> bit (mark g a AND (white g XOR WHITEBITS) AND WHITEBITS) n" for n
    using w less_2_cases [OF wb, of n] by (auto simp: bit_and_iff iswhite_def)
  then show ?thesis
    by (simp add: gisdead_def bit_eq_iff)
qed

lemma closed_reachable:
  assumes "closed g" "reachable g x" shows "obj g x \<noteq> None \<and> \<not> iswhite g x"
  using assms(2)
proof induction
  case (root x)
  then show ?case
    using assms(1) by (auto simp: closed_def)
next
  case (ref x ob y)
  then show ?case
    using assms(1) orefs_dom [of "obj g" ob y] unfolding closed_def by blast
qed

lemma run_live: "start g \<Longrightarrow> gstep\<^sup>*\<^sup>* (markroot g) h \<Longrightarrow> live h"
  using markroot_ok(1) gsteps_live by blast

lemma atomic_phase: "atomic g = Some h \<Longrightarrow> gcstate h = GCSsweepstring"
  by (auto simp: atomic_def Let_def bind_eq_Some_conv)

text \<open>
  C3: However the program and the collector take turns in a mark phase (\<open>gstep\<close>), when the phase ends nothing
  that can be reached from the roots, through weak tables as well, has been freed or is dead. The steps leave
  out one store: \<open>lua_setupvalue\<close> of a white value into a black upvalue of a Lua function that is not black.
\<close>
theorem collector_safe:
  assumes "start g" "gstep\<^sup>*\<^sup>* (markroot g) h"
  shows "\<exists>h'. atomic h = Some h' \<and> (\<forall>x. reachable h' x \<longrightarrow> obj h' x \<noteq> None \<and> \<not> gisdead h' x)"
proof -
  have "phase_inv h"
    using run_live [OF assms] by (simp add: live_def)
  then show ?thesis
    using atomic_ok closed_reachable nonwhite_not_dead by blast
qed

text \<open>
  C4: At every moment of a mark phase no black object refers to a white one, threads and open upvalues
  are not black, and the lists linked through \<open>gclist\<close> share no object and hold gray ones only. The steps
  (\<open>gstep\<close>) are the same, with the same store left out.
\<close>
theorem mark_phase_invariant:
  assumes "start g" "gstep\<^sup>*\<^sup>* (markroot g) h"
  shows "(\<forall>a ob. obj h a = Some ob \<and> isblack h a \<longrightarrow> can_be_black ob \<and> (\<forall>x\<in>orefs (obj h) ob. \<not> iswhite h x)) \<and>
    distinct (gray h @ grayagain h @ weak h) \<and> (\<forall>a\<in>set (gray h @ grayagain h @ weak h). isgray h a)"
proof -
  have b: "base {} h"
    using run_live [OF assms] by (simp add: live_def phase_inv_def)
  then show ?thesis
    by (auto simp: base_def blacks_ok_def lists_ok_def gclists_def)
qed

lemma propagate_steps:
  assumes "base {} g" shows "\<exists>n\<le>gcmeasure g. gray ((propagatemark ^^ n) g) = [] \<and> kept g ((propagatemark ^^ n) g)"
  using assms
proof (induction g rule: measure_induct_rule [of gcmeasure])
  case (less g)
  show ?case
  proof (cases "gray g = []")
    case True
    then show ?thesis
      using less.prems by (intro exI [of _ 0]) (simp add: kept_def)
  next
    case False
    note p = propagatemark_ok [OF less.prems False]
    obtain n where n: "n \<le> gcmeasure (propagatemark g)" "gray ((propagatemark ^^ n) (propagatemark g)) = []"
        "kept (propagatemark g) ((propagatemark ^^ n) (propagatemark g))"
      using less.IH [OF p(2) keptD(1) [OF p(1)]] by blast
    then show ?thesis
      using p keeping_trans [OF p(1) n(3)] by (intro exI [of _ "Suc n"]) (simp add: funpow_swap1)
  qed
qed

lemma collect_steps:
  assumes "base {} g" "gray ((propagatemark ^^ n) g) = []" "live g"
  shows "\<exists>m\<le>n. gray ((propagatemark ^^ m) g) = [] \<and> live ((propagatemark ^^ m) g)"
  using assms(2,3)
proof (induction n arbitrary: g)
  case (Suc n)
  show ?case
  proof (cases "gray g = []")
    case False
    then have "live (propagatemark g)"
      using gstep_live [OF gstep.collect Suc.prems(2)] by blast
    then obtain m where "m \<le> n" "gray ((propagatemark ^^ m) (propagatemark g)) = []" "live ((propagatemark ^^ m) (propagatemark g))"
      using Suc.IH [of "propagatemark g"] Suc.prems(1) by (auto simp: funpow_swap1)
    then show ?thesis
      by (intro exI [of _ "Suc m"]) (simp add: funpow_swap1)
  qed (use Suc.prems in \<open>auto intro: exI [of _ 0]\<close>)
qed (use assms in auto)

text \<open>
  C5: A mark phase that the program leaves alone ends: after at most as many steps as there are white
  objects and gray ones, the next step of the collector is the atomic one and starts the sweep.
\<close>
theorem mark_phase_ends:
  assumes "start g" "gstep\<^sup>*\<^sup>* (markroot g) h"
  shows "\<exists>n\<le>gcmeasure h. \<exists>h'. mark_step ((propagatemark ^^ n) h) = Some h' \<and> gcstate h' = GCSsweepstring"
proof -
  note l = run_live [OF assms]
  then have b: "base {} h"
    by (simp add: live_def phase_inv_def)
  obtain n where n: "n \<le> gcmeasure h" "gray ((propagatemark ^^ n) h) = []"
    using propagate_steps [OF b] by blast
  obtain m where m: "m \<le> n" "gray ((propagatemark ^^ m) h) = []" "live ((propagatemark ^^ m) h)"
    using collect_steps [OF b n(2) l] by blast
  then obtain h' where "atomic ((propagatemark ^^ m) h) = Some h'"
    using atomic_ok by (auto simp: live_def)
  then have "mark_step ((propagatemark ^^ m) h) = Some h' \<and> gcstate h' = GCSsweepstring"
    using m(2,3) atomic_phase by (simp add: mark_step_def live_def)
  then show ?thesis
    using m(1) n(1) le_trans by blast
qed

section \<open>Instances\<close>

text \<open>A thread with a table on its stack, the table of globals, and a string nobody refers to.\<close>

definition small_heap :: gstate where
  "small_heap =
     \<lparr>mark = (\<lambda>a. 1), obj = [1 \<mapsto> GThread (Tab 2) [Tab 3] 1 [1], 2 \<mapsto> GTable None [] [], 3 \<mapsto> GTable None [Tab 2] [], 4 \<mapsto> GString ''x''],
      white = 1, gcstate = GCSpause, gray = [], grayagain = [], weak = [], uvhead = [], openupval = (\<lambda>a. []),
      mainthread = 1, running = 1, registry = Tab 2, mt = [None], tm_mode = 4, tm_gc = 4, udata = [], tmudata = []\<rparr>"

lemma start_small: "start small_heap"
  by (auto simp: start_def small_heap_def iswhite_def isblack_def BLACKBIT_def uvs_ok_def roots_ok_def hask_def
      gwhite_def WHITEBITS_def wmark_def undead_def gisdead_def upvals_ok_def split: if_splits)

lemma small_run: "gstep\<^sup>*\<^sup>* (markroot small_heap) (luaC_link 5 (GString ''y'') (markroot small_heap))"
proof (rule r_into_rtranclp, rule gstep.link)
  show "obj (markroot small_heap) 5 = None"
    unfolding markroot_ok(2) [OF start_small] by (simp add: small_heap_def)
qed simp_all

theorem collector_safe_witness:
  "\<exists>h'. atomic (luaC_link 5 (GString ''y'') (markroot small_heap)) = Some h' \<and>
     (\<forall>x. reachable h' x \<longrightarrow> obj h' x \<noteq> None \<and> \<not> gisdead h' x)"
  by (rule collector_safe [OF start_small small_run])

theorem mark_phase_invariant_witness:
  "let h = luaC_link 5 (GString ''y'') (markroot small_heap)
   in (\<forall>a ob. obj h a = Some ob \<and> isblack h a \<longrightarrow> can_be_black ob \<and> (\<forall>x\<in>orefs (obj h) ob. \<not> iswhite h x)) \<and>
      distinct (gray h @ grayagain h @ weak h) \<and> (\<forall>a\<in>set (gray h @ grayagain h @ weak h). isgray h a)"
  unfolding Let_def by (rule mark_phase_invariant [OF start_small small_run])

theorem mark_phase_ends_witness:
  "\<exists>n\<le>gcmeasure (luaC_link 5 (GString ''y'') (markroot small_heap)). \<exists>h'.
     mark_step ((propagatemark ^^ n) (luaC_link 5 (GString ''y'') (markroot small_heap))) = Some h' \<and> gcstate h' = GCSsweepstring"
  by (rule mark_phase_ends [OF start_small small_run])

end
