(* ===== verification/Lua_Gc_Setupvalue.thy ===== *)
theory Lua_Gc_Setupvalue
  imports Lua_Gc_Props
begin

text \<open>
  A store whose barrier is on the wrong object: \<open>lua_setupvalue\<close> writes into the upvalue of a Lua
  function, but its barrier looks at the colour of the function.
\<close>

text \<open>
  Two closures, 6 and 7, of a function with an upvalue named x share the closed upvalue 5. The collector has traversed 7, and with it 5, while
  6 still waits on the gray list. The table 8 is new.
\<close>

definition torn :: gstate where
  "torn =
     \<lparr>mark = (\<lambda>a. 4)(1 := 0, 4 := 0, 6 := 0, 8 := 1),
      obj = [1 \<mapsto> GThread (Tab 2) [Fun 6, Fun 7] 2 [2], 2 \<mapsto> GTable None [] [], 3 \<mapsto> GProto None [] [Some 4] [] [], 4 \<mapsto> GString ''x'',
             5 \<mapsto> GUpval (Closed Nil), 6 \<mapsto> GLClosure 2 3 [5], 7 \<mapsto> GLClosure 2 3 [5], 8 \<mapsto> GTable None [] []],
      white = 1, gcstate = GCSpropagate, gray = [6], grayagain = [1], weak = [], uvhead = [], openupval = (\<lambda>a. []),
      mainthread = 1, running = 1, registry = Tab 2, mt = [None], tm_mode = 4, tm_gc = 4, udata = [], tmudata = []\<rparr>"

lemma propagateall_Nil: "gray g = [] \<Longrightarrow> propagateall g = Some g"
  by (subst propagateall.simps) simp

lemma propagateall_Cons: "gray g \<noteq> [] \<Longrightarrow> propagateall g = propagateall (propagatemark g)"
  by (subst propagateall.simps) simp

lemma live_torn: "live torn"
proof -
  have "base {} torn"
    by (auto simp: base_def wf_def torn_def uvs_ok_def blacks_ok_def lists_ok_def gclists_def iswhite_def isblack_def isgray_def
        BLACKBIT_def hask_def listable_def uv_value_def vref_def iscollectable_def split: if_splits)
  moreover have "cover (again torn) torn"
    unfolding cover_again
    by (auto simp: torn_def gclists_def isgray_def iswhite_def isblack_def BLACKBIT_def hask_def)
  moreover have "roots_ok torn"
    by (auto simp: torn_def roots_ok_def hask_def)
  ultimately show ?thesis
    by (simp add: live_def phase_inv_def) (simp add: torn_def iswhite_def vref_def iscollectable_def gwhite_def WHITEBITS_def wmark_def
        undead_def gisdead_def upvals_ok_def)
qed

definition stored_torn :: gstate where
  "stored_torn = lua_setupvalue 6 1 (Tab 8) torn"

lemma stored_torn_eq: "stored_torn = torn\<lparr>obj := (obj torn)(5 \<mapsto> GUpval (Closed (Tab 8)))\<rparr>"
  by (simp add: stored_torn_def lua_setupvalue_def sizeupvalues_def torn_def set_upval_def put_obj_def luaC_barrier_def isblack_def BLACKBIT_def)

lemma step6: "propagatemark stored_torn = stored_torn\<lparr>gray := [], mark := (mark torn)(6 := set_bit BLACKBIT 0)\<rparr>"
  unfolding stored_torn_eq
  by (simp add: torn_def propagatemark_def gray2black_def set_mark_def traverseclosure_L_def markobject_def iswhite_def)


definition after_6 :: gstate where
  "after_6 = stored_torn\<lparr>gray := [], mark := (mark torn)(6 := set_bit BLACKBIT 0)\<rparr>"

lemma torn_fields:
  "gray after_6 = []" "weak after_6 = []" "grayagain after_6 = [1]" "uvhead after_6 = []" "running after_6 = 1"
  "mt after_6 = [None]" "udata after_6 = []" "tmudata after_6 = []" "white after_6 = 1"
  "mark after_6 = (\<lambda>a. 4)(1 := 0, 4 := 0, 6 := set_bit BLACKBIT 0, 8 := 1)"
  "obj after_6 = [1 \<mapsto> GThread (Tab 2) [Fun 6, Fun 7] 2 [2], 2 \<mapsto> GTable None [] [], 3 \<mapsto> GProto None [] [Some 4] [] [], 4 \<mapsto> GString ''x'',
     5 \<mapsto> GUpval (Closed (Tab 8)), 6 \<mapsto> GLClosure 2 3 [5], 7 \<mapsto> GLClosure 2 3 [5], 8 \<mapsto> GTable None [] []]"
  by (simp_all add: after_6_def stored_torn_eq torn_def fun_upd_twist)

lemma first_round: "propagateall (remarkupvals stored_torn) = Some after_6"
proof -
  have "remarkupvals stored_torn = stored_torn" "gray stored_torn \<noteq> []"
    by (simp_all add: remarkupvals_def stored_torn_eq torn_def)
  then show ?thesis
    using step6 by (simp add: propagateall_Cons propagateall_Nil after_6_def)
qed

text \<open>The thread is traversed again, but all it refers to is marked.\<close>

definition after_1 :: gstate where
  "after_1 = after_6\<lparr>mark := (mark after_6)(1 := unset_bit BLACKBIT (set_bit BLACKBIT 0)), gray := [], grayagain := [1]\<rparr>"

lemma markvalue_nonwhite: "\<not> iswhite g (gcvalue v) \<Longrightarrow> markvalue v g = g"
  by (simp add: markvalue_def)

lemma after_1_white: "iswhite after_1 2 = False" "iswhite after_1 6 = False" "iswhite after_1 7 = False" "iswhite after_1 8"
  by (simp_all add: after_1_def torn_fields iswhite_def bit_set_bit_iff BLACKBIT_def)

lemma after_1_stack: "traversestack 1 (Tab 2) [Fun 6, Fun 7] 2 [2] after_1 = after_1"
proof -
  have "(obj after_1)(1 \<mapsto> GThread (Tab 2) [Fun 6, Fun 7] 2 [2]) = obj after_1"
    by (rule fun_upd_idem) (simp add: after_1_def torn_fields)
  then show ?thesis
    by (simp add: traversestack_def markvalues_def markvalue_nonwhite after_1_white)
qed

lemma second_round: "propagatemark (after_6\<lparr>gray := [1], grayagain := []\<rparr>) = after_1"
proof -
  let ?g = "after_6\<lparr>gray := [1], grayagain := []\<rparr>"
  have "black2gray 1 ((gray2black 1 ?g)\<lparr>gray := [], grayagain := 1 # grayagain ?g\<rparr>) = after_1"
    by (simp add: after_1_def black2gray_def gray2black_def set_mark_def torn_fields)
  moreover have "obj ?g 1 = Some (GThread (Tab 2) [Fun 6, Fun 7] 2 [2])"
    by (simp add: torn_fields)
  ultimately show ?thesis
    using after_1_stack by (simp add: propagatemark_def gray2black_def set_mark_def)
qed

lemma torn_atomic: "atomic stored_torn = Some (after_1\<lparr>white := 2, gcstate := GCSsweepstring\<rparr>)"
proof -
  let ?g4 = "after_6\<lparr>gray := [1], grayagain := []\<rparr>"
  have 1: "after_6\<lparr>gray := weak after_6, weak := []\<rparr> = after_6"
    using torn_fields(1,2) by (cases after_6) simp
  have 2: "propagateall (markmt (markobject (running after_6) after_6)) = Some after_6"
    using propagateall_Nil [OF torn_fields(1)]
    by (simp add: torn_fields markobject_def iswhite_def markmt_def markopts_def)
  have 3: "propagateall ?g4 = Some after_1"
    using second_round propagateall_Nil [of after_1] by (simp add: propagateall_Cons after_1_def)
  have 4: "marktmu (luaC_separateudata False after_1) = after_1"
  proof -
    have "luaC_separateudata False after_1 = after_1" "tmudata after_1 = []"
      by (simp_all add: luaC_separateudata_def after_1_def torn_fields)
    then show ?thesis
      by (simp add: marktmu_def)
  qed
  have 5: "propagateall after_1 = Some after_1" "cleartable (weak after_1) after_1 = after_1" "white after_1 XOR WHITEBITS = 2"
    by (simp_all add: propagateall_Nil after_1_def torn_fields cleartable_def WHITEBITS_def)
  show ?thesis
    by (simp only: atomic_def Let_def first_round Option.bind_lunit 1 2 torn_fields(3) 3 4 5)
qed

lemma torn_dead: "\<exists>h. atomic (lua_setupvalue 6 1 (Tab 8) torn) = Some h \<and> reachable h 8 \<and> gisdead h 8"
proof -
  let ?h = "after_1\<lparr>white := 2, gcstate := GCSsweepstring\<rparr>"
  have o: "obj ?h = obj after_6" "roots ?h = roots after_6" "mark ?h 8 = 1" "white ?h = 2"
    by (simp_all add: after_1_def roots_def torn_fields)
  have "1 \<in> roots ?h"
    by (simp add: roots_def after_1_def torn_fields)
  then have "reachable ?h 1"
    by (rule reachable.root)
  then have "reachable ?h 7"
    by (rule reachable.ref [where ob = "GThread (Tab 2) [Fun 6, Fun 7] 2 [2]"])
      (simp_all add: o torn_fields vref_def iscollectable_def)
  then have "reachable ?h 5"
    by (rule reachable.ref [where ob = "GLClosure 2 3 [5]"]) (simp_all add: o torn_fields)
  then have "reachable ?h 8"
    by (rule reachable.ref [where ob = "GUpval (Closed (Tab 8))"])
      (simp_all add: o torn_fields vref_def uv_value_def iscollectable_def)
  moreover have "mark after_1 8 = 1"
    by (simp add: after_1_def torn_fields)
  then have "gisdead ?h 8"
    by (simp add: gisdead_def WHITEBITS_def)
  ultimately show ?thesis
    using torn_atomic unfolding stored_torn_def by blast
qed

text \<open>
  C31: the barrier of \<open>lua_setupvalue\<close> looks at the function and not at the upvalue it stores to. When in
  a mark phase the function still waits and its closed upvalue, which it shares, is done (black),
  storing a white value leaves a black object that refers to a white one, in any heap. And it is not harmless:
  from the heap \<open>torn\<close>, a legal moment of a mark phase, the phase ends with an object that the
  program can reach and that the sweep will free.
\<close>
theorem setupvalue_frees_reachable:
  assumes "live g" "obj g f = Some (GLClosure env p us)" "\<not> isblack g f" "1 \<le> n" "n \<le> sizeupvalues g p"
    and "obj g (us ! (n - 1)) = Some (GUpval (Closed w))" "isblack g (us ! (n - 1))"
    and "iscollectable v" "iswhite g (gcvalue v)"
  shows "(let h = lua_setupvalue f n v g; u = us ! (n - 1)
      in isblack h u \<and> iswhite h (gcvalue v) \<and> (\<exists>ob. obj h u = Some ob \<and> gcvalue v \<in> orefs (obj h) ob)) \<and>
    live torn \<and> (\<exists>h. atomic (lua_setupvalue 6 1 (Tab 8) torn) = Some h \<and> reachable h 8 \<and> gisdead h 8)"
proof -
  have "lua_setupvalue f n v g = put_obj (us ! (n - 1)) (GUpval (Closed v)) g"
    using assms by (simp add: lua_setupvalue_def set_upval_def luaC_barrier_def)
  then show ?thesis
    using assms live_torn torn_dead by (simp add: Let_def uv_value_def vref_def)
qed

theorem setupvalue_frees_reachable_witness:
  "isblack stored_torn 5 \<and> iswhite stored_torn 8 \<and> (\<exists>ob. obj stored_torn 5 = Some ob \<and> 8 \<in> orefs (obj stored_torn) ob)"
proof -
  have "obj torn 6 = Some (GLClosure 2 3 [5])" "\<not> isblack torn 6" "1 \<le> sizeupvalues torn 3"
    "obj torn 5 = Some (GUpval (Closed Nil))" "isblack torn 5" "iscollectable (Tab 8)" "iswhite torn 8"
    by (simp_all add: torn_def isblack_def iswhite_def sizeupvalues_def BLACKBIT_def iscollectable_def)
  then show ?thesis
    using setupvalue_frees_reachable [OF live_torn, of 6 2 3 "[5]" 1 Nil "Tab 8"]
    by (simp add: Let_def stored_torn_def)
qed

end
