(* ===== verification/Lua_Code.thy ===== *)
theory Lua_Code
  imports Lua_Lex Lua_Table_Props Lua_Checker
begin

text \<open>
  The code generator, \<^verbatim>\<open>src/src/lcode.c\<close> and \<^verbatim>\<open>lcode.h\<close>: every function of the file, in its order of
  calls, on the function state and the expression descriptor of \<^verbatim>\<open>lparser.h\<close>. What is generated is in
  the state: the code, its line numbers and the constants. A run returns, raises an error of the
  analyser, of a table or of the memory manager, or follows a jump list that does not end.
\<close>

section \<open>Data\<close>

datatype expkind =
    VVOID | VNIL | VTRUE | VFALSE | VK | VKNUM | VLOCAL | VUPVAL | VGLOBAL | VINDEXED | VJMP
  | VRELOCABLE | VNONRELOC | VCALL | VVARARG

text \<open>The two members of the union are fields of their own: \<open>nval\<close> is read only of a \<open>VKNUM\<close>.\<close>

record expdesc =
  ek :: expkind
  info :: int
  aux :: int
  nval :: lua_Number
  et :: int
  ef :: int

datatype BinOpr =
    OPR_ADD | OPR_SUB | OPR_MUL | OPR_DIV | OPR_MOD | OPR_POW | OPR_CONCAT | OPR_NE | OPR_EQ
  | OPR_LT | OPR_LE | OPR_GT | OPR_GE | OPR_AND | OPR_OR | OPR_NOBINOPR

datatype UnOpr = OPR_MINUS | OPR_NOT | OPR_LEN | OPR_NOUNOPR

abbreviation (input) NO_JUMP :: int where "NO_JUMP \<equiv> -1"
abbreviation (input) LUA_MULTRET :: int where "LUA_MULTRET \<equiv> -1"
abbreviation (input) LFIELDS_PER_FLUSH :: int where "LFIELDS_PER_FLUSH \<equiv> 50"
abbreviation (input) sizeof_Instruction :: int where "sizeof_Instruction \<equiv> 4"
abbreviation (input) sizeof_int :: int where "sizeof_int \<equiv> 4"
abbreviation (input) sizeof_TValue :: int where "sizeof_TValue \<equiv> 16"

text \<open>
  \<open>fs_code\<close> and \<open>fs_lineinfo\<close> are the first \<open>pc\<close> places of \<open>f->code\<close> and \<open>f->lineinfo\<close> (the rest of
  the vectors is not initialised); \<open>fs_sizecode\<close> and \<open>fs_sizelineinfo\<close> are their allocated sizes.
  \<open>fs_k\<close> is the whole vector \<open>f->k\<close> of \<open>sizek\<close> places, \<open>fs_nk\<close> of them used. \<open>fs_h\<close> is the table that
  finds a constant again, at the address \<open>fs_haddr\<close>.
\<close>

record FuncState =
  fs_code :: "Instruction list"
  fs_lineinfo :: "int list"
  fs_sizecode :: int
  fs_sizelineinfo :: int
  fs_k :: "tvalue list"
  fs_nk :: nat
  fs_maxstacksize :: int
  fs_h :: Table
  fs_haddr :: addr
  fs_lasttarget :: int
  fs_jpc :: int
  fs_freereg :: int
  fs_nactvar :: int
  fs_ls :: LexState
  fs_mem :: mem_state

definition fs_pc :: "FuncState \<Rightarrow> int" where
  "fs_pc fs = int (length (fs_code fs))"

text \<open>
  What is called outside: the analyser's library, the allocator, the string hashes, and the C
  arithmetic on doubles. Negation of a double is known: it flips the sign bit.
\<close>

record genlib =
  g_lex :: lexlib
  g_realloc :: "u64 \<Rightarrow> u64 \<Rightarrow> bool"
  g_hash :: "addr \<Rightarrow> u32"
  g_add :: "lua_Number \<Rightarrow> lua_Number \<Rightarrow> lua_Number"
  g_sub :: "lua_Number \<Rightarrow> lua_Number \<Rightarrow> lua_Number"
  g_mul :: "lua_Number \<Rightarrow> lua_Number \<Rightarrow> lua_Number"
  g_div :: "lua_Number \<Rightarrow> lua_Number \<Rightarrow> lua_Number"
  g_floor :: "lua_Number \<Rightarrow> lua_Number"
  g_pow :: "lua_Number \<Rightarrow> lua_Number \<Rightarrow> lua_Number"

definition luai_nummod :: "genlib \<Rightarrow> lua_Number \<Rightarrow> lua_Number \<Rightarrow> lua_Number" where
  "luai_nummod G a b = g_sub G a (g_mul G (g_floor G (g_div G a b)) b)"

definition luai_numunm :: "lua_Number \<Rightarrow> lua_Number" where
  "luai_numunm a = a XOR push_bit 63 1"

section \<open>Outcomes\<close>

datatype 'a outcome = Ret 'a FuncState | Err lua_error | Loop

fun gbind :: "'a outcome \<Rightarrow> ('a \<Rightarrow> FuncState \<Rightarrow> 'b outcome) \<Rightarrow> 'b outcome" where
  "gbind (Ret x fs) f = f x fs"
| "gbind (Err e) f = Err e"
| "gbind Loop f = Loop"

definition lift_result :: "'a result \<Rightarrow> ('a \<Rightarrow> 'b outcome) \<Rightarrow> 'b outcome" where
  "lift_result r f = (case r of Inl e \<Rightarrow> Err e | Inr x \<Rightarrow> f x)"

definition syntaxerror :: "genlib \<Rightarrow> FuncState \<Rightarrow> bytes \<Rightarrow> 'a outcome" where
  "syntaxerror G fs msg = lift_result (luaX_syntaxerror (g_lex G) (fs_ls fs) msg) (\<lambda>u :: unit. Loop)"

section \<open>Jump lists\<close>

definition hasjumps :: "expdesc \<Rightarrow> bool" where
  "hasjumps e \<longleftrightarrow> et e \<noteq> ef e"

definition isnumeral :: "expdesc \<Rightarrow> bool" where
  "isnumeral e \<longleftrightarrow> ek e = VKNUM \<and> et e = NO_JUMP \<and> ef e = NO_JUMP"

definition op_at :: "Instruction list \<Rightarrow> int \<Rightarrow> nat" where
  "op_at c pc = GET_OPCODE (c ! nat pc)"

definition fixjump :: "genlib \<Rightarrow> int \<Rightarrow> int \<Rightarrow> FuncState \<Rightarrow> unit outcome" where
  "fixjump G pc dest fs =
     (let offset = dest - (pc + 1)
      in if \<bar>offset\<bar> > MAXARG_sBx then syntaxerror G fs ''control structure too long''
         else Ret () (fs\<lparr>fs_code := (fs_code fs)[nat pc := SETARG_sBx (fs_code fs ! nat pc) offset]\<rparr>))"

definition luaK_getlabel :: "FuncState \<Rightarrow> int \<times> FuncState" where
  "luaK_getlabel fs = (fs_pc fs, fs\<lparr>fs_lasttarget := fs_pc fs\<rparr>)"

definition getjump :: "Instruction list \<Rightarrow> int \<Rightarrow> int" where
  "getjump c pc =
     (let offset = GETARG_sBx (c ! nat pc) in if offset = NO_JUMP then NO_JUMP else (pc + 1) + offset)"

definition is_test :: "nat \<Rightarrow> bool" where
  "is_test n = (case op_of n of Some op \<Rightarrow> testTMode op | None \<Rightarrow> False)"

definition getjumpcontrol :: "Instruction list \<Rightarrow> int \<Rightarrow> int" where
  "getjumpcontrol c pc = (if 1 \<le> pc \<and> is_test (op_at c (pc - 1)) then pc - 1 else pc)"

text \<open>
  The loops over a list have the length of the code as fuel, enough for a list that ends (lemma
  \<open>jlist_length\<close> in the next theory); a list that runs in a circle gives \<open>None\<close> or \<open>Loop\<close>.
\<close>

fun need_value_loop :: "nat \<Rightarrow> Instruction list \<Rightarrow> int \<Rightarrow> bool option" where
  "need_value_loop n c list =
     (if list = NO_JUMP then Some False
      else case n of 0 \<Rightarrow> None
      | Suc n \<Rightarrow> if op_at c (getjumpcontrol c list) \<noteq> opnum OP_TESTSET then Some True
                 else need_value_loop n c (getjump c list))"

definition need_value :: "int \<Rightarrow> FuncState \<Rightarrow> bool outcome" where
  "need_value list fs =
     (case need_value_loop (length (fs_code fs)) (fs_code fs) list of None \<Rightarrow> Loop | Some b \<Rightarrow> Ret b fs)"

definition patchtestreg :: "int \<Rightarrow> int \<Rightarrow> Instruction list \<Rightarrow> bool \<times> Instruction list" where
  "patchtestreg nd reg c =
     (let p = nat (getjumpcontrol c nd); i = c ! p
      in if GET_OPCODE i \<noteq> opnum OP_TESTSET then (False, c)
         else if reg \<noteq> NO_REG \<and> reg \<noteq> GETARG_B i then (True, c[p := SETARG_A i reg])
         else (True, c[p := CREATE_ABC OP_TEST (GETARG_B i) 0 (GETARG_C i)]))"

fun removevalues_loop :: "nat \<Rightarrow> int \<Rightarrow> Instruction list \<Rightarrow> Instruction list option" where
  "removevalues_loop n list c =
     (if list = NO_JUMP then Some c
      else case n of 0 \<Rightarrow> None
      | Suc n \<Rightarrow> let c = snd (patchtestreg list NO_REG c) in removevalues_loop n (getjump c list) c)"

definition removevalues :: "int \<Rightarrow> FuncState \<Rightarrow> unit outcome" where
  "removevalues list fs =
     (case removevalues_loop (length (fs_code fs)) list (fs_code fs) of
        None \<Rightarrow> Loop | Some c \<Rightarrow> Ret () (fs\<lparr>fs_code := c\<rparr>))"

fun patchlist_loop :: "nat \<Rightarrow> genlib \<Rightarrow> int \<Rightarrow> int \<Rightarrow> int \<Rightarrow> int \<Rightarrow> FuncState \<Rightarrow> unit outcome" where
  "patchlist_loop n G list vtarget reg dtarget fs =
     (if list = NO_JUMP then Ret () fs
      else case n of 0 \<Rightarrow> Loop
      | Suc n \<Rightarrow>
          let nxt = getjump (fs_code fs) list; (v, c) = patchtestreg list reg (fs_code fs)
          in gbind (fixjump G list (if v then vtarget else dtarget) (fs\<lparr>fs_code := c\<rparr>))
               (\<lambda>_ fs. patchlist_loop n G nxt vtarget reg dtarget fs))"

declare need_value_loop.simps [simp del] removevalues_loop.simps [simp del] patchlist_loop.simps [simp del]

definition patchlistaux :: "genlib \<Rightarrow> int \<Rightarrow> int \<Rightarrow> int \<Rightarrow> int \<Rightarrow> FuncState \<Rightarrow> unit outcome" where
  "patchlistaux G list vtarget reg dtarget fs =
     patchlist_loop (length (fs_code fs)) G list vtarget reg dtarget fs"

definition dischargejpc :: "genlib \<Rightarrow> FuncState \<Rightarrow> unit outcome" where
  "dischargejpc G fs = gbind (patchlistaux G (fs_jpc fs) (fs_pc fs) NO_REG (fs_pc fs) fs)
     (\<lambda>_ fs. Ret () (fs\<lparr>fs_jpc := NO_JUMP\<rparr>))"

fun list_last :: "nat \<Rightarrow> Instruction list \<Rightarrow> int \<Rightarrow> int option" where
  "list_last n c list =
     (let nxt = getjump c list in if nxt = NO_JUMP then Some list
      else case n of 0 \<Rightarrow> None | Suc n \<Rightarrow> list_last n c nxt)"

declare list_last.simps [simp del]

text \<open>\<open>l1\<close> is read and written through a pointer: the new value is the result.\<close>

definition luaK_concat :: "genlib \<Rightarrow> int \<Rightarrow> int \<Rightarrow> FuncState \<Rightarrow> int outcome" where
  "luaK_concat G l1 l2 fs =
     (if l2 = NO_JUMP then Ret l1 fs
      else if l1 = NO_JUMP then Ret l2 fs
      else case list_last (length (fs_code fs)) (fs_code fs) l1 of
        None \<Rightarrow> Loop
      | Some list \<Rightarrow> gbind (fixjump G list l2 fs) (\<lambda>_ fs. Ret l1 fs))"

definition luaK_patchtohere :: "genlib \<Rightarrow> int \<Rightarrow> FuncState \<Rightarrow> unit outcome" where
  "luaK_patchtohere G list fs =
     (let (_, fs) = luaK_getlabel fs
      in gbind (luaK_concat G (fs_jpc fs) list fs) (\<lambda>l fs. Ret () (fs\<lparr>fs_jpc := l\<rparr>)))"

definition luaK_patchlist :: "genlib \<Rightarrow> int \<Rightarrow> int \<Rightarrow> FuncState \<Rightarrow> unit outcome" where
  "luaK_patchlist G list target fs =
     (if target = fs_pc fs then luaK_patchtohere G list fs
      else patchlistaux G list target NO_REG target fs)"

section \<open>Emitting instructions\<close>

definition luaK_fixline :: "int \<Rightarrow> FuncState \<Rightarrow> FuncState" where
  "luaK_fixline line fs = fs\<lparr>fs_lineinfo := (fs_lineinfo fs)[nat (fs_pc fs - 1) := line]\<rparr>"

definition luaK_code :: "genlib \<Rightarrow> Instruction \<Rightarrow> int \<Rightarrow> FuncState \<Rightarrow> int outcome" where
  "luaK_code G i line fs =
     gbind (dischargejpc G fs) (\<lambda>_ fs.
       let pc = fs_pc fs in
       lift_result (luaM_growvector (g_realloc G) (fs_mem fs) pc (fs_sizecode fs) sizeof_Instruction
                      MAX_INT ''code size overflow'') (\<lambda>(g, sc).
       lift_result (luaM_growvector (g_realloc G) g pc (fs_sizelineinfo fs) sizeof_int
                      MAX_INT ''code size overflow'') (\<lambda>(g, sl).
       Ret pc (fs\<lparr>fs_mem := g, fs_sizecode := sc, fs_sizelineinfo := sl,
         fs_code := fs_code fs @ [i], fs_lineinfo := fs_lineinfo fs @ [line]\<rparr>))))"

definition luaK_codeABC :: "genlib \<Rightarrow> OpCode \<Rightarrow> int \<Rightarrow> int \<Rightarrow> int \<Rightarrow> FuncState \<Rightarrow> int outcome" where
  "luaK_codeABC G op a b c fs = luaK_code G (CREATE_ABC op a b c) (lastline (fs_ls fs)) fs"

definition luaK_codeABx :: "genlib \<Rightarrow> OpCode \<Rightarrow> int \<Rightarrow> int \<Rightarrow> FuncState \<Rightarrow> int outcome" where
  "luaK_codeABx G op a bc fs = luaK_code G (CREATE_ABx op a bc) (lastline (fs_ls fs)) fs"

definition luaK_codeAsBx :: "genlib \<Rightarrow> OpCode \<Rightarrow> int \<Rightarrow> int \<Rightarrow> FuncState \<Rightarrow> int outcome" where
  "luaK_codeAsBx G op a sbx = luaK_codeABx G op a (sbx + MAXARG_sBx)"

definition luaK_nil :: "genlib \<Rightarrow> int \<Rightarrow> int \<Rightarrow> FuncState \<Rightarrow> unit outcome" where
  "luaK_nil G frm n fs =
     (let emit = gbind (luaK_codeABC G OP_LOADNIL frm (frm + n - 1) 0 fs) (\<lambda>_ fs. Ret () fs)
      in if fs_pc fs > fs_lasttarget fs
         then if fs_pc fs = 0
              then if frm \<ge> fs_nactvar fs then Ret () fs else emit
              else let p = nat (fs_pc fs - 1); previous = fs_code fs ! p;
                       pfrom = GETARG_A previous; pto = GETARG_B previous
                   in if GET_OPCODE previous = opnum OP_LOADNIL \<and> pfrom \<le> frm \<and> frm \<le> pto + 1
                      then if frm + n - 1 > pto
                           then Ret () (fs\<lparr>fs_code := (fs_code fs)[p := SETARG_B previous (frm + n - 1)]\<rparr>)
                           else Ret () fs
                      else emit
         else emit)"

definition luaK_jump :: "genlib \<Rightarrow> FuncState \<Rightarrow> int outcome" where
  "luaK_jump G fs =
     (let jpc = fs_jpc fs
      in gbind (luaK_codeAsBx G OP_JMP 0 NO_JUMP (fs\<lparr>fs_jpc := NO_JUMP\<rparr>)) (\<lambda>j fs. luaK_concat G j jpc fs))"

definition luaK_ret :: "genlib \<Rightarrow> int \<Rightarrow> int \<Rightarrow> FuncState \<Rightarrow> unit outcome" where
  "luaK_ret G frst nret fs = gbind (luaK_codeABC G OP_RETURN frst (nret + 1) 0 fs) (\<lambda>_ fs. Ret () fs)"

definition condjump :: "genlib \<Rightarrow> OpCode \<Rightarrow> int \<Rightarrow> int \<Rightarrow> int \<Rightarrow> FuncState \<Rightarrow> int outcome" where
  "condjump G op a b c fs = gbind (luaK_codeABC G op a b c fs) (\<lambda>_ fs. luaK_jump G fs)"

definition code_label :: "genlib \<Rightarrow> int \<Rightarrow> int \<Rightarrow> int \<Rightarrow> FuncState \<Rightarrow> int outcome" where
  "code_label G a b jmp fs = luaK_codeABC G OP_LOADBOOL a b jmp (snd (luaK_getlabel fs))"

section \<open>Registers\<close>

definition luaK_checkstack :: "genlib \<Rightarrow> int \<Rightarrow> FuncState \<Rightarrow> unit outcome" where
  "luaK_checkstack G n fs =
     (let newstack = fs_freereg fs + n
      in if newstack > fs_maxstacksize fs
         then if newstack \<ge> MAXSTACK then syntaxerror G fs ''function or expression too complex''
              else Ret () (fs\<lparr>fs_maxstacksize := newstack mod 256\<rparr>)
         else Ret () fs)"

definition luaK_reserveregs :: "genlib \<Rightarrow> int \<Rightarrow> FuncState \<Rightarrow> unit outcome" where
  "luaK_reserveregs G n fs =
     gbind (luaK_checkstack G n fs) (\<lambda>_ fs. Ret () (fs\<lparr>fs_freereg := fs_freereg fs + n\<rparr>))"

definition freereg :: "int \<Rightarrow> FuncState \<Rightarrow> FuncState" where
  "freereg reg fs =
     (if \<not> ISK reg \<and> reg \<ge> fs_nactvar fs then fs\<lparr>fs_freereg := fs_freereg fs - 1\<rparr> else fs)"

definition freeexp :: "expdesc \<Rightarrow> FuncState \<Rightarrow> FuncState" where
  "freeexp e fs = (if ek e = VNONRELOC then freereg (info e) fs else fs)"

section \<open>Constants\<close>

text \<open>
  The pointer \<open>idx\<close> that \<open>luaH_set\<close> returns is a slot of the table it leaves; one rehash is all it
  takes (fuel 1). The write barrier after the store is the collector's.
\<close>

definition addk :: "genlib \<Rightarrow> tvalue \<Rightarrow> tvalue \<Rightarrow> FuncState \<Rightarrow> int outcome" where
  "addk G k v fs =
     (case luaH_set (g_hash G) (g_realloc G) 1 (fs_h fs) k of
        None \<Rightarrow> Loop
      | Some (t, Inl e) \<Rightarrow> Err e
      | Some (t, Inr idx) \<Rightarrow>
          (case read_slot t idx of
             Number n \<Rightarrow> Ret (lua_number2int n) (fs\<lparr>fs_h := t\<rparr>)
           | _ \<Rightarrow>
             let t = write_slot t idx (Number (cast_num (int (fs_nk fs)))); oldsize = length (fs_k fs)
             in lift_result (luaM_growvector (g_realloc G) (fs_mem fs) (int (fs_nk fs)) (int oldsize)
                  sizeof_TValue MAXARG_Bx ''constant table overflow'') (\<lambda>(g, sizek).
                let ks = fs_k fs @ replicate (nat sizek - oldsize) Nil
                in Ret (int (fs_nk fs)) (fs\<lparr>fs_h := t, fs_mem := g, fs_k := ks[fs_nk fs := v],
                     fs_nk := fs_nk fs + 1\<rparr>))))"

text \<open>
  What \<open>luaX_newstring\<close> does after it has made a string: the table keeps the string alive with the value
  true, unless it has an entry there.
\<close>

definition anchor_string :: "genlib \<Rightarrow> addr \<Rightarrow> FuncState \<Rightarrow> unit outcome" where
  "anchor_string G ts fs =
     (case luaH_setstr (g_hash G) (g_realloc G) 1 (fs_h fs) ts of
        None \<Rightarrow> Loop
      | Some (t, Inl e) \<Rightarrow> Err e
      | Some (t, Inr p) \<Rightarrow>
          Ret () (fs\<lparr>fs_h := if read_slot t p = Nil then write_slot t p (Boolean True) else t\<rparr>))"

definition luaK_stringK :: "genlib \<Rightarrow> addr \<Rightarrow> FuncState \<Rightarrow> int outcome" where
  "luaK_stringK G s = addk G (Str s) (Str s)"

definition luaK_numberK :: "genlib \<Rightarrow> lua_Number \<Rightarrow> FuncState \<Rightarrow> int outcome" where
  "luaK_numberK G r = addk G (Number r) (Number r)"

definition boolK :: "genlib \<Rightarrow> bool \<Rightarrow> FuncState \<Rightarrow> int outcome" where
  "boolK G b = addk G (Boolean b) (Boolean b)"

definition nilK :: "genlib \<Rightarrow> FuncState \<Rightarrow> int outcome" where
  "nilK G fs = addk G (Tab (fs_haddr fs)) Nil fs"

section \<open>Expressions\<close>

text \<open>
  An operation that writes through its descriptor returns the descriptor it leaves, after its own
  result when it has one.
\<close>

definition getcode :: "FuncState \<Rightarrow> expdesc \<Rightarrow> Instruction" where
  "getcode fs e = fs_code fs ! nat (info e)"

definition setcode :: "expdesc \<Rightarrow> Instruction \<Rightarrow> FuncState \<Rightarrow> FuncState" where
  "setcode e i fs = fs\<lparr>fs_code := (fs_code fs)[nat (info e) := i]\<rparr>"

definition luaK_setreturns :: "genlib \<Rightarrow> expdesc \<Rightarrow> int \<Rightarrow> FuncState \<Rightarrow> unit outcome" where
  "luaK_setreturns G e nresults fs =
     (if ek e = VCALL then Ret () (setcode e (SETARG_C (getcode fs e) (nresults + 1)) fs)
      else if ek e = VVARARG
      then let fs = setcode e (SETARG_B (getcode fs e) (nresults + 1)) fs;
               fs = setcode e (SETARG_A (getcode fs e) (fs_freereg fs)) fs
           in luaK_reserveregs G 1 fs
      else Ret () fs)"

definition luaK_setoneret :: "expdesc \<Rightarrow> FuncState \<Rightarrow> expdesc \<times> FuncState" where
  "luaK_setoneret e fs =
     (if ek e = VCALL then (e\<lparr>ek := VNONRELOC, info := GETARG_A (getcode fs e)\<rparr>, fs)
      else if ek e = VVARARG then (e\<lparr>ek := VRELOCABLE\<rparr>, setcode e (SETARG_B (getcode fs e) 2) fs)
      else (e, fs))"

definition luaK_dischargevars :: "genlib \<Rightarrow> expdesc \<Rightarrow> FuncState \<Rightarrow> expdesc outcome" where
  "luaK_dischargevars G e fs =
     (case ek e of
        VLOCAL \<Rightarrow> Ret (e\<lparr>ek := VNONRELOC\<rparr>) fs
      | VUPVAL \<Rightarrow> gbind (luaK_codeABC G OP_GETUPVAL 0 (info e) 0 fs)
          (\<lambda>pc. Ret (e\<lparr>info := pc, ek := VRELOCABLE\<rparr>))
      | VGLOBAL \<Rightarrow> gbind (luaK_codeABx G OP_GETGLOBAL 0 (info e) fs)
          (\<lambda>pc. Ret (e\<lparr>info := pc, ek := VRELOCABLE\<rparr>))
      | VINDEXED \<Rightarrow> gbind (luaK_codeABC G OP_GETTABLE 0 (info e) (aux e) (freereg (info e) (freereg (aux e) fs)))
          (\<lambda>pc. Ret (e\<lparr>info := pc, ek := VRELOCABLE\<rparr>))
      | VVARARG \<Rightarrow> (let (e, fs) = luaK_setoneret e fs in Ret e fs)
      | VCALL \<Rightarrow> (let (e, fs) = luaK_setoneret e fs in Ret e fs)
      | _ \<Rightarrow> Ret e fs)"

definition discharge2reg :: "genlib \<Rightarrow> expdesc \<Rightarrow> int \<Rightarrow> FuncState \<Rightarrow> expdesc outcome" where
  "discharge2reg G e reg fs =
     gbind (luaK_dischargevars G e fs) (\<lambda>e fs.
       let fin = \<lambda>fs. Ret (e\<lparr>info := reg, ek := VNONRELOC\<rparr>) fs in
       case ek e of
         VNIL \<Rightarrow> gbind (luaK_nil G reg 1 fs) (\<lambda>_. fin)
       | VFALSE \<Rightarrow> gbind (luaK_codeABC G OP_LOADBOOL reg 0 0 fs) (\<lambda>_. fin)
       | VTRUE \<Rightarrow> gbind (luaK_codeABC G OP_LOADBOOL reg 1 0 fs) (\<lambda>_. fin)
       | VK \<Rightarrow> gbind (luaK_codeABx G OP_LOADK reg (info e) fs) (\<lambda>_. fin)
       | VKNUM \<Rightarrow> gbind (luaK_numberK G (nval e) fs) (\<lambda>k fs.
                    gbind (luaK_codeABx G OP_LOADK reg k fs) (\<lambda>_. fin))
       | VRELOCABLE \<Rightarrow> fin (setcode e (SETARG_A (getcode fs e) reg) fs)
       | VNONRELOC \<Rightarrow> if reg \<noteq> info e then gbind (luaK_codeABC G OP_MOVE reg (info e) 0 fs) (\<lambda>_. fin) else fin fs
       | _ \<Rightarrow> Ret e fs)"

definition discharge2anyreg :: "genlib \<Rightarrow> expdesc \<Rightarrow> FuncState \<Rightarrow> expdesc outcome" where
  "discharge2anyreg G e fs =
     (if ek e \<noteq> VNONRELOC
      then gbind (luaK_reserveregs G 1 fs) (\<lambda>_ fs. discharge2reg G e (fs_freereg fs - 1) fs)
      else Ret e fs)"

text \<open>The two \<open>LOADBOOL\<close> of an expression whose jumps do not all carry a value.\<close>

definition load_bools :: "genlib \<Rightarrow> expdesc \<Rightarrow> int \<Rightarrow> FuncState \<Rightarrow> (int \<times> int) outcome" where
  "load_bools G e reg fs =
     gbind (need_value (et e) fs) (\<lambda>nt fs.
     gbind (if nt then Ret True fs else need_value (ef e) fs) (\<lambda>needed fs.
       if needed
       then gbind (if ek e = VJMP then Ret NO_JUMP fs else luaK_jump G fs) (\<lambda>fj fs.
            gbind (code_label G reg 0 1 fs) (\<lambda>p_f fs.
            gbind (code_label G reg 1 0 fs) (\<lambda>p_t fs.
            gbind (luaK_patchtohere G fj fs) (\<lambda>_. Ret (p_f, p_t)))))
       else Ret (NO_JUMP, NO_JUMP) fs))"

definition exp2reg :: "genlib \<Rightarrow> expdesc \<Rightarrow> int \<Rightarrow> FuncState \<Rightarrow> expdesc outcome" where
  "exp2reg G e reg fs =
     gbind (discharge2reg G e reg fs) (\<lambda>e fs.
     gbind (if ek e = VJMP then gbind (luaK_concat G (et e) (info e) fs) (\<lambda>l. Ret (e\<lparr>et := l\<rparr>))
            else Ret e fs) (\<lambda>e fs.
     gbind (if hasjumps e
            then gbind (load_bools G e reg fs) (\<lambda>(p_f, p_t) fs.
                 let (final, fs) = luaK_getlabel fs
                 in gbind (patchlistaux G (ef e) final reg p_f fs) (\<lambda>_. patchlistaux G (et e) final reg p_t))
            else Ret () fs)
       (\<lambda>_. Ret (e\<lparr>ef := NO_JUMP, et := NO_JUMP, info := reg, ek := VNONRELOC\<rparr>))))"

definition luaK_exp2nextreg :: "genlib \<Rightarrow> expdesc \<Rightarrow> FuncState \<Rightarrow> expdesc outcome" where
  "luaK_exp2nextreg G e fs =
     gbind (luaK_dischargevars G e fs) (\<lambda>e fs.
     gbind (luaK_reserveregs G 1 (freeexp e fs)) (\<lambda>_ fs. exp2reg G e (fs_freereg fs - 1) fs))"

text \<open>The register that \<open>luaK_exp2anyreg\<close> returns is the \<open>info\<close> of the descriptor it leaves.\<close>

definition luaK_exp2anyreg :: "genlib \<Rightarrow> expdesc \<Rightarrow> FuncState \<Rightarrow> expdesc outcome" where
  "luaK_exp2anyreg G e fs =
     gbind (luaK_dischargevars G e fs) (\<lambda>e fs.
       if ek e = VNONRELOC \<and> \<not> hasjumps e then Ret e fs
       else if ek e = VNONRELOC \<and> info e \<ge> fs_nactvar fs then exp2reg G e (info e) fs
       else luaK_exp2nextreg G e fs)"

definition luaK_exp2val :: "genlib \<Rightarrow> expdesc \<Rightarrow> FuncState \<Rightarrow> expdesc outcome" where
  "luaK_exp2val G e fs = (if hasjumps e then luaK_exp2anyreg G e fs else luaK_dischargevars G e fs)"

definition luaK_exp2RK :: "genlib \<Rightarrow> expdesc \<Rightarrow> FuncState \<Rightarrow> (int \<times> expdesc) outcome" where
  "luaK_exp2RK G e fs =
     gbind (luaK_exp2val G e fs) (\<lambda>e fs.
       let anyreg = gbind (luaK_exp2anyreg G e fs) (\<lambda>e. Ret (info e, e)) in
       if ek e \<in> {VKNUM, VTRUE, VFALSE, VNIL} \<and> int (fs_nk fs) \<le> MAXINDEXRK
       then gbind (if ek e = VNIL then nilK G fs
                   else if ek e = VKNUM then luaK_numberK G (nval e) fs
                   else boolK G (ek e = VTRUE) fs)
              (\<lambda>k. Ret (RKASK k, e\<lparr>info := k, ek := VK\<rparr>))
       else if ek e = VK \<and> info e \<le> MAXINDEXRK then Ret (RKASK (info e), e) fs
       else anyreg)"

definition luaK_storevar :: "genlib \<Rightarrow> expdesc \<Rightarrow> expdesc \<Rightarrow> FuncState \<Rightarrow> expdesc outcome" where
  "luaK_storevar G var ex fs =
     (let done = \<lambda>ex fs. Ret ex (freeexp ex fs) in
      case ek var of
        VLOCAL \<Rightarrow> exp2reg G ex (info var) (freeexp ex fs)
      | VUPVAL \<Rightarrow> gbind (luaK_exp2anyreg G ex fs) (\<lambda>ex fs.
          gbind (luaK_codeABC G OP_SETUPVAL (info ex) (info var) 0 fs) (\<lambda>_. done ex))
      | VGLOBAL \<Rightarrow> gbind (luaK_exp2anyreg G ex fs) (\<lambda>ex fs.
          gbind (luaK_codeABx G OP_SETGLOBAL (info ex) (info var) fs) (\<lambda>_. done ex))
      | VINDEXED \<Rightarrow> gbind (luaK_exp2RK G ex fs) (\<lambda>(r, ex) fs.
          gbind (luaK_codeABC G OP_SETTABLE (info var) (aux var) r fs) (\<lambda>_. done ex))
      | _ \<Rightarrow> done ex fs)"

definition luaK_self :: "genlib \<Rightarrow> expdesc \<Rightarrow> expdesc \<Rightarrow> FuncState \<Rightarrow> (expdesc \<times> expdesc) outcome" where
  "luaK_self G e key fs =
     gbind (luaK_exp2anyreg G e fs) (\<lambda>e fs.
     let fs = freeexp e fs; func = fs_freereg fs in
     gbind (luaK_reserveregs G 2 fs) (\<lambda>_ fs.
     gbind (luaK_exp2RK G key fs) (\<lambda>(r, key) fs.
     gbind (luaK_codeABC G OP_SELF func (info e) r fs) (\<lambda>_ fs.
       Ret (e\<lparr>info := func, ek := VNONRELOC\<rparr>, key) (freeexp key fs)))))"

section \<open>Conditions\<close>

definition invertjump :: "expdesc \<Rightarrow> FuncState \<Rightarrow> FuncState" where
  "invertjump e fs =
     (let p = nat (getjumpcontrol (fs_code fs) (info e)); i = fs_code fs ! p
      in fs\<lparr>fs_code := (fs_code fs)[p := SETARG_A i (if GETARG_A i = 0 then 1 else 0)]\<rparr>)"

definition jumponcond :: "genlib \<Rightarrow> expdesc \<Rightarrow> int \<Rightarrow> FuncState \<Rightarrow> (int \<times> expdesc) outcome" where
  "jumponcond G e cond fs =
     (if ek e = VRELOCABLE \<and> GET_OPCODE (getcode fs e) = opnum OP_NOT
      then gbind (condjump G OP_TEST (GETARG_B (getcode fs e)) 0 (if cond = 0 then 1 else 0)
                    (fs\<lparr>fs_code := butlast (fs_code fs), fs_lineinfo := butlast (fs_lineinfo fs)\<rparr>))
             (\<lambda>pc. Ret (pc, e))
      else gbind (discharge2anyreg G e fs) (\<lambda>e fs.
           gbind (condjump G OP_TESTSET NO_REG (info e) cond (freeexp e fs)) (\<lambda>pc. Ret (pc, e))))"

definition luaK_goiftrue :: "genlib \<Rightarrow> expdesc \<Rightarrow> FuncState \<Rightarrow> expdesc outcome" where
  "luaK_goiftrue G e fs =
     gbind (luaK_dischargevars G e fs) (\<lambda>e fs.
     gbind (if ek e \<in> {VK, VKNUM, VTRUE} then Ret (NO_JUMP, e) fs
            else if ek e = VJMP then Ret (info e, e) (invertjump e fs)
            else jumponcond G e 0 fs) (\<lambda>(pc, e) fs.
     gbind (luaK_concat G (ef e) pc fs) (\<lambda>f fs.
     gbind (luaK_patchtohere G (et e) fs) (\<lambda>_. Ret (e\<lparr>ef := f, et := NO_JUMP\<rparr>)))))"

definition luaK_goiffalse :: "genlib \<Rightarrow> expdesc \<Rightarrow> FuncState \<Rightarrow> expdesc outcome" where
  "luaK_goiffalse G e fs =
     gbind (luaK_dischargevars G e fs) (\<lambda>e fs.
     gbind (if ek e \<in> {VNIL, VFALSE} then Ret (NO_JUMP, e) fs
            else if ek e = VJMP then Ret (info e, e) fs
            else jumponcond G e 1 fs) (\<lambda>(pc, e) fs.
     gbind (luaK_concat G (et e) pc fs) (\<lambda>t fs.
     gbind (luaK_patchtohere G (ef e) fs) (\<lambda>_. Ret (e\<lparr>et := t, ef := NO_JUMP\<rparr>)))))"

definition codenot :: "genlib \<Rightarrow> expdesc \<Rightarrow> FuncState \<Rightarrow> expdesc outcome" where
  "codenot G e fs =
     gbind (luaK_dischargevars G e fs) (\<lambda>e fs.
     gbind (if ek e \<in> {VNIL, VFALSE} then Ret (e\<lparr>ek := VTRUE\<rparr>) fs
            else if ek e \<in> {VK, VKNUM, VTRUE} then Ret (e\<lparr>ek := VFALSE\<rparr>) fs
            else if ek e = VJMP then Ret e (invertjump e fs)
            else if ek e \<in> {VRELOCABLE, VNONRELOC}
            then gbind (discharge2anyreg G e fs) (\<lambda>e fs.
                 gbind (luaK_codeABC G OP_NOT 0 (info e) 0 (freeexp e fs)) (\<lambda>pc.
                   Ret (e\<lparr>info := pc, ek := VRELOCABLE\<rparr>)))
            else Ret e fs) (\<lambda>e fs.
     let e = e\<lparr>ef := et e, et := ef e\<rparr> in
     gbind (removevalues (ef e) fs) (\<lambda>_ fs.
     gbind (removevalues (et e) fs) (\<lambda>_. Ret e))))"

section \<open>Operators\<close>

definition luaK_indexed :: "genlib \<Rightarrow> expdesc \<Rightarrow> expdesc \<Rightarrow> FuncState \<Rightarrow> (expdesc \<times> expdesc) outcome" where
  "luaK_indexed G t k fs =
     gbind (luaK_exp2RK G k fs) (\<lambda>(r, k). Ret (t\<lparr>aux := r, ek := VINDEXED\<rparr>, k))"

text \<open>\<open>None\<close> is the result 0: nothing is folded. The assertion of the last case is off.\<close>

definition constfolding :: "genlib \<Rightarrow> OpCode \<Rightarrow> expdesc \<Rightarrow> expdesc \<Rightarrow> expdesc option" where
  "constfolding G op e1 e2 =
     (if \<not> isnumeral e1 \<or> \<not> isnumeral e2 then None
      else let v1 = nval e1; v2 = nval e2;
               fold = \<lambda>r. if luai_numisnan r then None else Some (e1\<lparr>nval := r\<rparr>)
        in case op of
             OP_ADD \<Rightarrow> fold (g_add G v1 v2)
           | OP_SUB \<Rightarrow> fold (g_sub G v1 v2)
           | OP_MUL \<Rightarrow> fold (g_mul G v1 v2)
           | OP_DIV \<Rightarrow> if luai_numeq v2 0 then None else fold (g_div G v1 v2)
           | OP_MOD \<Rightarrow> if luai_numeq v2 0 then None else fold (luai_nummod G v1 v2)
           | OP_POW \<Rightarrow> fold (g_pow G v1 v2)
           | OP_UNM \<Rightarrow> fold (luai_numunm v1)
           | OP_LEN \<Rightarrow> None
           | _ \<Rightarrow> fold 0)"

definition codearith :: "genlib \<Rightarrow> OpCode \<Rightarrow> expdesc \<Rightarrow> expdesc \<Rightarrow> FuncState \<Rightarrow> (expdesc \<times> expdesc) outcome" where
  "codearith G op e1 e2 fs =
     (case constfolding G op e1 e2 of
        Some e1 \<Rightarrow> Ret (e1, e2) fs
      | None \<Rightarrow>
          gbind (if op \<noteq> OP_UNM \<and> op \<noteq> OP_LEN then luaK_exp2RK G e2 fs else Ret (0, e2) fs) (\<lambda>(o2, e2) fs.
          gbind (luaK_exp2RK G e1 fs) (\<lambda>(o1, e1) fs.
          let fs = (if o1 > o2 then freeexp e2 (freeexp e1 fs) else freeexp e1 (freeexp e2 fs)) in
          gbind (luaK_codeABC G op 0 o1 o2 fs) (\<lambda>pc. Ret (e1\<lparr>info := pc, ek := VRELOCABLE\<rparr>, e2)))))"

definition codecomp ::
  "genlib \<Rightarrow> OpCode \<Rightarrow> int \<Rightarrow> expdesc \<Rightarrow> expdesc \<Rightarrow> FuncState \<Rightarrow> (expdesc \<times> expdesc) outcome" where
  "codecomp G op cond e1 e2 fs =
     gbind (luaK_exp2RK G e1 fs) (\<lambda>(o1, e1) fs.
     gbind (luaK_exp2RK G e2 fs) (\<lambda>(o2, e2) fs.
     let fs = freeexp e1 (freeexp e2 fs);
         (o1, o2, cond) = (if cond = 0 \<and> op \<noteq> OP_EQ then (o2, o1, 1) else (o1, o2, cond))
     in gbind (condjump G op cond o1 o2 fs) (\<lambda>pc. Ret (e1\<lparr>info := pc, ek := VJMP\<rparr>, e2))))"

definition luaK_prefix :: "genlib \<Rightarrow> UnOpr \<Rightarrow> expdesc \<Rightarrow> FuncState \<Rightarrow> expdesc outcome" where
  "luaK_prefix G op e fs =
     (let e2 = \<lparr>ek = VKNUM, info = 0, aux = 0, nval = 0, et = NO_JUMP, ef = NO_JUMP\<rparr> in
      case op of
        OPR_MINUS \<Rightarrow>
          gbind (if \<not> isnumeral e then luaK_exp2anyreg G e fs else Ret e fs) (\<lambda>e fs.
          gbind (codearith G OP_UNM e e2 fs) (\<lambda>(e, _). Ret e))
      | OPR_NOT \<Rightarrow> codenot G e fs
      | OPR_LEN \<Rightarrow>
          gbind (luaK_exp2anyreg G e fs) (\<lambda>e fs.
          gbind (codearith G OP_LEN e e2 fs) (\<lambda>(e, _). Ret e))
      | OPR_NOUNOPR \<Rightarrow> Ret e fs)"

definition luaK_infix :: "genlib \<Rightarrow> BinOpr \<Rightarrow> expdesc \<Rightarrow> FuncState \<Rightarrow> expdesc outcome" where
  "luaK_infix G op v fs =
     (if op = OPR_AND then luaK_goiftrue G v fs
      else if op = OPR_OR then luaK_goiffalse G v fs
      else if op = OPR_CONCAT then luaK_exp2nextreg G v fs
      else if op \<in> {OPR_ADD, OPR_SUB, OPR_MUL, OPR_DIV, OPR_MOD, OPR_POW} \<and> isnumeral v then Ret v fs
      else gbind (luaK_exp2RK G v fs) (\<lambda>(_, v). Ret v))"

text \<open>\<open>luaK_posfix\<close> leaves its result in the first descriptor; the second is not read after it.\<close>

definition posfix_concat :: "genlib \<Rightarrow> expdesc \<Rightarrow> expdesc \<Rightarrow> FuncState \<Rightarrow> expdesc outcome" where
  "posfix_concat G e1 e2 fs =
     gbind (luaK_exp2val G e2 fs) (\<lambda>e2 fs.
       if ek e2 = VRELOCABLE \<and> GET_OPCODE (getcode fs e2) = opnum OP_CONCAT
       then let fs = freeexp e1 fs
            in Ret (e1\<lparr>ek := VRELOCABLE, info := info e2\<rparr>)
                 (setcode e2 (SETARG_B (getcode fs e2) (info e1)) fs)
       else gbind (luaK_exp2nextreg G e2 fs) (\<lambda>e2 fs.
            gbind (codearith G OP_CONCAT e1 e2 fs) (\<lambda>(e1, _). Ret e1)))"

definition luaK_posfix :: "genlib \<Rightarrow> BinOpr \<Rightarrow> expdesc \<Rightarrow> expdesc \<Rightarrow> FuncState \<Rightarrow> expdesc outcome" where
  "luaK_posfix G op e1 e2 fs =
     (let arith = \<lambda>p. gbind (codearith G p e1 e2 fs) (\<lambda>(e1, _). Ret e1);
          comp = \<lambda>p cond. gbind (codecomp G p cond e1 e2 fs) (\<lambda>(e1, _). Ret e1)
      in case op of
           OPR_AND \<Rightarrow> gbind (luaK_dischargevars G e2 fs) (\<lambda>e2 fs.
                         gbind (luaK_concat G (ef e2) (ef e1) fs) (\<lambda>l. Ret (e2\<lparr>ef := l\<rparr>)))
         | OPR_OR \<Rightarrow> gbind (luaK_dischargevars G e2 fs) (\<lambda>e2 fs.
                        gbind (luaK_concat G (et e2) (et e1) fs) (\<lambda>l. Ret (e2\<lparr>et := l\<rparr>)))
         | OPR_CONCAT \<Rightarrow> posfix_concat G e1 e2 fs
         | OPR_ADD \<Rightarrow> arith OP_ADD | OPR_SUB \<Rightarrow> arith OP_SUB | OPR_MUL \<Rightarrow> arith OP_MUL
         | OPR_DIV \<Rightarrow> arith OP_DIV | OPR_MOD \<Rightarrow> arith OP_MOD | OPR_POW \<Rightarrow> arith OP_POW
         | OPR_EQ \<Rightarrow> comp OP_EQ 1 | OPR_NE \<Rightarrow> comp OP_EQ 0
         | OPR_LT \<Rightarrow> comp OP_LT 1 | OPR_LE \<Rightarrow> comp OP_LE 1
         | OPR_GT \<Rightarrow> comp OP_LT 0 | OPR_GE \<Rightarrow> comp OP_LE 0
         | OPR_NOBINOPR \<Rightarrow> Ret e1 fs)"

definition luaK_setlist :: "genlib \<Rightarrow> int \<Rightarrow> int \<Rightarrow> int \<Rightarrow> FuncState \<Rightarrow> unit outcome" where
  "luaK_setlist G base nelems tostore fs =
     (let c = sgn (nelems - 1) * (\<bar>nelems - 1\<bar> div LFIELDS_PER_FLUSH) + 1;
          b = (if tostore = LUA_MULTRET then 0 else tostore)
      in gbind (if c \<le> MAXARG_C then luaK_codeABC G OP_SETLIST base b c fs
                else gbind (luaK_codeABC G OP_SETLIST base b 0 fs) (\<lambda>_ fs.
                     luaK_code G (word_of_int c) (lastline (fs_ls fs)) fs))
           (\<lambda>_ fs. Ret () (fs\<lparr>fs_freereg := base + 1\<rparr>)))"

end
