(* ===== verification/Lua_Code_Jumps.thy ===== *)
theory Lua_Code_Jumps
  imports Lua_Code
begin

text \<open>
  The lists of jumps of \<^verbatim>\<open>src/src/lcode.c\<close>, threaded through the offsets of the jumps themselves: joining
  two lists, sending every jump of a list to its target, and the pending list that \<open>luaK_code\<close> empties.
\<close>

lemma NO_REG_pos [simp]: "0 \<le> NO_REG"
  by (simp add: NO_REG_def)

section \<open>Lists in the code\<close>

text \<open>The list that starts at \<open>l\<close> consists of the jumps at the places \<open>js\<close>.\<close>

fun jlist :: "Instruction list \<Rightarrow> int \<Rightarrow> int list \<Rightarrow> bool" where
  "jlist c l [] \<longleftrightarrow> l = NO_JUMP"
| "jlist c l (j # js) \<longleftrightarrow> l = j \<and> 0 \<le> j \<and> j < int (length c) \<and> op_at c j = opnum OP_JMP \<and>
     jlist c (getjump c j) js"

text \<open>Where a jump goes.\<close>

definition jump_dest :: "Instruction list \<Rightarrow> int \<Rightarrow> int" where
  "jump_dest c j = (j + 1) + GETARG_sBx (c ! nat j)"

lemma jlist_range: "jlist c l js \<Longrightarrow> j \<in> set js \<Longrightarrow> 0 \<le> j \<and> j < int (length c) \<and> op_at c j = opnum OP_JMP"
  by (induction js arbitrary: l) auto

lemma jlist_det: "jlist c l xs \<Longrightarrow> jlist c l ys \<Longrightarrow> xs = ys"
proof (induction xs arbitrary: l ys)
  case Nil
  then show ?case by (cases ys) auto
next
  case (Cons x xs)
  then show ?case by (cases ys) auto
qed

lemma jlist_mem: "jlist c l js \<Longrightarrow> j \<in> set js \<Longrightarrow> \<exists>ys. jlist c j ys \<and> length ys \<le> length js"
proof (induction js arbitrary: l)
  case (Cons x xs)
  show ?case
  proof (cases "j = x")
    case True
    then show ?thesis using Cons.prems by (intro exI [of _ "x # xs"]) auto
  next
    case False
    then show ?thesis using Cons by (force dest: le_SucI)
  qed
qed simp

lemma jlist_distinct: "jlist c l js \<Longrightarrow> distinct js"
proof (induction js arbitrary: l)
  case (Cons j js)
  have "j \<notin> set js"
  proof
    assume "j \<in> set js"
    then obtain ys where "jlist c j ys" "length ys \<le> length js"
      using jlist_mem [of c _ js j] Cons.prems by auto
    then show False
      using jlist_det [of c j ys "j # js"] Cons.prems by auto
  qed
  then show ?case using Cons by auto
qed simp

lemma jlist_length: assumes "jlist c l js" shows "length js \<le> length c"
proof -
  have "set js \<subseteq> {0..<int (length c)}"
    using jlist_range [OF assms] by auto
  then have "card (set js) \<le> card {0..<int (length c)}"
    by (rule card_mono [rotated]) simp
  then show ?thesis
    using distinct_card [OF jlist_distinct [OF assms]] by simp
qed

lemma jlist_cong:
  assumes "jlist c l js" "length c \<le> length c'" "\<And>j. j \<in> set js \<Longrightarrow> c' ! nat j = c ! nat j"
  shows "jlist c' l js"
  using assms(1,3)
proof (induction js arbitrary: l)
  case (Cons j js)
  then show ?case using assms(2) by (auto simp: op_at_def getjump_def)
qed simp

lemma jlist_append_code: "jlist c l js \<Longrightarrow> jlist (c @ d) l js"
  by (rule jlist_cong, assumption, simp)
    (use jlist_range in \<open>force simp: nth_append\<close>)

section \<open>Joining two lists\<close>

lemma list_last_jlist:
  "jlist c l (xs @ [x]) \<Longrightarrow> length xs \<le> n \<Longrightarrow> list_last n c l = Some x"
proof (induction xs arbitrary: l n)
  case Nil
  then show ?case by (subst list_last.simps) simp
next
  case (Cons y ys)
  then obtain m where n: "n = Suc m"
    by (cases n) auto
  have "getjump c y \<noteq> NO_JUMP"
    using Cons.prems(1) by (cases ys) auto
  then show ?case
    using Cons n by (subst list_last.simps) (simp add: Let_def)
qed

lemma syntaxerror_code [simp]: "syntaxerror G (fs\<lparr>fs_code := c\<rparr>) msg = syntaxerror G fs msg"
  by (simp add: syntaxerror_def)

lemma syntaxerror_Err: "\<exists>e. syntaxerror G fs msg = Err e"
  by (cases "luaX_syntaxerror (g_lex G) (fs_ls fs) msg :: unit result")
    (simp_all add: syntaxerror_def lift_result_def)

lemma gbind_syntaxerror [simp]: "gbind (syntaxerror G fs msg) f = syntaxerror G fs msg"
  by (cases "luaX_syntaxerror (g_lex G) (fs_ls fs) msg :: unit result")
    (simp_all add: syntaxerror_def lift_result_def)

lemma getjump_set:
  assumes "0 \<le> j" "nat j < length c" "\<bar>off\<bar> \<le> MAXARG_sBx" "off \<noteq> NO_JUMP"
  shows "getjump (c[nat j := SETARG_sBx (c ! nat j) off]) j = (j + 1) + off"
  using assms by (simp add: getjump_def SETARG_sBx_same)

lemma op_at_set_sBx [simp]: "op_at (c[p := SETARG_sBx (c ! p) off]) q = op_at c q"
proof (cases "nat q = p \<and> p < length c")
  case True
  then show ?thesis by (auto simp: op_at_def SETARG_sBx_other)
next
  case False
  then show ?thesis by (cases "nat q = p") (auto simp: op_at_def list_update_beyond)
qed

lemma jlist_link:
  assumes "jlist c l (xs @ [x])" "jlist c m (y # ys)" "set (xs @ [x]) \<inter> set (y # ys) = {}"
    and "\<bar>m - (x + 1)\<bar> \<le> MAXARG_sBx"
  shows "jlist (c[nat x := SETARG_sBx (c ! nat x) (m - (x + 1))]) l (xs @ [x] @ y # ys)"
proof -
  let ?c = "c[nat x := SETARG_sBx (c ! nat x) (m - (x + 1))]"
  have x: "0 \<le> x" "x < int (length c)"
    using jlist_range [OF assms(1), of x] by auto
  have my: "m = y" and yx: "y \<noteq> x"
    using assms(2,3) by auto
  have rest: "jlist ?c m (y # ys)"
  proof (rule jlist_cong [OF assms(2)])
    fix j assume j: "j \<in> set (y # ys)"
    then have "0 \<le> j" "j \<noteq> x"
      using jlist_range [OF assms(2), of j] assms(3) by auto
    then show "?c ! nat j = c ! nat j" using x by simp
  qed simp
  have lnk: "getjump ?c x = m"
    using x my yx assms(4) by (subst getjump_set) auto
  have "jlist ?c l (zs @ [x] @ y # ys)" if "jlist c l (zs @ [x])" "x \<notin> set zs" for zs l
    using that
  proof (induction zs arbitrary: l)
    case Nil
    then show ?case using rest lnk my by simp
  next
    case (Cons z zs)
    then have "0 \<le> z" "z \<noteq> x" by auto
    then have "getjump ?c z = getjump c z"
      using x by (simp add: getjump_def)
    then show ?case using Cons by simp
  qed
  moreover have "x \<notin> set xs"
    using jlist_distinct [OF assms(1)] by simp
  ultimately show ?thesis using assms(1) by blast
qed

lemma concat_result:
  assumes l1: "jlist (fs_code fs) l1 xs" and l2: "jlist (fs_code fs) l2 ys" and d: "set xs \<inter> set ys = {}"
  shows "luaK_concat G l1 l2 fs =
     (if ys = [] then Ret l1 fs else if xs = [] then Ret l2 fs
      else if MAXARG_sBx < \<bar>hd ys - (last xs + 1)\<bar> then syntaxerror G fs ''control structure too long''
      else Ret l1 (fs\<lparr>fs_code := (fs_code fs)[nat (last xs) := SETARG_sBx (fs_code fs ! nat (last xs)) (hd ys - (last xs + 1))]\<rparr>))"
proof (cases "xs = [] \<or> ys = []")
  case True
  then show ?thesis using l1 l2 by (cases xs; cases ys) (auto simp: luaK_concat_def)
next
  case False
  then obtain y zs where ys: "ys = y # zs" by (cases ys) auto
  obtain ws x where xs: "xs = ws @ [x]" using False by (cases xs rule: rev_cases) auto
  have "list_last (length (fs_code fs)) (fs_code fs) l1 = Some x"
    using list_last_jlist [of _ l1 ws x] l1 xs jlist_length [OF l1] by simp
  moreover have "l1 \<noteq> NO_JUMP" "l2 \<noteq> NO_JUMP" "l2 = y"
    using l1 l2 xs ys by (cases ws; auto)+
  ultimately show ?thesis
    using xs ys by (simp add: luaK_concat_def fixjump_def Let_def)
qed

section \<open>Patching a list\<close>

text \<open>What one turn of the loop does to the code.\<close>

definition patch1 :: "int \<Rightarrow> int \<Rightarrow> int \<Rightarrow> int \<Rightarrow> Instruction list \<Rightarrow> Instruction list" where
  "patch1 vt reg dt j c =
     (let (v, c1) = patchtestreg j reg c
      in c1[nat j := SETARG_sBx (c1 ! nat j) ((if v then vt else dt) - (j + 1))])"

text \<open>Whether the jump carries a value, and so where it has to go.\<close>

definition carries :: "Instruction list \<Rightarrow> int \<Rightarrow> bool" where
  "carries c j \<longleftrightarrow> op_at c (getjumpcontrol c j) = opnum OP_TESTSET"

lemma fst_patchtestreg: "fst (patchtestreg j reg c) = carries c j"
  by (simp add: patchtestreg_def carries_def op_at_def Let_def)

lemma length_patchtestreg [simp]: "length (snd (patchtestreg j reg c)) = length c"
  by (simp add: patchtestreg_def Let_def)

lemma length_patch1 [simp]: "length (patch1 vt reg dt j c) = length c"
  by (simp add: patch1_def case_prod_beta Let_def)

lemma is_test_iff: "is_test (opnum op) \<longleftrightarrow> op \<in> {OP_EQ, OP_LT, OP_LE, OP_TEST, OP_TESTSET, OP_TFORLOOP}"
  by (simp add: is_test_def op_modes_flow)

lemma control_cases:
  "getjumpcontrol c j = j \<or> getjumpcontrol c j = j - 1 \<and> 1 \<le> j \<and> is_test (op_at c (j - 1))"
  by (simp add: getjumpcontrol_def)

text \<open>The patched control instruction: a \<open>TESTSET\<close> to the register, or a plain \<open>TEST\<close>.\<close>

definition patched_test :: "int \<Rightarrow> Instruction \<Rightarrow> Instruction" where
  "patched_test reg i =
     (if reg \<noteq> NO_REG \<and> reg \<noteq> GETARG_B i then SETARG_A i reg
      else CREATE_ABC OP_TEST (GETARG_B i) 0 (GETARG_C i))"

lemma snd_patchtestreg:
  "snd (patchtestreg j reg c) =
     (if carries c j then c[nat (getjumpcontrol c j) := patched_test reg (c ! nat (getjumpcontrol c j))] else c)"
  by (simp add: patchtestreg_def carries_def op_at_def patched_test_def Let_def)


lemma get_op_push [simp]: "6 \<le> q \<Longrightarrow> get_field 6 0 (push_bit q v) = 0"
  by (rule bit_word_eqI) (auto simp: bit_get_field bit_simps)

lemma GET_OPCODE_ABC [simp]: "GET_OPCODE (CREATE_ABC p a b c) = opnum p"
  using opnum_less [of p]
  by (simp add: GET_OPCODE_field CREATE_ABC_def get_field_or unat_of_nat get_field_0_fits fits_opnum)

lemma GET_OPCODE_ABx [simp]: "GET_OPCODE (CREATE_ABx p a b) = opnum p"
  using opnum_less [of p]
  by (simp add: GET_OPCODE_field CREATE_ABx_def get_field_or unat_of_nat get_field_0_fits fits_opnum)

lemma is_test_patched: "GET_OPCODE i = opnum OP_TESTSET \<Longrightarrow> 0 \<le> reg \<Longrightarrow> is_test (GET_OPCODE (patched_test reg i))"
  using is_test_iff [of OP_TESTSET] is_test_iff [of OP_TEST]
  by (simp add: patched_test_def SETARG_other)

lemma jump_not_test: "op_at c j = opnum OP_JMP \<Longrightarrow> \<not> is_test (op_at c j)"
  by (simp add: is_test_iff del: opnum.simps)

lemma carries_control: "op_at c j = opnum OP_JMP \<Longrightarrow> carries c j \<Longrightarrow> getjumpcontrol c j = j - 1 \<and> 1 \<le> j"
  using control_cases [of c j] by (auto simp: carries_def)

lemma patch1_nth:
  assumes "0 \<le> j" "j < int (length c)" "op_at c j = opnum OP_JMP" "0 \<le> p"
  shows "patch1 vt reg dt j c ! nat p =
     (if p = j then SETARG_sBx (c ! nat j) ((if carries c j then vt else dt) - (j + 1))
      else if carries c j \<and> p = j - 1 then patched_test reg (c ! nat p) else c ! nat p)"
proof (cases "carries c j")
  case True
  then have "getjumpcontrol c j = j - 1" "1 \<le> j"
    using carries_control assms(3) by auto
  then show ?thesis
    using assms True fst_patchtestreg [of j reg c] snd_patchtestreg [of j reg c]
    by (auto simp: patch1_def case_prod_beta Let_def nth_list_update nat_eq_iff nat_diff_distrib)
next
  case False
  then show ?thesis
    using assms fst_patchtestreg [of j reg c] snd_patchtestreg [of j reg c]
    by (auto simp: patch1_def case_prod_beta Let_def nth_list_update nat_eq_iff)
qed

lemma patch1_test:
  assumes "0 \<le> j" "j < int (length c)" "op_at c j = opnum OP_JMP" "0 \<le> p" "0 \<le> reg"
  shows "is_test (op_at (patch1 vt reg dt j c) p) = is_test (op_at c p)"
  using assms carries_control [OF assms(3)] is_test_iff [of OP_TESTSET] is_test_patched [of "c ! nat p" reg]
  by (auto simp: op_at_def patch1_nth SETARG_sBx_other carries_def)

lemma patch1_control:
  assumes "0 \<le> j" "j < int (length c)" "op_at c j = opnum OP_JMP" "0 \<le> reg"
  shows "getjumpcontrol (patch1 vt reg dt j c) k = getjumpcontrol c k"
  using assms patch1_test [OF assms(1-3) _ assms(4), of "k - 1"] by (auto simp: getjumpcontrol_def)

lemma control_range: "0 \<le> k \<Longrightarrow> 0 \<le> getjumpcontrol c k"
  by (simp add: getjumpcontrol_def)

text \<open>Patching one jump leaves the others and what controls them.\<close>

lemma patch1_other:
  assumes j: "0 \<le> j" "j < int (length c)" "op_at c j = opnum OP_JMP" and r: "0 \<le> reg"
    and k: "0 \<le> k" "op_at c k = opnum OP_JMP" "k \<noteq> j"
  shows "patch1 vt reg dt j c ! nat k = c ! nat k"
    and "patch1 vt reg dt j c ! nat (getjumpcontrol c k) = c ! nat (getjumpcontrol c k)"
proof -
  have j1: "k \<noteq> j - 1" if "carries c j"
    using carries_control [OF j(3) that] control_cases [of c j] jump_not_test [OF k(2)] by auto
  then show "patch1 vt reg dt j c ! nat k = c ! nat k"
    using patch1_nth [OF j k(1)] k(3) by auto
  have "getjumpcontrol c k \<noteq> j"
    using control_cases [of c k] jump_not_test [OF j(3)] k(3) by auto
  moreover have "getjumpcontrol c k \<noteq> j - 1" if "carries c j"
    using control_cases [of c k] j1 [OF that] k(3) by auto
  ultimately show "patch1 vt reg dt j c ! nat (getjumpcontrol c k) = c ! nat (getjumpcontrol c k)"
    using patch1_nth [OF j control_range [OF k(1)]] by auto
qed

lemma patch1_carries:
  assumes "0 \<le> j" "j < int (length c)" "op_at c j = opnum OP_JMP" "0 \<le> reg"
    and "0 \<le> k" "op_at c k = opnum OP_JMP" "k \<noteq> j"
  shows "carries (patch1 vt reg dt j c) k = carries c k"
  using patch1_other(2) [OF assms] patch1_control [OF assms(1-4)] by (simp add: carries_def op_at_def)

definition reaches :: "int \<Rightarrow> int \<Rightarrow> Instruction list \<Rightarrow> int \<Rightarrow> bool" where
  "reaches vt dt c j \<longleftrightarrow> \<bar>(if carries c j then vt else dt) - (j + 1)\<bar> \<le> MAXARG_sBx"

lemma patchlist_loop_eq:
  assumes "jlist (fs_code fs) l js" "length js \<le> n" "0 \<le> reg"
  shows "patchlist_loop n G l vt reg dt fs =
     (if \<forall>j \<in> set js. reaches vt dt (fs_code fs) j
      then Ret () (fs\<lparr>fs_code := foldl (\<lambda>c j. patch1 vt reg dt j c) (fs_code fs) js\<rparr>)
      else syntaxerror G fs ''control structure too long'')"
  using assms(1,2)
proof (induction js arbitrary: l n fs)
  case Nil
  then show ?case by (subst patchlist_loop.simps) simp
next
  case (Cons j js)
  let ?c = "fs_code fs" and ?c' = "patch1 vt reg dt j (fs_code fs)"
  obtain m where n: "n = Suc m" and m: "length js \<le> m"
    using Cons.prems(2) by (cases n) auto
  have j: "l = j" "0 \<le> j" "j < int (length ?c)" "op_at ?c j = opnum OP_JMP" "jlist ?c (getjump ?c j) js"
    using Cons.prems(1) by auto
  have nj: "j \<notin> set js"
    using jlist_distinct [OF Cons.prems(1)] by simp
  have o: "k \<in> set js \<Longrightarrow> 0 \<le> k \<and> op_at ?c k = opnum OP_JMP \<and> k \<noteq> j" for k
    using jlist_range [OF j(5)] nj by auto
  have "jlist ?c' (getjump ?c j) js"
    using jlist_cong [OF j(5), of ?c'] patch1_other(1) [OF j(2-4) assms(3)] o by simp
  moreover have "reaches vt dt ?c' k = reaches vt dt ?c k" if "k \<in> set js" for k
    using patch1_carries [OF j(2-4) assms(3)] o [OF that] by (simp add: reaches_def)
  ultimately have ih: "patchlist_loop m G (getjump ?c j) vt reg dt (fs\<lparr>fs_code := ?c'\<rparr>) =
     (if \<forall>j \<in> set js. reaches vt dt ?c j
      then Ret () (fs\<lparr>fs_code := foldl (\<lambda>c j. patch1 vt reg dt j c) ?c' js\<rparr>)
      else syntaxerror G fs ''control structure too long'')"
    using Cons.IH [of "fs\<lparr>fs_code := ?c'\<rparr>" "getjump ?c j" m] m by simp
  show ?case
  proof (cases "reaches vt dt ?c j")
    case True
    then have "fixjump G j (if fst (patchtestreg j reg ?c) then vt else dt) (fs\<lparr>fs_code := snd (patchtestreg j reg ?c)\<rparr>)
      = Ret () (fs\<lparr>fs_code := ?c'\<rparr>)"
      by (simp add: fixjump_def patch1_def reaches_def fst_patchtestreg case_prod_beta Let_def split: if_splits)
    then show ?thesis
      using True ih j(1,2) n by (subst patchlist_loop.simps) (simp add: case_prod_beta Let_def)
  next
    case False
    then have "fixjump G j (if fst (patchtestreg j reg ?c) then vt else dt) (fs\<lparr>fs_code := snd (patchtestreg j reg ?c)\<rparr>)
      = syntaxerror G fs ''control structure too long''"
      by (auto simp: fixjump_def reaches_def fst_patchtestreg case_prod_beta Let_def split: if_splits)
    then show ?thesis
      using False j(1,2) n by (subst patchlist_loop.simps) (simp add: case_prod_beta Let_def)
  qed
qed

text \<open>What a whole pass has done, in terms of the code before it.\<close>

definition patched :: "int \<Rightarrow> int \<Rightarrow> int \<Rightarrow> int list \<Rightarrow> Instruction list \<Rightarrow> Instruction list \<Rightarrow> bool" where
  "patched vt reg dt js c c' \<longleftrightarrow> length c' = length c \<and>
     (\<forall>j \<in> set js. jump_dest c' j = (if carries c j then vt else dt)) \<and>
     (\<forall>j \<in> set js. carries c j \<longrightarrow> c' ! nat (j - 1) = patched_test reg (c ! nat (j - 1))) \<and>
     (\<forall>p \<ge> 0. p \<notin> set js \<longrightarrow> \<not> (p + 1 \<in> set js \<and> carries c (p + 1)) \<longrightarrow> c' ! nat p = c ! nat p)"

lemma foldl_patched:
  assumes "jlist c l js" "0 \<le> reg" "\<forall>j \<in> set js. reaches vt dt c j"
  shows "patched vt reg dt js c (foldl (\<lambda>c j. patch1 vt reg dt j c) c js)"
  using assms(1,3)
proof (induction js arbitrary: l c)
  case Nil
  then show ?case by (simp add: patched_def)
next
  case (Cons j js)
  let ?c' = "patch1 vt reg dt j c"
  let ?d = "foldl (\<lambda>c j. patch1 vt reg dt j c) ?c' js"
  have j: "0 \<le> j" "j < int (length c)" "op_at c j = opnum OP_JMP" "jlist c (getjump c j) js"
    using Cons.prems(1) by auto
  have nj: "j \<notin> set js"
    using jlist_distinct [OF Cons.prems(1)] by simp
  have o: "k \<in> set js \<Longrightarrow> 0 \<le> k \<and> op_at c k = opnum OP_JMP \<and> k \<noteq> j" for k
    using jlist_range [OF j(4)] nj by auto
  have ca: "carries ?c' k = carries c k" if "k \<in> set js" for k
    using patch1_carries [OF j(1-3) assms(2)] o [OF that] by simp
  have "jlist ?c' (getjump c j) js"
    using jlist_cong [OF j(4), of ?c'] patch1_other(1) [OF j(1-3) assms(2)] o by simp
  moreover have "\<forall>k \<in> set js. reaches vt dt ?c' k"
    using Cons.prems(2) ca by (simp add: reaches_def)
  ultimately have ih: "patched vt reg dt js ?c' ?d"
    by (rule Cons.IH)
  note nth = patch1_nth [OF j(1-3)]
  have keep: "?d ! nat p = ?c' ! nat p" if "0 \<le> p" "p \<notin> set js" "\<not> (p + 1 \<in> set js \<and> carries c (p + 1))" for p
    using ih that ca [of "p + 1"] by (auto simp: patched_def)
  have jj: "?d ! nat j = ?c' ! nat j"
  proof (rule keep [OF j(1) nj])
    show "\<not> (j + 1 \<in> set js \<and> carries c (j + 1))"
      using carries_control [of c "j + 1"] o [of "j + 1"] control_cases [of c "j + 1"] jump_not_test [OF j(3)] by auto
  qed
  have j1: "?d ! nat (j - 1) = ?c' ! nat (j - 1)" if cj: "carries c j"
  proof (rule keep)
    show "0 \<le> j - 1" using carries_control [OF j(3) cj] by simp
    show "j - 1 \<notin> set js"
      using carries_control [OF j(3) cj] o [of "j - 1"] control_cases [of c j] jump_not_test [of c "j - 1"] by auto
    show "\<not> (j - 1 + 1 \<in> set js \<and> carries c (j - 1 + 1))" using nj by simp
  qed
  have dj: "jump_dest ?d j = (if carries c j then vt else dt)"
    using jj nth [of j vt reg dt] j(1) Cons.prems(2)
      SETARG_sBx_same [of "(if carries c j then vt else dt) - (j + 1)" "c ! nat j"]
    by (simp add: jump_dest_def reaches_def abs_le_iff)
  have "\<forall>k \<in> set js. carries c k \<longrightarrow> ?d ! nat (k - 1) = patched_test reg (c ! nat (k - 1))"
  proof (intro ballI impI)
    fix k assume k: "k \<in> set js" "carries c k"
    then have "?d ! nat (k - 1) = patched_test reg (?c' ! nat (k - 1))"
      using ih ca by (auto simp: patched_def)
    also have "?c' ! nat (k - 1) = c ! nat (k - 1)"
      using patch1_other(2) [OF j(1-3) assms(2)] o [OF k(1)] carries_control [of c k] k(2) by metis
    finally show "?d ! nat (k - 1) = patched_test reg (c ! nat (k - 1))" .
  qed
  moreover have "\<forall>k \<in> set js. jump_dest ?d k = (if carries c k then vt else dt)"
    using ih ca by (auto simp: patched_def)
  moreover have "?d ! nat p = c ! nat p"
    if "0 \<le> p" "p \<notin> set (j # js)" "\<not> (p + 1 \<in> set (j # js) \<and> carries c (p + 1))" for p
    using keep [of p] nth [of p vt reg dt] that by auto
  moreover have "length ?d = length c"
    using ih by (simp add: patched_def)
  ultimately show ?case
    using dj j1 nth [of "j - 1" vt reg dt] carries_control [OF j(3)] unfolding patched_def
    by (auto simp del: opnum.simps)
qed


lemma patchlistaux_result:
  assumes "jlist (fs_code fs) l js" "0 \<le> reg"
  shows "patchlistaux G l vt reg dt fs =
     (if \<forall>j \<in> set js. reaches vt dt (fs_code fs) j
      then Ret () (fs\<lparr>fs_code := foldl (\<lambda>c j. patch1 vt reg dt j c) (fs_code fs) js\<rparr>)
      else syntaxerror G fs ''control structure too long'')"
  using patchlist_loop_eq [OF assms(1) jlist_length [OF assms(1)] assms(2)] by (simp add: patchlistaux_def)

section \<open>Emitting an instruction\<close>

text \<open>The vectors of the code and of the line numbers are in step, within their allocated sizes.\<close>

definition code_ok :: "FuncState \<Rightarrow> bool" where
  "code_ok fs \<longleftrightarrow> length (fs_lineinfo fs) = length (fs_code fs) \<and>
     fs_pc fs \<le> fs_sizecode fs \<and> fs_sizecode fs \<le> MAX_INT \<and>
     fs_pc fs \<le> fs_sizelineinfo fs \<and> fs_sizelineinfo fs \<le> MAX_INT"

text \<open>The errors that emitting an instruction can raise.\<close>

definition code_error :: "genlib \<Rightarrow> FuncState \<Rightarrow> lua_error \<Rightarrow> bool" where
  "code_error G fs e \<longleftrightarrow> e = LuaError ERRRUN ''code size overflow'' \<or>
     e = LuaError ERRMEM ''not enough memory'' \<or>
     syntaxerror G fs ''control structure too long'' = (Err e :: unit outcome)"

lemma grow_code:
  assumes "0 \<le> n" "n \<le> sz" "sz \<le> MAX_INT"
  shows "case luaM_growvector fr g n sz 4 MAX_INT ''code size overflow'' of
      Inr (g', sz') \<Rightarrow> n < sz' \<and> sz' \<le> MAX_INT
    | Inl e \<Rightarrow> e = LuaError ERRRUN ''code size overflow'' \<or> e = LuaError ERRMEM ''not enough memory''"
  using growvector_done [where nelems = n and sz = sz and limit = MAX_INT and e = 4 and frealloc = fr and g = g
      and msg = "''code size overflow''"] assms
  by (auto split: sum.splits)

definition emitted :: "Instruction \<Rightarrow> int \<Rightarrow> Instruction list \<Rightarrow> FuncState \<Rightarrow> FuncState \<Rightarrow> bool" where
  "emitted i line c fs fs' \<longleftrightarrow> (\<exists>g sc sl. fs' = fs\<lparr>fs_mem := g, fs_sizecode := sc, fs_sizelineinfo := sl,
     fs_code := c @ [i], fs_lineinfo := fs_lineinfo fs @ [line], fs_jpc := NO_JUMP\<rparr>)"

lemma luaK_code_result:
  assumes ok: "code_ok fs" and l: "jlist (fs_code fs) (fs_jpc fs) js"
  shows "case luaK_code G i line fs of
      Ret pc fs' \<Rightarrow> pc = fs_pc fs \<and> code_ok fs' \<and>
        (\<exists>c. emitted i line c fs fs' \<and> patched pc NO_REG pc js (fs_code fs) c)
    | Err e \<Rightarrow> code_error G fs e
    | Loop \<Rightarrow> False"
proof (cases "\<forall>j \<in> set js. reaches (fs_pc fs) (fs_pc fs) (fs_code fs) j")
  case False
  then have "patchlistaux G (fs_jpc fs) (fs_pc fs) NO_REG (fs_pc fs) fs = syntaxerror G fs ''control structure too long''"
    by (simp only: patchlistaux_result [OF l NO_REG_pos] if_False)
  then have "luaK_code G i line fs = syntaxerror G fs ''control structure too long''"
    by (simp add: luaK_code_def dischargejpc_def)
  then show ?thesis
    using syntaxerror_Err [of G fs "''control structure too long''"]
    by (cases "luaX_syntaxerror (g_lex G) (fs_ls fs) ''control structure too long'' :: unit result")
      (auto simp: code_error_def syntaxerror_def lift_result_def)
next
  case True
  let ?c = "foldl (\<lambda>c j. patch1 (fs_pc fs) NO_REG (fs_pc fs) j c) (fs_code fs) js"
  let ?fs = "fs\<lparr>fs_code := ?c, fs_jpc := NO_JUMP\<rparr>"
  have p: "patched (fs_pc fs) NO_REG (fs_pc fs) js (fs_code fs) ?c"
    by (rule foldl_patched [OF l _ True]) simp
  then have len: "length ?c = length (fs_code fs)"
    by (simp add: patched_def)
  have pc: "fs_pc ?fs = fs_pc fs"
    using len by (simp add: fs_pc_def)
  have d: "dischargejpc G fs = Ret () ?fs"
    using patchlistaux_result [OF l, of NO_REG G "fs_pc fs" "fs_pc fs"] True by (simp add: dischargejpc_def)
  have n: "0 \<le> fs_pc fs" "fs_pc fs \<le> fs_sizecode fs" "fs_sizecode fs \<le> MAX_INT"
    "fs_pc fs \<le> fs_sizelineinfo fs" "fs_sizelineinfo fs \<le> MAX_INT" "length (fs_lineinfo fs) = length (fs_code fs)"
    using ok by (simp_all add: code_ok_def fs_pc_def)
  have g1: "case luaM_growvector (g_realloc G) (fs_mem fs) (fs_pc fs) (fs_sizecode fs) 4 MAX_INT ''code size overflow'' of
      Inr (g', sz') \<Rightarrow> fs_pc fs < sz' \<and> sz' \<le> MAX_INT
    | Inl e \<Rightarrow> e = LuaError ERRRUN ''code size overflow'' \<or> e = LuaError ERRMEM ''not enough memory''"
    by (rule grow_code [OF n(1-3)])
  have g2: "case luaM_growvector (g_realloc G) g (fs_pc fs) (fs_sizelineinfo fs) 4 MAX_INT ''code size overflow'' of
      Inr (g', sz') \<Rightarrow> fs_pc fs < sz' \<and> sz' \<le> MAX_INT
    | Inl e \<Rightarrow> e = LuaError ERRRUN ''code size overflow'' \<or> e = LuaError ERRMEM ''not enough memory''" for g
    by (rule grow_code [OF n(1,4,5)])
  show ?thesis
  proof (cases "luaM_growvector (g_realloc G) (fs_mem fs) (fs_pc fs) (fs_sizecode fs) 4 MAX_INT ''code size overflow''")
    case (Inl e)
    then show ?thesis using g1 d pc by (auto simp: luaK_code_def lift_result_def code_error_def Let_def)
  next
    case (Inr r)
    then obtain g sc where r: "luaM_growvector (g_realloc G) (fs_mem fs) (fs_pc fs) (fs_sizecode fs) 4 MAX_INT
        ''code size overflow'' = Inr (g, sc)" "fs_pc fs < sc" "sc \<le> MAX_INT"
      using g1 by (cases r) auto
    show ?thesis
    proof (cases "luaM_growvector (g_realloc G) g (fs_pc fs) (fs_sizelineinfo fs) 4 MAX_INT ''code size overflow''")
      case (Inl e)
      then show ?thesis using g2 [of g] d pc r by (auto simp: luaK_code_def lift_result_def code_error_def Let_def)
    next
      case (Inr r')
      then obtain g' sl where r': "luaM_growvector (g_realloc G) g (fs_pc fs) (fs_sizelineinfo fs) 4 MAX_INT
          ''code size overflow'' = Inr (g', sl)" "fs_pc fs < sl" "sl \<le> MAX_INT"
        using g2 [of g] by (cases r') auto
      let ?fs' = "fs\<lparr>fs_mem := g', fs_sizecode := sc, fs_sizelineinfo := sl,
        fs_code := ?c @ [i], fs_lineinfo := fs_lineinfo fs @ [line], fs_jpc := NO_JUMP\<rparr>"
      have e: "luaK_code G i line fs = Ret (fs_pc fs) ?fs'"
        using d pc r(1) r'(1) by (simp add: luaK_code_def lift_result_def Let_def)
      have "emitted i line ?c fs ?fs'"
        unfolding emitted_def by blast
      moreover have "code_ok ?fs'"
        using n(6) r r' len by (simp add: code_ok_def fs_pc_def)
      ultimately show ?thesis
        unfolding e using p by auto
    qed
  qed
qed

section \<open>Properties\<close>

text \<open>
  C36: joining two jump lists that share no jump links the last jump of the first to the second: the
  result is the two lists one after the other, and only that one offset changes. When both lists
  have jumps and the distance does not fit an offset, the compiler stops with its error; it never
  runs in a circle.
\<close>

theorem concat_joins:
  assumes "jlist (fs_code fs) l1 xs" "jlist (fs_code fs) l2 ys" "set xs \<inter> set ys = {}"
  shows "case luaK_concat G l1 l2 fs of
      Ret l fs' \<Rightarrow> jlist (fs_code fs') l (xs @ ys) \<and> (\<exists>c. fs' = fs\<lparr>fs_code := c\<rparr> \<and> length c = length (fs_code fs) \<and>
        (\<forall>p. p \<notin> nat ` set xs \<longrightarrow> c ! p = fs_code fs ! p))
    | Err e \<Rightarrow> xs \<noteq> [] \<and> ys \<noteq> [] \<and> MAXARG_sBx < \<bar>hd ys - (last xs + 1)\<bar> \<and>
        syntaxerror G fs ''control structure too long'' = (Err e :: unit outcome)
    | Loop \<Rightarrow> False"
proof (cases "xs = [] \<or> ys = []")
  case True
  then have "luaK_concat G l1 l2 fs = Ret (if ys = [] then l1 else l2) fs"
    using concat_result [OF assms, of G] by auto
  moreover have "fs = fs\<lparr>fs_code := fs_code fs\<rparr>" by simp
  ultimately show ?thesis
    using True assms(1,2) by (auto intro!: exI [of _ "fs_code fs"])
next
  case False
  then obtain y zs where ys: "ys = y # zs" by (cases ys) auto
  obtain ws x where xs: "xs = ws @ [x]" using False by (cases xs rule: rev_cases) auto
  show ?thesis
  proof (cases "MAXARG_sBx < \<bar>y - (x + 1)\<bar>")
    case True
    then show ?thesis
      using concat_result [OF assms, of G] xs ys
      by (cases "luaX_syntaxerror (g_lex G) (fs_ls fs) ''control structure too long'' :: unit result")
        (auto simp: syntaxerror_def lift_result_def)
  next
    case False
    let ?c = "(fs_code fs)[nat x := SETARG_sBx (fs_code fs ! nat x) (y - (x + 1))]"
    have m: "l2 = y" using assms(2) ys by simp
    have "jlist ?c l1 (ws @ [x] @ y # zs)"
      using jlist_link [of "fs_code fs" l1 ws x l2 y zs] assms False xs ys m by auto
    then show ?thesis
      using concat_result [OF assms, of G] xs ys False
      by (auto intro!: exI [of _ ?c])
  qed
qed

text \<open>
  C35: sending a jump list to its targets always ends and reaches every jump of it: a jump that carries
  a value (its control instruction is a \<open>TESTSET\<close>) goes to the value target and its control
  instruction stores into the given register or becomes a plain test; any other jump goes to the
  default target; no other instruction changes. The only error is a target too far away.
\<close>

theorem patchlist_targets:
  assumes "jlist (fs_code fs) l js" "0 \<le> reg"
  shows "case patchlistaux G l vtarget reg dtarget fs of
      Ret _ fs' \<Rightarrow> \<exists>c. fs' = fs\<lparr>fs_code := c\<rparr> \<and> length c = length (fs_code fs) \<and>
        (\<forall>j \<in> set js. jump_dest c j = (if carries (fs_code fs) j then vtarget else dtarget)) \<and>
        (\<forall>j \<in> set js. carries (fs_code fs) j \<longrightarrow> c ! nat (j - 1) = patched_test reg (fs_code fs ! nat (j - 1))) \<and>
        (\<forall>p \<ge> 0. p \<notin> set js \<longrightarrow> \<not> (p + 1 \<in> set js \<and> carries (fs_code fs) (p + 1)) \<longrightarrow>
           c ! nat p = fs_code fs ! nat p)
    | Err e \<Rightarrow> (\<exists>j \<in> set js. MAXARG_sBx < \<bar>(if carries (fs_code fs) j then vtarget else dtarget) - (j + 1)\<bar>) \<and>
        syntaxerror G fs ''control structure too long'' = (Err e :: unit outcome)
    | Loop \<Rightarrow> False"
proof (cases "\<forall>j \<in> set js. reaches vtarget dtarget (fs_code fs) j")
  case True
  then show ?thesis
    using foldl_patched [OF assms True] patchlistaux_result [OF assms, of G vtarget dtarget]
    by (auto simp: patched_def)
next
  case False
  then have "patchlistaux G l vtarget reg dtarget fs = syntaxerror G fs ''control structure too long''"
    by (simp only: patchlistaux_result [OF assms] if_False)
  then show ?thesis
    using False
    by (cases "luaX_syntaxerror (g_lex G) (fs_ls fs) ''control structure too long'' :: unit result")
      (auto simp: syntaxerror_def lift_result_def reaches_def not_le)
qed

text \<open>
  C37: emitting an instruction puts it at the end of the code with its line number, and the jumps
  that were waiting for the next instruction now go to it; the pending list is empty afterwards. The
  vectors stay within their sizes, and the only errors are those of the memory manager and of a
  jump too far.
\<close>

theorem code_resolves_pending:
  assumes "code_ok fs" "jlist (fs_code fs) (fs_jpc fs) js"
  shows "case luaK_code G i line fs of
      Ret pc fs' \<Rightarrow> pc = fs_pc fs \<and> code_ok fs' \<and> fs_jpc fs' = NO_JUMP \<and> fs_pc fs' = pc + 1 \<and>
        fs_code fs' ! nat pc = i \<and> fs_lineinfo fs' ! nat pc = line \<and>
        (\<forall>j \<in> set js. jump_dest (fs_code fs') j = pc)
    | Err e \<Rightarrow> code_error G fs e
    | Loop \<Rightarrow> False"
proof -
  have "j \<in> set js \<Longrightarrow> nat j < length (fs_code fs)" for j
    using jlist_range [OF assms(2), of j] by auto
  moreover have "nat (fs_pc fs) = length (fs_code fs)"
    by (simp add: fs_pc_def)
  ultimately show ?thesis
    using luaK_code_result [OF assms, where G = G and i = i and line = line] assms(1)
    by (auto simp: emitted_def patched_def jump_dest_def nth_append code_ok_def fs_pc_def split: outcome.splits)
qed

section \<open>Witnesses\<close>

definition sample_gen :: genlib where
  "sample_gen = \<lparr>g_lex = \<lparr>c_room = (\<lambda>n. True), c_strtod = (\<lambda>s. (0, 0)), c_strtoul16 = (\<lambda>s. (0, 0)), c_decimal_point = None\<rparr>,
     g_realloc = granting, g_hash = (\<lambda>a. ucast a), g_add = (\<lambda>a b. a), g_sub = (\<lambda>a b. a), g_mul = (\<lambda>a b. a),
     g_div = (\<lambda>a b. a), g_floor = id, g_pow = (\<lambda>a b. a)\<rparr>"

definition sample_ls :: LexState where
  "sample_ls = \<lparr>current = None, linenumber = 1, lastline = 1, tok = \<lparr>token = 0, seminfo = None\<rparr>,
     lookahead = \<lparr>token = 0, seminfo = None\<rparr>, zio = luaZ_init [], buff = [], buffsize = 0, lsource = [],
     decpoint = CHR ''.'', anchored = []\<rparr>"

text \<open>A function that has just been opened, with one local variable.\<close>

definition open_fs :: FuncState where
  "open_fs = \<lparr>fs_code = [], fs_lineinfo = [], fs_sizecode = 0, fs_sizelineinfo = 0, fs_k = [], fs_nk = 0,
     fs_maxstacksize = 2, fs_h = new_table, fs_haddr = 0, fs_lasttarget = -1, fs_jpc = NO_JUMP,
     fs_freereg = 1, fs_nactvar = 1, fs_ls = sample_ls, fs_mem = \<lparr>totalbytes = 0\<rparr>\<rparr>"

text \<open>
  The code of \<open>x and (a == b)\<close> up to its two open jumps: the list that starts at the second one holds
  a jump that carries a value and one that does not.
\<close>

definition two_jumps :: "Instruction list" where
  "two_jumps = [CREATE_ABC OP_TESTSET NO_REG 1 0, CREATE_ABx OP_JMP 0 (MAXARG_sBx - 1),
     CREATE_ABC OP_EQ 1 0 1, CREATE_ABx OP_JMP 0 (MAXARG_sBx - 3)]"

definition jumps_fs :: FuncState where
  "jumps_fs = open_fs\<lparr>fs_code := two_jumps, fs_lineinfo := [1, 1, 1, 1], fs_sizecode := 4, fs_sizelineinfo := 4, fs_jpc := 3\<rparr>"

lemma two_jumps_list: "jlist two_jumps 3 [3, 1]" "carries two_jumps 1" "\<not> carries two_jumps 3"
  by code_simp+

lemma jumps_fs_facts: "fs_code jumps_fs = two_jumps" "code_ok jumps_fs" "fs_jpc jumps_fs = 3"
  by (simp_all add: jumps_fs_def code_ok_def fs_pc_def two_jumps_def)

lemma patchlist_targets_witness:
  "case patchlistaux sample_gen 3 9 0 7 jumps_fs of
      Ret _ fs' \<Rightarrow> jump_dest (fs_code fs') 1 = 9 \<and> jump_dest (fs_code fs') 3 = 7
    | _ \<Rightarrow> False"
  using patchlist_targets [where fs = jumps_fs and l = 3 and js = "[3, 1]" and reg = 0 and G = sample_gen
      and vtarget = 9 and dtarget = 7] two_jumps_list jumps_fs_facts(1)
  by (auto split: outcome.splits)

lemma code_resolves_pending_witness:
  "case luaK_code sample_gen (CREATE_ABC OP_RETURN 0 1 0) 2 jumps_fs of
      Ret pc fs' \<Rightarrow> pc = 4 \<and> jump_dest (fs_code fs') 1 = 4 \<and> jump_dest (fs_code fs') 3 = 4
    | Err e \<Rightarrow> code_error sample_gen jumps_fs e
    | Loop \<Rightarrow> False"
  using code_resolves_pending [where fs = jumps_fs and js = "[3, 1]" and G = sample_gen
      and i = "CREATE_ABC OP_RETURN 0 1 0" and line = 2] two_jumps_list jumps_fs_facts
  by (auto simp: fs_pc_def two_jumps_def split: outcome.splits)

text \<open>The same code with the two lists not yet joined.\<close>

definition apart_fs :: FuncState where
  "apart_fs = open_fs\<lparr>fs_code := two_jumps[3 := CREATE_ABx OP_JMP 0 (MAXARG_sBx - 1)]\<rparr>"

lemma apart_lists: "jlist (fs_code apart_fs) 3 [3]" "jlist (fs_code apart_fs) 1 [1]"
proof -
  have "jlist (two_jumps[3 := CREATE_ABx OP_JMP 0 (MAXARG_sBx - 1)]) 3 [3]"
    "jlist (two_jumps[3 := CREATE_ABx OP_JMP 0 (MAXARG_sBx - 1)]) 1 [1]"
    by code_simp+
  then show "jlist (fs_code apart_fs) 3 [3]" "jlist (fs_code apart_fs) 1 [1]"
    by (simp_all add: apart_fs_def)
qed

lemma concat_joins_witness:
  "case luaK_concat sample_gen 3 1 apart_fs of Ret l fs' \<Rightarrow> jlist (fs_code fs') l [3, 1] | _ \<Rightarrow> False"
  using concat_joins [OF apart_lists, of sample_gen] by (auto split: outcome.splits)

end
