(* ===== verification/Lua_Code_Consts.thy ===== *)
theory Lua_Code_Consts
  imports Lua_Code_Jumps
begin

text \<open>
  The constants of a function (\<open>addk\<close> of \<^verbatim>\<open>src/src/lcode.c\<close>): the table from constants to their
  indices and the vector \<open>f->k\<close> agree, a constant is entered once, and the entries made before stay
  where they are.
\<close>

section \<open>The invariant\<close>

text \<open>
  The constant that stands for a key: the table itself is the key of nil. A string that is anchored and is
  no constant has the value true.
\<close>

definition const_for :: "addr \<Rightarrow> tvalue \<Rightarrow> tvalue \<Rightarrow> bool" where
  "const_for a k v \<longleftrightarrow> (if k = Tab a then v = Nil else luaO_rawequalObj k v)"

definition consts_ok :: "(addr \<Rightarrow> u32) \<Rightarrow> FuncState \<Rightarrow> bool" where
  "consts_ok hs fs \<longleftrightarrow> table_ok hs (fs_h fs) \<and> entries (fs_h fs) \<le> fs_nk fs + 2 ^ 25 \<and>
     fs_nk fs \<le> length (fs_k fs) \<and> int (length (fs_k fs)) \<le> MAXARG_Bx \<and>
     (\<forall>k. live k \<longrightarrow> tlook (fs_h fs) k = Nil \<or> tlook (fs_h fs) k = Boolean True \<and> (\<exists>s. k = Str s) \<or>
        (\<exists>i < fs_nk fs. tlook (fs_h fs) k = Number (cast_num (int i)) \<and> const_for (fs_haddr fs) k (fs_k fs ! i)))"

lemma const_for_rawequal:
  "luaO_rawequalObj k k' \<Longrightarrow> const_for a k v \<Longrightarrow> const_for a k' v"
  by (cases k; cases k') (auto simp: const_for_def luaO_rawequalObj_def luai_numeq_def split: if_splits tvalue.splits)

lemma write_back: "write_slot t s (read_slot t s) = t"
  by (cases s) simp_all

lemma set_done_returns: "set_done hs t k v r \<Longrightarrow> \<exists>t' s. r = Some (t', Inr s)"
proof -
  assume d: "set_done hs t k v r"
  then obtain t' x where r: "r = Some (t', x)"
    by (cases r) (auto simp: set_done_def)
  with d show ?thesis
    by (cases x) (auto simp: set_done_def)
qed

text \<open>What a table operation leaves before and after the store to the slot it returns.\<close>

lemma set_done_kept:
  assumes "table_ok hs t" "storable k" "set_done hs t k (tlook t k) r"
  shows "\<exists>t' s. r = Some (t', Inr s) \<and> read_slot t' s = tlook t k \<and> table_ok hs t' \<and>
    (\<forall>k'. live k' \<longrightarrow> tlook t' k' = tlook t k') \<and> entries t' = entries t"
proof -
  let ?v = "tlook t k"
  obtain t' s where r: "r = Some (t', Inr s)"
    using set_done_returns [OF assms(3)] by blast
  then have t': "table_ok hs t'" "read_slot t' s = ?v"
    "\<forall>k'. live k' \<longrightarrow> tlook (write_slot t' s ?v) k' = (if luaO_rawequalObj k k' then ?v else tlook t k')"
    using assms(3) by (simp_all add: set_done_def)
  have "write_slot t' s ?v = t'"
    using write_back [of t' s] t'(2) by simp
  then have same: "\<forall>k'. live k' \<longrightarrow> tlook t' k' = tlook t k'"
    using t'(3) tlook_rawequal by auto
  then have "table_map t' = table_map t"
    using storable_live by (auto simp: table_map_def fun_eq_iff)
  then have "entries t' = entries t"
    using entries_card [OF assms(1)] entries_card [OF t'(1)] by simp
  then show ?thesis
    using r t' same by auto
qed

lemma set_done_stored:
  assumes "table_ok hs t" "storable k" "v \<noteq> Nil" "set_done hs t k v r"
  shows "\<exists>t' s. r = Some (t', Inr s) \<and> read_slot t' s = tlook t k \<and>
    table_ok hs (write_slot t' s v) \<and> entries (write_slot t' s v) \<le> Suc (entries t) \<and>
    (\<forall>k'. live k' \<longrightarrow> tlook (write_slot t' s v) k' = (if luaO_rawequalObj k k' then v else tlook t k'))"
proof -
  obtain t' s where r: "r = Some (t', Inr s)"
    using set_done_returns [OF assms(4)] by blast
  let ?t = "write_slot t' s v"
  have t': "table_ok hs ?t" "read_slot t' s = tlook t k"
    "\<forall>k'. live k' \<longrightarrow> tlook ?t k' = (if luaO_rawequalObj k k' then v else tlook t k')"
    using assms(4) r by (simp_all add: set_done_def)
  have "table_map ?t = (table_map t)(canon k := Some v)"
    using table_map_update [OF assms(2) t'(3)] assms(3) by simp
  from entries_update [OF assms(1) t'(1) this] have "entries ?t \<le> Suc (entries t)"
    by (simp split: if_splits)
  then show ?thesis
    using r t' by auto
qed

lemma luaH_set_found:
  assumes "table_ok hs t" "storable k" "\<forall>a b. fr a b" "entries t < 2 ^ 26"
  shows "\<exists>t' s. luaH_set hs fr 1 t k = Some (t', Inr s) \<and> read_slot t' s = tlook t k \<and> table_ok hs t' \<and>
    (\<forall>k'. live k' \<longrightarrow> tlook t' k' = tlook t k') \<and> entries t' = entries t"
  using set_done_kept [OF assms(1,2) luaH_set_done [OF assms(1-4), of _ 0]] by simp

lemma luaH_set_fresh:
  assumes "table_ok hs t" "storable k" "\<forall>a b. fr a b" "entries t < 2 ^ 26" "v \<noteq> Nil"
  shows "\<exists>t' s. luaH_set hs fr 1 t k = Some (t', Inr s) \<and> read_slot t' s = tlook t k \<and>
    table_ok hs (write_slot t' s v) \<and> entries (write_slot t' s v) \<le> Suc (entries t) \<and>
    (\<forall>k'. live k' \<longrightarrow> tlook (write_slot t' s v) k' = (if luaO_rawequalObj k k' then v else tlook t k'))"
  using set_done_stored [OF assms(1,2,5) luaH_set_done [OF assms(1-4), of _ 0]] by simp

section \<open>Entering a constant\<close>

text \<open>What \<open>addk\<close> leaves when it returns \<open>i\<close>.\<close>

definition interned :: "(addr \<Rightarrow> u32) \<Rightarrow> tvalue \<Rightarrow> int \<Rightarrow> FuncState \<Rightarrow> FuncState \<Rightarrow> bool" where
  "interned hs k i fs fs' \<longleftrightarrow> consts_ok hs fs' \<and> 0 \<le> i \<and> i < int (fs_nk fs') \<and>
     tlook (fs_h fs') k = Number (cast_num i) \<and> const_for (fs_haddr fs) k (fs_k fs' ! nat i) \<and>
     fs_nk fs \<le> fs_nk fs' \<and> (\<forall>j < fs_nk fs. fs_k fs' ! j = fs_k fs ! j) \<and>
     (\<exists>t g ks n. fs' = fs\<lparr>fs_h := t, fs_mem := g, fs_k := ks, fs_nk := n\<rparr>)"

lemma nk_bound: "consts_ok hs fs \<Longrightarrow> int (fs_nk fs) \<le> MAXARG_Bx"
  by (simp add: consts_ok_def)

lemma index_back: "0 \<le> i \<Longrightarrow> i \<le> MAXARG_Bx \<Longrightarrow> lua_number2int (cast_num i) = i"
  by (rule lua_number2int_cast_num) (auto simp: INT_MIN_def)

lemma index_inj:
  "cast_num i = cast_num j \<Longrightarrow> 0 \<le> i \<Longrightarrow> i \<le> MAXARG_Bx \<Longrightarrow> 0 \<le> j \<Longrightarrow> j \<le> MAXARG_Bx \<Longrightarrow> i = j"
  by (metis index_back)

lemma addk_found:
  assumes ok: "consts_ok (g_hash G) fs" and k: "storable k" and fr: "\<forall>a b. g_realloc G a b"
    and look: "tlook (fs_h fs) k = Number x"
  shows "\<exists>i fs'. addk G k v fs = Ret i fs' \<and> interned (g_hash G) k i fs fs' \<and> fs_nk fs' = fs_nk fs \<and>
    fs_k fs' = fs_k fs \<and> tlook (fs_h fs) k = Number (cast_num i)"
proof -
  have t: "table_ok (g_hash G) (fs_h fs)" "entries (fs_h fs) < 2 ^ 26"
    using ok by (auto simp: consts_ok_def)
  obtain t' s where r: "luaH_set (g_hash G) (g_realloc G) 1 (fs_h fs) k = Some (t', Inr s)"
    "read_slot t' s = tlook (fs_h fs) k" "table_ok (g_hash G) t'" "\<forall>k'. live k' \<longrightarrow> tlook t' k' = tlook (fs_h fs) k'"
    "entries t' = entries (fs_h fs)"
    using luaH_set_found [OF t(1) k fr t(2)] by blast
  obtain i where i: "i < fs_nk fs" "tlook (fs_h fs) k = Number (cast_num (int i))"
    "const_for (fs_haddr fs) k (fs_k fs ! i)"
    using ok look storable_live [OF k] by (auto simp: consts_ok_def)
  have "int i \<le> MAXARG_Bx" using i(1) nk_bound [OF ok] by simp
  then have ad: "addk G k v fs = Ret (int i) (fs\<lparr>fs_h := t'\<rparr>)"
    using r(1,2) i(2) index_back [of "int i"] by (simp add: addk_def)
  have "consts_ok (g_hash G) (fs\<lparr>fs_h := t'\<rparr>)"
    using ok r(3-5) by (auto simp: consts_ok_def)
  moreover have "\<exists>t g ks n. fs\<lparr>fs_h := t'\<rparr> = fs\<lparr>fs_h := t, fs_mem := g, fs_k := ks, fs_nk := n\<rparr>"
    by (intro exI [of _ t'] exI [of _ "fs_mem fs"] exI [of _ "fs_k fs"] exI [of _ "fs_nk fs"]) simp
  ultimately have "interned (g_hash G) k (int i) fs (fs\<lparr>fs_h := t'\<rparr>)"
    using i r(4) storable_live [OF k] by (simp add: interned_def)
  then show ?thesis using ad i by auto
qed

lemma grow_consts:
  assumes "n \<le> sz" "sz \<le> MAXARG_Bx" "0 \<le> n"
  shows "case luaM_growvector fr g n sz 16 MAXARG_Bx ''constant table overflow'' of
      Inr (g', sz') \<Rightarrow> n < sz' \<and> sz \<le> sz' \<and> sz' \<le> MAXARG_Bx
    | Inl e \<Rightarrow> n = sz \<and> (e = LuaError ERRRUN ''constant table overflow'' \<and> sz = MAXARG_Bx \<or>
        e = LuaError ERRMEM ''not enough memory'')"
  using growvector_done [where nelems = n and sz = sz and limit = MAXARG_Bx and e = 16 and frealloc = fr and g = g
      and msg = "''constant table overflow''"] assms
  by (auto split: sum.splits)

lemma consts_ok_new:
  assumes ok: "consts_ok hs fs" and v: "const_for (fs_haddr fs) k v"
    and t: "table_ok hs t" "entries t \<le> Suc (entries (fs_h fs))"
      "\<forall>k'. live k' \<longrightarrow> tlook t k' = (if luaO_rawequalObj k k' then Number (cast_num (int (fs_nk fs))) else tlook (fs_h fs) k')"
    and ks: "int (length ks) \<le> MAXARG_Bx" "fs_nk fs < length ks" "ks ! fs_nk fs = v"
      "\<forall>j < fs_nk fs. ks ! j = fs_k fs ! j"
  shows "consts_ok hs (fs\<lparr>fs_h := t, fs_mem := g, fs_k := ks, fs_nk := Suc (fs_nk fs)\<rparr>)"
proof -
  have "tlook t k' = Nil \<or> tlook t k' = Boolean True \<and> (\<exists>s. k' = Str s) \<or> (\<exists>i < Suc (fs_nk fs). tlook t k' = Number (cast_num (int i)) \<and> const_for (fs_haddr fs) k' (ks ! i))"
    if k': "live k'" for k'
  proof (cases "luaO_rawequalObj k k'")
    case True
    then show ?thesis
      using t(3) k' const_for_rawequal [OF True v] ks(3) by auto
  next
    case False
    then have "tlook t k' = tlook (fs_h fs) k'" using t(3) k' by simp
    moreover have "tlook (fs_h fs) k' = Nil \<or> tlook (fs_h fs) k' = Boolean True \<and> (\<exists>s. k' = Str s) \<or> (\<exists>i < fs_nk fs. tlook (fs_h fs) k' = Number (cast_num (int i)) \<and>
        const_for (fs_haddr fs) k' (fs_k fs ! i))"
      using ok k' by (simp add: consts_ok_def)
    ultimately show ?thesis using ks(4) less_Suc_eq by metis
  qed
  then show ?thesis
    using ok t(1,2) ks by (simp add: consts_ok_def)
qed

lemma addk_fresh:
  assumes ok: "consts_ok (g_hash G) fs" and k: "storable k" and fr: "\<forall>a b. g_realloc G a b"
    and v: "const_for (fs_haddr fs) k v" and look: "\<And>x. tlook (fs_h fs) k \<noteq> Number x"
  shows "case addk G k v fs of
      Ret i fs' \<Rightarrow> interned (g_hash G) k i fs fs' \<and> i = int (fs_nk fs) \<and> fs_nk fs' = Suc (fs_nk fs) \<and> fs_k fs' ! fs_nk fs = v
    | Err e \<Rightarrow> e = LuaError ERRRUN ''constant table overflow'' \<and> int (fs_nk fs) = MAXARG_Bx \<or>
        e = LuaError ERRMEM ''not enough memory''
    | Loop \<Rightarrow> False"
proof -
  let ?n = "fs_nk fs" and ?sz = "length (fs_k fs)"
  let ?v = "Number (cast_num (int ?n))"
  have o: "table_ok (g_hash G) (fs_h fs)" "entries (fs_h fs) < 2 ^ 26" "int ?n \<le> int ?sz" "int ?sz \<le> MAXARG_Bx"
    using ok by (auto simp: consts_ok_def)
  obtain t' s where r: "luaH_set (g_hash G) (g_realloc G) 1 (fs_h fs) k = Some (t', Inr s)"
    "read_slot t' s = tlook (fs_h fs) k" "table_ok (g_hash G) (write_slot t' s ?v)"
    "entries (write_slot t' s ?v) \<le> Suc (entries (fs_h fs))"
    "\<forall>k'. live k' \<longrightarrow> tlook (write_slot t' s ?v) k' = (if luaO_rawequalObj k k' then ?v else tlook (fs_h fs) k')"
    using luaH_set_fresh [OF o(1) k fr o(2), of ?v] by blast
  have slot: "(case read_slot t' s of Number n \<Rightarrow> x n | _ \<Rightarrow> y) = y" for x and y :: "int outcome"
    using look r(2) by (auto split: tvalue.split)
  note gr = grow_consts [OF o(3,4), of "g_realloc G" "fs_mem fs"]
  show ?thesis
  proof (cases "luaM_growvector (g_realloc G) (fs_mem fs) (int ?n) (int ?sz) 16 MAXARG_Bx ''constant table overflow''")
    case (Inl e)
    then show ?thesis using gr r(1) slot o(3) by (auto simp: addk_def lift_result_def Let_def)
  next
    case (Inr x)
    then obtain g sz where g: "luaM_growvector (g_realloc G) (fs_mem fs) (int ?n) (int ?sz) 16 MAXARG_Bx ''constant table overflow'' =
        Inr (g, sz)" "int ?n < sz" "int ?sz \<le> sz" "sz \<le> MAXARG_Bx"
      using gr by (cases x) auto
    let ?ks = "(fs_k fs @ replicate (nat sz - ?sz) Nil)[?n := v]"
    let ?fs = "fs\<lparr>fs_h := write_slot t' s ?v, fs_mem := g, fs_k := ?ks, fs_nk := Suc ?n\<rparr>"
    have e: "addk G k v fs = Ret (int ?n) ?fs"
      using g(1) r(1) slot by (simp add: addk_def lift_result_def Let_def)
    have ks: "int (length ?ks) \<le> MAXARG_Bx" "?n < length ?ks" "?ks ! ?n = v" "\<forall>j < ?n. ?ks ! j = fs_k fs ! j"
      using g o(3) by (auto simp: nth_append)
    have "consts_ok (g_hash G) ?fs"
      by (rule consts_ok_new [OF ok v r(3-5) ks])
    moreover have "tlook (write_slot t' s ?v) k = ?v"
      using r(5) k storable_live [OF k] by (auto simp: storable_def)
    moreover have "\<exists>t g ks n. ?fs = fs\<lparr>fs_h := t, fs_mem := g, fs_k := ks, fs_nk := n\<rparr>"
      by blast
    ultimately have "interned (g_hash G) k (int ?n) fs ?fs"
      using ks v by (simp add: interned_def)
    then show ?thesis
      unfolding e using ks by simp
  qed
qed

section \<open>Zeros\<close>

abbreviation (input) negzero :: lua_Number where "negzero \<equiv> push_bit 63 1"

lemma xor_sign:
  assumes "\<And>k. bit z k \<Longrightarrow> k = 63"
  shows "get_field 11 52 (n XOR z) = get_field 11 52 (n :: u64)" "get_field 52 0 (n XOR z) = get_field 52 0 (n :: u64)"
  by (rule bit_word_eqI, use assms in \<open>force simp: bit_get_field bit_simps\<close>)+

lemma unm_fields: "num_exp (luai_numunm n) = num_exp n" "num_mant (luai_numunm n) = num_mant n"
proof -
  have b: "k = 63" if "bit (push_bit 63 1 :: u64) k" for k
    using that by (subst (asm) bit_push_bit_iff) (auto simp: bit_1_iff)
  note x = xor_sign [where z = "push_bit 63 1" and n = n, OF b]
  show "num_exp (luai_numunm n) = num_exp n" "num_mant (luai_numunm n) = num_mant n"
    unfolding num_exp_def num_mant_def luai_numunm_def by (simp_all only: x)
qed

lemma unm_nan: "is_nan (luai_numunm n) = is_nan n"
  by (simp add: is_nan_def unm_fields)

lemma unm_zero: "luai_numunm 0 = negzero" "luai_numunm 0 \<noteq> 0" "luai_numeq 0 (luai_numunm 0)"
proof -
  show "luai_numunm 0 = negzero" by (simp add: luai_numunm_def)
  then show "luai_numunm 0 \<noteq> 0" by simp
  show "luai_numeq 0 (luai_numunm 0)"
    using num_mag_0 by (simp add: luai_numeq_iff unm_nan num_mag_fields unm_fields)
qed

text \<open>Without a negative zero, equal numbers are the same bits.\<close>

lemma numeq_same: "luai_numeq a b \<Longrightarrow> a \<noteq> negzero \<Longrightarrow> b \<noteq> negzero \<Longrightarrow> a = b"
proof (rule ccontr)
  assume e: "luai_numeq a b" and n: "a \<noteq> negzero" "b \<noteq> negzero" "a \<noteq> b"
  have m: "num_mag a = 0" "num_mag b = 0"
    using e n(3) by (auto simp: luai_numeq_iff)
  have z: "num_mag negzero = 0" "num_neg negzero"
    using unm_fields [of 0] num_mag_0 by (simp_all add: unm_zero num_mag_fields num_neg_def bit_simps)
  have "\<not> num_neg a" "\<not> num_neg b"
    using num_eq_fields [of a negzero] num_eq_fields [of b negzero] m z n by auto
  then show False
    using num_eq_fields [of a b] m n(3) by simp
qed

section \<open>Properties\<close>

text \<open>
  An anchored string keeps the value true until it becomes a constant; anchoring changes nothing that is
  in the table.
\<close>

lemma anchor_string_ok:
  assumes ok: "consts_ok (g_hash G) fs" and fr: "\<forall>a b. g_realloc G a b" and room: "entries (fs_h fs) < fs_nk fs + 2 ^ 25"
  shows "\<exists>t. anchor_string G ts fs = Ret () (fs\<lparr>fs_h := t\<rparr>) \<and> consts_ok (g_hash G) (fs\<lparr>fs_h := t\<rparr>) \<and>
    (\<forall>k. live k \<longrightarrow> tlook t k = (if k = Str ts \<and> tlook (fs_h fs) k = Nil then Boolean True else tlook (fs_h fs) k))"
proof -
  have o: "table_ok (g_hash G) (fs_h fs)" "entries (fs_h fs) < 2 ^ 26" "storable (Str ts)"
    using ok by (auto simp: consts_ok_def storable_iff)
  note d = luaH_setstr_done [OF o(1) fr o(2), of ts _ 0, folded One_nat_def]
  have eq: "luaO_rawequalObj (Str ts) k \<longleftrightarrow> k = Str ts" for k
    by (cases k) (auto simp: luaO_rawequalObj_def)
  show ?thesis
  proof (cases "tlook (fs_h fs) (Str ts) = Nil")
    case False
    obtain t' s where r: "luaH_setstr (g_hash G) (g_realloc G) 1 (fs_h fs) ts = Some (t', Inr s)"
      "read_slot t' s = tlook (fs_h fs) (Str ts)" "table_ok (g_hash G) t'"
      "\<forall>k'. live k' \<longrightarrow> tlook t' k' = tlook (fs_h fs) k'" "entries t' = entries (fs_h fs)"
      using set_done_kept [OF o(1,3) d] by blast
    have "consts_ok (g_hash G) (fs\<lparr>fs_h := t'\<rparr>)"
      using ok r(3-5) by (auto simp: consts_ok_def)
    then show ?thesis
      using r False by (intro exI [of _ t']) (auto simp: anchor_string_def)
  next
    case True
    obtain t' s where r: "luaH_setstr (g_hash G) (g_realloc G) 1 (fs_h fs) ts = Some (t', Inr s)"
      "read_slot t' s = tlook (fs_h fs) (Str ts)" "table_ok (g_hash G) (write_slot t' s (Boolean True))"
      "entries (write_slot t' s (Boolean True)) \<le> Suc (entries (fs_h fs))"
      "\<forall>k'. live k' \<longrightarrow> tlook (write_slot t' s (Boolean True)) k' =
        (if luaO_rawequalObj (Str ts) k' then Boolean True else tlook (fs_h fs) k')"
      using set_done_stored [OF o(1,3) _ d, of "Boolean True"] by blast
    have "consts_ok (g_hash G) (fs\<lparr>fs_h := write_slot t' s (Boolean True)\<rparr>)"
      using ok r(3-5) room by (auto simp: consts_ok_def eq)
    then show ?thesis
      using r True by (intro exI [of _ "write_slot t' s (Boolean True)"]) (auto simp: anchor_string_def eq)
  qed
qed

lemma addk_entered:
  assumes "consts_ok (g_hash G) fs" "storable k" "\<forall>a b. g_realloc G a b" "const_for (fs_haddr fs) k v"
  shows "case addk G k v fs of
      Ret i fs' \<Rightarrow> consts_ok (g_hash G) fs' \<and> 0 \<le> i \<and> i < int (fs_nk fs') \<and>
        const_for (fs_haddr fs) k (fs_k fs' ! nat i) \<and>
        fs_nk fs \<le> fs_nk fs' \<and> fs_nk fs' \<le> fs_nk fs + 1 \<and> (\<forall>j < fs_nk fs. fs_k fs' ! j = fs_k fs ! j) \<and>
        (\<exists>fs''. addk G k v fs' = Ret i fs'' \<and> fs_k fs'' = fs_k fs' \<and> fs_nk fs'' = fs_nk fs')
    | Err e \<Rightarrow> e = LuaError ERRRUN ''constant table overflow'' \<and> int (fs_nk fs) = MAXARG_Bx \<or>
        e = LuaError ERRMEM ''not enough memory''
    | Loop \<Rightarrow> False"
proof -
  have again: "\<exists>fs''. addk G k v fs' = Ret i fs'' \<and> fs_k fs'' = fs_k fs' \<and> fs_nk fs'' = fs_nk fs'"
    if "interned (g_hash G) k i fs fs'" for i fs'
  proof -
    have i: "consts_ok (g_hash G) fs'" "tlook (fs_h fs') k = Number (cast_num i)" "0 \<le> i" "i < int (fs_nk fs')"
      using that by (auto simp: interned_def)
    obtain i' fs'' where r: "addk G k v fs' = Ret i' fs''" "interned (g_hash G) k i' fs' fs''"
      "fs_nk fs'' = fs_nk fs'" "fs_k fs'' = fs_k fs'" "tlook (fs_h fs') k = Number (cast_num i')"
      using addk_found [OF i(1) assms(2,3), where v = v] i(2) by auto
    then have "0 \<le> i'" "i' < int (fs_nk fs')" "cast_num i = cast_num i'"
      using i(2) by (auto simp: interned_def)
    then have "i' = i"
      using index_inj [of i i'] nk_bound [OF i(1)] i(3,4) by linarith
    then show ?thesis using r by simp
  qed
  have kept: "consts_ok (g_hash G) fs' \<and> 0 \<le> i \<and> i < int (fs_nk fs') \<and>
        const_for (fs_haddr fs) k (fs_k fs' ! nat i) \<and> fs_nk fs \<le> fs_nk fs' \<and>
        (\<forall>j < fs_nk fs. fs_k fs' ! j = fs_k fs ! j)" if "interned (g_hash G) k i fs fs'" for i fs'
    using that by (simp add: interned_def)
  show ?thesis
  proof (cases "\<exists>x. tlook (fs_h fs) k = Number x")
    case False
    then have True: "tlook (fs_h fs) k \<noteq> Number x" for x
      by blast
    show ?thesis
    proof (cases "addk G k v fs")
      case (Ret i fs')
      then have f: "interned (g_hash G) k i fs fs'" "fs_nk fs' = Suc (fs_nk fs)"
        using addk_fresh [OF assms True] by auto
      show ?thesis
        unfolding Ret outcome.case using kept [OF f(1)] again [OF f(1)] f(2) by auto
    qed (use addk_fresh [OF assms True] in simp_all)
  next
    case True
    then obtain i fs' where r: "addk G k v fs = Ret i fs'" "interned (g_hash G) k i fs fs'" "fs_nk fs' = fs_nk fs"
      using addk_found [OF assms(1-3), where v = v] by blast
    show ?thesis
      unfolding r(1) outcome.case using kept [OF r(2)] again [OF r(2)] r(3) by auto
  qed
qed

text \<open>
  C38: entering a constant returns the index of an entry that is raw equal to it (for nil, of an entry
  that is nil), keeps the agreement of the table with the constants, and never moves or changes an
  earlier constant; it adds at most one entry, and entering the same constant again returns the same
  index and adds nothing. Only the limit of the constant table or the memory stops it. The strings that the
  analyser keeps alive with the value true (\<open>anchor_string\<close>) share the table: anchoring one keeps the agreement
  and all that is in the table, and such a string is entered like a fresh constant. (The table has
  room: at most \<open>2 ^ 25\<close> strings that are no constants.)
\<close>

theorem addk_interns:
  assumes "consts_ok (g_hash G) fs" "storable k" "\<forall>a b. g_realloc G a b" "const_for (fs_haddr fs) k v"
  shows "(case addk G k v fs of
      Ret i fs' \<Rightarrow> consts_ok (g_hash G) fs' \<and> 0 \<le> i \<and> i < int (fs_nk fs') \<and>
        const_for (fs_haddr fs) k (fs_k fs' ! nat i) \<and>
        fs_nk fs \<le> fs_nk fs' \<and> fs_nk fs' \<le> fs_nk fs + 1 \<and> (\<forall>j < fs_nk fs. fs_k fs' ! j = fs_k fs ! j) \<and>
        (\<exists>fs''. addk G k v fs' = Ret i fs'' \<and> fs_k fs'' = fs_k fs' \<and> fs_nk fs'' = fs_nk fs')
    | Err e \<Rightarrow> e = LuaError ERRRUN ''constant table overflow'' \<and> int (fs_nk fs) = MAXARG_Bx \<or>
        e = LuaError ERRMEM ''not enough memory''
    | Loop \<Rightarrow> False) \<and>
    (\<forall>ts. entries (fs_h fs) < fs_nk fs + 2 ^ 25 \<longrightarrow>
      (\<exists>t. anchor_string G ts fs = Ret () (fs\<lparr>fs_h := t\<rparr>) \<and> consts_ok (g_hash G) (fs\<lparr>fs_h := t\<rparr>) \<and>
        (\<forall>k. live k \<longrightarrow> tlook t k = (if k = Str ts \<and> tlook (fs_h fs) k = Nil then Boolean True else tlook (fs_h fs) k))))"
  using addk_entered [OF assms] anchor_string_ok [OF assms(1,3)] by blast

text \<open>
  C40: the constant -0 is not distinguished from 0: once 0 has an index, entering its negation returns
  the same index, whose constant is the positive zero, though the two numbers differ (dividing by
  them gives infinities of opposite signs).
\<close>

theorem negzero_shares_zero:
  assumes "consts_ok (g_hash G) fs" "\<forall>a b. g_realloc G a b" "tlook (fs_h fs) (Number 0) = Nil"
    and "luaK_numberK G 0 fs = Ret i fs1"
  shows "\<exists>fs2. luaK_numberK G (luai_numunm 0) fs1 = Ret i fs2 \<and> fs_k fs2 ! nat i = Number 0 \<and> luai_numunm 0 \<noteq> 0"
proof -
  have s: "storable (Number 0)" "storable (Number (luai_numunm 0))"
    using unm_nan num_mag_0 by (simp_all add: storable_iff luai_numisnan_iff)
  have f: "interned (g_hash G) (Number 0) i fs fs1" "fs_k fs1 ! nat i = Number 0"
    using addk_fresh [OF assms(1) s(1) assms(2), of "Number 0"] assms(3,4) num_mag_0
    by (auto simp: luaK_numberK_def const_for_def rawequal_refl)
  have eq: "luaO_rawequalObj (Number 0) (Number (luai_numunm 0))"
    using unm_zero(3) by (simp add: luaO_rawequalObj_def)
  have i: "consts_ok (g_hash G) fs1" "0 \<le> i" "i < int (fs_nk fs1)"
    "tlook (fs_h fs1) (Number (luai_numunm 0)) = Number (cast_num i)"
    using f(1) tlook_rawequal [OF eq] by (auto simp: interned_def)
  obtain i' fs2 where r: "luaK_numberK G (luai_numunm 0) fs1 = Ret i' fs2" "fs_k fs2 = fs_k fs1"
    "cast_num i = cast_num i'" "0 \<le> i'" "i' < int (fs_nk fs1)"
    using addk_found [OF i(1) s(2) assms(2), where v = "Number (luai_numunm 0)"] i(4)
    by (auto simp: luaK_numberK_def interned_def)
  then have "i' = i"
    using index_inj [of i i'] nk_bound [OF i(1)] i(2,3) by linarith
  then show ?thesis using r f(2) unm_zero(2) by simp
qed

section \<open>Witnesses\<close>

lemma open_fs_consts: "consts_ok hs open_fs" "\<forall>a b. g_realloc sample_gen a b" "live k \<Longrightarrow> tlook (fs_h open_fs) k = Nil"
proof -
  have n: "tlook new_table k = Nil" if "live k" for k
  proof (cases "storable k")
    case True
    then show ?thesis
      using table_map_canon [OF True, of new_table] new_table_ok(3) [of "canon k"] by (simp split: if_splits)
  qed (use that tlook_unstorable in blast)
  then show "live k \<Longrightarrow> tlook (fs_h open_fs) k = Nil"
    by (simp add: open_fs_def)
  show "consts_ok hs open_fs"
    using new_table_ok(1,2) n by (simp add: consts_ok_def open_fs_def)
  show "\<forall>a b. g_realloc sample_gen a b"
    by (simp add: sample_gen_def granting_def)
qed

lemma addk_interns_witness:
  "\<exists>t. anchor_string sample_gen 5 open_fs = Ret () (open_fs\<lparr>fs_h := t\<rparr>) \<and> tlook t (Str 5) = Boolean True \<and>
     (case addk sample_gen (Str 5) (Str 5) (open_fs\<lparr>fs_h := t\<rparr>) of
      Ret i fs' \<Rightarrow> fs_k fs' ! nat i = Str 5 \<and> (\<exists>fs''. addk sample_gen (Str 5) (Str 5) fs' = Ret i fs'')
    | Err e \<Rightarrow> e = LuaError ERRMEM ''not enough memory''
    | Loop \<Rightarrow> False)"
proof -
  have k: "storable (Str 5)" "\<And>a. const_for a (Str 5) (Str 5)" "const_for a (Str 5) v \<Longrightarrow> v = Str 5" "live (Str 5)" for a v
    by (auto simp: storable_iff const_for_def luaO_rawequalObj_def live_def) (cases v, auto)
  have e: "entries (fs_h open_fs) < fs_nk open_fs + 2 ^ 25"
    using new_table_ok(2) by (simp add: open_fs_def)
  have "\<exists>t. anchor_string sample_gen 5 open_fs = Ret () (open_fs\<lparr>fs_h := t\<rparr>) \<and>
      consts_ok (g_hash sample_gen) (open_fs\<lparr>fs_h := t\<rparr>) \<and>
      (\<forall>k. live k \<longrightarrow> tlook t k =
        (if k = Str 5 \<and> tlook (fs_h open_fs) k = Nil then Boolean True else tlook (fs_h open_fs) k))"
    using addk_interns [OF open_fs_consts(1) k(1) open_fs_consts(2) k(2)] e by blast
  then obtain t where t: "anchor_string sample_gen 5 open_fs = Ret () (open_fs\<lparr>fs_h := t\<rparr>)"
    "consts_ok (g_hash sample_gen) (open_fs\<lparr>fs_h := t\<rparr>)" "tlook t (Str 5) = Boolean True"
    using open_fs_consts(3) [OF k(4)] k(4) by auto
  have "case addk sample_gen (Str 5) (Str 5) (open_fs\<lparr>fs_h := t\<rparr>) of
      Ret i fs' \<Rightarrow> fs_k fs' ! nat i = Str 5 \<and> (\<exists>fs''. addk sample_gen (Str 5) (Str 5) fs' = Ret i fs'')
    | Err e \<Rightarrow> e = LuaError ERRMEM ''not enough memory''
    | Loop \<Rightarrow> False"
    using addk_interns [OF t(2) k(1) open_fs_consts(2) k(2)] k(3)
    by (auto simp: open_fs_def split: outcome.splits)
  then show ?thesis
    using t by blast
qed

lemma open_zero:
  "\<exists>t g. luaK_numberK sample_gen 0 open_fs =
     Ret 0 (open_fs\<lparr>fs_h := t, fs_mem := g, fs_k := [Number 0, Nil, Nil, Nil], fs_nk := 1\<rparr>)"
proof -
  have "storable (Number 0)"
    using num_mag_0 by (simp add: storable_iff luai_numisnan_iff)
  moreover have "tlook new_table (Number 0) = Nil"
    using open_fs_consts(3) [of "Number 0"] by (simp add: open_fs_def live_def)
  ultimately obtain t' s where r: "luaH_set (g_hash sample_gen) (g_realloc sample_gen) 1 new_table (Number 0) = Some (t', Inr s)"
      "read_slot t' s = Nil"
    using luaH_set_fresh [of "g_hash sample_gen" new_table "Number 0" "g_realloc sample_gen" "Number 0"] new_table_ok(1,2)
      open_fs_consts(2) by auto
  have g: "luaM_growvector (g_realloc sample_gen) \<lparr>totalbytes = 0\<rparr> 0 0 16 MAXARG_Bx ''constant table overflow'' =
      Inr (\<lparr>totalbytes = 64\<rparr>, 4)"
    by (simp add: luaM_growvector_def luaM_growaux_def luaM_reallocv_def luaM_realloc_def sample_gen_def granting_def Let_def)
  have rep: "replicate 4 Nil = [Nil, Nil, Nil, Nil]" by (simp add: numeral_eq_Suc)
  show ?thesis
    using r g rep by (simp add: luaK_numberK_def addk_def open_fs_def lift_result_def Let_def)
qed

lemma negzero_shares_zero_witness:
  "\<exists>fs1 fs2. luaK_numberK sample_gen 0 open_fs = Ret 0 fs1 \<and> luaK_numberK sample_gen (luai_numunm 0) fs1 = Ret 0 fs2 \<and>
     fs_k fs2 ! 0 = Number 0"
  using open_zero negzero_shares_zero [OF open_fs_consts(1,2) open_fs_consts(3)] by (force simp: live_def)

end
