(* ===== verification/Lua_Code_Arith.thy ===== *)
theory Lua_Code_Arith
  imports Lua_Code_Consts
begin

text \<open>
  The code generated for arithmetic computes what the expression means. An expression is compiled with
  the calls that \<open>subexpr\<close> of \<^verbatim>\<open>src/src/lparser.c\<close> makes, and the instructions are run as
  \<open>luaV_execute\<close> of \<^verbatim>\<open>src/src/lvm.c\<close> runs them on numbers.
\<close>

section \<open>The machine\<close>

text \<open>
  The registers of the function from \<open>base\<close> on. \<open>None\<close> is an operand that is not a number (the
  metamethod path) or an instruction outside the arithmetic ones.
\<close>

type_synonym regs = "int \<Rightarrow> tvalue"

definition vm_RK :: "tvalue list \<Rightarrow> regs \<Rightarrow> int \<Rightarrow> tvalue" where
  "vm_RK ks R x = (if ISK x then ks ! nat (INDEXK x) else R x)"

definition arith_op ::
  "(lua_Number \<Rightarrow> lua_Number \<Rightarrow> lua_Number) \<Rightarrow> tvalue list \<Rightarrow> Instruction \<Rightarrow> regs \<Rightarrow> regs option" where
  "arith_op f ks i R =
     (case (vm_RK ks R (GETARG_B i), vm_RK ks R (GETARG_C i)) of
        (Number nb, Number nc) \<Rightarrow> Some (R(GETARG_A i := Number (f nb nc)))
      | _ \<Rightarrow> None)"

text \<open>The loop of \<open>OP_LOADNIL\<close>, from the last register down; it sets one at least.\<close>

definition loadnil :: "int \<Rightarrow> int \<Rightarrow> regs \<Rightarrow> regs" where
  "loadnil a b R = (\<lambda>r. if r = b \<or> a \<le> r \<and> r \<le> b then Nil else R r)"

definition vm_arith :: "genlib \<Rightarrow> OpCode \<Rightarrow> tvalue list \<Rightarrow> Instruction \<Rightarrow> regs \<Rightarrow> regs option" where
  "vm_arith G op ks i R =
     (case op of
        OP_ADD \<Rightarrow> arith_op (g_add G) ks i R
      | OP_SUB \<Rightarrow> arith_op (g_sub G) ks i R
      | OP_MUL \<Rightarrow> arith_op (g_mul G) ks i R
      | OP_DIV \<Rightarrow> arith_op (g_div G) ks i R
      | OP_MOD \<Rightarrow> arith_op (luai_nummod G) ks i R
      | OP_POW \<Rightarrow> arith_op (g_pow G) ks i R
      | OP_UNM \<Rightarrow> (case R (GETARG_B i) of
            Number nb \<Rightarrow> Some (R(GETARG_A i := Number (luai_numunm nb)))
          | _ \<Rightarrow> None)
      | _ \<Rightarrow> None)"

definition vm_step :: "genlib \<Rightarrow> tvalue list \<Rightarrow> Instruction \<Rightarrow> regs \<Rightarrow> regs option" where
  "vm_step G ks i R =
     (case op_of (GET_OPCODE i) of
        Some OP_MOVE \<Rightarrow> Some (R(GETARG_A i := R (GETARG_B i)))
      | Some OP_LOADK \<Rightarrow> Some (R(GETARG_A i := ks ! nat (GETARG_Bx i)))
      | Some OP_LOADNIL \<Rightarrow> Some (loadnil (GETARG_A i) (GETARG_B i) R)
      | Some op \<Rightarrow> vm_arith G op ks i R
      | None \<Rightarrow> None)"

fun vm_run :: "genlib \<Rightarrow> tvalue list \<Rightarrow> Instruction list \<Rightarrow> regs \<Rightarrow> regs option" where
  "vm_run G ks [] R = Some R"
| "vm_run G ks (i # is) R = Option.bind (vm_step G ks i R) (vm_run G ks is)"

lemma vm_run_append: "vm_run G ks (xs @ ys) R = Option.bind (vm_run G ks xs R) (vm_run G ks ys)"
  by (induction xs arbitrary: R) (auto split: Option.bind_split)

section \<open>Arithmetic expressions\<close>

datatype arith = Add | Sub | Mul | Div | Mod | Pow

datatype aexp = Num lua_Number | Local int | Neg aexp | Bin arith aexp aexp

fun arith_opr :: "arith \<Rightarrow> BinOpr" where
  "arith_opr Add = OPR_ADD" | "arith_opr Sub = OPR_SUB" | "arith_opr Mul = OPR_MUL"
| "arith_opr Div = OPR_DIV" | "arith_opr Mod = OPR_MOD" | "arith_opr Pow = OPR_POW"

fun arith_code :: "arith \<Rightarrow> OpCode" where
  "arith_code Add = OP_ADD" | "arith_code Sub = OP_SUB" | "arith_code Mul = OP_MUL"
| "arith_code Div = OP_DIV" | "arith_code Mod = OP_MOD" | "arith_code Pow = OP_POW"

fun arith_fun :: "genlib \<Rightarrow> arith \<Rightarrow> lua_Number \<Rightarrow> lua_Number \<Rightarrow> lua_Number" where
  "arith_fun G Add = g_add G" | "arith_fun G Sub = g_sub G" | "arith_fun G Mul = g_mul G"
| "arith_fun G Div = g_div G" | "arith_fun G Mod = luai_nummod G" | "arith_fun G Pow = g_pow G"

text \<open>The meaning: locals that are not numbers have none here.\<close>

fun aeval :: "genlib \<Rightarrow> regs \<Rightarrow> aexp \<Rightarrow> lua_Number option" where
  "aeval G R (Num n) = Some n"
| "aeval G R (Local r) = (case R r of Number n \<Rightarrow> Some n | _ \<Rightarrow> None)"
| "aeval G R (Neg a) = map_option luai_numunm (aeval G R a)"
| "aeval G R (Bin p a b) = (case (aeval G R a, aeval G R b) of
     (Some v, Some w) \<Rightarrow> Some (arith_fun G p v w) | _ \<Rightarrow> None)"

text \<open>The descriptors that \<open>simpleexp\<close> makes with \<open>init_exp\<close>, and the calls of \<open>subexpr\<close>.\<close>

fun gen :: "genlib \<Rightarrow> aexp \<Rightarrow> FuncState \<Rightarrow> expdesc outcome" where
  "gen G (Num n) fs = Ret \<lparr>ek = VKNUM, info = 0, aux = 0, nval = n, et = NO_JUMP, ef = NO_JUMP\<rparr> fs"
| "gen G (Local r) fs = Ret \<lparr>ek = VLOCAL, info = r, aux = 0, nval = 0, et = NO_JUMP, ef = NO_JUMP\<rparr> fs"
| "gen G (Neg a) fs = gbind (gen G a fs) (luaK_prefix G OPR_MINUS)"
| "gen G (Bin p a b) fs =
     gbind (gen G a fs) (\<lambda>e1 fs.
     gbind (luaK_infix G (arith_opr p) e1 fs) (\<lambda>e1 fs.
     gbind (gen G b fs) (\<lambda>e2. luaK_posfix G (arith_opr p) e1 e2)))"

text \<open>What is folded at compile time, and the numbers that may become constants.\<close>

definition good :: "lua_Number \<Rightarrow> bool" where
  "good n \<longleftrightarrow> \<not> is_nan n \<and> n \<noteq> negzero"

fun folded :: "genlib \<Rightarrow> aexp \<Rightarrow> lua_Number option" where
  "folded G (Num n) = Some n"
| "folded G (Local r) = None"
| "folded G (Neg a) = (case folded G a of None \<Rightarrow> None
     | Some v \<Rightarrow> if luai_numisnan (luai_numunm v) then None else Some (luai_numunm v))"
| "folded G (Bin p a b) = (case (folded G a, folded G b) of
     (Some v, Some w) \<Rightarrow> if p \<in> {Div, Mod} \<and> luai_numeq w 0 \<or> luai_numisnan (arith_fun G p v w) then None
                        else Some (arith_fun G p v w)
   | _ \<Rightarrow> None)"

fun plain :: "genlib \<Rightarrow> int \<Rightarrow> aexp \<Rightarrow> bool" where
  "plain G na (Num n) = good n"
| "plain G na (Local r) = (0 \<le> r \<and> r < na)"
| "plain G na (Neg a) = (plain G na a \<and> (case folded G (Neg a) of None \<Rightarrow> True | Some v \<Rightarrow> good v))"
| "plain G na (Bin p a b) = (plain G na a \<and> plain G na b \<and>
     (case folded G (Bin p a b) of None \<Rightarrow> True | Some v \<Rightarrow> good v))"

section \<open>Reasoning about outcomes\<close>

definition yields :: "(lua_error \<Rightarrow> bool) \<Rightarrow> 'a outcome \<Rightarrow> ('a \<Rightarrow> FuncState \<Rightarrow> bool) \<Rightarrow> bool" where
  "yields E m Q = (case m of Ret x fs \<Rightarrow> Q x fs | Err e \<Rightarrow> E e | Loop \<Rightarrow> False)"

lemma yields_Ret [simp]: "yields E (Ret x fs) Q = Q x fs"
  by (simp add: yields_def)

lemma yields_bind: "yields E m P \<Longrightarrow> (\<And>x fs. P x fs \<Longrightarrow> yields E (f x fs) Q) \<Longrightarrow> yields E (gbind m f) Q"
  by (cases m) (auto simp: yields_def)

lemma yields_mono: "yields E m P \<Longrightarrow> (\<And>x fs. P x fs \<Longrightarrow> Q x fs) \<Longrightarrow> yields E m Q"
  by (cases m) (auto simp: yields_def)

lemma yields_bind2: "yields E m (\<lambda>(a, b). P a b) \<Longrightarrow> (\<And>a b fs. P a b fs \<Longrightarrow> yields E (f a b fs) Q) \<Longrightarrow>
    yields E (gbind m (\<lambda>(a, b). f a b)) Q"
  by (cases m) (auto simp: yields_def)

text \<open>The errors of compiling an arithmetic expression.\<close>

definition gen_error :: "genlib \<Rightarrow> LexState \<Rightarrow> lua_error \<Rightarrow> bool" where
  "gen_error G ls e \<longleftrightarrow> e = LuaError ERRMEM ''not enough memory'' \<or>
     e = LuaError ERRRUN ''code size overflow'' \<or> e = LuaError ERRRUN ''constant table overflow'' \<or>
     (\<exists>msg \<in> {''control structure too long'', ''function or expression too complex''}.
        luaX_syntaxerror (g_lex G) ls msg = (Inl e :: unit result))"

text \<open>
  The state between two operations: no pending jumps, the locals below the free registers, the
  registers below the limit, and no constant that is a negative zero.
\<close>

definition gen_ok :: "genlib \<Rightarrow> LexState \<Rightarrow> int \<Rightarrow> FuncState \<Rightarrow> bool" where
  "gen_ok G ls na fs \<longleftrightarrow> code_ok fs \<and> consts_ok (g_hash G) fs \<and> fs_jpc fs = NO_JUMP \<and>
     0 \<le> na \<and> na \<le> fs_freereg fs \<and> fs_freereg fs \<le> fs_maxstacksize fs \<and> fs_maxstacksize fs \<le> MAXSTACK \<and>
     fs_nactvar fs = na \<and> fs_ls fs = ls \<and> (\<forall>i < fs_nk fs. fs_k fs ! i \<noteq> Number negzero)"

definition same_consts :: "FuncState \<Rightarrow> FuncState \<Rightarrow> bool" where
  "same_consts fs fs' \<longleftrightarrow> fs_k fs' = fs_k fs \<and> fs_nk fs' = fs_nk fs"

lemma codeABC_step:
  assumes "gen_ok G ls na fs"
  shows "yields (gen_error G ls) (luaK_code G i line fs) (\<lambda>pc fs'. pc = fs_pc fs \<and> gen_ok G ls na fs' \<and>
    fs_code fs' = fs_code fs @ [i] \<and> same_consts fs fs' \<and> fs_freereg fs' = fs_freereg fs)"
proof -
  have l: "jlist (fs_code fs) (fs_jpc fs) []" and c: "code_ok fs"
    using assms by (simp_all add: gen_ok_def)
  have same: "c = fs_code fs" if "patched pc NO_REG pc [] (fs_code fs) c" for pc c
  proof (rule nth_equalityI)
    show "length c = length (fs_code fs)" using that by (simp add: patched_def)
    show "c ! p = fs_code fs ! p" if "p < length c" for p
      using \<open>patched pc NO_REG pc [] (fs_code fs) c\<close> by (simp add: patched_def) (metis nat_int of_nat_0_le_iff)
  qed
  have err: "gen_error G ls e" if "code_error G fs e" for e
    using that assms by (cases "luaX_syntaxerror (g_lex G) ls ''control structure too long'' :: unit result")
      (auto simp: code_error_def gen_error_def gen_ok_def syntaxerror_def lift_result_def)
  have keep: "gen_ok G ls na fs'" "same_consts fs fs'" "fs_freereg fs' = fs_freereg fs"
    if "emitted i line c fs fs'" "code_ok fs'" for c fs'
    using that assms by (auto simp: emitted_def gen_ok_def same_consts_def consts_ok_def)
  show ?thesis
    using luaK_code_result [OF c l, where G = G and i = i and line = line]
  proof (cases "luaK_code G i line fs")
    case (Ret pc fs')
    then obtain d where "pc = fs_pc fs" "code_ok fs'" "emitted i line d fs fs'" "patched pc NO_REG pc [] (fs_code fs) d"
      using luaK_code_result [OF c l, where G = G and i = i and line = line] by auto
    moreover from this have "fs_code fs' = fs_code fs @ [i]"
      using same [of pc d] by (auto simp: emitted_def)
    ultimately show ?thesis
      unfolding Ret yields_Ret using keep by blast
  qed (auto simp: yields_def intro: err)
qed

lemma numberK_step:
  assumes ok: "gen_ok G ls na fs" and fr: "\<forall>a b. g_realloc G a b" and n: "good n"
  shows "yields (gen_error G ls) (luaK_numberK G n fs) (\<lambda>i fs'. gen_ok G ls na fs' \<and> fs_code fs' = fs_code fs \<and>
    fs_freereg fs' = fs_freereg fs \<and> fs_nk fs \<le> fs_nk fs' \<and> (\<forall>j < fs_nk fs. fs_k fs' ! j = fs_k fs ! j) \<and>
    0 \<le> i \<and> i \<le> int (fs_nk fs) \<and> i < int (fs_nk fs') \<and> fs_k fs' ! nat i = Number n)"
proof -
  have c: "consts_ok (g_hash G) fs" and nz: "\<forall>i < fs_nk fs. fs_k fs ! i \<noteq> Number negzero"
    using ok by (simp_all add: gen_ok_def)
  have s: "storable (Number n)"
    using n by (simp add: storable_iff good_def luai_numisnan_iff)
  have self: "const_for (fs_haddr fs) (Number n) (Number n)"
    using n by (simp add: const_for_def good_def rawequal_refl)
  have fin: "gen_ok G ls na fs'" "fs_code fs' = fs_code fs" "fs_freereg fs' = fs_freereg fs" "fs_nk fs \<le> fs_nk fs'"
      "\<forall>j < fs_nk fs. fs_k fs' ! j = fs_k fs ! j" "0 \<le> i" "i < int (fs_nk fs')"
    if "interned (g_hash G) (Number n) i fs fs'" "\<forall>j < fs_nk fs'. fs_k fs' ! j \<noteq> Number negzero" for i fs'
    using that ok by (auto simp: interned_def gen_ok_def code_ok_def fs_pc_def)
  show ?thesis
  proof (cases "\<exists>x. tlook (fs_h fs) (Number n) = Number x")
    case False
    then have True: "tlook (fs_h fs) (Number n) \<noteq> Number x" for x
      by blast
    show ?thesis
    proof (cases "addk G (Number n) (Number n) fs")
      case (Ret i fs')
      then have r: "interned (g_hash G) (Number n) i fs fs'" "i = int (fs_nk fs)" "fs_nk fs' = Suc (fs_nk fs)"
        "fs_k fs' ! fs_nk fs = Number n"
        using addk_fresh [OF c s fr self True] by auto
      have "\<forall>j < fs_nk fs'. fs_k fs' ! j \<noteq> Number negzero"
        using r nz n by (auto simp: interned_def good_def less_Suc_eq)
      from fin [OF r(1) this] show ?thesis
        using Ret r by (simp add: luaK_numberK_def)
    qed (use addk_fresh [OF c s fr self True] in \<open>auto simp: luaK_numberK_def yields_def gen_error_def\<close>)
  next
    case True
    then obtain i fs' where r: "addk G (Number n) (Number n) fs = Ret i fs'" "interned (g_hash G) (Number n) i fs fs'"
      "fs_nk fs' = fs_nk fs" "fs_k fs' = fs_k fs"
      using addk_found [OF c s fr, where v = "Number n"] by blast
    have "const_for (fs_haddr fs) (Number n) (fs_k fs ! nat i)" "0 \<le> i" "i < int (fs_nk fs)"
      using r by (auto simp: interned_def)
    moreover from this obtain m where m: "fs_k fs ! nat i = Number m" "luai_numeq n m"
      by (cases "fs_k fs ! nat i") (auto simp: const_for_def luaO_rawequalObj_def)
    ultimately have "m = n"
      using numeq_same [of n m] n nz [rule_format, of "nat i"] by (auto simp: good_def)
    then show ?thesis
      using fin [OF r(2)] r nz m by (simp add: luaK_numberK_def)
  qed
qed

lemma reserve_step:
  assumes "gen_ok G ls na fs"
  shows "yields (gen_error G ls) (luaK_reserveregs G 1 fs) (\<lambda>_ fs'. gen_ok G ls na fs' \<and> fs_code fs' = fs_code fs \<and>
    same_consts fs fs' \<and> fs_freereg fs' = fs_freereg fs + 1 \<and> fs_freereg fs < MAXSTACK)"
proof -
  have "gen_error G ls e" if "luaX_syntaxerror (g_lex G) ls ''function or expression too complex'' = (Inl e :: unit result)" for e
    using that by (simp add: gen_error_def)
  then show ?thesis
    using assms
    by (cases "luaX_syntaxerror (g_lex G) ls ''function or expression too complex'' :: unit result")
      (auto simp: luaK_reserveregs_def luaK_checkstack_def Let_def syntaxerror_def lift_result_def yields_def gen_ok_def
        same_consts_def code_ok_def fs_pc_def consts_ok_def MAXSTACK_def)
qed


section \<open>Register or constant operands\<close>

lemma RK_reg: "0 \<le> x \<Longrightarrow> x < 256 \<Longrightarrow> \<not> ISK x"
  by (simp add: ISK_register)

lemma RK_const:
  assumes "0 \<le> x" "x < 256"
  shows "ISK (RKASK x)" "INDEXK (RKASK x) = x" "0 \<le> RKASK x" "RKASK x \<le> 511"
proof -
  show "ISK (RKASK x)" "INDEXK (RKASK x) = x" "0 \<le> RKASK x"
    using assms by (simp_all add: ISK_RKASK INDEXK_RKASK) (simp add: RKASK_def)
  have "n < 9" if "bit x n" for n
    using int_bit_less [of x 8 n] assms that by (cases "n < 9") auto
  then have "take_bit 9 (x OR 256) = x OR 256"
    by (intro bit_eqI) (auto simp: bit_take_bit_iff bit_or_iff bit_256)
  then have "x OR 256 < 2 ^ 9"
    by (metis take_bit_int_less_exp)
  then show "RKASK x \<le> 511" by (simp add: RKASK_def)
qed

section \<open>Running what has been generated\<close>

definition agrees :: "tvalue list \<Rightarrow> FuncState \<Rightarrow> bool" where
  "agrees ks fs \<longleftrightarrow> (\<forall>j < fs_nk fs. ks ! j = fs_k fs ! j)"

definition grows :: "FuncState \<Rightarrow> FuncState \<Rightarrow> bool" where
  "grows fs fs' \<longleftrightarrow> fs_nk fs \<le> fs_nk fs' \<and> (\<forall>j < fs_nk fs. fs_k fs' ! j = fs_k fs ! j)"

text \<open>The code added between two states takes the registers from \<open>R\<close> to \<open>R'\<close>.\<close>

definition reach :: "genlib \<Rightarrow> FuncState \<Rightarrow> regs \<Rightarrow> FuncState \<Rightarrow> regs \<Rightarrow> bool" where
  "reach G fs R fs' R' \<longleftrightarrow> grows fs fs' \<and> (\<exists>seg. fs_code fs' = fs_code fs @ seg \<and>
     (\<forall>ks. agrees ks fs' \<longrightarrow> vm_run G ks seg R = Some R'))"

lemma grows_refl: "same_consts fs fs' \<Longrightarrow> grows fs fs'"
  by (simp add: same_consts_def grows_def)

lemma grows_trans: "grows fs fs' \<Longrightarrow> grows fs' fs'' \<Longrightarrow> grows fs fs''"
  by (auto simp: grows_def)

lemma agrees_grows: "agrees ks fs' \<Longrightarrow> grows fs fs' \<Longrightarrow> agrees ks fs"
  by (auto simp: agrees_def grows_def)

lemma reach_refl: "fs_code fs' = fs_code fs \<Longrightarrow> grows fs fs' \<Longrightarrow> reach G fs R fs' R"
  by (simp add: reach_def)

lemma reach_trans: "reach G fs R fs' R' \<Longrightarrow> reach G fs' R' fs'' R'' \<Longrightarrow> reach G fs R fs'' R''"
  using agrees_grows grows_trans by (fastforce simp: reach_def vm_run_append)

lemma reach_one:
  assumes "fs_code fs' = fs_code fs @ [i]" "grows fs fs'" "\<And>ks. agrees ks fs' \<Longrightarrow> vm_step G ks i R = Some R'"
  shows "reach G fs R fs' R'"
  using assms by (simp add: reach_def)

lemma reach_same: "reach G fs R fs' R' \<Longrightarrow> fs_code fs'' = fs_code fs' \<Longrightarrow> same_consts fs' fs'' \<Longrightarrow> reach G fs R fs'' R'"
  using reach_trans reach_refl grows_refl by metis

lemma reach_grows: "reach G fs R fs' R' \<Longrightarrow> grows fs fs'"
  by (simp add: reach_def)

section \<open>Descriptors and their values\<close>

definition nojumps :: "expdesc \<Rightarrow> bool" where
  "nojumps e \<longleftrightarrow> et e = NO_JUMP \<and> ef e = NO_JUMP"

text \<open>Whether the descriptor holds a register that \<open>freeexp\<close> gives back.\<close>

definition tmp :: "int \<Rightarrow> expdesc \<Rightarrow> int" where
  "tmp na e = (if ek e = VNONRELOC \<and> na \<le> info e then 1 else 0)"

definition in_reg :: "int \<Rightarrow> int \<Rightarrow> expdesc \<Rightarrow> FuncState \<Rightarrow> regs \<Rightarrow> lua_Number \<Rightarrow> bool" where
  "in_reg na F e fs R v \<longleftrightarrow> nojumps e \<and> (ek e = VLOCAL \<and> info e < na \<or> ek e = VNONRELOC) \<and>
     0 \<le> info e \<and> info e < fs_freereg fs \<and> R (info e) = Number v \<and> fs_freereg fs = F + tmp na e"

definition operand :: "int \<Rightarrow> int \<Rightarrow> expdesc \<Rightarrow> FuncState \<Rightarrow> regs \<Rightarrow> lua_Number \<Rightarrow> bool" where
  "operand na F e fs R v \<longleftrightarrow> isnumeral e \<and> nval e = v \<and> fs_freereg fs = F \<or> in_reg na F e fs R v"

text \<open>The last instruction computes the value into whatever register is put in its field \<open>A\<close>.\<close>

definition relocatable ::
  "genlib \<Rightarrow> FuncState \<Rightarrow> regs \<Rightarrow> expdesc \<Rightarrow> FuncState \<Rightarrow> regs \<Rightarrow> lua_Number \<Rightarrow> bool" where
  "relocatable G fs R e fs' R' v \<longleftrightarrow> nojumps e \<and> ek e = VRELOCABLE \<and> fs_freereg fs' = fs_freereg fs \<and>
     (\<exists>fs0 i. reach G fs R fs0 R' \<and> same_consts fs0 fs' \<and> fs_code fs' = fs_code fs0 @ [i] \<and> info e = fs_pc fs0 \<and>
       (\<forall>ks A. agrees ks fs' \<longrightarrow> 0 \<le> A \<longrightarrow> A < MAXSTACK \<longrightarrow>
          vm_step G ks (SETARG_A i A) R' = Some (R'(A := Number v))))"

definition below :: "FuncState \<Rightarrow> regs \<Rightarrow> regs \<Rightarrow> bool" where
  "below fs R R' \<longleftrightarrow> (\<forall>r < fs_freereg fs. R' r = R r)"

definition computed ::
  "genlib \<Rightarrow> LexState \<Rightarrow> int \<Rightarrow> FuncState \<Rightarrow> regs \<Rightarrow> lua_Number \<Rightarrow> expdesc \<Rightarrow> FuncState \<Rightarrow> bool" where
  "computed G ls na fs R v e fs' \<longleftrightarrow> gen_ok G ls na fs' \<and> (\<exists>R'. below fs R R' \<and>
     (reach G fs R fs' R' \<and> operand na (fs_freereg fs) e fs' R' v \<or> relocatable G fs R e fs' R' v))"

definition next_reg ::
  "genlib \<Rightarrow> LexState \<Rightarrow> int \<Rightarrow> FuncState \<Rightarrow> regs \<Rightarrow> lua_Number \<Rightarrow> expdesc \<Rightarrow> FuncState \<Rightarrow> bool" where
  "next_reg G ls na fs R v e fs' \<longleftrightarrow> gen_ok G ls na fs' \<and> nojumps e \<and> ek e = VNONRELOC \<and>
     info e = fs_freereg fs \<and> fs_freereg fs' = fs_freereg fs + 1 \<and>
     (\<exists>R'. below fs R R' \<and> reach G fs R fs' R' \<and> R' (fs_freereg fs) = Number v)"

lemma gen_ok_free: "gen_ok G ls na fs \<Longrightarrow> na \<le> x \<Longrightarrow> x \<le> fs_freereg fs \<Longrightarrow> gen_ok G ls na (fs\<lparr>fs_freereg := x\<rparr>)"
  by (simp add: gen_ok_def code_ok_def fs_pc_def consts_ok_def)

lemma gen_okD:
  assumes "gen_ok G ls na fs"
  shows "0 \<le> na" "na \<le> fs_freereg fs" "fs_freereg fs \<le> MAXSTACK" "fs_nactvar fs = na"
  using assms by (auto simp: gen_ok_def)

lemma freeexp_eq:
  assumes "gen_ok G ls na fs" "ek e = VNONRELOC \<Longrightarrow> 0 \<le> info e \<and> info e < fs_freereg fs"
  shows "freeexp e fs = fs\<lparr>fs_freereg := fs_freereg fs - tmp na e\<rparr>"
proof -
  have "ek e = VNONRELOC \<Longrightarrow> \<not> ISK (info e)"
    using assms gen_okD(3) [OF assms(1)] by (intro RK_reg) (auto simp: MAXSTACK_def)
  then show ?thesis
    using gen_okD(4) [OF assms(1)] by (auto simp: freeexp_def freereg_def tmp_def)
qed

lemma dischargevars_eq:
  "ek e \<in> {VKNUM, VLOCAL, VNONRELOC, VRELOCABLE} \<Longrightarrow>
     luaK_dischargevars G e fs = Ret (if ek e = VLOCAL then e\<lparr>ek := VNONRELOC\<rparr> else e) fs"
  by (auto simp: luaK_dischargevars_def)

lemma gbind_assoc: "gbind (gbind m f) g = gbind m (\<lambda>x fs. gbind (f x fs) g)"
  by (cases m) auto

abbreviation (input) placed :: "expdesc \<Rightarrow> int \<Rightarrow> expdesc" where
  "placed e r \<equiv> e\<lparr>ef := NO_JUMP, et := NO_JUMP, info := r, ek := VNONRELOC\<rparr>"

lemma exp2reg_num:
  "isnumeral e \<Longrightarrow> exp2reg G e r fs = gbind (luaK_numberK G (nval e) fs) (\<lambda>k fs.
     gbind (luaK_codeABx G OP_LOADK r k fs) (\<lambda>_. Ret (placed e r)))"
  by (simp add: exp2reg_def discharge2reg_def luaK_dischargevars_def isnumeral_def hasjumps_def gbind_assoc)

lemma exp2reg_reg:
  "nojumps e \<Longrightarrow> ek e = VNONRELOC \<Longrightarrow> exp2reg G e r fs =
     (if r \<noteq> info e then gbind (luaK_codeABC G OP_MOVE r (info e) 0 fs) (\<lambda>_. Ret (placed e r))
      else Ret (placed e r) fs)"
  by (simp add: exp2reg_def discharge2reg_def luaK_dischargevars_def nojumps_def hasjumps_def gbind_assoc)

lemma exp2reg_reloc:
  "nojumps e \<Longrightarrow> ek e = VRELOCABLE \<Longrightarrow> exp2reg G e r fs =
     Ret (placed e r) (setcode e (SETARG_A (getcode fs e) r) fs)"
  by (simp add: exp2reg_def discharge2reg_def luaK_dischargevars_def nojumps_def hasjumps_def gbind_assoc)

lemma vm_step_move:
  "0 \<le> a \<Longrightarrow> a \<le> 255 \<Longrightarrow> 0 \<le> b \<Longrightarrow> b \<le> 511 \<Longrightarrow> vm_step G ks (CREATE_ABC OP_MOVE a b 0) R = Some (R(a := R b))"
  using op_of_opnum [of OP_MOVE] by (simp add: vm_step_def CREATE_ABC_fields)

lemma vm_step_loadk:
  "0 \<le> a \<Longrightarrow> a \<le> 255 \<Longrightarrow> 0 \<le> k \<Longrightarrow> k \<le> MAXARG_Bx \<Longrightarrow> vm_step G ks (CREATE_ABx OP_LOADK a k) R = Some (R(a := ks ! nat k))"
  using op_of_opnum [of OP_LOADK] by (simp add: vm_step_def CREATE_ABx_fields)


section \<open>Into a register\<close>

lemma below_trans: "below fs R R' \<Longrightarrow> below fs' R' R'' \<Longrightarrow> fs_freereg fs \<le> fs_freereg fs' \<Longrightarrow> below fs R R''"
  by (simp add: below_def)

lemma below_refl [simp]: "below fs R R"
  by (simp add: below_def)

lemma below_upd: "below fs R R' \<Longrightarrow> fs_freereg fs \<le> r \<Longrightarrow> below fs R (R'(r := x))"
  by (simp add: below_def)

lemma load_number:
  assumes ok: "gen_ok G ls na fs1" and fr: "\<forall>a b. g_realloc G a b" and e: "isnumeral e" "good (nval e)"
    and r: "0 \<le> r" "r < MAXSTACK"
  shows "yields (gen_error G ls) (exp2reg G e r fs1) (\<lambda>e' fs2. gen_ok G ls na fs2 \<and> e' = placed e r \<and>
    fs_freereg fs2 = fs_freereg fs1 \<and> reach G fs1 R fs2 (R(r := Number (nval e))))"
  unfolding exp2reg_num [OF e(1)] luaK_codeABx_def
proof (rule yields_bind [OF numberK_step [OF ok fr e(2)]], elim conjE)
  fix k fs2
  assume 2: "gen_ok G ls na fs2" "fs_code fs2 = fs_code fs1" "fs_freereg fs2 = fs_freereg fs1" "fs_nk fs1 \<le> fs_nk fs2"
    "\<forall>j<fs_nk fs1. fs_k fs2 ! j = fs_k fs1 ! j" "0 \<le> k" "k < int (fs_nk fs2)" "fs_k fs2 ! nat k = Number (nval e)"
  have "consts_ok (g_hash G) fs2" using 2(1) by (simp add: gen_ok_def)
  from nk_bound [OF this] have k: "k \<le> MAXARG_Bx" using 2(7) by linarith
  show "yields (gen_error G ls) (gbind (luaK_code G (CREATE_ABx OP_LOADK r k) (lastline (fs_ls fs2)) fs2) (\<lambda>_. Ret (placed e r)))
     (\<lambda>e' fs2. gen_ok G ls na fs2 \<and> e' = placed e r \<and> fs_freereg fs2 = fs_freereg fs1 \<and>
       reach G fs1 R fs2 (R(r := Number (nval e))))"
  proof (rule yields_bind [OF codeABC_step [OF 2(1)]], elim conjE)
    fix pc fs3
    assume 3: "gen_ok G ls na fs3" "fs_code fs3 = fs_code fs2 @ [CREATE_ABx OP_LOADK r k]" "same_consts fs2 fs3"
      "fs_freereg fs3 = fs_freereg fs2"
    have g: "grows fs1 fs3"
      using 2(4,5) 3(3) by (simp add: grows_def same_consts_def)
    have "vm_step G ks (CREATE_ABx OP_LOADK r k) R = Some (R(r := Number (nval e)))" if "agrees ks fs3" for ks
    proof -
      have "ks ! nat k = Number (nval e)"
        using that 3(3) 2(6-8) by (auto simp: agrees_def same_consts_def)
      then show ?thesis
        using vm_step_loadk [of r k] r k 2(6) by (simp add: MAXSTACK_def)
    qed
    then have "reach G fs1 R fs3 (R(r := Number (nval e)))"
      using 3(2) 2(2) g by (intro reach_one) auto
    then show "yields (gen_error G ls) (Ret (placed e r) fs3) (\<lambda>e' fs2. gen_ok G ls na fs2 \<and> e' = placed e r \<and>
        fs_freereg fs2 = fs_freereg fs1 \<and> reach G fs1 R fs2 (R(r := Number (nval e))))"
      using 2(3) 3(1,4) by simp
  qed
qed

lemma load_reg:
  assumes ok: "gen_ok G ls na fs1" and e: "nojumps e" "ek e = VNONRELOC" "0 \<le> info e" "info e < MAXSTACK"
    and r: "0 \<le> r" "r < MAXSTACK" and v: "R (info e) = Number v"
  shows "yields (gen_error G ls) (exp2reg G e r fs1) (\<lambda>e' fs2. gen_ok G ls na fs2 \<and> e' = placed e r \<and>
    fs_freereg fs2 = fs_freereg fs1 \<and> reach G fs1 R fs2 (R(r := Number v)))"
proof (cases "r = info e")
  case True
  then have "R(r := Number v) = R" using v by auto
  then show ?thesis
    using True ok reach_refl [of fs1 fs1 G R] grows_refl [of fs1 fs1] exp2reg_reg [OF e(1,2), of G r fs1]
    by (simp add: same_consts_def)
next
  case False
  have x: "exp2reg G e r fs1 = gbind (luaK_code G (CREATE_ABC OP_MOVE r (info e) 0) (lastline (fs_ls fs1)) fs1) (\<lambda>_. Ret (placed e r))"
    using False exp2reg_reg [OF e(1,2)] by (simp add: luaK_codeABC_def)
  show ?thesis
    unfolding x
  proof (rule yields_bind [OF codeABC_step [OF ok]], elim conjE)
    fix pc fs3
    assume 3: "gen_ok G ls na fs3" "fs_code fs3 = fs_code fs1 @ [CREATE_ABC OP_MOVE r (info e) 0]" "same_consts fs1 fs3"
      "fs_freereg fs3 = fs_freereg fs1"
    have "reach G fs1 R fs3 (R(r := Number v))"
      using 3(2,3) vm_step_move [of r "info e"] r e(3,4) v by (intro reach_one) (auto simp: grows_refl MAXSTACK_def)
    then show "yields (gen_error G ls) (Ret (placed e r) fs3) (\<lambda>e' fs2. gen_ok G ls na fs2 \<and> e' = placed e r \<and>
        fs_freereg fs2 = fs_freereg fs1 \<and> reach G fs1 R fs2 (R(r := Number v)))"
      using 3(1,4) by simp
  qed
qed

lemma load_reloc:
  assumes ok: "gen_ok G ls na fs1" and c: "relocatable G fs R e fs' R' v" and s: "fs_code fs1 = fs_code fs'" "same_consts fs' fs1"
    and r: "0 \<le> r" "r < MAXSTACK"
  shows "yields (gen_error G ls) (exp2reg G e r fs1) (\<lambda>e' fs2. gen_ok G ls na fs2 \<and> e' = placed e r \<and>
    fs_freereg fs2 = fs_freereg fs1 \<and> reach G fs R fs2 (R'(r := Number v)))"
proof -
  obtain fs0 i where 0: "nojumps e" "ek e = VRELOCABLE" "reach G fs R fs0 R'" "same_consts fs0 fs'"
    "fs_code fs' = fs_code fs0 @ [i]" "info e = fs_pc fs0"
    "\<And>ks A. agrees ks fs' \<Longrightarrow> 0 \<le> A \<Longrightarrow> A < MAXSTACK \<Longrightarrow> vm_step G ks (SETARG_A i A) R' = Some (R'(A := Number v))"
    using c by (auto simp: relocatable_def)
  let ?fs = "fs1\<lparr>fs_code := fs_code fs0 @ [SETARG_A i r]\<rparr>"
  have e: "exp2reg G e r fs1 = Ret (placed e r) ?fs"
    using exp2reg_reloc [OF 0(1,2)] s(1) 0(5,6) by (simp add: setcode_def getcode_def fs_pc_def)
  have c0: "same_consts fs0 ?fs" "\<And>ks. agrees ks ?fs \<Longrightarrow> agrees ks fs'"
    using 0(4) s(2) by (auto simp: same_consts_def agrees_def)
  have "reach G fs0 R' ?fs (R'(r := Number v))"
    using 0(7) [OF c0(2)] r grows_refl [OF c0(1)] by (intro reach_one) auto
  then have "reach G fs R ?fs (R'(r := Number v))"
    by (rule reach_trans [OF 0(3)])
  moreover have "gen_ok G ls na ?fs"
    using ok s(1) 0(5) by (simp add: gen_ok_def code_ok_def fs_pc_def consts_ok_def)
  ultimately show ?thesis
    unfolding e by simp
qed

lemma nextreg_finish:
  assumes "gen_ok G ls na fs2" "fs_freereg fs2 = fs_freereg fs + 1" "below fs R R'"
    "reach G fs R fs2 (R'(fs_freereg fs := Number v))"
  shows "next_reg G ls na fs R v (placed e (fs_freereg fs)) fs2"
  unfolding next_reg_def using assms below_upd [OF assms(3), of "fs_freereg fs" "Number v"]
  by (auto simp: nojumps_def intro!: exI [of _ "R'(fs_freereg fs := Number v)"])

lemma nextreg_step:
  assumes c: "computed G ls na fs R v e fs'" and ok: "gen_ok G ls na fs" and fr: "\<forall>a b. g_realloc G a b"
    and g: "ek e = VKNUM \<Longrightarrow> good (nval e)"
  shows "yields (gen_error G ls) (luaK_exp2nextreg G e fs') (next_reg G ls na fs R v)"
proof -
  have ok': "gen_ok G ls na fs'" using c by (simp add: computed_def)
  obtain R' where R': "below fs R R'"
    "reach G fs R fs' R' \<and> operand na (fs_freereg fs) e fs' R' v \<or> relocatable G fs R e fs' R' v"
    using c by (auto simp: computed_def)
  let ?e = "if ek e = VLOCAL then e\<lparr>ek := VNONRELOC\<rparr> else e"
  let ?F = "fs_freereg fs"
  have kind: "ek e \<in> {VKNUM, VLOCAL, VNONRELOC, VRELOCABLE}"
    using R'(2) by (auto simp: operand_def isnumeral_def in_reg_def relocatable_def)
  have free: "freeexp ?e fs' = fs'\<lparr>fs_freereg := ?F\<rparr>"
    using R'(2) freeexp_eq [OF ok', of ?e]
    by (auto simp: operand_def isnumeral_def in_reg_def relocatable_def tmp_def)
  have le: "?F \<le> fs_freereg fs'"
    using R'(2) by (auto simp: operand_def in_reg_def relocatable_def tmp_def)
  have okf: "gen_ok G ls na (fs'\<lparr>fs_freereg := ?F\<rparr>)"
    using gen_ok_free [OF ok' _ le] gen_okD(2) [OF ok] by simp
  have F0: "0 \<le> ?F" using gen_okD(1,2) [OF ok] by simp
  show ?thesis
    unfolding luaK_exp2nextreg_def dischargevars_eq [OF kind] gbind.simps free
  proof (rule yields_bind [OF reserve_step [OF okf]], elim conjE)
    fix u fs1
    assume 1: "gen_ok G ls na fs1" "fs_code fs1 = fs_code (fs'\<lparr>fs_freereg := ?F\<rparr>)" "same_consts (fs'\<lparr>fs_freereg := ?F\<rparr>) fs1"
      "fs_freereg fs1 = fs_freereg (fs'\<lparr>fs_freereg := ?F\<rparr>) + 1" "fs_freereg (fs'\<lparr>fs_freereg := ?F\<rparr>) < MAXSTACK"
    have f1: "fs_freereg fs1 - 1 = ?F" "?F < MAXSTACK" and s1: "same_consts fs' fs1" "fs_code fs1 = fs_code fs'"
      using 1 by (simp_all add: same_consts_def)
    have fin: "next_reg G ls na fs R v e' fs2"
      if "gen_ok G ls na fs2" "e' = placed e0 ?F" "fs_freereg fs2 = fs_freereg fs1" "reach G fs R fs2 (R'(?F := Number v))" for e' e0 fs2
      using nextreg_finish [OF that(1) _ R'(1) that(4), of e0] that(2,3) f1(1) by simp
    have fs1R: "reach G fs R fs1 R'" if "reach G fs R fs' R'"
      by (rule reach_same [OF that s1(2,1)])
    show "yields (gen_error G ls) (exp2reg G ?e (fs_freereg fs1 - 1) fs1) (next_reg G ls na fs R v)"
      unfolding f1(1)
    proof (cases "ek e = VRELOCABLE")
      case True
      then have "relocatable G fs R ?e fs' R' v"
        using R'(2) by (auto simp: operand_def isnumeral_def in_reg_def)
      from load_reloc [OF 1(1) this s1(2,1) F0 f1(2)]
      show "yields (gen_error G ls) (exp2reg G ?e ?F fs1) (next_reg G ls na fs R v)"
        by (rule yields_mono) (use fin in blast)
    next
      case nr: False
      then have r: "reach G fs R fs' R'" and o: "operand na ?F e fs' R' v"
        using R'(2) by (auto simp: relocatable_def)
      show "yields (gen_error G ls) (exp2reg G ?e ?F fs1) (next_reg G ls na fs R v)"
      proof (cases "ek e = VKNUM")
        case True
        then have n: "isnumeral ?e" "nval ?e = v" "good (nval ?e)"
          using o g by (auto simp: operand_def in_reg_def)
        from load_number [OF 1(1) fr n(1,3) F0 f1(2), of R'] show ?thesis
          by (rule yields_mono) (use fin reach_trans [OF fs1R [OF r]] n(2) in blast)
      next
        case False
        then have i: "nojumps ?e" "ek ?e = VNONRELOC" "0 \<le> info ?e" "info ?e < fs_freereg fs'" "R' (info ?e) = Number v"
          using o by (auto simp: operand_def isnumeral_def in_reg_def nojumps_def)
        then have "info ?e < MAXSTACK" using gen_okD(3) [OF ok'] by linarith
        from load_reg [where R = R' and v = v and e = ?e, OF 1(1) i(1-3) this F0 f1(2) i(5)] show ?thesis
          by (rule yields_mono) (use fin reach_trans [OF fs1R [OF r]] in blast)
      qed
    qed
  qed
qed


text \<open>In some register: the local's own, or a temporary one.\<close>

definition reg_val ::
  "genlib \<Rightarrow> LexState \<Rightarrow> int \<Rightarrow> FuncState \<Rightarrow> regs \<Rightarrow> lua_Number \<Rightarrow> expdesc \<Rightarrow> FuncState \<Rightarrow> bool" where
  "reg_val G ls na fs R v e fs' \<longleftrightarrow> gen_ok G ls na fs' \<and> ek e = VNONRELOC \<and>
     (\<exists>R'. below fs R R' \<and> reach G fs R fs' R' \<and> in_reg na (fs_freereg fs) e fs' R' v)"

lemma next_reg_val: "next_reg G ls na fs R v e fs' \<Longrightarrow> gen_ok G ls na fs \<Longrightarrow> reg_val G ls na fs R v e fs'"
  using gen_okD(1,2) [of G ls na fs] by (auto simp: next_reg_def reg_val_def in_reg_def tmp_def)

lemma nojumps_has [simp]: "nojumps e \<Longrightarrow> \<not> hasjumps e" "isnumeral e \<Longrightarrow> nojumps e"
  by (simp_all add: nojumps_def hasjumps_def isnumeral_def)

lemma computed_kind:
  "computed G ls na fs R v e fs' \<Longrightarrow> nojumps e \<and> ek e \<in> {VKNUM, VLOCAL, VNONRELOC, VRELOCABLE}"
  by (auto simp: computed_def operand_def in_reg_def relocatable_def isnumeral_def nojumps_def)

lemma computed_discharged:
  "computed G ls na fs R v e fs' \<Longrightarrow> computed G ls na fs R v (if ek e = VLOCAL then e\<lparr>ek := VNONRELOC\<rparr> else e) fs'"
  by (auto simp: computed_def operand_def in_reg_def relocatable_def isnumeral_def nojumps_def tmp_def)

lemma computed_reg:
  "computed G ls na fs R v e fs' \<Longrightarrow> ek e = VNONRELOC \<Longrightarrow> reg_val G ls na fs R v e fs'"
  by (auto simp: computed_def operand_def relocatable_def isnumeral_def reg_val_def)

lemma anyreg_step:
  assumes c: "computed G ls na fs R v e fs'" and ok: "gen_ok G ls na fs" and fr: "\<forall>a b. g_realloc G a b"
    and g: "ek e = VKNUM \<Longrightarrow> good (nval e)"
  shows "yields (gen_error G ls) (luaK_exp2anyreg G e fs') (reg_val G ls na fs R v)"
proof -
  have k: "ek e \<in> {VKNUM, VLOCAL, VNONRELOC, VRELOCABLE}" and nj: "nojumps e"
    using computed_kind [OF c] by auto
  note d = computed_discharged [OF c]
  show ?thesis
  proof (cases "ek e \<in> {VLOCAL, VNONRELOC}")
    case True
    then show ?thesis
      using computed_reg [OF d] nj
      by (auto simp: luaK_exp2anyreg_def dischargevars_eq hasjumps_def nojumps_def split: if_splits)
  next
    case False
    then have "luaK_exp2anyreg G e fs' = luaK_exp2nextreg G e fs'"
      using k by (auto simp: luaK_exp2anyreg_def dischargevars_eq)
    then show ?thesis
      using yields_mono [OF nextreg_step [OF c ok fr g]] next_reg_val [OF _ ok] by metis
  qed
qed

text \<open>As an operand of an instruction: a register, or the index of a constant.\<close>

definition rk_val ::
  "genlib \<Rightarrow> LexState \<Rightarrow> int \<Rightarrow> FuncState \<Rightarrow> regs \<Rightarrow> lua_Number \<Rightarrow> int \<Rightarrow> expdesc \<Rightarrow> FuncState \<Rightarrow> bool" where
  "rk_val G ls na fs R v r e fs' \<longleftrightarrow> reg_val G ls na fs R v e fs' \<and> r = info e \<or>
     gen_ok G ls na fs' \<and> ek e = VK \<and> nojumps e \<and> fs_freereg fs' = fs_freereg fs \<and> 0 \<le> r \<and> r \<le> 511 \<and> ISK r \<and>
     (\<forall>ks. agrees ks fs' \<longrightarrow> ks ! nat (INDEXK r) = Number v) \<and> (\<exists>R'. below fs R R' \<and> reach G fs R fs' R')"

lemma exp2RK_step:
  assumes c: "computed G ls na fs R v e fs'" and ok: "gen_ok G ls na fs" and fr: "\<forall>a b. g_realloc G a b"
    and g: "ek e = VKNUM \<Longrightarrow> good (nval e)"
  shows "yields (gen_error G ls) (luaK_exp2RK G e fs')
     (\<lambda>(r, e') fs''. rk_val G ls na fs R v r e' fs'' \<and> (ek e \<noteq> VKNUM \<longrightarrow> ek e' = VNONRELOC))"
proof -
  let ?e = "if ek e = VLOCAL then e\<lparr>ek := VNONRELOC\<rparr> else e"
  have k: "ek e \<in> {VKNUM, VLOCAL, VNONRELOC, VRELOCABLE}" and nj: "\<not> hasjumps e"
    using computed_kind [OF c] by auto
  have val: "luaK_exp2val G e fs' = Ret ?e fs'"
    using nj dischargevars_eq [OF k] by (simp add: luaK_exp2val_def)
  have g': "ek ?e = VKNUM \<Longrightarrow> good (nval ?e)"
    using g by (auto split: if_splits)
  have ok': "gen_ok G ls na fs'" using c by (simp add: computed_def)
  show ?thesis
  proof (cases "ek e = VKNUM \<and> int (fs_nk fs') \<le> MAXINDEXRK")
    case True
    then have x: "luaK_exp2RK G e fs' =
        gbind (luaK_numberK G (nval e) fs') (\<lambda>k. Ret (RKASK k, e\<lparr>info := k, ek := VK\<rparr>))"
      using val by (simp add: luaK_exp2RK_def)
    obtain R' where R': "below fs R R'" "reach G fs R fs' R'" "isnumeral e" "nval e = v" "fs_freereg fs' = fs_freereg fs"
      using c True by (auto simp: computed_def operand_def in_reg_def relocatable_def)
    show ?thesis
      unfolding x
    proof (rule yields_bind [OF numberK_step [OF ok' fr g]], use True in simp, elim conjE)
      fix k fs2
      assume 2: "gen_ok G ls na fs2" "fs_code fs2 = fs_code fs'" "fs_freereg fs2 = fs_freereg fs'" "fs_nk fs' \<le> fs_nk fs2"
        "\<forall>j<fs_nk fs'. fs_k fs2 ! j = fs_k fs' ! j" "0 \<le> k" "k \<le> int (fs_nk fs')" "k < int (fs_nk fs2)"
        "fs_k fs2 ! nat k = Number (nval e)"
      have kb: "0 \<le> k" "k < 256" using 2(6,7) True by auto
      have "reach G fs R fs2 R'"
        using reach_trans [OF R'(2) reach_refl [of fs2 fs']] 2(2,4,5) by (simp add: grows_def)
      moreover have "ks ! nat k = Number v" if "agrees ks fs2" for ks
        using that 2(6,8,9) R'(4) by (auto simp: agrees_def)
      ultimately have "rk_val G ls na fs R v (RKASK k) (e\<lparr>info := k, ek := VK\<rparr>) fs2"
        using 2(1,3) R' RK_const [OF kb] by (auto simp: rk_val_def nojumps_def isnumeral_def)
      then show "yields (gen_error G ls) (Ret (RKASK k, e\<lparr>info := k, ek := VK\<rparr>) fs2)
          (\<lambda>(r, e') fs''. rk_val G ls na fs R v r e' fs'' \<and> (ek e \<noteq> VKNUM \<longrightarrow> ek e' = VNONRELOC))"
        using True by simp
    qed
  next
    case False
    then have x: "luaK_exp2RK G e fs' = gbind (luaK_exp2anyreg G ?e fs') (\<lambda>e. Ret (info e, e))"
      using val k by (auto simp: luaK_exp2RK_def Let_def)
    show ?thesis
      unfolding x
    proof (rule yields_bind [OF anyreg_step [OF computed_discharged [OF c] ok fr g']], assumption)
      fix e2 fs2
      assume "reg_val G ls na fs R v e2 fs2"
      then show "yields (gen_error G ls) (Ret (info e2, e2) fs2)
          (\<lambda>(r, e') fs''. rk_val G ls na fs R v r e' fs'' \<and> (ek e \<noteq> VKNUM \<longrightarrow> ek e' = VNONRELOC))"
        by (auto simp: rk_val_def reg_val_def)
    qed
  qed
qed


section \<open>Operators\<close>

text \<open>The value of an operand, once its instructions have run.\<close>

definition rk_is :: "genlib \<Rightarrow> int \<Rightarrow> expdesc \<Rightarrow> FuncState \<Rightarrow> regs \<Rightarrow> lua_Number \<Rightarrow> int \<Rightarrow> bool" where
  "rk_is G na e fs R v r \<longleftrightarrow> 0 \<le> r \<and> r \<le> 511 \<and> (\<forall>ks. agrees ks fs \<longrightarrow> vm_RK ks R r = Number v) \<and>
     nojumps e \<and> (ek e = VNONRELOC \<longrightarrow> 0 \<le> info e \<and> info e < MAXSTACK)"

lemma rk_valD:
  assumes "rk_val G ls na fs R v r e fs'"
  shows "\<exists>R'. gen_ok G ls na fs' \<and> below fs R R' \<and> reach G fs R fs' R' \<and> rk_is G na e fs' R' v r \<and>
    fs_freereg fs' = fs_freereg fs + tmp na e \<and>
    (\<forall>R'' fs''. below fs' R' R'' \<longrightarrow> grows fs' fs'' \<longrightarrow> rk_is G na e fs'' R'' v r)"
  using assms unfolding rk_val_def
proof (elim disjE conjE)
  assume r: "reg_val G ls na fs R v e fs'" "r = info e"
  then obtain R' where R': "gen_ok G ls na fs'" "ek e = VNONRELOC" "below fs R R'" "reach G fs R fs' R'"
    "in_reg na (fs_freereg fs) e fs' R' v"
    by (auto simp: reg_val_def)
  have i: "0 \<le> r" "r < fs_freereg fs'" "R' r = Number v" "nojumps e"
    using R'(5) r(2) by (auto simp: in_reg_def)
  have m: "r < 250"
    using i(2) gen_okD(3) [OF R'(1)] by (simp add: MAXSTACK_def)
  have "rk_is G na e fs'' R'' v r" if "below fs' R' R''" for R'' fs''
    using that i m r(2) RK_reg [of r] by (simp add: rk_is_def vm_RK_def below_def MAXSTACK_def)
  then show ?thesis
    using R' by (intro exI [of _ R']) (simp add: in_reg_def)
next
  assume a: "gen_ok G ls na fs'" "ek e = VK" "nojumps e" "fs_freereg fs' = fs_freereg fs" "0 \<le> r" "r \<le> 511" "ISK r"
    "\<forall>ks. agrees ks fs' \<longrightarrow> ks ! nat (INDEXK r) = Number v" "\<exists>R'. below fs R R' \<and> reach G fs R fs' R'"
  then obtain R' where R': "below fs R R'" "reach G fs R fs' R'" by blast
  have "rk_is G na e fs'' R'' v r" if "grows fs' fs''" for R'' fs''
    using that a agrees_grows by (auto simp: rk_is_def vm_RK_def)
  moreover have "grows fs' fs'" by (simp add: grows_def)
  ultimately show ?thesis
    using a R' by (intro exI [of _ R']) (simp add: tmp_def)
qed

lemma freeexp_tmp:
  assumes "fs_nactvar fs = na" "ek e = VNONRELOC \<longrightarrow> 0 \<le> info e \<and> info e < MAXSTACK"
  shows "freeexp e fs = fs\<lparr>fs_freereg := fs_freereg fs - tmp na e\<rparr>"
proof -
  have "ek e = VNONRELOC \<Longrightarrow> \<not> ISK (info e)"
    using assms by (intro RK_reg) (auto simp: MAXSTACK_def)
  then show ?thesis
    using assms(1) by (auto simp: freeexp_def freereg_def tmp_def)
qed

lemma op_arith: "op_of (GET_OPCODE i) = Some (arith_code p) \<Longrightarrow> vm_step G ks i R = arith_op (arith_fun G p) ks i R"
  by (cases p) (simp_all add: vm_step_def vm_arith_def)

lemma vm_step_arith:
  assumes "0 \<le> b" "b \<le> 511" "0 \<le> c" "c \<le> 511" "0 \<le> a" "a < MAXSTACK"
    and "vm_RK ks R b = Number v" "vm_RK ks R c = Number w"
  shows "vm_step G ks (SETARG_A (CREATE_ABC (arith_code p) 0 b c) a) R = Some (R(a := Number (arith_fun G p v w)))"
proof -
  let ?i = "SETARG_A (CREATE_ABC (arith_code p) 0 b c) a"
  have f: "GET_OPCODE ?i = opnum (arith_code p)" "GETARG_A ?i = a" "GETARG_B ?i = b" "GETARG_C ?i = c"
    using assms(1-6) by (simp_all add: SETARG_other SETARG_same CREATE_ABC_fields MAXSTACK_def)
  then have "vm_step G ks ?i R = arith_op (arith_fun G p) ks ?i R"
    by (intro op_arith) simp
  then show ?thesis
    using f assms(7,8) by (simp add: arith_op_def)
qed

lemma vm_step_unm:
  assumes "0 \<le> b" "b < MAXSTACK" "0 \<le> a" "a < MAXSTACK" "R b = Number v"
  shows "vm_step G ks (SETARG_A (CREATE_ABC OP_UNM 0 b 0) a) R = Some (R(a := Number (luai_numunm v)))"
proof -
  let ?i = "SETARG_A (CREATE_ABC OP_UNM 0 b 0) a"
  have f: "GET_OPCODE ?i = opnum OP_UNM" "GETARG_A ?i = a" "GETARG_B ?i = b"
    using assms(1-4) by (simp_all add: SETARG_other SETARG_same CREATE_ABC_fields MAXSTACK_def)
  then show ?thesis
    using assms(5) op_of_opnum [of OP_UNM] by (simp add: vm_step_def vm_arith_def)
qed

lemma emit_computed:
  assumes ok: "gen_ok G ls na fs1" and r: "below fs R R'" "reach G fs R fs1 R'" "fs_freereg fs1 = fs_freereg fs" "nojumps e"
    and st: "\<And>ks a. agrees ks fs1 \<Longrightarrow> 0 \<le> a \<Longrightarrow> a < MAXSTACK \<Longrightarrow> vm_step G ks (SETARG_A i a) R' = Some (R'(a := Number v))"
  shows "yields (gen_error G ls) (luaK_code G i line fs1) (\<lambda>pc. computed G ls na fs R v (e\<lparr>info := pc, ek := VRELOCABLE\<rparr>))"
proof (rule yields_mono [OF codeABC_step [OF ok]], elim conjE)
  fix pc fs2
  assume 2: "pc = fs_pc fs1" "gen_ok G ls na fs2" "fs_code fs2 = fs_code fs1 @ [i]" "same_consts fs1 fs2"
    "fs_freereg fs2 = fs_freereg fs1"
  have "agrees ks fs2 \<Longrightarrow> agrees ks fs1" for ks
    using 2(4) by (simp add: agrees_def same_consts_def)
  then have "relocatable G fs R (e\<lparr>info := pc, ek := VRELOCABLE\<rparr>) fs2 R' v"
    unfolding relocatable_def using 2 r st by (auto simp: nojumps_def intro!: exI [of _ fs1] exI [of _ i])
  then show "computed G ls na fs R v (e\<lparr>info := pc, ek := VRELOCABLE\<rparr>) fs2"
    using 2(2) r(1) by (auto simp: computed_def)
qed

text \<open>The first operand waits while the second is compiled: a number, or a register.\<close>

definition ready ::
  "genlib \<Rightarrow> LexState \<Rightarrow> int \<Rightarrow> FuncState \<Rightarrow> regs \<Rightarrow> lua_Number \<Rightarrow> expdesc \<Rightarrow> FuncState \<Rightarrow> regs \<Rightarrow> bool" where
  "ready G ls na fs R v e fs1 R1 \<longleftrightarrow> gen_ok G ls na fs1 \<and> below fs R R1 \<and> reach G fs R fs1 R1 \<and>
     operand na (fs_freereg fs) e fs1 R1 v \<and> ek e \<in> {VKNUM, VNONRELOC} \<and> (ek e = VKNUM \<longrightarrow> good (nval e))"

lemma ready_freereg: "ready G ls na fs R v e fs1 R1 \<Longrightarrow> fs_freereg fs1 = fs_freereg fs + tmp na e"
  by (auto simp: ready_def operand_def in_reg_def tmp_def isnumeral_def)

lemma constfolding_arith:
  "constfolding G (arith_code p) e1 e2 =
     (if \<not> isnumeral e1 \<or> \<not> isnumeral e2 then None
      else if p \<in> {Div, Mod} \<and> luai_numeq (nval e2) 0 \<or> luai_numisnan (arith_fun G p (nval e1) (nval e2)) then None
      else Some (e1\<lparr>nval := arith_fun G p (nval e1) (nval e2)\<rparr>))"
  by (cases p) (simp_all add: constfolding_def Let_def)

text \<open>Both operands in place.\<close>

definition both_ready ::
  "genlib \<Rightarrow> LexState \<Rightarrow> int \<Rightarrow> FuncState \<Rightarrow> regs \<Rightarrow> lua_Number \<Rightarrow> lua_Number \<Rightarrow> expdesc \<Rightarrow> int \<Rightarrow> expdesc \<Rightarrow> int \<Rightarrow>
     FuncState \<Rightarrow> bool" where
  "both_ready G ls na fs R v w e1 o1 e2 o2 fs4 \<longleftrightarrow> gen_ok G ls na fs4 \<and>
     fs_freereg fs4 = fs_freereg fs + tmp na e1 + tmp na e2 \<and>
     (\<exists>R4. below fs R R4 \<and> reach G fs R fs4 R4 \<and> rk_is G na e1 fs4 R4 v o1 \<and> rk_is G na e2 fs4 R4 w o2)"

lemma first_operand:
  assumes r: "ready G ls na fs R v e1 fs1 R1" and ok: "gen_ok G ls na fs" and fr: "\<forall>a b. g_realloc G a b"
    and o2: "rk_val G ls na fs1 R1 w o2 e2 fs3"
  shows "yields (gen_error G ls) (luaK_exp2RK G e1 fs3) (\<lambda>(o1, e1') fs4. both_ready G ls na fs R v w e1' o1 e2 o2 fs4)"
proof -
  obtain R3 where R3: "gen_ok G ls na fs3" "below fs1 R1 R3" "reach G fs1 R1 fs3 R3" "rk_is G na e2 fs3 R3 w o2"
    "fs_freereg fs3 = fs_freereg fs1 + tmp na e2"
    "\<forall>R'' fs''. below fs3 R3 R'' \<longrightarrow> grows fs3 fs'' \<longrightarrow> rk_is G na e2 fs'' R'' w o2"
    using rk_valD [OF o2] by blast
  have t: "0 \<le> tmp na e" for e by (simp add: tmp_def)
  have F1: "fs_freereg fs1 = fs_freereg fs + tmp na e1" by (rule ready_freereg [OF r])
  have 1: "below fs R R1" "reach G fs R fs1 R1" "operand na (fs_freereg fs) e1 fs1 R1 v"
    using r by (auto simp: ready_def)
  have b3: "below fs R R3"
    using below_trans [OF 1(1) R3(2)] F1 t by simp
  have r3: "reach G fs R fs3 R3" by (rule reach_trans [OF 1(2) R3(3)])
  show ?thesis
  proof (cases "ek e1 = VKNUM")
    case True
    then have n: "isnumeral e1" "nval e1 = v" "tmp na e1 = 0" "good (nval e1)"
      using r by (auto simp: ready_def operand_def in_reg_def tmp_def)
    have "computed G ls na fs3 R3 v e1 fs3"
      using R3(1) n reach_refl [of fs3 fs3] by (auto simp: computed_def operand_def grows_def intro!: exI [of _ R3])
    note step = exp2RK_step [OF this R3(1) fr n(4)]
    have "both_ready G ls na fs R v w e1' o1 e2 o2 fs4" if o1: "rk_val G ls na fs3 R3 v o1 e1' fs4" for o1 e1' fs4
    proof -
      obtain R4 where R4: "gen_ok G ls na fs4" "below fs3 R3 R4" "reach G fs3 R3 fs4 R4" "rk_is G na e1' fs4 R4 v o1"
        "fs_freereg fs4 = fs_freereg fs3 + tmp na e1'"
        using rk_valD [OF o1] by blast
      have "rk_is G na e2 fs4 R4 w o2"
        using R3(6) R4(2) reach_grows [OF R4(3)] by blast
      moreover have "below fs R R4"
        using below_trans [OF b3 R4(2)] F1 R3(5) t [of e2] n(3) by simp
      moreover have "reach G fs R fs4 R4"
        by (rule reach_trans [OF r3 R4(3)])
      ultimately show ?thesis
        using R4 F1 R3(5) n(3) by (auto simp: both_ready_def)
    qed
    then show ?thesis
      by (intro yields_mono [OF step]) auto
  next
    case False
    then have i: "ek e1 = VNONRELOC" "in_reg na (fs_freereg fs) e1 fs1 R1 v"
      using r by (auto simp: ready_def operand_def isnumeral_def)
    then have f: "nojumps e1" "0 \<le> info e1" "info e1 < fs_freereg fs1" "R1 (info e1) = Number v"
      by (auto simp: in_reg_def)
    have x: "luaK_exp2RK G e1 fs3 = Ret (info e1, e1) fs3"
      using i(1) f(1) by (simp add: luaK_exp2RK_def luaK_exp2val_def luaK_dischargevars_def luaK_exp2anyreg_def)
    have m: "info e1 < 250"
      using f(3) gen_okD(3) [of G ls na fs1] r by (simp add: ready_def MAXSTACK_def)
    have "R3 (info e1) = Number v"
      using R3(2) f(3,4) by (simp add: below_def)
    then have "rk_is G na e1 fs3 R3 v (info e1)"
      using f(1,2) m RK_reg [of "info e1"] by (simp add: rk_is_def vm_RK_def MAXSTACK_def)
    then have "both_ready G ls na fs R v w e1 (info e1) e2 o2 fs3"
      using R3 b3 r3 F1 by (auto simp: both_ready_def)
    then show ?thesis
      unfolding x by simp
  qed
qed

lemma free_both:
  assumes "both_ready G ls na fs R v w e1 o1 e2 o2 fs4" "gen_ok G ls na fs"
  shows "freeexp e2 (freeexp e1 fs4) = fs4\<lparr>fs_freereg := fs_freereg fs\<rparr>"
    and "freeexp e1 (freeexp e2 fs4) = fs4\<lparr>fs_freereg := fs_freereg fs\<rparr>"
    and "gen_ok G ls na (fs4\<lparr>fs_freereg := fs_freereg fs\<rparr>)"
proof -
  have e: "ek e1 = VNONRELOC \<longrightarrow> 0 \<le> info e1 \<and> info e1 < MAXSTACK" "ek e2 = VNONRELOC \<longrightarrow> 0 \<le> info e2 \<and> info e2 < MAXSTACK"
    and k: "gen_ok G ls na fs4" "fs_freereg fs4 = fs_freereg fs + tmp na e1 + tmp na e2"
    using assms(1) by (auto simp: both_ready_def rk_is_def)
  show "freeexp e2 (freeexp e1 fs4) = fs4\<lparr>fs_freereg := fs_freereg fs\<rparr>"
    "freeexp e1 (freeexp e2 fs4) = fs4\<lparr>fs_freereg := fs_freereg fs\<rparr>"
    using freeexp_tmp [OF _ e(1), where na = na] freeexp_tmp [OF _ e(2), where na = na] gen_okD(4) [OF k(1)] k(2) by simp_all
  show "gen_ok G ls na (fs4\<lparr>fs_freereg := fs_freereg fs\<rparr>)"
    using gen_ok_free [OF k(1) gen_okD(2) [OF assms(2)]] k(2) by (simp add: tmp_def)
qed

lemma codearith_step:
  assumes r: "ready G ls na fs R v e1 fs1 R1" and ok: "gen_ok G ls na fs" and fr: "\<forall>a b. g_realloc G a b"
    and c: "computed G ls na fs1 R1 w e2 fs2" and g: "ek e2 = VKNUM \<Longrightarrow> good (nval e2)"
    and f1: "ek e1 = VKNUM \<Longrightarrow> folded G a = Some (nval e1)" and f2: "ek e2 = VKNUM \<Longrightarrow> folded G b = Some (nval e2)"
  shows "yields (gen_error G ls) (codearith G (arith_code p) e1 e2 fs2)
     (\<lambda>(e, _) fs'. computed G ls na fs R (arith_fun G p v w) e fs' \<and> (ek e = VKNUM \<longrightarrow> folded G (Bin p a b) = Some (nval e)))"
proof (cases "constfolding G (arith_code p) e1 e2")
  case (Some e)
  then have n: "isnumeral e1" "isnumeral e2" "e = e1\<lparr>nval := arith_fun G p (nval e1) (nval e2)\<rparr>"
    and nf: "\<not> (p \<in> {Div, Mod} \<and> luai_numeq (nval e2) 0 \<or> luai_numisnan (arith_fun G p (nval e1) (nval e2)))"
    unfolding constfolding_arith by (auto split: if_splits)
  then have k: "ek e1 = VKNUM" "ek e2 = VKNUM" by (simp_all add: isnumeral_def)
  have 1: "below fs R R1" "reach G fs R fs1 R1" "nval e1 = v" "fs_freereg fs1 = fs_freereg fs" "gen_ok G ls na fs1"
    using r k(1) by (auto simp: ready_def operand_def in_reg_def)
  obtain R2 where 2: "below fs1 R1 R2" "reach G fs1 R1 fs2 R2" "nval e2 = w" "fs_freereg fs2 = fs_freereg fs1" "gen_ok G ls na fs2"
    using c k(2) by (auto simp: computed_def operand_def in_reg_def relocatable_def)
  have "below fs R R2" "reach G fs R fs2 R2"
    using below_trans [OF 1(1) 2(1)] reach_trans [OF 1(2) 2(2)] 1(4) by simp_all
  moreover have "isnumeral e" "nval e = arith_fun G p v w"
    using n 1(3) 2(3) by (simp_all add: isnumeral_def)
  ultimately have "computed G ls na fs R (arith_fun G p v w) e fs2"
    using 1(4) 2(4,5) by (auto simp: computed_def operand_def)
  moreover have "folded G (Bin p a b) = Some (nval e)"
    using f1 [OF k(1)] f2 [OF k(2)] nf n(3) by simp
  ultimately show ?thesis
    using Some by (simp add: codearith_def)
next
  case None
  have x: "arith_code p \<noteq> OP_UNM \<and> arith_code p \<noteq> OP_LEN" by (cases p) simp_all
  have ok1: "gen_ok G ls na fs1" using r by (simp add: ready_def)
  show ?thesis
    unfolding codearith_def None option.case
  proof (rule yields_bind2, simp only: x simp_thms if_True, rule exp2RK_step [OF c ok1 fr g], assumption, elim conjE)
    fix o2 e2' fs3
    assume o2: "rk_val G ls na fs1 R1 w o2 e2' fs3"
    let ?Q = "\<lambda>(e, _) fs'. computed G ls na fs R (arith_fun G p v w) e fs' \<and>
      (ek e = VKNUM \<longrightarrow> folded G (Bin p a b) = Some (nval e))"
    have "yields (gen_error G ls) (let fs = if o1 > o2 then freeexp e2' (freeexp e1' fs4) else freeexp e1' (freeexp e2' fs4) in
        gbind (luaK_codeABC G (arith_code p) 0 o1 o2 fs) (\<lambda>pc. Ret (e1'\<lparr>info := pc, ek := VRELOCABLE\<rparr>, e2'))) ?Q"
      if b: "both_ready G ls na fs R v w e1' o1 e2' o2 fs4" for o1 e1' fs4
    proof -
      let ?fs = "fs4\<lparr>fs_freereg := fs_freereg fs\<rparr>"
      have l: "(let fs = if o1 > o2 then freeexp e2' (freeexp e1' fs4) else freeexp e1' (freeexp e2' fs4) in
          gbind (luaK_codeABC G (arith_code p) 0 o1 o2 fs) (\<lambda>pc. Ret (e1'\<lparr>info := pc, ek := VRELOCABLE\<rparr>, e2'))) =
        gbind (luaK_code G (CREATE_ABC (arith_code p) 0 o1 o2) (lastline (fs_ls ?fs)) ?fs)
          (\<lambda>pc. Ret (e1'\<lparr>info := pc, ek := VRELOCABLE\<rparr>, e2'))"
        using free_both(1,2) [OF b ok] by (simp add: luaK_codeABC_def Let_def)
      obtain R4 where R4: "below fs R R4" "reach G fs R fs4 R4" "rk_is G na e1' fs4 R4 v o1" "rk_is G na e2' fs4 R4 w o2"
        using b by (auto simp: both_ready_def)
      have r5: "reach G fs R ?fs R4"
        by (rule reach_same [OF R4(2)]) (simp_all add: same_consts_def)
      have st: "vm_step G ks (SETARG_A (CREATE_ABC (arith_code p) 0 o1 o2) A) R4 = Some (R4(A := Number (arith_fun G p v w)))"
        if "agrees ks ?fs" "0 \<le> A" "A < MAXSTACK" for ks A
        using that R4(3,4) vm_step_arith [of o1 o2 A ks R4 v w G p] by (simp add: rk_is_def agrees_def)
      have nj: "nojumps e1'" using R4(3) by (simp add: rk_is_def)
      show ?thesis
        unfolding l
        by (rule yields_bind [OF emit_computed [OF free_both(3) [OF b ok] R4(1) r5 _ nj st]]) auto
    qed
    then show "yields (gen_error G ls) (gbind (luaK_exp2RK G e1 fs3) (\<lambda>(o1, e1) fs.
        let fs = if o1 > o2 then freeexp e2' (freeexp e1 fs) else freeexp e1 (freeexp e2' fs) in
        gbind (luaK_codeABC G (arith_code p) 0 o1 o2 fs) (\<lambda>pc. Ret (e1\<lparr>info := pc, ek := VRELOCABLE\<rparr>, e2')))) ?Q"
      by (rule yields_bind2 [OF first_operand [OF r ok fr o2]])
  qed
qed

lemma infix_step:
  assumes c: "computed G ls na fs R v e fs'" and ok: "gen_ok G ls na fs" and fr: "\<forall>a b. g_realloc G a b"
    and g: "ek e = VKNUM \<Longrightarrow> good (nval e)"
  shows "yields (gen_error G ls) (luaK_infix G (arith_opr p) e fs')
     (\<lambda>e' fs1. (\<exists>R1. ready G ls na fs R v e' fs1 R1) \<and> (ek e' = VKNUM \<longrightarrow> e' = e))"
proof (cases "isnumeral e")
  case True
  then have "luaK_infix G (arith_opr p) e fs' = Ret e fs'"
    by (cases p) (simp_all add: luaK_infix_def)
  moreover have "\<exists>R1. ready G ls na fs R v e fs' R1"
    using c True g by (auto simp: computed_def ready_def relocatable_def isnumeral_def)
  ultimately show ?thesis by simp
next
  case False
  then have "luaK_infix G (arith_opr p) e fs' = gbind (luaK_exp2RK G e fs') (\<lambda>(_, v). Ret v)"
    by (cases p) (simp_all add: luaK_infix_def)
  moreover have nk: "ek e \<noteq> VKNUM"
    using False computed_kind [OF c] by (simp add: isnumeral_def nojumps_def)
  have "yields (gen_error G ls) (gbind (luaK_exp2RK G e fs') (\<lambda>(_, v). Ret v))
      (\<lambda>e' fs1. (\<exists>R1. ready G ls na fs R v e' fs1 R1) \<and> (ek e' = VKNUM \<longrightarrow> e' = e))"
  proof (rule yields_bind2 [OF exp2RK_step [OF c ok fr g]], assumption, elim conjE)
    fix r e' fs1
    assume "rk_val G ls na fs R v r e' fs1" "ek e \<noteq> VKNUM \<longrightarrow> ek e' = VNONRELOC"
    then show "yields (gen_error G ls) (Ret e' fs1) (\<lambda>e' fs1. (\<exists>R1. ready G ls na fs R v e' fs1 R1) \<and> (ek e' = VKNUM \<longrightarrow> e' = e))"
      using nk by (auto simp: rk_val_def reg_val_def ready_def operand_def)
  qed
  ultimately show ?thesis by simp
qed

lemma posfix_arith:
  "luaK_posfix G (arith_opr p) e1 e2 fs = gbind (codearith G (arith_code p) e1 e2 fs) (\<lambda>(e1, _). Ret e1)"
  by (cases p) (simp_all add: luaK_posfix_def Let_def)

lemma prefix_step:
  assumes c: "computed G ls na fs R v e fs'" and ok: "gen_ok G ls na fs" and fr: "\<forall>a b. g_realloc G a b"
    and g: "ek e = VKNUM \<Longrightarrow> good (nval e)" and f: "ek e = VKNUM \<Longrightarrow> folded G a = Some (nval e)"
  shows "yields (gen_error G ls) (luaK_prefix G OPR_MINUS e fs')
     (\<lambda>e fs'. computed G ls na fs R (luai_numunm v) e fs' \<and> (ek e = VKNUM \<longrightarrow> folded G (Neg a) = Some (nval e)))"
proof (cases "isnumeral e")
  case True
  then have k: "ek e = VKNUM" by (simp add: isnumeral_def)
  have nn: "\<not> luai_numisnan (luai_numunm (nval e))"
    using g [OF k] by (simp add: luai_numisnan_iff unm_nan good_def)
  then have x: "luaK_prefix G OPR_MINUS e fs' = Ret (e\<lparr>nval := luai_numunm (nval e)\<rparr>) fs'"
    using True by (simp add: luaK_prefix_def codearith_def constfolding_def isnumeral_def Let_def)
  have "computed G ls na fs R (luai_numunm v) (e\<lparr>nval := luai_numunm (nval e)\<rparr>) fs'"
    using c True k by (auto simp: computed_def operand_def in_reg_def relocatable_def isnumeral_def)
  then show ?thesis
    unfolding x using f [OF k] nn by simp
next
  case False
  let ?e2 = "\<lparr>ek = VKNUM, info = 0, aux = 0, nval = 0, et = NO_JUMP, ef = NO_JUMP\<rparr>"
  let ?Q = "\<lambda>e fs'. computed G ls na fs R (luai_numunm v) e fs' \<and> (ek e = VKNUM \<longrightarrow> folded G (Neg a) = Some (nval e))"
  have x: "luaK_prefix G OPR_MINUS e fs' = gbind (luaK_exp2anyreg G e fs') (\<lambda>e fs.
      gbind (codearith G OP_UNM e ?e2 fs) (\<lambda>(e, _). Ret e))"
    using False by (simp add: luaK_prefix_def)
  show ?thesis
    unfolding x
  proof (rule yields_bind [OF anyreg_step [OF c ok fr g]], assumption)
    fix e1 fs1
    assume rv: "reg_val G ls na fs R v e1 fs1"
    then obtain R1 where 1: "gen_ok G ls na fs1" "ek e1 = VNONRELOC" "below fs R R1" "reach G fs R fs1 R1"
      "in_reg na (fs_freereg fs) e1 fs1 R1 v"
      by (auto simp: reg_val_def)
    have i: "nojumps e1" "0 \<le> info e1" "info e1 < MAXSTACK" "R1 (info e1) = Number v" "fs_freereg fs1 = fs_freereg fs + tmp na e1"
      using 1(5) gen_okD(3) [OF 1(1)] by (auto simp: in_reg_def)
    let ?fs = "fs1\<lparr>fs_freereg := fs_freereg fs\<rparr>"
    have fe: "freeexp e1 fs1 = ?fs"
      using freeexp_tmp [of fs1 na e1] gen_okD(4) [OF 1(1)] i by simp
    have f2: "freeexp ?e2 fs = fs" for fs by (simp add: freeexp_def)
    have rk: "luaK_exp2RK G e1 fs1 = Ret (info e1, e1) fs1"
      using 1(2) i(1) by (simp add: luaK_exp2RK_def luaK_exp2val_def luaK_dischargevars_def luaK_exp2anyreg_def)
    have cf: "constfolding G OP_UNM e1 ?e2 = None"
      using 1(2) by (simp add: constfolding_def isnumeral_def)
    have y: "gbind (codearith G OP_UNM e1 ?e2 fs1) (\<lambda>(e, _). Ret e) =
        gbind (luaK_code G (CREATE_ABC OP_UNM 0 (info e1) 0) (lastline (fs_ls ?fs)) ?fs) (\<lambda>pc. Ret (e1\<lparr>info := pc, ek := VRELOCABLE\<rparr>))"
      unfolding codearith_def cf using rk f2 fe by (simp add: luaK_codeABC_def Let_def gbind_assoc)
    have okf: "gen_ok G ls na ?fs"
      using gen_ok_free [OF 1(1) gen_okD(2) [OF ok]] i(5) by (simp add: tmp_def)
    have r: "reach G fs R ?fs R1"
      by (rule reach_same [OF 1(4)]) (simp_all add: same_consts_def)
    have st: "vm_step G ks (SETARG_A (CREATE_ABC OP_UNM 0 (info e1) 0) A) R1 = Some (R1(A := Number (luai_numunm v)))"
      if "agrees ks ?fs" "0 \<le> A" "A < MAXSTACK" for ks A
      using vm_step_unm [of "info e1" A R1 v] i(2-4) that by simp
    show "yields (gen_error G ls) (gbind (codearith G OP_UNM e1 ?e2 fs1) (\<lambda>(e, _). Ret e)) ?Q"
      unfolding y by (rule yields_bind [OF emit_computed [OF okf 1(3) r _ i(1) st]]) auto
  qed
qed

section \<open>Whole expressions\<close>

lemma plain_good: "plain G na a \<Longrightarrow> folded G a = Some n \<Longrightarrow> good n"
  by (cases a) (auto split: option.splits if_splits)

lemma aeval_below: "plain G na a \<Longrightarrow> below fs R R' \<Longrightarrow> na \<le> fs_freereg fs \<Longrightarrow> aeval G R' a = aeval G R a"
  by (induction a) (auto simp: below_def split: option.splits)

lemma gen_computed:
  assumes "gen_ok G ls na fs" "\<forall>a b. g_realloc G a b" "plain G na a" "aeval G R a = Some v"
  shows "yields (gen_error G ls) (gen G a fs)
     (\<lambda>e fs'. computed G ls na fs R v e fs' \<and> (ek e = VKNUM \<longrightarrow> folded G a = Some (nval e)))"
  using assms(1,3,4)
proof (induction a arbitrary: fs R v)
  case (Num n)
  have "reach G fs R fs R" by (rule reach_refl) (simp_all add: grows_def)
  then show ?case
    using Num by (auto simp: computed_def operand_def isnumeral_def intro!: exI [of _ R])
next
  case (Local r)
  have "reach G fs R fs R" by (rule reach_refl) (simp_all add: grows_def)
  then show ?case
    using Local gen_okD(2) [OF Local(1)]
    by (auto simp: computed_def operand_def in_reg_def nojumps_def tmp_def intro!: exI [of _ R] split: tvalue.splits)
next
  case (Neg a)
  obtain u where u: "aeval G R a = Some u" "v = luai_numunm u"
    using Neg.prems(3) by auto
  have pa: "plain G na a" using Neg.prems(2) by simp
  show ?case
    unfolding gen.simps
  proof (rule yields_bind [OF Neg.IH [OF Neg.prems(1) pa u(1)]], elim conjE)
    fix e fs'
    assume "computed G ls na fs R u e fs'" "ek e = VKNUM \<longrightarrow> folded G a = Some (nval e)"
    then show "yields (gen_error G ls) (luaK_prefix G OPR_MINUS e fs')
        (\<lambda>e fs'. computed G ls na fs R v e fs' \<and> (ek e = VKNUM \<longrightarrow> folded G (Neg a) = Some (nval e)))"
      unfolding u(2) using prefix_step [OF _ Neg.prems(1) assms(2)] plain_good [OF pa] by blast
  qed
next
  case (Bin p a b)
  obtain u w where u: "aeval G R a = Some u" "aeval G R b = Some w" "v = arith_fun G p u w"
    using Bin.prems(3) by (auto split: option.splits)
  have pl: "plain G na a" "plain G na b" using Bin.prems(2) by simp_all
  let ?Q = "\<lambda>e fs'. computed G ls na fs R v e fs' \<and> (ek e = VKNUM \<longrightarrow> folded G (Bin p a b) = Some (nval e))"
  show ?case
    unfolding gen.simps
  proof (rule yields_bind [OF Bin.IH(1) [OF Bin.prems(1) pl(1) u(1)]], elim conjE)
    fix e1 fs'
    assume c1: "computed G ls na fs R u e1 fs'" and k1: "ek e1 = VKNUM \<longrightarrow> folded G a = Some (nval e1)"
    then have g1: "ek e1 = VKNUM \<Longrightarrow> good (nval e1)" using plain_good [OF pl(1)] by blast
    show "yields (gen_error G ls) (gbind (luaK_infix G (arith_opr p) e1 fs') (\<lambda>e1 fs.
        gbind (gen G b fs) (\<lambda>e2. luaK_posfix G (arith_opr p) e1 e2))) ?Q"
    proof (rule yields_bind [OF infix_step [OF c1 Bin.prems(1) assms(2) g1]], assumption, elim conjE exE)
      fix e1' fs1 R1
      assume r: "ready G ls na fs R u e1' fs1 R1" and k1': "ek e1' = VKNUM \<longrightarrow> e1' = e1"
      have ok1: "gen_ok G ls na fs1" and b1: "below fs R R1"
        using r by (simp_all add: ready_def)
      have ev: "aeval G R1 b = Some w"
        using aeval_below [OF pl(2) b1 gen_okD(2) [OF Bin.prems(1)]] u(2) by simp
      have f1: "ek e1' = VKNUM \<Longrightarrow> folded G a = Some (nval e1')"
        using k1 k1' by auto
      show "yields (gen_error G ls) (gbind (gen G b fs1) (\<lambda>e2. luaK_posfix G (arith_opr p) e1' e2)) ?Q"
      proof (rule yields_bind [OF Bin.IH(2) [OF ok1 pl(2) ev]], elim conjE)
        fix e2 fs2
        assume c2: "computed G ls na fs1 R1 w e2 fs2" and k2: "ek e2 = VKNUM \<longrightarrow> folded G b = Some (nval e2)"
        then have g2: "ek e2 = VKNUM \<Longrightarrow> good (nval e2)" and f2: "ek e2 = VKNUM \<Longrightarrow> folded G b = Some (nval e2)"
          using plain_good [OF pl(2)] by blast+
        show "yields (gen_error G ls) (luaK_posfix G (arith_opr p) e1' e2 fs2) ?Q"
          unfolding posfix_arith u(3)
          by (rule yields_bind2 [OF codearith_step [OF r Bin.prems(1) assms(2) c2 g2 f1 f2]]) auto
      qed
    qed
  qed
qed


section \<open>Properties\<close>

text \<open>
  C32: the code generated for an arithmetic expression of numerals, locals, the six binary operators
  and negation, however it is folded and wherever its constants and temporaries go, computes the
  value of the expression into the next free register and leaves the registers below alone; one
  register more is in use afterwards. Compiling can fail only by a limit or for lack of memory. No
  numeral of the expression and no number folded from it may be NaN or -0 (see \<open>negzero_shares_zero\<close>).
\<close>

theorem arith_compiled_correctly:
  assumes "gen_ok G ls na fs" "\<forall>a b. g_realloc G a b" "plain G na a" "aeval G R a = Some v"
  shows "case gbind (gen G a fs) (luaK_exp2nextreg G) of
      Ret e fs' \<Rightarrow> ek e = VNONRELOC \<and> info e = fs_freereg fs \<and> fs_freereg fs' = fs_freereg fs + 1 \<and> gen_ok G ls na fs' \<and>
        (\<exists>seg R'. fs_code fs' = fs_code fs @ seg \<and> vm_run G (fs_k fs') seg R = Some R' \<and>
           R' (fs_freereg fs) = Number v \<and> (\<forall>r < fs_freereg fs. R' r = R r))
    | Err err \<Rightarrow> gen_error G ls err
    | Loop \<Rightarrow> False"
proof -
  have "yields (gen_error G ls) (gbind (gen G a fs) (luaK_exp2nextreg G)) (next_reg G ls na fs R v)"
  proof (rule yields_bind [OF gen_computed [OF assms]], elim conjE)
    fix e fs'
    assume c: "computed G ls na fs R v e fs'" and k: "ek e = VKNUM \<longrightarrow> folded G a = Some (nval e)"
    show "yields (gen_error G ls) (luaK_exp2nextreg G e fs') (next_reg G ls na fs R v)"
      using nextreg_step [OF c assms(1,2)] plain_good [OF assms(3)] k by blast
  qed
  then show ?thesis
    by (force simp: yields_def next_reg_def below_def reach_def agrees_def split: outcome.splits)
qed

lemma loadnil_join:
  "a \<le> f \<Longrightarrow> f \<le> b + 1 \<Longrightarrow> a \<le> b \<Longrightarrow> f \<le> t \<Longrightarrow> loadnil f t (loadnil a b R) = loadnil a (max b t) R"
  by (auto simp: loadnil_def fun_eq_iff)

lemma vm_step_nil:
  "GET_OPCODE i = opnum OP_LOADNIL \<Longrightarrow> vm_step G ks i R = Some (loadnil (GETARG_A i) (GETARG_B i) R)"
  using op_of_opnum [of OP_LOADNIL] by (simp add: vm_step_def)

text \<open>
  For \<open>luaK_nil\<close> straight code is not enough: what it must not do depends on jumps. So here the machine
  has a program counter and any instructions. \<open>sem i p R q R'\<close> says that the instruction \<open>i\<close> at \<open>p\<close> may take
  registers \<open>R\<close> to \<open>R'\<close> and go on at \<open>q\<close>; a run ends when it gets to the end of the code.
\<close>

type_synonym sem = "Instruction \<Rightarrow> nat \<Rightarrow> (int \<Rightarrow> tvalue) \<Rightarrow> nat \<Rightarrow> (int \<Rightarrow> tvalue) \<Rightarrow> bool"

inductive runs :: "sem \<Rightarrow> Instruction list \<Rightarrow> nat \<Rightarrow> (int \<Rightarrow> tvalue) \<Rightarrow> (int \<Rightarrow> tvalue) \<Rightarrow> bool"
  for sem :: sem and c :: "Instruction list" where
  stop: "runs sem c (length c) R R"
| step: "p < length c \<Longrightarrow> sem (c ! p) p R q R1 \<Longrightarrow> runs sem c q R1 R' \<Longrightarrow> runs sem c p R R'"

lemma runs_end: "runs sem c (length c) R R' \<longleftrightarrow> R' = R"
  by (auto intro: runs.stop elim: runs.cases)

lemma runs_inside:
  assumes "p < length c"
  shows "runs sem c p R R' \<longleftrightarrow> (\<exists>q R1. sem (c ! p) p R q R1 \<and> runs sem c q R1 R')"
proof
  assume "runs sem c p R R'"
  then show "\<exists>q R1. sem (c ! p) p R q R1 \<and> runs sem c q R1 R'"
    using assms by (cases rule: runs.cases) auto
qed (use assms in \<open>auto intro: runs.step\<close>)

text \<open>Two ends of a code that runs cannot tell apart when they come to them.\<close>

lemma runs_transfer:
  assumes "runs sem (c @ x) s R R'" "s \<le> length c"
    and "\<And>R R'. runs sem (c @ x) (length c) R R' \<Longrightarrow> runs sem (c @ y) (length c) R R'"
    and "\<And>p R q R'. p < length c \<Longrightarrow> sem (c ! p) p R q R' \<Longrightarrow> q \<le> length c"
  shows "runs sem (c @ y) s R R'"
  using assms(1,2)
proof (induction rule: runs.induct)
  case (stop R)
  then have x: "x = []"
    by simp
  have "runs sem (c @ x) (length c) R R"
    using runs.stop [of sem c R] by (simp add: x)
  then have "runs sem (c @ y) (length c) R R"
    by (rule assms(3))
  then show ?case
    by (simp add: x)
next
  case (step p R q R1 R')
  show ?case
  proof (cases "p < length c")
    case True
    then have m: "sem (c ! p) p R q R1" "(c @ y) ! p = c ! p" "p < length (c @ y)"
      using step.hyps(2) by (simp_all add: nth_append)
    have "runs sem (c @ y) q R1 R'"
      by (rule step.IH [OF assms(4) [OF True m(1)]])
    then show ?thesis
      using m runs.step [of p "c @ y" sem R q R1 R'] by simp
  next
    case False
    then have p: "p = length c"
      using step.prems by simp
    show ?thesis
      using assms(3) [OF runs.step [OF step.hyps, unfolded p]] unfolding p .
  qed
qed

definition nil_law :: "sem \<Rightarrow> bool" where
  "nil_law sem \<longleftrightarrow> (\<forall>i p R q R'. GET_OPCODE i = opnum OP_LOADNIL \<longrightarrow>
     (sem i p R q R' \<longleftrightarrow> q = Suc p \<and> R' = loadnil (GETARG_A i) (GETARG_B i) R))"

lemma nil_lawD: "nil_law sem \<Longrightarrow> GET_OPCODE i = opnum OP_LOADNIL \<Longrightarrow>
    sem i p R q R' \<longleftrightarrow> q = Suc p \<and> R' = loadnil (GETARG_A i) (GETARG_B i) R"
  by (simp add: nil_law_def)

lemma runs_nil:
  assumes "nil_law sem" "GET_OPCODE p = opnum OP_LOADNIL"
  shows "runs sem (c @ [p]) (length c) R R' \<longleftrightarrow> R' = loadnil (GETARG_A p) (GETARG_B p) R"
  using runs_end [of sem "c @ [p]"] by (simp add: runs_inside nil_lawD [OF assms])

lemma runs_nil2:
  assumes "nil_law sem" "GET_OPCODE p = opnum OP_LOADNIL" "GET_OPCODE i = opnum OP_LOADNIL"
  shows "runs sem (c @ [p, i]) (length c) R R' \<longleftrightarrow>
    R' = loadnil (GETARG_A i) (GETARG_B i) (loadnil (GETARG_A p) (GETARG_B p) R)"
proof -
  have "runs sem (c @ [p, i]) (Suc (length c)) Q Q' \<longleftrightarrow> Q' = loadnil (GETARG_A i) (GETARG_B i) Q" for Q Q'
    using runs_nil [OF assms(1,3), of "c @ [p]" Q Q'] by simp
  then show ?thesis
    by (simp add: runs_inside [of "length c"] nth_append nil_lawD [OF assms(1,2)])
qed

lemma loadnil_merges:
  assumes "GET_OPCODE p = opnum OP_LOADNIL" "GETARG_A p \<le> frm" "frm \<le> GETARG_B p + 1" "GETARG_A p \<le> GETARG_B p"
    and "0 \<le> frm" "1 \<le> n" "frm + n \<le> MAXSTACK" "nil_law sem" "s \<le> length c"
    and flow: "\<And>p R q R'. p < length c \<Longrightarrow> sem (c ! p) p R q R' \<Longrightarrow> q \<le> length c"
  shows "runs sem (c @ [p, CREATE_ABC OP_LOADNIL frm (frm + n - 1) 0]) s R R' \<longleftrightarrow>
    runs sem (c @ [if frm + n - 1 > GETARG_B p then SETARG_B p (frm + n - 1) else p]) s R R'"
proof -
  let ?t = "frm + n - 1"
  let ?i = "CREATE_ABC OP_LOADNIL frm ?t 0" and ?p = "if frm + n - 1 > GETARG_B p then SETARG_B p (frm + n - 1) else p"
  have bd: "?t \<le> 249" "frm \<le> 255" using assms(5-7) by (auto simp: MAXSTACK_def)
  have i: "GETARG_A ?i = frm" "GETARG_B ?i = ?t" "GET_OPCODE ?i = opnum OP_LOADNIL"
    using bd assms(5,6) by (simp_all add: CREATE_ABC_fields)
  have p: "GET_OPCODE ?p = opnum OP_LOADNIL" "GETARG_A ?p = GETARG_A p" "GETARG_B ?p = max (GETARG_B p) ?t"
    using assms(1) bd assms(5,6) by (simp_all add: SETARG_other SETARG_same)
  have "runs sem (c @ [p, ?i]) (length c) Q Q' \<longleftrightarrow> runs sem (c @ [?p]) (length c) Q Q'" for Q Q'
    unfolding runs_nil2 [OF assms(8,1) i(3)] runs_nil [OF assms(8) p(1)] p(2,3) i(1,2)
    using loadnil_join [OF assms(2,3,4), of ?t] assms(6) by simp
  then show ?thesis
    using runs_transfer [OF _ assms(9), where x = "[p, ?i]" and y = "[?p]"]
      runs_transfer [OF _ assms(9), where x = "[?p]" and y = "[p, ?i]"] flow by blast
qed

text \<open>
  C39: setting registers to nil with \<open>luaK_nil\<close> has the effect of the plain instruction
  \<open>LOADNIL from (from + n - 1)\<close>, whether it is emitted, merged with the one before, or left out at
  the start of the function, where the registers above the parameters are nil already. This is so in code with
  any instructions and jumps, as long as \<open>lasttarget\<close> is what it says: a jump to the end of the code so far
  has made it a label.
\<close>

theorem luaK_nil_equiv:
  assumes "gen_ok G ls na fs" "0 \<le> frm" "1 \<le> n" "frm + n \<le> MAXSTACK" "nil_law sem"
    and "fs_code fs \<noteq> [] \<longrightarrow> GET_OPCODE (last (fs_code fs)) = opnum OP_LOADNIL \<longrightarrow>
      GETARG_A (last (fs_code fs)) \<le> GETARG_B (last (fs_code fs))"
    and flow: "\<forall>p < length (fs_code fs). \<forall>R q R'. sem (fs_code fs ! p) p R q R' \<longrightarrow>
      q = Suc p \<or> int q < fs_pc fs \<or> int q \<le> fs_lasttarget fs"
    and start: "s = 0 \<or> int s < fs_pc fs \<or> int s \<le> fs_lasttarget fs"
    and clean: "fs_code fs = [] \<and> fs_lasttarget fs < 0 \<longrightarrow> (\<forall>r \<ge> na. R r = Nil)"
  shows "case luaK_nil G frm n fs of
      Ret _ fs' \<Rightarrow> gen_ok G ls na fs' \<and>
        (\<forall>R'. runs sem (fs_code fs') s R R' \<longleftrightarrow> runs sem (fs_code fs @ [CREATE_ABC OP_LOADNIL frm (frm + n - 1) 0]) s R R')
    | Err e \<Rightarrow> gen_error G ls e
    | Loop \<Rightarrow> False"
proof -
  let ?t = "frm + n - 1"
  let ?i = "CREATE_ABC OP_LOADNIL frm ?t 0"
  let ?same = "\<lambda>(_ :: unit) fs'. gen_ok G ls na fs' \<and> (\<forall>R'. runs sem (fs_code fs') s R R' \<longleftrightarrow> runs sem (fs_code fs @ [?i]) s R R')"
  have bd: "?t \<le> 249" "frm \<le> 255" using assms(2-4) by (auto simp: MAXSTACK_def)
  have i: "GETARG_A ?i = frm" "GETARG_B ?i = ?t" "GET_OPCODE ?i = opnum OP_LOADNIL"
    using bd assms(2,3) by (simp_all add: CREATE_ABC_fields)
  have emit: "yields (gen_error G ls) (gbind (luaK_codeABC G OP_LOADNIL frm ?t 0 fs) (\<lambda>_ fs. Ret () fs)) ?same"
    unfolding luaK_codeABC_def by (rule yields_bind [OF codeABC_step [OF assms(1)]]) simp
  have blank: "?same () fs" if "fs_code fs = []" "na \<le> frm" "fs_lasttarget fs < fs_pc fs"
  proof -
    have s: "s = 0" "\<forall>r \<ge> na. R r = Nil"
      using that start clean by (auto simp: fs_pc_def)
    have "loadnil frm ?t R = R"
      using s(2) that(2) assms(3) by (auto simp: loadnil_def fun_eq_iff)
    then have "runs sem [?i] 0 R R' \<longleftrightarrow> R' = R" for R'
      using runs_nil [OF assms(5) i(3), of "[]" R R'] i by simp
    then show ?thesis
      using assms(1) that(1) s(1) runs_end [of sem "[]" R] by simp
  qed
  have merged: "(if ?t > GETARG_B p then ?same () (fs\<lparr>fs_code := (fs_code fs)[nat (fs_pc fs - 1) := SETARG_B p ?t]\<rparr>)
      else ?same () fs)"
    if "fs_code fs = c @ [p]" "GET_OPCODE p = opnum OP_LOADNIL" "GETARG_A p \<le> frm" "frm \<le> GETARG_B p + 1"
      "fs_lasttarget fs < fs_pc fs" for c p
  proof -
    have e: "(fs_code fs)[nat (fs_pc fs - 1) := SETARG_B p ?t] = c @ [SETARG_B p ?t]"
      by (simp add: fs_pc_def that(1) nat_diff_distrib)
    have ok: "gen_ok G ls na (fs\<lparr>fs_code := c @ [SETARG_B p ?t]\<rparr>)"
      using assms(1) that(1) by (simp add: gen_ok_def code_ok_def fs_pc_def consts_ok_def)
    have s: "s \<le> length c"
      using start that(1,5) by (auto simp: fs_pc_def)
    have fl: "q \<le> length c" if "x < length c" "sem (c ! x) x Q q Q'" for x Q q Q'
    proof -
      have "sem (fs_code fs ! x) x Q q Q'" "x < length (fs_code fs)"
        using that \<open>fs_code fs = c @ [p]\<close> by (simp_all add: nth_append)
      then have "q = Suc x \<or> int q < fs_pc fs \<or> int q \<le> fs_lasttarget fs"
        using flow by blast
      then show ?thesis
        using that(1) \<open>fs_code fs = c @ [p]\<close> \<open>fs_lasttarget fs < fs_pc fs\<close> by (auto simp: fs_pc_def)
    qed
    have AB: "GETARG_A p \<le> GETARG_B p"
      using assms(6) that(1,2) by simp
    note m = loadnil_merges [OF that(2-4) AB assms(2-5) s fl, where R = R]
    show ?thesis
      using m e ok assms(1) that(1) by simp
  qed
  have "yields (gen_error G ls) (luaK_nil G frm n fs) ?same"
  proof (cases "fs_code fs" rule: rev_cases)
    case Nil
    then show ?thesis
      using emit blank gen_okD(4) [OF assms(1)] by (auto simp: luaK_nil_def fs_pc_def Let_def)
  next
    case (snoc c p)
    then have l: "fs_code fs ! nat (fs_pc fs - 1) = p" "fs_pc fs \<noteq> 0"
      by (simp_all add: fs_pc_def nat_diff_distrib nth_append)
    show ?thesis
      using emit merged [OF snoc] l unfolding luaK_nil_def Let_def l
      by (auto split: if_splits)
  qed
  then show ?thesis
    by (auto simp: yields_def split: outcome.splits)
qed

section \<open>Witnesses\<close>

lemma open_fs_ok: "gen_ok sample_gen sample_ls 1 open_fs"
  using open_fs_consts(1) [of "g_hash sample_gen"]
  by (simp add: gen_ok_def code_ok_def fs_pc_def MAXSTACK_def) (simp add: open_fs_def)

text \<open>The local less the constant 0: the constant goes into the table, the difference into register 1.\<close>

lemma sub_compiles: "\<exists>e fs'. gbind (gen sample_gen (Bin Sub (Local 0) (Num 0)) open_fs) (luaK_exp2nextreg sample_gen) = Ret e fs'"
proof -
  obtain t g where z: "luaK_numberK sample_gen 0 open_fs =
      Ret 0 (open_fs\<lparr>fs_h := t, fs_mem := g, fs_k := [Number 0, Nil, Nil, Nil], fs_nk := 1\<rparr>)"
    using open_zero by blast
  have gr: "luaM_growvector (g_realloc sample_gen) g 0 0 4 MAX_INT ''code size overflow'' =
      Inr (\<lparr>totalbytes = totalbytes g + 16\<rparr>, 4)" for g
    by (simp add: luaM_growvector_def luaM_growaux_def luaM_reallocv_def luaM_realloc_def sample_gen_def granting_def Let_def)
  show ?thesis
    using z gr
    by (simp add: luaK_infix_def isnumeral_def luaK_exp2RK_def luaK_exp2val_def hasjumps_def luaK_dischargevars_def
        luaK_exp2anyreg_def luaK_posfix_def codearith_def constfolding_def open_fs_def freeexp_def freereg_def Let_def
        luaK_codeABC_def luaK_code_def dischargejpc_def patchlistaux_def patchlist_loop.simps fs_pc_def lift_result_def
        luaK_exp2nextreg_def luaK_reserveregs_def luaK_checkstack_def exp2reg_def discharge2reg_def)
qed

lemma arith_compiled_correctly_witness:
  "\<exists>e fs'. gbind (gen sample_gen (Bin Sub (Local 0) (Num 0)) open_fs) (luaK_exp2nextreg sample_gen) = Ret e fs' \<and>
     (\<exists>R'. vm_run sample_gen (fs_k fs') (fs_code fs') (\<lambda>r. Number (cast_num 7)) = Some R' \<and> R' 1 = Number (cast_num 7))"
proof -
  obtain e fs' where r: "gbind (gen sample_gen (Bin Sub (Local 0) (Num 0)) open_fs) (luaK_exp2nextreg sample_gen) = Ret e fs'"
    using sub_compiles by blast
  have "plain sample_gen 1 (Bin Sub (Local 0) (Num 0))"
    using num_mag_0 by (simp add: good_def)
  moreover have "aeval sample_gen (\<lambda>r. Number (cast_num 7)) (Bin Sub (Local 0) (Num 0)) = Some (cast_num 7)"
    by (simp add: sample_gen_def)
  ultimately have "\<exists>R'. vm_run sample_gen (fs_k fs') (fs_code fs') (\<lambda>r. Number (cast_num 7)) = Some R' \<and> R' 1 = Number (cast_num 7)"
    using arith_compiled_correctly [OF open_fs_ok open_fs_consts(2), of "Bin Sub (Local 0) (Num 0)" "\<lambda>r. Number (cast_num 7)"
        "cast_num 7"] r
    by (auto simp: open_fs_def)
  then show ?thesis using r by blast
qed

text \<open>Register 1 has been set to nil; setting register 2 widens the instruction.\<close>

definition nil_fs :: FuncState where
  "nil_fs = open_fs\<lparr>fs_code := [CREATE_ABC OP_LOADNIL 1 1 0], fs_lineinfo := [1], fs_sizecode := 4, fs_sizelineinfo := 4\<rparr>"

lemma nil_fs_ok: "gen_ok sample_gen sample_ls 1 nil_fs"
  using open_fs_ok by (simp add: gen_ok_def nil_fs_def code_ok_def fs_pc_def consts_ok_def)

lemma nil_merges: "luaK_nil sample_gen 2 1 nil_fs = Ret () (nil_fs\<lparr>fs_code := [CREATE_ABC OP_LOADNIL 1 2 0]\<rparr>)"
proof -
  have "SETARG_B (CREATE_ABC OP_LOADNIL 1 1 0) 2 = CREATE_ABC OP_LOADNIL 1 2 0"
    by (rule fields_eqI) (simp_all add: SETARG_other SETARG_same CREATE_ABC_fields)
  then show ?thesis
    by (simp add: luaK_nil_def nil_fs_def open_fs_def fs_pc_def Let_def CREATE_ABC_fields)
qed

text \<open>A machine of two instructions.\<close>

definition nil_jmp :: sem where
  "nil_jmp i p R q R' \<longleftrightarrow>
     (if GET_OPCODE i = opnum OP_LOADNIL then q = Suc p \<and> R' = loadnil (GETARG_A i) (GETARG_B i) R
      else GET_OPCODE i = opnum OP_JMP \<and> int q = int p + 1 + GETARG_sBx i \<and> R' = R)"

lemma nil_jmp_law: "nil_law nil_jmp"
  by (simp add: nil_law_def nil_jmp_def)

lemma luaK_nil_equiv_witness:
  "\<forall>R'. runs nil_jmp [CREATE_ABC OP_LOADNIL 1 2 0] 0 (\<lambda>r. Boolean True) R' \<longleftrightarrow>
     runs nil_jmp [CREATE_ABC OP_LOADNIL 1 1 0, CREATE_ABC OP_LOADNIL 2 2 0] 0 (\<lambda>r. Boolean True) R'"
proof -
  let ?i = "CREATE_ABC OP_LOADNIL 1 1 0"
  have i: "GET_OPCODE ?i = opnum OP_LOADNIL" "GETARG_A ?i = 1" "GETARG_B ?i = 1"
    by (simp_all add: CREATE_ABC_fields)
  have c: "fs_code nil_fs = [?i]"
    by (simp add: nil_fs_def)
  have flow: "\<forall>p < length (fs_code nil_fs). \<forall>R q R'. nil_jmp (fs_code nil_fs ! p) p R q R' \<longrightarrow>
      q = Suc p \<or> int q < fs_pc nil_fs \<or> int q \<le> fs_lasttarget nil_fs"
    unfolding c using i(1) by (simp add: nil_jmp_def)
  have "case luaK_nil sample_gen 2 1 nil_fs of
      Ret _ fs' \<Rightarrow> gen_ok sample_gen sample_ls 1 fs' \<and>
        (\<forall>R'. runs nil_jmp (fs_code fs') 0 (\<lambda>r. Boolean True) R' \<longleftrightarrow>
           runs nil_jmp (fs_code nil_fs @ [CREATE_ABC OP_LOADNIL 2 (2 + 1 - 1) 0]) 0 (\<lambda>r. Boolean True) R')
    | Err e \<Rightarrow> gen_error sample_gen sample_ls e
    | Loop \<Rightarrow> False"
    by (rule luaK_nil_equiv [OF nil_fs_ok _ _ _ nil_jmp_law _ flow]) (simp_all add: MAXSTACK_def c i)
  then show ?thesis
    by (simp add: nil_merges c)
qed

end
