(* ===== verification/Lua_Parser.thy ===== *)
theory Lua_Parser
  imports Lua_Code
begin

text \<open>
  The parser, \<^verbatim>\<open>src/src/lparser.c\<close>: recursive descent over the lexical analyser, with the code
  generator as it goes. This theory has the states of the functions being compiled, the scopes of
  variables, and every rule of the grammar. \<open>LUA_COMPAT_VARARG\<close> is defined, as \<^verbatim>\<open>luaconf.h\<close> has it.
\<close>

section \<open>State\<close>

record BlockCnt =
  breaklist :: int
  bl_nactvar :: int
  upval :: bool
  isbreakable :: bool

text \<open>
  What \<open>FuncState\<close> and \<open>Proto\<close> hold besides the state of the code generator. Vectors that grow
  (\<open>locvars\<close>, \<open>upvalues\<close>, \<open>p\<close> of the prototype) are lists of their allocated size, the used parts are counted;
  \<open>pf_actvar\<close> is the array of indices of the active variables, \<open>pf_upvalues\<close> the descriptions of the
  upvalues in use. \<open>pf_bl\<close> is the chain of blocks, the innermost first. A closed inner function is named by
  its number among the functions closed so far.
\<close>

record PFunc =
  pf_fs :: FuncState
  pf_locvars :: "LocVar list"
  pf_nlocvars :: nat
  pf_actvar :: "nat list"
  pf_upvalues :: "(expkind \<times> int) list"
  pf_upnames :: "bytes option list"
  pf_p :: "nat option list"
  pf_np :: nat
  pf_bl :: "BlockCnt list"
  pf_is_vararg :: u8
  pf_numparams :: u8
  pf_linedefined :: int
  pf_lastlinedefined :: int
  pf_source :: bytes

text \<open>
  The functions being compiled, the innermost first (\<open>ls->fs\<close> and its chain \<open>prev\<close>), the analyser, the memory
  in use, the nesting of C calls, the functions closed so far, and how many were opened.
\<close>

record Parser =
  p_funcs :: "PFunc list"
  p_ls :: LexState
  p_mem :: mem_state
  p_ccalls :: int
  p_done :: "PFunc list"
  p_opened :: nat

text \<open>The code generator's library, the address of an interned string and of each table of constants.\<close>

record plib =
  pl_gen :: genlib
  pl_str :: "bytes \<Rightarrow> addr"
  pl_tab :: "nat \<Rightarrow> addr"

text \<open>
  A rule returns, raises an error, follows a jump list that does not end, or has used up the fuel of its
  recursion or of its loops.
\<close>

datatype 'a pres = PRet 'a Parser | PErr lua_error | PLoop | PFuel

type_synonym 'a pm = "Parser \<Rightarrow> 'a pres"

definition pbind :: "'a pm \<Rightarrow> ('a \<Rightarrow> 'b pm) \<Rightarrow> 'b pm" where
  "pbind m f P = (case m P of PRet x P \<Rightarrow> f x P | PErr e \<Rightarrow> PErr e | PLoop \<Rightarrow> PLoop | PFuel \<Rightarrow> PFuel)"

definition pthen :: "'a pm \<Rightarrow> 'b pm \<Rightarrow> 'b pm" where
  "pthen m n = pbind m (\<lambda>_. n)"

definition pget :: "(Parser \<Rightarrow> 'a) \<Rightarrow> ('a \<Rightarrow> 'b pm) \<Rightarrow> 'b pm" where
  "pget g f P = f (g P) P"

definition pmodify :: "(Parser \<Rightarrow> Parser) \<Rightarrow> unit pm" where
  "pmodify g P = PRet () (g P)"

definition pif :: "bool \<Rightarrow> unit pm \<Rightarrow> unit pm" where
  "pif b m = (if b then m else PRet ())"

definition cur :: "Parser \<Rightarrow> PFunc" where
  "cur P = hd (p_funcs P)"

definition set_cur :: "(PFunc \<Rightarrow> PFunc) \<Rightarrow> Parser \<Rightarrow> Parser" where
  "set_cur g P = P\<lparr>p_funcs := g (cur P) # tl (p_funcs P)\<rparr>"

definition fs_of :: "Parser \<Rightarrow> FuncState" where
  "fs_of P = pf_fs (cur P)"

text \<open>An operation of the code generator on the current function; analyser and memory are shared.\<close>

definition on_fs :: "(FuncState \<Rightarrow> 'a outcome) \<Rightarrow> 'a pm" where
  "on_fs m P =
     (case m ((fs_of P)\<lparr>fs_ls := p_ls P, fs_mem := p_mem P\<rparr>) of
        Ret x fs \<Rightarrow> PRet x (set_cur (\<lambda>f. f\<lparr>pf_fs := fs\<rparr>) (P\<lparr>p_mem := fs_mem fs\<rparr>))
      | Err e \<Rightarrow> PErr e
      | Loop \<Rightarrow> PLoop)"

definition pure_fs :: "(FuncState \<Rightarrow> FuncState) \<Rightarrow> unit pm" where
  "pure_fs g = pmodify (set_cur (\<lambda>f. f\<lparr>pf_fs := g (pf_fs f)\<rparr>))"

definition lift_p :: "'a result \<Rightarrow> ('a \<Rightarrow> 'b pm) \<Rightarrow> 'b pm" where
  "lift_p r f P = (case r of Inl e \<Rightarrow> PErr e | Inr x \<Rightarrow> f x P)"

text \<open>
  The analyser enters the strings it makes in the table of the current function, \<open>ls->fs->h\<close>. It has listed
  them in \<open>anchored\<close>; it makes at most one, as the last thing it does, before it returns, and this is the rest of
  \<open>luaX_newstring\<close>. After the last function is closed there is no token to anchor.
\<close>

fun anchor_all :: "plib \<Rightarrow> bytes list \<Rightarrow> unit pm" where
  "anchor_all L [] = PRet ()"
| "anchor_all L (s # ss) = pthen (on_fs (anchor_string (pl_gen L) (pl_str L s))) (anchor_all L ss)"

definition anchor_new :: "plib \<Rightarrow> unit pm" where
  "anchor_new L = pget p_funcs (\<lambda>fss. pif (fss \<noteq> []) (pget (\<lambda>P. anchored (p_ls P)) (\<lambda>ss.
     pthen (pmodify (\<lambda>P. P\<lparr>p_ls := (p_ls P)\<lparr>anchored := []\<rparr>\<rparr>)) (anchor_all L ss))))"

definition p_next :: "plib \<Rightarrow> unit pm" where
  "p_next L P = lift_p (luaX_next (g_lex (pl_gen L)) (p_ls P))
     (\<lambda>ls. pthen (pmodify (\<lambda>P. P\<lparr>p_ls := ls\<rparr>)) (anchor_new L)) P"

definition p_lookahead :: "plib \<Rightarrow> unit pm" where
  "p_lookahead L P = lift_p (luaX_lookahead (g_lex (pl_gen L)) (p_ls P))
     (\<lambda>ls. pthen (pmodify (\<lambda>P. P\<lparr>p_ls := ls\<rparr>)) (anchor_new L)) P"

definition p_newstring :: "plib \<Rightarrow> bytes \<Rightarrow> bytes pm" where
  "p_newstring L v = pget (\<lambda>P. luaX_newstring v (p_ls P)) (\<lambda>(s, ls).
     pthen (pmodify (\<lambda>P. P\<lparr>p_ls := ls\<rparr>)) (pthen (anchor_new L) (PRet s)))"

definition p_syntaxerror :: "plib \<Rightarrow> bytes \<Rightarrow> 'a pm" where
  "p_syntaxerror L msg P = lift_p (luaX_syntaxerror (g_lex (pl_gen L)) (p_ls P) msg) (\<lambda>u :: unit. \<lambda>P. PLoop) P"

definition p_lexerror :: "plib \<Rightarrow> bytes \<Rightarrow> 'a pm" where
  "p_lexerror L msg P = lift_p (luaX_lexerror (g_lex (pl_gen L)) (p_ls P) msg 0) (\<lambda>u :: unit. \<lambda>P. PLoop) P"

definition token_of :: "Parser \<Rightarrow> int" where
  "token_of P = token (tok (p_ls P))"

definition tstring :: "Parser \<Rightarrow> bytes" where
  "tstring P = (case seminfo (tok (p_ls P)) of Some (SemTS s) \<Rightarrow> s | _ \<Rightarrow> [])"

definition tnumber :: "Parser \<Rightarrow> lua_Number" where
  "tnumber P = (case seminfo (tok (p_ls P)) of Some (SemR r) \<Rightarrow> r | _ \<Rightarrow> 0)"

definition tchar :: "char \<Rightarrow> int" where
  "tchar c = of_char c"

abbreviation (input) SHRT_MAX :: int where "SHRT_MAX \<equiv> 32767"
abbreviation (input) LUAI_MAXVARS :: int where "LUAI_MAXVARS \<equiv> 200"
abbreviation (input) LUAI_MAXUPVALUES :: int where "LUAI_MAXUPVALUES \<equiv> 60"
abbreviation (input) LUAI_MAXCCALLS :: int where "LUAI_MAXCCALLS \<equiv> 200"

definition LUA_QS :: bytes where "LUA_QS = LUA_QL ''%s''"

definition hasmultret :: "expkind \<Rightarrow> bool" where
  "hasmultret k \<longleftrightarrow> k = VCALL \<or> k = VVARARG"

section \<open>Checks\<close>

definition error_expected :: "plib \<Rightarrow> int \<Rightarrow> 'a pm" where
  "error_expected L tk = p_syntaxerror L (pushf (LUA_QS @ '' expected'') [FStr (Some (luaX_token2str tk))])"

definition errorlimit :: "plib \<Rightarrow> PFunc \<Rightarrow> int \<Rightarrow> bytes \<Rightarrow> 'a pm" where
  "errorlimit L f limit what = p_lexerror L
     (if pf_linedefined f = 0
      then pushf ''main function has more than %d %s'' [FInt limit, FStr (Some what)]
      else pushf ''function at line %d has more than %d %s''
        [FInt (pf_linedefined f), FInt limit, FStr (Some what)])"

definition luaY_checklimit :: "plib \<Rightarrow> PFunc \<Rightarrow> int \<Rightarrow> int \<Rightarrow> bytes \<Rightarrow> unit pm" where
  "luaY_checklimit L f v limit what = (if v > limit then errorlimit L f limit what else PRet ())"

definition testnext :: "plib \<Rightarrow> int \<Rightarrow> bool pm" where
  "testnext L c = pget token_of (\<lambda>tk. if tk = c then pthen (p_next L) (PRet True) else PRet False)"

definition check :: "plib \<Rightarrow> int \<Rightarrow> unit pm" where
  "check L c = pget token_of (\<lambda>tk. if tk \<noteq> c then error_expected L c else PRet ())"

definition checknext :: "plib \<Rightarrow> int \<Rightarrow> unit pm" where
  "checknext L c = pthen (check L c) (p_next L)"

definition check_match :: "plib \<Rightarrow> int \<Rightarrow> int \<Rightarrow> int \<Rightarrow> unit pm" where
  "check_match L what who lin =
     pbind (testnext L what) (\<lambda>b. if b then PRet ()
       else pget (\<lambda>P. linenumber (p_ls P)) (\<lambda>line.
         if lin = line then error_expected L what
         else p_syntaxerror L (pushf (LUA_QS @ '' expected (to close '' @ LUA_QS @ '' at line %d)'')
                [FStr (Some (luaX_token2str what)), FStr (Some (luaX_token2str who)), FInt lin])))"

definition str_checkname :: "plib \<Rightarrow> bytes pm" where
  "str_checkname L = pthen (check L TK_NAME) (pget tstring (\<lambda>ts. pthen (p_next L) (PRet ts)))"

definition init_exp :: "expkind \<Rightarrow> int \<Rightarrow> expdesc" where
  "init_exp k i = \<lparr>ek = k, info = i, aux = 0, nval = 0, et = NO_JUMP, ef = NO_JUMP\<rparr>"

definition codestring :: "plib \<Rightarrow> bytes \<Rightarrow> expdesc pm" where
  "codestring L s = pbind (on_fs (luaK_stringK (pl_gen L) (pl_str L s))) (\<lambda>k. PRet (init_exp VK k))"

definition checkname :: "plib \<Rightarrow> expdesc pm" where
  "checkname L = pbind (str_checkname L) (codestring L)"

section \<open>Variables\<close>

definition p_grow :: "plib \<Rightarrow> int \<Rightarrow> int \<Rightarrow> int \<Rightarrow> int \<Rightarrow> bytes \<Rightarrow> int pm" where
  "p_grow L n sz e limit msg P =
     lift_p (luaM_growvector (g_realloc (pl_gen L)) (p_mem P) n sz e limit msg)
       (\<lambda>(g, sz). pthen (pmodify (\<lambda>P. P\<lparr>p_mem := g\<rparr>)) (PRet sz)) P"

abbreviation (input) sizeof_LocVar :: int where "sizeof_LocVar \<equiv> 16"
abbreviation (input) sizeof_ptr :: int where "sizeof_ptr \<equiv> 8"

definition null_locvar :: LocVar where
  "null_locvar = \<lparr>varname = None, startpc = 0, endpc = 0\<rparr>"

text \<open>The barriers of the stores into the prototype are the collector's.\<close>

definition registerlocalvar :: "plib \<Rightarrow> bytes \<Rightarrow> nat pm" where
  "registerlocalvar L name = pget cur (\<lambda>f.
     let n = pf_nlocvars f; oldsize = length (pf_locvars f) in
     pbind (p_grow L (int n) (int oldsize) sizeof_LocVar SHRT_MAX ''too many local variables'') (\<lambda>sz.
     let vs = pf_locvars f @ replicate (nat sz - oldsize) null_locvar in
     pthen (pmodify (set_cur (\<lambda>f. f\<lparr>pf_locvars := vs[n := (vs ! n)\<lparr>varname := Some name\<rparr>], pf_nlocvars := n + 1\<rparr>)))
       (PRet n)))"

definition new_localvar :: "plib \<Rightarrow> bytes \<Rightarrow> int \<Rightarrow> unit pm" where
  "new_localvar L name n = pget cur (\<lambda>f.
     let i = fs_nactvar (pf_fs f) + n in
     pthen (luaY_checklimit L f (i + 1) LUAI_MAXVARS ''local variables'')
       (pbind (registerlocalvar L name) (\<lambda>r.
         pmodify (set_cur (\<lambda>f. f\<lparr>pf_actvar := (pf_actvar f)[nat i := r mod 65536]\<rparr>)))))"

definition new_localvarliteral :: "plib \<Rightarrow> bytes \<Rightarrow> int \<Rightarrow> unit pm" where
  "new_localvarliteral L v n = pbind (p_newstring L v) (\<lambda>s. new_localvar L s n)"

definition getlocvar :: "PFunc \<Rightarrow> int \<Rightarrow> LocVar" where
  "getlocvar f i = pf_locvars f ! (pf_actvar f ! nat i)"

definition set_locvar :: "int \<Rightarrow> (LocVar \<Rightarrow> LocVar) \<Rightarrow> PFunc \<Rightarrow> PFunc" where
  "set_locvar i g f = (let j = pf_actvar f ! nat i in f\<lparr>pf_locvars := (pf_locvars f)[j := g (pf_locvars f ! j)]\<rparr>)"

fun start_vars :: "nat \<Rightarrow> PFunc \<Rightarrow> PFunc" where
  "start_vars 0 f = f"
| "start_vars (Suc n) f =
     start_vars n (set_locvar (fs_nactvar (pf_fs f) - int (Suc n)) (\<lambda>v. v\<lparr>startpc := fs_pc (pf_fs f)\<rparr>) f)"

definition adjustlocalvars :: "int \<Rightarrow> PFunc \<Rightarrow> PFunc" where
  "adjustlocalvars nvars f =
     start_vars (nat nvars) (f\<lparr>pf_fs := (pf_fs f)\<lparr>fs_nactvar := (fs_nactvar (pf_fs f) + nvars) mod 256\<rparr>\<rparr>)"

fun end_vars :: "nat \<Rightarrow> PFunc \<Rightarrow> PFunc" where
  "end_vars 0 f = f"
| "end_vars (Suc n) f =
     (let f = f\<lparr>pf_fs := (pf_fs f)\<lparr>fs_nactvar := fs_nactvar (pf_fs f) - 1\<rparr>\<rparr>
      in end_vars n (set_locvar (fs_nactvar (pf_fs f)) (\<lambda>v. v\<lparr>endpc := fs_pc (pf_fs f)\<rparr>) f))"

definition removevars :: "int \<Rightarrow> PFunc \<Rightarrow> PFunc" where
  "removevars tolevel f = end_vars (nat (fs_nactvar (pf_fs f) - tolevel)) f"

text \<open>The functions of the chain \<open>fs\<close>, \<open>fs->prev\<close> and so on are a list, the innermost first.\<close>

fun search_from :: "PFunc \<Rightarrow> bytes \<Rightarrow> nat \<Rightarrow> int" where
  "search_from f n 0 = -1"
| "search_from f n (Suc i) =
     (if varname (getlocvar f (int i)) = Some n then int i else search_from f n i)"

definition searchvar :: "PFunc \<Rightarrow> bytes \<Rightarrow> int" where
  "searchvar f n = search_from f n (nat (fs_nactvar (pf_fs f)))"

fun mark_block :: "int \<Rightarrow> BlockCnt list \<Rightarrow> BlockCnt list" where
  "mark_block lv [] = []"
| "mark_block lv (bl # bls) =
     (if bl_nactvar bl > lv then bl # mark_block lv bls else bl\<lparr>upval := True\<rparr> # bls)"

definition markupval :: "int \<Rightarrow> PFunc \<Rightarrow> PFunc" where
  "markupval lv f = f\<lparr>pf_bl := mark_block lv (pf_bl f)\<rparr>"

fun find_upvalue :: "(expkind \<times> int) list \<Rightarrow> nat \<Rightarrow> expkind \<Rightarrow> int \<Rightarrow> nat option" where
  "find_upvalue [] i k x = None"
| "find_upvalue (u # us) i k x = (if fst u = k \<and> snd u = x then Some i else find_upvalue us (i + 1) k x)"

text \<open>The result of an operation on the functions of the chain, which may raise an error.\<close>

type_synonym 'a chain = "('a \<times> PFunc list \<times> mem_state) result"

definition limit_error :: "plib \<Rightarrow> LexState \<Rightarrow> PFunc \<Rightarrow> int \<Rightarrow> bytes \<Rightarrow> 'a result" where
  "limit_error L ls f limit what = luaX_lexerror (g_lex (pl_gen L)) ls
     (if pf_linedefined f = 0
      then pushf ''main function has more than %d %s'' [FInt limit, FStr (Some what)]
      else pushf ''function at line %d has more than %d %s''
        [FInt (pf_linedefined f), FInt limit, FStr (Some what)]) 0"

definition indexupvalue ::
  "plib \<Rightarrow> LexState \<Rightarrow> mem_state \<Rightarrow> PFunc \<Rightarrow> bytes \<Rightarrow> expkind \<Rightarrow> int \<Rightarrow> (nat \<times> PFunc \<times> mem_state) result" where
  "indexupvalue L ls g f name k x =
     (case find_upvalue (pf_upvalues f) 0 k x of
        Some i \<Rightarrow> Inr (i, f, g)
      | None \<Rightarrow>
          let nups = length (pf_upvalues f); oldsize = length (pf_upnames f) in
          if int nups + 1 > LUAI_MAXUPVALUES then limit_error L ls f LUAI_MAXUPVALUES ''upvalues''
          else bind (luaM_growvector (g_realloc (pl_gen L)) g (int nups) (int oldsize) sizeof_ptr MAX_INT []) (\<lambda>(g, sz).
            let ns = pf_upnames f @ replicate (nat sz - oldsize) None
            in Inr (nups, f\<lparr>pf_upnames := ns[nups := Some name], pf_upvalues := pf_upvalues f @ [(k, x mod 256)]\<rparr>, g)))"

fun singlevaraux ::
  "plib \<Rightarrow> LexState \<Rightarrow> mem_state \<Rightarrow> PFunc list \<Rightarrow> bytes \<Rightarrow> bool \<Rightarrow> (expkind \<times> int) chain" where
  "singlevaraux L ls g [] n base = Inr ((VGLOBAL, NO_REG), [], g)"
| "singlevaraux L ls g (f # fss) n base =
     (let v = searchvar f n in
      if v \<ge> 0 then Inr ((VLOCAL, v), (if base then f else markupval v f) # fss, g)
      else bind (singlevaraux L ls g fss n False) (\<lambda>((k, x), fss, g).
        if k = VGLOBAL then Inr ((VGLOBAL, x), f # fss, g)
        else bind (indexupvalue L ls g f n k x) (\<lambda>(i, f, g). Inr ((VUPVAL, int i), f # fss, g))))"

definition resolve_name :: "plib \<Rightarrow> bytes \<Rightarrow> (expkind \<times> int) pm" where
  "resolve_name L n P = lift_p (singlevaraux L (p_ls P) (p_mem P) (p_funcs P) n True)
     (\<lambda>(r, fss, g). pthen (pmodify (\<lambda>P. P\<lparr>p_funcs := fss, p_mem := g\<rparr>)) (PRet r)) P"

definition singlevar :: "plib \<Rightarrow> expdesc pm" where
  "singlevar L = pbind (str_checkname L) (\<lambda>name. pbind (resolve_name L name) (\<lambda>(k, x).
     if k = VGLOBAL
     then pbind (on_fs (luaK_stringK (pl_gen L) (pl_str L name))) (\<lambda>s. PRet (init_exp VGLOBAL s))
     else PRet (init_exp k x)))"

definition adjust_assign :: "plib \<Rightarrow> int \<Rightarrow> int \<Rightarrow> expdesc \<Rightarrow> unit pm" where
  "adjust_assign L nvars nexps e =
     (let G = pl_gen L; extra = nvars - nexps in
      if hasmultret (ek e)
      then let extra = max (extra + 1) 0
           in pthen (on_fs (luaK_setreturns G e extra)) (pif (extra > 1) (on_fs (luaK_reserveregs G (extra - 1))))
      else pthen (if ek e \<noteq> VVOID then pthen (on_fs (luaK_exp2nextreg G e)) (PRet ()) else PRet ())
             (pif (extra > 0) (pget fs_of (\<lambda>fs.
               pthen (on_fs (luaK_reserveregs G extra)) (on_fs (luaK_nil G (fs_freereg fs) extra))))))"

definition enterlevel :: "plib \<Rightarrow> unit pm" where
  "enterlevel L = pthen (pmodify (\<lambda>P. P\<lparr>p_ccalls := p_ccalls P + 1\<rparr>)) (pget p_ccalls (\<lambda>n.
     if n > LUAI_MAXCCALLS then p_lexerror L ''chunk has too many syntax levels'' else PRet ()))"

definition leavelevel :: "unit pm" where
  "leavelevel = pmodify (\<lambda>P. P\<lparr>p_ccalls := p_ccalls P - 1\<rparr>)"

definition enterblock :: "bool \<Rightarrow> PFunc \<Rightarrow> PFunc" where
  "enterblock brk f = f\<lparr>pf_bl :=
     \<lparr>breaklist = NO_JUMP, bl_nactvar = fs_nactvar (pf_fs f), upval = False, isbreakable = brk\<rparr> # pf_bl f\<rparr>"

definition leaveblock :: "plib \<Rightarrow> unit pm" where
  "leaveblock L = pget (\<lambda>P. hd (pf_bl (cur P))) (\<lambda>bl.
     pthen (pmodify (set_cur (\<lambda>f. removevars (bl_nactvar bl) (f\<lparr>pf_bl := tl (pf_bl f)\<rparr>))))
     (pthen (pif (upval bl) (pthen (on_fs (luaK_codeABC (pl_gen L) OP_CLOSE (bl_nactvar bl) 0 0)) (PRet ())))
     (pthen (pure_fs (\<lambda>fs. fs\<lparr>fs_freereg := fs_nactvar fs\<rparr>))
            (on_fs (luaK_patchtohere (pl_gen L) (breaklist bl))))))"

end
