(* ===== verification/Lua_Parser_Scope.thy ===== *)
theory Lua_Parser_Scope
  imports Lua_Parser Lua_Code_Jumps
begin

text \<open>
  The scopes of \<^verbatim>\<open>src/src/lparser.c\<close>: a name is resolved to the variable that lexical scoping says, in
  whatever function around it that variable lives.
\<close>

section \<open>What a name means\<close>

text \<open>
  The active local variable of a function with a given name that was declared last, and the nearest
  function of the chain that has one: how many functions out, and its register.
\<close>

definition is_local :: "PFunc \<Rightarrow> bytes \<Rightarrow> int \<Rightarrow> bool" where
  "is_local f n r \<longleftrightarrow> 0 \<le> r \<and> r < fs_nactvar (pf_fs f) \<and> varname (getlocvar f r) = Some n \<and>
     (\<forall>r'. r < r' \<longrightarrow> r' < fs_nactvar (pf_fs f) \<longrightarrow> varname (getlocvar f r') \<noteq> Some n)"

inductive denotes :: "PFunc list \<Rightarrow> bytes \<Rightarrow> nat \<Rightarrow> int \<Rightarrow> bool" where
  here: "is_local f n r \<Longrightarrow> denotes (f # fss) n 0 r"
| outer: "\<nexists>r. is_local f n r \<Longrightarrow> denotes fss n d r \<Longrightarrow> denotes (f # fss) n (Suc d) r"

inductive_cases denotes_NilE: "denotes [] n d r"
inductive_cases denotes_ConsE: "denotes (f # fss) n d r"

text \<open>
  What a descriptor means when the function runs: a register of its own, or an upvalue, which the
  closure took from a register or an upvalue of the function around it (the instructions behind
  \<open>OP_CLOSURE\<close> that \<open>pushclosure\<close> writes).
\<close>

inductive refers :: "PFunc list \<Rightarrow> expkind \<Rightarrow> int \<Rightarrow> nat \<Rightarrow> int \<Rightarrow> bool" where
  own: "refers (f # fss) VLOCAL r 0 r"
| captured: "0 \<le> i \<Longrightarrow> i < int (length (pf_upvalues f)) \<Longrightarrow> pf_upvalues f ! nat i = (k, x) \<Longrightarrow> refers fss k x d r \<Longrightarrow>
    refers (f # fss) VUPVAL i (Suc d) r"

text \<open>The block in which a variable was declared knows that the variable is captured.\<close>

definition block_knows :: "PFunc \<Rightarrow> int \<Rightarrow> bool" where
  "block_knows f r \<longleftrightarrow> (case find (\<lambda>bl. bl_nactvar bl \<le> r) (pf_bl f) of None \<Rightarrow> True | Some bl \<Rightarrow> upval bl)"

section \<open>Searching\<close>

lemma search_from_spec:
  "search_from f n m = r \<Longrightarrow>
     (r = -1 \<and> (\<forall>i. 0 \<le> i \<longrightarrow> i < int m \<longrightarrow> varname (getlocvar f i) \<noteq> Some n)) \<or>
     (0 \<le> r \<and> r < int m \<and> varname (getlocvar f r) = Some n \<and>
       (\<forall>i. r < i \<longrightarrow> i < int m \<longrightarrow> varname (getlocvar f i) \<noteq> Some n))"
proof (induction m)
  case (Suc m)
  have less: "i < int (Suc m) \<longleftrightarrow> i < int m \<or> i = int m" for i
    by auto
  show ?case
  proof (cases "varname (getlocvar f (int m)) = Some n")
    case True
    then show ?thesis using Suc.prems by auto
  next
    case False
    then show ?thesis using Suc.IH Suc.prems unfolding less by auto
  qed
qed auto

lemma searchvar_local: "0 \<le> searchvar f n \<Longrightarrow> is_local f n (searchvar f n)"
  using search_from_spec [of f n "nat (fs_nactvar (pf_fs f))" "searchvar f n"]
  by (auto simp: searchvar_def is_local_def split: if_splits)

lemma searchvar_none: "\<not> 0 \<le> searchvar f n \<Longrightarrow> \<nexists>r. is_local f n r"
  using search_from_spec [of f n "nat (fs_nactvar (pf_fs f))" "searchvar f n"]
  by (auto simp: searchvar_def is_local_def)

section \<open>What stays the same\<close>

text \<open>The scopes of a function, and the upvalues it has, do not change; it may get more upvalues.\<close>

definition widens :: "PFunc \<Rightarrow> PFunc \<Rightarrow> bool" where
  "widens f f' \<longleftrightarrow> pf_fs f' = pf_fs f \<and> pf_locvars f' = pf_locvars f \<and> pf_actvar f' = pf_actvar f \<and>
     (\<exists>us. pf_upvalues f' = pf_upvalues f @ us) \<and> (\<forall>r. block_knows f r \<longrightarrow> block_knows f' r)"

definition roomy :: "PFunc \<Rightarrow> bool" where
  "roomy f \<longleftrightarrow> fs_nactvar (pf_fs f) \<le> 255 \<and> int (length (pf_upvalues f)) \<le> LUAI_MAXUPVALUES"

lemma widens_refl [simp]: "widens f f"
  by (simp add: widens_def)

lemma widens_local: "widens f f' \<Longrightarrow> is_local f' n r \<longleftrightarrow> is_local f n r"
  by (simp add: widens_def is_local_def getlocvar_def)

lemma widens_refers:
  "refers fss k x d r \<Longrightarrow> list_all2 widens fss fss' \<Longrightarrow> refers fss' k x d r"
proof (induction arbitrary: fss' rule: refers.induct)
  case (own f fss r)
  then show ?case by (auto simp: list_all2_Cons1 intro: refers.own)
next
  case (captured i f k x fss d r)
  obtain f' gss where f': "fss' = f' # gss" "widens f f'" "list_all2 widens fss gss"
    using captured.prems by (auto simp: list_all2_Cons1)
  have "pf_upvalues f' ! nat i = (k, x)" "i < int (length (pf_upvalues f'))"
    using f'(2) captured.hyps by (auto simp: widens_def nth_append)
  then show ?case
    unfolding f'(1) using captured.hyps(1) captured.IH [OF f'(3)] by (auto intro: refers.captured)
qed

lemma widens_denotes: "list_all2 widens fss fss' \<Longrightarrow> denotes fss' m d r \<longleftrightarrow> denotes fss m d r"
proof (induction fss fss' arbitrary: d rule: list_all2_induct)
  case (Cons f fss f' fss')
  show ?case
    using widens_local [OF Cons.hyps(1)] Cons.IH
    by (auto elim!: denotes_ConsE intro: denotes.here denotes.outer)
qed simp

lemma mark_block_knows:
  assumes "case find (\<lambda>bl. bl_nactvar bl \<le> r) bls of None \<Rightarrow> True | Some bl \<Rightarrow> upval bl"
  shows "case find (\<lambda>bl. bl_nactvar bl \<le> r) (mark_block lv bls) of None \<Rightarrow> True | Some bl \<Rightarrow> upval bl"
  using assms by (induction bls) (auto split: if_splits)

lemma mark_block_level:
  "case find (\<lambda>bl. bl_nactvar bl \<le> lv) (mark_block lv bls) of None \<Rightarrow> True | Some bl \<Rightarrow> upval bl"
  by (induction bls) auto

lemma markupval_widens: "widens f (markupval r f)" "block_knows (markupval r f) r"
  using mark_block_knows [of _ "pf_bl f" r] mark_block_level [of r "pf_bl f"]
  by (auto simp: widens_def markupval_def block_knows_def)

lemma find_upvalue_Some: "find_upvalue us i k x = Some j \<Longrightarrow> i \<le> j \<and> j - i < length us \<and> us ! (j - i) = (k, x)"
proof (induction us arbitrary: i)
  case (Cons u us)
  show ?case
  proof (cases "fst u = k \<and> snd u = x")
    case False
    then have "find_upvalue us (i + 1) k x = Some j" using Cons.prems by auto
    note ih = Cons.IH [OF this]
    then have "j - i = Suc (j - (i + 1))" by linarith
    then show ?thesis using ih by simp
  qed (use Cons.prems in auto)
qed simp

lemma indexupvalue_result:
  assumes "indexupvalue L ls g f n k x = Inr (i, f', g')" "roomy f" "0 \<le> x" "x < 256"
  shows "widens f f' \<and> roomy f' \<and> i < length (pf_upvalues f') \<and> pf_upvalues f' ! i = (k, x)"
proof (cases "find_upvalue (pf_upvalues f) 0 k x")
  case (Some j)
  then show ?thesis
    using assms find_upvalue_Some [OF Some] by (auto simp: indexupvalue_def)
next
  case None
  then have "int (length (pf_upvalues f)) + 1 \<le> 60 \<and> i = length (pf_upvalues f) \<and>
      pf_upvalues f' = pf_upvalues f @ [(k, x mod 256)] \<and> pf_fs f' = pf_fs f \<and> pf_locvars f' = pf_locvars f \<and>
      pf_actvar f' = pf_actvar f \<and> pf_bl f' = pf_bl f"
    using assms(1) lexerror_neq_Inr(1)
    by (auto simp: indexupvalue_def limit_error_def Let_def bind_Inr_iff split: if_splits)
  then show ?thesis
    using assms(2-4) by (simp add: widens_def roomy_def block_knows_def)
qed

section \<open>Properties\<close>

lemma singlevaraux_result:
  assumes "singlevaraux L ls g fss n base = Inr ((k, x), fss', g')" "\<forall>f \<in> set fss. roomy f"
  shows "list_all2 widens fss fss' \<and> (\<forall>f \<in> set fss'. roomy f) \<and>
    (if k = VGLOBAL then \<nexists>d r. denotes fss n d r
     else 0 \<le> x \<and> x < 256 \<and> (\<exists>d r. denotes fss n d r \<and> refers fss' k x d r \<and> (0 < d \<or> \<not> base \<longrightarrow> block_knows (fss' ! d) r)))"
  using assms
proof (induction fss arbitrary: k x fss' g' base)
  case Nil
  then show ?case by (auto elim: denotes_NilE)
next
  case (Cons f fss)
  have ff: "roomy f" "\<forall>f \<in> set fss. roomy f" using Cons.prems(2) by auto
  show ?case
  proof (cases "0 \<le> searchvar f n")
    case True
    then have e: "k = VLOCAL" "x = searchvar f n" "fss' = (if base then f else markupval x f) # fss"
      using Cons.prems(1) by (auto simp: Let_def split: if_splits)
    have l: "is_local f n x" using searchvar_local [OF True] e(2) by simp
    then have "0 \<le> x" "x < 256" using ff(1) by (auto simp: is_local_def roomy_def)
    moreover have "denotes (f # fss) n 0 x" by (rule denotes.here [OF l])
    moreover have "roomy (markupval x f)" using ff(1) by (simp add: roomy_def markupval_def)
    moreover have "list_all2 widens fss fss" by (simp add: list_all2_refl)
    moreover have "refers fss' VLOCAL x 0 x"
      unfolding e(3) by (rule refers.own)
    moreover have "\<not> base \<longrightarrow> block_knows (fss' ! 0) x" "list_all2 widens (f # fss) fss'"
      using e(3) markupval_widens [where f = f and r = x] by (auto simp: list_all2_refl)
    moreover have "\<forall>f \<in> set fss'. roomy f"
      using e(3) ff \<open>roomy (markupval x f)\<close> by auto
    ultimately show ?thesis
      using e(1) by (auto intro!: exI [of _ 0] exI [of _ x])
  next
    case False
    note no = searchvar_none [OF False]
    obtain k1 x1 gss g1 where rec: "singlevaraux L ls g fss n False = Inr ((k1, x1), gss, g1)"
      and c: "(if k1 = VGLOBAL then Inr ((VGLOBAL, x1), f # gss, g1)
        else bind (indexupvalue L ls g1 f n k1 x1) (\<lambda>(i, f, g). Inr ((VUPVAL, int i), f # gss, g))) = Inr ((k, x), fss', g')"
      using Cons.prems(1) False by (auto simp: Let_def bind_Inr_iff)
    note ih = Cons.IH [OF rec ff(2)]
    show ?thesis
    proof (cases "k1 = VGLOBAL")
      case True
      then have "\<nexists>d r. denotes (f # fss) n d r"
        using ih no by (auto elim: denotes_ConsE)
      then show ?thesis using c True ih ff(1) by auto
    next
      case nk: False
      obtain i f' where i: "indexupvalue L ls g1 f n k1 x1 = Inr (i, f', g')" "k = VUPVAL" "x = int i" "fss' = f' # gss"
        using c nk by (auto simp: bind_Inr_iff)
      obtain d r where d: "0 \<le> x1" "x1 < 256" "denotes fss n d r" "refers gss k1 x1 d r" "block_knows (gss ! d) r"
        using ih nk by auto
      note u = indexupvalue_result [OF i(1) ff(1) d(1,2)]
      have "refers (f' # gss) VUPVAL (int i) (Suc d) r"
        using u d(4) by (intro refers.captured) auto
      moreover have "denotes (f # fss) n (Suc d) r"
        by (rule denotes.outer [OF no d(3)])
      moreover have "int i < 256" using u by (auto simp: roomy_def)
      ultimately show ?thesis
        using i ih u d(5) nk by (auto intro!: exI [of _ "Suc d"] exI [of _ r])
    qed
  qed
qed

text \<open>
  C33: a name in the innermost function is resolved by lexical scoping. When no function of the chain has
  an active local of that name it is global. Otherwise the descriptor, followed through the upvalues of the
  functions in between, leads to the last declared active local of the nearest function that has
  one; if that is an outer function, the block of the variable is marked, so that leaving it closes
  the variable. Upvalues that existed before still mean the same variable, and every scope is as it was.
\<close>

theorem names_resolve_lexically:
  assumes "singlevaraux L ls g fss n True = Inr ((k, x), fss', g')" "\<forall>f \<in> set fss. roomy f"
  shows "(if k = VGLOBAL then \<nexists>d r. denotes fss n d r
      else \<exists>d r. denotes fss n d r \<and> refers fss' k x d r \<and> (0 < d \<longrightarrow> block_knows (fss' ! d) r)) \<and>
    (\<forall>k0 x0 d r. refers fss k0 x0 d r \<longrightarrow> refers fss' k0 x0 d r) \<and>
    (\<forall>m d r. denotes fss' m d r \<longleftrightarrow> denotes fss m d r)"
  using singlevaraux_result [OF assms] widens_refers widens_denotes by (auto split: if_splits)

text \<open>A function without locals inside one with the local \<open>x\<close>, declared in its outermost block.\<close>

definition sample_plib :: plib where
  "sample_plib = \<lparr>pl_gen = sample_gen, pl_str = (\<lambda>s. fold (\<lambda>c n. n * 256 + of_char c) s 0), pl_tab = of_nat\<rparr>"

definition outer_func :: PFunc where
  "outer_func = \<lparr>pf_fs = open_fs, pf_locvars = [\<lparr>varname = Some ''x'', startpc = 0, endpc = 0\<rparr>], pf_nlocvars = 1,
     pf_actvar = [0], pf_upvalues = [], pf_upnames = [], pf_p = [], pf_np = 0,
     pf_bl = [\<lparr>breaklist = NO_JUMP, bl_nactvar = 0, upval = False, isbreakable = False\<rparr>], pf_is_vararg = 0,
     pf_numparams = 0, pf_linedefined = 0, pf_lastlinedefined = 0, pf_source = []\<rparr>"

definition inner_func :: PFunc where
  "inner_func = outer_func\<lparr>pf_fs := open_fs\<lparr>fs_nactvar := 0\<rparr>, pf_bl := []\<rparr>"

lemma inner_resolves:
  "\<exists>fss' g'. singlevaraux sample_plib sample_ls \<lparr>totalbytes = 0\<rparr> [inner_func, outer_func] ''x'' True = Inr ((VUPVAL, 0), fss', g')"
  by (simp add: searchvar_def inner_func_def outer_func_def open_fs_def getlocvar_def indexupvalue_def Let_def
      luaM_growvector_def luaM_growaux_def luaM_reallocv_def luaM_realloc_def sample_plib_def sample_gen_def granting_def)

lemma names_resolve_lexically_witness:
  "\<exists>fss' g'. singlevaraux sample_plib sample_ls \<lparr>totalbytes = 0\<rparr> [inner_func, outer_func] ''x'' True = Inr ((VUPVAL, 0), fss', g') \<and>
     (\<exists>d r. denotes [inner_func, outer_func] ''x'' d r \<and> refers fss' VUPVAL 0 d r \<and> (0 < d \<longrightarrow> block_knows (fss' ! d) r))"
proof -
  obtain fss' g' where r: "singlevaraux sample_plib sample_ls \<lparr>totalbytes = 0\<rparr> [inner_func, outer_func] ''x'' True = Inr ((VUPVAL, 0), fss', g')"
    using inner_resolves by blast
  have "\<forall>f \<in> set [inner_func, outer_func]. roomy f"
    by (simp add: roomy_def inner_func_def outer_func_def open_fs_def)
  then show ?thesis
    using names_resolve_lexically [OF r] r by auto
qed

end
