(* ===== verification/Lua_Grammar.thy ===== *)
theory Lua_Grammar
  imports Lua_Parser
begin

text \<open>
  The grammar rules of \<^verbatim>\<open>src/src/lparser.c\<close>. The rules for expressions and for chunks are called by the
  others through a record of callbacks; the recursion is tied at the end with fuel, which also
  bounds the loops.
\<close>

section \<open>Reserved words\<close>

definition TK_AND :: int where "TK_AND = 257"
definition TK_BREAK :: int where "TK_BREAK = 258"
definition TK_DO :: int where "TK_DO = 259"
definition TK_ELSE :: int where "TK_ELSE = 260"
definition TK_ELSEIF :: int where "TK_ELSEIF = 261"
definition TK_END :: int where "TK_END = 262"
definition TK_FALSE :: int where "TK_FALSE = 263"
definition TK_FOR :: int where "TK_FOR = 264"
definition TK_FUNCTION :: int where "TK_FUNCTION = 265"
definition TK_IF :: int where "TK_IF = 266"
definition TK_IN :: int where "TK_IN = 267"
definition TK_LOCAL :: int where "TK_LOCAL = 268"
definition TK_NIL :: int where "TK_NIL = 269"
definition TK_NOT :: int where "TK_NOT = 270"
definition TK_OR :: int where "TK_OR = 271"
definition TK_REPEAT :: int where "TK_REPEAT = 272"
definition TK_RETURN :: int where "TK_RETURN = 273"
definition TK_THEN :: int where "TK_THEN = 274"
definition TK_TRUE :: int where "TK_TRUE = 275"
definition TK_UNTIL :: int where "TK_UNTIL = 276"
definition TK_WHILE :: int where "TK_WHILE = 277"

lemmas reserved_defs = TK_AND_def TK_BREAK_def TK_DO_def TK_ELSE_def TK_ELSEIF_def TK_END_def TK_FALSE_def
  TK_FOR_def TK_FUNCTION_def TK_IF_def TK_IN_def TK_LOCAL_def TK_NIL_def TK_NOT_def TK_OR_def TK_REPEAT_def
  TK_RETURN_def TK_THEN_def TK_TRUE_def TK_UNTIL_def TK_WHILE_def

record pcalls =
  c_fuel :: nat
  c_subexpr :: "nat \<Rightarrow> (BinOpr \<times> expdesc) pm"
  c_chunk :: "unit pm"

definition expr :: "pcalls \<Rightarrow> expdesc pm" where
  "expr X = pbind (c_subexpr X 0) (\<lambda>(_, e). PRet e)"

definition drop_result :: "'a pm \<Rightarrow> unit pm" where
  "drop_result m = pthen m (PRet ())"

definition line_of :: "Parser \<Rightarrow> int" where
  "line_of P = linenumber (p_ls P)"

section \<open>Functions\<close>

definition shrink :: "plib \<Rightarrow> int \<Rightarrow> int \<Rightarrow> int \<Rightarrow> unit pm" where
  "shrink L oldn n e P =
     lift_p (luaM_reallocv (g_realloc (pl_gen L)) (p_mem P) oldn n e) (\<lambda>g. pmodify (\<lambda>P. P\<lparr>p_mem := g\<rparr>)) P"

fun push_upvalues :: "plib \<Rightarrow> (expkind \<times> int) list \<Rightarrow> unit pm" where
  "push_upvalues L [] = PRet ()"
| "push_upvalues L (u # us) =
     pthen (on_fs (luaK_codeABC (pl_gen L) (if fst u = VLOCAL then OP_MOVE else OP_GETUPVAL) 0 (snd u) 0)) (push_upvalues L us)"

definition pushclosure :: "plib \<Rightarrow> nat \<Rightarrow> expdesc pm" where
  "pushclosure L d = pget cur (\<lambda>f. pget (\<lambda>P. pf_upvalues (p_done P ! d)) (\<lambda>us.
     let oldsize = length (pf_p f); np = pf_np f in
     pbind (p_grow L (int np) (int oldsize) sizeof_ptr MAXARG_Bx ''constant table overflow'') (\<lambda>sz.
     let ps = pf_p f @ replicate (nat sz - oldsize) None in
     pthen (pmodify (set_cur (\<lambda>f. f\<lparr>pf_p := ps[np := Some d], pf_np := np + 1\<rparr>)))
     (pbind (on_fs (luaK_codeABx (pl_gen L) OP_CLOSURE 0 (int np))) (\<lambda>pc.
       pthen (push_upvalues L us) (PRet (init_exp VRELOCABLE pc)))))))"

definition new_func :: "Table \<Rightarrow> addr \<Rightarrow> Parser \<Rightarrow> PFunc" where
  "new_func t a P = \<lparr>pf_fs = \<lparr>fs_code = [], fs_lineinfo = [], fs_sizecode = 0, fs_sizelineinfo = 0, fs_k = [], fs_nk = 0,
       fs_maxstacksize = 2, fs_h = t, fs_haddr = a, fs_lasttarget = -1, fs_jpc = NO_JUMP, fs_freereg = 0,
       fs_nactvar = 0, fs_ls = p_ls P, fs_mem = p_mem P\<rparr>,
     pf_locvars = [], pf_nlocvars = 0, pf_actvar = replicate 200 0, pf_upvalues = [], pf_upnames = [], pf_p = [],
     pf_np = 0, pf_bl = [], pf_is_vararg = 0, pf_numparams = 0, pf_linedefined = 0, pf_lastlinedefined = 0,
     pf_source = lsource (p_ls P)\<rparr>"

definition open_func :: "plib \<Rightarrow> unit pm" where
  "open_func L P =
     (case luaH_new (g_realloc (pl_gen L)) 0 0 of
        None \<Rightarrow> PLoop
      | Some (t, Inl e) \<Rightarrow> PErr e
      | Some (t, Inr _) \<Rightarrow>
          PRet () (P\<lparr>p_funcs := new_func t (pl_tab L (p_opened P)) P # p_funcs P, p_opened := p_opened P + 1\<rparr>))"

definition anchor_token :: "plib \<Rightarrow> unit pm" where
  "anchor_token L = pget token_of (\<lambda>tk. pif (tk = TK_NAME \<or> tk = TK_STRING)
     (pget tstring (\<lambda>ts. drop_result (p_newstring L ts))))"

text \<open>The number of the function that is closed.\<close>

definition close_func :: "plib \<Rightarrow> nat pm" where
  "close_func L =
     pthen (pmodify (set_cur (removevars 0)))
     (pthen (on_fs (luaK_ret (pl_gen L) 0 0))
     (pget cur (\<lambda>f. let fs = pf_fs f; pc = fs_pc fs; nk = fs_nk fs; np = pf_np f; nl = pf_nlocvars f;
         nups = length (pf_upvalues f) in
       pthen (shrink L (fs_sizecode fs) pc sizeof_Instruction)
       (pthen (shrink L (fs_sizelineinfo fs) pc sizeof_int)
       (pthen (shrink L (int (length (fs_k fs))) (int nk) sizeof_TValue)
       (pthen (shrink L (int (length (pf_p f))) (int np) sizeof_ptr)
       (pthen (shrink L (int (length (pf_locvars f))) (int nl) sizeof_LocVar)
       (pthen (shrink L (int (length (pf_upnames f))) (int nups) sizeof_ptr)
       (pget (\<lambda>P. length (p_done P)) (\<lambda>d.
        pthen (pmodify (\<lambda>P. P\<lparr>p_funcs := tl (p_funcs P),
          p_done := p_done P @ [f\<lparr>pf_fs := fs\<lparr>fs_sizecode := pc, fs_sizelineinfo := pc, fs_k := take nk (fs_k fs)\<rparr>,
            pf_p := take np (pf_p f), pf_locvars := take nl (pf_locvars f), pf_upnames := take nups (pf_upnames f)\<rparr>]\<rparr>))
        (pthen (anchor_token L) (PRet d))))))))))))"

fun parlist_loop :: "nat \<Rightarrow> plib \<Rightarrow> int \<Rightarrow> int pm" where
  "parlist_loop 0 L nparams = (\<lambda>P. PFuel)"
| "parlist_loop (Suc n) L nparams =
     pget token_of (\<lambda>tk.
     pbind (if tk = TK_NAME
            then pbind (str_checkname L) (\<lambda>s. pthen (new_localvar L s nparams) (PRet (nparams + 1)))
            else if tk = TK_DOTS
            then pthen (p_next L)
                 (pthen (new_localvarliteral L ''arg'' nparams)
                 (pthen (pmodify (set_cur (\<lambda>f. f\<lparr>pf_is_vararg := (VARARG_HASARG OR VARARG_NEEDSARG) OR VARARG_ISVARARG\<rparr>)))
                 (PRet (nparams + 1))))
            else p_syntaxerror L (''<name> or '' @ LUA_QL ''...'' @ '' expected''))
       (\<lambda>nparams. pget (\<lambda>P. pf_is_vararg (cur P)) (\<lambda>v.
         if v \<noteq> 0 then PRet nparams
         else pbind (testnext L (tchar CHR '','')) (\<lambda>b. if b then parlist_loop n L nparams else PRet nparams))))"

definition parlist :: "plib \<Rightarrow> pcalls \<Rightarrow> unit pm" where
  "parlist L X =
     pthen (pmodify (set_cur (\<lambda>f. f\<lparr>pf_is_vararg := 0\<rparr>)))
     (pget token_of (\<lambda>tk.
       pbind (if tk \<noteq> tchar CHR '')'' then parlist_loop (c_fuel X) L 0 else PRet 0) (\<lambda>nparams.
       pthen (pmodify (set_cur (adjustlocalvars nparams)))
       (pthen (pmodify (set_cur (\<lambda>f. f\<lparr>pf_numparams := word_of_int (fs_nactvar (pf_fs f) - uint (pf_is_vararg f AND VARARG_HASARG))\<rparr>)))
       (pget (\<lambda>P. fs_nactvar (fs_of P)) (\<lambda>n. on_fs (luaK_reserveregs (pl_gen L) n)))))))"

definition body :: "plib \<Rightarrow> pcalls \<Rightarrow> bool \<Rightarrow> int \<Rightarrow> expdesc pm" where
  "body L X needself line =
     pthen (open_func L)
     (pthen (pmodify (set_cur (\<lambda>f. f\<lparr>pf_linedefined := line\<rparr>)))
     (pthen (checknext L (tchar CHR ''(''))
     (pthen (pif needself (pthen (new_localvarliteral L ''self'' 0) (pmodify (set_cur (adjustlocalvars 1)))))
     (pthen (parlist L X)
     (pthen (checknext L (tchar CHR '')''))
     (pthen (c_chunk X)
     (pget line_of (\<lambda>l.
     pthen (pmodify (set_cur (\<lambda>f. f\<lparr>pf_lastlinedefined := l\<rparr>)))
     (pthen (check_match L TK_END TK_FUNCTION line)
     (pbind (close_func L) (pushclosure L)))))))))))"

section \<open>Constructors\<close>

definition field :: "plib \<Rightarrow> expdesc \<Rightarrow> expdesc pm" where
  "field L v =
     pbind (on_fs (luaK_exp2anyreg (pl_gen L) v)) (\<lambda>v.
     pthen (p_next L) (pbind (checkname L) (\<lambda>key.
     pbind (on_fs (luaK_indexed (pl_gen L) v key)) (\<lambda>(v, _). PRet v))))"

definition yindex :: "plib \<Rightarrow> pcalls \<Rightarrow> expdesc pm" where
  "yindex L X =
     pthen (p_next L) (pbind (expr X) (\<lambda>v.
     pbind (on_fs (luaK_exp2val (pl_gen L) v)) (\<lambda>v. pthen (checknext L (tchar CHR '']'')) (PRet v))))"

record ConsControl =
  cc_v :: expdesc
  cc_nh :: int
  cc_na :: int
  cc_tostore :: int

text \<open>The table descriptor \<open>cc->t\<close> is an argument of its own: no rule changes it.\<close>

definition recfield :: "plib \<Rightarrow> pcalls \<Rightarrow> expdesc \<Rightarrow> ConsControl \<Rightarrow> ConsControl pm" where
  "recfield L X t cc = pget (\<lambda>P. fs_freereg (fs_of P)) (\<lambda>reg. pget token_of (\<lambda>tk. pget cur (\<lambda>f.
     pbind (if tk = TK_NAME
            then pthen (luaY_checklimit L f (cc_nh cc) MAX_INT ''items in a constructor'') (checkname L)
            else yindex L X) (\<lambda>key.
     pthen (checknext L (tchar CHR ''=''))
     (pbind (on_fs (luaK_exp2RK (pl_gen L) key)) (\<lambda>(rkkey, key).
      pbind (expr X) (\<lambda>val.
      pbind (on_fs (luaK_exp2RK (pl_gen L) val)) (\<lambda>(r, val).
      pthen (on_fs (luaK_codeABC (pl_gen L) OP_SETTABLE (info t) rkkey r))
      (pthen (pure_fs (\<lambda>fs. fs\<lparr>fs_freereg := reg\<rparr>)) (PRet (cc\<lparr>cc_nh := cc_nh cc + 1\<rparr>)))))))))))"

definition closelistfield :: "plib \<Rightarrow> expdesc \<Rightarrow> ConsControl \<Rightarrow> ConsControl pm" where
  "closelistfield L t cc =
     (if ek (cc_v cc) = VVOID then PRet cc
      else pbind (on_fs (luaK_exp2nextreg (pl_gen L) (cc_v cc))) (\<lambda>v.
        let cc = cc\<lparr>cc_v := v\<lparr>ek := VVOID\<rparr>\<rparr> in
        if cc_tostore cc = LFIELDS_PER_FLUSH
        then pthen (on_fs (luaK_setlist (pl_gen L) (info t) (cc_na cc) (cc_tostore cc))) (PRet (cc\<lparr>cc_tostore := 0\<rparr>))
        else PRet cc))"

definition lastlistfield :: "plib \<Rightarrow> expdesc \<Rightarrow> ConsControl \<Rightarrow> ConsControl pm" where
  "lastlistfield L t cc =
     (let G = pl_gen L in
      if cc_tostore cc = 0 then PRet cc
      else if hasmultret (ek (cc_v cc))
      then pthen (on_fs (luaK_setreturns G (cc_v cc) LUA_MULTRET))
           (pthen (on_fs (luaK_setlist G (info t) (cc_na cc) LUA_MULTRET)) (PRet (cc\<lparr>cc_na := cc_na cc - 1\<rparr>)))
      else pbind (if ek (cc_v cc) \<noteq> VVOID then on_fs (luaK_exp2nextreg G (cc_v cc)) else PRet (cc_v cc)) (\<lambda>v.
           pthen (on_fs (luaK_setlist G (info t) (cc_na cc) (cc_tostore cc))) (PRet (cc\<lparr>cc_v := v\<rparr>))))"

definition listfield :: "plib \<Rightarrow> pcalls \<Rightarrow> ConsControl \<Rightarrow> ConsControl pm" where
  "listfield L X cc = pbind (expr X) (\<lambda>v. pget cur (\<lambda>f.
     pthen (luaY_checklimit L f (cc_na cc) MAX_INT ''items in a constructor'')
       (PRet (cc\<lparr>cc_v := v, cc_na := cc_na cc + 1, cc_tostore := cc_tostore cc + 1\<rparr>))))"

fun cons_loop :: "nat \<Rightarrow> plib \<Rightarrow> pcalls \<Rightarrow> expdesc \<Rightarrow> ConsControl \<Rightarrow> ConsControl pm" where
  "cons_loop 0 L X t cc = (\<lambda>P. PFuel)"
| "cons_loop (Suc n) L X t cc = pget token_of (\<lambda>tk.
     if tk = tchar CHR ''}'' then PRet cc
     else pbind (closelistfield L t cc) (\<lambda>cc.
       pbind (if tk = TK_NAME
              then pthen (p_lookahead L)
                   (pget (\<lambda>P. token (lookahead (p_ls P))) (\<lambda>la.
                     if la \<noteq> tchar CHR ''='' then listfield L X cc else recfield L X t cc))
              else if tk = tchar CHR ''['' then recfield L X t cc
              else listfield L X cc) (\<lambda>cc.
       pbind (testnext L (tchar CHR '','')) (\<lambda>b.
       pbind (if b then PRet True else testnext L (tchar CHR '';'')) (\<lambda>b.
         if b then cons_loop n L X t cc else PRet cc)))))"

definition constructor :: "plib \<Rightarrow> pcalls \<Rightarrow> expdesc pm" where
  "constructor L X = (let G = pl_gen L in pget line_of (\<lambda>line.
     pbind (on_fs (luaK_codeABC G OP_NEWTABLE 0 0 0)) (\<lambda>pc.
     pbind (on_fs (luaK_exp2nextreg G (init_exp VRELOCABLE pc))) (\<lambda>t.
     pthen (checknext L (tchar CHR ''{''))
     (pbind (cons_loop (c_fuel X) L X t \<lparr>cc_v = init_exp VVOID 0, cc_nh = 0, cc_na = 0, cc_tostore = 0\<rparr>) (\<lambda>cc.
     pthen (check_match L (tchar CHR ''}'') (tchar CHR ''{'') line)
     (pbind (lastlistfield L t cc) (\<lambda>cc.
     pthen (pure_fs (\<lambda>fs. fs\<lparr>fs_code := (fs_code fs)[nat pc :=
         SETARG_C (SETARG_B (fs_code fs ! nat pc) (int (luaO_int2fb (word_of_int (cc_na cc)))))
           (int (luaO_int2fb (word_of_int (cc_nh cc))))]\<rparr>))
     (PRet t)))))))))"

section \<open>Expressions\<close>

fun explist_loop :: "nat \<Rightarrow> plib \<Rightarrow> pcalls \<Rightarrow> expdesc \<Rightarrow> int \<Rightarrow> (int \<times> expdesc) pm" where
  "explist_loop 0 L X v n = (\<lambda>P. PFuel)"
| "explist_loop (Suc m) L X v n = pbind (testnext L (tchar CHR '','')) (\<lambda>b.
     if b then pthen (on_fs (luaK_exp2nextreg (pl_gen L) v)) (pbind (expr X) (\<lambda>v. explist_loop m L X v (n + 1)))
     else PRet (n, v))"

definition explist1 :: "plib \<Rightarrow> pcalls \<Rightarrow> (int \<times> expdesc) pm" where
  "explist1 L X = pbind (expr X) (\<lambda>v. explist_loop (c_fuel X) L X v 1)"

definition funcargs :: "plib \<Rightarrow> pcalls \<Rightarrow> expdesc \<Rightarrow> expdesc pm" where
  "funcargs L X f = (let G = pl_gen L; base = info f in
     pget line_of (\<lambda>line. pget token_of (\<lambda>tk.
     pbind (if tk = tchar CHR ''(''
            then pget (\<lambda>P. lastline (p_ls P)) (\<lambda>last.
              pthen (pif (line \<noteq> last) (p_syntaxerror L ''ambiguous syntax (function call x new statement)''))
              (pthen (p_next L)
              (pget token_of (\<lambda>tk.
               pbind (if tk = tchar CHR '')'' then PRet (init_exp VVOID 0)
                      else pbind (explist1 L X) (\<lambda>(_, args).
                        pthen (on_fs (luaK_setreturns G args LUA_MULTRET)) (PRet args))) (\<lambda>args.
               pthen (check_match L (tchar CHR '')'') (tchar CHR ''('') line) (PRet args))))))
            else if tk = tchar CHR ''{'' then constructor L X
            else if tk = TK_STRING
            then pget tstring (\<lambda>ts. pbind (codestring L ts) (\<lambda>args. pthen (p_next L) (PRet args)))
            else p_syntaxerror L ''function arguments expected'') (\<lambda>args.
     pbind (if hasmultret (ek args) then PRet LUA_MULTRET
            else pthen (if ek args \<noteq> VVOID then drop_result (on_fs (luaK_exp2nextreg G args)) else PRet ())
                   (pget (\<lambda>P. fs_freereg (fs_of P)) (\<lambda>r. PRet (r - (base + 1))))) (\<lambda>nparams.
     pbind (on_fs (luaK_codeABC G OP_CALL base (nparams + 1) 2)) (\<lambda>pc.
     pthen (pure_fs (\<lambda>fs. (luaK_fixline line fs)\<lparr>fs_freereg := base + 1\<rparr>)) (PRet (init_exp VCALL pc))))))))"

definition prefixexp :: "plib \<Rightarrow> pcalls \<Rightarrow> expdesc pm" where
  "prefixexp L X = pget token_of (\<lambda>tk.
     if tk = tchar CHR ''(''
     then pget line_of (\<lambda>line. pthen (p_next L) (pbind (expr X) (\<lambda>v.
          pthen (check_match L (tchar CHR '')'') (tchar CHR ''('') line) (on_fs (luaK_dischargevars (pl_gen L) v)))))
     else if tk = TK_NAME then singlevar L
     else p_syntaxerror L ''unexpected symbol'')"

fun primary_loop :: "nat \<Rightarrow> plib \<Rightarrow> pcalls \<Rightarrow> expdesc \<Rightarrow> expdesc pm" where
  "primary_loop 0 L X v = (\<lambda>P. PFuel)"
| "primary_loop (Suc n) L X v = (let G = pl_gen L in pget token_of (\<lambda>tk.
     if tk = tchar CHR ''.'' then pbind (field L v) (primary_loop n L X)
     else if tk = tchar CHR ''[''
     then pbind (on_fs (luaK_exp2anyreg G v)) (\<lambda>v. pbind (yindex L X) (\<lambda>key.
          pbind (on_fs (luaK_indexed G v key)) (\<lambda>(v, _). primary_loop n L X v)))
     else if tk = tchar CHR '':''
     then pthen (p_next L) (pbind (checkname L) (\<lambda>key.
          pbind (on_fs (luaK_self G v key)) (\<lambda>(v, _). pbind (funcargs L X v) (primary_loop n L X))))
     else if tk = tchar CHR ''('' \<or> tk = TK_STRING \<or> tk = tchar CHR ''{''
     then pbind (on_fs (luaK_exp2nextreg G v)) (\<lambda>v. pbind (funcargs L X v) (primary_loop n L X))
     else PRet v))"

definition primaryexp :: "plib \<Rightarrow> pcalls \<Rightarrow> expdesc pm" where
  "primaryexp L X = pbind (prefixexp L X) (primary_loop (c_fuel X) L X)"

definition simpleexp :: "plib \<Rightarrow> pcalls \<Rightarrow> expdesc pm" where
  "simpleexp L X = pget token_of (\<lambda>tk.
     let done = \<lambda>m. pbind m (\<lambda>v. pthen (p_next L) (PRet v)) in
     if tk = TK_NUMBER then done (pget tnumber (\<lambda>r. PRet ((init_exp VKNUM 0)\<lparr>nval := r\<rparr>)))
     else if tk = TK_STRING then done (pget tstring (codestring L))
     else if tk = TK_NIL then done (PRet (init_exp VNIL 0))
     else if tk = TK_TRUE then done (PRet (init_exp VTRUE 0))
     else if tk = TK_FALSE then done (PRet (init_exp VFALSE 0))
     else if tk = TK_DOTS
     then done (pget (\<lambda>P. pf_is_vararg (cur P)) (\<lambda>v.
            pthen (pif (v = 0) (p_syntaxerror L (''cannot use '' @ LUA_QL ''...'' @ '' outside a vararg function'')))
            (pthen (pmodify (set_cur (\<lambda>f. f\<lparr>pf_is_vararg := pf_is_vararg f AND NOT VARARG_NEEDSARG\<rparr>)))
            (pbind (on_fs (luaK_codeABC (pl_gen L) OP_VARARG 0 1 0)) (\<lambda>pc. PRet (init_exp VVARARG pc))))))
     else if tk = tchar CHR ''{'' then constructor L X
     else if tk = TK_FUNCTION then pthen (p_next L) (pget line_of (body L X False))
     else primaryexp L X)"

definition getunopr :: "int \<Rightarrow> UnOpr" where
  "getunopr op = (if op = TK_NOT then OPR_NOT else if op = tchar CHR ''-'' then OPR_MINUS
     else if op = tchar CHR ''#'' then OPR_LEN else OPR_NOUNOPR)"

definition getbinopr :: "int \<Rightarrow> BinOpr" where
  "getbinopr op =
     (if op = tchar CHR ''+'' then OPR_ADD else if op = tchar CHR ''-'' then OPR_SUB
      else if op = tchar CHR ''*'' then OPR_MUL else if op = tchar CHR ''/'' then OPR_DIV
      else if op = tchar CHR ''%'' then OPR_MOD else if op = tchar CHR ''^'' then OPR_POW
      else if op = TK_CONCAT then OPR_CONCAT else if op = TK_NE then OPR_NE else if op = TK_EQ then OPR_EQ
      else if op = tchar CHR ''<'' then OPR_LT else if op = TK_LE then OPR_LE
      else if op = tchar CHR ''>'' then OPR_GT else if op = TK_GE then OPR_GE
      else if op = TK_AND then OPR_AND else if op = TK_OR then OPR_OR else OPR_NOBINOPR)"

text \<open>Left and right priority.\<close>

fun priority :: "BinOpr \<Rightarrow> nat \<times> nat" where
  "priority OPR_ADD = (6, 6)" | "priority OPR_SUB = (6, 6)" | "priority OPR_MUL = (7, 7)"
| "priority OPR_DIV = (7, 7)" | "priority OPR_MOD = (7, 7)" | "priority OPR_POW = (10, 9)"
| "priority OPR_CONCAT = (5, 4)" | "priority OPR_NE = (3, 3)" | "priority OPR_EQ = (3, 3)"
| "priority OPR_LT = (3, 3)" | "priority OPR_LE = (3, 3)" | "priority OPR_GT = (3, 3)" | "priority OPR_GE = (3, 3)"
| "priority OPR_AND = (2, 2)" | "priority OPR_OR = (1, 1)" | "priority OPR_NOBINOPR = (0, 0)"

abbreviation (input) UNARY_PRIORITY :: nat where "UNARY_PRIORITY \<equiv> 8"

fun binop_loop :: "nat \<Rightarrow> plib \<Rightarrow> pcalls \<Rightarrow> nat \<Rightarrow> BinOpr \<Rightarrow> expdesc \<Rightarrow> (BinOpr \<times> expdesc) pm" where
  "binop_loop n L X limit op v =
     (if op \<noteq> OPR_NOBINOPR \<and> fst (priority op) > limit
      then case n of 0 \<Rightarrow> (\<lambda>P. PFuel)
        | Suc n \<Rightarrow> pthen (p_next L)
            (pbind (on_fs (luaK_infix (pl_gen L) op v)) (\<lambda>v.
             pbind (c_subexpr X (snd (priority op))) (\<lambda>(nextop, v2).
             pbind (on_fs (luaK_posfix (pl_gen L) op v v2)) (\<lambda>v. binop_loop n L X limit nextop v))))
      else PRet (op, v))"

declare binop_loop.simps [simp del]

definition subexpr :: "plib \<Rightarrow> pcalls \<Rightarrow> nat \<Rightarrow> (BinOpr \<times> expdesc) pm" where
  "subexpr L X limit =
     pthen (enterlevel L) (pget token_of (\<lambda>tk. let uop = getunopr tk in
     pbind (if uop \<noteq> OPR_NOUNOPR
            then pthen (p_next L) (pbind (c_subexpr X UNARY_PRIORITY) (\<lambda>(_, v). on_fs (luaK_prefix (pl_gen L) uop v)))
            else simpleexp L X) (\<lambda>v.
     pget token_of (\<lambda>tk.
     pbind (binop_loop (c_fuel X) L X limit (getbinopr tk) v) (\<lambda>r. pthen leavelevel (PRet r))))))"


section \<open>Statements\<close>

definition block_follow :: "int \<Rightarrow> bool" where
  "block_follow tk \<longleftrightarrow> tk = TK_ELSE \<or> tk = TK_ELSEIF \<or> tk = TK_END \<or> tk = TK_UNTIL \<or> tk = TK_EOS"

definition enter_block :: "bool \<Rightarrow> unit pm" where
  "enter_block brk = pmodify (set_cur (enterblock brk))"

definition block :: "plib \<Rightarrow> pcalls \<Rightarrow> unit pm" where
  "block L X = pthen (enter_block False) (pthen (c_chunk X) (leaveblock L))"

text \<open>
  The chain of left-hand sides is a list, the last one read first. \<open>check_conflict\<close> gives the chain it
  leaves and whether a copy of the local variable is needed.
\<close>

fun conflict_lhs :: "int \<Rightarrow> int \<Rightarrow> expdesc list \<Rightarrow> bool \<times> expdesc list" where
  "conflict_lhs reg extra [] = (False, [])"
| "conflict_lhs reg extra (v # vs) =
     (let (c, vs) = conflict_lhs reg extra vs;
          c1 = (ek v = VINDEXED \<and> info v = reg); c2 = (ek v = VINDEXED \<and> aux v = reg);
          v = (if c1 then v\<lparr>info := extra\<rparr> else v); v = (if c2 then v\<lparr>aux := extra\<rparr> else v)
      in (c \<or> c1 \<or> c2, v # vs))"

definition check_conflict :: "plib \<Rightarrow> expdesc list \<Rightarrow> expdesc \<Rightarrow> expdesc list pm" where
  "check_conflict L lhs v = pget (\<lambda>P. fs_freereg (fs_of P)) (\<lambda>extra.
     let (conflict, lhs) = conflict_lhs (info v) extra lhs in
     pthen (pif conflict (pthen (on_fs (luaK_codeABC (pl_gen L) OP_MOVE extra (info v) 0))
                                (on_fs (luaK_reserveregs (pl_gen L) 1))))
       (PRet lhs))"

text \<open>The left-hand sides may have changed when the recursion comes back; the chain is its result.\<close>

fun assignment :: "nat \<Rightarrow> plib \<Rightarrow> pcalls \<Rightarrow> expdesc list \<Rightarrow> int \<Rightarrow> expdesc list pm" where
  "assignment 0 L X lhs nvars = (\<lambda>P. PFuel)"
| "assignment (Suc n) L X lhs nvars = (let G = pl_gen L; k = ek (hd lhs);
       default = \<lambda>lhs. pget (\<lambda>P. fs_freereg (fs_of P)) (\<lambda>r.
         pthen (on_fs (luaK_storevar G (hd lhs) (init_exp VNONRELOC (r - 1)))) (PRet (tl lhs))) in
     pthen (pif (k \<notin> {VLOCAL, VUPVAL, VGLOBAL, VINDEXED}) (p_syntaxerror L ''syntax error''))
     (pbind (testnext L (tchar CHR '','')) (\<lambda>b.
      if b
      then pbind (primaryexp L X) (\<lambda>nv.
           pbind (if ek nv = VLOCAL then check_conflict L lhs nv else PRet lhs) (\<lambda>lhs.
           pget cur (\<lambda>f. pget p_ccalls (\<lambda>ncc.
           pthen (luaY_checklimit L f nvars (LUAI_MAXCCALLS - ncc) ''variables in assignment'')
           (pbind (assignment n L X (nv # lhs) (nvars + 1)) default)))))
      else pthen (checknext L (tchar CHR ''='')) (pbind (explist1 L X) (\<lambda>(nexps, e).
           if nexps \<noteq> nvars
           then pthen (adjust_assign L nvars nexps e)
                (pthen (pif (nexps > nvars) (pure_fs (\<lambda>fs. fs\<lparr>fs_freereg := fs_freereg fs - (nexps - nvars)\<rparr>)))
                       (default lhs))
           else pbind (on_fs (\<lambda>fs. case luaK_setoneret e fs of (e, fs) \<Rightarrow> Ret e fs)) (\<lambda>e.
                pthen (on_fs (luaK_storevar G (hd lhs) e)) (PRet (tl lhs))))))))"

definition cond :: "plib \<Rightarrow> pcalls \<Rightarrow> int pm" where
  "cond L X = pbind (expr X) (\<lambda>v. let v = (if ek v = VNIL then v\<lparr>ek := VFALSE\<rparr> else v) in
     pbind (on_fs (luaK_goiftrue (pl_gen L) v)) (\<lambda>v. PRet (ef v)))"

text \<open>The place of the innermost breakable block in the chain, and whether a block inside it has an upvalue.\<close>

fun find_loop :: "BlockCnt list \<Rightarrow> (nat \<times> bool) option" where
  "find_loop [] = None"
| "find_loop (bl # bls) =
     (if isbreakable bl then Some (0, False)
      else case find_loop bls of None \<Rightarrow> None | Some (i, up) \<Rightarrow> Some (i + 1, upval bl \<or> up))"

definition breakstat :: "plib \<Rightarrow> unit pm" where
  "breakstat L = (let G = pl_gen L in pget (\<lambda>P. pf_bl (cur P)) (\<lambda>bls.
     case find_loop bls of
       None \<Rightarrow> p_syntaxerror L ''no loop to break''
     | Some (i, up) \<Rightarrow>
         pthen (pif up (drop_result (on_fs (luaK_codeABC G OP_CLOSE (bl_nactvar (bls ! i)) 0 0))))
         (pbind (on_fs (luaK_jump G)) (\<lambda>j.
          pbind (on_fs (luaK_concat G (breaklist (bls ! i)) j)) (\<lambda>l.
          pmodify (set_cur (\<lambda>f. f\<lparr>pf_bl := (pf_bl f)[i := (pf_bl f ! i)\<lparr>breaklist := l\<rparr>]\<rparr>)))))))"

definition getlabel :: "int pm" where
  "getlabel = on_fs (\<lambda>fs. case luaK_getlabel fs of (pc, fs) \<Rightarrow> Ret pc fs)"

definition patchtohere :: "plib \<Rightarrow> int \<Rightarrow> unit pm" where
  "patchtohere L l = on_fs (luaK_patchtohere (pl_gen L) l)"

definition patchlist :: "plib \<Rightarrow> int \<Rightarrow> int \<Rightarrow> unit pm" where
  "patchlist L l target = on_fs (luaK_patchlist (pl_gen L) l target)"

definition whilestat :: "plib \<Rightarrow> pcalls \<Rightarrow> int \<Rightarrow> unit pm" where
  "whilestat L X line =
     pthen (p_next L) (pbind getlabel (\<lambda>whileinit. pbind (cond L X) (\<lambda>condexit.
     pthen (enter_block True)
     (pthen (checknext L TK_DO)
     (pthen (block L X)
     (pbind (on_fs (luaK_jump (pl_gen L))) (\<lambda>j.
     pthen (patchlist L j whileinit)
     (pthen (check_match L TK_END TK_WHILE line)
     (pthen (leaveblock L) (patchtohere L condexit))))))))))"

definition repeatstat :: "plib \<Rightarrow> pcalls \<Rightarrow> int \<Rightarrow> unit pm" where
  "repeatstat L X line =
     pbind getlabel (\<lambda>repeat_init.
     pthen (enter_block True)
     (pthen (enter_block False)
     (pthen (p_next L)
     (pthen (c_chunk X)
     (pthen (check_match L TK_UNTIL TK_REPEAT line)
     (pbind (cond L X) (\<lambda>condexit.
     pget (\<lambda>P. upval (hd (pf_bl (cur P)))) (\<lambda>up.
     pthen (if \<not> up then pthen (leaveblock L) (patchlist L condexit repeat_init)
            else pthen (breakstat L)
                 (pthen (patchtohere L condexit)
                 (pthen (leaveblock L)
                 (pbind (on_fs (luaK_jump (pl_gen L))) (\<lambda>j. patchlist L j repeat_init)))))
       (leaveblock L)))))))))"

definition exp1 :: "plib \<Rightarrow> pcalls \<Rightarrow> expkind pm" where
  "exp1 L X = pbind (expr X) (\<lambda>e. pthen (on_fs (luaK_exp2nextreg (pl_gen L) e)) (PRet (ek e)))"

definition forbody :: "plib \<Rightarrow> pcalls \<Rightarrow> int \<Rightarrow> int \<Rightarrow> int \<Rightarrow> bool \<Rightarrow> unit pm" where
  "forbody L X base line nvars isnum = (let G = pl_gen L in
     pthen (pmodify (set_cur (adjustlocalvars 3)))
     (pthen (checknext L TK_DO)
     (pbind (on_fs (if isnum then luaK_codeAsBx G OP_FORPREP base NO_JUMP else luaK_jump G)) (\<lambda>prep.
     pthen (enter_block False)
     (pthen (pmodify (set_cur (adjustlocalvars nvars)))
     (pthen (on_fs (luaK_reserveregs G nvars))
     (pthen (block L X)
     (pthen (leaveblock L)
     (pthen (patchtohere L prep)
     (pbind (on_fs (if isnum then luaK_codeAsBx G OP_FORLOOP base NO_JUMP
                    else luaK_codeABC G OP_TFORLOOP base 0 nvars)) (\<lambda>endfor.
     pthen (pure_fs (luaK_fixline line))
     (pbind (if isnum then PRet endfor else on_fs (luaK_jump G)) (\<lambda>l. patchlist L l (prep + 1))))))))))))))"

definition fornum :: "plib \<Rightarrow> pcalls \<Rightarrow> bytes \<Rightarrow> int \<Rightarrow> unit pm" where
  "fornum L X name line = (let G = pl_gen L in pget (\<lambda>P. fs_freereg (fs_of P)) (\<lambda>base.
     pthen (new_localvarliteral L ''(for index)'' 0)
     (pthen (new_localvarliteral L ''(for limit)'' 1)
     (pthen (new_localvarliteral L ''(for step)'' 2)
     (pthen (new_localvar L name 3)
     (pthen (checknext L (tchar CHR ''=''))
     (pthen (exp1 L X)
     (pthen (checknext L (tchar CHR '',''))
     (pthen (exp1 L X)
     (pbind (testnext L (tchar CHR '','')) (\<lambda>b.
     pthen (if b then drop_result (exp1 L X)
            else pget (\<lambda>P. fs_freereg (fs_of P)) (\<lambda>r.
                 pbind (on_fs (luaK_numberK G (cast_num 1))) (\<lambda>k.
                 pthen (on_fs (luaK_codeABx G OP_LOADK r k)) (on_fs (luaK_reserveregs G 1)))))
       (forbody L X base line 1 True))))))))))))"

fun names_loop :: "nat \<Rightarrow> plib \<Rightarrow> int \<Rightarrow> int pm" where
  "names_loop 0 L nvars = (\<lambda>P. PFuel)"
| "names_loop (Suc n) L nvars = pbind (testnext L (tchar CHR '','')) (\<lambda>b.
     if b then pbind (str_checkname L) (\<lambda>s. pthen (new_localvar L s nvars) (names_loop n L (nvars + 1)))
     else PRet nvars)"

definition forlist :: "plib \<Rightarrow> pcalls \<Rightarrow> bytes \<Rightarrow> unit pm" where
  "forlist L X indexname = (let G = pl_gen L in pget (\<lambda>P. fs_freereg (fs_of P)) (\<lambda>base.
     pthen (new_localvarliteral L ''(for generator)'' 0)
     (pthen (new_localvarliteral L ''(for state)'' 1)
     (pthen (new_localvarliteral L ''(for control)'' 2)
     (pthen (new_localvar L indexname 3)
     (pbind (names_loop (c_fuel X) L 4) (\<lambda>nvars.
     pthen (checknext L TK_IN)
     (pget line_of (\<lambda>line.
     pbind (explist1 L X) (\<lambda>(nexps, e).
     pthen (adjust_assign L 3 nexps e)
     (pthen (on_fs (luaK_checkstack G 3))
     (forbody L X base line (nvars - 3) False))))))))))))"

definition forstat :: "plib \<Rightarrow> pcalls \<Rightarrow> int \<Rightarrow> unit pm" where
  "forstat L X line =
     pthen (enter_block True)
     (pthen (p_next L)
     (pbind (str_checkname L) (\<lambda>name. pget token_of (\<lambda>tk.
     pthen (if tk = tchar CHR ''='' then fornum L X name line
            else if tk = tchar CHR '','' \<or> tk = TK_IN then forlist L X name
            else p_syntaxerror L (LUA_QL ''='' @ '' or '' @ LUA_QL ''in'' @ '' expected''))
     (pthen (check_match L TK_END TK_FOR line) (leaveblock L))))))"

definition test_then_block :: "plib \<Rightarrow> pcalls \<Rightarrow> int pm" where
  "test_then_block L X = pthen (p_next L) (pbind (cond L X) (\<lambda>condexit.
     pthen (checknext L TK_THEN) (pthen (block L X) (PRet condexit))))"

definition escape_jump :: "plib \<Rightarrow> int \<Rightarrow> int \<Rightarrow> int pm" where
  "escape_jump L escapelist flist = pbind (on_fs (luaK_jump (pl_gen L))) (\<lambda>j.
     pbind (on_fs (luaK_concat (pl_gen L) escapelist j)) (\<lambda>l. pthen (patchtohere L flist) (PRet l)))"

fun elseif_loop :: "nat \<Rightarrow> plib \<Rightarrow> pcalls \<Rightarrow> int \<Rightarrow> int \<Rightarrow> (int \<times> int) pm" where
  "elseif_loop 0 L X flist escapelist = (\<lambda>P. PFuel)"
| "elseif_loop (Suc n) L X flist escapelist = pget token_of (\<lambda>tk.
     if tk = TK_ELSEIF
     then pbind (escape_jump L escapelist flist) (\<lambda>escapelist.
          pbind (test_then_block L X) (\<lambda>flist. elseif_loop n L X flist escapelist))
     else PRet (flist, escapelist))"

definition ifstat :: "plib \<Rightarrow> pcalls \<Rightarrow> int \<Rightarrow> unit pm" where
  "ifstat L X line =
     pbind (test_then_block L X) (\<lambda>flist.
     pbind (elseif_loop (c_fuel X) L X flist NO_JUMP) (\<lambda>(flist, escapelist). pget token_of (\<lambda>tk.
     pbind (if tk = TK_ELSE
            then pbind (escape_jump L escapelist flist) (\<lambda>l. pthen (p_next L) (pthen (block L X) (PRet l)))
            else on_fs (luaK_concat (pl_gen L) escapelist flist)) (\<lambda>escapelist.
     pthen (patchtohere L escapelist) (check_match L TK_END TK_IF line)))))"

definition localfunc :: "plib \<Rightarrow> pcalls \<Rightarrow> unit pm" where
  "localfunc L X = (let G = pl_gen L in
     pbind (str_checkname L) (\<lambda>name. pthen (new_localvar L name 0)
     (pget (\<lambda>P. fs_freereg (fs_of P)) (\<lambda>r.
     pthen (on_fs (luaK_reserveregs G 1))
     (pthen (pmodify (set_cur (adjustlocalvars 1)))
     (pget line_of (\<lambda>line. pbind (body L X False line) (\<lambda>b.
     pthen (on_fs (luaK_storevar G (init_exp VLOCAL r) b))
     (pmodify (set_cur (\<lambda>f. set_locvar (fs_nactvar (pf_fs f) - 1) (\<lambda>v. v\<lparr>startpc := fs_pc (pf_fs f)\<rparr>) f)))))))))))"

definition localstat :: "plib \<Rightarrow> pcalls \<Rightarrow> unit pm" where
  "localstat L X =
     pbind (str_checkname L) (\<lambda>name. pthen (new_localvar L name 0)
     (pbind (names_loop (c_fuel X) L 1) (\<lambda>nvars.
     pbind (testnext L (tchar CHR ''='')) (\<lambda>b.
     pbind (if b then explist1 L X else PRet (0, init_exp VVOID 0)) (\<lambda>(nexps, e).
     pthen (adjust_assign L nvars nexps e) (pmodify (set_cur (adjustlocalvars nvars))))))))"

fun field_loop :: "nat \<Rightarrow> plib \<Rightarrow> expdesc \<Rightarrow> expdesc pm" where
  "field_loop 0 L v = (\<lambda>P. PFuel)"
| "field_loop (Suc n) L v = pget token_of (\<lambda>tk.
     if tk = tchar CHR ''.'' then pbind (field L v) (field_loop n L) else PRet v)"

definition funcname :: "plib \<Rightarrow> pcalls \<Rightarrow> (bool \<times> expdesc) pm" where
  "funcname L X = pbind (singlevar L) (\<lambda>v. pbind (field_loop (c_fuel X) L v) (\<lambda>v. pget token_of (\<lambda>tk.
     if tk = tchar CHR '':'' then pbind (field L v) (\<lambda>v. PRet (True, v)) else PRet (False, v))))"

definition funcstat :: "plib \<Rightarrow> pcalls \<Rightarrow> int \<Rightarrow> unit pm" where
  "funcstat L X line = pthen (p_next L) (pbind (funcname L X) (\<lambda>(needself, v).
     pbind (body L X needself line) (\<lambda>b.
     pthen (on_fs (luaK_storevar (pl_gen L) v b)) (pure_fs (luaK_fixline line)))))"

definition exprstat :: "plib \<Rightarrow> pcalls \<Rightarrow> unit pm" where
  "exprstat L X = pbind (primaryexp L X) (\<lambda>v.
     if ek v = VCALL then pure_fs (\<lambda>fs. setcode v (SETARG_C (getcode fs v) 1) fs)
     else drop_result (assignment (c_fuel X) L X [v] 1))"

definition retstat :: "plib \<Rightarrow> pcalls \<Rightarrow> unit pm" where
  "retstat L X = (let G = pl_gen L in
     pthen (p_next L) (pget token_of (\<lambda>tk.
     pbind (if block_follow tk \<or> tk = tchar CHR '';'' then PRet (0, 0)
            else pbind (explist1 L X) (\<lambda>(nret, e).
              if hasmultret (ek e)
              then pthen (on_fs (luaK_setreturns G e LUA_MULTRET))
                   (pthen (pif (ek e = VCALL \<and> nret = 1)
                      (pure_fs (\<lambda>fs. setcode e (SET_OPCODE (getcode fs e) OP_TAILCALL) fs)))
                   (pget (\<lambda>P. fs_nactvar (fs_of P)) (\<lambda>n. PRet (n, LUA_MULTRET))))
              else if nret = 1
              then pbind (on_fs (luaK_exp2anyreg G e)) (\<lambda>e. PRet (info e, nret))
              else pthen (on_fs (luaK_exp2nextreg G e))
                   (pget (\<lambda>P. fs_nactvar (fs_of P)) (\<lambda>n. PRet (n, nret))))) (\<lambda>(frst, nret).
     on_fs (luaK_ret G frst nret)))))"

text \<open>Whether the statement has to be the last of its block.\<close>

definition statement :: "plib \<Rightarrow> pcalls \<Rightarrow> bool pm" where
  "statement L X = pget line_of (\<lambda>line. pget token_of (\<lambda>tk.
     let more = \<lambda>m. pthen m (PRet False); last_one = \<lambda>m. pthen m (PRet True) in
     if tk = TK_IF then more (ifstat L X line)
     else if tk = TK_WHILE then more (whilestat L X line)
     else if tk = TK_DO then more (pthen (p_next L) (pthen (block L X) (check_match L TK_END TK_DO line)))
     else if tk = TK_FOR then more (forstat L X line)
     else if tk = TK_REPEAT then more (repeatstat L X line)
     else if tk = TK_FUNCTION then more (funcstat L X line)
     else if tk = TK_LOCAL
     then more (pthen (p_next L) (pbind (testnext L TK_FUNCTION) (\<lambda>b. if b then localfunc L X else localstat L X)))
     else if tk = TK_RETURN then last_one (retstat L X)
     else if tk = TK_BREAK then last_one (pthen (p_next L) (breakstat L))
     else more (exprstat L X)))"

fun chunk_loop :: "nat \<Rightarrow> plib \<Rightarrow> pcalls \<Rightarrow> bool \<Rightarrow> unit pm" where
  "chunk_loop n L X islast = pget token_of (\<lambda>tk.
     if \<not> islast \<and> \<not> block_follow tk
     then case n of 0 \<Rightarrow> (\<lambda>P. PFuel)
       | Suc n \<Rightarrow> pbind (statement L X) (\<lambda>islast.
           pthen (testnext L (tchar CHR '';''))
           (pthen (pure_fs (\<lambda>fs. fs\<lparr>fs_freereg := fs_nactvar fs\<rparr>)) (chunk_loop n L X islast)))
     else PRet ())"

declare chunk_loop.simps [simp del]

definition chunk :: "plib \<Rightarrow> pcalls \<Rightarrow> unit pm" where
  "chunk L X = pthen (enterlevel L) (pthen (chunk_loop (c_fuel X) L X False) leavelevel)"

section \<open>The parser\<close>

fun calls :: "plib \<Rightarrow> nat \<Rightarrow> pcalls" where
  "calls L 0 = \<lparr>c_fuel = 0, c_subexpr = (\<lambda>limit P. PFuel), c_chunk = (\<lambda>P. PFuel)\<rparr>"
| "calls L (Suc n) = (let X = calls L n in \<lparr>c_fuel = n, c_subexpr = subexpr L X, c_chunk = chunk L X\<rparr>)"

text \<open>
  The record of the analyser before \<open>luaX_setinput\<close> is the caller's. The result is the main function;
  the functions inside it are in the state.
\<close>

definition luaY_parser :: "plib \<Rightarrow> nat \<Rightarrow> LexState \<Rightarrow> mem_state \<Rightarrow> int \<Rightarrow> Zio \<Rightarrow> bytes \<Rightarrow> PFunc pres" where
  "luaY_parser L fuel ls g ccalls z name =
     (let P = \<lparr>p_funcs = [], p_ls = ls, p_mem = g, p_ccalls = ccalls, p_done = [], p_opened = 0\<rparr> in
      lift_p (luaX_setinput (g_lex (pl_gen L)) ls z name) (\<lambda>ls.
      pthen (pmodify (\<lambda>P. P\<lparr>p_ls := ls\<rparr>))
      (pthen (open_func L)
      (pthen (pmodify (set_cur (\<lambda>f. f\<lparr>pf_is_vararg := VARARG_ISVARARG\<rparr>)))
      (pthen (p_next L)
      (pthen (c_chunk (calls L fuel))
      (pthen (check L TK_EOS)
      (pbind (close_func L) (\<lambda>d. pget (\<lambda>P. p_done P ! d) PRet)))))))) P)"

end
