(* ===== verification/Lua_Parser_Balance.thy ===== *)
theory Lua_Parser_Balance
  imports Lua_Grammar Lua_Parser_Scope
begin

text \<open>
  The parser of \<^verbatim>\<open>src/src/lparser.c\<close> is balanced: whatever it opens, a function, a block, a level of
  nesting, it closes before it returns. A rule of the grammar relies on the two rules that it calls back,
  a locale; the recursion of the model provides them.
\<close>

section \<open>Shapes\<close>

text \<open>
  What has been opened: the levels of nesting, the functions that are not closed yet, the blocks of each function
  of the chain, and whether the functions closed so far have no block left.
\<close>

type_synonym shape = "int \<times> int \<times> nat list \<times> bool"

definition shape_of :: "Parser \<Rightarrow> shape" where
  "shape_of P = (p_ccalls P, int (p_opened P) - int (length (p_done P)), map (\<lambda>f. length (pf_bl f)) (p_funcs P),
     \<forall>f \<in> set (p_done P). pf_bl f = [])"

definition takes :: "'a pm \<Rightarrow> shape \<Rightarrow> shape \<Rightarrow> bool" where
  "takes m s s' \<longleftrightarrow> (\<forall>P x P'. shape_of P = s \<longrightarrow> m P = PRet x P' \<longrightarrow> shape_of P' = s')"

definition keeps :: "'a pm \<Rightarrow> bool" where
  "keeps m \<longleftrightarrow> (\<forall>c k d ds b. takes m (c, k, d # ds, b) (c, k, d # ds, b))"

named_theorems keeps_intros

lemma takesD: "takes m s s' \<Longrightarrow> shape_of P = s \<Longrightarrow> m P = PRet x P' \<Longrightarrow> shape_of P' = s'"
  by (simp add: takes_def)

lemma takes_bind:
  assumes "takes m s s'" "\<And>x. takes (f x) s' s''"
  shows "takes (pbind m f) s s''"
  unfolding takes_def
proof (intro allI impI)
  fix P x P' assume p: "shape_of P = s" "pbind m f P = PRet x P'"
  then obtain y Q where q: "m P = PRet y Q" "f y Q = PRet x P'"
    by (cases "m P") (simp_all add: pbind_def)
  show "shape_of P' = s''"
    by (rule takesD [OF assms(2) takesD [OF assms(1) p(1) q(1)] q(2)])
qed

lemma takes_then: "takes m s s' \<Longrightarrow> takes m' s' s'' \<Longrightarrow> takes (pthen m m') s s''"
  unfolding pthen_def by (rule takes_bind)

lemma takes_get: "(\<And>x. takes (f x) s s') \<Longrightarrow> takes (pget g f) s s'"
  by (simp add: takes_def pget_def)

lemma takes_ret: "takes (PRet x) s s"
  by (simp add: takes_def)

lemma takes_keeps: "keeps m \<Longrightarrow> takes m (c, k, d # ds, b) (c, k, d # ds, b)"
  by (simp add: keeps_def)

lemma keeps_bind [keeps_intros]: "keeps m \<Longrightarrow> (\<And>x. keeps (f x)) \<Longrightarrow> keeps (pbind m f)"
  unfolding keeps_def by (blast intro: takes_bind)

lemma keeps_then [keeps_intros]: "keeps m \<Longrightarrow> keeps m' \<Longrightarrow> keeps (pthen m m')"
  unfolding keeps_def by (blast intro: takes_then)

lemma keeps_get [keeps_intros]: "(\<And>x. keeps (f x)) \<Longrightarrow> keeps (pget g f)"
  unfolding keeps_def by (blast intro: takes_get)

lemma keeps_ret [keeps_intros]: "keeps (PRet x)"
  by (simp add: keeps_def takes_ret)

lemma keeps_if [keeps_intros]: "keeps m \<Longrightarrow> keeps m' \<Longrightarrow> keeps (if c then m else m')"
  by simp

lemma keeps_pif [keeps_intros]: "keeps m \<Longrightarrow> keeps (pif c m)"
  by (simp add: pif_def keeps_ret)

lemma keeps_prod [keeps_intros]: "(\<And>a b. keeps (f a b)) \<Longrightarrow> keeps (case p of (a, b) \<Rightarrow> f a b)"
  by (cases p) simp

lemma keeps_option [keeps_intros]:
  "keeps m \<Longrightarrow> (\<And>x. keeps (f x)) \<Longrightarrow> keeps (case r of None \<Rightarrow> m | Some x \<Rightarrow> f x)"
  by (cases r) simp_all

lemma keeps_loop [keeps_intros]: "keeps (\<lambda>P. PLoop)" "keeps (\<lambda>P. PFuel)"
  by (simp_all add: keeps_def takes_def)

lemma keeps_lift [keeps_intros]: "(\<And>x. keeps (f x)) \<Longrightarrow> keeps (lift_p r f)"
proof (cases r)
  case (Inl e)
  have "keeps (\<lambda>P. PErr e)" by (simp add: keeps_def takes_def)
  moreover have "lift_p r f = (\<lambda>P. PErr e)" using Inl by (simp add: lift_p_def fun_eq_iff)
  ultimately show ?thesis by simp
next
  case (Inr x)
  then have "lift_p r f = f x" by (simp add: lift_p_def fun_eq_iff)
  moreover assume "\<And>x. keeps (f x)"
  ultimately show ?thesis by simp
qed

text \<open>An operation that looks at the state before it starts.\<close>

lemma keeps_state: "(\<And>P. m P = n P P) \<Longrightarrow> (\<And>Q. keeps (n Q)) \<Longrightarrow> keeps m"
  unfolding keeps_def takes_def by metis

lemma keeps_ls [keeps_intros]: "keeps (pmodify (\<lambda>P. P\<lparr>p_ls := f P\<rparr>))"
  by (simp add: keeps_def takes_def pmodify_def shape_of_def)

lemma keeps_mem [keeps_intros]: "keeps (pmodify (\<lambda>P. P\<lparr>p_mem := f P\<rparr>))"
  by (simp add: keeps_def takes_def pmodify_def shape_of_def)

text \<open>The function the parser is in changes, and has as many blocks as before.\<close>

lemma shape_cur:
  assumes "shape_of P = (c, k, d # ds, b)"
  shows "length (pf_bl (cur P)) = d"
    "shape_of (P\<lparr>p_funcs := f # tl (p_funcs P)\<rparr>) = (c, k, length (pf_bl f) # ds, b)"
    "shape_of (P\<lparr>p_mem := g, p_funcs := f # tl (p_funcs P)\<rparr>) = (c, k, length (pf_bl f) # ds, b)"
  using assms by (cases "p_funcs P"; simp add: shape_of_def cur_def)+

lemma takes_cur: "(\<And>f. length (pf_bl f) = d \<Longrightarrow> length (pf_bl (g f)) = d') \<Longrightarrow>
    takes (pmodify (set_cur g)) (c, k, d # ds, b) (c, k, d' # ds, b)"
  unfolding takes_def pmodify_def set_cur_def using shape_cur(1,2) by simp

lemma keeps_cur: "(\<And>f. length (pf_bl (g f)) = length (pf_bl f)) \<Longrightarrow> keeps (pmodify (set_cur g))"
  by (simp add: keeps_def takes_cur)

lemma keeps_on_fs [keeps_intros]: "keeps (on_fs m)"
  unfolding keeps_def takes_def
proof (intro allI impI)
  fix c k d ds b P x P'
  assume s: "shape_of P = (c, k, d # ds, b)" and r: "on_fs m P = PRet x P'"
  obtain fs where "P' = P\<lparr>p_mem := fs_mem fs, p_funcs := (cur P)\<lparr>pf_fs := fs\<rparr> # tl (p_funcs P)\<rparr>"
    using r by (cases "m ((fs_of P)\<lparr>fs_ls := p_ls P, fs_mem := p_mem P\<rparr>)") (auto simp: on_fs_def set_cur_def cur_def)
  then show "shape_of P' = (c, k, d # ds, b)"
    using shape_cur [OF s] by simp
qed

lemma keeps_pure_fs [keeps_intros]: "keeps (pure_fs g)"
  by (simp add: pure_fs_def keeps_cur)

section \<open>Checks and variables\<close>

lemma keeps_anchor_new [keeps_intros]: "keeps (anchor_new L)"
proof -
  have "keeps (anchor_all L ss)" for ss
    by (induction ss) (auto intro!: keeps_intros)
  then show ?thesis
    unfolding anchor_new_def by (intro keeps_intros)
qed

lemma takes_anchor_new: "takes (anchor_new L) s s"
proof -
  obtain c k ds b where s: "s = (c, k, ds, b)"
    by (metis prod_cases4)
  show ?thesis
  proof (cases ds)
    case Nil
    then show ?thesis
      by (auto simp: s takes_def anchor_new_def pget_def pif_def shape_of_def)
  next
    case (Cons d ds')
    then show ?thesis
      using keeps_anchor_new [of L] by (simp add: s keeps_def)
  qed
qed

lemma takes_ls: "takes (pmodify (\<lambda>P. P\<lparr>p_ls := f P\<rparr>)) s s"
  by (simp add: takes_def pmodify_def shape_of_def)

lemma takes_newstring: "takes (p_newstring L v) s s"
  unfolding p_newstring_def
  by (rule takes_get, simp only: case_prod_unfold, rule takes_then [OF takes_ls takes_then [OF takes_anchor_new takes_ret]])

lemma keeps_newstring [keeps_intros]: "keeps (p_newstring L v)"
  by (simp add: keeps_def takes_newstring)

lemma keeps_next [keeps_intros]: "keeps (p_next L)" "keeps (p_lookahead L)"
  by (rule keeps_state [where n = "\<lambda>Q. lift_p (luaX_next (g_lex (pl_gen L)) (p_ls Q))
        (\<lambda>ls. pthen (pmodify (\<lambda>P. P\<lparr>p_ls := ls\<rparr>)) (anchor_new L))", OF p_next_def], intro keeps_intros)
    (rule keeps_state [where n = "\<lambda>Q. lift_p (luaX_lookahead (g_lex (pl_gen L)) (p_ls Q))
        (\<lambda>ls. pthen (pmodify (\<lambda>P. P\<lparr>p_ls := ls\<rparr>)) (anchor_new L))", OF p_lookahead_def], intro keeps_intros)

lemma takes_errors [keeps_intros]: "keeps (p_syntaxerror L msg)" "keeps (p_lexerror L msg)"
  by (simp_all add: p_syntaxerror_def p_lexerror_def keeps_def takes_def lift_p_def split: sum.splits)

lemma keeps_memory [keeps_intros]: "keeps (p_grow L n sz e lim msg)" "keeps (shrink L a n e)"
  by (rule keeps_state [where n = "\<lambda>Q. lift_p (luaM_growvector (g_realloc (pl_gen L)) (p_mem Q) n sz e lim msg)
        (\<lambda>(g, sz). pthen (pmodify (\<lambda>P. P\<lparr>p_mem := g\<rparr>)) (PRet sz))", OF p_grow_def], intro keeps_intros)
    (rule keeps_state [where n = "\<lambda>Q. lift_p (luaM_reallocv (g_realloc (pl_gen L)) (p_mem Q) a n e)
        (\<lambda>g. pmodify (\<lambda>P. P\<lparr>p_mem := g\<rparr>))", OF shrink_def], intro keeps_intros)

lemma keeps_checks [keeps_intros]:
  "keeps (error_expected L tk)" "keeps (luaY_checklimit L f v limit what)" "keeps (testnext L tk)" "keeps (check L tk)"
  "keeps (checknext L tk)" "keeps (check_match L tk who lin)" "keeps (str_checkname L)" "keeps (codestring L s)"
  "keeps (checkname L)"
  unfolding error_expected_def luaY_checklimit_def errorlimit_def testnext_def check_def checknext_def check_match_def
    str_checkname_def codestring_def checkname_def Let_def
  by (intro keeps_intros)+

lemma bl_set_locvar [simp]: "pf_bl (set_locvar i g f) = pf_bl f"
  by (simp add: set_locvar_def Let_def)

lemma bl_start_vars [simp]: "pf_bl (start_vars n f) = pf_bl f"
  by (induction n arbitrary: f) simp_all

lemma bl_adjustlocalvars [simp]: "pf_bl (adjustlocalvars n f) = pf_bl f"
  by (simp add: adjustlocalvars_def)

lemma bl_end_vars [simp]: "pf_bl (end_vars n f) = pf_bl f"
  by (induction n arbitrary: f) (simp_all add: Let_def)

lemma bl_removevars [simp]: "pf_bl (removevars n f) = pf_bl f"
  by (simp add: removevars_def)

lemma keeps_fields [keeps_intros]:
  "keeps (pmodify (set_cur (\<lambda>f. f\<lparr>pf_locvars := lv f, pf_nlocvars := nl f\<rparr>)))"
  "keeps (pmodify (set_cur (\<lambda>f. f\<lparr>pf_actvar := av f\<rparr>)))"
  "keeps (pmodify (set_cur (\<lambda>f. f\<lparr>pf_p := fp f, pf_np := np f\<rparr>)))"
  "keeps (pmodify (set_cur (\<lambda>f. f\<lparr>pf_is_vararg := va f\<rparr>)))"
  "keeps (pmodify (set_cur (\<lambda>f. f\<lparr>pf_numparams := va f\<rparr>)))"
  "keeps (pmodify (set_cur (\<lambda>f. f\<lparr>pf_linedefined := ln\<rparr>)))"
  "keeps (pmodify (set_cur (\<lambda>f. f\<lparr>pf_lastlinedefined := ln\<rparr>)))"
  "keeps (pmodify (set_cur (adjustlocalvars n)))"
  "keeps (pmodify (set_cur (removevars n)))"
  "keeps (pmodify (set_cur (\<lambda>f. set_locvar (i f) (g f) f)))"
  "keeps (pmodify (set_cur (\<lambda>f. f\<lparr>pf_bl := (pf_bl f)[j := bl f]\<rparr>)))"
  by (rule keeps_cur; simp)+

lemma keeps_vars [keeps_intros]:
  "keeps (registerlocalvar L name)" "keeps (new_localvar L name n)" "keeps (new_localvarliteral L s n)"
  "keeps (adjust_assign L nvars nexps e)"
  unfolding registerlocalvar_def new_localvar_def new_localvarliteral_def adjust_assign_def Let_def
  by (intro keeps_intros)+

lemma length_mark_block [simp]: "length (mark_block lv bls) = length bls"
  by (induction bls) simp_all

lemma singlevaraux_shape:
  "singlevaraux L ls g fss n base = Inr (r, fss', g') \<Longrightarrow> map (\<lambda>f. length (pf_bl f)) fss' = map (\<lambda>f. length (pf_bl f)) fss"
proof (induction fss arbitrary: r fss' g' base)
  case (Cons f fss)
  have up: "indexupvalue L ls g f n k x = Inr (i, f', g') \<Longrightarrow> pf_bl f' = pf_bl f" for g k x i f' g'
    using lexerror_neq_Inr(1)
    by (auto simp: indexupvalue_def limit_error_def Let_def bind_Inr_iff split: option.splits if_splits)
  show ?case
    using Cons by (auto simp: Let_def bind_Inr_iff markupval_def dest: up split: if_splits)
qed simp

lemma keeps_singlevar [keeps_intros]: "keeps (singlevar L)"
proof -
  have "keeps (resolve_name L name)" for name
    using singlevaraux_shape
    by (fastforce simp: keeps_def takes_def resolve_name_def lift_p_def pthen_def pbind_def pmodify_def shape_of_def
        split: sum.splits)
  then show ?thesis
    unfolding singlevar_def by (intro keeps_intros)
qed

text \<open>What opens and closes a block, a level and a function.\<close>

lemma takes_enter_block: "takes (enter_block brk) (c, k, d # ds, b) (c, k, Suc d # ds, b)"
  unfolding enter_block_def by (rule takes_cur) (simp add: enterblock_def)

lemma takes_leaveblock: "takes (leaveblock L) (c, k, Suc d # ds, b) (c, k, d # ds, b)"
proof -
  have "takes (pmodify (set_cur (\<lambda>f. removevars n (f\<lparr>pf_bl := tl (pf_bl f)\<rparr>)))) (c, k, Suc d # ds, b) (c, k, d # ds, b)" for n
    by (rule takes_cur) simp
  then show ?thesis
    unfolding leaveblock_def by (rule takes_get [OF takes_then [OF _ takes_keeps]]) (intro keeps_intros)
qed

lemma takes_enterlevel: "takes (enterlevel L) (c, k, d # ds, b) (c + 1, k, d # ds, b)"
proof -
  have "takes (pmodify (\<lambda>P. P\<lparr>p_ccalls := p_ccalls P + 1\<rparr>)) (c, k, d # ds, b) (c + 1, k, d # ds, b)"
    by (auto simp: takes_def pmodify_def shape_of_def)
  then show ?thesis
    unfolding enterlevel_def by (rule takes_then [OF _ takes_keeps]) (intro keeps_intros)
qed

lemma takes_leavelevel: "takes leavelevel (c + 1, k, ds, b) (c, k, ds, b)"
  by (auto simp: takes_def leavelevel_def pmodify_def shape_of_def)

lemma takes_open_func: "takes (open_func L) (c, k, ds, b) (c, k + 1, 0 # ds, b)"
  by (auto simp: takes_def open_func_def new_func_def shape_of_def split: option.splits sum.splits)

lemma takes_close_func: "takes (close_func L) (c, k + 1, 0 # ds, b) (c, k, ds, b)"
proof -
  have anchor: "takes (anchor_token L) s s" for s
    unfolding anchor_token_def pif_def drop_result_def
    by (rule takes_get, cases s, simp, intro conjI impI takes_ret takes_get takes_then [OF takes_newstring])
  have pop: "takes (pmodify (\<lambda>P. P\<lparr>p_funcs := tl (p_funcs P), p_done := p_done P @ [f\<lparr>pf_fs := fs, pf_p := ps, pf_locvars := vs, pf_upnames := ns\<rparr>]\<rparr>))
      (c, k + 1, 0 # ds, b) (c, k, ds, b)" if "pf_bl f = []" for f fs ps vs ns
    using that by (auto simp: takes_def pmodify_def shape_of_def)
  have get: "takes (pget cur m) (c, k + 1, 0 # ds, b) s'" if "\<And>f. pf_bl f = [] \<Longrightarrow> takes (m f) (c, k + 1, 0 # ds, b) s'"
    for m :: "PFunc \<Rightarrow> nat pm" and s'
    using that shape_cur(1) [where d = 0] unfolding takes_def pget_def by fastforce
  show ?thesis
    unfolding close_func_def Let_def
    by (rule takes_then [OF takes_keeps], intro keeps_intros, rule takes_then [OF takes_keeps], intro keeps_intros,
        rule get, (rule takes_then [OF takes_keeps], intro keeps_intros)+, rule takes_get, rule takes_then,
        erule pop, rule takes_then [OF anchor takes_ret])
qed

section \<open>The rules\<close>

text \<open>
  The two rules a rule calls back: an expression and a chunk leave everything that was opened before
  as it was.
\<close>

locale callbacks =
  fixes X :: pcalls
  assumes subexpr: "keeps (c_subexpr X limit)"
    and chunk: "keeps (c_chunk X)"
begin

lemma expr_keeps: "keeps (expr X)"
  unfolding expr_def using subexpr by (intro keeps_intros)

lemmas calls_intros = keeps_intros subexpr chunk expr_keeps

lemma parlist_keeps: "keeps (parlist L X)"
proof -
  have "keeps (parlist_loop n L i)" for n i
    by (induction n arbitrary: i) (auto intro!: keeps_intros)
  then show ?thesis
    unfolding parlist_def by (intro keeps_intros)
qed

lemma pushclosure_keeps: "keeps (pushclosure L n)"
proof -
  have "keeps (push_upvalues L us)" for us
    by (induction us) (auto intro!: keeps_intros)
  then show ?thesis
    unfolding pushclosure_def Let_def by (intro keeps_intros)
qed

lemma body_keeps: "keeps (body L X needself line)"
  unfolding keeps_def body_def
  by (intro allI, rule takes_then [OF takes_open_func], (rule takes_then [OF takes_keeps], intro keeps_intros)+,
      rule takes_then [OF takes_keeps [OF parlist_keeps]], rule takes_then [OF takes_keeps], intro keeps_intros,
      rule takes_then [OF takes_keeps [OF chunk]], rule takes_get, (rule takes_then [OF takes_keeps], intro keeps_intros)+,
      rule takes_bind [OF takes_close_func takes_keeps [OF pushclosure_keeps]])

lemma block_keeps: "keeps (block L X)"
  unfolding keeps_def block_def
  by (intro allI, rule takes_then [OF takes_enter_block takes_then [OF takes_keeps [OF chunk] takes_leaveblock]])

lemma index_keeps: "keeps (field L v)" "keeps (yindex L X)"
  unfolding field_def yindex_def by (intro calls_intros)+

lemma constructor_keeps: "keeps (constructor L X)"
proof -
  have fields: "keeps (recfield L X t cc)" "keeps (closelistfield L t cc)" "keeps (lastlistfield L t cc)" "keeps (listfield L X cc)"
    for t cc
    unfolding recfield_def closelistfield_def lastlistfield_def listfield_def Let_def
    by (intro calls_intros index_keeps)+
  have loop: "keeps (cons_loop n L X t cc)" for n t cc
    by (induction n arbitrary: cc) (auto intro!: calls_intros fields)
  show ?thesis
    unfolding constructor_def Let_def by (intro calls_intros loop fields)
qed

lemma explist1_keeps: "keeps (explist1 L X)"
proof -
  have "keeps (explist_loop n L X v i)" for n v i
    by (induction n arbitrary: v i) (auto intro!: calls_intros)
  then show ?thesis
    unfolding explist1_def by (intro calls_intros)
qed

lemma drop_keeps: "keeps m \<Longrightarrow> keeps (drop_result m)"
  unfolding drop_result_def by (intro keeps_intros)

lemma funcargs_keeps: "keeps (funcargs L X f)"
  unfolding funcargs_def Let_def by (intro calls_intros explist1_keeps constructor_keeps drop_keeps)

lemma primaryexp_keeps: "keeps (primaryexp L X)"
proof -
  have "keeps (primary_loop n L X v)" for n v
    by (induction n arbitrary: v) (auto simp: Let_def intro!: calls_intros funcargs_keeps index_keeps)
  moreover have "keeps (prefixexp L X)"
    unfolding prefixexp_def by (intro calls_intros)
  ultimately show ?thesis
    unfolding primaryexp_def by (intro calls_intros)
qed

lemma simpleexp_keeps: "keeps (simpleexp L X)"
  unfolding simpleexp_def Let_def by (intro calls_intros constructor_keeps body_keeps primaryexp_keeps)

lemma subexpr_keeps: "keeps (subexpr L X limit)"
proof -
  have loop: "keeps (binop_loop n L X limit op v)" for n op v
  proof (induction n arbitrary: op v)
    case (Suc n)
    show ?case
      by (subst binop_loop.simps) (simp, intro calls_intros subexpr Suc.IH conjI impI)
  qed (subst binop_loop.simps, simp, intro keeps_intros conjI impI)
  show ?thesis
    unfolding keeps_def subexpr_def Let_def
    by (intro allI, rule takes_then [OF takes_enterlevel], rule takes_get, rule takes_bind [OF takes_keeps],
        intro calls_intros simpleexp_keeps, rule takes_get, rule takes_bind [OF takes_keeps [OF loop]],
        rule takes_then [OF takes_leavelevel takes_ret])
qed

end

text \<open>A statement leaves a block when it ends, and has entered it before.\<close>

definition leaves :: "'a pm \<Rightarrow> bool" where
  "leaves m \<longleftrightarrow> (\<forall>c k d ds b. takes m (c, k, Suc d # ds, b) (c, k, d # ds, b))"

lemma leaves_then: "keeps m \<Longrightarrow> leaves m' \<Longrightarrow> leaves (pthen m m')"
  unfolding keeps_def leaves_def by (blast intro: takes_then)

lemma leaves_bind: "keeps m \<Longrightarrow> (\<And>x. leaves (f x)) \<Longrightarrow> leaves (pbind m f)"
  unfolding keeps_def leaves_def by (blast intro: takes_bind)

lemma leaves_get: "(\<And>x. leaves (f x)) \<Longrightarrow> leaves (pget g f)"
  unfolding leaves_def by (blast intro: takes_get)

lemma leaves_block: "leaves (leaveblock L)" "keeps m \<Longrightarrow> leaves (pthen (leaveblock L) m)"
  unfolding keeps_def leaves_def by (blast intro: takes_leaveblock takes_then)+

lemma leaves_first: "leaves m \<Longrightarrow> keeps m' \<Longrightarrow> leaves (pthen m m')"
  unfolding keeps_def leaves_def by (blast intro: takes_then)

lemma enter_leaves: "leaves m \<Longrightarrow> keeps (pthen (enter_block brk) m)"
  unfolding keeps_def leaves_def by (blast intro: takes_then takes_enter_block)

context callbacks
begin

lemma patch_keeps: "keeps (patchtohere L l)" "keeps (patchlist L l t)" "keeps getlabel"
  unfolding patchtohere_def patchlist_def getlabel_def by (intro keeps_intros)+

lemma cond_keeps: "keeps (cond L X)"
  unfolding cond_def Let_def by (intro calls_intros)

lemma breakstat_keeps: "keeps (breakstat L)"
  unfolding breakstat_def Let_def by (intro keeps_intros drop_keeps)

lemmas stat_intros = calls_intros patch_keeps cond_keeps breakstat_keeps block_keeps body_keeps explist1_keeps
  primaryexp_keeps index_keeps drop_keeps

lemma whilestat_keeps: "keeps (whilestat L X line)"
  unfolding whilestat_def
  by (intro keeps_then keeps_bind stat_intros enter_leaves leaves_block leaves_then leaves_bind)

lemma repeatstat_keeps: "keeps (repeatstat L X line)"
proof -
  have ends: "leaves (if \<not> up then pthen (leaveblock L) (patchlist L e r)
      else pthen (breakstat L) (pthen (patchtohere L e) (pthen (leaveblock L)
        (pbind (on_fs (luaK_jump (pl_gen L))) (\<lambda>j. patchlist L j r)))))" for up e r
    by (simp, intro conjI impI leaves_block leaves_then stat_intros)
  show ?thesis
    unfolding keeps_def repeatstat_def
    by (intro allI, rule takes_bind [OF takes_keeps [OF patch_keeps(3)]], rule takes_then [OF takes_enter_block],
        rule takes_then [OF takes_enter_block], (rule takes_then [OF takes_keeps], intro calls_intros)+,
        rule takes_bind [OF takes_keeps [OF cond_keeps]], rule takes_get, rule takes_then [OF _ takes_leaveblock],
        rule ends [unfolded leaves_def, rule_format])
qed

lemma for_keeps: "keeps (forbody L X base line nvars isnum)"
  unfolding forbody_def Let_def
  by (intro stat_intros enter_leaves leaves_block leaves_then)

lemma exp1_keeps: "keeps (exp1 L X)"
  unfolding exp1_def by (intro stat_intros)

lemma names_keeps: "keeps (names_loop n L i)"
  by (induction n arbitrary: i) (auto intro!: keeps_intros)

lemma forstat_keeps: "keeps (forstat L X line)"
proof -
  have "keeps (fornum L X name line)" "keeps (forlist L X name)" for name
    unfolding fornum_def forlist_def Let_def by (intro stat_intros exp1_keeps names_keeps for_keeps)+
  then show ?thesis
    unfolding forstat_def
    by (intro enter_leaves leaves_then leaves_bind leaves_get leaves_block stat_intros)
qed

lemma ifstat_keeps: "keeps (ifstat L X line)"
proof -
  have parts: "keeps (test_then_block L X)" "keeps (escape_jump L e f)" for e f
    unfolding test_then_block_def escape_jump_def by (intro stat_intros)+
  have loop: "keeps (elseif_loop n L X f e)" for n f e
    by (induction n arbitrary: f e) (auto intro!: stat_intros parts)
  show ?thesis
    unfolding ifstat_def by (intro stat_intros parts loop)
qed

lemma local_keeps: "keeps (localfunc L X)" "keeps (localstat L X)"
  unfolding localfunc_def localstat_def Let_def by (intro stat_intros names_keeps)+

lemma funcstat_keeps: "keeps (funcstat L X line)"
proof -
  have "keeps (field_loop n L v)" for n v
    by (induction n arbitrary: v) (auto intro!: stat_intros)
  then show ?thesis
    unfolding funcstat_def funcname_def by (intro stat_intros)
qed

lemma exprstat_keeps: "keeps (exprstat L X)"
proof -
  have "keeps (check_conflict L lhs v)" for lhs v
    unfolding check_conflict_def Let_def by (intro keeps_intros)
  then have "keeps (assignment n L X lhs i)" for n lhs i
    by (induction n arbitrary: lhs i) (auto simp: Let_def intro!: stat_intros)
  then show ?thesis
    unfolding exprstat_def by (intro stat_intros)
qed

lemma retstat_keeps: "keeps (retstat L X)"
  unfolding retstat_def Let_def by (intro stat_intros)

lemma statement_keeps: "keeps (statement L X)"
  unfolding statement_def Let_def
  by (intro stat_intros ifstat_keeps whilestat_keeps forstat_keeps repeatstat_keeps funcstat_keeps local_keeps
      retstat_keeps exprstat_keeps)

lemma chunk_keeps: "keeps (Lua_Grammar.chunk L X)"
proof -
  have loop: "keeps (chunk_loop n L X islast)" for n islast
  proof (induction n arbitrary: islast)
    case (Suc n)
    show ?case
      by (subst chunk_loop.simps, rule keeps_get, rule keeps_if, simp) (intro keeps_intros statement_keeps Suc.IH)+
  qed (subst chunk_loop.simps, rule keeps_get, rule keeps_if, simp, (intro keeps_intros)+)
  show ?thesis
    unfolding keeps_def Lua_Grammar.chunk_def
    by (intro allI, rule takes_then [OF takes_enterlevel takes_then [OF takes_keeps [OF loop] takes_leavelevel]])
qed

end

section \<open>The parser\<close>

lemma calls_keep: "callbacks (calls L n)"
proof (induction n)
  case (Suc n)
  show ?case
    using callbacks.subexpr_keeps [OF Suc] callbacks.chunk_keeps [OF Suc] by unfold_locales (simp_all add: Let_def)
qed (unfold_locales, simp_all add: keeps_loop)

interpretation parser: callbacks "calls L n" for L n
  by (rule calls_keep)


text \<open>A loop whose body is empty.\<close>

lemma loop_parses: "case luaY_parser sample_plib 3 sample_ls \<lparr>totalbytes = 0\<rparr> 7 (luaZ_init [''while nil do end'']) ''=x'' of
    PRet f P \<Rightarrow> p_opened P = 1 | _ \<Rightarrow> False"
  by code_simp


end
