(* ===== verification/Preload_Log.thy ===== *)
theory Preload_Log
  imports Lua_Object "HOL-Library.Monad_Syntax"
begin

text \<open>
  The first half of \<^verbatim>\<open>src/etc/preload.c\<close>, the library that \<^verbatim>\<open>buildsh\<close> preloads into the
  commands it traces: each wrapped system call runs the original one and, when that succeeded,
  appends a line to the log file, with the file locked. The C library and the kernel are the
  parameter \<open>libc\<close>; a call of it reads and writes the pair of \<open>errno\<close> and the rest of the world.
  The loops of \<open>my_lock\<close> and \<open>write_all\<close> end only when the kernel lets them, so they are partial
  functions into \<open>option\<close> and \<open>None\<close> is a call that never returns. The pointers to the original
  functions are taken as already resolved (\<open>def_init\<close> aborts the process otherwise).
\<close>

section \<open>The process and the C library\<close>

record 'w proc =
  errno :: int
  log_fd :: int
  world :: 'w

type_synonym ('w, 'r) sys = "int \<times> 'w \<Rightarrow> 'r \<times> int \<times> 'w"

definition sys :: "('w, 'r) sys \<Rightarrow> 'w proc \<Rightarrow> 'r \<times> 'w proc" where
  "sys f p = (case f (errno p, world p) of (r, e, w) \<Rightarrow> (r, p\<lparr>errno := e, world := w\<rparr>))"

text \<open>
  A pointer to a C string, as an entry of \<open>argv\<close> or \<open>environ\<close> holds it: an entry nothing was
  written to, \<open>NULL\<close>, a string of the caller, one in static memory, or an allocated block with its
  bytes, \<open>None\<close> for a byte nothing was written to.
\<close>

datatype ptr = Uninit | Null | Caller bytes | Static bytes | Heap "char option list"

record 'w libc =
  k_getpid :: "'w \<Rightarrow> int"
  k_getenv :: "bytes \<Rightarrow> 'w \<Rightarrow> bytes option"
  k_fileno :: "addr \<Rightarrow> 'w \<Rightarrow> int"
  k_dirfd :: "addr \<Rightarrow> 'w \<Rightarrow> int"
  k_setlkw :: "int \<Rightarrow> ('w, int) sys"
  k_unlck :: "int \<Rightarrow> ('w, int) sys"
  k_write :: "int \<Rightarrow> bytes \<Rightarrow> ('w, int) sys"
  k_malloc :: "nat \<Rightarrow> ('w, bool) sys"
  k_environ :: "'w \<Rightarrow> ptr list"
  k_close :: "int \<Rightarrow> ('w, int) sys"
  orig_fopen :: "bytes \<Rightarrow> bytes \<Rightarrow> ('w, addr) sys"
  orig_opendir :: "bytes \<Rightarrow> ('w, addr) sys"
  orig_open2 :: "bytes \<Rightarrow> u32 \<Rightarrow> ('w, int) sys"
  orig_open3 :: "bytes \<Rightarrow> u32 \<Rightarrow> u32 \<Rightarrow> ('w, int) sys"
  orig_openat2 :: "int \<Rightarrow> bytes \<Rightarrow> u32 \<Rightarrow> ('w, int) sys"
  orig_openat3 :: "int \<Rightarrow> bytes \<Rightarrow> u32 \<Rightarrow> u32 \<Rightarrow> ('w, int) sys"
  orig_creat :: "bytes \<Rightarrow> u32 \<Rightarrow> ('w, int) sys"
  orig_mkdir :: "bytes \<Rightarrow> u32 \<Rightarrow> ('w, int) sys"
  orig_mkdirat :: "int \<Rightarrow> bytes \<Rightarrow> u32 \<Rightarrow> ('w, int) sys"
  orig_chdir :: "bytes \<Rightarrow> ('w, int) sys"
  orig_fchdir :: "int \<Rightarrow> ('w, int) sys"
  orig_rename :: "bytes \<Rightarrow> bytes \<Rightarrow> ('w, int) sys"
  orig_renameat :: "int \<Rightarrow> bytes \<Rightarrow> int \<Rightarrow> bytes \<Rightarrow> ('w, int) sys"
  orig_fork :: "('w, int) sys"
  orig_execve :: "bytes \<Rightarrow> ptr list \<Rightarrow> ptr list \<Rightarrow> ('w, int) sys"
  orig_execvpe :: "bytes \<Rightarrow> ptr list \<Rightarrow> ptr list \<Rightarrow> ('w, int) sys"

text \<open>The constants of the system headers of the host.\<close>

definition EINTR :: int where "EINTR = 4"
definition ENOMEM :: int where "ENOMEM = 12"
definition AT_FDCWD :: int where "AT_FDCWD = - 100"
definition O_WRONLY :: u32 where "O_WRONLY = 0x1"
definition O_RDWR :: u32 where "O_RDWR = 0x2"
definition O_CREAT :: u32 where "O_CREAT = 0x40"
definition O_APPEND :: u32 where "O_APPEND = 0x400"

section \<open>Writing to the log\<close>

definition BUILDSH_TEMPFILE_DEFAULT :: bytes where
  "BUILDSH_TEMPFILE_DEFAULT = ''/tmp/preload.log''"

definition open_log_file :: "'w libc \<Rightarrow> 'w proc \<Rightarrow> int \<times> 'w proc" where
  "open_log_file K p =
     (if log_fd p < 0
      then let fname = (case k_getenv K ''BUILDSH_TEMPFILE'' (world p) of
                          None \<Rightarrow> BUILDSH_TEMPFILE_DEFAULT | Some f \<Rightarrow> f);
               (fd, p) = sys (orig_open3 K fname (O_CREAT OR O_WRONLY OR O_APPEND) 0x180) p
           in (fd, p\<lparr>log_fd := fd\<rparr>)
      else (log_fd p, p))"

definition close_log_file :: "'w libc \<Rightarrow> 'w proc \<Rightarrow> 'w proc" where
  "close_log_file K p =
     (let fd = log_fd p; p = p\<lparr>log_fd := - 1\<rparr>
      in if 0 \<le> fd then snd (sys (k_close K fd) p) else p)"

partial_function (option) my_lock :: "'w libc \<Rightarrow> int \<Rightarrow> 'w proc \<Rightarrow> (bool \<times> 'w proc) option" where
  "my_lock K fd p =
     (let (ret, p) = sys (k_setlkw K fd) (p\<lparr>errno := 0\<rparr>)
      in if ret < 0 \<and> errno p = EINTR then my_lock K fd p else Some (0 \<le> ret, p))"

definition my_unlock :: "'w libc \<Rightarrow> int \<Rightarrow> 'w proc \<Rightarrow> bool \<times> 'w proc" where
  "my_unlock K fd p = (let (ret, p) = sys (k_unlck K fd) p in (0 \<le> ret, p))"

text \<open>\<open>written\<close> counts the bytes of \<open>buf\<close> that \<open>write\<close> has taken so far.\<close>

partial_function (option) write_loop ::
  "'w libc \<Rightarrow> int \<Rightarrow> bytes \<Rightarrow> nat \<Rightarrow> 'w proc \<Rightarrow> (bool \<times> 'w proc) option" where
  "write_loop K fd buf written p =
     (let (ret, p) = sys (k_write K fd (drop written buf)) (p\<lparr>errno := 0\<rparr>)
      in if ret < 0
         then (if errno p = EINTR then write_loop K fd buf written p else Some (False, p))
         else let written = written + nat ret
              in if written < length buf then write_loop K fd buf written p else Some (True, p))"

definition write_all :: "'w libc \<Rightarrow> int \<Rightarrow> bytes \<Rightarrow> 'w proc \<Rightarrow> (bool \<times> 'w proc) option" where
  "write_all K fd buf p = write_loop K fd buf 0 p"

definition hexdigits :: bytes where "hexdigits = ''0123456789abcdef''"

definition hex_escape :: "char \<Rightarrow> bytes" where
  "hex_escape c =
     [CHR 0x5C, CHR ''x'', hexdigits ! (of_char c div 16 mod 16), hexdigits ! (of_char c mod 16)]"

fun write_name :: "'w libc \<Rightarrow> int \<Rightarrow> bytes \<Rightarrow> 'w proc \<Rightarrow> (bool \<times> 'w proc) option" where
  "write_name K fd [] p = Some (True, p)"
| "write_name K fd (c # s) p =
     do { (ok, p) \<leftarrow> write_all K fd (hex_escape c) p;
          if ok then write_name K fd s p else Some (False, p) }"

text \<open>The macros \<open>write_int\<close> (always called with \<open>%d\<close>) and \<open>write_literal\<close> drop the result of
  \<open>write_all\<close>, and so do the callers of \<open>write_name\<close>.\<close>

definition write_int :: "'w libc \<Rightarrow> int \<Rightarrow> int \<Rightarrow> 'w proc \<Rightarrow> 'w proc option" where
  "write_int K fd v p = do { (_, p) \<leftarrow> write_all K fd (int_dec v) p; Some p }"

definition write_literal :: "'w libc \<Rightarrow> int \<Rightarrow> bytes \<Rightarrow> 'w proc \<Rightarrow> 'w proc option" where
  "write_literal K fd s p = do { (_, p) \<leftarrow> write_all K fd s p; Some p }"

definition put_name :: "'w libc \<Rightarrow> int \<Rightarrow> bytes \<Rightarrow> 'w proc \<Rightarrow> 'w proc option" where
  "put_name K fd s p = do { (_, p) \<leftarrow> write_name K fd s p; Some p }"

text \<open>A directory descriptor, with \<open>AT_FDCWD\<close> by name, as four of the calls write it.\<close>

definition put_dirfd :: "'w libc \<Rightarrow> int \<Rightarrow> int \<Rightarrow> 'w proc \<Rightarrow> 'w proc option" where
  "put_dirfd K fd d p =
     (if d = AT_FDCWD then write_literal K fd ''AT_FDCWD'' p else write_int K fd d p)"

text \<open>What every wrapper does around its line: open and lock the log, write, unlock.\<close>

definition with_log ::
  "'w libc \<Rightarrow> (int \<Rightarrow> 'w proc \<Rightarrow> 'w proc option) \<Rightarrow> 'w proc \<Rightarrow> 'w proc option" where
  "with_log K line p =
     (let (fd, p) = open_log_file K p
      in if 0 \<le> fd
         then do { (locked, p) \<leftarrow> my_lock K fd p;
                   if locked then do { p \<leftarrow> line fd p; Some (snd (my_unlock K fd p)) }
                   else Some p }
         else Some p)"

section \<open>The wrapped calls\<close>

text \<open>
  Each wrapper calls the original function, keeps its \<open>errno\<close>, logs a successful call and puts
  \<open>errno\<close> back. A returned \<open>FILE*\<close> or \<open>DIR*\<close> is an address, \<open>0\<close> for \<open>NULL\<close>.
\<close>

definition my_fopen :: "'w libc \<Rightarrow> bytes \<Rightarrow> bytes \<Rightarrow> 'w proc \<Rightarrow> (addr \<times> 'w proc) option" where
  "my_fopen K file mode p =
     (let (retval, p) = sys (orig_fopen K file mode) p; myerrno = errno p
      in do { p \<leftarrow> (if retval \<noteq> 0
                    then with_log K (\<lambda>fd p. do {
                        p \<leftarrow> write_int K fd (k_getpid K (world p)) p;
                        p \<leftarrow> write_literal K fd '' open '' p;
                        p \<leftarrow> put_name K fd file p;
                        p \<leftarrow> write_literal K fd (if take 1 mode = ''r'' \<and> CHR ''+'' \<notin> set mode then '' in '' else '' out '') p;
                        p \<leftarrow> write_int K fd (k_fileno K retval (world p)) p;
                        p \<leftarrow> write_literal K fd [CHR 0x0A] p;
                        Some p }) p
                    else Some p);
              Some (retval, p\<lparr>errno := myerrno\<rparr>) })"

definition my_opendir :: "'w libc \<Rightarrow> bytes \<Rightarrow> 'w proc \<Rightarrow> (addr \<times> 'w proc) option" where
  "my_opendir K name p =
     (let (retval, p) = sys (orig_opendir K name) p; myerrno = errno p
      in do { p \<leftarrow> (if retval \<noteq> 0
                    then with_log K (\<lambda>fd p. do {
                        p \<leftarrow> write_int K fd (k_getpid K (world p)) p;
                        p \<leftarrow> write_literal K fd '' open '' p;
                        p \<leftarrow> put_name K fd name p;
                        p \<leftarrow> write_literal K fd '' in '' p;
                        p \<leftarrow> write_int K fd (k_dirfd K retval (world p)) p;
                        p \<leftarrow> write_literal K fd [CHR 0x0A] p;
                        Some p }) p
                    else Some p);
              Some (retval, p\<lparr>errno := myerrno\<rparr>) })"

definition my_open :: "'w libc \<Rightarrow> bytes \<Rightarrow> u32 \<Rightarrow> u32 \<Rightarrow> 'w proc \<Rightarrow> (int \<times> 'w proc) option" where
  "my_open K file oflags mode p =
     (let (retval, p) = sys (if oflags AND O_CREAT \<noteq> 0 then orig_open3 K file oflags mode else orig_open2 K file oflags) p; myerrno = errno p
      in do { p \<leftarrow> (if 0 \<le> retval
                    then with_log K (\<lambda>fd p. do {
                        p \<leftarrow> write_int K fd (k_getpid K (world p)) p;
                        p \<leftarrow> write_literal K fd '' open '' p;
                        p \<leftarrow> put_name K fd file p;
                        p \<leftarrow> write_literal K fd (if oflags AND O_WRONLY \<noteq> 0 \<or> oflags AND O_RDWR \<noteq> 0 then '' out '' else '' in '') p;
                        p \<leftarrow> write_int K fd retval p;
                        p \<leftarrow> write_literal K fd [CHR 0x0A] p;
                        Some p }) p
                    else Some p);
              Some (retval, p\<lparr>errno := myerrno\<rparr>) })"

definition my_openat :: "'w libc \<Rightarrow> int \<Rightarrow> bytes \<Rightarrow> u32 \<Rightarrow> u32 \<Rightarrow> 'w proc \<Rightarrow> (int \<times> 'w proc) option" where
  "my_openat K dirfd file oflags mode p =
     (let (retval, p) = sys (if oflags AND O_CREAT \<noteq> 0 then orig_openat3 K dirfd file oflags mode
           else orig_openat2 K dirfd file oflags) p; myerrno = errno p
      in do { p \<leftarrow> (if 0 \<le> retval
                    then with_log K (\<lambda>fd p. do {
                        p \<leftarrow> write_int K fd (k_getpid K (world p)) p;
                        p \<leftarrow> write_literal K fd '' openat '' p;
                        p \<leftarrow> put_dirfd K fd dirfd p;
                        p \<leftarrow> write_literal K fd '' '' p;
                        p \<leftarrow> put_name K fd file p;
                        p \<leftarrow> write_literal K fd (if oflags AND O_WRONLY \<noteq> 0 \<or> oflags AND O_RDWR \<noteq> 0 then '' out '' else '' in '') p;
                        p \<leftarrow> write_int K fd retval p;
                        p \<leftarrow> write_literal K fd [CHR 0x0A] p;
                        Some p }) p
                    else Some p);
              Some (retval, p\<lparr>errno := myerrno\<rparr>) })"

definition my_creat :: "'w libc \<Rightarrow> bytes \<Rightarrow> u32 \<Rightarrow> 'w proc \<Rightarrow> (int \<times> 'w proc) option" where
  "my_creat K file mode p =
     (let (retval, p) = sys (orig_creat K file mode) p; myerrno = errno p
      in do { p \<leftarrow> (if 0 \<le> retval
                    then with_log K (\<lambda>fd p. do {
                        p \<leftarrow> write_int K fd (k_getpid K (world p)) p;
                        p \<leftarrow> write_literal K fd '' creat '' p;
                        p \<leftarrow> put_name K fd file p;
                        p \<leftarrow> write_literal K fd '' '' p;
                        p \<leftarrow> write_int K fd retval p;
                        p \<leftarrow> write_literal K fd [CHR 0x0A] p;
                        Some p }) p
                    else Some p);
              Some (retval, p\<lparr>errno := myerrno\<rparr>) })"

definition my_mkdir :: "'w libc \<Rightarrow> bytes \<Rightarrow> u32 \<Rightarrow> 'w proc \<Rightarrow> (int \<times> 'w proc) option" where
  "my_mkdir K dir mode p =
     (let (retval, p) = sys (orig_mkdir K dir mode) p; myerrno = errno p
      in do { p \<leftarrow> (if 0 \<le> retval
                    then with_log K (\<lambda>fd p. do {
                        p \<leftarrow> write_int K fd (k_getpid K (world p)) p;
                        p \<leftarrow> write_literal K fd '' mkdir '' p;
                        p \<leftarrow> put_name K fd dir p;
                        p \<leftarrow> write_literal K fd [CHR 0x0A] p;
                        Some p }) p
                    else Some p);
              Some (retval, p\<lparr>errno := myerrno\<rparr>) })"

definition my_mkdirat :: "'w libc \<Rightarrow> int \<Rightarrow> bytes \<Rightarrow> u32 \<Rightarrow> 'w proc \<Rightarrow> (int \<times> 'w proc) option" where
  "my_mkdirat K dirfd dir mode p =
     (let (retval, p) = sys (orig_mkdirat K dirfd dir mode) p; myerrno = errno p
      in do { p \<leftarrow> (if 0 \<le> retval
                    then with_log K (\<lambda>fd p. do {
                        p \<leftarrow> write_int K fd (k_getpid K (world p)) p;
                        p \<leftarrow> write_literal K fd '' mkdirat '' p;
                        p \<leftarrow> put_dirfd K fd dirfd p;
                        p \<leftarrow> write_literal K fd '' '' p;
                        p \<leftarrow> put_name K fd dir p;
                        p \<leftarrow> write_literal K fd [CHR 0x0A] p;
                        Some p }) p
                    else Some p);
              Some (retval, p\<lparr>errno := myerrno\<rparr>) })"

definition my_chdir :: "'w libc \<Rightarrow> bytes \<Rightarrow> 'w proc \<Rightarrow> (int \<times> 'w proc) option" where
  "my_chdir K dir p =
     (let (retval, p) = sys (orig_chdir K dir) p; myerrno = errno p
      in do { p \<leftarrow> (if 0 \<le> retval
                    then with_log K (\<lambda>fd p. do {
                        p \<leftarrow> write_int K fd (k_getpid K (world p)) p;
                        p \<leftarrow> write_literal K fd '' chdir '' p;
                        p \<leftarrow> put_name K fd dir p;
                        p \<leftarrow> write_literal K fd [CHR 0x0A] p;
                        Some p }) p
                    else Some p);
              Some (retval, p\<lparr>errno := myerrno\<rparr>) })"

definition my_fchdir :: "'w libc \<Rightarrow> int \<Rightarrow> 'w proc \<Rightarrow> (int \<times> 'w proc) option" where
  "my_fchdir K dirfd p =
     (let (retval, p) = sys (orig_fchdir K dirfd) p; myerrno = errno p
      in do { p \<leftarrow> (if 0 \<le> retval
                    then with_log K (\<lambda>fd p. do {
                        p \<leftarrow> write_int K fd (k_getpid K (world p)) p;
                        p \<leftarrow> write_literal K fd '' fchdir '' p;
                        p \<leftarrow> write_int K fd dirfd p;
                        p \<leftarrow> write_literal K fd [CHR 0x0A] p;
                        Some p }) p
                    else Some p);
              Some (retval, p\<lparr>errno := myerrno\<rparr>) })"

definition my_rename :: "'w libc \<Rightarrow> bytes \<Rightarrow> bytes \<Rightarrow> 'w proc \<Rightarrow> (int \<times> 'w proc) option" where
  "my_rename K old newn p =
     (let (retval, p) = sys (orig_rename K old newn) p; myerrno = errno p
      in do { p \<leftarrow> (if 0 \<le> retval
                    then with_log K (\<lambda>fd p. do {
                        p \<leftarrow> write_int K fd (k_getpid K (world p)) p;
                        p \<leftarrow> write_literal K fd '' rename '' p;
                        p \<leftarrow> put_name K fd old p;
                        p \<leftarrow> write_literal K fd '' '' p;
                        p \<leftarrow> put_name K fd newn p;
                        p \<leftarrow> write_literal K fd [CHR 0x0A] p;
                        Some p }) p
                    else Some p);
              Some (retval, p\<lparr>errno := myerrno\<rparr>) })"

definition my_renameat :: "'w libc \<Rightarrow> int \<Rightarrow> bytes \<Rightarrow> int \<Rightarrow> bytes \<Rightarrow> 'w proc \<Rightarrow> (int \<times> 'w proc) option" where
  "my_renameat K ofd old nfd newn p =
     (let (retval, p) = sys (orig_renameat K ofd old nfd newn) p; myerrno = errno p
      in do { p \<leftarrow> (if 0 \<le> retval
                    then with_log K (\<lambda>fd p. do {
                        p \<leftarrow> write_int K fd (k_getpid K (world p)) p;
                        p \<leftarrow> write_literal K fd '' renameat '' p;
                        p \<leftarrow> put_dirfd K fd ofd p;
                        p \<leftarrow> write_literal K fd '' '' p;
                        p \<leftarrow> put_name K fd old p;
                        p \<leftarrow> write_literal K fd '' '' p;
                        p \<leftarrow> put_dirfd K fd nfd p;
                        p \<leftarrow> write_literal K fd '' '' p;
                        p \<leftarrow> put_name K fd newn p;
                        p \<leftarrow> write_literal K fd [CHR 0x0A] p;
                        Some p }) p
                    else Some p);
              Some (retval, p\<lparr>errno := myerrno\<rparr>) })"

definition report_fork :: "'w libc \<Rightarrow> int \<Rightarrow> 'w proc \<Rightarrow> 'w proc option" where
  "report_fork K cpid p =
     (let myerrno = errno p
      in do { p \<leftarrow> with_log K (\<lambda>fd p. do {
                p \<leftarrow> write_int K fd (k_getpid K (world p)) p;
                p \<leftarrow> write_literal K fd '' fork '' p;
                p \<leftarrow> write_int K fd cpid p;
                p \<leftarrow> write_literal K fd [CHR 0x0A] p;
                Some p }) p;
              Some (p\<lparr>errno := myerrno\<rparr>) })"

definition my_fork :: "'w libc \<Rightarrow> 'w proc \<Rightarrow> (int \<times> 'w proc) option" where
  "my_fork K p =
     (let (retval, p) = sys (orig_fork K) p
      in if 0 < retval then do { p \<leftarrow> report_fork K retval p; Some (retval, p) }
         else Some (retval, p))"

definition report_exec :: "'w libc \<Rightarrow> bytes \<Rightarrow> 'w proc \<Rightarrow> 'w proc option" where
  "report_exec K prog p =
     with_log K (\<lambda>fd p. do {
       p \<leftarrow> write_int K fd (k_getpid K (world p)) p;
       p \<leftarrow> write_literal K fd '' exec '' p;
       p \<leftarrow> put_name K fd prog p;
       p \<leftarrow> write_literal K fd [CHR 0x0A] p;
       Some p }) p"

end
