(* ===== verification/Preload_Log_Props.thy ===== *)
theory Preload_Log_Props
  imports Preload_Log
begin

text \<open>
  What the wrappers of \<open>Preload_Log\<close> promise: the caller sees the original call, and the log
  gets exactly the line of a successful one, whatever short writes and interruptions the kernel
  answers with; and a log determines the events written to it.
\<close>

section \<open>Events and their lines\<close>

datatype event =
    Opened bytes bool int
  | OpenedAt int bytes bool int
  | Created bytes int
  | MadeDir bytes
  | MadeDirAt int bytes
  | ChangedDir bytes
  | ChangedDirFd int
  | Renamed bytes bytes
  | RenamedAt int bytes int bytes
  | Forked int
  | Executed bytes

definition name_text :: "bytes \<Rightarrow> bytes" where
  "name_text s = concat (map hex_escape s)"

definition dirfd_text :: "int \<Rightarrow> bytes" where
  "dirfd_text d = (if d = AT_FDCWD then ''AT_FDCWD'' else int_dec d)"

fun event_fields :: "event \<Rightarrow> bytes list" where
  "event_fields (Opened f out fd) =
     [''open'', name_text f, if out then ''out'' else ''in'', int_dec fd]"
| "event_fields (OpenedAt d f out fd) =
     [''openat'', dirfd_text d, name_text f, if out then ''out'' else ''in'', int_dec fd]"
| "event_fields (Created f fd) = [''creat'', name_text f, int_dec fd]"
| "event_fields (MadeDir f) = [''mkdir'', name_text f]"
| "event_fields (MadeDirAt d f) = [''mkdirat'', dirfd_text d, name_text f]"
| "event_fields (ChangedDir f) = [''chdir'', name_text f]"
| "event_fields (ChangedDirFd d) = [''fchdir'', int_dec d]"
| "event_fields (Renamed f g) = [''rename'', name_text f, name_text g]"
| "event_fields (RenamedAt d f d' g) =
     [''renameat'', dirfd_text d, name_text f, dirfd_text d', name_text g]"
| "event_fields (Forked c) = [''fork'', int_dec c]"
| "event_fields (Executed f) = [''exec'', name_text f]"

fun join :: "char \<Rightarrow> bytes list \<Rightarrow> bytes" where
  "join c [] = []"
| "join c [x] = x"
| "join c (x # y # xs) = x @ c # join c (y # xs)"

definition event_line :: "int \<Rightarrow> event \<Rightarrow> bytes" where
  "event_line pid ev = join CHR '' '' (int_dec pid # event_fields ev) @ [CHR 0x0A]"

section \<open>A log determines its events\<close>

lemma join_Cons: "xs \<noteq> [] \<Longrightarrow> join c (x # xs) = x @ c # join c xs"
  by (cases xs) auto

lemma append_sep_inj:
  "x @ c # u = y @ c # v \<Longrightarrow> c \<notin> set x \<Longrightarrow> c \<notin> set y \<Longrightarrow> x = y \<and> u = v"
proof (induction x arbitrary: y)
  case Nil
  then show ?case by (cases y) auto
next
  case (Cons a x)
  then show ?case by (cases y) auto
qed

lemma append_sep_none: "x @ c # u = y \<Longrightarrow> c \<notin> set y \<Longrightarrow> False"
  by auto

lemma join_inj:
  "join c xs = join c ys \<Longrightarrow> \<forall>x\<in>set xs \<union> set ys. c \<notin> set x \<Longrightarrow> xs \<noteq> [] \<Longrightarrow> ys \<noteq> [] \<Longrightarrow> xs = ys"
proof (induction xs arbitrary: ys rule: induct_list012)
  case (2 x)
  then show ?case by (cases ys; cases "tl ys") (auto simp: join_Cons)
next
  case (3 x y zs)
  then obtain a as where ys: "ys = a # as" by (cases ys) auto
  show ?case
  proof (cases as)
    case Nil
    then show ?thesis using 3 ys by auto
  next
    case (Cons b bs)
    have "x = a \<and> join c (y # zs) = join c as"
      using append_sep_inj [of x c "join c (y # zs)" a "join c as"] 3 ys Cons by auto
    then show ?thesis using 3(2) [of as] 3(4) ys Cons by auto
  qed
qed simp

definition dec_chars :: bytes where "dec_chars = ''-0123456789''"

lemma dec_digit: "d < 10 \<Longrightarrow> char_of (48 + d :: nat) \<in> set ''0123456789''"
proof -
  assume "d < 10"
  then have "d \<in> {0, 1, 2, 3, 4, 5, 6, 7, 8, 9}" by auto
  then show ?thesis by (elim insertE) (simp_all add: char_of_def bit_simps)
qed

lemma set_nat_dec: "set (nat_dec n) \<subseteq> set ''0123456789''"
proof (induction n rule: nat_dec.induct)
  case (1 n)
  show ?case
  proof (cases "n < 10")
    case True
    then have "nat_dec n = [char_of (48 + n)]" by (simp add: nat_dec.simps [of n])
    then show ?thesis using dec_digit [OF True] by (simp only: list.set) blast
  next
    case False
    then have "nat_dec n = nat_dec (n div 10) @ [char_of (48 + n mod 10)]"
      by (simp add: nat_dec.simps [of n])
    then show ?thesis using dec_digit [of "n mod 10"] 1 [OF False]
      by (simp only: set_append list.set) auto
  qed
qed

definition dec_value :: "bytes \<Rightarrow> nat" where
  "dec_value = foldl (\<lambda>a c. 10 * a + (of_char c - 48)) 0"

lemma dec_value_nat_dec: "dec_value (nat_dec n) = n"
proof (induction n rule: nat_dec.induct)
  case (1 n)
  show ?case
  proof (cases "n < 10")
    case True
    then show ?thesis by (simp add: nat_dec.simps [of n] dec_value_def of_char_of)
  next
    case False
    have "48 + n mod 10 < (256::nat)" by (rule less_trans [of _ "48 + 10"]) simp_all
    then show ?thesis using False 1
      by (simp add: nat_dec.simps [of n] dec_value_def of_char_of)
  qed
qed

lemma nat_dec_inj: "nat_dec m = nat_dec n \<longleftrightarrow> m = n"
  by (metis dec_value_nat_dec)

lemma nat_dec_nonempty [simp]: "nat_dec n \<noteq> []"
  by (subst nat_dec.simps) simp

lemma nat_dec_no_minus: "nat_dec n \<noteq> CHR ''-'' # s"
proof
  assume "nat_dec n = CHR ''-'' # s"
  then have "CHR ''-'' \<in> set (nat_dec n)" by simp
  then have "CHR ''-'' \<in> set ''0123456789''"
    using set_nat_dec [of n] by blast
  then show False by simp
qed

lemma int_dec_inj: "int_dec k = int_dec l \<longleftrightarrow> k = l"
proof -
  note no = nat_dec_no_minus [of "nat \<bar>l\<bar>" "nat_dec (nat \<bar>k\<bar>)"]
    nat_dec_no_minus [of "nat \<bar>k\<bar>" "nat_dec (nat \<bar>l\<bar>)"]
  show ?thesis
    by (cases "k < 0"; cases "l < 0") (use no no [symmetric] in \<open>simp_all add: int_dec_def nat_dec_inj eq_nat_nat_iff\<close>)
qed

lemma set_int_dec: "set (int_dec k) \<subseteq> set dec_chars"
proof -
  have "set ''0123456789'' \<subseteq> set dec_chars" "CHR ''-'' \<in> set dec_chars"
    by (simp_all add: dec_chars_def)
  then show ?thesis
    using set_nat_dec [of "nat \<bar>k\<bar>"] unfolding int_dec_def by (cases "k < 0") auto
qed

lemma int_dec_plain: "CHR '' '' \<notin> set (int_dec k)" "CHR 0x0A \<notin> set (int_dec k)"
  "CHR ''A'' \<notin> set (int_dec k)"
proof -
  have "CHR '' '' \<notin> set dec_chars" "CHR 0x0A \<notin> set dec_chars" "CHR ''A'' \<notin> set dec_chars"
    by (simp_all add: dec_chars_def)
  then show "CHR '' '' \<notin> set (int_dec k)" "CHR 0x0A \<notin> set (int_dec k)" "CHR ''A'' \<notin> set (int_dec k)"
    using set_int_dec [of k] by blast+
qed

lemma hexdigit_value: "d < 16 \<Longrightarrow> e < 16 \<Longrightarrow> hexdigits ! d = hexdigits ! e \<longleftrightarrow> d = e"
  unfolding hexdigits_def by (simp add: nth_eq_iff_index_eq)

lemma hex_escape_inj: "hex_escape c = hex_escape d \<longleftrightarrow> c = d"
proof
  assume "hex_escape c = hex_escape d"
  then have "of_char c div 16 mod 16 = (of_char d div 16 mod 16 :: nat)"
    "of_char c mod 16 = (of_char d mod 16 :: nat)"
    by (auto simp: hex_escape_def hexdigit_value)
  moreover have "of_char c < (256 :: nat)" "of_char d < (256 :: nat)"
    by (simp_all add: nat_of_char_less_256)
  ultimately have "of_char c div 16 = (of_char d div 16 :: nat)"
    "of_char c mod 16 = (of_char d mod 16 :: nat)"
    by simp_all
  then have "of_char c = (of_char d :: nat)"
    by (metis div_mult_mod_eq)
  then show "c = d" by simp
qed simp

lemma name_text_inj: "name_text s = name_text t \<longleftrightarrow> s = t"
proof
  assume "name_text s = name_text t"
  then show "s = t"
  proof (induction s arbitrary: t)
    case Nil
    then show ?case by (cases t) (auto simp: name_text_def hex_escape_def)
  next
    case (Cons a s)
    obtain b u where t: "t = b # u" using Cons.prems by (cases t) (auto simp: name_text_def hex_escape_def)
    have "hex_escape a @ name_text s = hex_escape b @ name_text u"
      using Cons.prems t by (simp add: name_text_def)
    then have "hex_escape a = hex_escape b \<and> name_text s = name_text u"
      by (simp add: append_eq_append_conv hex_escape_def)
    then show ?case using Cons.IH t by (simp add: hex_escape_inj)
  qed
qed simp

definition plain :: "bytes \<Rightarrow> bool" where
  "plain x \<longleftrightarrow> CHR '' '' \<notin> set x \<and> CHR 0x0A \<notin> set x"

lemma plain_int_dec [simp]: "plain (int_dec k)"
  by (simp add: plain_def int_dec_plain)

lemma plain_dirfd_text [simp]: "plain (dirfd_text d)"
  by (simp add: dirfd_text_def) (simp add: plain_def)

lemma hexdigit_plain: "d < 16 \<Longrightarrow> hexdigits ! d \<in> set ''0123456789abcdef''"
  unfolding hexdigits_def by (rule nth_mem) simp

lemma plain_hex_escape: "plain (hex_escape c)"
proof -
  have hex: "hexdigits ! d \<noteq> CHR '' ''" "hexdigits ! d \<noteq> CHR 0x0A" if "d < 16" for d
    using hexdigit_plain [OF that] by auto
  show ?thesis
    using hex [of "of_char c div 16 mod 16"] hex [of "of_char c mod 16"]
    by (auto simp: plain_def hex_escape_def)
qed

lemma plain_name_text [simp]: "plain (name_text s)"
  using plain_hex_escape by (auto simp: name_text_def plain_def)

lemma plain_event_fields: "\<forall>x\<in>set (event_fields ev). plain x"
  by (cases ev) (simp_all, simp_all add: plain_def)

lemma event_fields_nonempty [simp]: "event_fields ev \<noteq> []"
  by (cases ev) auto

lemma dirfd_text_inj: "dirfd_text c = dirfd_text d \<longleftrightarrow> c = d"
proof -
  have "int_dec k \<noteq> ''AT_FDCWD''" for k
  proof
    assume "int_dec k = ''AT_FDCWD''"
    then have "CHR ''A'' \<in> set (int_dec k)" by simp
    then show False by (simp add: int_dec_plain)
  qed
  then show ?thesis
    unfolding dirfd_text_def by (metis int_dec_inj)
qed

lemma event_fields_inj: "event_fields a = event_fields b \<Longrightarrow> a = b"
  by (cases a; cases b)
    (simp_all add: name_text_inj int_dec_inj dirfd_text_inj split: if_splits)

lemma join_plain: "\<forall>x\<in>set xs. plain x \<Longrightarrow> CHR 0x0A \<notin> set (join CHR '' '' xs)"
  by (induction xs rule: induct_list012) (auto simp: plain_def)

lemma event_body_plain: "CHR 0x0A \<notin> set (join CHR '' '' (int_dec pid # event_fields ev))"
  using plain_event_fields [of ev] by (intro join_plain) simp

lemma event_body_inj:
  "join CHR '' '' (int_dec pid # event_fields a) = join CHR '' '' (int_dec pid' # event_fields b) \<Longrightarrow>
    pid = pid' \<and> a = b"
proof -
  assume eq: "join CHR '' '' (int_dec pid # event_fields a) = join CHR '' '' (int_dec pid' # event_fields b)"
  have "int_dec pid # event_fields a = int_dec pid' # event_fields b"
    using join_inj [OF eq] plain_event_fields [of a] plain_event_fields [of b] int_dec_plain
    by (simp add: plain_def ball_Un)
  then show ?thesis
    by (auto simp: int_dec_inj intro: event_fields_inj)
qed

text \<open>C13: the log determines what was traced: two sequences of events (with the process of each)
  that give the same text are the same sequence, whatever bytes the file names hold.\<close>

theorem log_determines_events:
  "concat (map (\<lambda>(pid, ev). event_line pid ev) es) =
   concat (map (\<lambda>(pid, ev). event_line pid ev) es') \<longleftrightarrow> es = es'"
proof (induction es arbitrary: es')
  case Nil
  then show ?case by (cases es') (auto simp: event_line_def)
next
  case (Cons e es)
  show ?case
  proof (cases es')
    case Nil
    then show ?thesis by (cases e) (simp add: event_line_def)
  next
    case es': (Cons f fs)
    obtain pid a pid' b where ef: "e = (pid, a)" "f = (pid', b)" by (cases e; cases f) auto
    let ?l = "\<lambda>es. concat (map (\<lambda>(pid, ev). event_line pid ev) es)"
    have "?l (e # es) = ?l (f # fs) \<longleftrightarrow> e = f \<and> ?l es = ?l fs"
    proof
      assume "?l (e # es) = ?l (f # fs)"
      then have "join CHR '' '' (int_dec pid # event_fields a) @ CHR 0x0A # ?l es =
          join CHR '' '' (int_dec pid' # event_fields b) @ CHR 0x0A # ?l fs"
        by (simp add: ef event_line_def)
      then show "e = f \<and> ?l es = ?l fs"
        using append_sep_inj event_body_plain event_body_inj ef by metis
    qed simp
    then show ?thesis using Cons.IH [of fs] es' by simp
  qed
qed

section \<open>A wrapper logs what the original call did\<close>

text \<open>
  What the log needs of the kernel. \<open>log_text\<close> is what the log file holds, \<open>is_log fd\<close> that \<open>fd\<close> is a
  descriptor open on it for appending, and \<open>budget\<close> the number of times the calls on it will
  still be interrupted. A write takes a non-empty part of what it is given or is interrupted.
\<close>

record 'w log_view =
  log_text :: "'w \<Rightarrow> bytes"
  is_log :: "int \<Rightarrow> 'w \<Rightarrow> bool"
  budget :: "'w \<Rightarrow> nat"

definition keeps :: "'w libc \<Rightarrow> 'w log_view \<Rightarrow> 'w \<Rightarrow> 'w \<Rightarrow> bool" where
  "keeps K L w w' \<longleftrightarrow>
     k_getpid K w' = k_getpid K w \<and> (\<forall>f. k_fileno K f w' = k_fileno K f w) \<and>
     (\<forall>d. k_dirfd K d w' = k_dirfd K d w)"

definition good_write :: "'w libc \<Rightarrow> 'w log_view \<Rightarrow> int \<Rightarrow> bytes \<Rightarrow> int \<Rightarrow> 'w \<Rightarrow> bool" where
  "good_write K L fd buf e w =
     (case k_write K fd buf (e, w) of (r, e', w') \<Rightarrow>
        is_log L fd w' \<and> keeps K L w w' \<and>
        (if 0 \<le> r then nat r \<le> length buf \<and> (buf \<noteq> [] \<longrightarrow> 0 < r) \<and> budget L w' \<le> budget L w \<and>
                        log_text L w' = log_text L w @ take (nat r) buf
         else e' = EINTR \<and> budget L w' < budget L w \<and> log_text L w' = log_text L w))"

definition good_lock :: "'w libc \<Rightarrow> 'w log_view \<Rightarrow> int \<Rightarrow> int \<Rightarrow> 'w \<Rightarrow> bool" where
  "good_lock K L fd e w =
     (case k_setlkw K fd (e, w) of (r, e', w') \<Rightarrow>
        is_log L fd w' \<and> keeps K L w w' \<and> log_text L w' = log_text L w \<and>
        (r < 0 \<longrightarrow> e' = EINTR \<and> budget L w' < budget L w))"

definition good_unlock :: "'w libc \<Rightarrow> 'w log_view \<Rightarrow> int \<Rightarrow> int \<Rightarrow> 'w \<Rightarrow> bool" where
  "good_unlock K L fd e w =
     (case k_unlck K fd (e, w) of (r, e', w') \<Rightarrow>
        is_log L fd w' \<and> keeps K L w w' \<and> log_text L w' = log_text L w)"

definition good_open :: "'w libc \<Rightarrow> 'w log_view \<Rightarrow> bytes \<Rightarrow> int \<Rightarrow> 'w \<Rightarrow> bool" where
  "good_open K L fname e w =
     (case orig_open3 K fname (O_CREAT OR O_WRONLY OR O_APPEND) 0x180 (e, w) of (r, e', w') \<Rightarrow>
        0 \<le> r \<and> is_log L r w' \<and> keeps K L w w' \<and> log_text L w' = log_text L w)"

definition good_log :: "'w libc \<Rightarrow> 'w log_view \<Rightarrow> bool" where
  "good_log K L \<longleftrightarrow>
     (\<forall>fd buf e w. is_log L fd w \<longrightarrow> good_write K L fd buf e w) \<and>
     (\<forall>fd e w. is_log L fd w \<longrightarrow> good_lock K L fd e w \<and> good_unlock K L fd e w) \<and>
     (\<forall>fname e w. good_open K L fname e w)"

definition tracing :: "'w log_view \<Rightarrow> 'w proc \<Rightarrow> bool" where
  "tracing L p \<longleftrightarrow> log_fd p < 0 \<or> is_log L (log_fd p) (world p)"

text \<open>The process \<open>p\<close>, with the log on \<open>fd\<close>, has appended \<open>x\<close> since the world was \<open>w\<close>.\<close>

definition appended :: "'w libc \<Rightarrow> 'w log_view \<Rightarrow> int \<Rightarrow> 'w \<Rightarrow> bytes \<Rightarrow> 'w proc \<Rightarrow> bool" where
  "appended K L fd w x p \<longleftrightarrow>
     log_fd p = fd \<and> is_log L fd (world p) \<and> keeps K L w (world p) \<and> log_text L (world p) = log_text L w @ x"


lemma keeps_refl [simp]: "keeps K L w w"
  by (simp add: keeps_def)

lemma keeps_trans: "keeps K L w w' \<Longrightarrow> keeps K L w' w'' \<Longrightarrow> keeps K L w w''"
  by (simp add: keeps_def)

lemma good_logD:
  "good_log K L \<Longrightarrow> is_log L fd w \<Longrightarrow> good_write K L fd buf e w"
  "good_log K L \<Longrightarrow> is_log L fd w \<Longrightarrow> good_lock K L fd e w"
  "good_log K L \<Longrightarrow> is_log L fd w \<Longrightarrow> good_unlock K L fd e w"
  "good_log K L \<Longrightarrow> good_open K L fname e w"
  by (auto simp: good_log_def)

lemma write_loop_done:
  assumes "good_log K L" "appended K L fd w (x @ take n buf) p" "n \<le> length buf"
  shows "\<exists>p'. write_loop K fd buf n p = Some (True, p') \<and> appended K L fd w (x @ buf) p'"
  using assms(2,3)
proof (induction "budget L (world p) + (length buf - n)" arbitrary: n p rule: less_induct)
  case less
  have log: "is_log L fd (world p)" using less.prems by (simp add: appended_def)
  obtain r e' w' where call: "k_write K fd (drop n buf) (0, world p) = (r, e', w')"
    by (cases "k_write K fd (drop n buf) (0, world p)")
  note good = good_logD(1) [OF assms(1) log, of "drop n buf" 0, unfolded good_write_def call, simplified]
  note step = write_loop.simps [of K fd buf n p, unfolded sys_def, simplified, unfolded call, simplified]
  let ?p = "p\<lparr>errno := e', world := w'\<rparr>"
  show ?case
  proof (cases "0 \<le> r")
    case False
    have "budget L (world ?p) + (length buf - n) < budget L (world p) + (length buf - n)"
      using good False by simp
    moreover have "appended K L fd w (x @ take n buf) ?p"
      using good False less.prems by (auto simp: appended_def intro: keeps_trans)
    ultimately show ?thesis
      using less.hyps [of ?p n] less.prems False good step by simp
  next
    case True
    let ?n = "n + nat r"
    have n: "?n \<le> length buf" using good True less.prems by auto
    have app: "appended K L fd w (x @ take ?n buf) ?p"
      using good True less.prems by (auto simp: appended_def take_add intro: keeps_trans)
    show ?thesis
    proof (cases "?n < length buf")
      case More: True
      then have "drop n buf \<noteq> []" by auto
      then have "budget L (world ?p) + (length buf - ?n) < budget L (world p) + (length buf - n)"
        using good True More by auto
      then show ?thesis
        using less.hyps [of ?p ?n, OF _ app n] True More step by simp
    next
      case False
      then have "take ?n buf = buf" by simp
      then show ?thesis using app False True step by simp
    qed
  qed
qed

lemma write_all_done:
  assumes "good_log K L" "appended K L fd w x p"
  shows "\<exists>p'. write_all K fd buf p = Some (True, p') \<and> appended K L fd w (x @ buf) p'"
  unfolding write_all_def by (rule write_loop_done [OF assms(1)]) (simp_all add: assms(2))

lemma write_name_done:
  "good_log K L \<Longrightarrow> appended K L fd w x p \<Longrightarrow>
    \<exists>p'. write_name K fd s p = Some (True, p') \<and> appended K L fd w (x @ name_text s) p'"
proof (induction s arbitrary: x p)
  case Nil
  then show ?case by (simp add: name_text_def)
next
  case (Cons c s)
  obtain p1 where 1: "write_all K fd (hex_escape c) p = Some (True, p1)"
    "appended K L fd w (x @ hex_escape c) p1"
    using write_all_done [OF Cons.prems] by blast
  then show ?case
    using Cons.IH [OF Cons.prems(1) 1(2)] by (simp add: name_text_def)
qed

text \<open>Running the rest of a line, one write at a time.\<close>

definition ends_with :: "'w libc \<Rightarrow> 'w log_view \<Rightarrow> int \<Rightarrow> 'w \<Rightarrow> bytes \<Rightarrow> 'w proc option \<Rightarrow> bool" where
  "ends_with K L fd w z m \<longleftrightarrow> (\<exists>p. m = Some p \<and> appended K L fd w z p)"

lemma ends_with_literal:
  assumes "good_log K L" "appended K L fd w x p"
    "\<And>p'. appended K L fd w (x @ s) p' \<Longrightarrow> ends_with K L fd w z (f p')"
  shows "ends_with K L fd w z (Option.bind (write_literal K fd s p) f)"
  using write_all_done [OF assms(1,2), of s] assms(3) by (auto simp: write_literal_def)

lemma ends_with_int:
  assumes "good_log K L" "appended K L fd w x p"
    "\<And>p'. appended K L fd w (x @ int_dec v) p' \<Longrightarrow> ends_with K L fd w z (f p')"
  shows "ends_with K L fd w z (Option.bind (write_int K fd v p) f)"
  using write_all_done [OF assms(1,2), of "int_dec v"] assms(3) by (auto simp: write_int_def)

lemma ends_with_name:
  assumes "good_log K L" "appended K L fd w x p"
    "\<And>p'. appended K L fd w (x @ name_text s) p' \<Longrightarrow> ends_with K L fd w z (f p')"
  shows "ends_with K L fd w z (Option.bind (put_name K fd s p) f)"
  using write_name_done [OF assms(1,2), of s] assms(3) by (auto simp: put_name_def)

lemma ends_with_dirfd:
  assumes "good_log K L" "appended K L fd w x p"
    "\<And>p'. appended K L fd w (x @ dirfd_text d) p' \<Longrightarrow> ends_with K L fd w z (f p')"
  shows "ends_with K L fd w z (Option.bind (put_dirfd K fd d p) f)"
  using ends_with_literal [OF assms(1,2), of "''AT_FDCWD''"] ends_with_int [OF assms(1,2), of d] assms(3)
  by (simp add: put_dirfd_def dirfd_text_def)

lemma ends_with_done: "appended K L fd w x p \<Longrightarrow> x = z \<Longrightarrow> ends_with K L fd w z (Some p)"
  by (auto simp: ends_with_def)

lemmas ends_with_intros = ends_with_literal ends_with_int ends_with_name ends_with_dirfd

lemma appended_reads:
  "appended K L fd w x p \<Longrightarrow> k_getpid K (world p) = k_getpid K w"
  "appended K L fd w x p \<Longrightarrow> k_fileno K f (world p) = k_fileno K f w"
  "appended K L fd w x p \<Longrightarrow> k_dirfd K d (world p) = k_dirfd K d w"
  by (simp_all add: appended_def keeps_def)

lemma my_lock_done:
  assumes "good_log K L" "appended K L fd w x p"
  shows "\<exists>p'. my_lock K fd p = Some (True, p') \<and> appended K L fd w x p'"
  using assms(2)
proof (induction "budget L (world p)" arbitrary: p rule: less_induct)
  case less
  have log: "is_log L fd (world p)" using less.prems by (simp add: appended_def)
  obtain r e' w' where call: "k_setlkw K fd (0, world p) = (r, e', w')"
    by (cases "k_setlkw K fd (0, world p)")
  note good = good_logD(2) [OF assms(1) log, of 0, unfolded good_lock_def call, simplified]
  note step = my_lock.simps [of K fd p, unfolded sys_def, simplified, unfolded call, simplified]
  let ?p = "p\<lparr>errno := e', world := w'\<rparr>"
  have app: "appended K L fd w x ?p"
    using good less.prems by (auto simp: appended_def intro: keeps_trans)
  show ?case
  proof (cases "r < 0")
    case True
    then show ?thesis using less.hyps [of ?p, OF _ app] good step by simp
  next
    case False
    then show ?thesis using app step by simp
  qed
qed

lemma open_log_file_done:
  assumes "good_log K L" "tracing L p"
  shows "\<exists>fd p'. open_log_file K p = (fd, p') \<and> 0 \<le> fd \<and> appended K L fd (world p) [] p'"
proof (cases "log_fd p < 0")
  case True
  define fname where "fname = (case k_getenv K ''BUILDSH_TEMPFILE'' (world p) of
      None \<Rightarrow> BUILDSH_TEMPFILE_DEFAULT | Some f \<Rightarrow> f)"
  obtain r e' w' where call:
    "orig_open3 K fname (O_CREAT OR O_WRONLY OR O_APPEND) 0x180 (errno p, world p) = (r, e', w')"
    by (cases "orig_open3 K fname (O_CREAT OR O_WRONLY OR O_APPEND) 0x180 (errno p, world p)")
  show ?thesis
    using good_logD(4) [OF assms(1), of fname "errno p" "world p"] True
    by (simp add: open_log_file_def good_open_def fname_def [symmetric] sys_def call appended_def)
next
  case False
  then show ?thesis using assms(2) by (simp add: open_log_file_def tracing_def appended_def)
qed

lemma with_log_done:
  assumes "good_log K L" "tracing L p"
    and line: "\<And>fd p'. appended K L fd (world p) [] p' \<Longrightarrow> ends_with K L fd (world p) z (line fd p')"
  shows "\<exists>p'. with_log K line p = Some p' \<and> log_text L (world p') = log_text L (world p) @ z \<and> tracing L p'"
proof -
  obtain fd p1 where 1: "open_log_file K p = (fd, p1)" "0 \<le> fd" "appended K L fd (world p) [] p1"
    using open_log_file_done [OF assms(1,2)] by blast
  obtain p2 where 2: "my_lock K fd p1 = Some (True, p2)" "appended K L fd (world p) [] p2"
    using my_lock_done [OF assms(1) 1(3)] by blast
  obtain p3 where 3: "line fd p2 = Some p3" "appended K L fd (world p) z p3"
    using line [OF 2(2)] by (auto simp: ends_with_def)
  have log: "is_log L fd (world p3)" using 3 by (simp add: appended_def)
  show ?thesis
    using 1 2 3 good_logD(3) [OF assms(1) log, of "errno p3"]
    by (auto simp: with_log_def my_unlock_def sys_def good_unlock_def appended_def tracing_def
        split: prod.splits)
qed

section \<open>All the wrapped calls\<close>

datatype call =
    Fopen bytes bytes | Opendir bytes | Open bytes u32 u32 | Openat int bytes u32 u32
  | Creat bytes u32 | Mkdir bytes u32 | Mkdirat int bytes u32 | Chdir bytes | Fchdir int
  | Rename bytes bytes | Renameat int bytes int bytes | Fork

text \<open>The entry points that \<open>preload.c\<close> puts in place of the C library's.\<close>

fun my_call :: "'w libc \<Rightarrow> call \<Rightarrow> 'w proc \<Rightarrow> (int \<times> 'w proc) option" where
  "my_call K (Fopen f m) p = map_option (map_prod uint id) (my_fopen K f m p)"
| "my_call K (Opendir f) p = map_option (map_prod uint id) (my_opendir K f p)"
| "my_call K (Open f fl m) p = my_open K f fl m p"
| "my_call K (Openat d f fl m) p = my_openat K d f fl m p"
| "my_call K (Creat f m) p = my_creat K f m p"
| "my_call K (Mkdir f m) p = my_mkdir K f m p"
| "my_call K (Mkdirat d f m) p = my_mkdirat K d f m p"
| "my_call K (Chdir f) p = my_chdir K f p"
| "my_call K (Fchdir d) p = my_fchdir K d p"
| "my_call K (Rename f g) p = my_rename K f g p"
| "my_call K (Renameat d f d' g) p = my_renameat K d f d' g p"
| "my_call K Fork p = my_fork K p"

text \<open>The call itself, and the event a result \<open>r\<close> of it amounts to.\<close>

fun original :: "'w libc \<Rightarrow> call \<Rightarrow> ('w, int) sys" where
  "original K (Fopen f m) = (\<lambda>s. map_prod uint id (orig_fopen K f m s))"
| "original K (Opendir f) = (\<lambda>s. map_prod uint id (orig_opendir K f s))"
| "original K (Open f fl m) = (if fl AND O_CREAT \<noteq> 0 then orig_open3 K f fl m else orig_open2 K f fl)"
| "original K (Openat d f fl m) =
     (if fl AND O_CREAT \<noteq> 0 then orig_openat3 K d f fl m else orig_openat2 K d f fl)"
| "original K (Creat f m) = orig_creat K f m"
| "original K (Mkdir f m) = orig_mkdir K f m"
| "original K (Mkdirat d f m) = orig_mkdirat K d f m"
| "original K (Chdir f) = orig_chdir K f"
| "original K (Fchdir d) = orig_fchdir K d"
| "original K (Rename f g) = orig_rename K f g"
| "original K (Renameat d f d' g) = orig_renameat K d f d' g"
| "original K Fork = orig_fork K"

definition for_writing :: "u32 \<Rightarrow> bool" where
  "for_writing fl \<longleftrightarrow> fl AND O_WRONLY \<noteq> 0 \<or> fl AND O_RDWR \<noteq> 0"

definition mode_writes :: "bytes \<Rightarrow> bool" where
  "mode_writes m \<longleftrightarrow> \<not> (take 1 m = ''r'' \<and> CHR ''+'' \<notin> set m)"

fun event_of :: "'w libc \<Rightarrow> call \<Rightarrow> int \<Rightarrow> 'w \<Rightarrow> event option" where
  "event_of K (Fopen f m) r w =
     (if r \<noteq> 0 then Some (Opened f (mode_writes m) (k_fileno K (word_of_int r) w)) else None)"
| "event_of K (Opendir f) r w =
     (if r \<noteq> 0 then Some (Opened f False (k_dirfd K (word_of_int r) w)) else None)"
| "event_of K (Open f fl m) r w = (if 0 \<le> r then Some (Opened f (for_writing fl) r) else None)"
| "event_of K (Openat d f fl m) r w = (if 0 \<le> r then Some (OpenedAt d f (for_writing fl) r) else None)"
| "event_of K (Creat f m) r w = (if 0 \<le> r then Some (Created f r) else None)"
| "event_of K (Mkdir f m) r w = (if 0 \<le> r then Some (MadeDir f) else None)"
| "event_of K (Mkdirat d f m) r w = (if 0 \<le> r then Some (MadeDirAt d f) else None)"
| "event_of K (Chdir f) r w = (if 0 \<le> r then Some (ChangedDir f) else None)"
| "event_of K (Fchdir d) r w = (if 0 \<le> r then Some (ChangedDirFd d) else None)"
| "event_of K (Rename f g) r w = (if 0 \<le> r then Some (Renamed f g) else None)"
| "event_of K (Renameat d f d' g) r w = (if 0 \<le> r then Some (RenamedAt d f d' g) else None)"
| "event_of K Fork r w = (if 0 < r then Some (Forked r) else None)"

definition logged :: "'w libc \<Rightarrow> call \<Rightarrow> int \<Rightarrow> 'w \<Rightarrow> bytes" where
  "logged K c r w = (case event_of K c r w of None \<Rightarrow> [] | Some ev \<Rightarrow> event_line (k_getpid K w) ev)"

text \<open>The shape all the wrappers share: it logs \<open>y\<close> and hides the logging.\<close>

lemma wrapper_done:
  assumes "good_log K L" "orig (errno p, world p) = (r, e, w)" "tracing L (p\<lparr>errno := e, world := w\<rparr>)"
    and "\<And>fd p'. ok r \<Longrightarrow> appended K L fd w [] p' \<Longrightarrow> ends_with K L fd w y (line r fd p')"
    and "\<not> ok r \<Longrightarrow> y = []"
  shows "\<exists>p'. (let (r, p) = sys orig p; my = errno p
              in do { p \<leftarrow> (if ok r then with_log K (line r) p else Some p);
                      Some (r, p\<lparr>errno := my\<rparr>) }) = Some (r, p') \<and>
          errno p' = e \<and> log_text L (world p') = log_text L w @ y \<and> tracing L p'"
proof (cases "ok r")
  case True
  then show ?thesis
    using with_log_done [OF assms(1,3), of y "line r"] assms(2,4)
    by (auto simp: sys_def tracing_def)
next
  case False
  then show ?thesis
    using assms(2,3,5) by (auto simp: sys_def tracing_def)
qed

lemma report_fork_done:
  assumes "good_log K L" "tracing L p"
  shows "\<exists>p'. report_fork K c p = Some p' \<and> errno p' = errno p \<and>
    log_text L (world p') = log_text L (world p) @ event_line (k_getpid K (world p)) (Forked c) \<and>
    tracing L p'"
proof -
  have "\<exists>p'. with_log K (\<lambda>fd p. do {
                p \<leftarrow> write_int K fd (k_getpid K (world p)) p;
                p \<leftarrow> write_literal K fd '' fork '' p;
                p \<leftarrow> write_int K fd c p;
                p \<leftarrow> write_literal K fd [CHR 0x0A] p;
                Some p }) p = Some p' \<and>
      log_text L (world p') = log_text L (world p) @ event_line (k_getpid K (world p)) (Forked c) \<and>
      tracing L p'"
    by (rule with_log_done [OF assms]; (rule ends_with_intros [OF assms(1)], assumption)+;
        erule ends_with_done)
      (simp add: event_line_def appended_reads)
  then show ?thesis
    by (auto simp: report_fork_def tracing_def)
qed

lemmas event_text = logged_def event_line_def for_writing_def mode_writes_def

lemmas int_wrappers = my_open_def my_openat_def my_creat_def my_mkdir_def my_mkdirat_def my_chdir_def
  my_fchdir_def my_rename_def my_renameat_def

text \<open>The calls with an \<open>int\<close> result, at once: the body of each is the chain of its writes.\<close>

lemma int_call_logs:
  assumes "good_log K L" "original K c (errno p, world p) = (r, e, w)"
    and "tracing L (p\<lparr>errno := e, world := w\<rparr>)"
    and "\<And>f m. c \<noteq> Fopen f m" "\<And>f. c \<noteq> Opendir f" "c \<noteq> Fork"
  shows "\<exists>p'. my_call K c p = Some (r, p') \<and> errno p' = e \<and>
     log_text L (world p') = log_text L w @ logged K c r w \<and> tracing L p'"
proof (cases c)
  case (Fopen f m) then show ?thesis using assms(4) by blast
next
  case (Opendir f) then show ?thesis using assms(5) by blast
next
  case Fork then show ?thesis using assms(6) by blast
qed (insert assms(2), simp only: my_call.simps int_wrappers original.simps,
  rule wrapper_done [OF assms(1) _ assms(3)], assumption,
  ((rule ends_with_intros [OF assms(1)], assumption)+, erule ends_with_done),
  simp add: event_text appended_reads, simp add: event_text)+

text \<open>C12: a wrapped call returns what the original one returns, with its \<open>errno\<close>, and appends to
  the log the line of the event if it succeeded and nothing otherwise: it ends, and writes each
  line whole, whatever short writes and interruptions the kernel answers with.\<close>

theorem my_call_logs:
  assumes "good_log K L" "original K c (errno p, world p) = (r, e, w)"
    and "tracing L (p\<lparr>errno := e, world := w\<rparr>)"
  shows "\<exists>p'. my_call K c p = Some (r, p') \<and> errno p' = e \<and>
     log_text L (world p') = log_text L w @ logged K c r w \<and> tracing L p'"
proof (cases c)
  case (Fopen f m)
  obtain a where a: "orig_fopen K f m (errno p, world p) = (a, e, w)" "r = uint a"
    using assms(2) Fopen by (cases "orig_fopen K f m (errno p, world p)") auto
  have "\<exists>p'. my_fopen K f m p = Some (a, p') \<and> errno p' = e \<and>
      log_text L (world p') = log_text L w @ logged K c r w \<and> tracing L p'"
    unfolding Fopen my_fopen_def
    by (rule wrapper_done [where orig = "orig_fopen K f m", OF assms(1) a(1) assms(3)],
        (rule ends_with_intros [OF assms(1)], assumption)+, erule ends_with_done)
      (use a(2) in \<open>simp_all add: event_text appended_reads uint_0_iff\<close>)
  then show ?thesis using Fopen a(2) by auto
next
  case (Opendir f)
  obtain a where a: "orig_opendir K f (errno p, world p) = (a, e, w)" "r = uint a"
    using assms(2) Opendir by (cases "orig_opendir K f (errno p, world p)") auto
  have "\<exists>p'. my_opendir K f p = Some (a, p') \<and> errno p' = e \<and>
      log_text L (world p') = log_text L w @ logged K c r w \<and> tracing L p'"
    unfolding Opendir my_opendir_def
    by (rule wrapper_done [where orig = "orig_opendir K f", OF assms(1) a(1) assms(3)],
        (rule ends_with_intros [OF assms(1)], assumption)+, erule ends_with_done)
      (use a(2) in \<open>simp_all add: event_text appended_reads uint_0_iff\<close>)
  then show ?thesis using Opendir a(2) by auto
next
  case Fork
  then show ?thesis
    using assms report_fork_done [OF assms(1,3), of r]
    by (auto simp: my_fork_def sys_def event_text)
qed (rule int_call_logs [OF assms]; simp)+

text \<open>A kernel for an instance: it takes at most three bytes at a time, and interrupts the calls on
  the log as often as the second component of the world says.\<close>

definition toy_libc :: "(bytes \<times> nat) libc" where
  "toy_libc = \<lparr>
     k_getpid = \<lambda>w. 7, k_getenv = \<lambda>v w. None, k_fileno = \<lambda>f w. 5, k_dirfd = \<lambda>d w. 6,
     k_setlkw = \<lambda>fd (e, t, n). (if 0 < n then (- 1, EINTR, t, n - 1) else (0, e, t, n)),
     k_unlck = \<lambda>fd (e, w). (0, e, w),
     k_write = \<lambda>fd buf (e, t, n).
       (if 0 < n then (- 1, EINTR, t, n - 1) else (int (min 3 (length buf)), e, t @ take 3 buf, n)),
     k_malloc = \<lambda>n (e, w). (True, e, w), k_environ = \<lambda>w. [Null],
     k_close = \<lambda>fd (e, w). (0, e, w),
     orig_fopen = \<lambda>f m (e, w). (4096, e, w), orig_opendir = \<lambda>f (e, w). (0, 2, w),
     orig_open2 = \<lambda>f fl (e, w). (5, e, w), orig_open3 = \<lambda>f fl m (e, w). (3, e, w),
     orig_openat2 = \<lambda>d f fl (e, w). (5, e, w), orig_openat3 = \<lambda>d f fl m (e, w). (5, e, w),
     orig_creat = \<lambda>f m (e, w). (5, e, w), orig_mkdir = \<lambda>f m (e, w). (- 1, 17, w),
     orig_mkdirat = \<lambda>d f m (e, w). (0, e, w), orig_chdir = \<lambda>f (e, w). (0, e, w),
     orig_fchdir = \<lambda>d (e, w). (0, e, w), orig_rename = \<lambda>f g (e, w). (0, e, w),
     orig_renameat = \<lambda>d f d' g (e, w). (0, e, w), orig_fork = \<lambda>(e, w). (8, e, w),
     orig_execve = \<lambda>f a v (e, w). (- 1, 2, w), orig_execvpe = \<lambda>f a v (e, w). (- 1, 2, w)\<rparr>"

definition toy_log :: "(bytes \<times> nat) log_view" where
  "toy_log = \<lparr>log_text = fst, is_log = \<lambda>fd w. fd = 3, budget = snd\<rparr>"

lemma toy_good: "good_log toy_libc toy_log"
  by (auto simp: good_log_def good_write_def good_lock_def good_unlock_def good_open_def keeps_def
      toy_libc_def toy_log_def min_def)

lemma dec_7: "int_dec 7 = ''7''"
proof -
  have "char_of (55 :: nat) = CHR ''7''" by (simp add: char_of_def bit_simps)
  then show ?thesis by (simp add: int_dec_def nat_dec.simps)
qed

text \<open>With two interruptions to come, \<open>chdir\<close> to a name of two bytes, a space and a line feed.\<close>

theorem my_call_logs_witness:
  "\<exists>p'. my_call toy_libc (Chdir [CHR '' '', CHR 0x0A]) \<lparr>errno = 0, log_fd = - 1, world = ([], 2)\<rparr> =
      Some (0, p') \<and>
    fst (world p') = ''7 chdir '' @ [CHR 0x5C] @ ''x20'' @ [CHR 0x5C] @ ''x0a'' @ [CHR 0x0A]"
  using my_call_logs [OF toy_good, of "Chdir [CHR '' '', CHR 0x0A]" "\<lparr>errno = 0, log_fd = - 1, world = ([], 2)\<rparr>" 0 0 "([], 2)"]
  by (auto simp: tracing_def toy_libc_def toy_log_def logged_def event_line_def name_text_def
      hex_escape_def hexdigits_def dec_7)

section \<open>The buffer of write_int\<close>

lemma nat_dec_length: "0 < k \<Longrightarrow> n < 10 ^ k \<Longrightarrow> length (nat_dec n) \<le> k"
proof (induction k arbitrary: n rule: nat_induct_non_zero)
  case 1
  then show ?case by (simp add: nat_dec.simps [of n])
next
  case (Suc k)
  have "n div 10 < 10 ^ k" using Suc.prems by (simp add: div_less_iff_less_mult mult.commute)
  then show ?case using Suc.IH [of "n div 10"] by (simp add: nat_dec.simps [of n])
qed

text \<open>The buffer of \<open>write_int\<close>, of \<open>sizeof(int) * CHAR_BIT / 3 + 2\<close> bytes, holds the decimal text of
  every \<open>int\<close> with its terminating zero byte.\<close>

theorem write_int_fits:
  "length (int_dec (sint (v :: u32))) + 1 \<le> 4 * 8 div 3 + 2"
proof -
  have "nat \<bar>sint v\<bar> < 10 ^ 10"
    using sint_range_size [of v] by (simp add: word_size nat_less_iff abs_less_iff)
  then have "length (nat_dec (nat \<bar>sint v\<bar>)) \<le> 10" by (intro nat_dec_length) simp_all
  moreover have "length (int_dec (sint v)) \<le> 1 + length (nat_dec (nat \<bar>sint v\<bar>))"
    unfolding int_dec_def length_append by (rule add_right_mono) (cases "sint v < 0"; simp)
  ultimately show ?thesis by simp
qed

end
