(* ===== verification/Preload_Exec.thy ===== *)
theory Preload_Exec
  imports Preload_Log_Props
begin

text \<open>
  The second half of \<^verbatim>\<open>src/etc/preload.c\<close>: the wrappers of the \<open>exec\<close> family, which log the
  program before they start it, the argument vector the variadic ones build, and the copy of the
  environment that is to keep the tracer preloaded. An index outside a block, and a \<open>free\<close> of
  something that was not allocated, is \<open>Undefined\<close>.
\<close>

section \<open>Outcomes\<close>

datatype 'a run = Value 'a | Aborted | Undefined

fun run_bind :: "'a run \<Rightarrow> ('a \<Rightarrow> 'b run) \<Rightarrow> 'b run" where
  "run_bind (Value x) f = f x"
| "run_bind Aborted f = Aborted"
| "run_bind Undefined f = Undefined"

lemma run_bind_cong [fundef_cong]:
  "r = r' \<Longrightarrow> (\<And>x. r' = Value x \<Longrightarrow> f x = f' x) \<Longrightarrow> run_bind r f = run_bind r' f'"
  by (cases r') auto

definition put_cell :: "ptr list \<Rightarrow> nat \<Rightarrow> ptr \<Rightarrow> ptr list run" where
  "put_cell blk i x = (if i < length blk then Value (blk[i := x]) else Undefined)"

definition free_ptr :: "ptr \<Rightarrow> unit run" where
  "free_ptr x = (case x of Null \<Rightarrow> Value () | Heap b \<Rightarrow> Value () | _ \<Rightarrow> Undefined)"

section \<open>Argument vectors\<close>

text \<open>What is left of a variable argument list, \<open>None\<close> for \<open>NULL\<close>; reading past its end is undefined.\<close>

fun count_arglist :: "nat \<Rightarrow> bytes option list \<Rightarrow> nat run" where
  "count_arglist n (Some a # ap) = count_arglist (n + 1) ap"
| "count_arglist n (None # ap) = Value n"
| "count_arglist n [] = Undefined"

fun argv_loop :: "ptr list \<Rightarrow> nat \<Rightarrow> bytes option list \<Rightarrow> ptr list run" where
  "argv_loop argv i (Some a # ap) = run_bind (put_cell argv i (Caller a)) (\<lambda>argv. argv_loop argv (i + 1) ap)"
| "argv_loop argv i (None # ap) = put_cell argv i Null"
| "argv_loop argv i [] = Undefined"

definition make_argv ::
  "'w libc \<Rightarrow> nat \<Rightarrow> bytes \<Rightarrow> bytes option list \<Rightarrow> 'w proc \<Rightarrow> (ptr list option \<times> 'w proc) run" where
  "make_argv K argc arg ap p =
     (let (ok, p) = sys (k_malloc K ((argc + 1) * 8)) p
      in if ok then run_bind (put_cell (replicate (argc + 1) Uninit) 0 (Caller arg)) (\<lambda>argv.
                    run_bind (argv_loop argv 1 ap) (\<lambda>argv. Value (Some argv, p)))
         else Value (None, p))"

section \<open>The environment of the new program\<close>

definition LDP :: bytes where "LDP = ''LD_PRELOAD=''"
definition LMTF :: bytes where "LMTF = ''BUILDSH_TEMPFILE=''"
definition LMPL :: bytes where "LMPL = ''BUILDSH_PRELOAD=''"
definition DIL :: bytes where "DIL = ''DYLD_INSERT_LIBRARIES=''"
definition DFFNS :: bytes where "DFFNS = ''DYLD_FORCE_FLAT_NAMESPACE=''"

record env_pos =
  ldp_pos :: u64
  dil_pos :: u64
  dffns_pos :: u64
  lmtf_pos :: u64
  lmpl_pos :: u64

definition NOPOS :: u64 where "NOPOS = - 1"

text \<open>\<open>strncmp(a, b, sizeof(b))\<close> takes the terminating zero byte of \<open>b\<close> as part of what it compares.\<close>

definition strncmp_eq :: "bytes \<Rightarrow> bytes \<Rightarrow> nat \<Rightarrow> bool" where
  "strncmp_eq a b n \<longleftrightarrow> take n (a @ [CHR 0x00]) = take n (b @ [CHR 0x00])"

definition sizeof_lit :: "bytes \<Rightarrow> nat" where
  "sizeof_lit s = length s + 1"

fun scan_loop :: "bytes list \<Rightarrow> u64 \<Rightarrow> env_pos \<Rightarrow> u64 \<times> env_pos" where
  "scan_loop [] n q = (n, q)"
| "scan_loop (s # env) n q =
     scan_loop env (n + 1)
       (if ldp_pos q \<noteq> NOPOS \<and> strncmp_eq s LDP (sizeof_lit LDP) then q\<lparr>ldp_pos := n\<rparr>
        else if lmtf_pos q \<noteq> NOPOS \<and> strncmp_eq s LMTF (sizeof_lit LMTF) then q\<lparr>lmtf_pos := n\<rparr>
        else if lmpl_pos q \<noteq> NOPOS \<and> strncmp_eq s LMPL (sizeof_lit LMPL) then q\<lparr>lmpl_pos := n\<rparr>
        else if dil_pos q \<noteq> NOPOS \<and> strncmp_eq s DIL (sizeof_lit DIL) then q\<lparr>dil_pos := n\<rparr>
        else if dffns_pos q \<noteq> NOPOS \<and> strncmp_eq s DFFNS (sizeof_lit DFFNS) then q\<lparr>dffns_pos := n\<rparr>
        else q)"

definition scan_env :: "bytes list \<Rightarrow> u64 \<times> env_pos" where
  "scan_env env = scan_loop env 0
     \<lparr>ldp_pos = NOPOS, dil_pos = NOPOS, dffns_pos = NOPOS, lmtf_pos = NOPOS, lmpl_pos = NOPOS\<rparr>"

definition free_at :: "ptr list \<Rightarrow> u64 \<Rightarrow> unit run" where
  "free_at env pos =
     (if pos \<noteq> NOPOS
      then (if unat pos < length env then free_ptr (env ! unat pos) else Undefined) else Value ())"

definition free_env :: "ptr list option \<Rightarrow> env_pos \<Rightarrow> unit run" where
  "free_env env q =
     (case env of None \<Rightarrow> Value ()
      | Some env \<Rightarrow>
          run_bind (free_at env (ldp_pos q)) (\<lambda>_.
          run_bind (free_at env (dil_pos q)) (\<lambda>_.
          run_bind (free_at env (dffns_pos q)) (\<lambda>_.
          run_bind (free_at env (lmtf_pos q)) (\<lambda>_. free_at env (lmpl_pos q))))))"

definition concat_str :: "'w libc \<Rightarrow> bytes \<Rightarrow> bytes \<Rightarrow> 'w proc \<Rightarrow> ptr \<times> 'w proc" where
  "concat_str K s1 s2 p =
     (let (ok, p) = sys (k_malloc K (length s1 + length s2 + 1)) p
      in (if ok then Heap (map Some (s1 @ s2 @ [CHR 0x00])) else Null, p))"

definition dffns_default :: bytes where "dffns_default = DFFNS @ ''y''"
definition lmtf_default :: bytes where "lmtf_default = LMTF @ BUILDSH_TEMPFILE_DEFAULT"

text \<open>The handlers return the block, the position left to free, and whether they succeeded.\<close>

type_synonym 'w handled = "(ptr list \<times> u64 \<times> bool \<times> 'w proc) run"

definition handle_lmtf :: "'w libc \<Rightarrow> ptr list \<Rightarrow> bytes option \<Rightarrow> u64 \<Rightarrow> 'w proc \<Rightarrow> 'w handled" where
  "handle_lmtf K dest cur pos p =
     (let fname = k_getenv K ''BUILDSH_TEMPFILE'' (world p) in
      if (case cur of None \<Rightarrow> False
          | Some c \<Rightarrow> drop (sizeof_lit LMTF - 1) c =
                      (case fname of Some f \<Rightarrow> f | None \<Rightarrow> BUILDSH_TEMPFILE_DEFAULT))
      then run_bind (put_cell dest (unat pos) (Caller (the cur))) (\<lambda>dest. Value (dest, NOPOS, True, p))
      else (case fname of
          None \<Rightarrow> run_bind (put_cell dest (unat pos) (Static lmtf_default))
                    (\<lambda>dest. Value (dest, NOPOS, True, p))
        | Some f \<Rightarrow>
            let (mem, p) = concat_str K LMTF f p
            in run_bind (put_cell dest (unat pos) mem) (\<lambda>dest. Value (dest, pos, mem \<noteq> Null, p))))"

definition handle_lmpl :: "'w libc \<Rightarrow> ptr list \<Rightarrow> bytes option \<Rightarrow> u64 \<Rightarrow> 'w proc \<Rightarrow> 'w handled" where
  "handle_lmpl K dest cur pos p =
     (case k_getenv K ''BUILDSH_PRELOAD'' (world p) of None \<Rightarrow> Aborted
      | Some f \<Rightarrow>
          if (case cur of None \<Rightarrow> False | Some c \<Rightarrow> drop (sizeof_lit LMPL - 1) c = f)
          then run_bind (put_cell dest (unat pos) (Caller (the cur))) (\<lambda>dest. Value (dest, NOPOS, True, p))
          else let (mem, p) = concat_str K LMPL f p
               in run_bind (put_cell dest (unat pos) mem) (\<lambda>dest. Value (dest, pos, mem \<noteq> Null, p)))"

fun strstr :: "bytes \<Rightarrow> bytes \<Rightarrow> bool" where
  "strstr [] f \<longleftrightarrow> f = []"
| "strstr (c # s) f \<longleftrightarrow> take (length f) (c # s) = f \<or> strstr s f"

text \<open>The block of a prefixed list has room for a zero byte that is never written.\<close>

definition handle_ldp ::
  "'w libc \<Rightarrow> ptr list \<Rightarrow> bytes option \<Rightarrow> u64 \<Rightarrow> bytes \<Rightarrow> 'w proc \<Rightarrow> 'w handled" where
  "handle_ldp K dest cur pos pre p =
     (case k_getenv K ''BUILDSH_PRELOAD'' (world p) of None \<Rightarrow> Aborted
      | Some f \<Rightarrow>
        (case cur of
           Some c \<Rightarrow>
             if strstr (drop (length pre) c) f
             then run_bind (put_cell dest (unat pos) (Caller c)) (\<lambda>dest. Value (dest, NOPOS, True, p))
             else let old = drop (length pre) c;
                      (ok, p) = sys (k_malloc K (length pre + length old + length f + 2)) p;
                      mem = (if ok then Heap (map Some (pre @ f @ '':'' @ old) @ [None]) else Null)
                  in run_bind (put_cell dest (unat pos) mem) (\<lambda>dest. Value (dest, pos, mem \<noteq> Null, p))
         | None \<Rightarrow>
             let (mem, p) = concat_str K pre f p
             in run_bind (put_cell dest (unat pos) mem) (\<lambda>dest. Value (dest, pos, mem \<noteq> Null, p))))"

text \<open>The copy of the first \<open>n\<close> entries; \<open>lmpl_pos\<close> is not among those left out.\<close>

definition copy_env :: "bytes list \<Rightarrow> env_pos \<Rightarrow> ptr list" where
  "copy_env env q =
     map (\<lambda>(i, s). if i = ldp_pos q \<or> i = dil_pos q \<or> i = dffns_pos q \<or> i = lmtf_pos q
                   then Null else Caller s)
       (zip (map of_nat [0..<length env]) env) @ replicate 6 Uninit"

text \<open>Where a variable goes, and its old value: its place, or the next one (after \<open>++n\<close>).\<close>

definition place :: "bytes list \<Rightarrow> u64 \<Rightarrow> u64 \<Rightarrow> bytes option \<times> u64 \<times> u64" where
  "place env pos n =
     (if pos \<noteq> NOPOS then (Some (env ! unat pos), pos, n) else (None, n + 1, n + 1))"

text \<open>
  \<open>clone_env\<close> up to its last write: the filled block with the positions and the count, or \<open>None\<close>
  after the error exit.
\<close>

definition fill_env ::
  "'w libc \<Rightarrow> bytes list \<Rightarrow> 'w proc \<Rightarrow> ((ptr list \<times> u64) option \<times> env_pos \<times> 'w proc) run" where
  "fill_env K env p =
     (let (n, q) = scan_env env;
          (ok, p) = sys (k_malloc K ((unat n + 6) * 8)) p;
          error = (\<lambda>blk q p. run_bind (free_env blk q) (\<lambda>_. Value (None, q, p)))
      in if \<not> ok then error None q p else
         let blk = copy_env env q;
             (i, n) = (if dffns_pos q \<noteq> NOPOS then (dffns_pos q, n) else (n + 1, n + 1))
         in run_bind (put_cell blk (unat i) (Static dffns_default)) (\<lambda>blk.
         let q = q\<lparr>dffns_pos := NOPOS\<rparr>;
             (temp, i, n) = place env (lmtf_pos q) n
         in run_bind (handle_lmtf K blk temp i p) (\<lambda>(blk, i, ok, p).
         let q = q\<lparr>lmtf_pos := i\<rparr> in
         if \<not> ok then error (Some blk) q p else
         let (temp, i, n) = place env (lmpl_pos q) n
         in run_bind (handle_lmpl K blk temp i p) (\<lambda>(blk, i, ok, p).
         let q = q\<lparr>lmpl_pos := i\<rparr> in
         if \<not> ok then error (Some blk) q p else
         let (temp, i, n) = place env (ldp_pos q) n
         in run_bind (handle_ldp K blk temp i LDP p) (\<lambda>(blk, i, ok, p).
         let q = q\<lparr>ldp_pos := i\<rparr> in
         if \<not> ok then error (Some blk) q p else
         let (temp, i, n) = place env (dil_pos q) n
         in run_bind (handle_ldp K blk temp i DIL p) (\<lambda>(blk, i, ok, p).
         let q = q\<lparr>dil_pos := i\<rparr> in
         if \<not> ok then error (Some blk) q p else Value (Some (blk, n), q, p)))))))"

definition clone_env ::
  "'w libc \<Rightarrow> bytes list \<Rightarrow> 'w proc \<Rightarrow> (ptr list option \<times> env_pos \<times> 'w proc) run" where
  "clone_env K env p =
     run_bind (fill_env K env p) (\<lambda>(r, q, p).
       case r of None \<Rightarrow> Value (None, q, p)
       | Some (blk, n) \<Rightarrow> run_bind (put_cell blk (unat (n + 1)) Null) (\<lambda>blk. Value (Some blk, q, p)))"

section \<open>The exec family\<close>

text \<open>\<open>my_execve\<close> and \<open>my_execvpe\<close> differ only in the function they hand over to.\<close>

definition exec_with_env ::
  "(ptr list \<Rightarrow> ('w, int) sys) \<Rightarrow> 'w libc \<Rightarrow> bytes \<Rightarrow> bytes list \<Rightarrow> 'w proc \<Rightarrow> (int \<times> 'w proc) run option" where
  "exec_with_env orig K prog env p =
     do { p \<leftarrow> report_exec K prog p;
          Some (run_bind (clone_env K env p) (\<lambda>(new_env, q, p).
            let (retval, p) = (case new_env of
                  None \<Rightarrow> (- 1, p\<lparr>errno := ENOMEM\<rparr>) | Some e \<Rightarrow> sys (orig e) p)
            in run_bind (free_env new_env q) (\<lambda>_. Value (retval, p)))) }"

definition my_execve ::
  "'w libc \<Rightarrow> bytes \<Rightarrow> ptr list \<Rightarrow> bytes list \<Rightarrow> 'w proc \<Rightarrow> (int \<times> 'w proc) run option" where
  "my_execve K prog argv env p = exec_with_env (orig_execve K prog argv) K prog env p"

definition my_execvpe ::
  "'w libc \<Rightarrow> bytes \<Rightarrow> ptr list \<Rightarrow> bytes list \<Rightarrow> 'w proc \<Rightarrow> (int \<times> 'w proc) run option" where
  "my_execvpe K prog argv env p = exec_with_env (orig_execvpe K prog argv) K prog env p"

definition my_execv :: "'w libc \<Rightarrow> bytes \<Rightarrow> ptr list \<Rightarrow> 'w proc \<Rightarrow> (int \<times> 'w proc) run option" where
  "my_execv K prog argv p =
     do { p \<leftarrow> report_exec K prog p;
          Some (Value (sys (orig_execve K prog argv (k_environ K (world p))) p)) }"

definition my_execvp :: "'w libc \<Rightarrow> bytes \<Rightarrow> ptr list \<Rightarrow> 'w proc \<Rightarrow> (int \<times> 'w proc) run option" where
  "my_execvp K prog argv p =
     do { p \<leftarrow> report_exec K prog p;
          Some (Value (sys (orig_execvpe K prog argv (k_environ K (world p))) p)) }"

definition my_execl :: "'w libc \<Rightarrow> bytes \<Rightarrow> bytes \<Rightarrow> bytes option list \<Rightarrow> 'w proc \<Rightarrow> (int \<times> 'w proc) run option" where
  "my_execl K prog arg ap p =
     do { p \<leftarrow> report_exec K prog p;
          Some (run_bind (count_arglist 1 ap) (\<lambda>argc.
                run_bind (make_argv K argc arg ap p) (\<lambda>(argv, p).
            case argv of None \<Rightarrow> Value (- 1, p\<lparr>errno := ENOMEM\<rparr>)
            | Some argv \<Rightarrow> Value (sys (orig_execve K prog argv (k_environ K (world p))) p)))) }"

definition my_execlp :: "'w libc \<Rightarrow> bytes \<Rightarrow> bytes \<Rightarrow> bytes option list \<Rightarrow> 'w proc \<Rightarrow> (int \<times> 'w proc) run option" where
  "my_execlp K prog arg ap p =
     do { p \<leftarrow> report_exec K prog p;
          Some (run_bind (count_arglist 1 ap) (\<lambda>argc.
                run_bind (make_argv K argc arg ap p) (\<lambda>(argv, p).
            case argv of None \<Rightarrow> Value (- 1, p\<lparr>errno := ENOMEM\<rparr>)
            | Some argv \<Rightarrow> Value (sys (orig_execvpe K prog argv (k_environ K (world p))) p)))) }"

text \<open>\<open>env\<close> is the environment passed behind the \<open>NULL\<close> that ends \<open>ap\<close>.\<close>

definition my_execle ::
  "'w libc \<Rightarrow> bytes \<Rightarrow> bytes \<Rightarrow> bytes option list \<Rightarrow> bytes list \<Rightarrow> 'w proc \<Rightarrow> (int \<times> 'w proc) run option" where
  "my_execle K prog arg ap env p =
     do { p \<leftarrow> report_exec K prog p;
          Some (run_bind (count_arglist 1 ap) (\<lambda>argc.
                run_bind (clone_env K env p) (\<lambda>(env, q, p).
            case env of None \<Rightarrow> run_bind (free_env None q) (\<lambda>_. Value (- 1, p\<lparr>errno := ENOMEM\<rparr>))
            | Some e \<Rightarrow>
                run_bind (make_argv K argc arg ap p) (\<lambda>(argv, p).
                let (retval, p) = (case argv of
                      None \<Rightarrow> (- 1, p\<lparr>errno := ENOMEM\<rparr>)
                    | Some argv \<Rightarrow> sys (orig_execvpe K prog argv e) p)
                in run_bind (free_env (Some e) q) (\<lambda>_. Value (retval, p)))))) }"

section \<open>Argument vectors are exact\<close>

lemma count_arglist_args: "count_arglist n (map Some args @ [None]) = Value (n + length args)"
  by (induction args arbitrary: n) auto

lemma argv_loop_args:
  "argv_loop (pre @ replicate (length args + 1) Uninit) (length pre) (map Some args @ [None]) =
     Value (pre @ map Caller args @ [Null])"
proof (induction args arbitrary: pre)
  case Nil
  then show ?case by (simp add: put_cell_def list_update_append)
next
  case (Cons a args)
  show ?case
    using Cons.IH [of "pre @ [Caller a]"] by (simp add: put_cell_def list_update_append)
qed

lemma make_argv_args:
  assumes "k_malloc K ((length args + 2) * 8) (errno p, world p) = (True, e, w)"
  shows "make_argv K (1 + length args) arg (map Some args @ [None]) p =
    Value (Some (map Caller (arg # args) @ [Null]), p\<lparr>errno := e, world := w\<rparr>)"
  using assms argv_loop_args [of "[Caller arg]" args]
  by (simp add: make_argv_def sys_def put_cell_def)

text \<open>C16: with memory for the vector, \<open>execl\<close> is \<open>execv\<close> on the vector of its arguments, ended by
  \<open>NULL\<close>: no argument is lost, and no entry outside the vector is touched.\<close>

theorem execl_is_execv:
  assumes "\<And>n e w. k_malloc K n (e, w) = (True, e, w)"
  shows "my_execl K prog arg (map Some args @ [None]) p =
    my_execv K prog (map Caller (arg # args) @ [Null]) p"
proof -
  have "make_argv K (Suc (length args)) arg (map Some args @ [None]) q =
      Value (Some (map Caller (arg # args) @ [Null]), q)" for q
    using make_argv_args [of K args q "errno q" "world q" arg] assms by simp
  then show ?thesis
    by (simp add: my_execl_def my_execv_def count_arglist_args cong: option.case_cong)
qed

text \<open>The same two calls on a kernel that always has memory.\<close>

theorem execl_is_execv_witness:
  "my_execl toy_libc ''cc'' ''cc'' (map Some [''-c'', ''x.c''] @ [None]) \<lparr>errno = 0, log_fd = 3, world = ([], 1)\<rparr> =
    my_execv toy_libc ''cc'' (map Caller [''cc'', ''-c'', ''x.c''] @ [Null]) \<lparr>errno = 0, log_fd = 3, world = ([], 1)\<rparr>"
  using execl_is_execv [of toy_libc "''cc''" "''cc''" "[''-c'', ''x.c'']" "\<lparr>errno = 0, log_fd = 3, world = ([], 1)\<rparr>"]
  by (simp add: toy_libc_def)

section \<open>A program is logged before it starts\<close>

lemma report_exec_done:
  assumes "good_log K L" "tracing L p"
  shows "\<exists>p'. report_exec K prog p = Some p' \<and>
    log_text L (world p') = log_text L (world p) @ event_line (k_getpid K (world p)) (Executed prog) \<and>
    tracing L p'"
  unfolding report_exec_def
  by (rule with_log_done [OF assms]; (rule ends_with_intros [OF assms(1)], assumption)+;
      erule ends_with_done)
    (simp add: event_line_def appended_reads)

text \<open>\<open>execv\<close> and \<open>execvp\<close> hand over to the original call with the program's line already in the
  log, and with the arguments and the environment of the caller.\<close>

theorem execv_logs_first:
  assumes "good_log K L" "tracing L p"
  shows "\<exists>p'. log_text L (world p') =
        log_text L (world p) @ event_line (k_getpid K (world p)) (Executed prog) \<and>
      my_execv K prog argv p = Some (Value (sys (orig_execve K prog argv (k_environ K (world p'))) p')) \<and>
      my_execvp K prog argv p = Some (Value (sys (orig_execvpe K prog argv (k_environ K (world p'))) p'))"
  using report_exec_done [OF assms, of prog] by (auto simp: my_execv_def my_execvp_def)

theorem execv_logs_first_witness:
  "\<exists>p'. fst (world p') = event_line 7 (Executed ''ld'') \<and>
      my_execv toy_libc ''ld'' [Null] \<lparr>errno = 0, log_fd = - 1, world = ([], 3)\<rparr> =
        Some (Value (sys (orig_execve toy_libc ''ld'' [Null] (k_environ toy_libc (world p'))) p'))"
  using execv_logs_first [OF toy_good, of "\<lparr>errno = 0, log_fd = - 1, world = ([], 3)\<rparr>" "''ld''" "[Null]"]
  by (auto simp: tracing_def toy_libc_def toy_log_def)

section \<open>The copied environment\<close>

lemma scan_loop_blind:
  "ldp_pos q = NOPOS \<Longrightarrow> dil_pos q = NOPOS \<Longrightarrow> dffns_pos q = NOPOS \<Longrightarrow> lmtf_pos q = NOPOS \<Longrightarrow>
    lmpl_pos q = NOPOS \<Longrightarrow> scan_loop env n q = (n + of_nat (length env), q)"
  by (induction env arbitrary: n) (simp_all add: add.assoc)

text \<open>C15: \<open>scan_env\<close> reports every variable as missing, whatever the environment holds: each test asks
  for a position that is already known.\<close>

theorem scan_env_blind:
  "scan_env env = (of_nat (length env),
     \<lparr>ldp_pos = NOPOS, dil_pos = NOPOS, dffns_pos = NOPOS, lmtf_pos = NOPOS, lmpl_pos = NOPOS\<rparr>)"
  unfolding scan_env_def by (subst scan_loop_blind) simp_all

text \<open>Even with the positions unset the test would find only a variable with an empty value.\<close>

lemma strncmp_sizeof:
  assumes "CHR 0x00 \<notin> set s"
  shows "strncmp_eq s v (sizeof_lit v) \<longleftrightarrow> s = v"
proof
  assume "strncmp_eq s v (sizeof_lit v)"
  then have eq: "take (length v + 1) (s @ [CHR 0x00]) = v @ [CHR 0x00]"
    by (simp add: strncmp_eq_def sizeof_lit_def)
  then have "length v + 1 \<le> length s + 1"
    by (metis length_append_singleton length_take min.absorb_iff2 min.commute min_def nat_le_linear Suc_eq_plus1)
  moreover have "\<not> length v < length s"
  proof
    assume "length v < length s"
    then have "take (length v + 1) s = v @ [CHR 0x00]" using eq by simp
    then have "CHR 0x00 \<in> set s" by (metis in_set_conv_decomp in_set_takeD)
    then show False using assms by simp
  qed
  ultimately have "length v = length s" by simp
  then show "s = v" using eq by simp
qed (simp add: strncmp_eq_def)

lemma place_new: "place env NOPOS n = (None, n + 1, n + 1)"
  by (simp add: place_def)

lemma unat_after: "length xs + 7 < 2 ^ 64 \<Longrightarrow> k < 7 \<Longrightarrow> unat (of_nat (length xs) + of_nat k :: u64) = length xs + k"
  for xs :: "'a list"
  by (simp flip: of_nat_add add: unat_of_nat)

definition tempfile_cell :: "'w libc \<Rightarrow> 'w \<Rightarrow> ptr" where
  "tempfile_cell K w = (case k_getenv K ''BUILDSH_TEMPFILE'' w of None \<Rightarrow> Static lmtf_default
     | Some f \<Rightarrow> Heap (map Some (LMTF @ f @ [CHR 0x00])))"

lemma handle_new:
  assumes "\<And>n e w. k_malloc K n (e, w) = (True, e, w)" "unat i < length dest"
  shows "handle_lmtf K dest None i p =
      Value (dest[unat i := tempfile_cell K (world p)],
             if k_getenv K ''BUILDSH_TEMPFILE'' (world p) = None then NOPOS else i, True, p)"
    and "k_getenv K ''BUILDSH_PRELOAD'' (world p) = Some f \<Longrightarrow>
      handle_lmpl K dest None i p = Value (dest[unat i := Heap (map Some (LMPL @ f @ [CHR 0x00]))], i, True, p)"
    and "k_getenv K ''BUILDSH_PRELOAD'' (world p) = Some f \<Longrightarrow>
      handle_ldp K dest None i pre p = Value (dest[unat i := Heap (map Some (pre @ f @ [CHR 0x00]))], i, True, p)"
  using assms
  by (simp_all add: handle_lmtf_def handle_lmpl_def handle_ldp_def put_cell_def concat_str_def sys_def
      tempfile_cell_def split: option.splits)

lemma copy_env_blind:
  assumes "length env < 2 ^ 63"
  shows "copy_env env \<lparr>ldp_pos = NOPOS, dil_pos = NOPOS, dffns_pos = NOPOS, lmtf_pos = NOPOS, lmpl_pos = NOPOS\<rparr> =
    map Caller env @ replicate 6 Uninit"
proof -
  have "(of_nat i :: u64) \<noteq> NOPOS" if "i < length env" for i
  proof
    assume "(of_nat i :: u64) = NOPOS"
    then have "unat (of_nat i :: u64) = unat (- 1 :: u64)" by (simp add: NOPOS_def)
    moreover have "unat (- 1 :: u64) = 2 ^ 64 - 1"
      by (simp add: unsigned_minus_1_eq_mask mask_eq_exp_minus_1)
    moreover have "unat (of_nat i :: u64) = i"
      using that assms by (simp add: unat_of_nat)
    ultimately show False using that assms by simp
  qed
  then have "map (\<lambda>(i, s). if i = NOPOS then Null else Caller s) (zip (map of_nat [0..<length env]) env) =
      map Caller env"
    by (intro nth_equalityI) auto
  then show ?thesis by (simp add: copy_env_def)
qed

lemma fill_env_filled:
  assumes "\<And>n e w. k_malloc K n (e, w) = (True, e, w)" "length env < 2 ^ 63"
    and "k_getenv K ''BUILDSH_PRELOAD'' (world p) = Some f"
  shows "\<exists>q. fill_env K env p =
    Value (Some (map Caller env @
      [Uninit, Static dffns_default, tempfile_cell K (world p),
       Heap (map Some (LMPL @ f @ [CHR 0x00])), Heap (map Some (LDP @ f @ [CHR 0x00])),
       Heap (map Some (DIL @ f @ [CHR 0x00]))], of_nat (length env) + 5), q, p)"
proof -
  have at: "unat (of_nat (length env) + of_nat k :: u64) = length env + k" if "k < 7" for k
    using unat_after [of env k] assms(2) that by simp
  have at': "unat (of_nat (length env) + 1 :: u64) = length env + 1"
    "unat (of_nat (length env) + 2 :: u64) = length env + 2"
    "unat (of_nat (length env) + 3 :: u64) = length env + 3"
    "unat (of_nat (length env) + 4 :: u64) = length env + 4"
    "unat (of_nat (length env) + 5 :: u64) = length env + 5"
    using at [of 1] at [of 2] at [of 3] at [of 4] at [of 5] by simp_all
  have steps: "of_nat (length env) + 1 + 1 = (of_nat (length env) + 2 :: u64)"
    "of_nat (length env) + 2 + 1 = (of_nat (length env) + 3 :: u64)"
    "of_nat (length env) + 3 + 1 = (of_nat (length env) + 4 :: u64)"
    "of_nat (length env) + 4 + 1 = (of_nat (length env) + 5 :: u64)"
    by simp_all
  have six: "replicate 6 Uninit = [Uninit, Uninit, Uninit, Uninit, Uninit, Uninit]"
    by (simp add: numeral_eq_Suc)
  show ?thesis
    unfolding fill_env_def scan_env_blind
    by (simp add: Let_def sys_def assms(1) copy_env_blind [OF assms(2)] put_cell_def at' place_new steps
        handle_new [OF assms(1)] assms(3) six list_update_append)
qed

text \<open>the copy of an environment of \<open>n\<close> variables leaves entry \<open>n\<close> unwritten, behind the caller's
  variables, none of which it replaces, and puts the five variables of the tracer behind that gap.\<close>

theorem fill_env_gap:
  assumes "\<And>n e w. k_malloc K n (e, w) = (True, e, w)" "length env < 2 ^ 63"
    and "k_getenv K ''BUILDSH_PRELOAD'' (world p) = Some f"
  shows "\<exists>q. fill_env K env p =
    Value (Some (map Caller env @
      [Uninit, Static dffns_default, tempfile_cell K (world p),
       Heap (map Some (LMPL @ f @ [CHR 0x00])), Heap (map Some (LDP @ f @ [CHR 0x00])),
       Heap (map Some (DIL @ f @ [CHR 0x00]))], of_nat (length env) + 5), q, p)"
  using assms by (rule fill_env_filled)

theorem fill_env_gap_witness:
  "\<exists>q. fill_env (toy_libc\<lparr>k_getenv := \<lambda>v w. Some ''/p.so''\<rparr>) [''HOME=/''] \<lparr>errno = 0, log_fd = 3, world = ([], 0)\<rparr> =
    Value (Some ([Caller ''HOME=/'', Uninit, Static dffns_default, Heap (map Some (LMTF @ ''/p.so'' @ [CHR 0x00])),
       Heap (map Some (LMPL @ ''/p.so'' @ [CHR 0x00])), Heap (map Some (LDP @ ''/p.so'' @ [CHR 0x00])),
       Heap (map Some (DIL @ ''/p.so'' @ [CHR 0x00]))], 6), q, \<lparr>errno = 0, log_fd = 3, world = ([], 0)\<rparr>)"
  using fill_env_gap [of "toy_libc\<lparr>k_getenv := \<lambda>v w. Some ''/p.so''\<rparr>" "[''HOME=/'']"
      "\<lparr>errno = 0, log_fd = 3, world = ([], 0)\<rparr>" "''/p.so''"]
  by (simp add: toy_libc_def tempfile_cell_def)

text \<open>C14: with memory granted, \<open>clone_env\<close> never returns a copy: the write of the terminating \<open>NULL\<close> falls
  behind the end of the block, for every environment.\<close>

theorem clone_env_overruns:
  assumes "\<And>n e w. k_malloc K n (e, w) = (True, e, w)" "length env < 2 ^ 63"
    and "k_getenv K ''BUILDSH_PRELOAD'' (world p) = Some f"
  shows "clone_env K env p = Undefined"
proof -
  have "unat (6 + of_nat (length env) :: u64) = length env + 6"
    using unat_after [of env 6] assms(2) by (simp add: add.commute)
  moreover have "of_nat (length env) + 5 + 1 = (of_nat (length env) + 6 :: u64)" by simp
  ultimately show ?thesis
    using fill_env_filled [OF assms] by (auto simp: clone_env_def put_cell_def)
qed

theorem clone_env_overruns_witness:
  "clone_env (toy_libc\<lparr>k_getenv := \<lambda>v w. Some ''/p.so''\<rparr>) [''HOME=/''] \<lparr>errno = 0, log_fd = 3, world = ([], 0)\<rparr> =
     Undefined"
  by (rule clone_env_overruns [where f = "''/p.so''"]) (simp_all add: toy_libc_def)

end
