(* ===== verification/Spec2Isabelle.thy ===== *)
theory Spec2Isabelle
  imports Lua_Opcodes Lua_Object Lua_Table_Props Lua_Table_Next Lua_TabLib Lua_Checker Lua_Chunk Lua_StrLib_Props Lua_Format Lua_String_Props Lua_Gc_Setupvalue Lua_Code_Arith Lua_Parser_Scope Lua_Parser_Balance Preload_Exec
begin

text \<open>
  \<^bold>\<open>buildsh\<close> is a build tool: a Lua 5.1.5 interpreter (\<open>src/src/l*.c\<close>) with a binding to
  the Apache Portable Runtime (\<open>src/src/ape*.c\<close>), a driver (\<open>buildsh.c\<close>) that runs build scripts,
  and a shared library (\<open>src/etc/preload.c\<close>) that is preloaded into the commands of a build and
  logs the files they touch, so that the scripts can find out what a target depends on. This
  development models the parts with logic of their own: the data structures of the interpreter, its
  binary formats, its code checker, the string matcher and the tracer.

  \<^bold>\<open>Theories and the code they model.\<close>

  \<^item> \<open>Lua_Prelude\<close>: machine integers, results with errors (\<open>bind\<close>), byte strings, list lemmas.
  \<^item> \<open>Lua_Opcodes\<close> (\<open>lopcodes.h\<close>, \<open>lopcodes.c\<close>): the macros on 32-bit instructions and the opcode
    table. The fields determine the instruction and every legal combination is encodable.
  \<^item> \<open>Lua_Number\<close> (\<open>luaconf.h\<close>): doubles as their 64 bits: comparison and conversion from and to
    int, with NaN, signed zero and the results out of range. No floating point arithmetic.
  \<^item> \<open>Lua_Object\<close> (\<open>lobject.h/.c\<close>, \<open>lmem.h/.c\<close>): tagged values, raw equality, the floating point
    byte, logarithms, formatted messages, chunk names, and the allocator's size arithmetic.
  \<^item> \<open>Lua_Table\<close> (\<open>ltable.c\<close>): the record of a table (array part, node vector with \<open>next\<close> links,
    \<open>lastfree\<close>) and its operations. \<open>newkey\<close> and \<open>rehash\<close> call each other through
    \<open>luaH_set\<close>; the definitions take the callee as an argument, and the recursion is unfolded with a
    bound on its depth, which \<open>Lua_Table_Rehash\<close> shows to be enough: behind one rehash
    there is a free node for the pending key. \<open>Lua_Table_Chains\<close> holds the invariant of the collision
    chains, \<open>Lua_Table_Ops\<close> insertion, \<open>Lua_Table_Rehash\<close> counting and resizing, \<open>Lua_Table_Spec\<close>
    the finite map a table stands for, \<open>Lua_Table_Next\<close> traversal by \<open>luaH_next\<close> while fields are assigned to and
    cleared and keys become dead, \<open>Lua_Table_Props\<close> the refinement theorems, the locale
    \<open>raw_array\<close> (raw access of integer keys, the contract of the API's \<open>lua_rawgeti\<close> and
    \<open>lua_rawseti\<close> in \<open>lapi.c\<close>) and its interpretation \<open>tab\<close> on the tables.
  \<^item> \<open>Lua_TabLib\<close> (\<open>ltablib.c\<close>): every function of the table library over that interface;
    insertion and removal proved inside the locale for any provider. Calls of Lua functions, the
    order of values and the conversion of arguments are parameters.
  \<^item> \<open>Lua_Proto\<close>, \<open>Lua_Checker\<close> (\<open>lobject.h\<close>, \<open>ldebug.c\<close>): function prototypes and the symbolic
    execution that accepts or refuses precompiled code. Vectors are read through \<open>at\<close>, which gives
    \<open>Outside\<close> out of bounds, so that the bounds theorem is about the reads of the code.
  \<^item> \<open>Lua_Zio\<close> (\<open>lzio.c\<close>), \<open>Lua_Chunk\<close> (\<open>ldump.c\<close>, \<open>lundump.c\<close>): a stream is the list of
    blocks its reader will still give; dumping appends bytes through a writer that may fail, loading
    reads the stream. The nesting of functions is bounded by the code's own limit (200 C calls).
  \<^item> \<open>Lua_StrMatch\<close>, \<open>Lua_StrLib\<close>, \<open>Lua_StrLib_Props\<close> (\<open>lstrlib.c\<close>): pattern items, the
    backtracking matcher and the functions built on it. The recursion of \<open>do_match\<close> on the rest of
    the pattern has fuel \<open>length pat + 2\<close>: every call but the last consumes pattern, as
    \<open>match_inside\<close> shows by always answering.
  \<^item> \<open>Lua_Lex\<close>, \<open>Lua_Lex_Props\<close> (\<open>llex.c\<close>): the scanner on a stream, every function of the file; its
    loops end because the input ahead shrinks. \<open>goes\<close> and \<open>takes\<close> carry the line count through
    them. \<open>Lua_Format\<close> is \<open>string.format\<close> (\<open>lstrlib.c\<close>), whose \<open>%q\<close> the scanner reads back.
    \<open>strtod\<close>, \<open>strtoul\<close> and the decimal point of the locale are parameters.
  \<^item> \<open>Lua_String\<close>, \<open>Lua_String_Props\<close> (\<open>lstring.c\<close>, the string part of \<open>lgc.c\<close>): the table of
    interned strings with its collector. Addresses stand for pointers, a chain is the list of addresses along
    \<open>next\<close>; \<open>str_step\<close> interleaves interning with the steps of the sweep.
  \<^item> \<open>Lua_Gc\<close> (\<open>lgc.c\<close>, the upvalues of \<open>lfunc.c\<close>, the stores of \<open>lvm.c\<close>, \<open>lapi.c\<close> and the parser that
    have a barrier): the collector on a heap that maps addresses to objects. \<open>Lua_Gc_Marks\<close> is the relation
    between heaps before and after marking, \<open>Lua_Gc_Inv\<close> the invariant of the mark phase, \<open>Lua_Gc_Prop\<close>
    the traversal of one gray object, \<open>Lua_Gc_Atomic\<close> and \<open>Lua_Gc_Clear\<close> the end of the phase, \<open>Lua_Gc_Stores\<close> the
    stores of the program, \<open>Lua_Gc_Upvals\<close> the opening and closing of upvalues, and \<open>Lua_Gc_Props\<close> the
    step relation \<open>gstep\<close>, in which the program and the collector take turns. It has every modelled operation but one:
    \<open>lua_setupvalue\<close> storing a white value into a black upvalue of a Lua function that is not black, the store with
    the wrong barrier that \<open>Lua_Gc_Setupvalue\<close> is about. Marking
    recurs to depth 3 at most, which \<open>reallymark_marks\<close> proves enough.
  \<^item> \<open>Lua_Code\<close> (\<open>lcode.c\<close>, \<open>lcode.h\<close>, the records of \<open>lparser.h\<close>): the code generator, every function of the
    file, on a record for \<open>FuncState\<close> (code and line numbers up to \<open>pc\<close>, the vector of constants and the table
    that finds them) and one for \<open>expdesc\<close>. An operation takes the state and gives \<open>Ret\<close> with a result
    and a new state, \<open>Err\<close>, or \<open>Loop\<close> when a jump list does not end; the loops over a list have the length of
    the code as fuel, enough because a list never visits a place twice (\<open>jlist_length\<close>).
    \<open>Lua_Code_Jumps\<close> holds the jump lists (its theorems are about lists of \<open>OP_JMP\<close>, not the two loop
    instructions), \<open>Lua_Code_Consts\<close> the constants, whose table has an entry true for each string the scanner has
    anchored in it (\<open>anchor_string\<close>), and \<open>Lua_Code_Arith\<close> runs
    what is generated for arithmetic on the cases of \<open>luaV_execute\<close> (\<open>lvm.c\<close>) it needs; \<open>gen\<close> there makes
    the calls of the parser's \<open>subexpr\<close> on a syntax tree. \<open>runs\<close> executes code with any instructions and jumps, whose
    meaning is a parameter but for \<open>OP_LOADNIL\<close>, for the equivalence of \<open>luaK_nil\<close>.
  \<^item> \<open>Lua_Parser\<close>, \<open>Lua_Grammar\<close> (\<open>lparser.c\<close>, the reserved words of \<open>llex.h\<close>): the parser, every function of
    the file. The record \<open>Parser\<close> holds the chain of functions that are being compiled (innermost first, each
    with its variables, upvalues and blocks), the analyser and the memory they share, the count of
    nested calls, and the functions that are finished. \<open>Lua_Parser\<close> has names, scopes and blocks,
    \<open>Lua_Grammar\<close> the rules, one definition per function, which run the operations of \<open>Lua_Code\<close> on the
    innermost function. The scanner hands the strings it has made to the innermost function, which enters them
    in its table of constants (\<open>anchor_new\<close>). The rules reach \<open>subexpr\<close> and \<open>chunk\<close> through the record \<open>pcalls\<close>; \<open>calls L n\<close> ties the
    recursion with fuel \<open>n\<close>, which bounds the nesting and the rounds of each loop, and a parse that runs
    out of it is \<open>PFuel\<close>, an outcome of its own (\<open>PLoop\<close> is a jump list that does not end). \<open>Lua_Parser_Scope\<close> is the resolution of names,
    \<open>Lua_Parser_Balance\<close> what is opened and closed: the locale \<open>callbacks\<close> states what a rule needs of the two
    rules it calls back, and its interpretation \<open>parser\<close> shows that \<open>calls\<close> provides it.
  \<^item> \<open>Preload_Log\<close>, \<open>Preload_Log_Props\<close>, \<open>Preload_Exec\<close> (\<open>etc/preload.c\<close>): the C library is a
    record of functions on an abstract world (\<open>libc\<close>); loops that retry are partial functions whose
    answer is part of what is proved; environments and argument vectors are cells that may be
    unwritten, so that reads of unwritten cells and writes out of a block are visible.

  \<^bold>\<open>What the theorems show.\<close> Tables refine finite maps (lookup, store with collisions and rehash,
  traversal, length), including the errors and one failure that loses keys. Instructions, table size
  bytes, precompiled chunks and the tracer's log are encodings that can be read back. Code
  the checker accepts stays inside itself at each checked instruction, and the checker reads
  only inside the vectors of the function. The matcher always answers, inside its subject. A traced call is the original call for
  its caller and adds one line to the log, under the hypothesis that the log file can be opened,
  locked and written (\<open>good_log\<close>, with retries after interrupts). Whatever the program stores while
  a mark phase runs (the store of \<open>Lua_Gc_Setupvalue\<close> excepted), nothing it can reach is dead
  when the phase ends, and the phase does end. The code generator resolves every jump of its lists to
  the place it has to go, keeps the constants and their table in agreement, and the code it emits for
  arithmetic computes the value of the expression, as long as no constant is -0. The parser
  resolves a name to the variable that lexical scoping says, through the functions in between, and
  a parse that returns has closed every block, function and level it opened. The deviations that the models exhibit are theorems too: the environment handling of the tracer (\<open>scan_env\<close>, \<open>fill_env\<close>,
  \<open>clone_env\<close>), \<open>LOADBOOL\<close> and null strings in precompiled code, a replacement ending in an escape,
  the barrier of \<open>lua_setupvalue\<close>, the constant -0.

  \<^bold>\<open>Not modelled.\<close> Still open: the interpreter loop but for arithmetic on numbers, a proof about the code
  generated for conditions, calls and statements, a bound on the fuel a parse needs, the accounting of the
  bytes of new tables and prototypes in the parser, and of the
  collector the sweep of other objects than strings, the calls of finalizers and its pace. Of the tracer, \<open>execl\<close> is
  modelled with a first argument, and without the release of its vector behind a failed call. In the table library's
  instance numeric strings are not converted to positions. Left out: the
  stack bookkeeping of the API and the libraries that only call the C
  library (\<open>liolib.c\<close>, \<open>loslib.c\<close>, \<open>lmathlib.c\<close>), the APR binding, whose operations are calls
  of a library that is not in the repository, printing and command line tools, and the scripts
  written in Lua. Memory is modelled where the code's arithmetic or order of allocation matters (sizes, limits,
  failures in \<open>resize\<close>); outside the collector's theories objects are taken to stay alive while they are used.
\<close>

end
